(* ===== verification/Jrinx_Prelude.thy ===== *)
theory Jrinx_Prelude
  imports Main "HOL-Library.Word" "HOL-Library.Multiset"
begin

unbundle bit_operations_syntax

text \<open>
  Prelude of the Jrinx development: the machine integer types of the riscv64 target, the
  kernel's error enumeration (\<^verbatim>\<open>jrinx_error::InternalError\<close>), the result type the
  operations return, the rule collections the component theories feed, and the generic
  facts on lists, words and partial maps that several components share.

  The model is of the default build (riscv64, release profile): \<^verbatim>\<open>usize\<close> is a 64-bit
  word, integer arithmetic wraps around and \<^verbatim>\<open>debug_assert!\<close> is compiled out, while a
  failed \<^verbatim>\<open>unwrap\<close>, \<^verbatim>\<open>assert!\<close>, an index out of range or an explicit
  \<^verbatim>\<open>panic!\<close> halts the machine: those are the \<open>Panic\<close> branch of a result.
\<close>

section \<open>Machine integers\<close>

type_synonym u8 = "8 word"
type_synonym u16 = "16 word"
type_synonym u32 = "32 word"
type_synonym u64 = "64 word"
type_synonym usize = "64 word"

section \<open>Errors and results\<close>

datatype internal_error =
    RepeatInitialization
  | DevProbeError
  | DevReadError
  | DevWriteError
  | DevBadState
  | NetAgain
  | NetFail
  | WouldBlock
  | ElfParseError
  | NotEnoughMem
  | InvalidCpuId
  | InvalidVirtAddr
  | DuplicateTaskId
  | InvalidExecutorId
  | DuplicateExecutorId
  | InvalidInspectorId
  | DuplicateInspectorId
  | InvalidInspectorStatus
  | InvalidRuntimeStatus
  | InvalidRuntimeSchedTable
  | InvalidParam
  | DuplicateRuntimeSchedTable
  | InvalidTimedEventStatus

text \<open>
  A Rust function of this kernel ends in one of three ways: it returns a value, it returns
  \<^verbatim>\<open>Err(e)\<close>, or it panics. \<open>Inl\<close> carries the last two.
\<close>

datatype exn = Err internal_error | Panic

type_synonym 'a res = "exn + 'a"

abbreviation Ok :: "'a \<Rightarrow> 'a res" where
  "Ok x \<equiv> Inr x"

abbreviation Fail :: "internal_error \<Rightarrow> 'a res" where
  "Fail e \<equiv> Inl (Err e)"

abbreviation Panicked :: "'a res" where
  "Panicked \<equiv> Inl Panic"

text \<open>The \<^verbatim>\<open>?\<close> operator, \<^verbatim>\<open>unwrap\<close> and \<^verbatim>\<open>ok_or\<close>.\<close>

definition bind_res :: "'a res \<Rightarrow> ('a \<Rightarrow> 'b res) \<Rightarrow> 'b res" where
  "bind_res r f = (case r of Inl e \<Rightarrow> Inl e | Inr x \<Rightarrow> f x)"

definition unwrap_res :: "'a res \<Rightarrow> 'a res" where
  "unwrap_res r = (case r of Inl _ \<Rightarrow> Panicked | Inr x \<Rightarrow> Ok x)"

definition unwrap_opt :: "'a option \<Rightarrow> 'a res" where
  "unwrap_opt r = (case r of None \<Rightarrow> Panicked | Some x \<Rightarrow> Ok x)"

definition ok_or :: "'a option \<Rightarrow> internal_error \<Rightarrow> 'a res" where
  "ok_or r e = (case r of None \<Rightarrow> Fail e | Some x \<Rightarrow> Ok x)"

definition is_ok :: "'a res \<Rightarrow> bool" where
  "is_ok r = (case r of Inl _ \<Rightarrow> False | Inr _ \<Rightarrow> True)"

section \<open>Rule collections\<close>

named_theorems jrinx_defs \<open>definitions of straight-line operations, unfolded by the component proofs\<close>
named_theorems jrinx_inv \<open>what an operation keeps of a component's invariant\<close>

section \<open>Shared facts\<close>

subsection \<open>Results\<close>

lemma bind_res_simps [simp]:
  "bind_res (Inl e) f = Inl e"
  "bind_res (Inr x) f = f x"
  by (simp_all add: bind_res_def)

lemma bind_res_eq_Inr [simp]:
  "bind_res r f = Inr y \<longleftrightarrow> (\<exists>x. r = Inr x \<and> f x = Inr y)"
  by (cases r) simp_all

lemma unwrap_res_simps [simp]:
  "unwrap_res (Inl e) = Panicked"
  "unwrap_res (Inr x) = Ok x"
  by (simp_all add: unwrap_res_def)

lemma unwrap_res_eq_Inr [simp]: "unwrap_res r = Inr x \<longleftrightarrow> r = Inr x"
  by (cases r) simp_all

lemma unwrap_opt_simps [simp]:
  "unwrap_opt None = Panicked"
  "unwrap_opt (Some x) = Ok x"
  by (simp_all add: unwrap_opt_def)

lemma unwrap_opt_eq_Inr [simp]: "unwrap_opt r = Inr x \<longleftrightarrow> r = Some x"
  by (cases r) simp_all

lemma ok_or_simps [simp]:
  "ok_or None e = Fail e"
  "ok_or (Some x) e = Ok x"
  by (simp_all add: ok_or_def)

lemma ok_or_eq_Inr [simp]: "ok_or r e = Inr x \<longleftrightarrow> r = Some x"
  by (cases r) simp_all

lemma is_ok_simps [simp]: "is_ok (Inl e) = False" "is_ok (Inr x) = True"
  by (simp_all add: is_ok_def)

subsection \<open>Lists\<close>

lemma set_list_update_subset: "set (xs[i := x]) \<subseteq> insert x (set xs)"
  by (rule set_update_subset_insert)

lemma concat_rev_map_upt_Suc:
  "concat (map f (rev [0..<Suc n])) = f n @ concat (map f (rev [0..<n]))"
  by simp

subsection \<open>Words\<close>

lemma unat_usize_less: "unat (a :: usize) < 18446744073709551616"
proof -
  have "unat a < 2 ^ 64" using unsigned_less [of a] by simp
  then show ?thesis by simp
qed

lemma unat_drop_bit_div: "unat (drop_bit n (w :: usize)) = unat w div 2 ^ n"
  by (simp only: unat_drop_bit_eq) (simp only: drop_bit_eq_div)

lemma unat_and_mask: "unat ((w :: usize) AND mask n) = unat w mod 2 ^ n"
  by (simp only: unsigned_take_bit_eq flip: take_bit_eq_mask) (simp only: take_bit_eq_mod)

lemma unat_push_bit_mult: "unat (push_bit n (w :: usize)) = unat w * 2 ^ n mod 2 ^ 64"
  by (simp only: unsigned_push_bit_eq) (simp add: push_bit_eq_mult take_bit_eq_mod)

lemma and_flag: "(w :: usize) AND push_bit n 1 = (if bit w n then push_bit n 1 else 0)"
  by (rule bit_word_eqI) (auto simp: bit_simps)

lemma bit_flag: "bit (push_bit n (1 :: usize)) m \<longleftrightarrow> m = n \<and> n < 64"
  by (auto simp: bit_simps)

lemma flag_nonzero: "n < 64 \<Longrightarrow> push_bit n (1 :: usize) \<noteq> 0"
  using bit_flag [of n n] by (metis bit_0_eq bot_apply bot_bool_def)

lemma unat_add_usize:
  "unat (a :: usize) + unat b < 18446744073709551616 \<Longrightarrow> unat (a + b) = unat a + unat b"
  by (simp add: unat_word_ariths)

lemma unat_sub_usize: "(b :: usize) \<le> a \<Longrightarrow> unat (a - b) = unat a - unat b"
  by (simp add: unat_sub)

end
