(* ===== verification/Fastpq.thy ===== *)
theory Fastpq
  imports Jrinx_Prelude
begin

text \<open>
  The bitmap priority queue of \<^verbatim>\<open>kern/modules/util/src/fastpq.rs\<close>: 64 FIFO queues and a
  64-bit summary word whose highest set bit selects the queue to serve. The executor's task
  queue and the inspector's executor queue are instances of it.

  The interface \<open>prio_fifo\<close> states what a client may rely on: the queue behaves as one list
  kept in serving order, in which an insertion goes behind every element of the same or a
  higher rank. The interpretation \<open>fpq\<close> at the end discharges it for the bitmap queue.
\<close>

unbundle bit_operations_syntax

section \<open>The code\<close>

datatype FastPriority = FastPriority u8

definition FastPriority_NUM :: nat where
  "FastPriority_NUM = 64"

definition FastPriority_MAX :: u8 where
  "FastPriority_MAX = of_nat (FastPriority_NUM - 1)"

definition FastPriority_new :: "u8 \<Rightarrow> FastPriority" where
  "FastPriority_new priority = FastPriority priority"

primrec u8_of_FastPriority :: "FastPriority \<Rightarrow> u8" where
  "u8_of_FastPriority (FastPriority v) = v"

record ('p, 'i) FastPriorityQueue =
  fpq_bits :: u64
  fpq_queues :: "('p \<times> 'i) list list"

definition fpq_new :: "('p, 'i) FastPriorityQueue" where
  "fpq_new = \<lparr>fpq_bits = 0, fpq_queues = replicate FastPriority_NUM []\<rparr>"

text \<open>
  \<^verbatim>\<open>u64::leading_zeros\<close>: the number of clear bits above the highest set one, counted from
  the top.
\<close>

fun leading_zeros_from :: "nat \<Rightarrow> u64 \<Rightarrow> nat" where
  "leading_zeros_from 0 w = 0"
| "leading_zeros_from (Suc n) w = (if bit w n then 0 else Suc (leading_zeros_from n w))"

definition leading_zeros :: "u64 \<Rightarrow> nat" where
  "leading_zeros w = leading_zeros_from 64 w"

text \<open>
  \<^verbatim>\<open>enqueue\<close> indexes the queue array with the priority and panics when it is 64 or more
  (\<^verbatim>\<open>FastPriority::new\<close> checks the range in debug builds only). \<open>into\<close> is the
  \<^verbatim>\<open>Into<FastPriority>\<close> conversion of the client's priority type.
\<close>

definition fpq_enqueue ::
  "('p \<Rightarrow> FastPriority) \<Rightarrow> 'p \<Rightarrow> 'i \<Rightarrow> ('p, 'i) FastPriorityQueue \<Rightarrow> ('p, 'i) FastPriorityQueue res" where
  "fpq_enqueue into priority item q =
     (let pri = unat (u8_of_FastPriority (into priority));
          b = push_bit (pri mod 64) 1
      in if pri < length (fpq_queues q)
         then Ok (q\<lparr>fpq_bits := fpq_bits q OR b,
                    fpq_queues := (fpq_queues q)[pri := fpq_queues q ! pri @ [(priority, item)]]\<rparr>)
         else Panicked)"

definition fpq_dequeue ::
  "('p, 'i) FastPriorityQueue \<Rightarrow> ('p \<times> 'i) option \<times> ('p, 'i) FastPriorityQueue" where
  "fpq_dequeue q =
     (if fpq_bits q = 0 then (None, q)
      else let highest_priority = unat (FastPriority_MAX - of_nat (leading_zeros (fpq_bits q)))
           in case fpq_queues q ! highest_priority of
                [] \<Rightarrow> (None, q)
              | result # rest \<Rightarrow>
                  (Some result,
                   q\<lparr>fpq_bits := (if rest = []
                                  then fpq_bits q AND NOT (push_bit highest_priority 1)
                                  else fpq_bits q),
                     fpq_queues := (fpq_queues q)[highest_priority := rest]\<rparr>))"

text \<open>\<^verbatim>\<open>FastPriorityQueueWithLock\<close>: the same queue behind a mutex; each operation holds the
  lock for its whole body, so an operation is one step.\<close>

record ('p, 'i) FastPriorityQueueWithLock =
  fpql_inner :: "('p, 'i) FastPriorityQueue"

definition fpql_new :: "('p, 'i) FastPriorityQueueWithLock" where
  "fpql_new = \<lparr>fpql_inner = fpq_new\<rparr>"

definition fpql_enqueue ::
  "('p \<Rightarrow> FastPriority) \<Rightarrow> 'p \<Rightarrow> 'i \<Rightarrow> ('p, 'i) FastPriorityQueueWithLock
     \<Rightarrow> ('p, 'i) FastPriorityQueueWithLock res" where
  "fpql_enqueue into priority item q =
     bind_res (fpq_enqueue into priority item (fpql_inner q)) (\<lambda>inner. Ok (q\<lparr>fpql_inner := inner\<rparr>))"

definition fpql_dequeue ::
  "('p, 'i) FastPriorityQueueWithLock \<Rightarrow> ('p \<times> 'i) option \<times> ('p, 'i) FastPriorityQueueWithLock" where
  "fpql_dequeue q =
     (let (r, inner) = fpq_dequeue (fpql_inner q) in (r, q\<lparr>fpql_inner := inner\<rparr>))"

section \<open>Invariant and abstraction\<close>

definition fpq_rank :: "('p \<Rightarrow> FastPriority) \<Rightarrow> 'p \<Rightarrow> nat" where
  "fpq_rank into p = unat (u8_of_FastPriority (into p))"

definition fpq_inv :: "('p \<Rightarrow> FastPriority) \<Rightarrow> ('p, 'i) FastPriorityQueue \<Rightarrow> bool" where
  "fpq_inv into q \<longleftrightarrow>
     length (fpq_queues q) = 64 \<and>
     (\<forall>n<64. bit (fpq_bits q) n \<longleftrightarrow> fpq_queues q ! n \<noteq> []) \<and>
     (\<forall>n<64. \<forall>x\<in>set (fpq_queues q ! n). fpq_rank into (fst x) = n)"

text \<open>The elements in the order they will be served.\<close>

definition fpq_list :: "('p, 'i) FastPriorityQueue \<Rightarrow> ('p \<times> 'i) list" where
  "fpq_list q = concat (map (\<lambda>n. fpq_queues q ! n) (rev [0..<64]))"

text \<open>The abstract queue: insertion behind everything of the same or a higher rank.\<close>

fun insert_rank :: "('p \<Rightarrow> nat) \<Rightarrow> 'p \<times> 'i \<Rightarrow> ('p \<times> 'i) list \<Rightarrow> ('p \<times> 'i) list" where
  "insert_rank r x [] = [x]"
| "insert_rank r x (y # ys) = (if r (fst x) \<le> r (fst y) then y # insert_rank r x ys else x # y # ys)"

text \<open>Feeding a list of requests to a queue, and serving at most \<open>n\<close> times.\<close>

primrec feed :: "('p \<Rightarrow> 'i \<Rightarrow> 'q \<Rightarrow> 'q res) \<Rightarrow> ('p \<times> 'i) list \<Rightarrow> 'q \<Rightarrow> 'q res" where
  "feed enq [] q = Ok q"
| "feed enq (x # xs) q = bind_res (enq (fst x) (snd x) q) (feed enq xs)"

primrec serve :: "('q \<Rightarrow> ('p \<times> 'i) option \<times> 'q) \<Rightarrow> nat \<Rightarrow> 'q \<Rightarrow> ('p \<times> 'i) list" where
  "serve deq 0 q = []"
| "serve deq (Suc n) q = (case deq q of (None, _) \<Rightarrow> [] | (Some x, q') \<Rightarrow> x # serve deq n q')"

section \<open>The interface\<close>

locale prio_fifo =
  fixes empty :: 'q
    and enq :: "'p \<Rightarrow> 'i \<Rightarrow> 'q \<Rightarrow> 'q res"
    and deq :: "'q \<Rightarrow> ('p \<times> 'i) option \<times> 'q"
    and rank :: "'p \<Rightarrow> nat"
    and bound :: nat
    and invar :: "'q \<Rightarrow> bool"
    and contents :: "'q \<Rightarrow> ('p \<times> 'i) list"
  assumes invar_empty: "invar empty"
    and contents_empty: "contents empty = []"
    and enq_ok: "invar q \<Longrightarrow> rank p < bound \<Longrightarrow>
          \<exists>q'. enq p i q = Ok q' \<and> invar q' \<and> contents q' = insert_rank rank (p, i) (contents q)"
    and enq_panic: "invar q \<Longrightarrow> \<not> rank p < bound \<Longrightarrow> enq p i q = Panicked"
    and deq_empty: "invar q \<Longrightarrow> contents q = [] \<Longrightarrow> deq q = (None, q)"
    and deq_cons: "invar q \<Longrightarrow> contents q = x # xs \<Longrightarrow>
          \<exists>q'. deq q = (Some x, q') \<and> invar q' \<and> contents q' = xs"
begin

lemma serve_contents: "invar q \<Longrightarrow> serve deq n q = take n (contents q)"
proof (induction n arbitrary: q)
  case 0
  show ?case by simp
next
  case (Suc n)
  show ?case
  proof (cases "contents q")
    case Nil
    then show ?thesis using deq_empty [OF Suc.prems] by simp
  next
    case (Cons x xs)
    then obtain q' where "deq q = (Some x, q')" "invar q'" "contents q' = xs"
      using deq_cons [OF Suc.prems] by blast
    then show ?thesis using Suc.IH Cons by simp
  qed
qed

lemma feed_contents:
  "invar q \<Longrightarrow> \<forall>x\<in>set xs. rank (fst x) < bound \<Longrightarrow>
   \<exists>q'. feed enq xs q = Ok q' \<and> invar q' \<and> contents q' = fold (insert_rank rank) xs (contents q)"
proof (induction xs arbitrary: q)
  case Nil
  then show ?case by simp
next
  case (Cons x xs)
  have "rank (fst x) < bound" using Cons.prems(2) by simp
  then obtain q1 where q1: "enq (fst x) (snd x) q = Ok q1" "invar q1"
    "contents q1 = insert_rank rank (fst x, snd x) (contents q)"
    using enq_ok [OF Cons.prems(1)] by blast
  from Cons.IH [OF q1(2)] Cons.prems(2) q1 show ?case by simp
qed

end

section \<open>Facts about the specification\<close>

text \<open>Repeated insertion is the stable sort by descending rank.\<close>

lemma set_insert_rank [simp]: "set (insert_rank r x ys) = insert x (set ys)"
  by (induction ys) auto

lemma length_insert_rank [simp]: "length (insert_rank r x ys) = Suc (length ys)"
  by (induction ys) auto

lemma mset_insert_rank [simp]: "mset (insert_rank r x ys) = add_mset x (mset ys)"
  by (induction ys) auto

lemma sorted_insert_rank:
  "sorted_wrt (\<lambda>a b. r (fst b) \<le> r (fst a)) ys \<Longrightarrow>
   sorted_wrt (\<lambda>a b. r (fst b) \<le> r (fst a)) (insert_rank r x ys)"
proof (induction ys)
  case Nil
  then show ?case by simp
next
  case (Cons y ys)
  then show ?case by (fastforce simp: not_le)
qed

lemma filter_insert_rank:
  assumes "sorted_wrt (\<lambda>a b. r (fst b) \<le> r (fst a)) ys"
  shows "filter (\<lambda>a. r (fst a) = k) (insert_rank r x ys) =
         filter (\<lambda>a. r (fst a) = k) ys @ (if r (fst x) = k then [x] else [])"
  using assms
proof (induction ys)
  case Nil
  then show ?case by simp
next
  case (Cons y ys)
  show ?case
  proof (cases "r (fst x) \<le> r (fst y)")
    case True
    then show ?thesis using Cons by simp
  next
    case False
    with Cons.prems have "\<forall>a\<in>set (y # ys). r (fst a) < r (fst x)" by auto
    then have "r (fst x) = k \<Longrightarrow> filter (\<lambda>a. r (fst a) = k) (y # ys) = []"
      by (fastforce simp: filter_empty_conv)
    then show ?thesis using False by auto
  qed
qed

section \<open>The bitmap: leading zeros\<close>

lemma leading_zeros_from_le: "leading_zeros_from n w \<le> n"
  by (induction n) auto

lemma leading_zeros_from_top:
  "leading_zeros_from n w < n \<Longrightarrow>
   bit w (n - 1 - leading_zeros_from n w) \<and>
   (\<forall>m<n. n - 1 - leading_zeros_from n w < m \<longrightarrow> \<not> bit w m)"
proof (induction n)
  case 0
  then show ?case by simp
next
  case (Suc n)
  show ?case
  proof (cases "bit w n")
    case True
    then show ?thesis by auto
  next
    case False
    with Suc.prems have lt: "leading_zeros_from n w < n" by simp
    from Suc.IH [OF lt] False lt show ?thesis
      by (auto simp: less_Suc_eq)
  qed
qed

lemma leading_zeros_from_full: "leading_zeros_from n w = n \<Longrightarrow> m < n \<Longrightarrow> \<not> bit w m"
proof (induction n)
  case (Suc n)
  then show ?case using leading_zeros_from_le [of n w]
    by (auto split: if_splits simp: less_Suc_eq)
qed simp

lemma leading_zeros_less: "w \<noteq> 0 \<Longrightarrow> leading_zeros w < 64"
proof (rule ccontr)
  assume "w \<noteq> 0" and "\<not> leading_zeros w < 64"
  then have "leading_zeros_from 64 w = 64"
    using leading_zeros_from_le [of 64 w] by (simp add: leading_zeros_def)
  then have "\<forall>m<64. \<not> bit w m" using leading_zeros_from_full by blast
  then have "w = 0" by (auto simp: bit_eq_iff dest: bit_imp_possible_bit)
  with \<open>w \<noteq> 0\<close> show False by simp
qed

lemma highest_priority_eq:
  assumes "w \<noteq> 0"
  shows "unat (FastPriority_MAX - of_nat (leading_zeros w)) = 63 - leading_zeros w"
proof -
  have "leading_zeros w < 64" using assms by (rule leading_zeros_less)
  then have "(of_nat (leading_zeros w) :: u8) \<le> 63" and "unat (of_nat (leading_zeros w) :: u8) = leading_zeros w"
    by (simp_all add: word_le_nat_alt unat_of_nat)
  then show ?thesis
    by (simp add: FastPriority_MAX_def FastPriority_NUM_def unat_sub)
qed

lemma leading_zeros_top:
  assumes "w \<noteq> 0"
  shows "bit w (63 - leading_zeros w)"
    and "m < 64 \<Longrightarrow> 63 - leading_zeros w < m \<Longrightarrow> \<not> bit w m"
  using leading_zeros_from_top [of 64 w] leading_zeros_less [OF assms]
  by (auto simp: leading_zeros_def)

section \<open>The bitmap queue provides the interface\<close>

lemma concat_rev_upt_split:
  "h < n \<Longrightarrow> (\<And>m. m < n \<Longrightarrow> h < m \<Longrightarrow> f m = []) \<Longrightarrow>
   concat (map f (rev [0..<n])) = f h @ concat (map f (rev [0..<h]))"
proof (induction n)
  case (Suc n)
  then show ?case by (cases "h = n") auto
qed simp

lemma insert_rank_append:
  "\<forall>y\<in>set ys. r (fst x) \<le> r (fst y) \<Longrightarrow> insert_rank r x (ys @ zs) = ys @ insert_rank r x zs"
  by (induction ys) auto

lemma insert_rank_front:
  "\<forall>y\<in>set ys. r (fst y) < r (fst x) \<Longrightarrow> insert_rank r x ys = x # ys"
  by (cases ys) auto

lemma insert_rank_concat:
  assumes "\<And>m y. m < n \<Longrightarrow> y \<in> set (f m) \<Longrightarrow> r (fst y) = m" and "r (fst x) = p" and "p < n"
  shows "insert_rank r x (concat (map f (rev [0..<n]))) =
         concat (map (f(p := f p @ [x])) (rev [0..<n]))"
  using assms(1,3)
proof (induction n)
  case 0
  then show ?case by simp
next
  case (Suc n)
  let ?rest = "concat (map f (rev [0..<n]))"
  have past: "insert_rank r x (f n @ ?rest) = f n @ insert_rank r x ?rest"
    using Suc.prems(2) assms(2)
    by (auto intro!: insert_rank_append simp: less_Suc_eq_le dest!: Suc.prems(1) [of n, simplified])
  show ?case
  proof (cases "p = n")
    case True
    have "\<forall>y\<in>set ?rest. r (fst y) < n"
      using Suc.prems(1) by (fastforce simp: less_Suc_eq)
    then have "insert_rank r x ?rest = x # ?rest"
      using True assms(2) by (intro insert_rank_front) auto
    moreover have "map (f(n := f n @ [x])) (rev [0..<n]) = map f (rev [0..<n])" by simp
    ultimately show ?thesis using past True by (simp del: fun_upd_apply add: fun_upd_same)
  next
    case False
    with Suc show ?thesis by (simp add: past)
  qed
qed

lemma fpq_list_fun:
  "fpq_list (q\<lparr>fpq_bits := b, fpq_queues := (fpq_queues q)[p := xs]\<rparr>) =
   concat (map ((\<lambda>n. fpq_queues q ! n)(p := xs)) (rev [0..<64]))"
  if "length (fpq_queues q) = 64" "p < 64"
  using that by (auto simp: fpq_list_def nth_list_update intro!: arg_cong [where f = concat] map_cong)

lemma fpq_inv_new: "fpq_inv into fpq_new"
  by (simp add: fpq_inv_def fpq_new_def FastPriority_NUM_def)

lemma fpq_list_new: "fpq_list fpq_new = []"
  by (simp add: fpq_list_def fpq_new_def FastPriority_NUM_def)

lemma fpq_enqueue_ok:
  assumes "fpq_inv into q" and "fpq_rank into p < 64"
  shows "\<exists>q'. fpq_enqueue into p i q = Ok q' \<and> fpq_inv into q' \<and>
              fpq_list q' = insert_rank (fpq_rank into) (p, i) (fpq_list q)"
proof -
  let ?k = "fpq_rank into p"
  let ?q' = "q\<lparr>fpq_bits := fpq_bits q OR push_bit ?k 1,
               fpq_queues := (fpq_queues q)[?k := fpq_queues q ! ?k @ [(p, i)]]\<rparr>"
  have len: "length (fpq_queues q) = 64" using assms(1) by (simp add: fpq_inv_def)
  have "fpq_enqueue into p i q = Ok ?q'"
    using assms(2) len by (simp add: fpq_enqueue_def fpq_rank_def Let_def)
  moreover have "fpq_inv into ?q'"
    using assms by (auto simp: fpq_inv_def nth_list_update bit_simps)
  moreover have "fpq_list ?q' = insert_rank (fpq_rank into) (p, i) (fpq_list q)"
    unfolding fpq_list_fun [OF len assms(2)]
    unfolding fpq_list_def
    by (rule insert_rank_concat [symmetric]) (use assms in \<open>auto simp: fpq_inv_def\<close>)
  ultimately show ?thesis by blast
qed

lemma fpq_enqueue_panic:
  "fpq_inv into q \<Longrightarrow> \<not> fpq_rank into p < 64 \<Longrightarrow> fpq_enqueue into p i q = Panicked"
  by (simp add: fpq_enqueue_def fpq_inv_def fpq_rank_def Let_def)

lemma fpq_bits_zero:
  assumes "fpq_inv into q"
  shows "fpq_bits q = 0 \<longleftrightarrow> fpq_list q = []"
proof
  assume "fpq_bits q = 0"
  then show "fpq_list q = []" using assms by (auto simp: fpq_inv_def fpq_list_def)
next
  assume "fpq_list q = []"
  then have "\<forall>n<64. fpq_queues q ! n = []" by (auto simp: fpq_list_def)
  then have "\<forall>n<64. \<not> bit (fpq_bits q) n" using assms by (auto simp: fpq_inv_def)
  then show "fpq_bits q = 0" by (auto simp: bit_eq_iff dest: bit_imp_possible_bit)
qed

lemma fpq_list_highest:
  assumes "fpq_inv into q" and "fpq_bits q \<noteq> 0"
  defines "h \<equiv> 63 - leading_zeros (fpq_bits q)"
  shows "fpq_queues q ! h \<noteq> []"
    and "fpq_list q = fpq_queues q ! h @ concat (map (\<lambda>n. fpq_queues q ! n) (rev [0..<h]))"
proof -
  note top = leading_zeros_top [OF assms(2), folded h_def]
  have "h < 64" by (simp add: h_def)
  then show "fpq_queues q ! h \<noteq> []" using top(1) assms(1) by (simp add: fpq_inv_def)
  show "fpq_list q = fpq_queues q ! h @ concat (map (\<lambda>n. fpq_queues q ! n) (rev [0..<h]))"
    unfolding fpq_list_def
    by (rule concat_rev_upt_split [OF \<open>h < 64\<close>]) (use top(2) assms(1) in \<open>auto simp: fpq_inv_def\<close>)
qed

lemma fpq_dequeue_cons:
  assumes "fpq_inv into q" and "fpq_list q = x # xs"
  shows "\<exists>q'. fpq_dequeue q = (Some x, q') \<and> fpq_inv into q' \<and> fpq_list q' = xs"
proof -
  have nz: "fpq_bits q \<noteq> 0" using fpq_bits_zero [OF assms(1)] assms(2) by simp
  let ?h = "63 - leading_zeros (fpq_bits q)"
  note high = fpq_list_highest [OF assms(1) nz]
  have len: "length (fpq_queues q) = 64" and h: "?h < 64"
    using assms(1) by (simp_all add: fpq_inv_def)
  from high(1) obtain y ys where ys: "fpq_queues q ! ?h = y # ys" by (meson list.exhaust)
  with high(2) assms(2) have y: "y = x"
    and xs: "xs = ys @ concat (map (\<lambda>n. fpq_queues q ! n) (rev [0..<?h]))" by simp_all
  let ?b = "if ys = [] then fpq_bits q AND NOT (push_bit ?h 1) else fpq_bits q"
  let ?q' = "q\<lparr>fpq_bits := ?b, fpq_queues := (fpq_queues q)[?h := ys]\<rparr>"
  have "fpq_dequeue q = (Some x, ?q')"
    using nz ys y by (simp add: fpq_dequeue_def highest_priority_eq Let_def)
  moreover have "fpq_inv into ?q'"
    using assms(1) ys h by (auto simp: fpq_inv_def nth_list_update bit_simps)
  moreover have "fpq_list ?q' = xs"
  proof -
    have above: "fpq_queues q ! m = []" if "m < 64" "?h < m" for m
      using that leading_zeros_top(2) [OF nz] assms(1) by (auto simp: fpq_inv_def)
    have "fpq_list ?q' = ((\<lambda>n. fpq_queues q ! n)(?h := ys)) ?h @
        concat (map ((\<lambda>n. fpq_queues q ! n)(?h := ys)) (rev [0..<?h]))"
      unfolding fpq_list_fun [OF len h] by (rule concat_rev_upt_split [OF h]) (use above in auto)
    also have "\<dots> = xs" by (auto simp: xs intro!: arg_cong [where f = concat] map_cong)
    finally show ?thesis .
  qed
  ultimately show ?thesis by blast
qed

interpretation fpq: prio_fifo fpq_new "fpq_enqueue into" fpq_dequeue "fpq_rank into" 64 "fpq_inv into" fpq_list
  for into :: "'p \<Rightarrow> FastPriority"
proof unfold_locales
  fix q :: "('p, 'i) FastPriorityQueue"
  assume "fpq_inv into q" and "fpq_list q = []"
  then show "fpq_dequeue q = (None, q)" by (simp add: fpq_dequeue_def fpq_bits_zero)
qed (rule fpq_inv_new fpq_list_new fpq_enqueue_ok fpq_enqueue_panic fpq_dequeue_cons; assumption?)+

text \<open>The queue behind the lock provides the same interface.\<close>

interpretation fpql: prio_fifo fpql_new "fpql_enqueue into" fpql_dequeue "fpq_rank into" 64
    "\<lambda>q. fpq_inv into (fpql_inner q)" "\<lambda>q. fpq_list (fpql_inner q)"
  for into :: "'p \<Rightarrow> FastPriority"
proof unfold_locales
  fix q :: "('p, 'i) FastPriorityQueueWithLock" and p i x xs
  assume inv: "fpq_inv into (fpql_inner q)"
  show "\<exists>q'. fpql_enqueue into p i q = Ok q' \<and> fpq_inv into (fpql_inner q') \<and>
      fpq_list (fpql_inner q') = insert_rank (fpq_rank into) (p, i) (fpq_list (fpql_inner q))" if "fpq_rank into p < 64"
    using fpq.enq_ok [OF inv that, of i] by (auto simp: fpql_enqueue_def bind_res_def)
  show "fpql_enqueue into p i q = Panicked" if "\<not> fpq_rank into p < 64"
    using fpq.enq_panic [OF inv that, of i] by (simp add: fpql_enqueue_def bind_res_def)
  show "fpql_dequeue q = (None, q)" if "fpq_list (fpql_inner q) = []"
    using fpq.deq_empty [OF inv that] by (simp add: fpql_dequeue_def)
  show "\<exists>q'. fpql_dequeue q = (Some x, q') \<and> fpq_inv into (fpql_inner q') \<and> fpq_list (fpql_inner q') = xs"
    if "fpq_list (fpql_inner q) = x # xs"
    using fpq.deq_cons [OF inv that] by (auto simp: fpql_dequeue_def)
qed (simp_all add: fpql_new_def fpq_inv_new fpq_list_new)

lemma concat_rev_sorted:
  "(\<And>m y. m < n \<Longrightarrow> y \<in> set (f m) \<Longrightarrow> r (fst y) = m) \<Longrightarrow>
   sorted_wrt (\<lambda>a b. r (fst b) \<le> r (fst a)) (concat (map f (rev [0..<n])))"
proof (induction n)
  case (Suc n)
  have n: "r (fst y) = n" if "y \<in> set (f n)" for y using Suc.prems that by simp
  then have "sorted_wrt (\<lambda>a b. r (fst b) \<le> r (fst a)) (f n)" by (simp add: sorted_wrt_iff_nth_less)
  moreover have "r (fst y) < n" if "y \<in> set (concat (map f (rev [0..<n])))" for y
  proof -
    from that obtain m where "m < n" "y \<in> set (f m)" by auto
    then show ?thesis using Suc.prems [of m y] by simp
  qed
  then have "\<forall>x\<in>set (f n). \<forall>y\<in>set (concat (map f (rev [0..<n]))). r (fst y) \<le> r (fst x)" using n less_imp_le by metis
  ultimately have "sorted_wrt (\<lambda>a b. r (fst b) \<le> r (fst a)) (f n @ concat (map f (rev [0..<n])))"
    using Suc unfolding sorted_wrt_append by simp
  then show ?case by simp
qed simp

lemma fpq_list_sorted:
  "fpq_inv into q \<Longrightarrow> sorted_wrt (\<lambda>a b. fpq_rank into (fst b) \<le> fpq_rank into (fst a)) (fpq_list q)"
  unfolding fpq_list_def by (rule concat_rev_sorted) (simp add: fpq_inv_def)

lemma fold_insert_rank:
  assumes "sorted_wrt (\<lambda>a b. r (fst b) \<le> r (fst a)) ys"
  shows "sorted_wrt (\<lambda>a b. r (fst b) \<le> r (fst a)) (fold (insert_rank r) xs ys) \<and>
         mset (fold (insert_rank r) xs ys) = mset xs + mset ys \<and>
         filter (\<lambda>a. r (fst a) = k) (fold (insert_rank r) xs ys) =
           filter (\<lambda>a. r (fst a) = k) ys @ filter (\<lambda>a. r (fst a) = k) xs"
  using assms
  by (induction xs arbitrary: ys) (simp_all add: sorted_insert_rank filter_insert_rank)

section \<open>Properties\<close>

text \<open>
  C1. Feeding any list of requests with priorities below 64 to a new queue succeeds, and
  serving it until it is empty yields exactly those requests, highest priority first and,
  within one priority, in the order they were enqueued (a stable sort by descending
  priority).
\<close>

theorem fpq_serves_in_priority_order:
  assumes "\<forall>x\<in>set xs. fpq_rank into (fst x) < 64"
  shows "\<exists>q. feed (fpq_enqueue into) xs fpq_new = Ok q \<and>
           mset (serve fpq_dequeue (length xs) q) = mset xs \<and>
           sorted_wrt (\<lambda>a b. fpq_rank into (fst b) \<le> fpq_rank into (fst a)) (serve fpq_dequeue (length xs) q) \<and>
           (\<forall>k. filter (\<lambda>x. fpq_rank into (fst x) = k) (serve fpq_dequeue (length xs) q) =
                filter (\<lambda>x. fpq_rank into (fst x) = k) xs)"
proof -
  obtain q where q: "feed (fpq_enqueue into) xs fpq_new = Ok q" "fpq_inv into q"
    "fpq_list q = fold (insert_rank (fpq_rank into)) xs []"
    using fpq.feed_contents [OF fpq_inv_new assms] by (auto simp: fpq_list_new)
  note spec = fold_insert_rank [of "fpq_rank into" "[]" xs, folded q(3)]
  have "mset (fpq_list q) = mset xs" using spec by simp
  then have "length (fpq_list q) = length xs" by (metis size_mset)
  then have "serve fpq_dequeue (length xs) q = fpq_list q"
    by (simp add: fpq.serve_contents [OF q(2)])
  with q(1) spec show ?thesis by auto
qed

theorem fpq_serves_in_priority_order_witness:
  "\<exists>q. feed (fpq_enqueue FastPriority) [(3, ''a''), (60, ''b''), (3, ''c'')] fpq_new = Ok q \<and>
     mset (serve fpq_dequeue 3 q) = {#(3, ''a''), (60, ''b''), (3, ''c'')#}"
proof -
  let ?xs = "[(3, ''a''), (60, ''b''), (3, ''c'')] :: (u8 \<times> string) list"
  have "\<forall>x\<in>set ?xs. fpq_rank FastPriority (fst x) < 64" by (simp add: fpq_rank_def)
  from fpq_serves_in_priority_order [OF this] show ?thesis
    by (elim exE conjE) (intro exI conjI, assumption, simp add: numeral_3_eq_3)
qed

text \<open>
  C2. From every state that satisfies the invariant, the bitmap queue simulates the list in
  serving order: an enqueue inserts behind everything of the same or a higher priority and
  panics exactly for a priority of 64 or more, and a dequeue removes the head, both keeping
  the invariant.
\<close>

theorem fpq_refines_ordered_list:
  assumes "fpq_inv into q"
  shows "(fpq_rank into p < 64 \<longrightarrow>
            (\<exists>q'. fpq_enqueue into p i q = Ok q' \<and> fpq_inv into q' \<and>
                  fpq_list q' = insert_rank (fpq_rank into) (p, i) (fpq_list q))) \<and>
         (64 \<le> fpq_rank into p \<longrightarrow> fpq_enqueue into p i q = Panicked) \<and>
         (case fpq_list q of
            [] \<Rightarrow> fpq_dequeue q = (None, q)
          | x # xs \<Rightarrow> \<exists>q'. fpq_dequeue q = (Some x, q') \<and> fpq_inv into q' \<and> fpq_list q' = xs)"
  using fpq.enq_ok [OF assms] fpq.enq_panic [OF assms] fpq.deq_empty [OF assms] fpq.deq_cons [OF assms]
  by (auto split: list.split)

theorem fpq_refines_ordered_list_witness:
  "fpq_inv FastPriority (fpq_new :: (u8, string) FastPriorityQueue) \<and> fpq_enqueue FastPriority 64 ''x'' fpq_new = Panicked \<and>
   fpq_dequeue (fpq_new :: (u8, string) FastPriorityQueue) = (None, fpq_new)"
proof -
  have inv: "fpq_inv FastPriority (fpq_new :: (u8, string) FastPriorityQueue)" by (rule fpq_inv_new)
  from fpq_refines_ordered_list [OF inv, of 64 "''x''"] inv show ?thesis
    by (simp add: fpq_rank_def fpq_list_new)
qed

end
