(* ===== verification/Addr.thy ===== *)
theory Addr
  imports Jrinx_Prelude
begin

text \<open>
  Memory layout constants (\<^verbatim>\<open>kern/modules/config\<close>, riscv64 branch) and the address types
  of \<^verbatim>\<open>kern/modules/addr\<close>, with the operations that the derive macro of
  \<^verbatim>\<open>kern/modules/addr-macro\<close> generates for each of them.

  Both address types are 64-bit words and all arithmetic on them wraps. The lemmas show the
  rounding functions are the greatest multiple below and the least multiple above, that the
  linear remapping is a bijection, and that the three Sv39 table indexes and the page offset
  determine a canonical address.
\<close>

unbundle bit_operations_syntax

section \<open>Configuration\<close>

record RemapMemRegion =
  rmr_virt_addr :: usize
  rmr_phys_addr :: usize
  rmr_len :: usize

record VirtMemRegion =
  vmr_addr :: usize
  vmr_len :: usize

definition PAGE_SIZE :: usize where
  "PAGE_SIZE = 4096"

definition KSTACK_SIZE :: usize where
  "KSTACK_SIZE = PAGE_SIZE * 8"

definition HEAP_ORDER :: usize where
  "HEAP_ORDER = 32"

definition KHEAP_SIZE :: usize where
  "KHEAP_SIZE = PAGE_SIZE * 8"

definition EXECUTOR_STACK_SIZE :: usize where
  "EXECUTOR_STACK_SIZE = PAGE_SIZE * 1024"

definition PHYS_MEM_BASE :: usize where
  "PHYS_MEM_BASE = 0x80000000"

definition PHYS_MEM_LIMIT :: usize where
  "PHYS_MEM_LIMIT = 0x2000000000"

definition REMAP_HUGE_PAGE_SIZE :: usize where
  "REMAP_HUGE_PAGE_SIZE = 512 * 512 * PAGE_SIZE"

definition REMAP_MEM_OFFSET :: usize where
  "REMAP_MEM_OFFSET = 0xFFFFFFC000000000"

definition REMAP_MEM_REGIONS :: "RemapMemRegion list" where
  "REMAP_MEM_REGIONS =
     [\<lparr>rmr_virt_addr = PHYS_MEM_BASE, rmr_phys_addr = PHYS_MEM_BASE, rmr_len = REMAP_HUGE_PAGE_SIZE\<rparr>,
      \<lparr>rmr_virt_addr = PHYS_MEM_BASE + REMAP_MEM_OFFSET, rmr_phys_addr = PHYS_MEM_BASE,
       rmr_len = PHYS_MEM_LIMIT - PHYS_MEM_BASE\<rparr>]"

definition EXECUTOR_STACK_REGION :: VirtMemRegion where
  "EXECUTOR_STACK_REGION =
     \<lparr>vmr_addr = 0xFFFFFFE000000000, vmr_len = 0xFFFFFFFF00000000 - 0xFFFFFFE000000000\<rparr>"

definition EXTERNAL_DEVICE_REGION :: VirtMemRegion where
  "EXTERNAL_DEVICE_REGION = \<lparr>vmr_addr = 0xFFFFFFFF00000000, vmr_len = 0xF0000000\<rparr>"

section \<open>Address types\<close>

datatype PhysAddr = PhysAddr (pa_as_usize: usize)

datatype VirtAddr = VirtAddr (va_as_usize: usize)

text \<open>The derived orders: both types are ordered by their only field.\<close>

instantiation PhysAddr :: linorder
begin
definition less_eq_PhysAddr :: "PhysAddr \<Rightarrow> PhysAddr \<Rightarrow> bool" where
  "less_eq_PhysAddr a b \<longleftrightarrow> pa_as_usize a \<le> pa_as_usize b"
definition less_PhysAddr :: "PhysAddr \<Rightarrow> PhysAddr \<Rightarrow> bool" where
  "less_PhysAddr a b \<longleftrightarrow> pa_as_usize a < pa_as_usize b"
instance
  by standard (auto simp: less_eq_PhysAddr_def less_PhysAddr_def PhysAddr.expand)
end

instantiation VirtAddr :: linorder
begin
definition less_eq_VirtAddr :: "VirtAddr \<Rightarrow> VirtAddr \<Rightarrow> bool" where
  "less_eq_VirtAddr a b \<longleftrightarrow> va_as_usize a \<le> va_as_usize b"
definition less_VirtAddr :: "VirtAddr \<Rightarrow> VirtAddr \<Rightarrow> bool" where
  "less_VirtAddr a b \<longleftrightarrow> va_as_usize a < va_as_usize b"
instance
  by standard (auto simp: less_eq_VirtAddr_def less_VirtAddr_def VirtAddr.expand)
end

text \<open>The generated operations, first on the bare field.\<close>

definition align_page_down :: "usize \<Rightarrow> usize" where
  "align_page_down a = a AND NOT (PAGE_SIZE - 1)"

definition align_page_up :: "usize \<Rightarrow> usize" where
  "align_page_up a = (a + PAGE_SIZE - 1) AND NOT (PAGE_SIZE - 1)"

definition pa_new :: "usize \<Rightarrow> PhysAddr" where "pa_new a = PhysAddr a"
definition va_new :: "usize \<Rightarrow> VirtAddr" where "va_new a = VirtAddr a"

definition pa_add :: "PhysAddr \<Rightarrow> usize \<Rightarrow> PhysAddr" where
  "pa_add a n = PhysAddr (pa_as_usize a + n)"
definition va_add :: "VirtAddr \<Rightarrow> usize \<Rightarrow> VirtAddr" where
  "va_add a n = VirtAddr (va_as_usize a + n)"

definition pa_sub :: "PhysAddr \<Rightarrow> usize \<Rightarrow> PhysAddr" where
  "pa_sub a n = PhysAddr (pa_as_usize a - n)"
definition va_sub :: "VirtAddr \<Rightarrow> usize \<Rightarrow> VirtAddr" where
  "va_sub a n = VirtAddr (va_as_usize a - n)"

definition pa_diff :: "PhysAddr \<Rightarrow> PhysAddr \<Rightarrow> usize" where
  "pa_diff a b = pa_as_usize a - pa_as_usize b"
definition va_diff :: "VirtAddr \<Rightarrow> VirtAddr \<Rightarrow> usize" where
  "va_diff a b = va_as_usize a - va_as_usize b"

definition pa_align_page_down :: "PhysAddr \<Rightarrow> PhysAddr" where
  "pa_align_page_down a = PhysAddr (align_page_down (pa_as_usize a))"
definition va_align_page_down :: "VirtAddr \<Rightarrow> VirtAddr" where
  "va_align_page_down a = VirtAddr (align_page_down (va_as_usize a))"

definition pa_align_page_up :: "PhysAddr \<Rightarrow> PhysAddr" where
  "pa_align_page_up a = PhysAddr (align_page_up (pa_as_usize a))"
definition va_align_page_up :: "VirtAddr \<Rightarrow> VirtAddr" where
  "va_align_page_up a = VirtAddr (align_page_up (va_as_usize a))"

definition to_virt :: "PhysAddr \<Rightarrow> VirtAddr" where
  "to_virt a = VirtAddr (pa_as_usize a + REMAP_MEM_OFFSET)"

definition to_phys :: "VirtAddr \<Rightarrow> PhysAddr" where
  "to_phys a = PhysAddr (va_as_usize a - REMAP_MEM_OFFSET)"

text \<open>The three-level indexes (feature \<^verbatim>\<open>pt_level_3\<close>, riscv64).\<close>

definition indexes :: "VirtAddr \<Rightarrow> usize list" where
  "indexes a = [drop_bit 30 (va_as_usize a) AND 0x1FF,
                drop_bit 21 (va_as_usize a) AND 0x1FF,
                drop_bit 12 (va_as_usize a) AND 0x1FF]"

text \<open>
  \<^verbatim>\<open>as_array_base::<T>\<close>: the base of the page and the number of elements of the given size
  that fill it; element \<open>i\<close> of the slice lives at \<open>array_elem\<close>.
\<close>

definition as_array_base :: "usize \<Rightarrow> VirtAddr \<Rightarrow> usize \<times> usize" where
  "as_array_base size_of a = (align_page_down (va_as_usize a), PAGE_SIZE div size_of)"

definition array_elem :: "usize \<Rightarrow> usize \<times> usize \<Rightarrow> usize \<Rightarrow> usize res" where
  "array_elem size_of sl i = (if i < snd sl then Ok (fst sl + i * size_of) else Panicked)"

section \<open>Rounding\<close>

lemmas addr_config_defs [jrinx_defs] =
  PAGE_SIZE_def REMAP_MEM_OFFSET_def REMAP_HUGE_PAGE_SIZE_def PHYS_MEM_BASE_def PHYS_MEM_LIMIT_def

lemma page_mask: "PAGE_SIZE - 1 = mask 12"
  by (simp add: PAGE_SIZE_def mask_eq_exp_minus_1)

lemma align_page_down_bits: "align_page_down a = push_bit 12 (drop_bit 12 a)"
  unfolding align_page_down_def page_mask
  by (rule bit_word_eqI) (auto simp: bit_simps not_less)

lemma unat_align_page_down: "unat (align_page_down a) = unat a div 4096 * 4096"
proof -
  have "unat a div 4096 * 4096 < 2 ^ 64"
    using unat_usize_less [of a] by (simp add: less_mult_imp_div_less)
  then show ?thesis
    by (simp only: align_page_down_bits unat_push_bit_mult unat_drop_bit_div) simp
qed

lemma align_page_down_dvd [simp]: "4096 dvd unat (align_page_down a)"
  by (simp add: unat_align_page_down)

lemma align_page_down_le: "align_page_down a \<le> a"
  by (simp add: word_le_nat_alt unat_align_page_down)

lemma align_page_down_id: "4096 dvd unat a \<Longrightarrow> align_page_down a = a"
  by (simp add: word_unat_eq_iff unat_align_page_down)

lemma align_page_down_idem [simp]: "align_page_down (align_page_down a) = align_page_down a"
  by (rule align_page_down_id) simp

lemma align_page_down_offset: "unat (a AND (PAGE_SIZE - 1)) = unat a mod 4096"
  by (simp add: page_mask unat_and_mask)

lemma align_page_up_eq_down: "align_page_up a = align_page_down (a + (PAGE_SIZE - 1))"
  by (simp add: align_page_up_def align_page_down_def algebra_simps)

lemma unat_align_page_up:
  assumes "unat a \<le> 2 ^ 64 - 4096"
  shows "unat (align_page_up a) = (unat a + 4095) div 4096 * 4096"
proof -
  have "unat (a + (PAGE_SIZE - 1)) = unat a + 4095"
    using assms by (simp add: PAGE_SIZE_def unat_word_ariths)
  then show ?thesis by (simp add: align_page_up_eq_down unat_align_page_down)
qed

section \<open>Table indexes\<close>

lemma length_indexes [simp]: "length (indexes a) = 3"
  by (simp add: indexes_def)

lemma indexes_eq:
  "map unat (indexes a) =
     [unat (va_as_usize a) div 2 ^ 30 mod 512, unat (va_as_usize a) div 2 ^ 21 mod 512,
      unat (va_as_usize a) div 2 ^ 12 mod 512]"
proof -
  have "unat (drop_bit n w AND 0x1FF) = unat w div 2 ^ n mod 512" for n and w :: usize
  proof -
    have "unat (drop_bit n w AND mask 9) = unat w div 2 ^ n mod 512"
      by (simp only: unat_and_mask unat_drop_bit_div) simp
    then show ?thesis by (simp add: mask_eq_exp_minus_1)
  qed
  then show ?thesis by (simp add: indexes_def)
qed

lemma indexes_bound: "i < 3 \<Longrightarrow> unat (indexes a ! i) < 512"
proof -
  assume "i < 3"
  then have "unat (indexes a ! i) = map unat (indexes a) ! i" by simp
  also have "\<dots> < 512"
    using \<open>i < 3\<close> by (auto simp: indexes_eq less_Suc_eq numeral_3_eq_3)
  finally show ?thesis .
qed

text \<open>
  An address is canonical for Sv39 when bits 38 to 63 agree. The kernel's own half, bit 38
  set, is the one above \<open>REMAP_MEM_OFFSET\<close>.
\<close>

definition canonical :: "VirtAddr \<Rightarrow> bool" where
  "canonical a \<longleftrightarrow> va_as_usize a < 2 ^ 38 \<or> REMAP_MEM_OFFSET \<le> va_as_usize a"

lemma indexes_sum:
  "unat a mod 2 ^ 39 = unat (indexes (VirtAddr a) ! 0) * 2 ^ 30 + unat (indexes (VirtAddr a) ! 1) * 2 ^ 21
     + unat (indexes (VirtAddr a) ! 2) * 2 ^ 12 + unat a mod 4096"
proof -
  have "n mod 2 ^ 39 = n div 2 ^ 30 mod 512 * 2 ^ 30 + n div 2 ^ 21 mod 512 * 2 ^ 21
      + n div 2 ^ 12 mod 512 * 2 ^ 12 + n mod 4096" for n :: nat
    using mod_mult2_eq [of n "2 ^ 30" 512] mod_mult2_eq [of n "2 ^ 21" 512] mod_mult2_eq [of n "2 ^ 12" 512]
    by simp
  moreover have "unat (indexes (VirtAddr a) ! 0) = unat a div 2 ^ 30 mod 512"
    "unat (indexes (VirtAddr a) ! 1) = unat a div 2 ^ 21 mod 512"
    "unat (indexes (VirtAddr a) ! 2) = unat a div 2 ^ 12 mod 512"
    using indexes_eq [of "VirtAddr a"] by (simp_all add: indexes_def)
  ultimately show ?thesis by simp
qed

lemma canonical_mod_inj:
  assumes "canonical a" and "canonical b"
    and "unat (va_as_usize a) mod 2 ^ 39 = unat (va_as_usize b) mod 2 ^ 39"
  shows "a = b"
proof -
  have range: "unat w < 2 ^ 38 \<or> 18446743798831644672 \<le> unat w \<and> unat w mod 2 ^ 39 = unat w - 18446743523953737728"
    if "canonical (VirtAddr w)" for w
  proof -
    have "w < 274877906944 \<or> 18446743798831644672 \<le> w"
      using that by (simp add: canonical_def REMAP_MEM_OFFSET_def)
    then have "unat w < 274877906944 \<or> 18446743798831644672 \<le> unat w"
      by (simp add: word_less_nat_alt word_le_nat_alt)
    moreover have "unat w mod 549755813888 = unat w - 18446743523953737728"
      if "18446743798831644672 \<le> unat w"
    proof -
      have "unat w = (unat w - 18446743523953737728) + 33554431 * 549755813888" using that by simp
      then have "unat w mod 549755813888 = (unat w - 18446743523953737728) mod 549755813888"
        by (metis mod_mult_self1)
      also have "\<dots> = unat w - 18446743523953737728" using unat_usize_less [of w] by simp
      finally show ?thesis .
    qed
    ultimately show ?thesis by auto
  qed
  obtain v w where [simp]: "a = VirtAddr v" "b = VirtAddr w" by (metis VirtAddr.exhaust)
  have "unat v = unat w"
    using assms range [of v] range [of w] by auto
  then show ?thesis by (simp add: word_unat_eq_iff)
qed

lemma to_phys_to_virt [simp]: "to_phys (to_virt p) = p"
  by (simp add: to_phys_def to_virt_def)

lemma to_virt_to_phys [simp]: "to_virt (to_phys v) = v"
  by (simp add: to_phys_def to_virt_def)

lemma to_virt_inject [simp]: "to_virt p = to_virt q \<longleftrightarrow> p = q"
  by (metis to_phys_to_virt)

lemma align_page_down_to_virt:
  assumes "4096 dvd unat (pa_as_usize p)"
  shows "align_page_down (va_as_usize (to_virt p)) = va_as_usize (to_virt p)"
proof (rule align_page_down_id)
  have "unat (va_as_usize (to_virt p)) = (unat (pa_as_usize p) + 18446743798831644672) mod 18446744073709551616"
    by (simp add: to_virt_def unat_word_ariths REMAP_MEM_OFFSET_def)
  moreover have "4096 dvd (unat (pa_as_usize p) + 18446743798831644672) mod 18446744073709551616"
    using assms by (simp add: dvd_mod)
  ultimately show "4096 dvd unat (va_as_usize (to_virt p))" by simp
qed

section \<open>Properties\<close>

text \<open>
  Rounding an address down yields the greatest multiple of the page size that is not
  above it; rounding up yields the least multiple that is not below it, for every address
  that leaves room for one page below the top of the address space.
\<close>

theorem align_page_greatest_least:
  "4096 dvd unat (align_page_down a) \<and> align_page_down a \<le> a \<and> unat a - unat (align_page_down a) < 4096 \<and>
   (unat a \<le> 2 ^ 64 - 4096 \<longrightarrow>
      4096 dvd unat (align_page_up a) \<and> a \<le> align_page_up a \<and> unat (align_page_up a) - unat a < 4096)"
proof (intro conjI impI)
  show "unat a - unat (align_page_down a) < 4096"
    by (simp add: unat_align_page_down minus_div_mult_eq_mod)
  assume small: "unat a \<le> 2 ^ 64 - 4096"
  note up = unat_align_page_up [OF small]
  show "4096 dvd unat (align_page_up a)" by (simp add: up)
  have "(unat a + 4095) div 4096 * 4096 \<ge> unat a" by linarith
  then show "a \<le> align_page_up a" by (simp add: word_le_nat_alt up)
  show "unat (align_page_up a) - unat a < 4096" unfolding up by linarith
qed (simp_all add: align_page_down_le)

theorem align_page_greatest_least_witness:
  "align_page_up 0x1001 = 0x2000 \<and> (0x1001 :: usize) \<le> align_page_up 0x1001"
  using align_page_greatest_least [of "0x1001"]
  by (simp add: align_page_up_def PAGE_SIZE_def)

text \<open>
  The remapping between physical and kernel addresses is a bijection on all 64-bit
  values, every table index is below 512, and two canonical virtual addresses with the same
  three table indexes and the same page offset are equal.
\<close>

theorem indexes_determine_address:
  "to_phys (to_virt p) = p \<and> to_virt (to_phys a) = a \<and> (\<forall>i<3. unat (indexes a ! i) < 512) \<and>
   (canonical a \<and> canonical b \<and> indexes a = indexes b \<and>
    va_as_usize a AND (PAGE_SIZE - 1) = va_as_usize b AND (PAGE_SIZE - 1) \<longrightarrow> a = b)"
proof (intro conjI impI allI)
  assume h: "canonical a \<and> canonical b \<and> indexes a = indexes b \<and>
    va_as_usize a AND (PAGE_SIZE - 1) = va_as_usize b AND (PAGE_SIZE - 1)"
  then have "unat (va_as_usize a) mod 4096 = unat (va_as_usize b) mod 4096"
    by (metis align_page_down_offset)
  with h have "unat (va_as_usize a) mod 2 ^ 39 = unat (va_as_usize b) mod 2 ^ 39"
    by (simp only: indexes_sum VirtAddr.collapse)
  with h show "a = b" by (blast intro: canonical_mod_inj)
qed (simp_all add: indexes_bound)

theorem indexes_determine_address_witness:
  "indexes (VirtAddr 0xFFFFFFC080000000) = [0x102, 0, 0] \<and> unat (indexes (VirtAddr 0xFFFFFFC080000000) ! 0) < 512 \<and>
   VirtAddr 0xFFFFFFC080000000 = to_virt (PhysAddr PHYS_MEM_BASE)"
proof -
  let ?a = "VirtAddr 0xFFFFFFC080000000"
  have e: "?a = to_virt (PhysAddr PHYS_MEM_BASE)" by (simp add: to_virt_def addr_config_defs)
  have c: "canonical ?a" by (simp add: canonical_def REMAP_MEM_OFFSET_def)
  have i: "indexes ?a = [0x102, 0, 0]" by (simp add: indexes_def)
  have "\<forall>i<3. unat (indexes ?a ! i) < 512"
    using indexes_determine_address [of "PhysAddr PHYS_MEM_BASE" ?a ?a] c by blast
  then have "unat (indexes ?a ! 0) < 512" by simp
  with e i show ?thesis by blast
qed

end
