(* ===== verification/Pte.thy ===== *)
theory Pte
  imports Addr
begin

text \<open>
  Page permissions and page table entries of \<^verbatim>\<open>kern/modules/paging/src/arch/riscv/mod.rs\<close>
  with the trait defaults of \<^verbatim>\<open>kern/modules/paging/src/lib.rs\<close>. An entry is one machine
  word: the page number from bit 10 up and eight flag bits below. Setting an entry also sets
  the accessed bit of a readable page and the dirty bit of a writable one, so that the
  hardware never faults to set them.
\<close>

unbundle bit_operations_syntax

section \<open>Permissions\<close>

type_synonym PagePerm = usize

definition PP_V :: PagePerm where "PP_V = push_bit 0 1"
definition PP_R :: PagePerm where "PP_R = push_bit 1 1"
definition PP_W :: PagePerm where "PP_W = push_bit 2 1"
definition PP_X :: PagePerm where "PP_X = push_bit 3 1"
definition PP_U :: PagePerm where "PP_U = push_bit 4 1"
definition PP_G :: PagePerm where "PP_G = push_bit 5 1"
definition PP_A :: PagePerm where "PP_A = push_bit 6 1"
definition PP_D :: PagePerm where "PP_D = push_bit 7 1"

text \<open>The operations the \<^verbatim>\<open>bitflags!\<close> macro provides on the flag set.\<close>

definition PP_all :: PagePerm where
  "PP_all = PP_V OR PP_R OR PP_W OR PP_X OR PP_U OR PP_G OR PP_A OR PP_D"

definition perm_contains :: "PagePerm \<Rightarrow> PagePerm \<Rightarrow> bool" where
  "perm_contains p q \<longleftrightarrow> p AND q = q"

definition perm_insert :: "PagePerm \<Rightarrow> PagePerm \<Rightarrow> PagePerm" where
  "perm_insert p q = p OR q"

definition from_bits_truncate :: "usize \<Rightarrow> PagePerm" where
  "from_bits_truncate w = w AND PP_all"

text \<open>
  \<^verbatim>\<open>Display\<close>: the letters \<^verbatim>\<open>VRWXUG\<close>, with a dash for each clear flag.
\<close>

fun perm_replace :: "PagePerm \<Rightarrow> nat \<Rightarrow> string \<Rightarrow> string" where
  "perm_replace p n [] = []"
| "perm_replace p n (c # cs) =
     (if p AND push_bit n 1 = 0 then CHR ''-'' else c) # perm_replace p (Suc n) cs"

definition perm_display :: "PagePerm \<Rightarrow> string" where
  "perm_display p = perm_replace p 0 ''VRWXUG''"

section \<open>Entries\<close>

record PageTableEntry =
  pte_bits :: usize

definition pte_set :: "PhysAddr \<Rightarrow> PagePerm \<Rightarrow> PageTableEntry \<Rightarrow> PageTableEntry" where
  "pte_set phys_addr perm0 pte =
     (let perm1 = (if perm_contains perm0 PP_R then perm_insert perm0 PP_A else perm0);
          perm2 = (if perm_contains perm1 PP_W then perm_insert perm1 PP_D else perm1)
      in pte\<lparr>pte_bits := drop_bit 2 (pa_as_usize (pa_align_page_down phys_addr)) OR perm2\<rparr>)"

definition pte_clr :: "PageTableEntry \<Rightarrow> PageTableEntry" where
  "pte_clr pte = pte\<lparr>pte_bits := 0\<rparr>"

definition pte_into :: "PageTableEntry \<Rightarrow> PhysAddr \<times> PagePerm" where
  "pte_into value =
     (pa_new (push_bit 2 (pte_bits value) AND NOT (PAGE_SIZE - 1)), from_bits_truncate (pte_bits value))"

definition pte_into_usize :: "PageTableEntry \<Rightarrow> usize" where
  "pte_into_usize value = pte_bits value"

definition pte_new :: "PhysAddr \<Rightarrow> PagePerm \<Rightarrow> PageTableEntry" where
  "pte_new phys_addr perm = pte_set phys_addr perm \<lparr>pte_bits = 0\<rparr>"

definition pte_from_raw :: "usize \<Rightarrow> PageTableEntry" where
  "pte_from_raw w = \<lparr>pte_bits = w\<rparr>"

definition pte_is_valid :: "PageTableEntry \<Rightarrow> bool" where
  "pte_is_valid pte \<longleftrightarrow> pte_bits pte AND PP_V \<noteq> 0"

definition pte_valid :: "PageTableEntry \<Rightarrow> bool" where
  "pte_valid pte \<longleftrightarrow> perm_contains (snd (pte_into pte)) PP_V"

section \<open>Facts\<close>

lemmas perm_flag_defs = PP_V_def PP_R_def PP_W_def PP_X_def PP_U_def PP_G_def PP_A_def PP_D_def

lemma PP_all_eq: "PP_all = mask 8"
  by (simp add: PP_all_def perm_flag_defs mask_eq_exp_minus_1)

lemma contains_flag: "n < 64 \<Longrightarrow> perm_contains p (push_bit n 1) \<longleftrightarrow> bit p n"
  unfolding perm_contains_def and_flag by (simp add: flag_nonzero)

lemma pte_valid_bit: "pte_valid pte \<longleftrightarrow> bit (pte_bits pte) 0"
  unfolding pte_valid_def pte_into_def from_bits_truncate_def PP_all_eq PP_V_def
  by (simp only: contains_flag snd_conv zero_less_numeral) (simp add: bit_simps)

lemma pte_is_valid_bit: "pte_is_valid pte \<longleftrightarrow> bit (pte_bits pte) 0"
  unfolding pte_is_valid_def PP_V_def and_flag by simp

lemma contains_R: "perm_contains p PP_R \<longleftrightarrow> bit p 1"
  unfolding PP_R_def by (rule contains_flag) simp

lemma contains_W: "perm_contains p PP_W \<longleftrightarrow> bit p 2"
  unfolding PP_W_def by (rule contains_flag) simp

text \<open>The flags an entry ends up with.\<close>

definition perm_stored :: "PagePerm \<Rightarrow> PagePerm" where
  "perm_stored p = p OR (if bit p 1 then PP_A else 0) OR (if bit p 2 then PP_D else 0)"

lemma pte_set_bits:
  "pte_bits (pte_set pa perm pte) = drop_bit 2 (align_page_down (pa_as_usize pa)) OR perm_stored perm"
  unfolding pte_set_def Let_def contains_R contains_W perm_insert_def perm_stored_def pa_align_page_down_def
  by (auto simp: bit_simps PP_A_def PP_D_def ac_simps)

lemma bit_perm_stored:
  "bit (perm_stored p) n \<longleftrightarrow> bit p n \<or> bit p 1 \<and> n = 6 \<or> bit p 2 \<and> n = 7"
proof -
  have "bit (if b then push_bit m 1 else (0 :: usize)) n \<longleftrightarrow> b \<and> n = m" if "m < 64" for b m
    using that by (cases b) (simp_all add: bit_flag del: push_bit_of_1)
  from this [of 6 "bit p 1"] this [of 7 "bit p 2"] show ?thesis
    unfolding perm_stored_def PP_A_def PP_D_def by (simp only: bit_or_iff)
qed

lemma pte_into_set:
  assumes "perm AND PP_all = perm"
  shows "pte_into (pte_set pa perm pte) = (pa_align_page_down pa, perm_stored perm)"
proof -
  have hi: "\<not> bit perm n" if "n \<ge> 8" for n
    using assms that unfolding PP_all_eq by (metis bit_and_iff bit_mask_iff not_less)
  let ?b = "drop_bit 2 (push_bit 12 (drop_bit 12 (pa_as_usize pa))) OR perm_stored perm"
  have "push_bit 2 ?b AND NOT (mask 12) = push_bit 12 (drop_bit 12 (pa_as_usize pa))"
    by (rule bit_word_eqI)
      (auto simp: bit_simps bit_perm_stored hi not_less)
  moreover have "?b AND mask 8 = perm_stored perm"
    by (rule bit_word_eqI) (use hi in \<open>auto simp: bit_simps bit_perm_stored simp flip: not_less\<close>)
  ultimately show ?thesis
    unfolding pte_into_def pte_set_bits pa_align_page_down_def align_page_down_bits page_mask
      from_bits_truncate_def PP_all_eq pa_new_def by simp
qed

lemma pte_valid_set:
  assumes "bit perm 0"
  shows "pte_valid (pte_set pa perm pte)"
  using assms by (simp add: pte_valid_bit pte_set_bits bit_or_iff bit_perm_stored)

lemma pte_valid_zero [simp]: "\<not> pte_valid (pte_from_raw 0)"
  by (simp add: pte_valid_bit pte_from_raw_def)

section \<open>Properties\<close>

text \<open>
  Reading back an entry that was set with an address and a set of flags gives the
  address of the page and the same flags, plus the accessed bit when the page is readable
  and the dirty bit when it is writable; the entry is valid exactly when the V flag was
  given, both by the trait's test and by the inherent one, and a cleared entry is invalid.
\<close>

theorem pte_set_into_roundtrip:
  assumes "perm AND PP_all = perm"
  shows "pte_into (pte_set pa perm pte) =
           (pa_align_page_down pa,
            perm OR (if perm_contains perm PP_R then PP_A else 0) OR (if perm_contains perm PP_W then PP_D else 0)) \<and>
         pte_valid (pte_set pa perm pte) = perm_contains perm PP_V \<and>
         pte_is_valid (pte_set pa perm pte) = perm_contains perm PP_V \<and>
         \<not> pte_valid (pte_clr pte)"
proof -
  have V: "perm_contains p PP_V \<longleftrightarrow> bit p 0" for p unfolding PP_V_def by (rule contains_flag) simp
  have "bit (pte_bits (pte_set pa perm pte)) 0 \<longleftrightarrow> bit perm 0"
    by (simp add: pte_set_bits bit_or_iff bit_perm_stored bit_drop_bit_eq align_page_down_bits bit_push_bit_iff)
  moreover have "\<not> pte_valid (pte_clr pte)" by (simp add: pte_valid_bit pte_clr_def)
  ultimately show ?thesis
    using pte_into_set [OF assms]
    by (simp add: contains_R contains_W V perm_stored_def pte_valid_bit pte_is_valid_bit)
qed

theorem pte_set_into_roundtrip_witness:
  "pte_into (pte_set (PhysAddr 0x80201234) (PP_V OR PP_R OR PP_W) \<lparr>pte_bits = 0\<rparr>) =
     (PhysAddr 0x80201000, 0xC7) \<and>
   pte_valid (pte_set (PhysAddr 0x80201234) (PP_V OR PP_R OR PP_W) \<lparr>pte_bits = 0\<rparr>)"
proof -
  have "(PP_V OR PP_R OR PP_W) AND PP_all = PP_V OR PP_R OR PP_W"
    by (simp add: PP_all_def perm_flag_defs)
  from pte_set_into_roundtrip [OF this, of "PhysAddr 0x80201234" "\<lparr>pte_bits = 0\<rparr>"] show ?thesis
    by (simp add: perm_contains_def perm_flag_defs pa_align_page_down_def align_page_down_def PAGE_SIZE_def)
qed

end
