(* ===== verification/Phys_Frame.thy ===== *)
theory Phys_Frame
  imports Pte
begin

text \<open>
  Kernel memory as the paging code sees it, and the reference-counted physical frames of
  \<^verbatim>\<open>kern/modules/phys-frame/src/lib.rs\<close>.

  \<open>kmem\<close> holds the 8-byte cells by kernel virtual address, the static boot page table, the
  private state of the global allocator (a third-party crate, so a type variable) and the
  strong count of every \<^verbatim>\<open>Arc<PhysFrame>\<close>. The two allocator calls the code makes are the
  fields of \<open>frame_allocator\<close>; \<open>frame_allocator_ok\<close> states their documented behaviour.
\<close>

unbundle bit_operations_syntax

section \<open>Memory and the allocator's interface\<close>

record 'h kmem =
  km_cells :: "usize \<Rightarrow> usize"
  km_boot :: "usize list"
  km_heap :: 'h
  km_rc :: "PhysAddr \<Rightarrow> nat"

record 'h frame_allocator =
  fa_allocate_zeroed :: "'h kmem \<Rightarrow> usize option \<times> 'h kmem"
  fa_deallocate :: "usize \<Rightarrow> 'h kmem \<Rightarrow> 'h kmem"

text \<open>Element \<open>i\<close> of the array of machine words that fills the page of \<open>b\<close>.\<close>

definition cell :: "usize \<Rightarrow> usize \<Rightarrow> usize" where
  "cell b i = align_page_down b + i * 8"

text \<open>The kernel heap lives in the linear remapping of physical memory.\<close>

definition linear :: "usize \<Rightarrow> bool" where
  "linear a \<longleftrightarrow> PHYS_MEM_BASE + REMAP_MEM_OFFSET \<le> a \<and> a < PHYS_MEM_LIMIT + REMAP_MEM_OFFSET"

definition same_pages :: "usize set \<Rightarrow> 'h kmem \<Rightarrow> 'h kmem \<Rightarrow> bool" where
  "same_pages P m m' \<longleftrightarrow>
     (\<forall>b\<in>P. \<forall>i<512. km_cells m' (cell b i) = km_cells m (cell b i)) \<and>
     km_boot m' = km_boot m \<and> km_rc m' = km_rc m"

text \<open>
  What \<^verbatim>\<open>Allocator::allocate_zeroed\<close> and \<^verbatim>\<open>deallocate\<close> promise for one page-sized,
  page-aligned layout: a block that was not handed out, aligned, in the heap and filled with
  zero; blocks in use are left alone.
\<close>

definition frame_allocator_ok :: "'h frame_allocator \<Rightarrow> ('h \<Rightarrow> usize set) \<Rightarrow> bool" where
  "frame_allocator_ok A live \<longleftrightarrow>
     (\<forall>m a m'. fa_allocate_zeroed A m = (Some a, m') \<longrightarrow>
        4096 dvd unat a \<and> linear a \<and> a \<notin> live (km_heap m) \<and>
        live (km_heap m') = insert a (live (km_heap m)) \<and>
        (\<forall>i<512. km_cells m' (cell a i) = 0) \<and> same_pages (live (km_heap m)) m m') \<and>
     (\<forall>m m'. fa_allocate_zeroed A m = (None, m') \<longrightarrow>
        live (km_heap m') = live (km_heap m) \<and> same_pages (live (km_heap m)) m m') \<and>
     (\<forall>m a. a \<in> live (km_heap m) \<longrightarrow>
        live (km_heap (fa_deallocate A a m)) = live (km_heap m) - {a} \<and>
        same_pages (live (km_heap m) - {a}) m (fa_deallocate A a m))"

text \<open>The allocator has \<open>n\<close> frames in all: it does not refuse one while fewer are in use.\<close>

definition frames_for :: "'h frame_allocator \<Rightarrow> ('h \<Rightarrow> usize set) \<Rightarrow> nat \<Rightarrow> bool" where
  "frames_for A live n \<longleftrightarrow> (\<forall>m. card (live (km_heap m)) < n \<longrightarrow> fst (fa_allocate_zeroed A m) \<noteq> None)"

lemma frames_for_mono: "frames_for A live n \<Longrightarrow> k \<le> n \<Longrightarrow> frames_for A live k"
  by (simp add: frames_for_def)

section \<open>Frames\<close>

datatype PhysFrame = PhysFrame (pf_addr: PhysAddr)

text \<open>\<^verbatim>\<open>Ord::cmp\<close> compares the addresses, and \<^verbatim>\<open>PartialOrd\<close> is that order; equality is the
  datatype's, which for the one field the model keeps is \<^verbatim>\<open>PartialEq\<close> of the source.\<close>

definition PhysFrame_le :: "PhysFrame \<Rightarrow> PhysFrame \<Rightarrow> bool" where
  "PhysFrame_le a b \<longleftrightarrow> pf_addr a \<le> pf_addr b"

instantiation PhysFrame :: linorder
begin
definition less_eq_PhysFrame :: "PhysFrame \<Rightarrow> PhysFrame \<Rightarrow> bool" where
  "less_eq_PhysFrame = PhysFrame_le"
definition less_PhysFrame :: "PhysFrame \<Rightarrow> PhysFrame \<Rightarrow> bool" where
  "less_PhysFrame a b \<longleftrightarrow> \<not> PhysFrame_le b a"
instance
  by standard
    (auto simp: less_eq_PhysFrame_def less_PhysFrame_def PhysFrame_le_def PhysFrame.expand)
end

text \<open>\<^verbatim>\<open>alloc\<close> and \<^verbatim>\<open>alloc_in\<close> with the global allocator: a new \<^verbatim>\<open>Arc\<close> has count 1.\<close>

definition PhysFrame_alloc :: "'h frame_allocator \<Rightarrow> 'h kmem \<Rightarrow> PhysFrame res \<times> 'h kmem" where
  "PhysFrame_alloc A m =
     (case fa_allocate_zeroed A m of
        (None, m') \<Rightarrow> (Fail NotEnoughMem, m')
      | (Some a, m') \<Rightarrow>
          (let frame = PhysFrame (to_phys (va_new a))
           in (Ok frame, m'\<lparr>km_rc := (km_rc m')(pf_addr frame := 1)\<rparr>)))"

text \<open>\<^verbatim>\<open>PhysFrame::drop\<close>: gives the page back; \<^verbatim>\<open>NonNull::new(..).unwrap()\<close> panics on the
  null pointer.\<close>

definition PhysFrame_drop :: "'h frame_allocator \<Rightarrow> PhysFrame \<Rightarrow> 'h kmem \<Rightarrow> 'h kmem res" where
  "PhysFrame_drop A f m =
     (let p = va_as_usize (to_virt (pf_addr f))
      in if p = 0 then Panicked else Ok (fa_deallocate A p m))"

text \<open>\<^verbatim>\<open>Arc::clone\<close> and the drop of one \<^verbatim>\<open>Arc\<close>: the last one drops the frame.\<close>

definition arc_clone :: "PhysFrame \<Rightarrow> 'h kmem \<Rightarrow> 'h kmem" where
  "arc_clone f m = m\<lparr>km_rc := (km_rc m)(pf_addr f := km_rc m (pf_addr f) + 1)\<rparr>"

definition arc_drop :: "'h frame_allocator \<Rightarrow> PhysFrame \<Rightarrow> 'h kmem \<Rightarrow> 'h kmem res" where
  "arc_drop A f m =
     (let n = km_rc m (pf_addr f) - 1; m' = m\<lparr>km_rc := (km_rc m)(pf_addr f := n)\<rparr>
      in if n = 0 then PhysFrame_drop A f m' else Ok m')"

section \<open>Facts\<close>

lemma cell_inj:
  assumes "4096 dvd unat a" "4096 dvd unat b" "i < 512" "j < 512" "cell a i = cell b j"
  shows "a = b \<and> i = j"
proof -
  have cell_nat: "unat (cell c k) = unat c + 8 * unat k" if c4: "4096 dvd unat c" and k512: "k < 512" for c k
  proof -
    have k: "unat k < 512" using k512 by (simp add: word_less_nat_alt)
    have c: "unat c + 4096 \<le> 18446744073709551616"
    proof -
      obtain q where q: "unat c = 4096 * q" using c4 by (rule dvdE)
      then have "q < 4503599627370496" using unat_usize_less [of c] by simp
      then show ?thesis using q by simp
    qed
    have "unat (k * 8) = unat k * 8" using k by (simp add: unat_word_ariths)
    with k c show ?thesis
      unfolding cell_def align_page_down_id [OF c4] by (subst unat_add_usize) simp_all
  qed
  have e: "unat a + 8 * unat i = unat b + 8 * unat j"
    using assms(5) cell_nat [OF assms(1,3)] cell_nat [OF assms(2,4)] by simp
  obtain q r where qr: "unat a = 4096 * q" "unat b = 4096 * r" using assms(1,2) by (meson dvdE)
  have small: "unat i < 512" "unat j < 512" using assms(3,4) by (simp_all add: word_less_nat_alt)
  have "512 * q + unat i = 512 * r + unat j" using e qr by simp
  then have "(512 * q + unat i) div 512 = (512 * r + unat j) div 512" by simp
  with small have "q = r" by simp
  with e qr have "unat a = unat b \<and> unat i = unat j" by simp
  then show ?thesis by (simp add: word_unat_eq_iff)
qed

lemma linear_index:
  assumes "linear a"
  shows "258 \<le> hd (indexes (VirtAddr a)) \<and> hd (indexes (VirtAddr a)) < 384 \<and> a \<noteq> 0"
proof -
  have r: "18446743800979128320 \<le> unat a" "unat a < 18446743936270598144"
    using assms by (simp_all add: linear_def addr_config_defs word_le_nat_alt word_less_nat_alt)
  have h: "unat (hd (indexes (VirtAddr a))) = unat a div 1073741824 mod 512"
    using indexes_eq [of "VirtAddr a"] by (simp add: indexes_def)
  have "17179868930 \<le> unat a div 1073741824" "unat a div 1073741824 < 17179869056" using r by simp_all
  moreover have "n mod 512 = n - 17179868672" if "17179868930 \<le> n" "n < 17179869056" for n :: nat
  proof -
    have "n = (n - 17179868672) + 33554431 * 512" using that by simp
    then have "n mod 512 = (n - 17179868672) mod 512" by (metis mod_mult_self1)
    then show ?thesis using that by simp
  qed
  ultimately have "258 \<le> unat a div 1073741824 mod 512" "unat a div 1073741824 mod 512 < 384" by simp_all
  then show ?thesis
    using r unfolding word_le_nat_alt word_less_nat_alt h by auto
qed

lemma frame_alloc_cases:
  assumes "frame_allocator_ok A live"
  shows "(\<exists>m'. PhysFrame_alloc A m = (Fail NotEnoughMem, m') \<and> live (km_heap m') = live (km_heap m) \<and>
              same_pages (live (km_heap m)) m m')
       \<or> (\<exists>a m'. PhysFrame_alloc A m = (Ok (PhysFrame (to_phys (VirtAddr a))), m') \<and> 4096 dvd unat a \<and> linear a \<and>
              a \<notin> live (km_heap m) \<and> live (km_heap m') = insert a (live (km_heap m)) \<and>
              (\<forall>i<512. km_cells m' (cell a i) = 0) \<and>
              (\<forall>b\<in>live (km_heap m). \<forall>i<512. km_cells m' (cell b i) = km_cells m (cell b i)) \<and>
              km_boot m' = km_boot m \<and> km_rc m' = (km_rc m)(to_phys (VirtAddr a) := 1))"
proof (cases "fa_allocate_zeroed A m")
  case (Pair r m')
  then show ?thesis
    using assms unfolding frame_allocator_ok_def
    by (cases r) (auto simp: PhysFrame_alloc_def same_pages_def Let_def va_new_def)
qed

lemma frame_dealloc:
  assumes "frame_allocator_ok A live" "a \<in> live (km_heap m)"
  shows "live (km_heap (fa_deallocate A a m)) = live (km_heap m) - {a}"
    "same_pages (live (km_heap m) - {a}) m (fa_deallocate A a m)"
  using assms unfolding frame_allocator_ok_def by simp_all

lemma align_cell:
  assumes "i < 512"
  shows "align_page_down (cell b i) = align_page_down b"
proof -
  let ?a = "align_page_down b"
  obtain q where q: "unat ?a = 4096 * q" by (meson align_page_down_dvd dvdE)
  have i: "unat i < 512" using assms by (simp add: word_less_nat_alt)
  have i8: "unat (i * 8) = unat i * 8" using i by (simp add: unat_word_ariths)
  have "unat ?a + 4096 \<le> 18446744073709551616"
    using unat_usize_less [of ?a] q by simp
  then have "unat (cell b i) = 4096 * q + unat i * 8"
    unfolding cell_def using i i8 q by (subst unat_add_usize) simp_all
  then have "unat (cell b i) div 4096 = q" using i by simp
  then show ?thesis using q by (simp add: word_unat_eq_iff unat_align_page_down [of "cell b i"])
qed

text \<open>
  A small allocator over eight pages, which keeps the list of pages in use: it shows that
  \<open>frame_allocator_ok\<close> can hold.
\<close>

definition pool_pages :: "usize list" where
  "pool_pages = map (\<lambda>k. 0xFFFFFFC080000000 + of_nat k * 4096) [0..<8]"

definition pool_allocator :: "usize list frame_allocator" where
  "pool_allocator =
     \<lparr>fa_allocate_zeroed = (\<lambda>m. case filter (\<lambda>a. a \<notin> set (map align_page_down (km_heap m))) pool_pages of
          [] \<Rightarrow> (None, m)
        | a # _ \<Rightarrow> (Some a, m\<lparr>km_cells := (\<lambda>p. if align_page_down p = a then 0 else km_cells m p),
                            km_heap := a # km_heap m\<rparr>)),
      fa_deallocate = (\<lambda>a m. m\<lparr>km_heap := removeAll a (km_heap m)\<rparr>)\<rparr>"

lemma pool_pages_ok: "a \<in> set pool_pages \<Longrightarrow> 4096 dvd unat a \<and> linear a \<and> align_page_down a = a"
  by (auto simp: pool_pages_def linear_def addr_config_defs upt_rec align_page_down_def)

lemma pool_allocator_ok: "frame_allocator_ok pool_allocator set"
  unfolding frame_allocator_ok_def
proof (intro conjI allI impI)
  fix m m' :: "usize list kmem" and a
  assume al: "fa_allocate_zeroed pool_allocator m = (Some a, m')"
  then obtain as where as: "filter (\<lambda>a. a \<notin> set (map align_page_down (km_heap m))) pool_pages = a # as"
    and m': "m' = m\<lparr>km_cells := (\<lambda>p. if align_page_down p = a then 0 else km_cells m p), km_heap := a # km_heap m\<rparr>"
    by (auto simp: pool_allocator_def split: list.splits)
  have "a \<in> set (filter (\<lambda>a. a \<notin> set (map align_page_down (km_heap m))) pool_pages)" unfolding as by simp
  then have a: "a \<in> set pool_pages" "a \<notin> align_page_down ` set (km_heap m)" by auto
  note ok = pool_pages_ok [OF a(1)]
  show "4096 dvd unat a" "linear a" "a \<notin> set (km_heap m)" using ok a(2) by (auto simp: image_iff)
  show "set (km_heap m') = insert a (set (km_heap m))" by (simp add: m')
  show "km_cells m' (cell a i) = 0" if "i < 512" for i using ok that by (simp add: m' align_cell)
  show "same_pages (set (km_heap m)) m m'" using a(2) by (auto simp: m' same_pages_def align_cell)
qed (auto simp: pool_allocator_def same_pages_def split: list.splits)

end
