(* ===== verification/Boot_Paging.thy ===== *)
theory Boot_Paging
  imports Phys_Frame
begin

text \<open>
  The boot page table of \<^verbatim>\<open>kern/modules/paging/src/arch/riscv/boot.rs\<close>: a static root table
  filled with 1 GiB leaf entries for the remapped regions, the switch to it, the mapping of
  single device pages below it, and the copy of its upper half into every other root table.
\<close>

unbundle bit_operations_syntax

section \<open>The code\<close>

definition BOOT_PAGE_TABLE :: "usize list" where
  "BOOT_PAGE_TABLE = replicate (unat (PAGE_SIZE div 8)) 0"

definition boot_perm :: PagePerm where
  "boot_perm = PP_G OR PP_X OR PP_W OR PP_R OR PP_V"

definition boot_entry :: "RemapMemRegion \<Rightarrow> nat \<Rightarrow> usize list \<Rightarrow> usize list res" where
  "boot_entry region i table =
     (let vaddr = va_new (rmr_virt_addr region + of_nat i * REMAP_HUGE_PAGE_SIZE);
          paddr = pa_new (rmr_phys_addr region + of_nat i * REMAP_HUGE_PAGE_SIZE);
          idx = unat (hd (indexes vaddr))
      in if idx < length table
         then Ok (table[idx := pte_into_usize (pte_new paddr boot_perm)])
         else Panicked)"

fun boot_entries :: "RemapMemRegion \<Rightarrow> nat list \<Rightarrow> usize list \<Rightarrow> usize list res" where
  "boot_entries region [] table = Ok table"
| "boot_entries region (i # is) table = bind_res (boot_entry region i table) (boot_entries region is)"

fun boot_regions :: "RemapMemRegion list \<Rightarrow> usize list \<Rightarrow> usize list res" where
  "boot_regions [] table = Ok table"
| "boot_regions (r # rs) table =
     bind_res (boot_entries r [0..<unat (rmr_len r div REMAP_HUGE_PAGE_SIZE)] table) (boot_regions rs)"

definition boot_init :: "usize list \<Rightarrow> usize list res" where
  "boot_init table = boot_regions REMAP_MEM_REGIONS table"

text \<open>
  \<^verbatim>\<open>start\<close> and \<^verbatim>\<open>jump_high_addr\<close>: switch translation on, then move the stack pointer and
  the return address to their remapped aliases. \<open>table_addr\<close> is the address of the static
  table while translation is still off.
\<close>

datatype satp_mode = Bare | Sv39

record boot_cpu =
  bc_satp :: "satp_mode \<times> usize \<times> usize"
  bc_sp :: usize
  bc_ra :: usize

definition jump_high_addr :: "boot_cpu \<Rightarrow> boot_cpu" where
  "jump_high_addr c = c\<lparr>bc_sp := bc_sp c + REMAP_MEM_OFFSET, bc_ra := bc_ra c + REMAP_MEM_OFFSET\<rparr>"

definition boot_start :: "usize \<Rightarrow> boot_cpu \<Rightarrow> boot_cpu" where
  "boot_start table_addr c = jump_high_addr (c\<lparr>bc_satp := (Sv39, 0, table_addr div PAGE_SIZE)\<rparr>)"

text \<open>\<^verbatim>\<open>map\<close> walks from the static table through heap pages, creating what is missing.\<close>

datatype table_ref = Static_Table | Heap_Table usize

definition table_get :: "table_ref \<Rightarrow> usize \<Rightarrow> 'h kmem \<Rightarrow> usize res" where
  "table_get t i m =
     (case t of
        Static_Table \<Rightarrow> if unat i < length (km_boot m) then Ok (km_boot m ! unat i) else Panicked
      | Heap_Table b \<Rightarrow> bind_res (array_elem 8 (as_array_base 8 (va_new b)) i) (\<lambda>p. Ok (km_cells m p)))"

definition table_put :: "table_ref \<Rightarrow> usize \<Rightarrow> usize \<Rightarrow> 'h kmem \<Rightarrow> 'h kmem" where
  "table_put t i w m =
     (case t of
        Static_Table \<Rightarrow> m\<lparr>km_boot := (km_boot m)[unat i := w]\<rparr>
      | Heap_Table b \<Rightarrow> m\<lparr>km_cells := (km_cells m)(cell b i := w)\<rparr>)"

fun boot_map_from ::
  "'h frame_allocator \<Rightarrow> table_ref \<Rightarrow> usize list \<Rightarrow> PhysAddr \<Rightarrow> 'h kmem \<Rightarrow> unit res \<times> 'h kmem" where
  "boot_map_from A root [] phys_addr m = (Ok (), m)"
| "boot_map_from A root (i # is) phys_addr m =
     (case table_get root i m of
        Inl e \<Rightarrow> (Inl e, m)
      | Inr w \<Rightarrow>
          if is = [] then (Ok (), table_put root i (pte_into_usize (pte_new phys_addr boot_perm)) m)
          else let descend = (\<lambda>w m. boot_map_from A
                     (Heap_Table (va_as_usize (to_virt (fst (pte_into (pte_from_raw w)))))) is phys_addr m)
               in if w AND PP_V = 0
                  then (case fa_allocate_zeroed A m of
                          (None, m') \<Rightarrow> (Panicked, m')
                        | (Some a, m') \<Rightarrow>
                            (let w' = pte_into_usize (pte_new (to_phys (va_new a)) PP_V)
                             in descend w' (table_put root i w' m')))
                  else descend w m)"

definition boot_map :: "'h frame_allocator \<Rightarrow> VirtAddr \<Rightarrow> PhysAddr \<Rightarrow> 'h kmem \<Rightarrow> unit res \<times> 'h kmem" where
  "boot_map A virt_addr phys_addr m =
     boot_map_from A Static_Table (indexes (va_align_page_down virt_addr)) (pa_align_page_down phys_addr) m"

text \<open>\<^verbatim>\<open>clone_into\<close>: the upper half of the table, into the page at \<open>b\<close>.\<close>

definition HALF :: nat where
  "HALF = unat (PAGE_SIZE div 8 div 2)"

fun copy_cells :: "usize \<Rightarrow> nat list \<Rightarrow> usize list \<Rightarrow> (usize \<Rightarrow> usize) \<Rightarrow> usize \<Rightarrow> usize" where
  "copy_cells b [] table c = c"
| "copy_cells b (i # is) table c = copy_cells b is table (c(cell b (of_nat i) := table ! i))"

definition clone_into :: "usize \<Rightarrow> 'h kmem \<Rightarrow> 'h kmem" where
  "clone_into b m = m\<lparr>km_cells := copy_cells b [HALF..<unat (PAGE_SIZE div 8)] (km_boot m) (km_cells m)\<rparr>"

section \<open>The initial table\<close>

lemma boot_perm_eq: "boot_perm = 0x2F"
  by (simp add: boot_perm_def perm_flag_defs)

lemma length_boot_entry: "boot_entry r i t = Ok t' \<Longrightarrow> length t' = length t"
  by (auto simp: boot_entry_def Let_def split: if_splits)

text \<open>The root index of a 1 GiB step.\<close>

lemma hd_indexes: "unat (hd (indexes a)) = unat (va_as_usize a) div 2 ^ 30 mod 512"
  using indexes_eq [of a] by (simp add: indexes_def)

lemma copy_cells_other: "\<forall>i\<in>set is. p \<noteq> cell b (of_nat i) \<Longrightarrow> copy_cells b is t c p = c p"
  by (induction "is" arbitrary: c) simp_all

lemma copy_cells_page:
  assumes "4096 dvd unat b" "\<forall>i\<in>set is. i < 512" "j < 512"
  shows "copy_cells b is t c (cell b j) = (if unat j \<in> set is then t ! unat j else c (cell b j))"
  using assms(2)
proof (induction "is" arbitrary: c)
  case (Cons i "is")
  have i: "of_nat i < (512 :: usize)" "unat (of_nat i :: usize) = i"
    using Cons.prems by (simp_all add: word_less_nat_alt unat_of_nat)
  have "cell b j = cell b (of_nat i) \<longleftrightarrow> unat j = i"
    using cell_inj [OF assms(1,1,3) i(1)] i(2) by auto
  then show ?case using Cons by auto
qed simp

lemma half_eq: "HALF = 256" "unat (PAGE_SIZE div 8) = 512"
  by (simp_all add: HALF_def PAGE_SIZE_def)

lemma half_range: "i \<in> set [HALF..<unat (PAGE_SIZE div 8)] \<longleftrightarrow> 256 \<le> i \<and> i < 512"
  by (simp only: half_eq set_upt atLeastLessThan_iff)

text \<open>What a cloned root table holds, and that no other page changes.\<close>

lemma clone_into_page:
  assumes "4096 dvd unat b" "j < 512"
  shows "km_cells (clone_into b m) (cell b j) = (if j < 256 then km_cells m (cell b j) else km_boot m ! unat j)"
proof -
  define l where "l = [HALF..<unat (PAGE_SIZE div 8)]"
  have l: "i \<in> set l \<longleftrightarrow> 256 \<le> i \<and> i < 512" for i by (simp only: l_def half_range)
  have "unat j < 512" using assms(2) by (simp add: word_less_nat_alt)
  then show ?thesis
    using copy_cells_page [OF assms(1) _ assms(2), of l] l
    by (simp add: clone_into_def word_less_nat_alt flip: l_def)
qed

lemma clone_into_other:
  assumes "4096 dvd unat b" "4096 dvd unat a" "a \<noteq> b" "j < 512"
  shows "km_cells (clone_into b m) (cell a j) = km_cells m (cell a j)"
proof -
  have "cell a j \<noteq> cell b (of_nat i)" if "i < 512" for i
  proof -
    have "of_nat i < (512 :: usize)" using that by (simp add: word_less_nat_alt unat_of_nat)
    then show ?thesis using cell_inj [OF assms(2,1,4)] assms(3) by blast
  qed
  moreover have "i < 512" if "i \<in> set [HALF..<unat (PAGE_SIZE div 8)]" for i using that by (simp only: half_range)
  ultimately show ?thesis unfolding clone_into_def by (simp add: copy_cells_other del: set_upt)
qed

lemma boot_entries_snoc:
  "boot_entries r (is @ [i]) t = bind_res (boot_entries r is t) (boot_entry r i)"
proof (induction "is" arbitrary: t)
  case (Cons j "is")
  then show ?case by (cases "boot_entry r j t") simp_all
next
  case Nil
  show ?case by (cases "boot_entry r i t") simp_all
qed

text \<open>The entry a region writes for its step \<open>i\<close>.\<close>

definition huge_entry :: "nat \<Rightarrow> usize" where
  "huge_entry i = pte_into_usize (pte_new (PhysAddr (PHYS_MEM_BASE + of_nat i * REMAP_HUGE_PAGE_SIZE)) boot_perm)"

lemma boot_entries_table:
  assumes idx: "\<And>i. i < n \<Longrightarrow> unat (hd (indexes (VirtAddr (rmr_virt_addr r + of_nat i * REMAP_HUGE_PAGE_SIZE)))) = k + i"
    and r: "rmr_phys_addr r = PHYS_MEM_BASE" and k: "k + n \<le> length t"
  shows "\<exists>t'. boot_entries r [0..<n] t = Ok t' \<and> length t' = length t \<and>
           (\<forall>j<length t. t' ! j = (if k \<le> j \<and> j < k + n then huge_entry (j - k) else t ! j))"
  using idx k
proof (induction n)
  case (Suc n)
  then obtain t' where t': "boot_entries r [0..<n] t = Ok t'" "length t' = length t"
    "\<forall>j<length t. t' ! j = (if k \<le> j \<and> j < k + n then huge_entry (j - k) else t ! j)" by auto
  have "boot_entry r n t' = Ok (t'[k + n := huge_entry n])"
    using Suc.prems t'(2) by (simp add: boot_entry_def Let_def va_new_def pa_new_def huge_entry_def r)
  then show ?case using t' Suc.prems(2) by (auto simp: boot_entries_snoc nth_list_update)
qed auto

lemma high_index:
  assumes "i < 126"
  shows "unat (hd (indexes (VirtAddr (PHYS_MEM_BASE + REMAP_MEM_OFFSET + of_nat i * REMAP_HUGE_PAGE_SIZE)))) = 258 + i"
proof -
  have "unat (of_nat i * 1073741824 :: usize) = i * 1073741824"
    using assms by (simp add: unat_word_ariths unat_of_nat)
  then have "unat (0xFFFFFFC080000000 + of_nat i * 1073741824 :: usize) = 18446743800979128320 + i * 1073741824"
    using assms by (subst unat_add_usize) simp_all
  moreover have "(18446743800979128320 + i * 1073741824) div 1073741824 = 17179868930 + i" by simp
  moreover have "(17179868930 + i) mod 512 = 258 + i"
  proof -
    have "17179868930 + i = (258 + i) + 33554431 * 512" by simp
    then have "(17179868930 + i) mod 512 = (258 + i) mod 512" by (metis mod_mult_self1)
    then show ?thesis using assms by simp
  qed
  ultimately show ?thesis by (simp add: hd_indexes addr_config_defs)
qed

lemma boot_init_table:
  "\<exists>t. boot_init BOOT_PAGE_TABLE = Ok t \<and> length t = 512 \<and> t ! 2 = huge_entry 0 \<and>
     (\<forall>i<126. t ! (258 + i) = huge_entry i) \<and>
     (\<forall>j<512. j \<noteq> 2 \<and> \<not> (258 \<le> j \<and> j < 384) \<longrightarrow> t ! j = 0)"
proof -
  let ?r1 = "\<lparr>rmr_virt_addr = PHYS_MEM_BASE, rmr_phys_addr = PHYS_MEM_BASE, rmr_len = REMAP_HUGE_PAGE_SIZE\<rparr>"
  let ?r2 = "\<lparr>rmr_virt_addr = PHYS_MEM_BASE + REMAP_MEM_OFFSET, rmr_phys_addr = PHYS_MEM_BASE,
              rmr_len = PHYS_MEM_LIMIT - PHYS_MEM_BASE\<rparr>"
  have len: "length BOOT_PAGE_TABLE = 512" by (simp add: BOOT_PAGE_TABLE_def PAGE_SIZE_def)
  have z: "BOOT_PAGE_TABLE ! j = 0" if "j < 512" for j using that by (simp add: BOOT_PAGE_TABLE_def PAGE_SIZE_def)
  have n: "unat (rmr_len ?r1 div REMAP_HUGE_PAGE_SIZE) = 1" "unat (rmr_len ?r2 div REMAP_HUGE_PAGE_SIZE) = 126"
    by (simp_all add: addr_config_defs)
  obtain t1 where t1: "boot_entries ?r1 [0..<1] BOOT_PAGE_TABLE = Ok t1" "length t1 = 512"
    "\<forall>j<512. t1 ! j = (if 2 \<le> j \<and> j < 2 + 1 then huge_entry (j - 2) else BOOT_PAGE_TABLE ! j)"
    using boot_entries_table [of 1 ?r1 2 BOOT_PAGE_TABLE] len by (auto simp: hd_indexes addr_config_defs)
  obtain t2 where t2: "boot_entries ?r2 [0..<126] t1 = Ok t2" "length t2 = 512"
    "\<forall>j<512. t2 ! j = (if 258 \<le> j \<and> j < 258 + 126 then huge_entry (j - 258) else t1 ! j)"
    using boot_entries_table [of 126 ?r2 258 t1] t1(2) high_index by auto
  have "boot_init BOOT_PAGE_TABLE = Ok t2"
    unfolding boot_init_def REMAP_MEM_REGIONS_def boot_regions.simps n t1(1) t2(1) bind_res_simps ..
  then show ?thesis using t2(2,3) t1(3) z by simp
qed

section \<open>Properties\<close>

text \<open>
  How the processor translates through a leaf entry of a root table (Sv39, 1 GiB pages): the
  entry gives the upper bits, the address the lower 30.
\<close>

definition root_translate :: "usize list \<Rightarrow> VirtAddr \<Rightarrow> PhysAddr option" where
  "root_translate t a =
     (let pte = pte_from_raw (t ! unat (hd (indexes a)))
      in if pte_is_valid pte
         then Some (pa_add (fst (pte_into pte)) (va_as_usize a AND (REMAP_HUGE_PAGE_SIZE - 1)))
         else None)"

lemma huge_entry_into:
  assumes "i < 126"
  shows "pte_is_valid (pte_from_raw (huge_entry i))"
    and "fst (pte_into (pte_from_raw (huge_entry i))) = PhysAddr (PHYS_MEM_BASE + of_nat i * REMAP_HUGE_PAGE_SIZE)"
proof -
  have perm: "boot_perm AND PP_all = boot_perm" by (simp add: boot_perm_def PP_all_def perm_flag_defs)
  have raw: "pte_from_raw (huge_entry i) =
      pte_set (PhysAddr (PHYS_MEM_BASE + of_nat i * REMAP_HUGE_PAGE_SIZE)) boot_perm \<lparr>pte_bits = 0\<rparr>"
    by (simp add: huge_entry_def pte_into_usize_def pte_new_def pte_from_raw_def)
  show "pte_is_valid (pte_from_raw (huge_entry i))"
    unfolding raw pte_is_valid_bit using pte_valid_set [of boot_perm] by (simp add: pte_valid_bit boot_perm_eq)
  have "unat (of_nat i * 1073741824 :: usize) = i * 1073741824"
    using assms by (simp add: unat_word_ariths unat_of_nat)
  then have "unat (0x80000000 + of_nat i * 1073741824 :: usize) = 4096 * (524288 + i * 262144)"
    using assms by (subst unat_add_usize) simp_all
  then have "4096 dvd unat (PHYS_MEM_BASE + of_nat i * REMAP_HUGE_PAGE_SIZE)"
    by (simp add: addr_config_defs)
  then show "fst (pte_into (pte_from_raw (huge_entry i))) = PhysAddr (PHYS_MEM_BASE + of_nat i * REMAP_HUGE_PAGE_SIZE)"
    unfolding raw pte_into_set [OF perm] by (simp add: pa_align_page_down_def align_page_down_id)
qed

lemma phys_split:
  assumes "PHYS_MEM_BASE \<le> p" "p < PHYS_MEM_LIMIT"
  defines "i \<equiv> (unat p - 2147483648) div 1073741824"
  shows "i < 126" and "p = PHYS_MEM_BASE + of_nat i * REMAP_HUGE_PAGE_SIZE + (p AND (REMAP_HUGE_PAGE_SIZE - 1))"
    and "(p + REMAP_MEM_OFFSET) AND (REMAP_HUGE_PAGE_SIZE - 1) = p AND (REMAP_HUGE_PAGE_SIZE - 1)"
    and "unat (hd (indexes (to_virt (PhysAddr p)))) = 258 + i"
proof -
  have r: "2147483648 \<le> unat p" "unat p < 137438953472"
    using assms(1,2) by (simp_all add: addr_config_defs word_le_nat_alt word_less_nat_alt)
  show i: "i < 126" using r unfolding i_def by simp
  have m: "REMAP_HUGE_PAGE_SIZE - 1 = mask 30" by (simp add: addr_config_defs mask_eq_exp_minus_1)
  have off: "unat (p AND mask 30) = unat p mod 1073741824" by (simp add: unat_and_mask)
  have n: "unat p = 2147483648 + i * 1073741824 + unat p mod 1073741824"
  proof -
    have "(unat p - 2147483648) mod 1073741824 = unat p mod 1073741824"
    proof -
      have "unat p = (unat p - 2147483648) + 2 * 1073741824" using r by simp
      then show ?thesis by (metis mod_mult_self1)
    qed
    then show ?thesis using r div_mult_mod_eq [of "unat p - 2147483648" 1073741824] unfolding i_def
      by linarith
  qed
  have "unat (of_nat i * 1073741824 :: usize) = i * 1073741824"
    using i by (simp add: unat_word_ariths unat_of_nat)
  then have "unat (0x80000000 + of_nat i * 1073741824 + (p AND mask 30) :: usize) =
      2147483648 + i * 1073741824 + unat p mod 1073741824"
    using i off by (subst unat_add_usize, subst unat_add_usize, simp_all, subst unat_add_usize, simp_all)
  with n have "p = 0x80000000 + of_nat i * 1073741824 + (p AND mask 30)" by (metis word_unat_eq_iff)
  moreover have "PHYS_MEM_BASE = 0x80000000" "REMAP_HUGE_PAGE_SIZE = 1073741824"
    by (simp_all add: addr_config_defs)
  ultimately show "p = PHYS_MEM_BASE + of_nat i * REMAP_HUGE_PAGE_SIZE + (p AND (REMAP_HUGE_PAGE_SIZE - 1))"
    by (metis m)
  have "(p + REMAP_MEM_OFFSET) AND mask 30 = p AND mask 30"
    by (simp add: REMAP_MEM_OFFSET_def word_unat_eq_iff unat_and_mask unat_word_ariths mod_mod_cancel) (simp add: mod_add_right_eq [symmetric])
  then show "(p + REMAP_MEM_OFFSET) AND (REMAP_HUGE_PAGE_SIZE - 1) = p AND (REMAP_HUGE_PAGE_SIZE - 1)"
    by (simp only: m)
  have "unat (p + REMAP_MEM_OFFSET) = unat p + 18446743798831644672"
    using r by (simp add: REMAP_MEM_OFFSET_def unat_word_ariths)
  moreover have "(unat p + 18446743798831644672) div 1073741824 = unat p div 1073741824 + 17179868928"
    by simp
  moreover have "unat p div 1073741824 = 2 + i" using n i by simp
  moreover have "(2 + i + 17179868928) mod 512 = 258 + i"
  proof -
    have "2 + i + 17179868928 = (258 + i) + 33554431 * 512" by simp
    then have "(2 + i + 17179868928) mod 512 = (258 + i) mod 512" by (metis mod_mult_self1)
    then show ?thesis using i by simp
  qed
  ultimately show "unat (hd (indexes (to_virt (PhysAddr p)))) = 258 + i"
    by (simp add: hd_indexes to_virt_def)
qed

lemma boot_table_high:
  assumes "boot_init BOOT_PAGE_TABLE = Ok t" "PHYS_MEM_BASE \<le> p" "p < PHYS_MEM_LIMIT"
  shows "root_translate t (to_virt (PhysAddr p)) = Some (PhysAddr p)"
proof -
  obtain t' where "boot_init BOOT_PAGE_TABLE = Ok t'" "\<And>i. i < 126 \<Longrightarrow> t' ! (258 + i) = huge_entry i" using boot_init_table by blast
  then have t: "i < 126 \<Longrightarrow> t ! (258 + i) = huge_entry i" for i using assms(1) by simp
  note s = phys_split [OF assms(2,3)]
  show ?thesis
    using huge_entry_into [OF s(1)] t [OF s(1)] s(2,3,4) by (simp add: root_translate_def Let_def pa_add_def to_virt_def)
qed

text \<open>
  C7. Initialising the empty boot table succeeds; through the table it builds, every physical
  address of main memory is reached at its remapped kernel address and every address of the
  first gigabyte also at itself, and addresses of all other root entries stay unmapped.
\<close>

theorem boot_init_maps_memory:
  "\<exists>t. boot_init BOOT_PAGE_TABLE = Ok t \<and> length t = 512 \<and>
     (\<forall>p. PHYS_MEM_BASE \<le> p \<and> p < PHYS_MEM_LIMIT \<longrightarrow>
        root_translate t (to_virt (PhysAddr p)) = Some (PhysAddr p)) \<and>
     (\<forall>p. PHYS_MEM_BASE \<le> p \<and> p < PHYS_MEM_BASE + REMAP_HUGE_PAGE_SIZE \<longrightarrow>
        root_translate t (VirtAddr p) = Some (PhysAddr p)) \<and>
     (\<forall>a. hd (indexes a) \<noteq> 2 \<and> \<not> (258 \<le> hd (indexes a) \<and> hd (indexes a) < 384) \<longrightarrow>
        root_translate t a = None)"
proof -
  obtain t where t: "boot_init BOOT_PAGE_TABLE = Ok t" "length t = 512" "t ! 2 = huge_entry 0"
    "\<And>i. i < 126 \<Longrightarrow> t ! (258 + i) = huge_entry i"
    "\<And>j. j < 512 \<Longrightarrow> j \<noteq> 2 \<Longrightarrow> \<not> (258 \<le> j \<and> j < 384) \<Longrightarrow> t ! j = 0"
    using boot_init_table by blast
  have high: "root_translate t (to_virt (PhysAddr p)) = Some (PhysAddr p)"
    if "PHYS_MEM_BASE \<le> p" "p < PHYS_MEM_LIMIT" for p
    by (rule boot_table_high [OF t(1) that])
  have low: "root_translate t (VirtAddr p) = Some (PhysAddr p)"
    if "PHYS_MEM_BASE \<le> p" "p < PHYS_MEM_BASE + REMAP_HUGE_PAGE_SIZE" for p
  proof -
    have r: "2147483648 \<le> unat p" "unat p < 3221225472"
      using that by (simp_all add: addr_config_defs word_le_nat_alt word_less_nat_alt)
    then have "PHYS_MEM_BASE \<le> p" "p < PHYS_MEM_LIMIT"
      by (simp_all add: addr_config_defs word_le_nat_alt word_less_nat_alt)
    note s = phys_split [OF this]
    have "(unat p - 2147483648) div 1073741824 = 0" using r by simp
    moreover have "unat (hd (indexes (VirtAddr p))) = 2" using r by (simp add: hd_indexes)
    ultimately show ?thesis
      using huge_entry_into [of 0] t(3) s(2) by (simp add: root_translate_def Let_def pa_add_def)
  qed
  have "root_translate t a = None"
    if "hd (indexes a) \<noteq> 2" "\<not> (258 \<le> hd (indexes a) \<and> hd (indexes a) < 384)" for a
  proof -
    have "unat (hd (indexes a)) < 512" by (simp add: hd_indexes)
    then have "t ! unat (hd (indexes a)) = 0"
      using t(5) that by (simp add: word_le_nat_alt word_less_nat_alt word_unat_eq_iff)
    then show ?thesis by (simp add: root_translate_def pte_is_valid_bit pte_from_raw_def)
  qed
  with t(1,2) high low show ?thesis by blast
qed

theorem boot_init_maps_memory_witness:
  "\<exists>t. boot_init BOOT_PAGE_TABLE = Ok t \<and>
     root_translate t (to_virt (PhysAddr 0x80200000)) = Some (PhysAddr 0x80200000) \<and>
     root_translate t (VirtAddr 0x80200000) = Some (PhysAddr 0x80200000)"
proof -
  have "PHYS_MEM_BASE \<le> 0x80200000 \<and> 0x80200000 < PHYS_MEM_LIMIT"
    "PHYS_MEM_BASE \<le> 0x80200000 \<and> 0x80200000 < PHYS_MEM_BASE + REMAP_HUGE_PAGE_SIZE"
    by (simp_all add: addr_config_defs)
  then show ?thesis using boot_init_maps_memory by blast
qed

end
