(* ===== verification/Page_Table.thy ===== *)
theory Page_Table
  imports Boot_Paging
begin

text \<open>
  The three-level page table of \<^verbatim>\<open>kern/modules/paging/src/common.rs\<close> with the kernel's
  instance of \<^verbatim>\<open>kern/modules/vmm\<close>. A table keeps its root address and the frames it owns,
  both the frames of its own tables (under the kernel address of the table) and the frames it
  maps (under the mapped page).

  \<open>table_at\<close> is the table that a path of indexes reaches and \<open>leaf\<close> the valid entry of a
  page; \<open>pt_wf\<close> says the tables form a tree over pages in use that the page table owns. The
  lemmas show that mapping and unmapping a page change \<open>leaf\<close> at that page alone.
\<close>

unbundle bit_operations_syntax

section \<open>The code\<close>

record PageTable =
  pt_root :: PhysAddr
  pt_frames :: "VirtAddr \<rightharpoonup> PhysFrame"

definition pt_addr :: "PageTable \<Rightarrow> PhysAddr" where
  "pt_addr pt = pt_root pt"

text \<open>\<^verbatim>\<open>PageTable::new\<close>, which clones the kernel half of the boot table.\<close>

definition clone_kernel :: "usize \<Rightarrow> 'h kmem \<Rightarrow> 'h kmem" where
  "clone_kernel dst m = clone_into dst m"

definition pt_new :: "'h frame_allocator \<Rightarrow> 'h kmem \<Rightarrow> PageTable res \<times> 'h kmem" where
  "pt_new A m =
     (case PhysFrame_alloc A m of
        (Inl e, m') \<Rightarrow> (Inl e, m')
      | (Inr frame, m') \<Rightarrow>
          (let root = pf_addr frame;
               frames = [to_virt root \<mapsto> frame];
               m'' = clone_kernel (fst (as_array_base 8 (to_virt root))) m'
           in (Ok \<lparr>pt_root = root, pt_frames = frames\<rparr>, m'')))"

text \<open>\<^verbatim>\<open>find\<close>: the address of the entry of a page, an error when a table is missing.\<close>

fun find_from :: "'h kmem \<Rightarrow> PhysAddr \<Rightarrow> usize list \<Rightarrow> usize res" where
  "find_from m pa [] = Fail InvalidVirtAddr"
| "find_from m pa (i # is) =
     bind_res (array_elem 8 (as_array_base 8 (to_virt pa)) i) (\<lambda>p.
       let pte = pte_from_raw (km_cells m p)
       in if is = [] then Ok p
          else if \<not> pte_valid pte then Fail InvalidVirtAddr
          else find_from m (fst (pte_into pte)) is)"

definition pt_find :: "'h kmem \<Rightarrow> PageTable \<Rightarrow> VirtAddr \<Rightarrow> usize res" where
  "pt_find m pt addr = find_from m (pt_root pt) (indexes addr)"

text \<open>\<^verbatim>\<open>find_or_create\<close>: the same walk, which allocates missing tables.\<close>

definition write_cell :: "usize \<Rightarrow> usize \<Rightarrow> 'h kmem \<Rightarrow> 'h kmem" where
  "write_cell p w m = m\<lparr>km_cells := (km_cells m)(p := w)\<rparr>"

text \<open>The old value of an \<^verbatim>\<open>insert\<close> or \<^verbatim>\<open>remove\<close> is dropped.\<close>

definition drop_old :: "'h frame_allocator \<Rightarrow> PhysFrame option \<Rightarrow> 'h kmem \<Rightarrow> 'h kmem res" where
  "drop_old A old m = (case old of None \<Rightarrow> Ok m | Some f \<Rightarrow> arc_drop A f m)"

fun create_from ::
  "'h frame_allocator \<Rightarrow> PhysAddr \<Rightarrow> usize list \<Rightarrow> 'h kmem \<Rightarrow> PageTable \<Rightarrow> usize res \<times> 'h kmem \<times> PageTable" where
  "create_from A pa [] m pt = (Fail InvalidVirtAddr, m, pt)"
| "create_from A pa (i # is) m pt =
     (case array_elem 8 (as_array_base 8 (to_virt pa)) i of
        Inl e \<Rightarrow> (Inl e, m, pt)
      | Inr p \<Rightarrow>
          if is = [] then (Ok p, m, pt)
          else let next = (\<lambda>m. fst (pte_into (pte_from_raw (km_cells m p))))
               in if \<not> pte_valid (pte_from_raw (km_cells m p))
                  then (case PhysFrame_alloc A m of
                          (Inl e, m1) \<Rightarrow> (Inl e, m1, pt)
                        | (Inr frame, m1) \<Rightarrow>
                            (let addr = pf_addr frame;
                                 m2 = write_cell p (pte_bits (pte_set addr PP_V (pte_from_raw (km_cells m1 p)))) m1;
                                 old = pt_frames pt (to_virt addr);
                                 pt' = pt\<lparr>pt_frames := (pt_frames pt)(to_virt addr \<mapsto> frame)\<rparr>
                             in case drop_old A old m2 of
                                  Inl e \<Rightarrow> (Inl e, m2, pt')
                                | Inr m3 \<Rightarrow> create_from A (next m3) is m3 pt'))
                  else create_from A (next m) is m pt)"

definition pt_find_or_create ::
  "'h frame_allocator \<Rightarrow> VirtAddr \<Rightarrow> 'h kmem \<Rightarrow> PageTable \<Rightarrow> usize res \<times> 'h kmem \<times> PageTable" where
  "pt_find_or_create A addr m pt = create_from A (pt_root pt) (indexes addr) m pt"

definition pt_map ::
  "'h frame_allocator \<Rightarrow> VirtAddr \<Rightarrow> PhysFrame \<Rightarrow> PagePerm \<Rightarrow> 'h kmem \<Rightarrow> PageTable
     \<Rightarrow> unit res \<times> 'h kmem \<times> PageTable" where
  "pt_map A addr0 phys_frame perm m pt =
     (let addr = va_align_page_down addr0;
          phys_addr = pf_addr phys_frame;
          old = pt_frames pt addr;
          pt1 = pt\<lparr>pt_frames := (pt_frames pt)(addr \<mapsto> phys_frame)\<rparr>
      in case drop_old A old m of
           Inl e \<Rightarrow> (Inl e, m, pt1)
         | Inr m1 \<Rightarrow>
             (case pt_find_or_create A addr m1 pt1 of
                (Inl e, m2, pt2) \<Rightarrow> (Inl e, m2, pt2)
              | (Inr p, m2, pt2) \<Rightarrow>
                  (Ok (), write_cell p (pte_bits (pte_set phys_addr (perm OR PP_V) (pte_from_raw (km_cells m2 p)))) m2,
                   pt2)))"

definition pt_unmap ::
  "'h frame_allocator \<Rightarrow> VirtAddr \<Rightarrow> 'h kmem \<Rightarrow> PageTable \<Rightarrow> unit res \<times> 'h kmem \<times> PageTable" where
  "pt_unmap A addr0 m pt =
     (let addr = va_align_page_down addr0
      in case pt_frames pt addr of
           None \<Rightarrow> (Fail InvalidVirtAddr, m, pt)
         | Some f \<Rightarrow>
             (let pt1 = pt\<lparr>pt_frames := (pt_frames pt)(addr := None)\<rparr>
              in case arc_drop A f m of
                   Inl e \<Rightarrow> (Inl e, m, pt1)
                 | Inr m1 \<Rightarrow>
                     (case pt_find m1 pt1 addr of
                        Inl e \<Rightarrow> (Inl e, m1, pt1)
                      | Inr p \<Rightarrow>
                          (Ok (), write_cell p (pte_bits (pte_clr (pte_from_raw (km_cells m1 p)))) m1, pt1))))"

text \<open>\<^verbatim>\<open>lookup\<close> hands out a clone of the frame; \<^verbatim>\<open>translate\<close> drops that clone again.\<close>

definition pt_lookup ::
  "VirtAddr \<Rightarrow> 'h kmem \<Rightarrow> PageTable \<Rightarrow> (PhysFrame \<times> PagePerm) res \<times> 'h kmem" where
  "pt_lookup addr0 m pt =
     (let addr = va_align_page_down addr0
      in case pt_find m pt addr of
           Inl e \<Rightarrow> (Inl e, m)
         | Inr p \<Rightarrow>
             (let pte = pte_from_raw (km_cells m p)
              in if pte_valid pte
                 then (case pt_frames pt addr of
                         None \<Rightarrow> (Panicked, m)
                       | Some f \<Rightarrow> (Ok (f, snd (pte_into pte)), arc_clone f m))
                 else (Fail InvalidVirtAddr, m)))"

definition pt_translate ::
  "'h frame_allocator \<Rightarrow> VirtAddr \<Rightarrow> 'h kmem \<Rightarrow> PageTable \<Rightarrow> (PhysAddr \<times> PagePerm) res \<times> 'h kmem" where
  "pt_translate A addr m pt =
     (case pt_lookup addr m pt of
        (Inr (phys_frame, perm), m1) \<Rightarrow>
          (case arc_drop A phys_frame m1 of
             Inl e \<Rightarrow> (Inl e, m1)
           | Inr m2 \<Rightarrow> (Ok (pa_add (pf_addr phys_frame) (va_as_usize addr AND (PAGE_SIZE - 1)), perm), m2))
      | (Inl Panic, m1) \<Rightarrow> (Panicked, m1)
      | (Inl (Err e), m1) \<Rightarrow> (Fail InvalidVirtAddr, m1))"

text \<open>The kernel's page table and its activation: \<^verbatim>\<open>vmm::init\<close> and \<^verbatim>\<open>VmImpl\<close>.\<close>

definition KERN_PAGE_TABLE :: "'h frame_allocator \<Rightarrow> 'h kmem \<Rightarrow> PageTable res \<times> 'h kmem" where
  "KERN_PAGE_TABLE A m = (let (r, m') = pt_new A m in (unwrap_res r, m'))"

definition vm_enable :: "PhysAddr \<Rightarrow> satp_mode \<times> usize \<times> usize" where
  "vm_enable page_table = (Sv39, 0, drop_bit 12 (pa_as_usize page_table))"

definition vm_disable :: "satp_mode \<times> usize \<times> usize" where
  "vm_disable = (Bare, 0, 0)"

definition vmm_init :: "PageTable \<Rightarrow> satp_mode \<times> usize \<times> usize" where
  "vmm_init pt = vm_enable (pt_addr pt)"

section \<open>Paths through the tables\<close>

definition target :: "usize \<Rightarrow> usize" where
  "target w = va_as_usize (to_virt (fst (pte_into (pte_from_raw w))))"

abbreviation validw :: "usize \<Rightarrow> bool" where
  "validw w \<equiv> pte_valid (pte_from_raw w)"

fun table_at :: "(usize \<Rightarrow> usize) \<Rightarrow> usize \<Rightarrow> usize list \<Rightarrow> usize option" where
  "table_at c b [] = Some b"
| "table_at c b (i # is) = (if validw (c (cell b i)) then table_at c (target (c (cell b i))) is else None)"

lemma table_at_snoc:
  "table_at c b (p @ [i]) =
     (case table_at c b p of None \<Rightarrow> None
      | Some t \<Rightarrow> if validw (c (cell t i)) then Some (target (c (cell t i))) else None)"
  by (induction p arbitrary: b) simp_all

lemma table_at_append_None: "table_at c b p = None \<Longrightarrow> table_at c b (p @ q) = None"
  by (induction p arbitrary: b) auto

lemma table_at_snoc_SomeD: "table_at c b (p @ [i]) = Some t \<Longrightarrow> \<exists>u. table_at c b p = Some u"
  by (auto simp: table_at_snoc split: option.splits)

text \<open>How many of the tables along a path are missing.\<close>

definition missing_tables :: "(usize \<Rightarrow> usize) \<Rightarrow> usize \<Rightarrow> usize list \<Rightarrow> nat" where
  "missing_tables c b q = length (filter (\<lambda>k. table_at c b (take (Suc k) q) = None) [0..<length q])"

lemma missing_tables_card: "missing_tables c b q = card {k. k < length q \<and> table_at c b (take (Suc k) q) = None}"
  unfolding missing_tables_def length_filter_conv_card by (intro arg_cong [where f = card]) auto

lemma missing_tables_le: "missing_tables c b q \<le> length q"
  unfolding missing_tables_def by (rule order_trans [OF length_filter_le]) simp

lemma missing_tables_cong:
  assumes "\<And>k. k < length q \<Longrightarrow> table_at c' b (take (Suc k) q) = table_at c b (take (Suc k) q)"
  shows "missing_tables c' b q = missing_tables c b q"
  unfolding missing_tables_def using assms by (intro arg_cong [where f = length] filter_cong) auto

lemma missing_tables_pos:
  assumes "table_at c b (p @ [i]) = None"
  shows "0 < missing_tables c b (p @ i # is)"
proof -
  have "length p \<in> {k. k < length (p @ i # is) \<and> table_at c b (take (Suc k) (p @ i # is)) = None}" using assms by simp
  then show ?thesis unfolding missing_tables_card card_gt_0_iff by fastforce
qed

lemma missing_tables_link:
  assumes "table_at c b (p @ [i]) = None" "table_at c' b (p @ [i]) = Some a"
    and "\<And>k. k < length (p @ i # is) \<Longrightarrow> take (Suc k) (p @ i # is) \<noteq> p @ [i] \<Longrightarrow>
           table_at c' b (take (Suc k) (p @ i # is)) = table_at c b (take (Suc k) (p @ i # is))"
  shows "missing_tables c b (p @ i # is) = Suc (missing_tables c' b (p @ i # is))"
proof -
  let ?q = "p @ i # is"
  let ?M = "\<lambda>c. {k. k < length ?q \<and> table_at c b (take (Suc k) ?q) = None}"
  have eq: "take (Suc k) ?q = p @ [i] \<longleftrightarrow> k = length p" if "k < length ?q" for k
  proof
    assume "take (Suc k) ?q = p @ [i]"
    then have "length (take (Suc k) ?q) = Suc (length p)" by simp
    then show "k = length p" using that by simp
  qed simp
  have "?M c' = ?M c - {length p}" using assms(2,3) eq by fastforce
  moreover have "length p \<in> ?M c" using assms(1) by simp
  moreover have "finite (?M c)" by simp
  ultimately show ?thesis unfolding missing_tables_card using card.remove [of "?M c" "length p"] by presburger
qed

text \<open>The valid last-level entry of a page, given by its indexes.\<close>

definition leaf :: "(usize \<Rightarrow> usize) \<Rightarrow> usize \<Rightarrow> usize list \<Rightarrow> usize option" where
  "leaf c b is =
     (case table_at c b (butlast is) of None \<Rightarrow> None
      | Some t \<Rightarrow> if validw (c (cell t (last is))) then Some (c (cell t (last is))) else None)"

lemma leaf_snoc:
  "leaf c b (q @ [j]) =
     (case table_at c b q of None \<Rightarrow> None
      | Some t \<Rightarrow> if validw (c (cell t j)) then Some (c (cell t j)) else None)"
  unfolding leaf_def butlast_snoc last_snoc ..

lemma array_elem_cell: "i < 512 \<Longrightarrow> array_elem 8 (as_array_base 8 (VirtAddr b)) i = Ok (cell b i)"
  by (simp add: array_elem_def as_array_base_def cell_def PAGE_SIZE_def)

lemma find_from_table_at:
  assumes "\<forall>i\<in>set (is @ [j]). i < 512" and "va_as_usize (to_virt pa) = b"
  shows "find_from m pa (is @ [j]) =
           (case table_at (km_cells m) b is of None \<Rightarrow> Fail InvalidVirtAddr | Some t \<Rightarrow> Ok (cell t j))"
  using assms
proof (induction "is" arbitrary: pa b)
  case Nil
  then show ?case using array_elem_cell [of j b] by (auto simp: to_virt_def)
next
  case (Cons i "is")
  have tv: "to_virt pa = VirtAddr b" using Cons.prems(2) by (metis VirtAddr.collapse)
  have i: "i < 512" and rest: "\<forall>i\<in>set (is @ [j]). i < 512" using Cons.prems(1) by auto
  show ?case
    using Cons.IH [OF rest refl] by (simp add: tv array_elem_cell [OF i] Let_def target_def)
qed

section \<open>Well-formed page tables\<close>

text \<open>
  \<open>R\<close> is the set of root indexes whose subtrees the page table manages itself: it excludes
  the linear remapping and whatever the boot table already maps.
\<close>

definition paths :: "usize set \<Rightarrow> usize list set" where
  "paths R = {p. length p \<le> 2 \<and> (\<forall>i\<in>set p. i < 512) \<and> (p \<noteq> [] \<longrightarrow> hd p \<in> R)}"

definition tree_wf :: "usize set \<Rightarrow> usize set \<Rightarrow> (usize \<Rightarrow> usize) \<Rightarrow> usize \<Rightarrow> bool" where
  "tree_wf R pages c root \<longleftrightarrow>
     (\<forall>p\<in>paths R. \<forall>t. table_at c root p = Some t \<longrightarrow> 4096 dvd unat t \<and> t \<in> pages) \<and>
     (\<forall>p\<in>paths R. \<forall>q\<in>paths R. \<forall>t. table_at c root p = Some t \<and> table_at c root q = Some t \<longrightarrow> p = q)"

lemma tree_wfD:
  assumes "tree_wf R pages c root" "p \<in> paths R" "table_at c root p = Some t"
  shows "4096 dvd unat t" "t \<in> pages"
    and "q \<in> paths R \<Longrightarrow> table_at c root q = Some t \<Longrightarrow> q = p"
  using assms unfolding tree_wf_def by blast+

lemma paths_snocD: "p @ [i] \<in> paths R \<Longrightarrow> p \<in> paths R \<and> length p < 2 \<and> i < 512"
  by (cases p) (auto simp: paths_def)

text \<open>Two memories that agree on all pages of the tree have the same paths.\<close>

lemma table_at_cong:
  assumes "\<forall>p\<in>paths R. \<forall>t. length p < 2 \<longrightarrow> table_at c root p = Some t \<longrightarrow>
             (\<forall>i<512. (p @ [i]) \<in> paths R \<longrightarrow> c' (cell t i) = c (cell t i))"
    and "p \<in> paths R"
  shows "table_at c' root p = table_at c root p"
  using assms(2)
proof (induction p rule: rev_induct)
  case (snoc i p)
  note p = paths_snocD [OF snoc.prems]
  show ?case
    using snoc.IH assms(1) p snoc.prems by (auto simp: table_at_snoc split: option.split)
qed simp

text \<open>Writing an entry of a last-level table leaves every path alone.\<close>

lemma table_at_leaf_write:
  assumes wf: "tree_wf R pages c root" and p: "p \<in> paths R" "length p = 2" "table_at c root p = Some t"
    and i: "i < 512" and q: "q \<in> paths R"
  shows "table_at (c(cell t i := w)) root q = table_at c root q"
proof (rule table_at_cong [OF _ q], intro ballI allI impI)
  fix q u j
  assume a: "q \<in> paths R" "length q < 2" "table_at c root q = Some u" "j < (512 :: usize)"
  then have "t \<noteq> u" using tree_wfD(3) [OF wf p(1,3) a(1)] p(2) by auto
  then have "cell u j \<noteq> cell t i"
    using cell_inj tree_wfD(1) [OF wf a(1,3)] tree_wfD(1) [OF wf p(1,3)] a(4) i by metis
  then show "(c(cell t i := w)) (cell u j) = c (cell u j)" by simp
qed

lemma tree_wf_leaf_write:
  assumes wf: "tree_wf R pages c root" and p: "p \<in> paths R" "length p = 2" "table_at c root p = Some t"
    and i: "i < 512"
  shows "tree_wf R pages (c(cell t i := w)) root"
  using wf unfolding tree_wf_def by (simp add: table_at_leaf_write [OF assms])

lemma leaf_write:
  assumes wf: "tree_wf R pages c root" and p: "p \<in> paths R" "length p = 2" "table_at c root p = Some t"
    and i: "i < 512" and q: "q \<in> paths R" "length q = 2" "j < 512"
  shows "leaf (c(cell t i := w)) root (q @ [j]) =
           (if q = p \<and> j = i then (if validw w then Some w else None) else leaf c root (q @ [j]))"
proof (cases "table_at c root q")
  case None
  then show ?thesis using p(3) by (auto simp: leaf_snoc table_at_leaf_write [OF wf p i q(1)])
next
  case (Some u)
  have iff: "cell u j = cell t i \<longleftrightarrow> q = p \<and> j = i"
  proof
    assume e: "cell u j = cell t i"
    have "u = t \<and> j = i"
      by (rule cell_inj [OF tree_wfD(1) [OF wf q(1) Some] tree_wfD(1) [OF wf p(1,3)] q(3) i e])
    then show "q = p \<and> j = i" using tree_wfD(3) [OF wf p(1,3) q(1)] Some by simp
  qed (use p(3) Some in simp)
  have "leaf (c(cell t i := w)) root (q @ [j]) =
      (if validw ((c(cell t i := w)) (cell u j)) then Some ((c(cell t i := w)) (cell u j)) else None)"
    by (simp add: leaf_snoc table_at_leaf_write [OF wf p i q(1)] Some)
  moreover have "(c(cell t i := w)) (cell u j) = (if q = p \<and> j = i then w else c (cell u j))"
    unfolding iff [symmetric] by simp
  ultimately show ?thesis using Some by (auto simp: leaf_snoc [of c root])
qed

text \<open>Linking a fresh, zeroed table under a missing entry adds that one path.\<close>

definition links :: "usize set \<Rightarrow> (usize \<Rightarrow> usize) \<Rightarrow> usize \<Rightarrow> usize \<Rightarrow> usize \<Rightarrow> (usize \<Rightarrow> usize) \<Rightarrow> bool" where
  "links pages c t i a c' \<longleftrightarrow>
     4096 dvd unat a \<and> a \<notin> pages \<and> (\<forall>j<512. c' (cell a j) = 0) \<and>
     validw (c' (cell t i)) \<and> target (c' (cell t i)) = a \<and>
     (\<forall>u\<in>pages. \<forall>j<512. cell u j \<noteq> cell t i \<longrightarrow> c' (cell u j) = c (cell u j))"

lemma table_at_link:
  assumes wf: "tree_wf R pages c root" and p: "p @ [i] \<in> paths R" "table_at c root p = Some t"
    and inv: "\<not> validw (c (cell t i))" and l: "links pages c t i a c'" and q: "q \<in> paths R"
  shows "table_at c' root q = (if q = p @ [i] then Some a else table_at c root q)"
  using q
proof (induction q rule: rev_induct)
  case Nil
  then show ?case by simp
next
  case (snoc j q)
  note q = paths_snocD [OF snoc.prems]
  note pp = paths_snocD [OF p(1)]
  have none: "table_at c root (p @ [i]) = None" using p(2) inv by (simp add: table_at_snoc)
  note IH = snoc.IH [OF conjunct1 [OF q]]
  consider "q = p @ [i]" | "q \<noteq> p @ [i]" "table_at c root q = None"
    | u where "q \<noteq> p @ [i]" "table_at c root q = Some u" by (cases "table_at c root q") auto
  then show ?case
  proof cases
    case 1
    then have "table_at c' root q = Some a" "table_at c root q = None" "q @ [j] \<noteq> p @ [i]"
      using IH none by simp_all
    then show ?thesis using l q by (simp add: table_at_snoc links_def)
  next
    case 2
    then show ?thesis using IH p(2) by (auto simp: table_at_snoc)
  next
    case 3
    note wq = tree_wfD [OF wf conjunct1 [OF q] 3(2)] and wp = tree_wfD [OF wf conjunct1 [OF pp] p(2)]
    have "cell u j = cell t i \<longleftrightarrow> q = p \<and> j = i"
    proof
      assume "cell u j = cell t i"
      then have "u = t \<and> j = i" using cell_inj wq(1) wp(1) q pp by blast
      then show "q = p \<and> j = i" using wp(3) [of q] q 3(2) by simp
    qed (use p(2) 3(2) in simp)
    then show ?thesis using IH 3 l wq(2) q by (auto simp: table_at_snoc links_def)
  qed
qed

lemma tree_wf_link:
  assumes wf: "tree_wf R pages c root" and p: "p @ [i] \<in> paths R" "table_at c root p = Some t"
    and inv: "\<not> validw (c (cell t i))" and l: "links pages c t i a c'"
  shows "tree_wf R (insert a pages) c' root"
proof -
  note at = table_at_link [OF wf p inv l]
  have a: "4096 dvd unat a" "a \<notin> pages" using l by (simp_all add: links_def)
  show ?thesis
    unfolding tree_wf_def
  proof (intro conjI ballI allI impI)
    fix q t assume "q \<in> paths R" "table_at c' root q = Some t"
    then show "4096 dvd unat t" "t \<in> insert a pages"
      using at [of q] a tree_wfD(1,2) [OF wf, of q t] by (auto split: if_splits)
  next
    fix q r t
    assume q: "q \<in> paths R" "r \<in> paths R" and "table_at c' root q = Some t \<and> table_at c' root r = Some t"
    then show "q = r"
      using at [of q] at [of r] a(2) tree_wfD(2,3) [OF wf] by (metis option.inject)
  qed
qed

lemma leaf_link:
  assumes wf: "tree_wf R pages c root" and p: "p @ [i] \<in> paths R" "table_at c root p = Some t"
    and inv: "\<not> validw (c (cell t i))" and l: "links pages c t i a c'"
    and q: "q \<in> paths R" "length q = 2" "j < 512"
  shows "leaf c' root (q @ [j]) = leaf c root (q @ [j])"
proof (cases "q = p @ [i]")
  case True
  then have "table_at c root q = None" "table_at c' root q = Some a"
    using p(2) inv table_at_link [OF wf p inv l q(1)] by (simp_all add: table_at_snoc)
  then show ?thesis using l q(3) by (simp add: leaf_snoc links_def)
next
  case False
  have at: "table_at c' root q = table_at c root q" using table_at_link [OF wf p inv l q(1)] False by simp
  show ?thesis
  proof (cases "table_at c root q")
    case (Some u)
    note pp = paths_snocD [OF p(1)]
    note wq = tree_wfD [OF wf q(1) Some] and wp = tree_wfD [OF wf conjunct1 [OF pp] p(2)]
    have "cell u j \<noteq> cell t i"
      using cell_inj [OF wq(1) wp(1) q(3)] pp wp(3) [of q] q(1,2) Some by auto
    then show ?thesis using l wq(2) q(3) at Some by (simp add: leaf_snoc links_def)
  qed (simp add: leaf_snoc at)
qed

lemma tree_wf_agree:
  assumes wf: "tree_wf R pages c root"
    and agree: "\<forall>p t. p \<in> paths R \<and> table_at c root p = Some t \<longrightarrow>
                  t \<in> pages' \<and> (\<forall>i<512. c' (cell t i) = c (cell t i))"
  shows "tree_wf R pages' c' root"
    and "q \<in> paths R \<Longrightarrow> table_at c' root q = table_at c root q"
    and "q \<in> paths R \<Longrightarrow> j < 512 \<Longrightarrow> leaf c' root (q @ [j]) = leaf c root (q @ [j])"
proof -
  have at: "table_at c' root q = table_at c root q" if "q \<in> paths R" for q
    by (rule table_at_cong [OF _ that]) (use agree in blast)
  then show "tree_wf R pages' c' root"
    using wf agree unfolding tree_wf_def by (metis (no_types, lifting))
  show "table_at c' root q = table_at c root q" if "q \<in> paths R" using at that .
  show "leaf c' root (q @ [j]) = leaf c root (q @ [j])" if "q \<in> paths R" "j < 512"
    using at [OF that(1)] agree that by (auto simp: leaf_snoc split: option.split)
qed

section \<open>Ownership of frames\<close>

definition cnt :: "(VirtAddr \<rightharpoonup> PhysFrame) \<Rightarrow> PhysFrame \<Rightarrow> nat" where
  "cnt fr f = card {k. fr k = Some f}"

lemma cnt_upd:
  assumes "finite (dom fr)"
  shows "cnt (fr(a := x)) g + (if fr a = Some g then 1 else 0) = cnt fr g + (if x = Some g then 1 else 0)"
proof -
  have fin: "finite {k. h k = Some g}" if "finite (dom h)" for h :: "VirtAddr \<rightharpoonup> PhysFrame"
    using that by (rule finite_subset [rotated]) auto
  have split: "cnt h g = card ({k. h k = Some g} - {a}) + (if h a = Some g then 1 else 0)"
    if "finite (dom h)" for h
    using card.remove [OF fin [OF that], of a] by (cases "h a = Some g") (simp_all add: cnt_def)
  have "{k. (fr(a := x)) k = Some g} - {a} = {k. fr k = Some g} - {a}" by auto
  with split [OF assms] split [of "fr(a := x)"] assms show ?thesis by simp
qed

lemma cnt_pos: "finite (dom fr) \<Longrightarrow> fr k = Some f \<Longrightarrow> 0 < cnt fr f"
  unfolding cnt_def card_gt_0_iff by (auto intro: finite_subset [where B = "dom fr"])

text \<open>
  Every reference a table of frames holds is counted, every counted frame is in use, and the
  pages in use lie in the linear remapping.
\<close>

definition rc_wf :: "('h \<Rightarrow> usize set) \<Rightarrow> 'h kmem \<Rightarrow> (VirtAddr \<rightharpoonup> PhysFrame) \<Rightarrow> bool" where
  "rc_wf live m fr \<longleftrightarrow>
     finite (dom fr) \<and> (\<forall>f. cnt fr f \<le> km_rc m (pf_addr f)) \<and>
     (\<forall>a. 0 < km_rc m a \<longrightarrow> va_as_usize (to_virt a) \<in> live (km_heap m)) \<and>
     (\<forall>b\<in>live (km_heap m). linear b \<and> 4096 dvd unat b)"

lemma rc_wf_live:
  assumes "rc_wf live m fr" "fr k = Some f"
  shows "va_as_usize (to_virt (pf_addr f)) \<in> live (km_heap m)" "0 < km_rc m (pf_addr f)"
proof -
  show "0 < km_rc m (pf_addr f)"
    using assms cnt_pos [of fr k f] unfolding rc_wf_def by (metis gr0I le_zero_eq)
  then show "va_as_usize (to_virt (pf_addr f)) \<in> live (km_heap m)" using assms(1) by (simp add: rc_wf_def)
qed

lemma rc_wf_upd:
  assumes "rc_wf live m fr" "\<forall>f. x = Some f \<longrightarrow> fr k \<noteq> x \<longrightarrow> cnt fr f < km_rc m (pf_addr f)"
  shows "rc_wf live m (fr(k := x))"
proof -
  have fin: "finite (dom fr)" using assms(1) by (simp add: rc_wf_def)
  have "cnt (fr(k := x)) f \<le> km_rc m (pf_addr f)" for f
  proof -
    have "cnt fr f \<le> km_rc m (pf_addr f)" using assms(1) by (simp add: rc_wf_def)
    with cnt_upd [OF fin, of k x f] assms(2) show ?thesis
      by (cases "x = Some f"; cases "fr k = Some f") auto
  qed
  then show ?thesis using assms(1) fin by (simp add: rc_wf_def)
qed

lemma arc_drop_ok:
  assumes ok: "frame_allocator_ok A live" and wf: "rc_wf live m fr"
    and own: "cnt fr f < km_rc m (pf_addr f)"
  shows "\<exists>m'. arc_drop A f m = Ok m' \<and> rc_wf live m' fr \<and>
           km_rc m' = (km_rc m)(pf_addr f := km_rc m (pf_addr f) - 1) \<and> km_boot m' = km_boot m \<and>
           live (km_heap m') \<subseteq> live (km_heap m) \<and>
           (\<forall>b\<in>live (km_heap m'). \<forall>i<512. km_cells m' (cell b i) = km_cells m (cell b i))"
proof -
  let ?n = "km_rc m (pf_addr f) - 1" and ?p = "va_as_usize (to_virt (pf_addr f))"
  let ?m = "m\<lparr>km_rc := (km_rc m)(pf_addr f := ?n)\<rparr>"
  have p: "?p \<in> live (km_heap m)" "linear ?p" using wf own by (auto simp: rc_wf_def)
  have cnt: "cnt fr g \<le> ((km_rc m)(pf_addr f := ?n)) (pf_addr g)" for g
  proof (cases "pf_addr g = pf_addr f")
    case True
    then have "g = f" by (rule PhysFrame.expand)
    then show ?thesis using own by simp
  next
    case False
    then show ?thesis using wf by (simp add: rc_wf_def)
  qed
  show ?thesis
  proof (cases "?n = 0")
    case False
    then have "arc_drop A f m = Ok ?m" by (simp add: arc_drop_def Let_def)
    then show ?thesis using wf cnt by (auto simp: rc_wf_def)
  next
    case True
    let ?m' = "fa_deallocate A ?p ?m"
    have d: "live (km_heap ?m') = live (km_heap m) - {?p}" "same_pages (live (km_heap m) - {?p}) ?m ?m'"
      using frame_dealloc [OF ok, of ?p ?m] p by simp_all
    have "arc_drop A f m = Ok ?m'"
      using True linear_index [OF p(2)] by (simp add: arc_drop_def PhysFrame_drop_def Let_def)
    moreover have "rc_wf live ?m' fr"
      using d wf cnt True by (auto simp: rc_wf_def same_pages_def to_virt_def dest: PhysAddr.expand)
    ultimately show ?thesis using d True by (auto simp: same_pages_def)
  qed
qed

text \<open>The whole invariant.\<close>

abbreviation root_va :: "PageTable \<Rightarrow> usize" where
  "root_va pt \<equiv> va_as_usize (to_virt (pt_root pt))"

definition managed :: "usize set \<Rightarrow> bool" where
  "managed R \<longleftrightarrow> (\<forall>i\<in>R. i < 512 \<and> \<not> (258 \<le> i \<and> i < 384))"

definition pt_wf :: "usize set \<Rightarrow> ('h \<Rightarrow> usize set) \<Rightarrow> 'h kmem \<Rightarrow> PageTable \<Rightarrow> bool" where
  "pt_wf R live m pt \<longleftrightarrow>
     managed R \<and> tree_wf R (live (km_heap m)) (km_cells m) (root_va pt) \<and>
     (\<forall>p\<in>paths R. \<forall>t. table_at (km_cells m) (root_va pt) p = Some t \<longrightarrow>
        pt_frames pt (VirtAddr t) = Some (PhysFrame (to_phys (VirtAddr t)))) \<and>
     (\<forall>k f. pt_frames pt k = Some f \<and> linear (va_as_usize k) \<longrightarrow> pf_addr f = to_phys k) \<and>
     rc_wf live m (pt_frames pt)"

text \<open>A page of a managed root index is never the kernel address of a page in use.\<close>

lemma managed_not_linear:
  assumes "managed R" "hd (indexes a) \<in> R"
  shows "\<not> linear (va_as_usize a)"
proof
  assume "linear (va_as_usize a)"
  from linear_index [OF this] assms show False by (simp add: managed_def) blast
qed

text \<open>Only the frames bookkeeping changed, and no table lost its frame.\<close>

lemma pt_wf_agree:
  assumes wf: "pt_wf R live m pt" and rc: "rc_wf live m' (pt_frames pt')"
    and root: "pt_root pt' = pt_root pt"
    and frames: "\<And>k. linear (va_as_usize k) \<Longrightarrow> pt_frames pt' k = pt_frames pt k"
    and cells: "\<And>b i. b \<in> live (km_heap m') \<Longrightarrow> b \<in> live (km_heap m) \<Longrightarrow> i < 512 \<Longrightarrow>
                  km_cells m' (cell b i) = km_cells m (cell b i)"
  shows "pt_wf R live m' pt'"
    and "q \<in> paths R \<Longrightarrow> j < 512 \<Longrightarrow>
           leaf (km_cells m') (root_va pt) (q @ [j]) = leaf (km_cells m) (root_va pt) (q @ [j])"
    and "q \<in> paths R \<Longrightarrow> table_at (km_cells m') (root_va pt) q = table_at (km_cells m) (root_va pt) q"
proof -
  have tree: "tree_wf R (live (km_heap m)) (km_cells m) (root_va pt)"
    and lin: "\<forall>b\<in>live (km_heap m). linear b \<and> 4096 dvd unat b" using wf by (simp_all add: pt_wf_def rc_wf_def)
  have fr: "pt_frames pt' (VirtAddr t) = Some (PhysFrame (to_phys (VirtAddr t)))"
    if "p \<in> paths R" "table_at (km_cells m) (root_va pt) p = Some t" for p t
  proof -
    have "pt_frames pt (VirtAddr t) = Some (PhysFrame (to_phys (VirtAddr t)))"
      using wf that unfolding pt_wf_def by blast
    then show ?thesis using frames [of "VirtAddr t"] lin tree_wfD(2) [OF tree that] by simp
  qed
  have agree: "t \<in> live (km_heap m') \<and> (\<forall>i<512. km_cells m' (cell t i) = km_cells m (cell t i))"
    if "p \<in> paths R" "table_at (km_cells m) (root_va pt) p = Some t" for p t
  proof -
    have "t \<in> live (km_heap m')" using rc_wf_live(1) [OF rc fr [OF that]] by simp
    then show ?thesis using cells tree_wfD(2) [OF tree that] by blast
  qed
  then have "\<forall>p t. p \<in> paths R \<and> table_at (km_cells m) (root_va pt) p = Some t \<longrightarrow>
      t \<in> live (km_heap m') \<and> (\<forall>i<512. km_cells m' (cell t i) = km_cells m (cell t i))" by blast
  note res = tree_wf_agree [OF tree this]
  show "pt_wf R live m' pt'"
  proof -
    have "\<forall>k f. pt_frames pt' k = Some f \<and> linear (va_as_usize k) \<longrightarrow> pf_addr f = to_phys k"
      using wf frames unfolding pt_wf_def by metis
    then show ?thesis using wf res(1) rc fr unfolding pt_wf_def root by (simp add: res(2))
  qed
  show "leaf (km_cells m') (root_va pt) (q @ [j]) = leaf (km_cells m) (root_va pt) (q @ [j])"
    if "q \<in> paths R" "j < 512" using res(3) that .
  show "table_at (km_cells m') (root_va pt) q = table_at (km_cells m) (root_va pt) q"
    if "q \<in> paths R" using res(2) that .
qed

lemma to_phys_aligned:
  assumes "4096 dvd unat a"
  shows "pa_align_page_down (to_phys (VirtAddr a)) = to_phys (VirtAddr a)"
proof -
  have neg: "- REMAP_MEM_OFFSET = 274877906944" by (simp add: REMAP_MEM_OFFSET_def)
  have "unat (a - REMAP_MEM_OFFSET) = (unat a + 274877906944) mod 18446744073709551616"
    unfolding diff_conv_add_uminus neg by (simp add: unat_word_ariths)
  with assms have "4096 dvd unat (pa_as_usize (to_phys (VirtAddr a)))" by (simp add: to_phys_def dvd_mod)
  then show ?thesis by (simp add: pa_align_page_down_def align_page_down_id)
qed

lemma pte_raw_bits [simp]: "pte_from_raw (pte_bits y) = y" for y :: PageTableEntry
  by (simp add: pte_from_raw_def)

text \<open>One missing table: allocate, link and record it.\<close>

lemma pte_link:
  assumes "4096 dvd unat a"
  shows "validw (pte_bits (pte_set (to_phys (VirtAddr a)) PP_V x))"
    and "target (pte_bits (pte_set (to_phys (VirtAddr a)) PP_V x)) = a"
proof -
  have "PP_V AND PP_all = PP_V" by (simp add: PP_all_def perm_flag_defs)
  then have i: "pte_into (pte_set (to_phys (VirtAddr a)) PP_V x) = (pa_align_page_down (to_phys (VirtAddr a)), perm_stored PP_V)"
    by (rule pte_into_set)
  show "target (pte_bits (pte_set (to_phys (VirtAddr a)) PP_V x)) = a"
    by (simp add: target_def i to_phys_aligned [OF assms])
  show "validw (pte_bits (pte_set (to_phys (VirtAddr a)) PP_V x))"
    unfolding pte_raw_bits by (rule pte_valid_set) (simp add: PP_V_def)
qed

lemma create_step:
  assumes ok: "frame_allocator_ok A live" and wf: "pt_wf R live m pt"
    and p: "p @ [i] \<in> paths R" "table_at (km_cells m) (root_va pt) p = Some t"
    and inv: "\<not> validw (km_cells m (cell t i))"
    and al: "PhysFrame_alloc A m = (Ok (PhysFrame (to_phys (VirtAddr a))), m1)" "4096 dvd unat a" "linear a"
      "a \<notin> live (km_heap m)" "live (km_heap m1) = insert a (live (km_heap m))"
      "\<forall>i<512. km_cells m1 (cell a i) = 0"
      "\<forall>b\<in>live (km_heap m). \<forall>i<512. km_cells m1 (cell b i) = km_cells m (cell b i)"
      "km_rc m1 = (km_rc m)(to_phys (VirtAddr a) := 1)"
    and m2: "m2 = write_cell (cell t i) (pte_bits (pte_set (to_phys (VirtAddr a)) PP_V (pte_from_raw (km_cells m1 (cell t i))))) m1"
    and pt': "pt' = pt\<lparr>pt_frames := (pt_frames pt)(VirtAddr a \<mapsto> PhysFrame (to_phys (VirtAddr a)))\<rparr>"
  shows "pt_frames pt (VirtAddr a) = None" and "pt_wf R live m2 pt'"
    and "table_at (km_cells m2) (root_va pt) (p @ [i]) = Some a"
    and "q \<in> paths R \<Longrightarrow> length q = 2 \<Longrightarrow> j < 512 \<Longrightarrow>
           leaf (km_cells m2) (root_va pt) (q @ [j]) = leaf (km_cells m) (root_va pt) (q @ [j])"
    and "target (km_cells m2 (cell t i)) = a"
    and "q \<in> paths R \<Longrightarrow> table_at (km_cells m2) (root_va pt) q = (if q = p @ [i] then Some a else table_at (km_cells m) (root_va pt) q)"
    and "live (km_heap m2) = insert a (live (km_heap m))"
proof -
  have tree: "tree_wf R (live (km_heap m)) (km_cells m) (root_va pt)" and rc: "rc_wf live m (pt_frames pt)"
    using wf by (simp_all add: pt_wf_def)
  note pp = paths_snocD [OF p(1)]
  note t = tree_wfD [OF tree conjunct1 [OF pp] p(2)]
  have fresh: "km_rc m (to_phys (VirtAddr a)) = 0" using rc al(4) by (auto simp: rc_wf_def)
  show none: "pt_frames pt (VirtAddr a) = None"
  proof (rule ccontr)
    assume "pt_frames pt (VirtAddr a) \<noteq> None"
    then obtain f where f: "pt_frames pt (VirtAddr a) = Some f" by auto
    then have "pf_addr f = to_phys (VirtAddr a)"
      using wf al(3) unfolding pt_wf_def by (metis VirtAddr.sel)
    with rc_wf_live(2) [OF rc f] fresh show False by simp
  qed
  have ne: "cell a j \<noteq> cell t i" if "j < 512" for j
    using cell_inj [OF al(2) t(1) that] pp t(2) al(4) by blast
  have l: "links (live (km_heap m)) (km_cells m) t i a (km_cells m2)"
    using al(2,4,6,7) pte_link [OF al(2)] ne by (auto simp: links_def m2 write_cell_def)
  show "table_at (km_cells m2) (root_va pt) (p @ [i]) = Some a"
    using table_at_link [OF tree p inv l p(1)] by simp
  show "leaf (km_cells m2) (root_va pt) (q @ [j]) = leaf (km_cells m) (root_va pt) (q @ [j])"
    if "q \<in> paths R" "length q = 2" "j < 512" by (rule leaf_link [OF tree p inv l that])
  show "target (km_cells m2 (cell t i)) = a" using l by (simp add: links_def)
  show "table_at (km_cells m2) (root_va pt) q = (if q = p @ [i] then Some a else table_at (km_cells m) (root_va pt) q)"
    if "q \<in> paths R" by (rule table_at_link [OF tree p inv l that])
  show heap: "live (km_heap m2) = insert a (live (km_heap m))" by (simp add: m2 write_cell_def al(5))
  have "rc_wf live m2 (pt_frames pt')"
  proof -
    have fin: "finite (dom (pt_frames pt))" and le: "cnt (pt_frames pt) f \<le> km_rc m (pf_addr f)" for f
      using rc by (simp_all add: rc_wf_def)
    have "cnt (pt_frames pt') f \<le> km_rc m2 (pf_addr f)" for f
      using cnt_upd [OF fin, of "VirtAddr a" "Some (PhysFrame (to_phys (VirtAddr a)))" f] none le [of f] fresh
      by (cases "f = PhysFrame (to_phys (VirtAddr a))") (auto simp: m2 pt' write_cell_def al(8) PhysFrame.expand)
    then show ?thesis
      using rc fin al(2,3,8) unfolding rc_wf_def heap by (auto simp: m2 pt' write_cell_def)
  qed
  moreover have "tree_wf R (live (km_heap m2)) (km_cells m2) (root_va pt')"
    using tree_wf_link [OF tree p inv l] by (simp add: heap pt')
  ultimately show "pt_wf R live m2 pt'"
    using wf table_at_link [OF tree p inv l] none unfolding pt_wf_def by (auto simp: pt' split: if_splits)
qed

text \<open>What creating tables may do: the mapped pages and their frames stay as they are.\<close>

definition extends :: "usize set \<Rightarrow> ('h \<Rightarrow> usize set) \<Rightarrow> 'h kmem \<Rightarrow> PageTable \<Rightarrow> 'h kmem \<Rightarrow> PageTable \<Rightarrow> bool" where
  "extends R live m pt m' pt' \<longleftrightarrow>
     pt_wf R live m' pt' \<and> pt_root pt' = pt_root pt \<and>
     (\<forall>k. \<not> linear (va_as_usize k) \<longrightarrow> pt_frames pt' k = pt_frames pt k) \<and>
     (\<forall>q j. q \<in> paths R \<and> length q = 2 \<and> j < 512 \<longrightarrow>
        leaf (km_cells m') (root_va pt) (q @ [j]) = leaf (km_cells m) (root_va pt) (q @ [j]))"

lemma extends_trans:
  "extends R live m pt m1 pt1 \<Longrightarrow> extends R live m1 pt1 m2 pt2 \<Longrightarrow> extends R live m pt m2 pt2"
  unfolding extends_def by simp

lemma paths_prefix: "p @ i # is \<in> paths R \<Longrightarrow> p @ [i] \<in> paths R"
  by (cases p) (auto simp: paths_def)

lemma paths_take: "q \<in> paths R \<Longrightarrow> take k q \<in> paths R"
  by (cases q; cases k) (auto simp: paths_def dest: in_set_takeD)

text \<open>The allocator has fewer frames than are in use together with \<open>k\<close> more.\<close>

definition out_of_frames :: "'h frame_allocator \<Rightarrow> ('h \<Rightarrow> usize set) \<Rightarrow> 'h kmem \<Rightarrow> nat \<Rightarrow> bool" where
  "out_of_frames A live m k \<longleftrightarrow> (\<forall>n. frames_for A live n \<and> finite (live (km_heap m)) \<longrightarrow> n < card (live (km_heap m)) + k)"

lemma out_of_framesI:
  assumes "PhysFrame_alloc A m = (Fail NotEnoughMem, m1)" "0 < k"
  shows "out_of_frames A live m k"
proof -
  have "fst (fa_allocate_zeroed A m) = None"
    using assms(1) by (auto simp: PhysFrame_alloc_def Let_def split: option.splits prod.splits)
  then show ?thesis using assms(2) unfolding out_of_frames_def frames_for_def by (metis add_less_cancel_left add_0_right le_less_trans not_less)
qed

lemma out_of_frames_insert:
  assumes "live (km_heap m2) = insert a (live (km_heap m))" "a \<notin> live (km_heap m)" "out_of_frames A live m2 k"
  shows "out_of_frames A live m (Suc k)"
  using assms by (auto simp: out_of_frames_def)

lemma out_of_frames_subset:
  assumes "live (km_heap m1) \<subseteq> live (km_heap m)" "out_of_frames A live m1 k"
  shows "out_of_frames A live m k"
proof -
  have "n < card (live (km_heap m)) + k" if n: "frames_for A live n" and fin: "finite (live (km_heap m))" for n
  proof -
    have "n < card (live (km_heap m1)) + k" using assms n finite_subset [OF assms(1) fin] by (simp add: out_of_frames_def)
    then show ?thesis using card_mono [OF fin assms(1)] by simp
  qed
  then show ?thesis by (simp add: out_of_frames_def)
qed

lemma create_from_ok:
  assumes ok: "frame_allocator_ok A live"
  shows "pt_wf R live m pt \<Longrightarrow> p @ is \<in> paths R \<Longrightarrow> j < 512 \<Longrightarrow>
    table_at (km_cells m) (root_va pt) p = Some (va_as_usize (to_virt pa)) \<Longrightarrow>
    \<exists>r m' pt'. create_from A pa (is @ [j]) m pt = (r, m', pt') \<and> extends R live m pt m' pt' \<and>
      (r = Fail NotEnoughMem \<and> table_at (km_cells m') (root_va pt) (p @ is) = None \<and>
         out_of_frames A live m (missing_tables (km_cells m) (root_va pt) (p @ is)) \<or>
       (\<exists>t. table_at (km_cells m') (root_va pt) (p @ is) = Some t \<and> r = Ok (cell t j)))"
proof (induction "is" arbitrary: p pa m pt)
  case Nil
  then show ?case
    using array_elem_cell [of j "va_as_usize (to_virt pa)"] by (simp add: extends_def)
next
  case (Cons i "is")
  let ?t = "va_as_usize (to_virt pa)"
  note pi = paths_prefix [OF Cons.prems(2)]
  have i: "i < 512" using paths_snocD [OF pi] by simp
  have ai: "array_elem 8 (as_array_base 8 (to_virt pa)) i = Ok (cell ?t i)"
    using array_elem_cell [OF i, of ?t] by simp
  have next_pa: "va_as_usize (to_virt (fst (pte_into (pte_from_raw w)))) = target w" for w
    by (simp add: target_def)
  show ?case
  proof (cases "validw (km_cells m (cell ?t i))")
    case True
    let ?pa = "fst (pte_into (pte_from_raw (km_cells m (cell ?t i))))"
    have "table_at (km_cells m) (root_va pt) (p @ [i]) = Some (va_as_usize (to_virt ?pa))"
      using True Cons.prems(4) by (simp add: table_at_snoc next_pa)
    from Cons.IH [OF Cons.prems(1) _ Cons.prems(3) this] Cons.prems(2) True show ?thesis
      by (simp add: ai Let_def)
  next
    case False
    from frame_alloc_cases [OF ok, of m] show ?thesis
    proof (elim disjE exE conjE)
      fix m1 assume al: "PhysFrame_alloc A m = (Fail NotEnoughMem, m1)" "live (km_heap m1) = live (km_heap m)"
        "same_pages (live (km_heap m)) m m1"
      have rc1: "rc_wf live m1 (pt_frames pt)"
        using Cons.prems(1) al(2,3) by (simp add: pt_wf_def rc_wf_def same_pages_def)
      have "extends R live m pt m1 pt"
        using pt_wf_agree(1,2) [OF Cons.prems(1) rc1 refl refl] al(3) by (auto simp: extends_def same_pages_def)
      moreover have "table_at (km_cells m1) (root_va pt) (p @ i # is) = None"
        using pt_wf_agree(3) [OF Cons.prems(1) rc1 refl refl _ Cons.prems(2)] al(3) Cons.prems(4) False
          table_at_append_None [of "km_cells m" "root_va pt" "p @ [i]" "is"]
        by (simp add: same_pages_def table_at_snoc)
      moreover have "table_at (km_cells m) (root_va pt) (p @ [i]) = None" using Cons.prems(4) False by (simp add: table_at_snoc)
      ultimately show ?thesis using False al(1) out_of_framesI [OF al(1) missing_tables_pos] by (simp add: ai Let_def)
    next
      fix a m1
      assume al: "PhysFrame_alloc A m = (Ok (PhysFrame (to_phys (VirtAddr a))), m1)" "4096 dvd unat a" "linear a"
        "a \<notin> live (km_heap m)" "live (km_heap m1) = insert a (live (km_heap m))"
        "\<forall>i<512. km_cells m1 (cell a i) = 0"
        "\<forall>b\<in>live (km_heap m). \<forall>i<512. km_cells m1 (cell b i) = km_cells m (cell b i)"
        "km_rc m1 = (km_rc m)(to_phys (VirtAddr a) := 1)"
      define m2 where "m2 = write_cell (cell ?t i)
        (pte_bits (pte_set (to_phys (VirtAddr a)) PP_V (pte_from_raw (km_cells m1 (cell ?t i))))) m1"
      define pt' where "pt' = pt\<lparr>pt_frames := (pt_frames pt)(VirtAddr a \<mapsto> PhysFrame (to_phys (VirtAddr a)))\<rparr>"
      note step = create_step [OF ok Cons.prems(1) pi Cons.prems(4) False al m2_def pt'_def]
      let ?pa = "fst (pte_into (pte_from_raw (km_cells m2 (cell ?t i))))"
      have root: "pt_root pt' = pt_root pt" by (simp add: pt'_def)
      have ext: "extends R live m pt m2 pt'"
        using step(2,4) al(3) by (auto simp: extends_def pt'_def)
      have "table_at (km_cells m2) (root_va pt') (p @ [i]) = Some (va_as_usize (to_virt ?pa))"
        using step(3,5) by (simp add: next_pa root)
      from Cons.IH [OF step(2) _ Cons.prems(3) this] Cons.prems(2) obtain r m' pt'' where
        r: "create_from A ?pa (is @ [j]) m2 pt' = (r, m', pt'')" "extends R live m2 pt' m' pt''"
        "r = Fail NotEnoughMem \<and> table_at (km_cells m') (root_va pt') (p @ i # is) = None \<and>
           out_of_frames A live m2 (missing_tables (km_cells m2) (root_va pt') (p @ i # is)) \<or>
         (\<exists>t. table_at (km_cells m') (root_va pt') (p @ i # is) = Some t \<and> r = Ok (cell t j))"
        by auto
      have "create_from A pa ((i # is) @ [j]) m pt = (r, m', pt'')"
        using False al(1) r(1) step(1)
        by (simp add: ai Let_def drop_old_def flip: m2_def pt'_def)
      moreover have "missing_tables (km_cells m) (root_va pt) (p @ i # is) = Suc (missing_tables (km_cells m2) (root_va pt) (p @ i # is))"
        by (rule missing_tables_link [OF _ step(3)]) (use Cons.prems(4) False step(6) paths_take [OF Cons.prems(2)] in \<open>simp_all add: table_at_snoc\<close>)
      ultimately show ?thesis using extends_trans [OF ext r(2)] r(3) root out_of_frames_insert [OF step(7) al(4)] by auto
    qed
  qed
qed

section \<open>The operations\<close>

lemma indexes_align: "indexes (va_align_page_down a) = indexes a"
proof -
  have "drop_bit n (align_page_down w) AND 0x1FF = drop_bit n w AND 0x1FF" if "12 \<le> n" for n w
    using that unfolding align_page_down_bits
    by (intro arg_cong [where f = "\<lambda>x. x AND 0x1FF"] bit_word_eqI)
      (auto simp: bit_simps dest: bit_imp_le_length)
  then show ?thesis by (simp add: indexes_def va_align_page_down_def)
qed

lemma indexes_split:
  obtains q j where "indexes a = q @ [j]" "length q = 2" "j < 512"
    "hd (indexes a) \<in> R \<Longrightarrow> q \<in> paths R"
proof
  let ?i = "indexes a"
  have l: "?i ! 0 < 512" "?i ! 1 < 512" "?i ! 2 < 512"
    using indexes_bound [of 0 a] indexes_bound [of 1 a] indexes_bound [of 2 a]
    by (simp_all add: word_less_nat_alt)
  show e: "indexes a = [?i ! 0, ?i ! 1] @ [?i ! 2]" by (simp add: indexes_def)
  show "length [?i ! 0, ?i ! 1] = 2" by simp
  show "?i ! 2 < 512" using l by simp
  assume "hd (indexes a) \<in> R"
  moreover have "hd (indexes a) = ?i ! 0" by (simp add: indexes_def)
  ultimately show "[?i ! 0, ?i ! 1] \<in> paths R" using l by (simp add: paths_def)
qed

lemma pt_find_eq:
  "pt_find m pt (va_align_page_down a) =
     (case table_at (km_cells m) (root_va pt) (butlast (indexes a)) of
        None \<Rightarrow> Fail InvalidVirtAddr | Some t \<Rightarrow> Ok (cell t (last (indexes a))))"
proof -
  obtain q j where q: "indexes a = q @ [j]" "j < 512" "\<forall>i\<in>set q. i < 512"
  proof (rule indexes_split [where R = UNIV and a = a])
    fix q j assume "indexes a = q @ [j]" "j < 512" "hd (indexes a) \<in> UNIV \<Longrightarrow> q \<in> paths UNIV"
    then show thesis by (intro that) (auto simp: paths_def)
  qed
  have "find_from m (pt_root pt) (q @ [j]) =
      (case table_at (km_cells m) (root_va pt) q of None \<Rightarrow> Fail InvalidVirtAddr | Some t \<Rightarrow> Ok (cell t j))"
    by (rule find_from_table_at) (use q in auto)
  then show ?thesis unfolding pt_find_def indexes_align q(1) butlast_snoc last_snoc .
qed

lemma pt_lookup_leaf:
  "pt_lookup a m pt =
     (case leaf (km_cells m) (root_va pt) (indexes a) of
        None \<Rightarrow> (Fail InvalidVirtAddr, m)
      | Some w \<Rightarrow> (case pt_frames pt (va_align_page_down a) of
                    None \<Rightarrow> (Panicked, m)
                  | Some f \<Rightarrow> (Ok (f, snd (pte_into (pte_from_raw w))), arc_clone f m)))"
  unfolding pt_lookup_def Let_def pt_find_eq leaf_def
  by (cases "table_at (km_cells m) (root_va pt) (butlast (indexes a))") simp_all

lemma arc_drop_clone:
  assumes "0 < km_rc m (pf_addr f)"
  shows "arc_drop A f (arc_clone f m) = Ok m"
  using assms by (simp add: arc_drop_def arc_clone_def Let_def)

lemma pt_translate_leaf:
  assumes "rc_wf live m (pt_frames pt)"
  shows "pt_translate A a m pt =
     (case leaf (km_cells m) (root_va pt) (indexes a) of
        None \<Rightarrow> (Fail InvalidVirtAddr, m)
      | Some w \<Rightarrow> (case pt_frames pt (va_align_page_down a) of
                    None \<Rightarrow> (Panicked, m)
                  | Some f \<Rightarrow> (Ok (pa_add (pf_addr f) (va_as_usize a AND (PAGE_SIZE - 1)),
                                  snd (pte_into (pte_from_raw w))), m)))"
proof -
  have "arc_drop A f (arc_clone f m) = Ok m" if "pt_frames pt k = Some f" for f k
    by (rule arc_drop_clone) (rule rc_wf_live(2) [OF assms that])
  then show ?thesis unfolding pt_translate_def pt_lookup_leaf by (auto split: option.split)
qed

text \<open>
  The hardware and the bookkeeping agree: a valid entry of a managed page points at the frame
  recorded for that page, which the table therefore owns.
\<close>

definition pt_coherent :: "usize set \<Rightarrow> 'h kmem \<Rightarrow> PageTable \<Rightarrow> bool" where
  "pt_coherent R m pt \<longleftrightarrow>
     (\<forall>a w. canonical a \<and> va_align_page_down a = a \<and> hd (indexes a) \<in> R \<and>
        leaf (km_cells m) (root_va pt) (indexes a) = Some w \<longrightarrow>
        (\<exists>f. pt_frames pt a = Some f \<and> fst (pte_into (pte_from_raw w)) = pf_addr f))"

definition pt_inv :: "usize set \<Rightarrow> ('h \<Rightarrow> usize set) \<Rightarrow> 'h kmem \<Rightarrow> PageTable \<Rightarrow> bool" where
  "pt_inv R live m pt \<longleftrightarrow> pt_wf R live m pt \<and> pt_coherent R m pt"

lemma canonical_align: "canonical a \<Longrightarrow> canonical (va_align_page_down a)"
proof -
  assume "canonical a"
  then have "unat (va_as_usize a) < 274877906944 \<or> 18446743798831644672 \<le> unat (va_as_usize a)"
    by (simp add: canonical_def REMAP_MEM_OFFSET_def word_less_nat_alt word_le_nat_alt)
  then have "unat (va_as_usize a) div 4096 * 4096 < 274877906944 \<or>
      18446743798831644672 \<le> unat (va_as_usize a) div 4096 * 4096"
  proof
    assume "unat (va_as_usize a) < 274877906944"
    then show ?thesis by (meson div_times_less_eq_dividend le_less_trans)
  next
    assume "18446743798831644672 \<le> unat (va_as_usize a)"
    then have "18446743798831644672 div 4096 * 4096 \<le> unat (va_as_usize a) div 4096 * 4096"
      by (intro mult_le_mono1 div_le_mono)
    then show ?thesis by simp
  qed
  then show ?thesis
    by (simp add: canonical_def REMAP_MEM_OFFSET_def va_align_page_down_def word_less_nat_alt
        word_le_nat_alt unat_align_page_down)
qed

text \<open>Canonical pages are the same exactly when their indexes are.\<close>

lemma same_page_iff:
  assumes "canonical a" "canonical b"
  shows "va_align_page_down a = va_align_page_down b \<longleftrightarrow> indexes a = indexes b"
proof
  assume i: "indexes a = indexes b"
  have "unat (va_as_usize (va_align_page_down c)) mod 4096 = 0" for c
    by (simp add: va_align_page_down_def)
  moreover have "indexes (va_align_page_down a) = indexes (va_align_page_down b)"
    using i by (simp add: indexes_align)
  ultimately have "unat (va_as_usize (va_align_page_down a)) mod 2 ^ 39 = unat (va_as_usize (va_align_page_down b)) mod 2 ^ 39"
    by (simp only: indexes_sum VirtAddr.collapse)
  then show "va_align_page_down a = va_align_page_down b"
    using canonical_mod_inj canonical_align assms by blast
qed (metis indexes_align)

lemma extends_coherent:
  assumes ext: "extends R live m pt m' pt'" and R: "managed R" and co: "pt_coherent R m pt"
  shows "pt_coherent R m' pt'"
  unfolding pt_coherent_def
proof (intro allI impI, elim conjE)
  fix a w
  assume a: "canonical a" "va_align_page_down a = a" "hd (indexes a) \<in> R"
    and w: "leaf (km_cells m') (root_va pt') (indexes a) = Some w"
  obtain q j where q: "indexes a = q @ [j]" "length q = 2" "j < 512" "q \<in> paths R"
    using indexes_split [where R = R and a = a] a(3) by metis
  have "leaf (km_cells m) (root_va pt) (indexes a) = Some w" "pt_frames pt' a = pt_frames pt a"
    using ext q w managed_not_linear [OF R a(3)] by (simp_all add: extends_def)
  then show "\<exists>f. pt_frames pt' a = Some f \<and> fst (pte_into (pte_from_raw w)) = pf_addr f"
    using co a unfolding pt_coherent_def by simp
qed

lemma pt_wf_write_leaf:
  fixes w :: usize
  assumes wf: "pt_wf R live m pt" and a: "hd (indexes a) \<in> R"
    and t: "table_at (km_cells m) (root_va pt) (butlast (indexes a)) = Some t"
  defines "m' \<equiv> write_cell (cell t (last (indexes a))) w m"
  shows "pt_wf R live m' pt"
    and "hd (indexes b) \<in> R \<Longrightarrow>
      leaf (km_cells m') (root_va pt) (indexes b) =
        (if indexes b = indexes a then (if validw w then Some w else None)
         else leaf (km_cells m) (root_va pt) (indexes b))"
proof -
  obtain q j where q: "indexes a = q @ [j]" "length q = 2" "j < 512" "q \<in> paths R"
    using indexes_split [where R = R and a = a] a by metis
  have tree: "tree_wf R (live (km_heap m)) (km_cells m) (root_va pt)" using wf by (simp add: pt_wf_def)
  have t': "table_at (km_cells m) (root_va pt) q = Some t" using t q(1) by simp
  note at = table_at_leaf_write [OF tree q(4,2) t' q(3)]
  have c: "km_cells m' = (km_cells m)(cell t j := w)" "km_heap m' = km_heap m" "km_rc m' = km_rc m"
    by (simp_all add: m'_def write_cell_def q(1))
  show "pt_wf R live m' pt"
    using wf tree_wf_leaf_write [OF tree q(4,2) t' q(3), of w]
    unfolding pt_wf_def rc_wf_def c by (simp add: at)
  assume b: "hd (indexes b) \<in> R"
  obtain r k where r: "indexes b = r @ [k]" "length r = 2" "k < 512" "r \<in> paths R"
    using indexes_split [where R = R and a = b] b by metis
  show "leaf (km_cells m') (root_va pt) (indexes b) =
      (if indexes b = indexes a then (if validw w then Some w else None)
       else leaf (km_cells m) (root_va pt) (indexes b))"
    unfolding c r(1) q(1) leaf_write [OF tree q(4,2) t' q(3) r(4,2,3)] by simp
qed

text \<open>Removing the reference held for a page, then dropping it.\<close>

lemma replace_frame:
  assumes ok: "frame_allocator_ok A live" and wf: "pt_wf R live m pt" and a: "hd (indexes a) \<in> R"
    and x: "\<forall>f. x = Some f \<longrightarrow> cnt (pt_frames pt) f < km_rc m (pf_addr f)"
  defines "pt1 \<equiv> pt\<lparr>pt_frames := (pt_frames pt)(va_align_page_down a := x)\<rparr>"
  shows "\<exists>m1. drop_old A (pt_frames pt (va_align_page_down a)) m = Ok m1 \<and> pt_wf R live m1 pt1 \<and>
           (\<forall>q j. q \<in> paths R \<and> length q = 2 \<and> j < 512 \<longrightarrow>
              leaf (km_cells m1) (root_va pt) (q @ [j]) = leaf (km_cells m) (root_va pt) (q @ [j])) \<and>
           (\<forall>q\<in>paths R. table_at (km_cells m1) (root_va pt) q = table_at (km_cells m) (root_va pt) q) \<and>
           live (km_heap m1) \<subseteq> live (km_heap m)"
proof -
  let ?k = "va_align_page_down a"
  have rc: "rc_wf live m (pt_frames pt)" and R: "managed R" using wf by (simp_all add: pt_wf_def)
  have rc1: "rc_wf live m (pt_frames pt1)"
    unfolding pt1_def using rc_wf_upd [OF rc] x by simp
  have nl: "\<not> linear (va_as_usize ?k)" using managed_not_linear [OF R, of ?k] a by (simp add: indexes_align)
  then have fr: "\<And>k. linear (va_as_usize k) \<Longrightarrow> pt_frames pt1 k = pt_frames pt k" by (auto simp: pt1_def)
  have root: "pt_root pt1 = pt_root pt" by (simp add: pt1_def)
  show ?thesis
  proof (cases "pt_frames pt ?k")
    case None
    then show ?thesis using pt_wf_agree(1) [OF wf rc1 root fr] by (simp add: drop_old_def)
  next
    case (Some g)
    have fin: "finite (dom (pt_frames pt))" using rc by (simp add: rc_wf_def)
    have "cnt (pt_frames pt) g \<le> km_rc m (pf_addr g)" using rc by (simp add: rc_wf_def)
    then have "cnt (pt_frames pt1) g < km_rc m (pf_addr g)"
      using cnt_upd [OF fin, of ?k x g] Some x cnt_pos [OF fin Some]
      by (cases "x = Some g") (simp_all add: pt1_def)
    from arc_drop_ok [OF ok rc1 this] obtain m1 where m1: "arc_drop A g m = Ok m1" "rc_wf live m1 (pt_frames pt1)"
      "live (km_heap m1) \<subseteq> live (km_heap m)"
      "\<forall>b\<in>live (km_heap m1). \<forall>i<512. km_cells m1 (cell b i) = km_cells m (cell b i)" by blast
    note agree = pt_wf_agree [OF wf m1(2) root fr]
    show ?thesis
      using agree m1(1,3,4) Some by (auto simp: drop_old_def)
  qed
qed

lemma perm_V: "perm AND PP_all = perm \<Longrightarrow> (perm OR PP_V) AND PP_all = perm OR PP_V"
  by (simp add: bit.conj_disj_distrib2 PP_all_def perm_flag_defs)

lemma pte_set_V:
  assumes "perm AND PP_all = perm" "pa_align_page_down pa = pa"
  shows "validw (pte_bits (pte_set pa (perm OR PP_V) x))"
    and "pte_into (pte_from_raw (pte_bits (pte_set pa (perm OR PP_V) x))) = (pa, perm_stored (perm OR PP_V))"
  using pte_into_set [OF perm_V [OF assms(1)], of pa x] assms(2)
  by (simp_all add: pte_valid_set PP_V_def bit_or_iff)

text \<open>
  The effect of an operation on one page: only its recorded frame and its entry change.
\<close>

definition remap ::
  "usize set \<Rightarrow> VirtAddr \<Rightarrow> PhysFrame option \<Rightarrow> usize option \<Rightarrow> 'h kmem \<Rightarrow> PageTable \<Rightarrow> 'h kmem \<Rightarrow> PageTable \<Rightarrow> bool" where
  "remap R a x w m pt m' pt' \<longleftrightarrow>
     (\<forall>b. hd (indexes b) \<in> R \<longrightarrow>
        pt_frames pt' (va_align_page_down b) =
          (if va_align_page_down b = va_align_page_down a then x else pt_frames pt (va_align_page_down b)) \<and>
        leaf (km_cells m') (root_va pt') (indexes b) =
          (if indexes b = indexes a then w else leaf (km_cells m) (root_va pt) (indexes b)))"

lemma remap_coherent:
  assumes re: "remap R a x w m pt m' pt'" and a: "canonical a" and co: "pt_coherent R m pt"
    and w: "\<And>v. w = Some v \<Longrightarrow> \<exists>f. x = Some f \<and> fst (pte_into (pte_from_raw v)) = pf_addr f"
  shows "pt_coherent R m' pt'"
  unfolding pt_coherent_def
proof (intro allI impI, elim conjE)
  fix b v
  assume b: "canonical b" "va_align_page_down b = b" "hd (indexes b) \<in> R"
    and v: "leaf (km_cells m') (root_va pt') (indexes b) = Some v"
  have "pt_frames pt' b = (if b = va_align_page_down a then x else pt_frames pt b)"
    using re b(2,3) unfolding remap_def by metis
  moreover have "Some v = (if indexes b = indexes a then w else leaf (km_cells m) (root_va pt) (indexes b))"
    using re b(3) v unfolding remap_def by metis
  moreover have "b = va_align_page_down a \<longleftrightarrow> indexes b = indexes a"
    using same_page_iff [OF b(1) a] b(2) by simp
  ultimately show "\<exists>f. pt_frames pt' b = Some f \<and> fst (pte_into (pte_from_raw v)) = pf_addr f"
    using w co b unfolding pt_coherent_def by (auto split: if_splits)
qed

lemma remap_translate_other:
  assumes re: "remap R a x w m pt m' pt'" and rc: "rc_wf live m (pt_frames pt)" "rc_wf live m' (pt_frames pt')"
    and b: "canonical a" "canonical b" "hd (indexes b) \<in> R" "va_align_page_down b \<noteq> va_align_page_down a"
  shows "fst (pt_translate A b m' pt') = fst (pt_translate A b m pt)"
proof -
  have "indexes b \<noteq> indexes a" using same_page_iff [OF b(2,1)] b(4) by simp
  then have "leaf (km_cells m') (root_va pt') (indexes b) = leaf (km_cells m) (root_va pt) (indexes b)"
    "pt_frames pt' (va_align_page_down b) = pt_frames pt (va_align_page_down b)"
    using re b(3,4) unfolding remap_def by simp_all
  then show ?thesis
    unfolding pt_translate_leaf [OF rc(1)] pt_translate_leaf [OF rc(2)] by (simp split: option.split)
qed

lemma remap_translate_same:
  assumes re: "remap R a x w m pt m' pt'" and rc: "rc_wf live m' (pt_frames pt')"
    and b: "hd (indexes a) \<in> R" "va_align_page_down b = va_align_page_down a"
  shows "pt_translate A b m' pt' =
     (case w of None \<Rightarrow> (Fail InvalidVirtAddr, m')
      | Some v \<Rightarrow> (case x of None \<Rightarrow> (Panicked, m')
          | Some f \<Rightarrow> (Ok (pa_add (pf_addr f) (va_as_usize b AND (PAGE_SIZE - 1)), snd (pte_into (pte_from_raw v))), m')))"
proof -
  have i: "indexes b = indexes a" using b(2) by (metis indexes_align)
  have "pt_frames pt' (va_align_page_down b) = x" "leaf (km_cells m') (root_va pt') (indexes b) = w"
    using re b i unfolding remap_def by metis+
  then show ?thesis unfolding pt_translate_leaf [OF rc] by (cases w) simp_all
qed

lemma owned_frame_aligned:
  assumes "rc_wf live m fr" "0 < km_rc m (pf_addr f)"
  shows "pa_align_page_down (pf_addr f) = pf_addr f"
proof -
  have "4096 dvd unat (va_as_usize (to_virt (pf_addr f)))" using assms by (simp add: rc_wf_def)
  from to_phys_aligned [OF this] show ?thesis by simp
qed

text \<open>The outcome of a mapping in terms of entries and frames.\<close>

lemma pt_map_cases:
  assumes ok: "frame_allocator_ok A live" and wf: "pt_wf R live m pt" and a: "hd (indexes a) \<in> R"
    and own: "cnt (pt_frames pt) f < km_rc m (pf_addr f)" and perm: "perm AND PP_all = perm"
  shows "\<exists>r m' pt'. pt_map A a f perm m pt = (r, m', pt') \<and> pt_wf R live m' pt' \<and>
    (r = Fail NotEnoughMem \<and> remap R a (Some f) None m pt m' pt' \<and>
       out_of_frames A live m (missing_tables (km_cells m) (root_va pt) (butlast (indexes a))) \<or>
     r = Ok () \<and> (\<exists>w. pte_into (pte_from_raw w) = (pf_addr f, perm_stored (perm OR PP_V)) \<and>
                      remap R a (Some f) (Some w) m pt m' pt'))"
proof -
  let ?k = "va_align_page_down a"
  define pt1 where "pt1 = pt\<lparr>pt_frames := (pt_frames pt)(?k \<mapsto> f)\<rparr>"
  obtain q j where q: "indexes a = q @ [j]" "length q = 2" "j < 512" "q \<in> paths R"
    using indexes_split [where R = R and a = a] a by metis
  have x: "\<forall>g. Some f = Some g \<longrightarrow> cnt (pt_frames pt) g < km_rc m (pf_addr g)" using own by simp
  from replace_frame [OF ok wf a x] obtain m1 where
    m1: "drop_old A (pt_frames pt ?k) m = Ok m1" "pt_wf R live m1 pt1"
      "\<And>q j. q \<in> paths R \<Longrightarrow> length q = 2 \<Longrightarrow> j < 512 \<Longrightarrow>
         leaf (km_cells m1) (root_va pt) (q @ [j]) = leaf (km_cells m) (root_va pt) (q @ [j])"
      "\<And>q. q \<in> paths R \<Longrightarrow> table_at (km_cells m1) (root_va pt) q = table_at (km_cells m) (root_va pt) q"
      "live (km_heap m1) \<subseteq> live (km_heap m)"
    unfolding pt1_def by blast
  have root1: "root_va pt1 = root_va pt" by (simp add: pt1_def)
  have "table_at (km_cells m1) (root_va pt1) [] = Some (va_as_usize (to_virt (pt_root pt1)))" by simp
  from create_from_ok [OF ok m1(2) _ q(3) this, of q] q(4) obtain r m2 pt2 where
    cr: "create_from A (pt_root pt1) (q @ [j]) m1 pt1 = (r, m2, pt2)" "extends R live m1 pt1 m2 pt2"
      "r = Fail NotEnoughMem \<and> table_at (km_cells m2) (root_va pt1) q = None \<and>
         out_of_frames A live m1 (missing_tables (km_cells m1) (root_va pt1) q) \<or>
       (\<exists>t. table_at (km_cells m2) (root_va pt1) q = Some t \<and> r = Ok (cell t j))" by auto
  have lf: "leaf (km_cells m2) (root_va pt) (indexes b) = leaf (km_cells m) (root_va pt) (indexes b)"
    if "hd (indexes b) \<in> R" for b
    using indexes_split [where R = R and a = b] cr(2) m1(3) that unfolding extends_def root1 by metis
  have wf2: "pt_wf R live m2 pt2" and r2: "root_va pt2 = root_va pt"
    using cr(2) by (simp_all add: extends_def pt1_def)
  have R: "managed R" using wf by (simp add: pt_wf_def)
  have fr: "pt_frames pt2 (va_align_page_down b) =
      (if va_align_page_down b = ?k then Some f else pt_frames pt (va_align_page_down b))"
    if "hd (indexes b) \<in> R" for b
    using cr(2) managed_not_linear [OF R, of "va_align_page_down b"] that
    by (simp add: extends_def pt1_def indexes_align)
  have find: "pt_find_or_create A ?k m1 pt1 = (r, m2, pt2)"
    by (simp add: pt_find_or_create_def indexes_align q(1) cr(1))
  from cr(3) show ?thesis
  proof (elim disjE exE conjE)
    assume r: "r = Fail NotEnoughMem" "table_at (km_cells m2) (root_va pt1) q = None"
      "out_of_frames A live m1 (missing_tables (km_cells m1) (root_va pt1) q)"
    have "missing_tables (km_cells m1) (root_va pt1) q = missing_tables (km_cells m) (root_va pt) q"
      unfolding root1 by (rule missing_tables_cong) (rule m1(4), rule paths_take [OF q(4)])
    then have short: "out_of_frames A live m (missing_tables (km_cells m) (root_va pt) (butlast (indexes a)))"
      using out_of_frames_subset [OF m1(5) r(3)] q(1) by simp
    have "leaf (km_cells m) (root_va pt) (indexes a) = None"
      using lf [OF a] root1 r(2) by (simp add: q(1) leaf_snoc)
    then have "remap R a (Some f) None m pt m2 pt2" using fr lf by (simp add: remap_def r2)
    moreover have "pt_map A a f perm m pt = (Fail NotEnoughMem, m2, pt2)"
      using m1(1) find r(1) by (simp add: pt_map_def Let_def flip: pt1_def)
    ultimately show ?thesis using wf2 short by blast
  next
    fix t assume t: "table_at (km_cells m2) (root_va pt1) q = Some t" and r: "r = Ok (cell t j)"
    let ?w = "pte_bits (pte_set (pf_addr f) (perm OR PP_V) (pte_from_raw (km_cells m2 (cell t j))))"
    have t': "table_at (km_cells m2) (root_va pt2) (butlast (indexes a)) = Some t"
      using t root1 r2 q(1) by simp
    note w = pt_wf_write_leaf [OF wf2 a t', where w = ?w, unfolded q(1) last_snoc, folded q(1)]
    have al: "pa_align_page_down (pf_addr f) = pf_addr f"
      using owned_frame_aligned own wf unfolding pt_wf_def by (metis gr_implies_not0 gr0I)
    note v = pte_set_V [OF perm al, of "pte_from_raw (km_cells m2 (cell t j))"]
    have "remap R a (Some f) (Some ?w) m pt (write_cell (cell t j) ?w m2) pt2"
      unfolding remap_def using fr w(2) lf v(1) by (simp add: r2)
    moreover have "pt_map A a f perm m pt = (Ok (), write_cell (cell t j) ?w m2, pt2)"
      using m1(1) find r by (simp add: pt_map_def Let_def flip: pt1_def)
    ultimately show ?thesis using w(1) v(2) by blast
  qed
qed

lemma pt_unmap_cases:
  assumes ok: "frame_allocator_ok A live" and wf: "pt_wf R live m pt" and a: "hd (indexes a) \<in> R"
    and f: "pt_frames pt (va_align_page_down a) = Some f"
  shows "\<exists>r m' pt'. pt_unmap A a m pt = (r, m', pt') \<and> pt_wf R live m' pt' \<and>
    (r = Ok () \<or> r = Fail InvalidVirtAddr) \<and>
    (leaf (km_cells m) (root_va pt) (indexes a) \<noteq> None \<longrightarrow> r = Ok ()) \<and> remap R a None None m pt m' pt'"
proof -
  let ?k = "va_align_page_down a"
  define pt1 where "pt1 = pt\<lparr>pt_frames := (pt_frames pt)(?k := None)\<rparr>"
  from replace_frame [OF ok wf a, of None] f obtain m1 where
    m1: "arc_drop A f m = Ok m1" "pt_wf R live m1 pt1"
      "\<And>q j. q \<in> paths R \<Longrightarrow> length q = 2 \<Longrightarrow> j < 512 \<Longrightarrow>
         leaf (km_cells m1) (root_va pt) (q @ [j]) = leaf (km_cells m) (root_va pt) (q @ [j])"
    by (auto simp: pt1_def drop_old_def)
  have root1: "root_va pt1 = root_va pt" by (simp add: pt1_def)
  have lf: "leaf (km_cells m1) (root_va pt) (indexes b) = leaf (km_cells m) (root_va pt) (indexes b)"
    if "hd (indexes b) \<in> R" for b
    using indexes_split [where R = R and a = b] m1(3) that by metis
  show ?thesis
  proof (cases "table_at (km_cells m1) (root_va pt1) (butlast (indexes a))")
    case None
    then have "pt_unmap A a m pt = (Fail InvalidVirtAddr, m1, pt1)"
      using f m1(1) pt_find_eq [of m1 pt1 a] by (simp add: pt_unmap_def Let_def flip: pt1_def)
    moreover have none: "leaf (km_cells m) (root_va pt) (indexes a) = None"
      using lf [OF a] None root1 by (simp add: leaf_def)
    moreover have "remap R a None None m pt m1 pt1"
      using lf none unfolding remap_def root1 by (simp add: pt1_def)
    ultimately show ?thesis using m1(2) by auto
  next
    case (Some t)
    let ?w = "pte_bits (pte_clr (pte_from_raw (km_cells m1 (cell t (last (indexes a))))))"
    note w = pt_wf_write_leaf [OF m1(2) a Some, where w = ?w]
    have inv: "\<not> validw ?w" by (simp add: pte_clr_def)
    have "pt_unmap A a m pt = (Ok (), write_cell (cell t (last (indexes a))) ?w m1, pt1)"
      using f m1(1) pt_find_eq [of m1 pt1 a] Some by (simp add: pt_unmap_def Let_def flip: pt1_def)
    moreover have "remap R a None None m pt (write_cell (cell t (last (indexes a))) ?w m1) pt1"
      unfolding remap_def using w(2) inv lf unfolding root1 by (simp add: pt1_def)
    ultimately show ?thesis using w(1) by blast
  qed
qed

section \<open>A new page table\<close>

text \<open>The root indexes a new table manages: outside the remapping and free in the boot table.\<close>

definition free_roots :: "usize list \<Rightarrow> usize set" where
  "free_roots boot = {i. i < 512 \<and> \<not> (258 \<le> i \<and> i < 384) \<and> (i < 256 \<or> \<not> validw (boot ! unat i))}"

lemma pt_new_inv:
  assumes ok: "frame_allocator_ok A live" and rc: "rc_wf live m Map.empty"
    and new: "pt_new A m = (Ok pt, m')"
  shows "pt_inv (free_roots (km_boot m)) live m' pt"
proof -
  let ?R = "free_roots (km_boot m)"
  from frame_alloc_cases [OF ok, of m] new obtain a m1 where
    al: "PhysFrame_alloc A m = (Ok (PhysFrame (to_phys (VirtAddr a))), m1)" "4096 dvd unat a" "linear a"
      "a \<notin> live (km_heap m)" "live (km_heap m1) = insert a (live (km_heap m))"
      "\<forall>i<512. km_cells m1 (cell a i) = 0" "km_boot m1 = km_boot m" "km_rc m1 = (km_rc m)(to_phys (VirtAddr a) := 1)"
    by (auto simp: pt_new_def)
  have pt: "pt = \<lparr>pt_root = to_phys (VirtAddr a), pt_frames = [VirtAddr a \<mapsto> PhysFrame (to_phys (VirtAddr a))]\<rparr>"
    and m': "m' = clone_into a m1"
    using new al(1) al(2)
    by (simp_all add: pt_new_def Let_def clone_kernel_def as_array_base_def align_page_down_id)
  have empty: "\<not> validw (km_cells m' (cell a i))" if "i \<in> ?R" for i
    using that clone_into_page [OF al(2), of i m1] al(6,7) by (auto simp: free_roots_def m')
  have at: "table_at (km_cells m') a p = (if p = [] then Some a else None)" if "p \<in> paths ?R" for p
    using that empty by (cases p) (simp_all add: paths_def)
  have lf: "leaf (km_cells m') a (indexes b) = None" if "hd (indexes b) \<in> ?R" for b
    using that empty [of "hd (indexes b)"] by (simp add: leaf_def indexes_def)
  have heap: "km_heap m' = km_heap m1" "km_rc m' = km_rc m1" by (simp_all add: m' clone_into_def)
  have "rc_wf live m' (pt_frames pt)"
  proof -
    have "cnt (pt_frames pt) f \<le> km_rc m' (pf_addr f)" for f
      using cnt_upd [of Map.empty "VirtAddr a" "Some (PhysFrame (to_phys (VirtAddr a)))" f]
      by (cases "f = PhysFrame (to_phys (VirtAddr a))") (simp_all add: pt cnt_def heap al(8))
    then show ?thesis using rc al(2,3,5,8) unfolding rc_wf_def heap by (auto simp: pt)
  qed
  moreover have "managed ?R" by (simp add: managed_def free_roots_def)
  ultimately show ?thesis
    using at lf al(2,5) heap(1) unfolding pt_inv_def pt_wf_def tree_wf_def pt_coherent_def
    by (auto simp: pt split: if_splits)
qed

lemma pf_addr_eq_iff: "pf_addr f = x \<longleftrightarrow> f = PhysFrame x"
  by (cases f) simp

text \<open>Allocating one more frame leaves a page table alone and owns the new frame.\<close>

lemma alloc_keeps_pt_inv:
  assumes ok: "frame_allocator_ok A live" and inv: "pt_inv R live m pt"
    and al: "PhysFrame_alloc A m = (Ok f, m')"
  shows "pt_inv R live m' pt" and "cnt (pt_frames pt) f < km_rc m' (pf_addr f)"
    and "extends R live m pt m' pt"
proof -
  have wf: "pt_wf R live m pt" and rc: "rc_wf live m (pt_frames pt)" and co: "pt_coherent R m pt" and R: "managed R"
    using inv by (simp_all add: pt_inv_def pt_wf_def)
  from frame_alloc_cases [OF ok, of m] al obtain a where
    a: "f = PhysFrame (to_phys (VirtAddr a))" "4096 dvd unat a" "linear a"
      "a \<notin> live (km_heap m)" "live (km_heap m') = insert a (live (km_heap m))"
      "\<forall>b\<in>live (km_heap m). \<forall>i<512. km_cells m' (cell b i) = km_cells m (cell b i)"
      "km_rc m' = (km_rc m)(to_phys (VirtAddr a) := 1)" by auto
  have z: "cnt (pt_frames pt) f = 0"
  proof -
    have "km_rc m (pf_addr f) = 0" using rc a(1,4) by (auto simp: rc_wf_def)
    then show ?thesis using rc unfolding rc_wf_def by (metis le_zero_eq)
  qed
  then show "cnt (pt_frames pt) f < km_rc m' (pf_addr f)" by (simp add: a(1,7))
  have "cnt (pt_frames pt) g \<le> km_rc m' (pf_addr g)" for g
    using rc z by (cases "g = f") (auto simp: rc_wf_def a(1,7) pf_addr_eq_iff)
  then have "rc_wf live m' (pt_frames pt)"
    using rc a(1,2,3,5,7) by (auto simp: rc_wf_def)
  note agree = pt_wf_agree [OF wf this refl refl]
  show ext: "extends R live m pt m' pt" using agree a(6) by (simp add: extends_def)
  then show "pt_inv R live m' pt"
    using extends_coherent [OF ext R co] by (simp add: pt_inv_def extends_def)
qed

lemma pt_map_spec:
  assumes ok: "frame_allocator_ok A live" and inv: "pt_inv R live m pt"
    and a: "canonical a" "hd (indexes a) \<in> R"
    and own: "cnt (pt_frames pt) f < km_rc m (pf_addr f)" and perm: "perm AND PP_all = perm"
  shows "\<exists>r m' pt'. pt_map A a f perm m pt = (r, m', pt') \<and> pt_inv R live m' pt' \<and>
    (r = Ok () \<or> r = Fail NotEnoughMem) \<and>
    (\<forall>b. va_align_page_down b = va_align_page_down a \<longrightarrow>
       pt_translate A b m' pt' =
         (if r = Ok ()
          then Ok (pa_add (pf_addr f) (va_as_usize b AND (PAGE_SIZE - 1)), perm_stored (perm OR PP_V))
          else Fail InvalidVirtAddr, m')) \<and>
    (\<forall>b. canonical b \<and> hd (indexes b) \<in> R \<and> va_align_page_down b \<noteq> va_align_page_down a \<longrightarrow>
       fst (pt_translate A b m' pt') = fst (pt_translate A b m pt))"
proof -
  have wf: "pt_wf R live m pt" and co: "pt_coherent R m pt" and rc: "rc_wf live m (pt_frames pt)"
    using inv by (simp_all add: pt_inv_def pt_wf_def)
  from pt_map_cases [OF ok wf a(2) own perm] obtain r m' pt' w where
    map: "pt_map A a f perm m pt = (r, m', pt')" "pt_wf R live m' pt'" "remap R a (Some f) w m pt m' pt'"
    and w: "r = Fail NotEnoughMem \<and> w = None \<or>
      r = Ok () \<and> (\<exists>v. w = Some v \<and> pte_into (pte_from_raw v) = (pf_addr f, perm_stored (perm OR PP_V)))"
    by metis
  have rc': "rc_wf live m' (pt_frames pt')" using map(2) by (simp add: pt_wf_def)
  have "pt_coherent R m' pt'" by (rule remap_coherent [OF map(3) a(1) co]) (use w in auto)
  then have "pt_inv R live m' pt'" using map(2) by (simp add: pt_inv_def)
  moreover have "\<forall>b. va_align_page_down b = va_align_page_down a \<longrightarrow> pt_translate A b m' pt' =
      (if r = Ok () then Ok (pa_add (pf_addr f) (va_as_usize b AND (PAGE_SIZE - 1)), perm_stored (perm OR PP_V))
       else Fail InvalidVirtAddr, m')"
    using remap_translate_same [OF map(3) rc' a(2)] w by auto
  moreover note remap_translate_other [OF map(3) rc rc' a(1)]
  ultimately show ?thesis using map(1) w by blast
qed

lemma pt_map_out_of_frames:
  assumes "frame_allocator_ok A live" "pt_inv R live m pt" "hd (indexes a) \<in> R"
    "cnt (pt_frames pt) f < km_rc m (pf_addr f)" "perm AND PP_all = perm" "pt_map A a f perm m pt = (Fail NotEnoughMem, m', pt')"
  shows "out_of_frames A live m (missing_tables (km_cells m) (root_va pt) (butlast (indexes a)))"
  using pt_map_cases [OF assms(1) _ assms(3-5)] assms(2,6) by (auto simp: pt_inv_def)

lemma pt_unmap_spec:
  assumes ok: "frame_allocator_ok A live" and inv: "pt_inv R live m pt"
    and a: "canonical a" "hd (indexes a) \<in> R"
  shows "case pt_frames pt (va_align_page_down a) of
      None \<Rightarrow> pt_unmap A a m pt = (Fail InvalidVirtAddr, m, pt)
    | Some f \<Rightarrow> \<exists>r m' pt'. pt_unmap A a m pt = (r, m', pt') \<and> pt_inv R live m' pt' \<and>
        (r = Ok () \<or> r = Fail InvalidVirtAddr) \<and> (is_ok (fst (pt_translate A a m pt)) \<longrightarrow> r = Ok ()) \<and>
        (\<forall>b. va_align_page_down b = va_align_page_down a \<longrightarrow> pt_translate A b m' pt' = (Fail InvalidVirtAddr, m')) \<and>
        (\<forall>b. canonical b \<and> hd (indexes b) \<in> R \<and> va_align_page_down b \<noteq> va_align_page_down a \<longrightarrow>
           fst (pt_translate A b m' pt') = fst (pt_translate A b m pt))"
proof (cases "pt_frames pt (va_align_page_down a)")
  case None
  then show ?thesis by (simp add: pt_unmap_def)
next
  case (Some f)
  have wf: "pt_wf R live m pt" and co: "pt_coherent R m pt" and rc: "rc_wf live m (pt_frames pt)"
    using inv by (simp_all add: pt_inv_def pt_wf_def)
  from pt_unmap_cases [OF ok wf a(2) Some] obtain r m' pt' where
    un: "pt_unmap A a m pt = (r, m', pt')" "pt_wf R live m' pt'" "r = Ok () \<or> r = Fail InvalidVirtAddr"
      "leaf (km_cells m) (root_va pt) (indexes a) \<noteq> None \<longrightarrow> r = Ok ()" "remap R a None None m pt m' pt'" by blast
  have rc': "rc_wf live m' (pt_frames pt')" using un(2) by (simp add: pt_wf_def)
  have "pt_coherent R m' pt'" by (rule remap_coherent [OF un(5) a(1) co]) simp
  then have "pt_inv R live m' pt'" using un(2) by (simp add: pt_inv_def)
  moreover have "is_ok (fst (pt_translate A a m pt)) \<longrightarrow> r = Ok ()"
    using un(4) by (auto simp: pt_translate_leaf [OF rc] split: option.split)
  moreover have "\<forall>b. va_align_page_down b = va_align_page_down a \<longrightarrow> pt_translate A b m' pt' = (Fail InvalidVirtAddr, m')"
    using remap_translate_same [OF un(5) rc' a(2)] by simp
  moreover note remap_translate_other [OF un(5) rc rc' a(1)]
  ultimately show ?thesis using un(1,3) Some by auto
qed

lemma alloc_fail_keeps_pt_inv:
  assumes ok: "frame_allocator_ok A live" and inv: "pt_inv R live m pt"
    and al: "PhysFrame_alloc A m = (Inl e, m')"
  shows "e = Err NotEnoughMem" "pt_inv R live m' pt" "extends R live m pt m' pt"
proof -
  have wf: "pt_wf R live m pt" and co: "pt_coherent R m pt" and R: "managed R"
    using inv by (simp_all add: pt_inv_def pt_wf_def)
  from frame_alloc_cases [OF ok, of m] al have m': "e = Err NotEnoughMem" "live (km_heap m') = live (km_heap m)"
    "same_pages (live (km_heap m)) m m'" by auto
  then show "e = Err NotEnoughMem" by simp
  have "rc_wf live m' (pt_frames pt)" using wf m' by (simp add: pt_wf_def rc_wf_def same_pages_def)
  note agree = pt_wf_agree [OF wf this refl refl]
  show ext: "extends R live m pt m' pt" using agree m'(3) by (simp add: extends_def same_pages_def)
  then show "pt_inv R live m' pt" using extends_coherent [OF ext R co] by (simp add: pt_inv_def extends_def)
qed

text \<open>Creating tables or frames does not change what any managed page translates to.\<close>

lemma extends_translate:
  assumes ext: "extends R live m pt m' pt'" and inv: "pt_inv R live m pt" and a: "hd (indexes a) \<in> R"
  shows "fst (pt_translate A a m' pt') = fst (pt_translate A a m pt)"
proof -
  have rc: "rc_wf live m (pt_frames pt)" "rc_wf live m' (pt_frames pt')" and R: "managed R"
    using inv ext by (simp_all add: pt_inv_def pt_wf_def extends_def)
  obtain q j where q: "indexes a = q @ [j]" "length q = 2" "j < 512" "q \<in> paths R"
    using indexes_split [where R = R and a = a] a by metis
  have "leaf (km_cells m') (root_va pt') (indexes a) = leaf (km_cells m) (root_va pt) (indexes a)"
    "pt_frames pt' (va_align_page_down a) = pt_frames pt (va_align_page_down a)"
    using ext q managed_not_linear [OF R, of "va_align_page_down a"] a by (simp_all add: extends_def indexes_align)
  then show ?thesis
    unfolding pt_translate_leaf [OF rc(1)] pt_translate_leaf [OF rc(2)] by (simp split: option.split)
qed

text \<open>The frame behind a valid entry.\<close>

lemma pt_leaf_frame:
  assumes inv: "pt_inv R live m pt" and a: "canonical a" "hd (indexes a) \<in> R"
    and w: "leaf (km_cells m) (root_va pt) (indexes a) = Some w"
  shows "\<exists>f. pt_frames pt (va_align_page_down a) = Some f \<and> fst (pte_into (pte_from_raw w)) = pf_addr f"
proof -
  have co: "pt_coherent R m pt" using inv by (simp add: pt_inv_def)
  have "va_align_page_down (va_align_page_down a) = va_align_page_down a" by (simp add: va_align_page_down_def)
  then show ?thesis using co canonical_align [OF a(1)] a(2) w unfolding pt_coherent_def by (metis indexes_align)
qed

section \<open>Properties\<close>

text \<open>
  C3. Mapping a frame at a canonical page of a managed region succeeds whenever the allocator still has a frame for each table that
  is missing on the way to the page: with \<open>n\<close> frames in all it fails only when the frames in use and those tables are more than \<open>n\<close>, and
  then for lack of memory. The invariant is kept in both cases. After success every address of the page translates to the frame
  plus the page offset with the given permissions, after a failure none of them translates, and in both cases every other managed
  page translates as before.
\<close>

theorem pt_map_correct:
  assumes ok: "frame_allocator_ok A live" and inv: "pt_inv R live m pt"
    and a: "canonical a" "hd (indexes a) \<in> R"
    and own: "cnt (pt_frames pt) f < km_rc m (pf_addr f)" and perm: "perm AND PP_all = perm"
    and n: "frames_for A live n" "finite (live (km_heap m))"
  shows "\<exists>r m' pt'. pt_map A a f perm m pt = (r, m', pt') \<and> pt_inv R live m' pt' \<and>
    (r = Ok () \<or>
     r = Fail NotEnoughMem \<and> n < card (live (km_heap m)) + missing_tables (km_cells m) (root_va pt) (butlast (indexes a))) \<and>
    (\<forall>b. va_align_page_down b = va_align_page_down a \<longrightarrow>
       pt_translate A b m' pt' =
         (if r = Ok ()
          then Ok (pa_add (pf_addr f) (va_as_usize b AND (PAGE_SIZE - 1)), perm_stored (perm OR PP_V))
          else Fail InvalidVirtAddr, m')) \<and>
    (\<forall>b. canonical b \<and> hd (indexes b) \<in> R \<and> va_align_page_down b \<noteq> va_align_page_down a \<longrightarrow>
       fst (pt_translate A b m' pt') = fst (pt_translate A b m pt))"
proof -
  have "n < card (live (km_heap m)) + missing_tables (km_cells m) (root_va pt) (butlast (indexes a))"
    if "pt_map A a f perm m pt = (Fail NotEnoughMem, m', pt')" for m' pt'
    using pt_map_out_of_frames [OF ok inv a(2) own perm that] n by (simp add: out_of_frames_def)
  then show ?thesis using pt_map_spec [OF ok inv a own perm] by blast
qed

text \<open>
  A concrete machine: a zeroed boot table, the eight-page allocator, a new page table and one
  more frame to map.
\<close>

definition demo_mem :: "usize list kmem" where
  "demo_mem = \<lparr>km_cells = (\<lambda>_. 0), km_boot = replicate 512 0, km_heap = [], km_rc = (\<lambda>_. 0)\<rparr>"

definition demo_pt :: PageTable where
  "demo_pt = \<lparr>pt_root = PhysAddr 0x80000000,
              pt_frames = [VirtAddr 0xFFFFFFC080000000 \<mapsto> PhysFrame (PhysAddr 0x80000000)]\<rparr>"

definition demo_mem1 :: "usize list kmem" where
  "demo_mem1 = snd (pt_new pool_allocator demo_mem)"

definition demo_mem2 :: "usize list kmem" where
  "demo_mem2 = snd (PhysFrame_alloc pool_allocator demo_mem1)"

lemma pool_pages_list:
  "pool_pages = [0xFFFFFFC080000000, 0xFFFFFFC080001000, 0xFFFFFFC080002000, 0xFFFFFFC080003000,
     0xFFFFFFC080004000, 0xFFFFFFC080005000, 0xFFFFFFC080006000, 0xFFFFFFC080007000]"
  by (simp add: pool_pages_def upt_rec)

text \<open>The eight pages of \<open>pool_allocator\<close> are as many as the kernel's static heap has before the memory is probed.\<close>

lemma pool_frames: "frames_for pool_allocator set 8"
  unfolding frames_for_def
proof (intro allI impI)
  fix m :: "usize list kmem"
  let ?h = "align_page_down ` set (km_heap m)"
  assume "card (set (km_heap m)) < 8"
  then have "card ?h < 8" using card_image_le [of "set (km_heap m)" align_page_down] by simp
  moreover have "card (set pool_pages) = 8" by (simp add: pool_pages_list)
  ultimately have "\<not> set pool_pages \<subseteq> ?h" using card_mono [of ?h "set pool_pages"] by auto
  then have "filter (\<lambda>a. a \<notin> set (map align_page_down (km_heap m))) pool_pages \<noteq> []"
    unfolding filter_empty_conv by auto
  then show "fst (fa_allocate_zeroed pool_allocator m) \<noteq> None"
    by (auto simp: pool_allocator_def split: list.split)
qed

lemma demo_new: "pt_new pool_allocator demo_mem = (Ok demo_pt, demo_mem1)"
  by (simp add: demo_mem1_def pt_new_def PhysFrame_alloc_def pool_allocator_def pool_pages_list demo_mem_def
      demo_pt_def to_phys_def to_virt_def va_new_def REMAP_MEM_OFFSET_def Let_def)

lemma demo_heap1: "km_heap demo_mem1 = [0xFFFFFFC080000000]"
  by (simp add: demo_mem1_def pt_new_def PhysFrame_alloc_def pool_allocator_def pool_pages_list demo_mem_def
      clone_kernel_def clone_into_def Let_def)

lemma demo_alloc: "PhysFrame_alloc pool_allocator demo_mem1 = (Ok (PhysFrame (PhysAddr 0x80001000)), demo_mem2)"
  by (simp add: demo_mem2_def PhysFrame_alloc_def pool_allocator_def pool_pages_list demo_heap1 align_page_down_def
      PAGE_SIZE_def to_phys_def va_new_def REMAP_MEM_OFFSET_def)

lemma demo_inv:
  "pt_inv (free_roots (replicate 512 0)) set demo_mem2 demo_pt"
  "cnt (pt_frames demo_pt) (PhysFrame (PhysAddr 0x80001000)) < km_rc demo_mem2 (PhysAddr 0x80001000)"
proof -
  have "rc_wf set demo_mem Map.empty" by (simp add: rc_wf_def demo_mem_def cnt_def)
  from pt_new_inv [OF pool_allocator_ok this demo_new]
  have inv: "pt_inv (free_roots (replicate 512 0)) set demo_mem1 demo_pt" by (simp add: demo_mem_def)
  note step = alloc_keeps_pt_inv [OF pool_allocator_ok inv demo_alloc]
  show "pt_inv (free_roots (replicate 512 0)) set demo_mem2 demo_pt" by (rule step(1))
  show "cnt (pt_frames demo_pt) (PhysFrame (PhysAddr 0x80001000)) < km_rc demo_mem2 (PhysAddr 0x80001000)"
    using step(2) by simp
qed

lemma demo_page: "canonical (VirtAddr 0x1234)" "hd (indexes (VirtAddr 0x1234)) \<in> free_roots (replicate 512 0)"
  by (simp_all add: canonical_def free_roots_def indexes_def)

lemma demo_in_use: "card (set (km_heap demo_mem2)) = 2"
  by (simp add: demo_mem2_def PhysFrame_alloc_def pool_allocator_def pool_pages_list demo_heap1 align_page_down_def PAGE_SIZE_def Let_def)

theorem pt_map_correct_witness:
  "\<exists>m' pt'. pt_map pool_allocator (VirtAddr 0x1234) (PhysFrame (PhysAddr 0x80001000)) PP_R demo_mem2 demo_pt = (Ok (), m', pt') \<and>
     pt_inv (free_roots (replicate 512 0)) set m' pt' \<and>
     pt_translate pool_allocator (VirtAddr 0x1234) m' pt' = (Ok (PhysAddr 0x80001234, perm_stored (PP_R OR PP_V)), m')"
proof -
  let ?f = "PhysFrame (PhysAddr 0x80001000)" and ?a = "VirtAddr 0x1234"
  have own: "cnt (pt_frames demo_pt) ?f < km_rc demo_mem2 (pf_addr ?f)" using demo_inv(2) by simp
  have "PP_R AND PP_all = PP_R" by (simp add: PP_all_def perm_flag_defs)
  from pt_map_correct [OF pool_allocator_ok demo_inv(1) demo_page own this pool_frames] obtain r m' pt' where
    r: "pt_map pool_allocator ?a ?f PP_R demo_mem2 demo_pt = (r, m', pt')" "pt_inv (free_roots (replicate 512 0)) set m' pt'"
      "r = Ok () \<or> 8 < card (set (km_heap demo_mem2)) + missing_tables (km_cells demo_mem2) (root_va demo_pt) (butlast (indexes ?a))"
      "pt_translate pool_allocator ?a m' pt' = (if r = Ok () then Ok (pa_add (pf_addr ?f) (va_as_usize ?a AND (PAGE_SIZE - 1)), perm_stored (PP_R OR PP_V))
         else Fail InvalidVirtAddr, m')" by blast
  have "length (butlast (indexes ?a)) = 2" by (simp add: indexes_def)
  then have "missing_tables (km_cells demo_mem2) (root_va demo_pt) (butlast (indexes ?a)) \<le> 2" using missing_tables_le by metis
  then have "r = Ok ()" using r(3) demo_in_use by simp
  then show ?thesis using r(1,2,4) by (simp add: pa_add_def PAGE_SIZE_def)
qed

text \<open>
  C4. Unmapping a page that has a recorded frame keeps the invariant, leaves every address of
  the page untranslatable and every other managed page as it was, and succeeds whenever the
  page had an entry; unmapping any other page fails and changes nothing.
\<close>

theorem pt_unmap_correct:
  assumes ok: "frame_allocator_ok A live" and inv: "pt_inv R live m pt"
    and a: "canonical a" "hd (indexes a) \<in> R"
  shows "case pt_frames pt (va_align_page_down a) of
      None \<Rightarrow> pt_unmap A a m pt = (Fail InvalidVirtAddr, m, pt)
    | Some f \<Rightarrow> \<exists>r m' pt'. pt_unmap A a m pt = (r, m', pt') \<and> pt_inv R live m' pt' \<and>
        (r = Ok () \<or> r = Fail InvalidVirtAddr) \<and> (is_ok (fst (pt_translate A a m pt)) \<longrightarrow> r = Ok ()) \<and>
        (\<forall>b. va_align_page_down b = va_align_page_down a \<longrightarrow> pt_translate A b m' pt' = (Fail InvalidVirtAddr, m')) \<and>
        (\<forall>b. canonical b \<and> hd (indexes b) \<in> R \<and> va_align_page_down b \<noteq> va_align_page_down a \<longrightarrow>
           fst (pt_translate A b m' pt') = fst (pt_translate A b m pt))"
  by (rule pt_unmap_spec [OF assms])

theorem pt_unmap_correct_witness:
  "pt_unmap pool_allocator (VirtAddr 0x1234) demo_mem2 demo_pt = (Fail InvalidVirtAddr, demo_mem2, demo_pt)"
  using pt_unmap_correct [OF pool_allocator_ok demo_inv(1) demo_page]
  by (simp add: demo_pt_def va_align_page_down_def align_page_down_def PAGE_SIZE_def)

text \<open>
  C5. Under the invariant, translating or looking up a canonical address of a managed region
  never panics, a translation leaves memory and reference counts as they were, and the
  physical address it returns is the one the hardware would reach through the entry.
\<close>

theorem pt_translate_safe:
  assumes inv: "pt_inv R live m pt" and a: "canonical a" "hd (indexes a) \<in> R"
  shows "snd (pt_translate A a m pt) = m \<and> fst (pt_lookup a m pt) \<noteq> Panicked \<and>
    fst (pt_translate A a m pt) =
      (case leaf (km_cells m) (root_va pt) (indexes a) of
         None \<Rightarrow> Fail InvalidVirtAddr
       | Some w \<Rightarrow> Ok (pa_add (fst (pte_into (pte_from_raw w))) (va_as_usize a AND (PAGE_SIZE - 1)),
                       snd (pte_into (pte_from_raw w))))"
proof -
  have rc: "rc_wf live m (pt_frames pt)" using inv by (simp add: pt_inv_def pt_wf_def)
  show ?thesis using pt_leaf_frame [OF inv a]
    by (cases "leaf (km_cells m) (root_va pt) (indexes a)") (auto simp: pt_translate_leaf [OF rc] pt_lookup_leaf)
qed

theorem pt_translate_safe_witness:
  "snd (pt_translate pool_allocator (VirtAddr 0x1234) demo_mem2 demo_pt) = demo_mem2 \<and>
   fst (pt_lookup (VirtAddr 0x1234) demo_mem2 demo_pt) \<noteq> Panicked"
  using pt_translate_safe [OF demo_inv(1) demo_page, of pool_allocator] by blast

end
