(* ===== verification/Stack_Alloc.thy ===== *)
theory Stack_Alloc
  imports Page_Table
begin

text \<open>
  The stack allocator of \<^verbatim>\<open>kern/modules/stack-alloc/src/lib.rs\<close> and its instance for executor
  stacks in \<^verbatim>\<open>kern/modules/multitask/src/executor.rs\<close>. Blocks are carved from a region by a
  bump pointer and recycled through per-size lists; a block is a guard of unmapped pages with
  the stack above it.

  The allocator calls a mapper and an unmapper it is given. \<open>page_mapper\<close> is the contract it
  relies on; the interpretation \<open>kpt\<close> discharges it for the closures that go through the
  kernel page table.
\<close>

unbundle bit_operations_syntax

section \<open>The code\<close>

text \<open>\<^verbatim>\<open>usize::next_multiple_of\<close> and \<^verbatim>\<open>(lo..hi).step_by(PAGE_SIZE)\<close>.\<close>

definition next_multiple_of :: "usize \<Rightarrow> usize \<Rightarrow> usize" where
  "next_multiple_of a n = (if a mod n = 0 then a else a + (n - a mod n))"

definition page_steps :: "usize \<Rightarrow> usize \<Rightarrow> usize list" where
  "page_steps lo hi = map (\<lambda>k. lo + of_nat (4096 * k)) [0..<(unat hi - unat lo + 4095) div 4096]"

record StackAllocator =
  sa_region :: "VirtAddr \<times> usize"
  sa_guard_size :: usize
  sa_next :: usize
  sa_allocated :: "VirtAddr \<rightharpoonup> usize"
  sa_cached :: "usize \<rightharpoonup> VirtAddr list"

definition sa_new :: "VirtAddr \<times> usize \<Rightarrow> usize \<Rightarrow> StackAllocator" where
  "sa_new region guard_size0 =
     (let guard_size = next_multiple_of guard_size0 PAGE_SIZE
      in \<lparr>sa_region = region, sa_guard_size = guard_size,
          sa_next = va_as_usize (fst region) - guard_size,
          sa_allocated = Map.empty, sa_cached = Map.empty\<rparr>)"

text \<open>The loops over the pages of a stack; \<open>f\<close> is the mapper or the unmapper.\<close>

fun each_page :: "(VirtAddr \<Rightarrow> 's \<Rightarrow> unit res \<times> 's) \<Rightarrow> VirtAddr list \<Rightarrow> 's \<Rightarrow> unit res \<times> 's" where
  "each_page f [] s = (Ok (), s)"
| "each_page f (p # ps) s =
     (case f p s of (Inl e, s') \<Rightarrow> (Inl e, s') | (Inr _, s') \<Rightarrow> each_page f ps s')"

definition stack_pages :: "StackAllocator \<Rightarrow> VirtAddr \<Rightarrow> usize \<Rightarrow> VirtAddr list" where
  "stack_pages sa va sz = map (\<lambda>i. va_add (va_add va (sa_guard_size sa)) i) (page_steps 0 sz)"

definition sa_pick :: "usize \<Rightarrow> StackAllocator \<Rightarrow> VirtAddr res \<times> StackAllocator" where
  "sa_pick sz sa =
     (case (case sa_cached sa sz of None \<Rightarrow> [] | Some q \<Rightarrow> q) of
        cached # rest \<Rightarrow> (Ok cached, sa\<lparr>sa_cached := (sa_cached sa)(sz \<mapsto> rest)\<rparr>)
      | [] \<Rightarrow>
          (let sa' = sa\<lparr>sa_cached := (sa_cached sa)(sz \<mapsto> [])\<rparr>
           in if sa_next sa + sz > va_as_usize (va_add (fst (sa_region sa)) (snd (sa_region sa)))
              then (Fail NotEnoughMem, sa')
              else (Ok (va_new (sa_next sa)), sa'\<lparr>sa_next := sa_next sa + (sz + sa_guard_size sa)\<rparr>)))"

definition sa_allocate ::
  "(VirtAddr \<Rightarrow> 's \<Rightarrow> unit res \<times> 's) \<Rightarrow> usize \<Rightarrow> StackAllocator \<Rightarrow> 's \<Rightarrow> VirtAddr res \<times> StackAllocator \<times> 's" where
  "sa_allocate mapf sz0 sa s =
     (let sz = next_multiple_of sz0 PAGE_SIZE
      in case sa_pick sz sa of
           (Inl e, sa1) \<Rightarrow> (Inl e, sa1, s)
         | (Inr va, sa1) \<Rightarrow>
             (let stack_top = va_add (va_add va sz) (sa_guard_size sa1);
                  sa2 = sa1\<lparr>sa_allocated := (sa_allocated sa1)(stack_top \<mapsto> sz)\<rparr>
              in case each_page mapf (stack_pages sa2 va sz) s of
                   (Inl e, s') \<Rightarrow> (Inl e, sa2, s')
                 | (Inr _, s') \<Rightarrow> (Ok stack_top, sa2, s')))"

definition sa_deallocate ::
  "(VirtAddr \<Rightarrow> 's \<Rightarrow> unit res \<times> 's) \<Rightarrow> VirtAddr \<Rightarrow> StackAllocator \<Rightarrow> 's \<Rightarrow> unit res \<times> StackAllocator \<times> 's" where
  "sa_deallocate unmapf stack_top sa s =
     (case sa_allocated sa stack_top of
        None \<Rightarrow> (Fail InvalidVirtAddr, sa, s)
      | Some sz \<Rightarrow>
          (let sa1 = sa\<lparr>sa_allocated := (sa_allocated sa)(stack_top := None)\<rparr>;
               va = va_sub (va_sub stack_top sz) (sa_guard_size sa)
           in case each_page unmapf (stack_pages sa va sz) s of
                (Inl e, s') \<Rightarrow> (Inl e, sa1, s')
              | (Inr _, s') \<Rightarrow>
                  (Ok (), sa1\<lparr>sa_cached := (sa_cached sa1)
                      (sz \<mapsto> va # (case sa_cached sa1 sz of None \<Rightarrow> [] | Some q \<Rightarrow> q))\<rparr>, s')))"

text \<open>The closures of \<^verbatim>\<open>EXECUTOR_STACK_ALLOCATOR\<close>, which hold the write lock of the kernel
  page table for their whole body.\<close>

definition kpt_map :: "'h frame_allocator \<Rightarrow> VirtAddr \<Rightarrow> 'h kmem \<times> PageTable \<Rightarrow> unit res \<times> ('h kmem \<times> PageTable)" where
  "kpt_map A addr s =
     (case PhysFrame_alloc A (fst s) of
        (Inl e, m) \<Rightarrow> (Inl e, m, snd s)
      | (Inr phys_frame, m) \<Rightarrow>
          (case pt_map A addr phys_frame (PP_G OR PP_R OR PP_W) m (snd s) of (r, m', pt') \<Rightarrow> (r, m', pt')))"

definition kpt_unmap :: "'h frame_allocator \<Rightarrow> VirtAddr \<Rightarrow> 'h kmem \<times> PageTable \<Rightarrow> unit res \<times> ('h kmem \<times> PageTable)" where
  "kpt_unmap A addr s = (case pt_unmap A addr (fst s) (snd s) of (r, m', pt') \<Rightarrow> (r, m', pt'))"

definition EXECUTOR_STACK_ALLOCATOR :: StackAllocator where
  "EXECUTOR_STACK_ALLOCATOR =
     sa_new (va_new (vmr_addr EXECUTOR_STACK_REGION), vmr_len EXECUTOR_STACK_REGION) EXECUTOR_STACK_SIZE"

section \<open>The mapper's contract\<close>

locale page_mapper =
  fixes mapf unmapf :: "VirtAddr \<Rightarrow> 's \<Rightarrow> unit res \<times> 's"
    and inv :: "'s \<Rightarrow> bool"
    and mapped :: "'s \<Rightarrow> VirtAddr set"
    and pageok :: "VirtAddr \<Rightarrow> bool"
  assumes map_law: "inv s \<Longrightarrow> pageok p \<Longrightarrow> mapf p s = (r, s') \<Longrightarrow>
      inv s' \<and> (r = Ok () \<and> mapped s' = insert p (mapped s) \<or> 
       r = Fail NotEnoughMem \<and> mapped s - {p} \<subseteq> mapped s' \<and> mapped s' \<subseteq> mapped s)"
    and unmap_law: "inv s \<Longrightarrow> pageok p \<Longrightarrow> p \<in> mapped s \<Longrightarrow> unmapf p s = (r, s') \<Longrightarrow>
      r = Ok () \<and> inv s' \<and> mapped s' = mapped s - {p}"
begin

lemma each_map:
  assumes "inv s" "\<forall>p\<in>set ps. pageok p" "each_page mapf ps s = (r, s')"
  shows "inv s' \<and> (r = Ok () \<and> mapped s' = mapped s \<union> set ps \<or>
     r = Fail NotEnoughMem \<and> mapped s - set ps \<subseteq> mapped s' \<and> mapped s' \<subseteq> mapped s \<union> set ps)"
  using assms
proof (induction ps arbitrary: s)
  case (Cons p ps)
  obtain r1 s1 where f: "mapf p s = (r1, s1)" by fastforce
  from map_law [OF Cons.prems(1) _ f] Cons.prems(2)
  have s1: "inv s1" "r1 = Ok () \<and> mapped s1 = insert p (mapped s) \<or> 
      r1 = Fail NotEnoughMem \<and> mapped s - {p} \<subseteq> mapped s1 \<and> mapped s1 \<subseteq> mapped s"
    by auto
  show ?case
  proof (cases "r1 = Ok ()")
    case True
    then have "each_page mapf ps s1 = (r, s')" using Cons.prems(3) f by simp
    from Cons.IH [OF s1(1) _ this] Cons.prems(2) s1(2) True show ?thesis by auto
  next
    case False
    then show ?thesis using s1 Cons.prems(3) f by auto
  qed
qed auto

lemma each_unmap:
  assumes "inv s" "\<forall>p\<in>set ps. pageok p" "set ps \<subseteq> mapped s" "distinct ps" "each_page unmapf ps s = (r, s')"
  shows "r = Ok () \<and> inv s' \<and> mapped s' = mapped s - set ps"
  using assms
proof (induction ps arbitrary: s)
  case (Cons p ps)
  obtain r1 s1 where f: "unmapf p s = (r1, s1)" by fastforce
  have s1: "r1 = Ok ()" "inv s1" "mapped s1 = mapped s - {p}"
    using unmap_law [OF Cons.prems(1) _ _ f] Cons.prems(2,3) by auto
  have "each_page unmapf ps s1 = (r, s')" using Cons.prems(5) f s1(1) by simp
  from Cons.IH [OF s1(2) _ _ _ this] Cons.prems s1(3) show ?case by auto
qed auto

end

definition kpt_page :: "usize set \<Rightarrow> VirtAddr \<Rightarrow> bool" where
  "kpt_page R p \<longleftrightarrow> canonical p \<and> hd (indexes p) \<in> R \<and> va_align_page_down p = p"

definition kpt_mapped :: "'h frame_allocator \<Rightarrow> usize set \<Rightarrow> 'h kmem \<times> PageTable \<Rightarrow> VirtAddr set" where
  "kpt_mapped A R s = {p. kpt_page R p \<and> is_ok (fst (pt_translate A p (fst s) (snd s)))}"

definition kpt_inv :: "'h frame_allocator \<Rightarrow> ('h \<Rightarrow> usize set) \<Rightarrow> usize set \<Rightarrow> 'h kmem \<times> PageTable \<Rightarrow> bool" where
  "kpt_inv A live R s \<longleftrightarrow> frame_allocator_ok A live \<and> pt_inv R live (fst s) (snd s)"

lemma kpt_mapped_other:
  assumes "\<forall>b. canonical b \<and> hd (indexes b) \<in> R \<and> va_align_page_down b \<noteq> p \<longrightarrow>
      fst (pt_translate A b m' pt') = fst (pt_translate A b m pt)"
  shows "kpt_mapped A R (m', pt') - {p} = kpt_mapped A R (m, pt) - {p}"
  using assms by (auto simp: kpt_mapped_def kpt_page_def)

lemma kpt_map_law:
  assumes inv: "kpt_inv A live R s" and p: "kpt_page R p" and f: "kpt_map A p s = (r, s')"
  shows "kpt_inv A live R s' \<and> (r = Ok () \<and> kpt_mapped A R s' = insert p (kpt_mapped A R s) \<or>
     r = Fail NotEnoughMem \<and> kpt_mapped A R s - {p} \<subseteq> kpt_mapped A R s' \<and> kpt_mapped A R s' \<subseteq> kpt_mapped A R s)"
proof -
  obtain m pt where s: "s = (m, pt)" by fastforce
  have ok: "frame_allocator_ok A live" and i: "pt_inv R live m pt" using inv s by (simp_all add: kpt_inv_def)
  have pp: "canonical p" "hd (indexes p) \<in> R" "va_align_page_down p = p" using p by (simp_all add: kpt_page_def)
  obtain r1 m1 where al: "PhysFrame_alloc A m = (r1, m1)" by fastforce
  show ?thesis
  proof (cases r1)
    case (Inl e)
    note fail = alloc_fail_keeps_pt_inv [OF ok i al [unfolded Inl]]
    have "kpt_mapped A R (m1, pt) = kpt_mapped A R (m, pt)"
      using extends_translate [OF fail(3) i] by (auto simp: kpt_mapped_def kpt_page_def)
    then show ?thesis using f s al Inl fail ok by (auto simp: kpt_map_def kpt_inv_def)
  next
    case (Inr fr)
    note new = alloc_keeps_pt_inv [OF ok i al [unfolded Inr]]
    have m1: "kpt_mapped A R (m1, pt) = kpt_mapped A R (m, pt)"
      using extends_translate [OF new(3) i] by (auto simp: kpt_mapped_def kpt_page_def)
    have perm: "(PP_G OR PP_R OR PP_W) AND PP_all = PP_G OR PP_R OR PP_W" by (simp add: PP_all_def perm_flag_defs)
    from pt_map_spec [OF ok new(1) pp(1,2) new(2) perm] obtain r2 m2 pt2 where
      mp: "pt_map A p fr (PP_G OR PP_R OR PP_W) m1 pt = (r2, m2, pt2)" "pt_inv R live m2 pt2"
      "r2 = Ok () \<or> r2 = Fail NotEnoughMem"
      "is_ok (fst (pt_translate A p m2 pt2)) \<longleftrightarrow> r2 = Ok ()"
      "\<forall>b. canonical b \<and> hd (indexes b) \<in> R \<and> va_align_page_down b \<noteq> p \<longrightarrow>
         fst (pt_translate A b m2 pt2) = fst (pt_translate A b m1 pt)" using pp(3) by auto
    note other = kpt_mapped_other [OF mp(5)]
    have rs: "r = r2" "s' = (m2, pt2)" using f s al Inr mp(1) by (simp_all add: kpt_map_def)
    have "p \<in> kpt_mapped A R (m2, pt2) \<longleftrightarrow> r2 = Ok ()" using mp(4) p by (simp add: kpt_mapped_def)
    then show ?thesis using rs mp(2,3) ok other m1 s unfolding kpt_inv_def by auto
  qed
qed

lemma kpt_unmap_law:
  assumes inv: "kpt_inv A live R s" and p: "kpt_page R p" "p \<in> kpt_mapped A R s" and f: "kpt_unmap A p s = (r, s')"
  shows "r = Ok () \<and> kpt_inv A live R s' \<and> kpt_mapped A R s' = kpt_mapped A R s - {p}"
proof -
  obtain m pt where s: "s = (m, pt)" by fastforce
  have ok: "frame_allocator_ok A live" and i: "pt_inv R live m pt" using inv s by (simp_all add: kpt_inv_def)
  have pp: "canonical p" "hd (indexes p) \<in> R" "va_align_page_down p = p" using p by (simp_all add: kpt_page_def)
  have tr: "is_ok (fst (pt_translate A p m pt))" using p(2) s by (simp add: kpt_mapped_def)
  have "rc_wf live m (pt_frames pt)" using i by (simp add: pt_inv_def pt_wf_def)
  from tr obtain f where f': "pt_frames pt (va_align_page_down p) = Some f"
    unfolding pt_translate_leaf [OF \<open>rc_wf live m (pt_frames pt)\<close>] by (auto split: option.splits)
  note spec = pt_unmap_spec [OF ok i pp(1,2), unfolded pp(3) f' [unfolded pp(3)] option.case]
  obtain r1 m' pt' where r1: "pt_unmap A p m pt = (r1, m', pt')"
    and inv': "pt_inv R live m' pt'" and "is_ok (fst (pt_translate A p m pt)) \<longrightarrow> r1 = Ok ()"
    and gone: "\<forall>b. va_align_page_down b = p \<longrightarrow> pt_translate A b m' pt' = (Fail InvalidVirtAddr, m')"
    and other: "\<forall>b. canonical b \<and> hd (indexes b) \<in> R \<and> va_align_page_down b \<noteq> p \<longrightarrow>
       fst (pt_translate A b m' pt') = fst (pt_translate A b m pt)"
    using spec by blast
  then have r1': "r1 = Ok ()" using tr by simp
  have "pt_translate A p m' pt' = (Fail InvalidVirtAddr, m')" using gone pp(3) by simp
  then have "p \<notin> kpt_mapped A R (m', pt')" by (simp add: kpt_mapped_def)
  with kpt_mapped_other [OF other] have "kpt_mapped A R (m', pt') = kpt_mapped A R (m, pt) - {p}" by simp
  moreover have "r = Ok ()" "s' = (m', pt')" using f r1 r1' by (simp_all add: kpt_unmap_def s)
  ultimately show ?thesis using inv' ok s by (simp add: kpt_inv_def)
qed

interpretation kpt: page_mapper "kpt_map A" "kpt_unmap A" "kpt_inv A live R" "kpt_mapped A R" "kpt_page R"
  for A :: "'h frame_allocator" and live R
  by unfold_locales (rule kpt_map_law kpt_unmap_law; assumption)+

section \<open>Blocks\<close>

definition alloc_blocks :: "StackAllocator \<Rightarrow> (VirtAddr \<times> usize) set" where
  "alloc_blocks sa = {(va_sub (va_sub top sz) (sa_guard_size sa), sz) |top sz. sa_allocated sa top = Some sz}"

definition cache_blocks :: "StackAllocator \<Rightarrow> (VirtAddr \<times> usize) set" where
  "cache_blocks sa = {(va, sz). \<exists>q. sa_cached sa sz = Some q \<and> va \<in> set q}"

text \<open>The addresses of a block: its guard and the stack above.\<close>

definition span :: "usize \<Rightarrow> VirtAddr \<times> usize \<Rightarrow> nat set" where
  "span g b = {unat (va_as_usize (fst b))..<unat (va_as_usize (fst b)) + unat (snd b) + unat g}"

definition block_ok :: "StackAllocator \<Rightarrow> VirtAddr \<times> usize \<Rightarrow> bool" where
  "block_ok sa b \<longleftrightarrow>
     4096 dvd unat (va_as_usize (fst b)) \<and> 4096 dvd unat (snd b) \<and>
     unat (va_as_usize (fst (sa_region sa))) - unat (sa_guard_size sa) \<le> unat (va_as_usize (fst b)) \<and>
     unat (va_as_usize (fst b)) + unat (snd b) + unat (sa_guard_size sa) \<le> unat (sa_next sa) \<and>
     unat (va_as_usize (fst b)) + unat (snd b) \<le> unat (va_as_usize (fst (sa_region sa))) + unat (snd (sa_region sa))"

definition region_ok :: "StackAllocator \<Rightarrow> bool" where
  "region_ok sa \<longleftrightarrow>
     0 < unat (sa_guard_size sa) \<and> 4096 dvd unat (sa_guard_size sa) \<and> 4096 dvd unat (sa_next sa) \<and>
     unat (sa_guard_size sa) \<le> unat (va_as_usize (fst (sa_region sa))) \<and>
     unat (va_as_usize (fst (sa_region sa))) - unat (sa_guard_size sa) \<le> unat (sa_next sa) \<and>
     unat (va_as_usize (fst (sa_region sa))) + unat (snd (sa_region sa)) < 18446744073709551616"

definition sa_inv :: "StackAllocator \<Rightarrow> bool" where
  "sa_inv sa \<longleftrightarrow>
     region_ok sa \<and>
     (\<forall>b\<in>alloc_blocks sa \<union> cache_blocks sa. block_ok sa b) \<and>
     (\<forall>b\<in>alloc_blocks sa \<union> cache_blocks sa. \<forall>c\<in>alloc_blocks sa \<union> cache_blocks sa.
        b \<noteq> c \<longrightarrow> span (sa_guard_size sa) b \<inter> span (sa_guard_size sa) c = {}) \<and>
     alloc_blocks sa \<inter> cache_blocks sa = {} \<and>
     (\<forall>sz q. sa_cached sa sz = Some q \<longrightarrow> distinct q) \<and>
     (\<forall>top sz. sa_allocated sa top = Some sz \<longrightarrow> unat sz + unat (sa_guard_size sa) \<le> unat (va_as_usize top))"

text \<open>The room the bump pointer needs so that its arithmetic does not wrap.\<close>

definition sa_room :: "StackAllocator \<Rightarrow> usize \<Rightarrow> bool" where
  "sa_room sa sz0 \<longleftrightarrow> unat sz0 + 4096 < 18446744073709551616 \<and>
     unat (sa_next sa) + (unat sz0 + 4096) + unat (sa_guard_size sa) < 18446744073709551616"

lemma next_multiple_of_page:
  assumes "unat a + 4096 < 18446744073709551616"
  shows "4096 dvd unat (next_multiple_of a PAGE_SIZE)" and "unat (next_multiple_of a PAGE_SIZE) < unat a + 4096"
    and "unat a \<le> unat (next_multiple_of a PAGE_SIZE)"
proof -
  have m: "unat (a mod 4096) = unat a mod 4096" by (simp add: unat_mod_distrib)
  have z: "a mod 4096 = 0 \<longleftrightarrow> unat a mod 4096 = 0" by (metis m unat_eq_0)
  let ?n = "if unat a mod 4096 = 0 then unat a else unat a + (4096 - unat a mod 4096)"
  have "unat (4096 - a mod 4096 :: usize) = 4096 - unat a mod 4096"
    by (subst unat_sub_usize) (simp_all add: m word_le_nat_alt)
  then have n: "unat (next_multiple_of a PAGE_SIZE) = ?n"
    using assms unfolding next_multiple_of_def PAGE_SIZE_def z
    by (simp add: unat_add_usize)
  have "4096 dvd ?n"
  proof -
    have "unat a + (4096 - unat a mod 4096) = 4096 * (unat a div 4096 + 1)"
    proof -
      have "q * 4096 + r + (4096 - r) = 4096 * (q + 1)" if "r < 4096" for q r :: nat using that by simp
      from this [of "unat a mod 4096" "unat a div 4096"] show ?thesis by simp
    qed
    then show ?thesis by (auto simp: mod_0_imp_dvd)
  qed
  then show "4096 dvd unat (next_multiple_of a PAGE_SIZE)" "unat (next_multiple_of a PAGE_SIZE) < unat a + 4096"
    "unat a \<le> unat (next_multiple_of a PAGE_SIZE)" unfolding n by auto
qed

lemma next_multiple_of_id: "4096 dvd unat a \<Longrightarrow> next_multiple_of a PAGE_SIZE = a"
proof -
  assume "4096 dvd unat a"
  then have "unat (a mod 4096) = 0" by (simp add: unat_mod_distrib)
  then have "a mod 4096 = 0" by (metis unat_eq_0)
  then show ?thesis by (simp add: next_multiple_of_def PAGE_SIZE_def)
qed

text \<open>What picking a block yields: a block apart from all others.\<close>

definition fresh_block :: "StackAllocator \<Rightarrow> VirtAddr \<times> usize \<Rightarrow> bool" where
  "fresh_block sa b \<longleftrightarrow> block_ok sa b \<and> b \<notin> alloc_blocks sa \<union> cache_blocks sa \<and>
     (\<forall>c\<in>alloc_blocks sa \<union> cache_blocks sa. span (sa_guard_size sa) b \<inter> span (sa_guard_size sa) c = {})"

lemma sa_pick_cached:
  assumes inv: "sa_inv sa" and q: "sa_cached sa sz = Some (va # rest)"
  defines "sa1 \<equiv> sa\<lparr>sa_cached := (sa_cached sa)(sz \<mapsto> rest)\<rparr>"
  shows "sa_inv sa1" and "fresh_block sa1 (va, sz)"
proof -
  have "distinct (va # rest)" using inv q unfolding sa_inv_def by blast
  then have c: "cache_blocks sa1 = cache_blocks sa - {(va, sz)}" and b: "(va, sz) \<in> cache_blocks sa"
    using q by (auto simp: cache_blocks_def sa1_def)
  have a: "alloc_blocks sa1 = alloc_blocks sa" and ok: "block_ok sa1 = block_ok sa" "region_ok sa1 = region_ok sa"
    and f: "sa_guard_size sa1 = sa_guard_size sa" "sa_allocated sa1 = sa_allocated sa"
    by (auto simp: alloc_blocks_def sa1_def block_ok_def region_ok_def fun_eq_iff)
  have d: "\<forall>z r. sa_cached sa1 z = Some r \<longrightarrow> distinct r"
    using inv \<open>distinct (va # rest)\<close> by (auto simp: sa1_def sa_inv_def)
  show "sa_inv sa1"
    using inv d unfolding sa_inv_def a c ok f by blast
  show "fresh_block sa1 (va, sz)"
  proof -
    have "(va, sz) \<notin> alloc_blocks sa" using inv b unfolding sa_inv_def by blast
    then show ?thesis using inv b unfolding sa_inv_def fresh_block_def a c ok f by (metis DiffE UnCI UnE insertI1)
  qed
qed

lemma sa_pick_bump:
  assumes inv: "sa_inv sa" and q: "sa_cached sa sz = None \<or> sa_cached sa sz = Some []"
    and sz: "4096 dvd unat sz" and room: "unat (sa_next sa) + unat sz + unat (sa_guard_size sa) < 18446744073709551616"
    and fits: "\<not> sa_next sa + sz > va_as_usize (va_add (fst (sa_region sa)) (snd (sa_region sa)))"
  defines "sa1 \<equiv> sa\<lparr>sa_cached := (sa_cached sa)(sz \<mapsto> []), sa_next := sa_next sa + (sz + sa_guard_size sa)\<rparr>"
  shows "sa_inv sa1" and "fresh_block sa1 (va_new (sa_next sa), sz)"
proof -
  have reg: "region_ok sa" using inv by (simp add: sa_inv_def)
  have n: "unat (sa_next sa1) = unat (sa_next sa) + unat sz + unat (sa_guard_size sa)"
    using room by (simp add: sa1_def unat_add_usize flip: add.assoc)
  have e: "unat (va_as_usize (va_add (fst (sa_region sa)) (snd (sa_region sa)))) =
      unat (va_as_usize (fst (sa_region sa))) + unat (snd (sa_region sa))"
    using reg by (simp add: region_ok_def va_add_def unat_add_usize)
  have end_ok: "unat (sa_next sa) + unat sz \<le> unat (va_as_usize (fst (sa_region sa))) + unat (snd (sa_region sa))"
    using fits room unfolding word_less_nat_alt e by (simp add: unat_add_usize not_less)
  have c: "cache_blocks sa1 = cache_blocks sa" using q by (auto simp: cache_blocks_def sa1_def)
  have a: "alloc_blocks sa1 = alloc_blocks sa" and f: "sa_guard_size sa1 = sa_guard_size sa" "sa_allocated sa1 = sa_allocated sa"
    by (auto simp: alloc_blocks_def sa1_def)
  have ok: "block_ok sa1 b" if "block_ok sa b" for b
    using that n by (simp add: block_ok_def sa1_def)
  have reg1: "region_ok sa1"
    using reg n sz unfolding region_ok_def by (simp add: sa1_def)
  have d: "\<forall>z r. sa_cached sa1 z = Some r \<longrightarrow> distinct r" using inv by (auto simp: sa1_def sa_inv_def)
  show "sa_inv sa1" using inv reg1 ok d unfolding sa_inv_def a c f by blast
  have new: "block_ok sa1 (va_new (sa_next sa), sz)"
    using reg n sz end_ok by (simp add: block_ok_def region_ok_def va_new_def sa1_def)
  have below: "span (sa_guard_size sa) (va_new (sa_next sa), sz) \<inter> span (sa_guard_size sa) b = {}" if "block_ok sa b" for b
    using that by (auto simp: span_def block_ok_def va_new_def)
  have ne: "span (sa_guard_size sa) (va_new (sa_next sa), sz) \<noteq> {}" using reg by (simp add: span_def region_ok_def)
  show "fresh_block sa1 (va_new (sa_next sa), sz)"
    using inv new below ne unfolding sa_inv_def fresh_block_def a c f by (metis Int_absorb)
qed

text \<open>What picking a block yields: a block apart from all others.\<close>

lemma sa_pick_ok:
  assumes inv: "sa_inv sa" and sz: "4096 dvd unat sz"
    and room: "unat (sa_next sa) + unat sz + unat (sa_guard_size sa) < 18446744073709551616"
    and pick: "sa_pick sz sa = (r, sa1)"
  shows "sa_inv sa1" "sa_allocated sa1 = sa_allocated sa" "sa_guard_size sa1 = sa_guard_size sa" "sa_region sa1 = sa_region sa"
    and "r = Fail NotEnoughMem \<or> (\<exists>va. r = Ok va \<and> fresh_block sa1 (va, sz))"
proof -
  have "sa_inv sa1 \<and> sa_allocated sa1 = sa_allocated sa \<and> sa_guard_size sa1 = sa_guard_size sa \<and> sa_region sa1 = sa_region sa \<and>
    (r = Fail NotEnoughMem \<or> (\<exists>va. r = Ok va \<and> fresh_block sa1 (va, sz)))"
  proof (cases "case sa_cached sa sz of None \<Rightarrow> [] | Some q \<Rightarrow> q")
    case (Cons va rest)
    then have q: "sa_cached sa sz = Some (va # rest)" by (auto split: option.splits)
    with sa_pick_cached [OF inv q] pick show ?thesis by (auto simp: sa_pick_def)
  next
    case Nil
    then have q: "sa_cached sa sz = None \<or> sa_cached sa sz = Some []" by (auto split: option.splits)
    show ?thesis
    proof (cases "sa_next sa + sz > va_as_usize (va_add (fst (sa_region sa)) (snd (sa_region sa)))")
      case True
      let ?sa = "sa\<lparr>sa_cached := (sa_cached sa)(sz \<mapsto> [])\<rparr>"
      have c: "cache_blocks ?sa = cache_blocks sa" using q by (auto simp: cache_blocks_def)
      have a: "alloc_blocks ?sa = alloc_blocks sa" "block_ok ?sa = block_ok sa" "region_ok ?sa = region_ok sa"
        by (auto simp: alloc_blocks_def block_ok_def region_ok_def fun_eq_iff)
      have "sa_inv ?sa" using inv unfolding sa_inv_def a c by simp
      then show ?thesis using True Nil pick by (auto simp: sa_pick_def Let_def)
    next
      case False
      with sa_pick_bump [OF inv q sz room False] pick Nil show ?thesis by (auto simp: sa_pick_def Let_def)
    qed
  qed
  then show "sa_inv sa1" "sa_allocated sa1 = sa_allocated sa" "sa_guard_size sa1 = sa_guard_size sa"
    "sa_region sa1 = sa_region sa" "r = Fail NotEnoughMem \<or> (\<exists>va. r = Ok va \<and> fresh_block sa1 (va, sz))" by simp_all
qed

lemma sa_deallocate_blocks:
  assumes inv: "sa_inv sa" and tp: "sa_allocated sa tp = Some sz"
  defines "va \<equiv> va_sub (va_sub tp sz) (sa_guard_size sa)"
  shows "(va, sz) \<in> alloc_blocks sa" "unat (va_as_usize va) + unat sz + unat (sa_guard_size sa) = unat (va_as_usize tp)"
    "va_add (va_add va sz) (sa_guard_size sa) = tp"
proof -
  show "(va, sz) \<in> alloc_blocks sa" using tp by (auto simp: alloc_blocks_def va_def)
  have le: "unat sz + unat (sa_guard_size sa) \<le> unat (va_as_usize tp)" using inv tp by (simp add: sa_inv_def)
  have "unat (va_as_usize tp - sz) = unat (va_as_usize tp) - unat sz"
    using le by (intro unat_sub_usize) (simp add: word_le_nat_alt)
  moreover from this have "unat (va_as_usize tp - sz - sa_guard_size sa) =
      unat (va_as_usize tp) - unat sz - unat (sa_guard_size sa)"
    using le by (subst unat_sub_usize) (simp_all add: word_le_nat_alt)
  ultimately show "unat (va_as_usize va) + unat sz + unat (sa_guard_size sa) = unat (va_as_usize tp)"
    using le by (simp add: va_def va_sub_def)
  show "va_add (va_add va sz) (sa_guard_size sa) = tp" by (simp add: va_def va_add_def va_sub_def)
qed

lemma alloc_blocks_image:
  "alloc_blocks sa = (\<lambda>(t, z). (va_sub (va_sub t z) (sa_guard_size sa), z)) ` {(t, z). sa_allocated sa t = Some z}"
  by (auto simp: alloc_blocks_def)

text \<open>Recording the picked block as allocated.\<close>

lemma sa_record_block:
  assumes inv: "sa_inv sa" and fresh: "fresh_block sa (va, sz)"
  defines "tp \<equiv> va_add (va_add va sz) (sa_guard_size sa)"
  shows "sa_allocated sa tp = None"
    and "unat (va_as_usize tp) = unat (va_as_usize va) + unat sz + unat (sa_guard_size sa)"
    and "alloc_blocks (sa\<lparr>sa_allocated := (sa_allocated sa)(tp \<mapsto> sz)\<rparr>) = insert (va, sz) (alloc_blocks sa)"
    and "sa_inv (sa\<lparr>sa_allocated := (sa_allocated sa)(tp \<mapsto> sz)\<rparr>)"
proof -
  let ?sa = "sa\<lparr>sa_allocated := (sa_allocated sa)(tp \<mapsto> sz)\<rparr>"
  have b: "unat (va_as_usize va) + unat sz + unat (sa_guard_size sa) \<le> unat (sa_next sa)" "0 < unat (sa_guard_size sa)"
    using fresh inv by (simp_all add: fresh_block_def block_ok_def sa_inv_def region_ok_def)
  show t: "unat (va_as_usize tp) = unat (va_as_usize va) + unat sz + unat (sa_guard_size sa)"
    using b unat_usize_less [of "sa_next sa"] by (simp add: tp_def va_add_def unat_add_usize)
  show none: "sa_allocated sa tp = None"
  proof (rule ccontr)
    assume "sa_allocated sa tp \<noteq> None"
    then obtain z where z: "sa_allocated sa tp = Some z" by auto
    let ?c = "(va_sub (va_sub tp z) (sa_guard_size sa), z)"
    note c = sa_deallocate_blocks [OF inv z]
    have "unat (va_as_usize tp) - 1 \<in> span (sa_guard_size sa) (va, sz) \<inter> span (sa_guard_size sa) ?c"
      using t c(2) b(2) by (auto simp: span_def)
    then show False using fresh c(1) unfolding fresh_block_def by blast
  qed
  have undo: "va_sub (va_sub tp sz) (sa_guard_size sa) = va" by (simp add: tp_def va_add_def va_sub_def)
  show al: "alloc_blocks ?sa = insert (va, sz) (alloc_blocks sa)"
  proof -
    have "{(t, z). ((sa_allocated sa)(tp \<mapsto> sz)) t = Some z} = insert (tp, sz) {(t, z). sa_allocated sa t = Some z}"
      using none by (auto split: if_splits)
    then show ?thesis using undo by (simp add: alloc_blocks_image)
  qed
  have same: "cache_blocks ?sa = cache_blocks sa" "block_ok ?sa = block_ok sa" "region_ok ?sa = region_ok sa"
    "sa_guard_size ?sa = sa_guard_size sa" "sa_cached ?sa = sa_cached sa"
    by (auto simp: cache_blocks_def block_ok_def region_ok_def fun_eq_iff)
  have tops: "\<forall>t z. sa_allocated ?sa t = Some z \<longrightarrow> unat z + unat (sa_guard_size ?sa) \<le> unat (va_as_usize t)"
    using inv t by (auto simp: sa_inv_def)
  show "sa_inv ?sa"
    using inv fresh tops unfolding sa_inv_def fresh_block_def al same by (simp add: Int_commute)
qed

lemma sa_remove_block:
  assumes inv: "sa_inv sa" and tp: "sa_allocated sa tp = Some sz"
  defines "va \<equiv> va_sub (va_sub tp sz) (sa_guard_size sa)"
    and "sa1 \<equiv> sa\<lparr>sa_allocated := (sa_allocated sa)(tp := None)\<rparr>"
  shows "sa_inv sa1" and "fresh_block sa1 (va, sz)"
proof -
  let ?f = "\<lambda>(t, z). (va_sub (va_sub t z) (sa_guard_size sa), z)"
  note b = sa_deallocate_blocks [OF inv tp, folded va_def]
  have inj: "inj ?f"
    by (rule injI) (auto simp: va_sub_def dest: VirtAddr.expand split: prod.splits)
  have "{(t, z). ((sa_allocated sa)(tp := None)) t = Some z} = {(t, z). sa_allocated sa t = Some z} - {(tp, sz)}"
    using tp by (auto split: if_splits)
  then have al: "alloc_blocks sa1 = alloc_blocks sa - {(va, sz)}"
    unfolding alloc_blocks_image sa1_def by (simp add: image_set_diff [OF inj] va_def)
  have same: "cache_blocks sa1 = cache_blocks sa" "block_ok sa1 = block_ok sa" "region_ok sa1 = region_ok sa"
    "sa_guard_size sa1 = sa_guard_size sa" "sa_cached sa1 = sa_cached sa"
    by (auto simp: sa1_def cache_blocks_def block_ok_def region_ok_def fun_eq_iff)
  have tops: "\<forall>t z. sa_allocated sa1 t = Some z \<longrightarrow> unat z + unat (sa_guard_size sa1) \<le> unat (va_as_usize t)"
    using inv by (auto simp: sa_inv_def sa1_def)
  show "sa_inv sa1" using inv tops unfolding sa_inv_def al same by blast
  have nc: "(va, sz) \<notin> cache_blocks sa" using inv b(1) unfolding sa_inv_def by blast
  show "fresh_block sa1 (va, sz)"
    using inv b(1) nc unfolding sa_inv_def fresh_block_def al same by (metis DiffE UnCI UnE insertI1)
qed

lemma sa_cache_block:
  assumes inv: "sa_inv sa" and fresh: "fresh_block sa (va, sz)"
  shows "sa_inv (sa\<lparr>sa_cached := (sa_cached sa)(sz \<mapsto> va # (case sa_cached sa sz of None \<Rightarrow> [] | Some q \<Rightarrow> q))\<rparr>)"
proof -
  let ?q = "case sa_cached sa sz of None \<Rightarrow> [] | Some q \<Rightarrow> q"
  let ?sa = "sa\<lparr>sa_cached := (sa_cached sa)(sz \<mapsto> va # ?q)\<rparr>"
  have c: "cache_blocks ?sa = insert (va, sz) (cache_blocks sa)"
    by (auto simp: cache_blocks_def split: option.splits if_splits)
  have a: "alloc_blocks ?sa = alloc_blocks sa" "block_ok ?sa = block_ok sa" "region_ok ?sa = region_ok sa"
    "sa_guard_size ?sa = sa_guard_size sa" "sa_allocated ?sa = sa_allocated sa"
    by (auto simp: alloc_blocks_def block_ok_def region_ok_def fun_eq_iff)
  have "distinct ?q" "va \<notin> set ?q"
    using inv fresh by (auto simp: sa_inv_def fresh_block_def cache_blocks_def split: option.splits)
  then have d: "\<forall>z r. sa_cached ?sa z = Some r \<longrightarrow> distinct r" using inv by (auto simp: sa_inv_def)
  show ?thesis using inv fresh d unfolding sa_inv_def fresh_block_def a c by (simp add: Int_commute)
qed

section \<open>Pages of a stack\<close>

lemma set_page_steps:
  assumes "4096 dvd unat sz"
  shows "set (page_steps 0 sz) = {i. 4096 dvd unat i \<and> i < sz}"
proof (rule set_eqI, rule iffI)
  obtain n where n: "unat sz = 4096 * n" using assms by (rule dvdE)
  have steps: "(unat sz - unat 0 + 4095) div 4096 = n" using n by simp
  fix i
  { assume "i \<in> set (page_steps 0 sz)"
    then obtain k where k: "k < n" "i = of_nat (4096 * k)" unfolding page_steps_def steps by auto
    have "4096 * k < 18446744073709551616" using k(1) n unat_usize_less [of sz] by simp
    then have "unat i = 4096 * k" by (simp add: k(2) unat_of_nat del: of_nat_mult)
    then show "i \<in> {i. 4096 dvd unat i \<and> i < sz}" using k(1) n by (simp add: word_less_nat_alt)
  next
    assume "i \<in> {i. 4096 dvd unat i \<and> i < sz}"
    then have d: "4096 dvd unat i" and lt: "unat i < unat sz" by (simp_all add: word_less_nat_alt)
    obtain k where k: "unat i = 4096 * k" using d by (rule dvdE)
    then have "k < n" using lt n by simp
    moreover have "i = 0 + of_nat (4096 * k)"
    proof -
      have "of_nat (unat i) = i" by simp
      then show ?thesis unfolding k by simp
    qed
    ultimately show "i \<in> set (page_steps 0 sz)" unfolding page_steps_def steps by auto }
qed

lemma stack_pages_region:
  assumes va: "4096 dvd unat (va_as_usize va)" "4096 dvd unat sz" "4096 dvd unat (sa_guard_size sa)"
    and fit: "unat (va_as_usize va) + unat sz + unat (sa_guard_size sa) < 18446744073709551616"
  shows "p \<in> set (stack_pages sa va sz) \<longleftrightarrow>
    4096 dvd unat (va_as_usize p) \<and> unat (va_as_usize va) + unat (sa_guard_size sa) \<le> unat (va_as_usize p) \<and>
    unat (va_as_usize p) < unat (va_as_usize va) + unat (sa_guard_size sa) + unat sz"
    (is "?l \<longleftrightarrow> ?r")
proof -
  let ?b = "va_as_usize va + sa_guard_size sa"
  have b: "unat ?b = unat (va_as_usize va) + unat (sa_guard_size sa)" using fit by (simp add: unat_add_usize)
  have in_iff: "p \<in> set (stack_pages sa va sz) \<longleftrightarrow> (\<exists>i. 4096 dvd unat i \<and> i < sz \<and> va_as_usize p = ?b + i)"
    unfolding stack_pages_def set_map set_page_steps [OF va(2)] by (cases p) (auto simp: va_add_def)
  show ?thesis
  proof
    assume ?l
    then obtain i where i: "4096 dvd unat i" "unat i < unat sz" "va_as_usize p = ?b + i"
      unfolding in_iff by (auto simp: word_less_nat_alt)
    have "unat (va_as_usize p) = unat ?b + unat i" unfolding i(3) using i(2) b fit by (simp add: unat_add_usize)
    then show ?r using i(1,2) b va by simp
  next
    assume r: ?r
    let ?i = "va_as_usize p - ?b"
    have u: "unat ?i = unat (va_as_usize p) - unat ?b"
      using r b by (intro unat_sub_usize) (simp add: word_le_nat_alt)
    have "4096 dvd unat ?i" unfolding u b using r va by (simp add: dvd_diff_nat)
    moreover have "?i < sz" unfolding word_less_nat_alt u using r b by linarith
    moreover have "va_as_usize p = ?b + ?i" by simp
    ultimately show ?l unfolding in_iff by blast
  qed
qed

text \<open>The executor stack region covers the root indexes 384 to 507.\<close>

lemma executor_page:
  assumes "4096 dvd unat (va_as_usize p)" "18446743936270598144 \<le> unat (va_as_usize p)"
    "unat (va_as_usize p) < 18446744069414584320" and R: "{384..<508} \<subseteq> R"
  shows "kpt_page R p"
proof -
  have "canonical p" using assms(2) by (simp add: canonical_def REMAP_MEM_OFFSET_def word_le_nat_alt)
  moreover have "va_align_page_down p = p"
    using assms(1) by (cases p) (simp add: va_align_page_down_def align_page_down_id)
  moreover have "hd (indexes p) \<in> {384..<508}"
  proof -
    let ?n = "unat (va_as_usize p) div 1073741824"
    have "17179869056 \<le> ?n" "?n < 17179869180" using assms(2,3) by simp_all
    moreover have "384 \<le> n mod 512 \<and> n mod 512 < 508" if "17179869056 \<le> n" "n < 17179869180" for n :: nat
    proof -
      have "n = (n - 17179868672) + 33554431 * 512" using that by simp
      then have "n mod 512 = (n - 17179868672) mod 512" by (metis mod_mult_self1)
      moreover have "(n - 17179868672) mod 512 = n - 17179868672" using that by simp
      ultimately show ?thesis using that by linarith
    qed
    ultimately show ?thesis
      using hd_indexes [of p] by (simp add: word_le_nat_alt word_less_nat_alt)
  qed
  ultimately show ?thesis using R by (auto simp: kpt_page_def)
qed

text \<open>Where the block of an executor stack lies while the bump pointer is inside the region.\<close>

lemma executor_block:
  assumes fresh: "fresh_block sa (va, sz)" and inv: "sa_inv sa"
    and reg: "sa_region sa = sa_region EXECUTOR_STACK_ALLOCATOR"
    and nx: "unat (sa_next sa) \<le> 18446744069414584320"
  shows "4096 dvd unat (va_as_usize va)" "4096 dvd unat (sa_guard_size sa)"
    "18446743936270598144 \<le> unat (va_as_usize va) + unat (sa_guard_size sa)"
    "unat (va_as_usize va) + unat sz + unat (sa_guard_size sa) \<le> 18446744069414584320"
proof -
  have b: "block_ok sa (va, sz)" using fresh by (simp add: fresh_block_def)
  have r: "unat (va_as_usize (fst (sa_region sa))) = 18446743936270598144"
    by (simp add: reg EXECUTOR_STACK_ALLOCATOR_def sa_new_def Let_def va_new_def EXECUTOR_STACK_REGION_def)
  show "4096 dvd unat (va_as_usize va)" "4096 dvd unat (sa_guard_size sa)"
    using b inv by (simp_all add: block_ok_def sa_inv_def region_ok_def)
  show "18446743936270598144 \<le> unat (va_as_usize va) + unat (sa_guard_size sa)"
    using b unfolding block_ok_def r by auto
  show "unat (va_as_usize va) + unat sz + unat (sa_guard_size sa) \<le> 18446744069414584320"
    using b nx unfolding block_ok_def by auto
qed

lemma align_page_down_ge:
  assumes "4096 dvd lo" "lo \<le> unat a"
  shows "lo \<le> unat (align_page_down a)"
proof -
  have "lo div 4096 * 4096 \<le> unat a div 4096 * 4096" using assms(2) by (intro mult_le_mono1 div_le_mono)
  then show ?thesis using assms(1) by (simp add: unat_align_page_down)
qed

lemma translate_page:
  assumes "rc_wf live m (pt_frames pt)"
  shows "is_ok (fst (pt_translate A a m pt)) \<longleftrightarrow> is_ok (fst (pt_translate A (va_align_page_down a) m pt))"
proof -
  have "va_align_page_down (va_align_page_down a) = va_align_page_down a" by (simp add: va_align_page_down_def)
  then show ?thesis unfolding pt_translate_leaf [OF assms] indexes_align by (simp split: option.split)
qed

section \<open>Properties\<close>

text \<open>
  C9. Allocating keeps the invariant. A successful allocation records a stack of the rounded
  size under a top that was not in use, keeps every other stack, and its guard and stack are
  disjoint from the guard and stack of every other allocated block; the stack ends at most
  one guard beyond the end of the region.
\<close>

theorem sa_allocate_separate:
  assumes inv: "sa_inv sa" and room: "sa_room sa sz0" and al: "sa_allocate mapf sz0 sa s = (r, sa', s')"
  defines "sz \<equiv> next_multiple_of sz0 PAGE_SIZE"
  shows "sa_inv sa' \<and>
    (case r of Inl _ \<Rightarrow> True
     | Inr tp \<Rightarrow> sa_allocated sa tp = None \<and> sa_allocated sa' = (sa_allocated sa)(tp \<mapsto> sz) \<and> unat sz0 \<le> unat sz \<and>
         unat (va_as_usize tp) \<le> unat (va_as_usize (fst (sa_region sa))) + unat (snd (sa_region sa)) + unat (sa_guard_size sa) \<and>
         (\<forall>t z. sa_allocated sa t = Some z \<longrightarrow>
            {unat (va_as_usize tp) - unat sz - unat (sa_guard_size sa)..<unat (va_as_usize tp)} \<inter>
            {unat (va_as_usize t) - unat z - unat (sa_guard_size sa)..<unat (va_as_usize t)} = {}))"
proof -
  have sz: "4096 dvd unat sz" "unat sz0 \<le> unat sz" and
    rm: "unat (sa_next sa) + unat sz + unat (sa_guard_size sa) < 18446744073709551616"
    using next_multiple_of_page [of sz0] room unfolding sz_def sa_room_def by simp_all
  obtain r1 sa1 where pick: "sa_pick sz sa = (r1, sa1)" by fastforce
  note p = sa_pick_ok [OF inv sz(1) rm pick]
  from p(5) show ?thesis
  proof (elim disjE exE conjE)
    assume "r1 = Fail NotEnoughMem"
    then show ?thesis using al pick p(1) by (auto simp: sa_allocate_def Let_def sz_def)
  next
    fix va assume r1: "r1 = Ok va" and fresh: "fresh_block sa1 (va, sz)"
    define tp where "tp = va_add (va_add va sz) (sa_guard_size sa1)"
    note rec = sa_record_block [OF p(1) fresh, folded tp_def]
    have sa': "sa' = sa1\<lparr>sa_allocated := (sa_allocated sa1)(tp \<mapsto> sz)\<rparr>" and r: "r = Ok tp \<or> \<not> is_ok r"
      using al pick r1 by (auto simp: sa_allocate_def Let_def sz_def tp_def split: prod.splits sum.splits)
    have bound: "unat (va_as_usize tp) \<le> unat (va_as_usize (fst (sa_region sa))) + unat (snd (sa_region sa)) + unat (sa_guard_size sa)"
      using fresh rec(2) p(3,4) by (simp add: fresh_block_def block_ok_def)
    have disj: "{unat (va_as_usize tp) - unat sz - unat (sa_guard_size sa)..<unat (va_as_usize tp)} \<inter>
        {unat (va_as_usize t) - unat z - unat (sa_guard_size sa)..<unat (va_as_usize t)} = {}"
      if t: "sa_allocated sa t = Some z" for t z
    proof -
      have "sa_allocated sa1 t = Some z" using t p(2) by simp
      note b = sa_deallocate_blocks [OF p(1) this]
      have "span (sa_guard_size sa1) (va, sz) \<inter> span (sa_guard_size sa1) (va_sub (va_sub t z) (sa_guard_size sa1), z) = {}"
        using fresh b(1) unfolding fresh_block_def by blast
      then show ?thesis using b(2) rec(2) p(3) by (simp add: span_def flip: b(2))
    qed
    then show ?thesis
      using r rec(1,4) p(2) sa' sz(2) bound by (auto simp: is_ok_def split: sum.splits)
  qed
qed

lemma executor_inv: "sa_inv EXECUTOR_STACK_ALLOCATOR"
proof -
  have "alloc_blocks EXECUTOR_STACK_ALLOCATOR = {}" "cache_blocks EXECUTOR_STACK_ALLOCATOR = {}"
    by (simp_all add: alloc_blocks_def cache_blocks_def EXECUTOR_STACK_ALLOCATOR_def sa_new_def Let_def)
  then show ?thesis
    by (simp add: sa_inv_def region_ok_def)
      (simp add: EXECUTOR_STACK_ALLOCATOR_def sa_new_def Let_def next_multiple_of_def EXECUTOR_STACK_SIZE_def
        EXECUTOR_STACK_REGION_def PAGE_SIZE_def va_new_def)
qed

lemma executor_room: "sa_room EXECUTOR_STACK_ALLOCATOR EXECUTOR_STACK_SIZE"
  by (simp add: sa_room_def EXECUTOR_STACK_ALLOCATOR_def sa_new_def Let_def next_multiple_of_def EXECUTOR_STACK_SIZE_def
        EXECUTOR_STACK_REGION_def PAGE_SIZE_def va_new_def)

theorem sa_allocate_separate_witness:
  "sa_inv (fst (snd (sa_allocate (\<lambda>_ s. (Ok (), s)) EXECUTOR_STACK_SIZE EXECUTOR_STACK_ALLOCATOR ())))"
proof -
  obtain r sa' where al: "sa_allocate (\<lambda>_ s. (Ok (), s)) EXECUTOR_STACK_SIZE EXECUTOR_STACK_ALLOCATOR () = (r, sa', ())"
    by (metis old.unit.exhaust prod_cases3)
  from sa_allocate_separate [OF executor_inv executor_room al] al show ?thesis by simp
qed

text \<open>
  Deallocating a recorded stack keeps the invariant; the next allocation of that size
  takes the same block again and returns the same top if its pages can be mapped, leaving
  the bump pointer alone. A top that is not recorded is refused without any change.
\<close>

theorem sa_deallocate_reuse:
  fixes s :: 's
  assumes inv: "sa_inv sa"
  shows "case sa_allocated sa tp of
      None \<Rightarrow> sa_deallocate unmapf tp sa s = (Fail InvalidVirtAddr, sa, s)
    | Some sz \<Rightarrow> (case sa_deallocate unmapf tp sa s of
        (Inl e, sa', s') \<Rightarrow> sa_inv sa' \<and> sa_allocated sa' = (sa_allocated sa)(tp := None)
      | (Inr _, sa', s') \<Rightarrow> sa_inv sa' \<and> sa_allocated sa' = (sa_allocated sa)(tp := None) \<and>
          (\<forall>mapf (s1 :: 's) r sa2 s2. sa_allocate mapf sz sa' s1 = (r, sa2, s2) \<longrightarrow>
             (r = Ok tp \<or> \<not> is_ok r) \<and> sa_next sa2 = sa_next sa \<and> sa_allocated sa2 = sa_allocated sa))"
proof (cases "sa_allocated sa tp")
  case None
  then show ?thesis by (simp add: sa_deallocate_def)
next
  case (Some sz)
  define sa1 where "sa1 = sa\<lparr>sa_allocated := (sa_allocated sa)(tp := None)\<rparr>"
  define va where "va = va_sub (va_sub tp sz) (sa_guard_size sa)"
  note rm = sa_remove_block [OF inv Some, folded sa1_def va_def]
  note b = sa_deallocate_blocks [OF inv Some, folded va_def]
  let ?sa' = "sa1\<lparr>sa_cached := (sa_cached sa1)(sz \<mapsto> va # (case sa_cached sa1 sz of None \<Rightarrow> [] | Some q \<Rightarrow> q))\<rparr>"
  have inv': "sa_inv ?sa'" by (rule sa_cache_block [OF rm])
  have "block_ok sa (va, sz)" using inv b(1) unfolding sa_inv_def by blast
  then have nm: "next_multiple_of sz PAGE_SIZE = sz" by (simp add: block_ok_def next_multiple_of_id)
  have reuse: "(r = Ok tp \<or> \<not> is_ok r) \<and> sa_next sa2 = sa_next sa \<and> sa_allocated sa2 = sa_allocated sa"
    if "sa_allocate mapf sz ?sa' s1 = (r, sa2, s2)" for mapf and s1 :: 's and r sa2 s2
    using that b(3) Some
    by (auto simp: sa_allocate_def nm sa_pick_def Let_def sa1_def fun_upd_idem split: prod.splits sum.splits)
  have alloc: "sa_allocated ?sa' = (sa_allocated sa)(tp := None)" "sa_allocated sa1 = (sa_allocated sa)(tp := None)"
    by (simp_all add: sa1_def)
  obtain r1 s1 where each: "each_page unmapf (stack_pages sa va sz) s = (r1, s1)" by (metis surj_pair)
  show ?thesis
  proof (cases r1)
    case (Inl e)
    then have "sa_deallocate unmapf tp sa s = (Inl e, sa1, s1)"
      using Some each by (simp add: sa_deallocate_def Let_def va_def sa1_def)
    then show ?thesis using rm(1) alloc(2) Some by simp
  next
    case (Inr u)
    then have "sa_deallocate unmapf tp sa s = (Ok (), ?sa', s1)"
      using Some each by (simp add: sa_deallocate_def Let_def va_def sa1_def)
    then show ?thesis using inv' alloc(1) Some reuse by (simp only: option.case prod.case sum.case) blast
  qed
qed

theorem sa_deallocate_reuse_witness:
  "sa_deallocate (\<lambda>_ s. (Ok (), s)) (VirtAddr 0) EXECUTOR_STACK_ALLOCATOR () =
     (Fail InvalidVirtAddr, EXECUTOR_STACK_ALLOCATOR, ())"
  using sa_deallocate_reuse [OF executor_inv, where tp = "VirtAddr 0" and unmapf = "\<lambda>_ s. (Ok (), s)" and s = "()"]
  by (simp add: EXECUTOR_STACK_ALLOCATOR_def sa_new_def Let_def)

text \<open>
  While the bump pointer leaves room in the region, allocating an executor stack through
  the kernel page table keeps the page table's invariant and ends either for lack of memory
  or with every address of the stack translatable; pages that were mapped stay mapped.
\<close>

theorem executor_stack_mapped:
  assumes inv: "sa_inv sa" and reg: "sa_region sa = sa_region EXECUTOR_STACK_ALLOCATOR"
    and room: "unat (sa_next sa) + (unat sz0 + 4096) + unat (sa_guard_size sa) \<le> 18446744069414584320"
    and kinv: "kpt_inv A live R s" and R: "{384..<508} \<subseteq> R"
  shows "case sa_allocate (kpt_map A) sz0 sa s of (r, sa', s') \<Rightarrow> kpt_inv A live R s' \<and>
    (case r of Inl e \<Rightarrow> e = Err NotEnoughMem
     | Inr tp \<Rightarrow> kpt_mapped A R s \<subseteq> kpt_mapped A R s' \<and>
        (\<forall>a. unat (va_as_usize tp) - unat (next_multiple_of sz0 PAGE_SIZE) \<le> unat a \<and> unat a < unat (va_as_usize tp) \<longrightarrow>
           is_ok (fst (pt_translate A (VirtAddr a) (fst s') (snd s')))))"
proof -
  let ?sz = "next_multiple_of sz0 PAGE_SIZE"
  have sz: "4096 dvd unat ?sz" and rm: "unat (sa_next sa) + unat ?sz + unat (sa_guard_size sa) < 18446744069414584320"
    using next_multiple_of_page [of sz0] room by simp_all
  obtain r1 sa1 where pick: "sa_pick ?sz sa = (r1, sa1)" by fastforce
  note p = sa_pick_ok [OF inv sz _ pick]
  show ?thesis
  proof (cases r1)
    case (Inl e)
    then show ?thesis using pick kinv p(5) rm by (auto simp: sa_allocate_def Let_def)
  next
    case (Inr va)
    have fresh: "fresh_block sa1 (va, ?sz)" and inv1: "sa_inv sa1" and g1: "sa_guard_size sa1 = sa_guard_size sa"
      and reg1: "sa_region sa1 = sa_region sa" using p rm Inr by auto
    define sa2 where "sa2 = sa1\<lparr>sa_allocated := (sa_allocated sa1)(va_add (va_add va ?sz) (sa_guard_size sa1) \<mapsto> ?sz)\<rparr>"
    have "unat (sa_next sa1) \<le> 18446744069414584320"
      using pick rm room by (auto simp: sa_pick_def Let_def unat_add_usize split: list.splits if_splits)
    note b = executor_block [OF fresh inv1 reg1 [unfolded reg] this]
    have g2: "sa_guard_size sa2 = sa_guard_size sa1" by (simp add: sa2_def)
    have pages: "p \<in> set (stack_pages sa2 va ?sz) \<longleftrightarrow> 4096 dvd unat (va_as_usize p) \<and>
        unat (va_as_usize va) + unat (sa_guard_size sa1) \<le> unat (va_as_usize p) \<and>
        unat (va_as_usize p) < unat (va_as_usize va) + unat (sa_guard_size sa1) + unat ?sz" for p
      using stack_pages_region [OF b(1) sz, of sa2 p] b(2,4) by (simp add: g2)
    have ok: "\<forall>p\<in>set (stack_pages sa2 va ?sz). kpt_page R p"
      using pages b(3,4) executor_page [OF _ _ _ R] by auto
    obtain r2 s2 where each: "each_page (kpt_map A) (stack_pages sa2 va ?sz) s = (r2, s2)" by (metis surj_pair)
    note m = kpt.each_map [OF kinv ok each]
    have top: "unat (va_as_usize (va_add (va_add va ?sz) (sa_guard_size sa1))) =
        unat (va_as_usize va) + unat ?sz + unat (sa_guard_size sa1)"
      using b(4) by (simp add: va_add_def unat_add_usize)
    have rc: "rc_wf live (fst s2) (pt_frames (snd s2))" using m by (simp add: kpt_inv_def pt_inv_def pt_wf_def)
    have tr: "is_ok (fst (pt_translate A (VirtAddr a) (fst s2) (snd s2)))"
      if "r2 = Ok ()" "unat (va_as_usize va) + unat (sa_guard_size sa1) \<le> unat a"
        "unat a < unat (va_as_usize va) + unat (sa_guard_size sa1) + unat ?sz" for a
    proof -
      have "unat (align_page_down a) \<le> unat a" using align_page_down_le [of a] by (simp add: word_le_nat_alt)
      then have "va_align_page_down (VirtAddr a) \<in> set (stack_pages sa2 va ?sz)"
        using pages that(3) align_page_down_ge [OF _ that(2)] b(1,2) by (simp add: va_align_page_down_def)
      then show ?thesis using m that(1) unfolding translate_page [OF rc, of A "VirtAddr a"] by (auto simp: kpt_mapped_def)
    qed
    show ?thesis
      using Inr pick each m tr top by (auto simp: sa_allocate_def Let_def sa2_def [symmetric] split: sum.splits)
  qed
qed

theorem executor_stack_mapped_witness:
  "case sa_allocate (kpt_map pool_allocator) 4096 EXECUTOR_STACK_ALLOCATOR (demo_mem2, demo_pt) of
     (r, sa', s') \<Rightarrow> kpt_inv pool_allocator set (free_roots (replicate 512 0)) s'"
proof -
  have k: "kpt_inv pool_allocator set (free_roots (replicate 512 0)) (demo_mem2, demo_pt)"
    using demo_inv(1) pool_allocator_ok by (simp add: kpt_inv_def)
  have R: "{384..<508} \<subseteq> free_roots (replicate 512 0)"
    by (auto simp: free_roots_def word_less_nat_alt word_le_nat_alt)
  have room: "unat (sa_next EXECUTOR_STACK_ALLOCATOR) + (unat (4096 :: usize) + 4096) + unat (sa_guard_size EXECUTOR_STACK_ALLOCATOR)
      \<le> 18446744069414584320"
    by (simp add: EXECUTOR_STACK_ALLOCATOR_def sa_new_def Let_def next_multiple_of_def EXECUTOR_STACK_SIZE_def
        EXECUTOR_STACK_REGION_def PAGE_SIZE_def va_new_def)
  from executor_stack_mapped [OF executor_inv refl room k R] show ?thesis by (auto split: prod.splits)
qed

text \<open>Picking \<open>n\<close> executor stacks in a row.\<close>

primrec pick_n :: "nat \<Rightarrow> StackAllocator res" where
  "pick_n 0 = Ok EXECUTOR_STACK_ALLOCATOR"
| "pick_n (Suc n) = bind_res (pick_n n) (\<lambda>sa. case sa_pick EXECUTOR_STACK_SIZE sa of
     (Inl e, _) \<Rightarrow> Inl e | (Inr _, sa') \<Rightarrow> Ok sa')"

lemma pick_n_next:
  assumes "n \<le> 15872"
  shows "\<exists>sa. pick_n n = Ok sa \<and> unat (sa_next sa) = 18446743936266403840 + n * 8388608 \<and>
     (sa_cached sa EXECUTOR_STACK_SIZE = None \<or> sa_cached sa EXECUTOR_STACK_SIZE = Some []) \<and>
     sa_region sa = (VirtAddr 0xFFFFFFE000000000, 0x1F00000000) \<and> sa_guard_size sa = 0x400000"
  using assms
proof (induction n)
  case 0
  then show ?case
    by (simp add: EXECUTOR_STACK_ALLOCATOR_def sa_new_def Let_def next_multiple_of_def EXECUTOR_STACK_SIZE_def
        EXECUTOR_STACK_REGION_def PAGE_SIZE_def va_new_def)
next
  case (Suc n)
  then obtain sa where sa: "pick_n n = Ok sa" "unat (sa_next sa) = 18446743936266403840 + n * 8388608"
    "sa_cached sa EXECUTOR_STACK_SIZE = None \<or> sa_cached sa EXECUTOR_STACK_SIZE = Some []"
    "sa_region sa = (VirtAddr 0xFFFFFFE000000000, 0x1F00000000)" "sa_guard_size sa = 0x400000" by auto
  have sz: "EXECUTOR_STACK_SIZE = 0x400000" by (simp add: EXECUTOR_STACK_SIZE_def PAGE_SIZE_def)
  have "unat (sa_next sa + 0x400000) = unat (sa_next sa) + 4194304"
    "unat (sa_next sa + 0x800000) = unat (sa_next sa) + 8388608"
    using sa(2) Suc.prems by (subst unat_add_usize, simp_all)+
  then show ?case
    using sa Suc.prems by (auto simp: sa_pick_def Let_def sz va_add_def word_less_nat_alt)
qed

text \<open>
  The end-of-region test leaves out the guard: after 15872 executor stacks have filled
  the region, one more is handed out whose lowest address is the first address of the
  external device region.
\<close>

theorem executor_stack_overrun:
  "\<exists>sa va sa'. pick_n 15872 = Ok sa \<and> sa_pick EXECUTOR_STACK_SIZE sa = (Ok va, sa') \<and>
     hd (stack_pages sa' va EXECUTOR_STACK_SIZE) = va_new (vmr_addr EXTERNAL_DEVICE_REGION)"
proof -
  obtain sa where sa: "pick_n 15872 = Ok sa" "unat (sa_next sa) = 18446744069410390016"
    "sa_cached sa EXECUTOR_STACK_SIZE = None \<or> sa_cached sa EXECUTOR_STACK_SIZE = Some []"
    "sa_region sa = (VirtAddr 0xFFFFFFE000000000, 0x1F00000000)" "sa_guard_size sa = 0x400000"
    using pick_n_next [of 15872] by auto
  have nx: "sa_next sa = 0xFFFFFFFEFFC00000" using sa(2) by (simp add: word_unat_eq_iff)
  have sz: "EXECUTOR_STACK_SIZE = 0x400000" by (simp add: EXECUTOR_STACK_SIZE_def PAGE_SIZE_def)
  obtain sa' where pick: "sa_pick EXECUTOR_STACK_SIZE sa = (Ok (VirtAddr 0xFFFFFFFEFFC00000), sa')"
    "sa_guard_size sa' = 0x400000"
    using sa(3,4,5) by (auto simp: sa_pick_def Let_def sz nx va_add_def va_new_def)
  have "hd (stack_pages sa' (VirtAddr 0xFFFFFFFEFFC00000) EXECUTOR_STACK_SIZE) = va_new (vmr_addr EXTERNAL_DEVICE_REGION)"
    by (simp add: stack_pages_def page_steps_def sz pick(2) upt_rec [of 0] va_add_def va_new_def EXTERNAL_DEVICE_REGION_def del: upt_Suc)
  with sa(1) pick(1) show ?thesis by blast
qed

end
