(* ===== verification/Boot_Map.thy ===== *)
theory Boot_Map
  imports Page_Table "HOL-Library.Sublist"
begin

text \<open>
  The correctness of \<^verbatim>\<open>BootPageTable::map\<close> (\<^verbatim>\<open>kern/modules/paging/src/arch/riscv/boot.rs\<close>), which
  maps single device pages below the static root table before the kernel has a page table of its own.
  The static table is not on the heap, so \<open>boot_view\<close> places it as one more page at its
  address \<open>r\<close>; the walk is then the walk of any other page table, and the facts on
  trees of tables of \<open>Page_Table\<close> apply to it.
\<close>

unbundle bit_operations_syntax

section \<open>The static table as a page\<close>

definition boot_view :: "usize \<Rightarrow> 'h kmem \<Rightarrow> usize \<Rightarrow> usize" where
  "boot_view r m a =
     (let i = (a - r) div 8 in if i < 512 \<and> a = cell r i then km_boot m ! unat i else km_cells m a)"

text \<open>The table that a reference of the walk stands for.\<close>

definition table_of :: "usize \<Rightarrow> usize \<Rightarrow> table_ref" where
  "table_of r t = (if t = r then Static_Table else Heap_Table t)"

lemma cell_offset:
  assumes "4096 dvd unat r" "i < 512"
  shows "(cell r i - r) div 8 = i"
proof -
  have i: "unat i < 512" using assms(2) by (simp add: word_less_nat_alt)
  have u: "unat (i * 8) = unat i * 8" using i by (simp add: unat_word_ariths)
  have "cell r i - r = i * 8" using assms(1) by (simp add: cell_def align_page_down_id)
  then have "unat ((cell r i - r) div 8) = unat i" using u by (simp add: unat_div)
  then show ?thesis by (simp only: word_unat_eq_iff)
qed

lemma boot_view_root:
  assumes "4096 dvd unat r" "i < 512"
  shows "boot_view r m (cell r i) = km_boot m ! unat i"
  using cell_offset [OF assms] assms(2) by (simp add: boot_view_def)

lemma boot_view_heap:
  assumes "4096 dvd unat r" "4096 dvd unat t" "t \<noteq> r" "i < 512"
  shows "boot_view r m (cell t i) = km_cells m (cell t i)"
  using cell_inj [OF assms(2,1,4)] assms(3) by (auto simp: boot_view_def Let_def)

lemma table_get_view:
  assumes "4096 dvd unat r" "length (km_boot m) = 512" "4096 dvd unat t" "i < 512"
  shows "table_get (table_of r t) i m = Ok (boot_view r m (cell t i))"
proof (cases "t = r")
  case True
  have "unat i < 512" using assms(4) by (simp add: word_less_nat_alt)
  with True assms(2) show ?thesis by (simp add: table_of_def table_get_def boot_view_root [OF assms(1,4)])
next
  case False
  then show ?thesis using array_elem_cell [OF assms(4), of t]
    by (simp add: table_of_def table_get_def va_new_def boot_view_heap [OF assms(1,3) _ assms(4)])
qed

lemma boot_view_other:
  assumes "\<forall>k<512. a \<noteq> cell r k"
  shows "boot_view r m a = km_cells m a"
  using assms by (auto simp: boot_view_def Let_def)

lemma table_put_view:
  assumes "4096 dvd unat r" "length (km_boot m) = 512" "4096 dvd unat t" "i < 512"
  shows "boot_view r (table_put (table_of r t) i w m) = (boot_view r m)(cell t i := w)"
proof
  fix a
  have i: "unat i < 512" using assms(4) by (simp add: word_less_nat_alt)
  show "boot_view r (table_put (table_of r t) i w m) a = ((boot_view r m)(cell t i := w)) a"
  proof (cases "\<exists>k<512. a = cell r k")
    case True
    then obtain k where k: "k < 512" "a = cell r k" by blast
    have "cell r k = cell t i \<longleftrightarrow> t = r \<and> k = i" using cell_inj [OF assms(1,3) k(1) assms(4)] by auto
    then show ?thesis using i assms(2) unfolding k(2)
      by (auto simp: boot_view_root [OF assms(1) k(1)] table_of_def table_put_def nth_list_update word_unat_eq_iff)
  next
    case False
    then have "t = r \<Longrightarrow> a \<noteq> cell t i" using assms(4) by blast
    with False show ?thesis by (auto simp: boot_view_other table_of_def table_put_def)
  qed
qed

lemma table_put_fields [simp]:
  "km_heap (table_put t i w m) = km_heap m" "km_rc (table_put t i w m) = km_rc m"
  "length (km_boot (table_put t i w m)) = length (km_boot m)"
  by (simp_all add: table_put_def split: table_ref.splits)

section \<open>Well-formedness\<close>

text \<open>
  \<open>r\<close> is the page of the static table, outside the kernel heap; \<open>R\<close> are the root entries
  below which the boot code links its own tables (not the 1 GiB leaves of the remapping).
\<close>

definition boot_wf :: "usize set \<Rightarrow> usize \<Rightarrow> ('h \<Rightarrow> usize set) \<Rightarrow> 'h kmem \<Rightarrow> bool" where
  "boot_wf R r live m \<longleftrightarrow>
     4096 dvd unat r \<and> \<not> linear r \<and> length (km_boot m) = 512 \<and> finite (live (km_heap m)) \<and>
     (\<forall>b\<in>live (km_heap m). linear b \<and> 4096 dvd unat b) \<and> tree_wf R (insert r (live (km_heap m))) (boot_view r m) r"

abbreviation boot_table_at :: "usize \<Rightarrow> 'h kmem \<Rightarrow> usize list \<Rightarrow> usize option" where
  "boot_table_at r m \<equiv> table_at (boot_view r m) r"

abbreviation boot_leaf :: "usize \<Rightarrow> 'h kmem \<Rightarrow> usize list \<Rightarrow> usize option" where
  "boot_leaf r m \<equiv> leaf (boot_view r m) r"

text \<open>The tables on the way to the paths of \<open>Q\<close> that do not exist yet.\<close>

definition missing :: "usize \<Rightarrow> 'h kmem \<Rightarrow> usize list set \<Rightarrow> usize list set" where
  "missing r m Q = {p. (\<exists>q\<in>Q. prefix p q) \<and> boot_table_at r m p = None}"

lemma prefix_paths: "q \<in> paths R \<Longrightarrow> prefix p q \<Longrightarrow> p \<in> paths R"
  by (cases p) (auto simp: paths_def prefix_def)

lemma finite_missing: "finite Q \<Longrightarrow> finite (missing r m Q)"
  by (rule finite_subset [of _ "\<Union>q\<in>Q. set (prefixes q)"]) (auto simp: missing_def)

lemma boot_wf_view:
  assumes "boot_wf R r live m" "4096 dvd unat r" "km_boot m' = km_boot m"
    and "same_pages (live (km_heap m)) m m'" "q \<in> paths R" "boot_table_at r m q = Some t" "i < 512"
  shows "boot_view r m' (cell t i) = boot_view r m (cell t i)"
proof -
  have t: "4096 dvd unat t" "t \<in> insert r (live (km_heap m))"
    using tree_wfD(1,2) [OF _ assms(5,6)] assms(1) unfolding boot_wf_def by blast+
  show ?thesis
  proof (cases "t = r")
    case True
    then show ?thesis using assms(3) by (simp add: boot_view_root [OF assms(2,7)])
  next
    case False
    then show ?thesis using t assms(4,7) by (simp add: boot_view_heap [OF assms(2) t(1) False assms(7)] same_pages_def)
  qed
qed

section \<open>Adding tables\<close>

text \<open>
  \<open>m'\<close> has the tables of \<open>m\<close> and, on freshly allocated pages, those at the paths \<open>P\<close>; no page is
  mapped or unmapped, and the root entries outside \<open>R\<close> are as they were.
\<close>

definition same_roots :: "usize set \<Rightarrow> 'h kmem \<Rightarrow> 'h kmem \<Rightarrow> bool" where
  "same_roots R m m' \<longleftrightarrow> (\<forall>k<512. of_nat k \<notin> R \<longrightarrow> km_boot m' ! k = km_boot m ! k)"

lemma same_roots_put:
  assumes "t = r \<Longrightarrow> i \<in> R" "i < 512" "length (km_boot m) = 512"
  shows "same_roots R m (table_put (table_of r t) i w m)"
proof -
  have "of_nat (unat i) = i" by simp
  then show ?thesis using assms by (auto simp: same_roots_def table_of_def table_put_def nth_list_update word_less_nat_alt)
qed

definition boot_extends ::
  "usize set \<Rightarrow> usize \<Rightarrow> ('h \<Rightarrow> usize set) \<Rightarrow> 'h kmem \<Rightarrow> 'h kmem \<Rightarrow> usize list set \<Rightarrow> bool" where
  "boot_extends R r live m m' P \<longleftrightarrow>
     boot_wf R r live m' \<and> same_roots R m m' \<and> finite P \<and>
     (\<forall>q\<in>P. boot_table_at r m q = None) \<and>
     (\<forall>q\<in>paths R. boot_table_at r m' q = None \<longleftrightarrow> boot_table_at r m q = None \<and> q \<notin> P) \<and>
     card (live (km_heap m')) = card (live (km_heap m)) + card P \<and>
     (\<forall>q\<in>paths R. \<forall>j<512. length q = 2 \<longrightarrow> boot_leaf r m' (q @ [j]) = boot_leaf r m (q @ [j]))"

lemma boot_extends_refl: "boot_wf R r live m \<Longrightarrow> boot_extends R r live m m {}"
  by (simp add: boot_extends_def same_roots_def)

lemma boot_extends_trans:
  assumes "boot_extends R r live m m1 P" "boot_extends R r live m1 m2 Q" "P \<subseteq> paths R" "Q \<subseteq> paths R"
  shows "boot_extends R r live m m2 (P \<union> Q)"
proof -
  have d: "P \<inter> Q = {}" using assms(1,2,4) unfolding boot_extends_def by blast
  have f: "finite P" "finite Q" using assms(1,2) unfolding boot_extends_def by blast+
  have "card (live (km_heap m2)) = card (live (km_heap m)) + card (P \<union> Q)"
    using assms(1,2) card_Un_disjoint [OF f d] unfolding boot_extends_def by simp
  moreover have "\<forall>q\<in>P \<union> Q. boot_table_at r m q = None" using assms(1,2,4) unfolding boot_extends_def by blast
  moreover have "\<forall>q\<in>paths R. boot_table_at r m2 q = None \<longleftrightarrow> boot_table_at r m q = None \<and> q \<notin> P \<union> Q"
    using assms(1,2) unfolding boot_extends_def by auto
  ultimately show ?thesis using assms(1,2) f unfolding boot_extends_def same_roots_def by simp
qed

lemma boot_alloc_none:
  assumes ok: "frame_allocator_ok A live" and wf: "boot_wf R r live m"
    and al: "fa_allocate_zeroed A m = (None, m')"
  shows "boot_extends R r live m m' {}"
proof -
  have s: "live (km_heap m') = live (km_heap m)" "same_pages (live (km_heap m)) m m'"
    using ok al unfolding frame_allocator_ok_def by blast+
  have b: "km_boot m' = km_boot m" using s(2) by (simp add: same_pages_def)
  have r: "4096 dvd unat r" and tree: "tree_wf R (insert r (live (km_heap m))) (boot_view r m) r"
    using wf by (simp_all add: boot_wf_def)
  have "\<forall>p t. p \<in> paths R \<and> boot_table_at r m p = Some t \<longrightarrow>
      t \<in> insert r (live (km_heap m)) \<and> (\<forall>i<512. boot_view r m' (cell t i) = boot_view r m (cell t i))"
    using tree_wfD(2) [OF tree] boot_wf_view [OF wf r b s(2)] by blast
  note agree = tree_wf_agree [OF tree this]
  have "boot_wf R r live m'" using wf s(1) b agree(1) by (simp add: boot_wf_def)
  then show ?thesis using s(1) b agree(2,3) by (simp add: boot_extends_def same_roots_def)
qed

lemma pte_new_link:
  assumes "4096 dvd unat a"
  shows "validw (pte_into_usize (pte_new (to_phys (va_new a)) PP_V))"
    and "target (pte_into_usize (pte_new (to_phys (va_new a)) PP_V)) = a"
  using pte_link [OF assms, of "\<lparr>pte_bits = 0\<rparr>"] by (simp_all add: pte_into_usize_def pte_new_def va_new_def)

lemma boot_alloc_link:
  assumes ok: "frame_allocator_ok A live" and wf: "boot_wf R r live m"
    and p: "p @ [i] \<in> paths R" "boot_table_at r m p = Some t"
    and inv: "\<not> validw (boot_view r m (cell t i))" and fa: "fa_allocate_zeroed A m = (Some a, m1)"
  defines "m2 \<equiv> table_put (table_of r t) i (pte_into_usize (pte_new (to_phys (va_new a)) PP_V)) m1"
  shows "boot_extends R r live m m2 {p @ [i]}" "boot_table_at r m2 (p @ [i]) = Some a" "a \<noteq> r"
proof -
  have a: "4096 dvd unat a" "linear a" "a \<notin> live (km_heap m)" "live (km_heap m1) = insert a (live (km_heap m))"
    "\<forall>i<512. km_cells m1 (cell a i) = 0" "same_pages (live (km_heap m)) m m1"
    using conjunct1 [OF ok [unfolded frame_allocator_ok_def], rule_format, OF fa] by simp_all
  have r: "4096 dvd unat r" and nl: "\<not> linear r" and len: "length (km_boot m) = 512" and fin: "finite (live (km_heap m))"
    and al: "\<forall>b\<in>live (km_heap m). linear b \<and> 4096 dvd unat b" and tree: "tree_wf R (insert r (live (km_heap m))) (boot_view r m) r"
    using wf by (simp_all add: boot_wf_def)
  have b: "km_boot m1 = km_boot m" using a(6) by (simp add: same_pages_def)
  show ar: "a \<noteq> r" using a(2) nl by blast
  note pp = paths_snocD [OF p(1)]
  note t = tree_wfD [OF tree conjunct1 [OF pp] p(2)]
  have i: "i < 512" using pp by simp
  have v: "boot_view r m2 = (boot_view r m1)(cell t i := pte_into_usize (pte_new (to_phys (va_new a)) PP_V))"
    unfolding m2_def by (rule table_put_view [OF r _ t(1) i]) (simp add: b len)
  have ne: "cell a j \<noteq> cell t i" if "j < 512" for j
    using cell_inj [OF a(1) t(1) that i] t(2) a(3) ar by blast
  have pages: "boot_view r m1 (cell u j) = boot_view r m (cell u j)"
    if "u \<in> insert r (live (km_heap m))" "j < 512" for u j
  proof (cases "u = r")
    case True
    then show ?thesis using b by (simp add: boot_view_root [OF r that(2)])
  next
    case False
    with that(1) al have u: "u \<in> live (km_heap m)" "4096 dvd unat u" by auto
    show ?thesis using a(6) u(1) that(2) by (simp add: boot_view_heap [OF r u(2) False that(2)] same_pages_def)
  qed
  have zero: "boot_view r m1 (cell a j) = 0" if "j < 512" for j
    using a(5) that by (simp add: boot_view_heap [OF r a(1) ar that])
  have l: "links (insert r (live (km_heap m))) (boot_view r m) t i a (boot_view r m2)"
    unfolding links_def v using a(1,3) ar pte_new_link [OF a(1)] ne zero pages by auto
  have heap: "live (km_heap m2) = insert a (live (km_heap m))" by (simp add: m2_def a(4))
  note at = table_at_link [OF tree p inv l]
  show "boot_table_at r m2 (p @ [i]) = Some a" using at [OF p(1)] by simp
  have "tree_wf R (insert r (live (km_heap m2))) (boot_view r m2) r"
    using tree_wf_link [OF tree p inv l] by (simp add: heap insert_commute)
  then have wf2: "boot_wf R r live m2" using r nl len fin al a(1,2) b by (simp add: boot_wf_def heap) (simp add: m2_def)
  have "p = []" if "t = r" using t(3) [of "[]"] that by (simp add: paths_def)
  then have "t = r \<Longrightarrow> i \<in> R" using p(1) by (auto simp: paths_def)
  then have "same_roots R m1 m2" unfolding m2_def by (rule same_roots_put) (simp_all add: i b len)
  then have roots: "same_roots R m m2" by (simp add: same_roots_def b)
  have none: "boot_table_at r m (p @ [i]) = None" using p(2) inv by (simp add: table_at_snoc)
  have "boot_leaf r m2 (q @ [j]) = boot_leaf r m (q @ [j])" if "q \<in> paths R" "j < 512" "length q = 2" for q j
    by (rule leaf_link [OF tree p inv l that(1,3,2)])
  then show "boot_extends R r live m m2 {p @ [i]}"
    using wf2 none at fin a(3) roots by (simp add: boot_extends_def heap)
qed

section \<open>The walk\<close>

abbreviation boot_pte :: "PhysAddr \<Rightarrow> usize" where
  "boot_pte pa \<equiv> pte_into_usize (pte_new pa boot_perm)"

lemma bit0_validw: "w AND PP_V = 0 \<longleftrightarrow> \<not> validw w"
proof -
  have "w AND 1 = 0 \<longleftrightarrow> even w" by (simp add: and_one_eq even_iff_mod_2_eq_zero)
  then show ?thesis by (simp add: pte_valid_bit pte_from_raw_def PP_V_def bit_0)
qed

lemma missing_link:
  assumes "boot_extends R r live m m1 {p @ [i]}" "p @ i # is \<in> paths R"
  shows "missing r m {p @ i # is} = insert (p @ [i]) (missing r m1 {p @ i # is})"
    and "p @ [i] \<notin> missing r m1 {p @ i # is}"
proof -
  have pre: "prefix (p @ [i]) (p @ i # is)" by simp
  have at: "boot_table_at r m1 q = None \<longleftrightarrow> boot_table_at r m q = None \<and> q \<noteq> p @ [i]" if "prefix q (p @ i # is)" for q
    using assms(1) prefix_paths [OF assms(2) that] by (simp add: boot_extends_def)
  have "boot_table_at r m (p @ [i]) = None" using assms(1) by (simp add: boot_extends_def)
  then show "missing r m {p @ i # is} = insert (p @ [i]) (missing r m1 {p @ i # is})"
    using at pre by (auto simp: missing_def)
  show "p @ [i] \<notin> missing r m1 {p @ i # is}" using at [OF pre] by (simp add: missing_def)
qed

lemma missing_paths: "Q \<subseteq> paths R \<Longrightarrow> missing r m Q \<subseteq> paths R"
  using prefix_paths by (auto simp: missing_def)

lemma missing_none: "boot_table_at r m p = Some t \<Longrightarrow> missing r m {p} = {}"
  by (auto simp: missing_def prefix_def table_at_append_None)

text \<open>One level of the walk: the entry is there, or a table is added for it, or there is no memory left.\<close>

lemma boot_step_valid:
  assumes wf: "boot_wf R r live m" and p: "p @ [i] \<in> paths R" "boot_table_at r m p = Some t"
    and v: "validw (boot_view r m (cell t i))"
  defines "u \<equiv> target (boot_view r m (cell t i))"
  shows "boot_table_at r m (p @ [i]) = Some u"
    and "boot_map_from A (table_of r t) (i # is @ [j]) pa m = boot_map_from A (table_of r u) (is @ [j]) pa m"
proof -
  have tree: "tree_wf R (insert r (live (km_heap m))) (boot_view r m) r" and r: "4096 dvd unat r" "length (km_boot m) = 512"
    using wf by (simp_all add: boot_wf_def)
  note pp = paths_snocD [OF p(1)]
  have t: "4096 dvd unat t" and i: "i < 512" using tree_wfD(1) [OF tree conjunct1 [OF pp] p(2)] pp by simp_all
  show at: "boot_table_at r m (p @ [i]) = Some u" using v p(2) by (simp add: table_at_snoc u_def)
  have "u \<noteq> r" using tree_wfD(3) [OF tree p(1) at, of "[]"] by (auto simp: paths_def)
  then have u: "table_of r u = Heap_Table u" by (simp add: table_of_def)
  show "boot_map_from A (table_of r t) (i # is @ [j]) pa m = boot_map_from A (table_of r u) (is @ [j]) pa m"
    unfolding u using v by (simp add: table_get_view [OF r t i] Let_def bit0_validw u_def target_def)
qed

lemma boot_step_invalid:
  assumes ok: "frame_allocator_ok A live" and wf: "boot_wf R r live m"
    and p: "p @ [i] \<in> paths R" "boot_table_at r m p = Some t" and v: "\<not> validw (boot_view r m (cell t i))"
  shows "(\<exists>m1. boot_map_from A (table_of r t) (i # is @ [j]) pa m = (Panicked, m1) \<and> boot_extends R r live m m1 {} \<and>
            fst (fa_allocate_zeroed A m) = None \<and> live (km_heap m) = live (km_heap m1)) \<or>
         (\<exists>a m2. boot_map_from A (table_of r t) (i # is @ [j]) pa m = boot_map_from A (table_of r a) (is @ [j]) pa m2 \<and>
            boot_extends R r live m m2 {p @ [i]} \<and> boot_table_at r m2 (p @ [i]) = Some a)"
proof -
  have tree: "tree_wf R (insert r (live (km_heap m))) (boot_view r m) r" and r: "4096 dvd unat r" "length (km_boot m) = 512"
    using wf by (simp_all add: boot_wf_def)
  note pp = paths_snocD [OF p(1)]
  have t: "4096 dvd unat t" and i: "i < 512" using tree_wfD(1) [OF tree conjunct1 [OF pp] p(2)] pp by simp_all
  note get = table_get_view [OF r t i]
  obtain res m1 where fa: "fa_allocate_zeroed A m = (res, m1)" by (cases "fa_allocate_zeroed A m")
  show ?thesis
  proof (cases res)
    case None
    have "boot_map_from A (table_of r t) (i # is @ [j]) pa m = (Panicked, m1)"
      using v fa None by (simp add: get Let_def bit0_validw)
    moreover have "live (km_heap m) = live (km_heap m1)" using ok fa None unfolding frame_allocator_ok_def by simp
    ultimately show ?thesis using boot_alloc_none [OF ok wf] fa None by auto
  next
    case (Some a)
    define m2 where "m2 = table_put (table_of r t) i (pte_into_usize (pte_new (to_phys (va_new a)) PP_V)) m1"
    note link = boot_alloc_link [OF ok wf p v fa [unfolded Some], folded m2_def]
    have al: "4096 dvd unat a" using ok fa Some unfolding frame_allocator_ok_def by blast
    have "boot_map_from A (table_of r t) (i # is @ [j]) pa m = boot_map_from A (table_of r a) (is @ [j]) pa m2"
      using v fa Some link(3) pte_new_link(2) [OF al]
      by (simp add: get Let_def bit0_validw table_of_def [of r a] target_def flip: m2_def)
    then show ?thesis using link by blast
  qed
qed

text \<open>What \<^verbatim>\<open>map\<close> may end in: no memory was left for one of the missing tables, or all of them are there and the
  entry is written.\<close>

definition walk_result :: "usize set \<Rightarrow> usize \<Rightarrow> 'h frame_allocator \<Rightarrow> ('h \<Rightarrow> usize set) \<Rightarrow> usize list \<Rightarrow> usize \<Rightarrow>
  PhysAddr \<Rightarrow> 'h kmem \<Rightarrow> unit res \<times> 'h kmem \<Rightarrow> bool" where
  "walk_result R r A live q j pa m res \<longleftrightarrow>
    (\<exists>m' P m1. res = (Panicked, m') \<and> boot_extends R r live m m' P \<and> P \<subset> missing r m {q} \<and>
       fst (fa_allocate_zeroed A m1) = None \<and> live (km_heap m1) = live (km_heap m')) \<or>
    (\<exists>m1 u. res = (Ok (), table_put (table_of r u) j (boot_pte pa) m1) \<and>
       boot_extends R r live m m1 (missing r m {q}) \<and> boot_table_at r m1 q = Some u)"

lemma walk_result_link:
  assumes link: "boot_extends R r live m m2 {p @ [i]}" and p: "p @ i # is \<in> paths R"
    and res: "walk_result R r A live (p @ i # is) j pa m2 res"
  shows "walk_result R r A live (p @ i # is) j pa m res"
proof -
  note ms = missing_link [OF link p]
  have sub: "{p @ [i]} \<subseteq> paths R" "missing r m2 {p @ i # is} \<subseteq> paths R"
    using paths_prefix [OF p] missing_paths [of "{p @ i # is}" R r m2] p by simp_all
  from res [unfolded walk_result_def] consider
    m' P m3 where "res = (Panicked, m')" "boot_extends R r live m2 m' P"
      "P \<subset> missing r m2 {p @ i # is}" "fst (fa_allocate_zeroed A m3) = None" "live (km_heap m3) = live (km_heap m')"
    | m3 u where "res = (Ok (), table_put (table_of r u) j (boot_pte pa) m3)"
      "boot_extends R r live m2 m3 (missing r m2 {p @ i # is})" "boot_table_at r m3 (p @ i # is) = Some u" by blast
  then show ?thesis
  proof cases
    case 1
    have "boot_extends R r live m m' ({p @ [i]} \<union> P)"
      by (rule boot_extends_trans [OF link 1(2) sub(1)]) (use 1(3) sub(2) in blast)
    moreover have "{p @ [i]} \<union> P \<subset> missing r m {p @ i # is}"
    proof -
      have "p @ [i] \<notin> P" using 1(3) ms(2) by blast
      then show ?thesis unfolding ms(1) using 1(3) ms(2) by (metis insert_ident insert_is_Un psubset_eq insert_mono)
    qed
    ultimately show ?thesis unfolding walk_result_def using 1(1,4,5) by blast
  next
    case 2
    have "boot_extends R r live m m3 (missing r m {p @ i # is})"
      using boot_extends_trans [OF link 2(2) sub] ms(1) by simp
    then show ?thesis unfolding walk_result_def using 2(1,3) by blast
  qed
qed

lemma boot_map_from_ok:
  assumes ok: "frame_allocator_ok A live"
  shows "boot_wf R r live m \<Longrightarrow> p @ is \<in> paths R \<Longrightarrow> j < 512 \<Longrightarrow> boot_table_at r m p = Some t \<Longrightarrow>
    walk_result R r A live (p @ is) j pa m (boot_map_from A (table_of r t) (is @ [j]) pa m)"
proof (induction "is" arbitrary: p t m)
  case Nil
  have wf: "4096 dvd unat r" "length (km_boot m) = 512" "4096 dvd unat t"
    using Nil.prems(1) tree_wfD(1) [OF _ _ Nil.prems(4)] Nil.prems(2) by (auto simp: boot_wf_def)
  show ?case
    using table_get_view [OF wf Nil.prems(3)] boot_extends_refl [OF Nil.prems(1)] Nil.prems(4)
    by (simp add: missing_none walk_result_def) blast
next
  case (Cons i "is")
  note pi = paths_prefix [OF Cons.prems(2)]
  have in_p: "(p @ [i]) @ is \<in> paths R" using Cons.prems(2) by simp
  show ?case
  proof (cases "validw (boot_view r m (cell t i))")
    case True
    note step = boot_step_valid [OF Cons.prems(1) pi Cons.prems(4) True]
    show ?thesis using Cons.IH [OF Cons.prems(1) in_p Cons.prems(3) step(1)] step(2) by simp
  next
    case False
    from boot_step_invalid [OF ok Cons.prems(1) pi Cons.prems(4) False, of "is" j pa] show ?thesis
    proof (elim disjE exE conjE)
      fix m1 assume m1: "boot_map_from A (table_of r t) (i # is @ [j]) pa m = (Panicked, m1)" "boot_extends R r live m m1 {}"
        "fst (fa_allocate_zeroed A m) = None" "live (km_heap m) = live (km_heap m1)"
      have "p @ [i] \<in> missing r m {p @ i # is}" using False Cons.prems(4) by (simp add: missing_def table_at_snoc)
      then have "{} \<subset> missing r m {p @ i # is}" by blast
      with m1 show ?thesis unfolding walk_result_def by (metis append_Cons)
    next
      fix a m2 assume m2: "boot_map_from A (table_of r t) (i # is @ [j]) pa m = boot_map_from A (table_of r a) (is @ [j]) pa m2"
        "boot_extends R r live m m2 {p @ [i]}" "boot_table_at r m2 (p @ [i]) = Some a"
      have wf2: "boot_wf R r live m2" using m2(2) by (simp add: boot_extends_def)
      from Cons.IH [OF wf2 in_p Cons.prems(3) m2(3)]
      have "walk_result R r A live (p @ i # is) j pa m2 (boot_map_from A (table_of r a) (is @ [j]) pa m2)" by simp
      from walk_result_link [OF m2(2) Cons.prems(2) this] show ?thesis using m2(1) by simp
    qed
  qed
qed

section \<open>Properties\<close>

text \<open>How the processor translates an address below a root entry of \<open>R\<close>, through the tables of 4 KiB pages.\<close>

definition boot_translate :: "usize \<Rightarrow> 'h kmem \<Rightarrow> VirtAddr \<Rightarrow> PhysAddr option" where
  "boot_translate r m a = (case boot_leaf r m (indexes a) of None \<Rightarrow> None
     | Some w \<Rightarrow> Some (pa_add (fst (pte_into (pte_from_raw w))) (va_as_usize a AND (PAGE_SIZE - 1))))"

lemma boot_pte_into:
  "fst (pte_into (pte_from_raw (boot_pte (pa_align_page_down pa)))) = pa_align_page_down pa" "validw (boot_pte pa)"
proof -
  have perm: "boot_perm AND PP_all = boot_perm" by (simp add: boot_perm_def PP_all_def perm_flag_defs)
  have "pa_align_page_down (pa_align_page_down pa) = pa_align_page_down pa"
    by (simp add: pa_align_page_down_def)
  then show "fst (pte_into (pte_from_raw (boot_pte (pa_align_page_down pa)))) = pa_align_page_down pa"
    by (simp add: pte_into_usize_def pte_new_def pte_into_set [OF perm])
  show "validw (boot_pte pa)"
    using pte_valid_set [of boot_perm] by (simp add: pte_into_usize_def pte_new_def boot_perm_eq)
qed

text \<open>The tables below the root that the page of \<open>a\<close> needs.\<close>

abbreviation table_path :: "VirtAddr \<Rightarrow> usize list" where
  "table_path a \<equiv> butlast (indexes a)"

text \<open>\<open>m'\<close> is \<open>m\<close> with the page of \<open>a\<close> mapped to the frame of \<open>pa\<close>.\<close>

definition boot_mapped :: "usize set \<Rightarrow> usize \<Rightarrow> VirtAddr \<Rightarrow> PhysAddr \<Rightarrow> 'h kmem \<Rightarrow> 'h kmem \<Rightarrow> bool" where
  "boot_mapped R r a pa m m' \<longleftrightarrow>
     same_roots R m m' \<and>
     (\<forall>b. hd (indexes b) \<in> R \<longrightarrow> boot_translate r m' b =
        (if indexes b = indexes a then Some (pa_add (pa_align_page_down pa) (va_as_usize b AND (PAGE_SIZE - 1)))
         else boot_translate r m b))"

lemma boot_write_leaf:
  fixes pa :: PhysAddr
  assumes wf: "boot_wf R r live m" and q: "indexes a = q @ [j]" "q \<in> paths R" "length q = 2" "j < 512"
    and u: "boot_table_at r m q = Some u"
  defines "m' \<equiv> table_put (table_of r u) j (boot_pte (pa_align_page_down pa)) m"
  shows "boot_wf R r live m'" "boot_mapped R r a pa m m'" "p \<in> paths R \<Longrightarrow> boot_table_at r m' p = boot_table_at r m p"
proof -
  have tree: "tree_wf R (insert r (live (km_heap m))) (boot_view r m) r" and r: "4096 dvd unat r" "length (km_boot m) = 512"
    using wf by (simp_all add: boot_wf_def)
  note t = tree_wfD [OF tree q(2) u]
  have ur: "u \<noteq> r" using t(3) [of "[]"] q(3) by (auto simp: paths_def)
  have v: "boot_view r m' = (boot_view r m)(cell u j := boot_pte (pa_align_page_down pa))"
    unfolding m'_def by (rule table_put_view [OF r t(1) q(4)])
  have "tree_wf R (insert r (live (km_heap m'))) (boot_view r m') r"
    using tree_wf_leaf_write [OF tree q(2,3) u q(4)] unfolding v by (simp add: m'_def)
  then show "boot_wf R r live m'" using wf by (simp add: boot_wf_def m'_def)
  show "p \<in> paths R \<Longrightarrow> boot_table_at r m' p = boot_table_at r m p"
    unfolding v by (rule table_at_leaf_write [OF tree q(2,3) u q(4)])
  have "same_roots R m m'" unfolding m'_def by (rule same_roots_put) (use ur q(4) r in auto)
  moreover have "boot_leaf r m' (indexes b) =
      (if indexes b = indexes a then Some (boot_pte (pa_align_page_down pa)) else boot_leaf r m (indexes b))"
    if "hd (indexes b) \<in> R" for b
  proof -
    obtain p k where p: "indexes b = p @ [k]" "length p = 2" "k < 512" "p \<in> paths R"
    proof (rule indexes_split [where R = R and a = b])
      fix p k assume "indexes b = p @ [k]" "length p = 2" "k < 512" "hd (indexes b) \<in> R \<Longrightarrow> p \<in> paths R"
      then show thesis using that \<open>hd (indexes b) \<in> R\<close> by blast
    qed
    show ?thesis using leaf_write [OF tree q(2,3) u q(4) p(4,2,3)] unfolding v p(1) q(1) by (simp add: boot_pte_into(2))
  qed
  ultimately show "boot_mapped R r a pa m m'"
    by (simp add: boot_mapped_def boot_translate_def boot_pte_into(1))
qed

lemma boot_extends_translate:
  assumes "boot_extends R r live m m' P" "hd (indexes b) \<in> R"
  shows "boot_translate r m' b = boot_translate r m b"
proof (rule indexes_split [where R = R and a = b])
  fix q j assume "indexes b = q @ [j]" "length q = 2" "j < 512" "hd (indexes b) \<in> R \<Longrightarrow> q \<in> paths R"
  then show ?thesis using assms unfolding boot_extends_def boot_translate_def by simp
qed

lemma boot_mapped_extends:
  assumes "boot_extends R r live m m1 P" "boot_mapped R r a pa m1 m'"
  shows "boot_mapped R r a pa m m'"
  using assms boot_extends_translate [OF assms(1)] unfolding boot_mapped_def boot_extends_def same_roots_def by simp

lemma boot_map_ok:
  assumes ok: "frame_allocator_ok A live" and n: "frames_for A live n" and wf: "boot_wf R r live m" and a: "hd (indexes a) \<in> R"
  shows "\<exists>res m'. boot_map A a pa m = (res, m') \<and> boot_wf R r live m' \<and>
    (res = Ok () \<and> boot_mapped R r a pa m m' \<and>
       card (live (km_heap m')) = card (live (km_heap m)) + card (missing r m {table_path a}) \<and>
       (\<forall>q\<in>paths R. boot_table_at r m' q = None \<longleftrightarrow> boot_table_at r m q = None \<and> \<not> prefix q (table_path a)) \<or>
     res = Panicked \<and> same_roots R m m' \<and> (\<forall>b. hd (indexes b) \<in> R \<longrightarrow> boot_translate r m' b = boot_translate r m b) \<and>
       n < card (live (km_heap m)) + card (missing r m {table_path a}))"
proof (rule indexes_split [where R = R and a = a])
  fix q j assume q: "indexes a = q @ [j]" "length q = 2" "j < 512" "hd (indexes a) \<in> R \<Longrightarrow> q \<in> paths R"
  have qp: "q \<in> paths R" using q(4) a .
  have tp: "table_path a = q" by (simp add: q(1))
  have fin: "finite (missing r m {q})" by (simp add: finite_missing)
  have "boot_map A a pa m = boot_map_from A (table_of r r) (q @ [j]) (pa_align_page_down pa) m"
    by (simp add: boot_map_def indexes_align q(1) table_of_def)
  moreover have "walk_result R r A live q j (pa_align_page_down pa) m (boot_map_from A (table_of r r) (q @ [j]) (pa_align_page_down pa) m)"
    using boot_map_from_ok [OF ok wf, of "[]" q j r "pa_align_page_down pa"] qp q(3) by simp
  ultimately have "walk_result R r A live q j (pa_align_page_down pa) m (boot_map A a pa m)" by simp
  from this [unfolded walk_result_def] show ?thesis
  proof (elim disjE exE conjE)
    fix m' P m1 assume w: "boot_map A a pa m = (Panicked, m')" "boot_extends R r live m m' P" "P \<subset> missing r m {q}"
      "fst (fa_allocate_zeroed A m1) = None" "live (km_heap m1) = live (km_heap m')"
    have "\<not> card (live (km_heap m1)) < n" using n w(4) unfolding frames_for_def by blast
    then have "n < card (live (km_heap m)) + card (missing r m {q})"
      using psubset_card_mono [OF fin w(3)] w(2,5) by (simp add: boot_extends_def)
    then show ?thesis using w(1,2) boot_extends_translate [OF w(2)] unfolding boot_extends_def tp by blast
  next
    fix m1 u assume w: "boot_map A a pa m = (Ok (), table_put (table_of r u) j (boot_pte (pa_align_page_down pa)) m1)"
      "boot_extends R r live m m1 (missing r m {q})" "boot_table_at r m1 q = Some u"
    have wf1: "boot_wf R r live m1" using w(2) by (simp add: boot_extends_def)
    note put = boot_write_leaf [OF wf1 q(1) qp q(2,3) w(3), where pa = pa]
    have "\<forall>p\<in>paths R. boot_table_at r m1 p = None \<longleftrightarrow> boot_table_at r m p = None \<and> \<not> prefix p q"
      using w(2) by (auto simp: boot_extends_def missing_def)
    moreover have "card (live (km_heap m1)) = card (live (km_heap m)) + card (missing r m {q})"
      using w(2) by (simp add: boot_extends_def)
    ultimately show ?thesis using w(1) put(1,3) boot_mapped_extends [OF w(2) put(2)] unfolding tp by simp
  qed
qed

text \<open>The table as \<^verbatim>\<open>init\<close> leaves it, and the four root entries of the device region.\<close>

lemma boot_wf_fresh:
  assumes "4096 dvd unat r" "\<not> linear r" "length (km_boot m) = 512" "finite (live (km_heap m))"
    and "\<forall>b\<in>live (km_heap m). linear b \<and> 4096 dvd unat b" and R: "\<forall>i\<in>R. i < 512 \<longrightarrow> \<not> validw (km_boot m ! unat i)"
  shows "boot_wf R r live m" and "p \<in> paths R \<Longrightarrow> boot_table_at r m p = (if p = [] then Some r else None)"
proof -
  show at: "boot_table_at r m p = (if p = [] then Some r else None)" if "p \<in> paths R" for p
    using that R by (cases p) (auto simp: paths_def boot_view_root [OF assms(1)])
  have "tree_wf R (insert r (live (km_heap m))) (boot_view r m) r"
    unfolding tree_wf_def using at assms(1) by (auto split: if_splits)
  then show "boot_wf R r live m" using assms by (simp add: boot_wf_def)
qed

definition device_roots :: "usize set" where
  "device_roots = {i. 508 \<le> i \<and> i < 512}"

text \<open>The upper half of the table outside the device region is the linear remapping, in pages of 1 GiB.\<close>

definition remap_entries :: "usize list \<Rightarrow> bool" where
  "remap_entries t \<longleftrightarrow> (\<forall>k. 256 \<le> k \<and> k < 508 \<longrightarrow> t ! k = (if 258 \<le> k \<and> k < 384 then huge_entry (k - 258) else 0))"

lemma remap_entries_same_roots:
  assumes "remap_entries (km_boot m)" "same_roots device_roots m m'"
  shows "remap_entries (km_boot m')"
proof -
  have "km_boot m' ! k = km_boot m ! k" if "k < 508" for k
  proof -
    have "(of_nat k :: usize) \<notin> device_roots" using that by (simp add: device_roots_def word_le_nat_alt unat_of_nat)
    then show ?thesis using assms(2) that by (simp add: same_roots_def)
  qed
  then show ?thesis using assms(1) by (simp add: remap_entries_def)
qed

lemma boot_init_remap_entries:
  assumes "boot_init BOOT_PAGE_TABLE = Ok t"
  shows "remap_entries t"
proof -
  obtain t' where t': "boot_init BOOT_PAGE_TABLE = Ok t'" "\<forall>i<126. t' ! (258 + i) = huge_entry i"
    "\<forall>j<512. j \<noteq> 2 \<and> \<not> (258 \<le> j \<and> j < 384) \<longrightarrow> t' ! j = 0" using boot_init_table by blast
  have "t' ! k = huge_entry (k - 258)" if "258 \<le> k" "k < 384" for k using t'(2) [rule_format, of "k - 258"] that by simp
  then show ?thesis using t'(1,3) assms by (auto simp: remap_entries_def)
qed

lemma boot_init_device_roots:
  assumes "boot_init BOOT_PAGE_TABLE = Ok t"
  shows "length t = 512" "\<forall>i\<in>device_roots. i < 512 \<longrightarrow> \<not> validw (t ! unat i)"
proof -
  obtain t' where t': "boot_init BOOT_PAGE_TABLE = Ok t'" "length t' = 512"
    "\<forall>j<512. j \<noteq> 2 \<and> \<not> (258 \<le> j \<and> j < 384) \<longrightarrow> t' ! j = 0" using boot_init_table by blast
  then show "length t = 512" "\<forall>i\<in>device_roots. i < 512 \<longrightarrow> \<not> validw (t ! unat i)"
    using assms by (simp_all add: device_roots_def word_le_nat_alt word_less_nat_alt pte_valid_bit pte_from_raw_def)
qed

lemma device_root:
  assumes "p < 0x100000000"
  shows "hd (indexes (va_new (p + vmr_addr EXTERNAL_DEVICE_REGION))) \<in> device_roots"
proof -
  have p: "unat p < 4294967296" using assms by (simp add: word_less_nat_alt)
  then have u: "unat (p + 0xFFFFFFFF00000000) = unat p + 18446744069414584320" by (simp add: unat_word_ariths)
  have d: "(unat p + 18446744069414584320) div 1073741824 = unat p div 1073741824 + 17179869180" by simp
  have "unat p div 1073741824 < 4" using p by simp
  moreover have "(k + 17179869180) mod 512 = k + 508" if "k < 4" for k :: nat
  proof -
    have "k + 17179869180 = (k + 508) + 33554431 * 512" by simp
    then have "(k + 17179869180) mod 512 = (k + 508) mod 512" by (metis mod_mult_self1)
    then show ?thesis using that by simp
  qed
  ultimately have "unat (hd (indexes (va_new (p + vmr_addr EXTERNAL_DEVICE_REGION)))) = unat p div 1073741824 + 508"
    using d by (simp add: hd_indexes va_new_def EXTERNAL_DEVICE_REGION_def u)
  with \<open>unat p div 1073741824 < 4\<close> show ?thesis
    by (simp add: device_roots_def word_le_nat_alt word_less_nat_alt)
qed

section \<open>Device pages\<close>

text \<open>The drivers map the page of a physical register address \<open>p\<close> at \<open>p\<close> plus the start of the device region.\<close>

abbreviation device_va :: "usize \<Rightarrow> VirtAddr" where
  "device_va p \<equiv> va_new (p + vmr_addr EXTERNAL_DEVICE_REGION)"

definition device_mapped :: "usize \<Rightarrow> 'h kmem \<Rightarrow> usize \<Rightarrow> bool" where
  "device_mapped r m p \<longleftrightarrow> p < 0x100000000 \<and> boot_translate r m (device_va p) = Some (pa_new p)"

text \<open>A well-formed table, with enough free frames for the tables that the addresses \<open>pages\<close> still need.\<close>

definition boot_ready :: "usize \<Rightarrow> ('h \<Rightarrow> usize set) \<Rightarrow> nat \<Rightarrow> usize set \<Rightarrow> 'h kmem \<Rightarrow> bool" where
  "boot_ready r live n pages m \<longleftrightarrow> boot_wf device_roots r live m \<and> remap_entries (km_boot m) \<and>
     card (live (km_heap m)) + card (missing r m ((\<lambda>p. table_path (device_va p)) ` pages)) \<le> n"

lemma unat_device_va:
  assumes "p < 0x100000000"
  shows "unat (va_as_usize (device_va p)) = unat p + 18446744069414584320"
  using assms by (simp add: word_less_nat_alt va_new_def EXTERNAL_DEVICE_REGION_def unat_word_ariths)

lemma device_va_page:
  assumes "p < 0x100000000" "q < 0x100000000" "indexes (device_va q) = indexes (device_va p)"
  shows "pa_add (pa_align_page_down (pa_new p)) (va_as_usize (device_va q) AND (PAGE_SIZE - 1)) = pa_new q"
proof -
  note u = unat_device_va [OF assms(1)] unat_device_va [OF assms(2)]
  have "canonical (device_va p)" "canonical (device_va q)"
    using u by (simp_all add: canonical_def REMAP_MEM_OFFSET_def word_le_nat_alt)
  then have "va_align_page_down (device_va q) = va_align_page_down (device_va p)"
    using same_page_iff assms(3) by blast
  then have "unat (va_as_usize (device_va q)) div 4096 = unat (va_as_usize (device_va p)) div 4096"
    using unat_align_page_down [of "va_as_usize (device_va q)"] unat_align_page_down [of "va_as_usize (device_va p)"]
    by (simp add: va_align_page_down_def)
  moreover have "(k + 18446744069414584320) div 4096 = k div 4096 + 4503599626321920" for k :: nat by simp
  ultimately have d: "unat q div 4096 = unat p div 4096" unfolding u by (metis add_right_cancel)
  have o: "unat (va_as_usize (device_va q) AND (PAGE_SIZE - 1)) = unat q mod 4096"
    unfolding align_page_down_offset u(2) using mod_mult_self1 [of "unat q" 4503599626321920 4096] by simp
  have "unat (align_page_down p + (va_as_usize (device_va q) AND (PAGE_SIZE - 1))) = unat q"
    using assms(2) by (simp add: unat_word_ariths(1) unat_align_page_down o word_less_nat_alt flip: d)
  then show ?thesis by (simp add: pa_add_def pa_align_page_down_def pa_new_def word_unat_eq_iff)
qed

lemma table_path_paths: "hd (indexes a) \<in> R \<Longrightarrow> table_path a \<in> paths R"
  by (rule indexes_split [where R = R and a = a]) simp

lemma boot_map_device:
  assumes ok: "frame_allocator_ok A live" "frames_for A live n" and ready: "boot_ready r live n pages m"
    and p: "p \<in> pages" "p < 0x100000000" and fin: "finite pages" and low: "\<forall>p\<in>pages. p < 0x100000000"
  shows "\<exists>m'. boot_map A (device_va p) (pa_new p) m = (Ok (), m') \<and> boot_ready r live n pages m' \<and>
    device_mapped r m' p \<and> (\<forall>q. device_mapped r m q \<longrightarrow> device_mapped r m' q)"
proof -
  let ?q = "table_path (device_va p)" and ?Q = "(\<lambda>p. table_path (device_va p)) ` pages"
  have wf: "boot_wf device_roots r live m" and up: "remap_entries (km_boot m)" and n: "card (live (km_heap m)) + card (missing r m ?Q) \<le> n"
    using ready by (simp_all add: boot_ready_def)
  have finQ: "finite (missing r m ?Q)" using fin by (simp add: finite_missing)
  have sub: "missing r m {?q} \<subseteq> missing r m ?Q" using p(1) by (auto simp: missing_def)
  then have le: "card (missing r m {?q}) \<le> card (missing r m ?Q)" by (rule card_mono [OF finQ])
  have paths: "?Q \<subseteq> paths device_roots" using table_path_paths [OF device_root] low by auto
  obtain m' where m': "boot_map A (device_va p) (pa_new p) m = (Ok (), m')" "boot_wf device_roots r live m'"
    "boot_mapped device_roots r (device_va p) (pa_new p) m m'"
    "card (live (km_heap m')) = card (live (km_heap m)) + card (missing r m {?q})"
    "\<forall>q\<in>paths device_roots. boot_table_at r m' q = None \<longleftrightarrow> boot_table_at r m q = None \<and> \<not> prefix q ?q"
    using boot_map_ok [OF ok wf device_root [OF p(2)], of "pa_new p"] n le by fastforce
  have "missing r m' ?Q = missing r m ?Q - missing r m {?q}"
    using m'(5) prefix_paths paths by (auto simp: missing_def)
  then have "card (missing r m' ?Q) = card (missing r m ?Q) - card (missing r m {?q})"
    using card_Diff_subset [OF finite_subset [OF sub finQ] sub] by simp
  moreover have "remap_entries (km_boot m')" using remap_entries_same_roots [OF up] m'(3) by (simp add: boot_mapped_def)
  ultimately have "boot_ready r live n pages m'" using m'(2,4) n le by (simp add: boot_ready_def)
  moreover have "device_mapped r m' q" if "q < 0x100000000" "q = p \<or> device_mapped r m q" for q
    using m'(3) device_root [OF that(1)] device_va_page [OF p(2) that(1)] that by (auto simp: boot_mapped_def device_mapped_def)
  ultimately show ?thesis using m'(1) p(2) unfolding device_mapped_def by blast
qed

text \<open>
  C8. \<^verbatim>\<open>BootPageTable::map\<close> maps exactly one page. With an allocator of \<open>n\<close> frames and a well-formed boot
  table, it makes the page of \<open>a\<close> translate to the frame of \<open>pa\<close> and leaves the translation of every
  other page, and the entries of the linear remapping, as they were; it allocates precisely the tables that were missing on
  the way. It panics only when those do not fit in the \<open>n\<close> frames, and then no translation has changed.
\<close>

theorem boot_map_correct:
  assumes "frame_allocator_ok A live" "frames_for A live n" "boot_wf R r live m" "hd (indexes a) \<in> R"
  shows "\<exists>res m'. boot_map A a pa m = (res, m') \<and> boot_wf R r live m' \<and>
    (res = Ok () \<and> boot_mapped R r a pa m m' \<and>
       card (live (km_heap m')) = card (live (km_heap m)) + card (missing r m {butlast (indexes a)}) \<or>
     res = Panicked \<and> same_roots R m m' \<and> (\<forall>b. hd (indexes b) \<in> R \<longrightarrow> boot_translate r m' b = boot_translate r m b) \<and>
       n < card (live (km_heap m)) + card (missing r m {butlast (indexes a)}))"
  using boot_map_ok [OF assms, of pa] by blast

definition boot_mem :: "usize list \<Rightarrow> usize list kmem" where
  "boot_mem t = \<lparr>km_cells = (\<lambda>_. 0), km_boot = t, km_heap = [], km_rc = (\<lambda>_. 0)\<rparr>"

lemma boot_mem_wf:
  assumes "boot_init BOOT_PAGE_TABLE = Ok t"
  shows "boot_wf device_roots 0x80210000 set (boot_mem t)"
proof (rule boot_wf_fresh)
  show "\<forall>i\<in>device_roots. i < 512 \<longrightarrow> \<not> validw (km_boot (boot_mem t) ! unat i)" "length (km_boot (boot_mem t)) = 512"
    using boot_init_device_roots [OF assms] by (simp_all add: boot_mem_def)
qed (simp_all add: boot_mem_def linear_def addr_config_defs)

theorem boot_map_correct_witness:
  "\<exists>t m'. boot_init BOOT_PAGE_TABLE = Ok t \<and>
     boot_map pool_allocator (va_new 0xFFFFFFFF10000000) (pa_new 0x10000000) (boot_mem t) = (Ok (), m') \<and>
     boot_translate 0x80210000 m' (VirtAddr 0xFFFFFFFF10000005) = Some (PhysAddr 0x10000005)"
proof -
  let ?a = "va_new 0xFFFFFFFF10000000"
  obtain t where t: "boot_init BOOT_PAGE_TABLE = Ok t" using boot_init_table by blast
  have i: "indexes ?a = [508, 128, 0]" "indexes (VirtAddr 0xFFFFFFFF10000005) = [508, 128, 0]"
    by (simp_all add: indexes_def va_new_def)
  have a: "hd (indexes ?a) \<in> device_roots" by (simp add: i device_roots_def)
  have "card (missing 0x80210000 (boot_mem t) {butlast (indexes ?a)}) \<le> card (set (prefixes [508 :: usize, 128]))"
    by (rule card_mono) (auto simp: missing_def i prefix_Cons)
  also have "\<dots> \<le> 3" by simp
  finally have "\<not> 8 < card (set (km_heap (boot_mem t))) + card (missing 0x80210000 (boot_mem t) {butlast (indexes ?a)})"
    by (simp add: boot_mem_def)
  with boot_map_correct [OF pool_allocator_ok pool_frames boot_mem_wf [OF t] a, of "pa_new 0x10000000"]
  obtain m' where "boot_map pool_allocator ?a (pa_new 0x10000000) (boot_mem t) = (Ok (), m')"
    "boot_mapped device_roots 0x80210000 ?a (pa_new 0x10000000) (boot_mem t) m'" by blast
  moreover from this(2) have "boot_translate 0x80210000 m' (VirtAddr 0xFFFFFFFF10000005) = Some (PhysAddr 0x10000005)"
    unfolding boot_mapped_def using i a by (simp add: pa_new_def pa_align_page_down_def align_page_down_def pa_add_def PAGE_SIZE_def)
  ultimately show ?thesis using t by blast
qed

end
