(* ===== verification/Pt_Ops.thy ===== *)
theory Pt_Ops
  imports Page_Table "HOL-Library.Multiset"
begin

text \<open>
  Sequences of page table operations (\<^verbatim>\<open>kern/modules/paging/src/lib.rs\<close>) together with the
  \<^verbatim>\<open>Arc<PhysFrame>\<close> handles that their callers hold. A caller may only pass on, clone or drop a handle that it holds,
  which is what the type system of the program enforces; the theory shows that under this discipline the page table stays
  well formed and that no frame is given back while it is mapped or held.
\<close>

unbundle bit_operations_syntax

section \<open>Accounting for references\<close>

text \<open>Between two states, the references counted and the references held by the page table change by the same amount,
  except that \<open>g\<close> references of each frame came from, and \<open>t\<close> went to, somebody else.\<close>

definition balanced :: "(PhysFrame \<Rightarrow> nat) \<Rightarrow> (PhysFrame \<Rightarrow> nat) \<Rightarrow> 'h kmem \<Rightarrow> PageTable \<Rightarrow> 'h kmem \<Rightarrow> PageTable \<Rightarrow> bool" where
  "balanced g t m pt m' pt' \<longleftrightarrow>
     (\<forall>f. km_rc m' (pf_addr f) + cnt (pt_frames pt) f + g f = km_rc m (pf_addr f) + cnt (pt_frames pt') f + t f)"

abbreviation none_of :: "PhysFrame \<Rightarrow> nat" where
  "none_of \<equiv> (\<lambda>f. 0)"

abbreviation one_of :: "PhysFrame \<Rightarrow> PhysFrame \<Rightarrow> nat" where
  "one_of f \<equiv> (\<lambda>x. if x = f then 1 else 0)"

lemma balanced_refl: "balanced none_of none_of m pt m pt"
  by (simp add: balanced_def)

lemma balanced_trans:
  assumes "balanced g none_of m pt m1 pt1" "balanced none_of none_of m1 pt1 m2 pt2"
  shows "balanced g none_of m pt m2 pt2"
  unfolding balanced_def
proof
  fix f
  have "km_rc m1 (pf_addr f) + cnt (pt_frames pt) f + g f = km_rc m (pf_addr f) + cnt (pt_frames pt1) f"
    "km_rc m2 (pf_addr f) + cnt (pt_frames pt1) f = km_rc m1 (pf_addr f) + cnt (pt_frames pt2) f"
    using assms by (simp_all add: balanced_def)
  then show "km_rc m2 (pf_addr f) + cnt (pt_frames pt) f + g f = km_rc m (pf_addr f) + cnt (pt_frames pt2) f + 0" by linarith
qed

lemma balanced_cells [simp]: "balanced g t m pt (write_cell p w m') pt' = balanced g t m pt m' pt'"
  by (simp add: balanced_def write_cell_def)

lemma rc_wf_fin: "rc_wf live m fr \<Longrightarrow> finite (dom fr)"
  by (simp add: rc_wf_def)

lemma create_from_balanced:
  assumes ok: "frame_allocator_ok A live"
  shows "pt_wf R live m pt \<Longrightarrow> p @ is \<in> paths R \<Longrightarrow> j < 512 \<Longrightarrow>
    table_at (km_cells m) (root_va pt) p = Some (va_as_usize (to_virt pa)) \<Longrightarrow>
    create_from A pa (is @ [j]) m pt = (r, m', pt') \<Longrightarrow> balanced none_of none_of m pt m' pt'"
proof (induction "is" arbitrary: p pa m pt)
  case Nil
  then show ?case
    using array_elem_cell [of j "va_as_usize (to_virt pa)"] by (simp add: balanced_refl)
next
  case (Cons i "is")
  let ?t = "va_as_usize (to_virt pa)"
  note pi = paths_prefix [OF Cons.prems(2)]
  have i: "i < 512" using paths_snocD [OF pi] by simp
  have ai: "array_elem 8 (as_array_base 8 (to_virt pa)) i = Ok (cell ?t i)"
    using array_elem_cell [OF i, of ?t] by simp
  have next_pa: "va_as_usize (to_virt (fst (pte_into (pte_from_raw w)))) = target w" for w by (simp add: target_def)
  have in_p: "(p @ [i]) @ is \<in> paths R" using Cons.prems(2) by simp
  show ?case
  proof (cases "validw (km_cells m (cell ?t i))")
    case True
    let ?pa = "fst (pte_into (pte_from_raw (km_cells m (cell ?t i))))"
    have at: "table_at (km_cells m) (root_va pt) (p @ [i]) = Some (va_as_usize (to_virt ?pa))"
      using True Cons.prems(4) by (simp add: table_at_snoc next_pa)
    have "create_from A ?pa (is @ [j]) m pt = (r, m', pt')" using Cons.prems(5) True by (simp add: ai Let_def)
    then show ?thesis by (rule Cons.IH [OF Cons.prems(1) in_p Cons.prems(3) at])
  next
    case False
    have rc: "rc_wf live m (pt_frames pt)" using Cons.prems(1) by (simp add: pt_wf_def)
    from frame_alloc_cases [OF ok, of m] show ?thesis
    proof (elim disjE exE conjE)
      fix m1 assume "PhysFrame_alloc A m = (Fail NotEnoughMem, m1)" "same_pages (live (km_heap m)) m m1"
      then show ?thesis using Cons.prems(5) False by (simp add: ai Let_def same_pages_def balanced_def)
    next
      fix a m1
      assume al: "PhysFrame_alloc A m = (Ok (PhysFrame (to_phys (VirtAddr a))), m1)" "4096 dvd unat a" "linear a"
        "a \<notin> live (km_heap m)" "live (km_heap m1) = insert a (live (km_heap m))"
        "\<forall>i<512. km_cells m1 (cell a i) = 0"
        "\<forall>b\<in>live (km_heap m). \<forall>i<512. km_cells m1 (cell b i) = km_cells m (cell b i)"
        "km_rc m1 = (km_rc m)(to_phys (VirtAddr a) := 1)"
      define m2 where "m2 = write_cell (cell ?t i)
        (pte_bits (pte_set (to_phys (VirtAddr a)) PP_V (pte_from_raw (km_cells m1 (cell ?t i))))) m1"
      define pt2 where "pt2 = pt\<lparr>pt_frames := (pt_frames pt)(VirtAddr a \<mapsto> PhysFrame (to_phys (VirtAddr a)))\<rparr>"
      note step = create_step [OF ok Cons.prems(1) pi Cons.prems(4) False al m2_def pt2_def]
      let ?pa = "fst (pte_into (pte_from_raw (km_cells m2 (cell ?t i))))"
      have at: "table_at (km_cells m2) (root_va pt2) (p @ [i]) = Some (va_as_usize (to_virt ?pa))"
        using step(3,5) by (simp add: next_pa pt2_def)
      have "create_from A ?pa (is @ [j]) m2 pt2 = (r, m', pt')"
        using False al(1) step(1) Cons.prems(5) by (simp add: ai Let_def drop_old_def flip: m2_def pt2_def)
      then have IH: "balanced none_of none_of m2 pt2 m' pt'" by (rule Cons.IH [OF step(2) in_p Cons.prems(3) at])
      have zero: "km_rc m (to_phys (VirtAddr a)) = 0" using rc al(4) by (auto simp: rc_wf_def)
      have "balanced none_of none_of m pt m2 pt2"
        unfolding balanced_def
      proof
        fix f
        show "km_rc m2 (pf_addr f) + cnt (pt_frames pt) f + 0 = km_rc m (pf_addr f) + cnt (pt_frames pt2) f + 0"
          using cnt_upd [OF rc_wf_fin [OF rc], of "VirtAddr a" "Some (PhysFrame (to_phys (VirtAddr a)))" f] step(1) zero
          by (cases "f = PhysFrame (to_phys (VirtAddr a))") (auto simp: m2_def pt2_def write_cell_def al(8) PhysFrame.expand)
      qed
      then show ?thesis using IH by (rule balanced_trans)
    qed
  qed
qed

text \<open>Putting a handle in the place of the one recorded for a page, and dropping that one.\<close>

lemma replace_frame_balanced:
  assumes ok: "frame_allocator_ok A live" and wf: "pt_wf R live m pt"
    and x: "\<forall>f. x = Some f \<longrightarrow> cnt (pt_frames pt) f < km_rc m (pf_addr f)"
    and d: "drop_old A (pt_frames pt k) m = Ok m1"
  shows "balanced (\<lambda>f. if x = Some f then 1 else 0) none_of m pt m1 (pt\<lparr>pt_frames := (pt_frames pt)(k := x)\<rparr>)"
proof -
  have rc: "rc_wf live m (pt_frames pt)" using wf by (simp add: pt_wf_def)
  note fin = rc_wf_fin [OF rc]
  have "km_rc m1 (pf_addr f) + (if pt_frames pt k = Some f then 1 else 0) = km_rc m (pf_addr f)" for f
  proof (cases "pt_frames pt k")
    case None
    then show ?thesis using d by (simp add: drop_old_def)
  next
    case (Some g)
    have le: "cnt (pt_frames pt) g \<le> km_rc m (pf_addr g)" using rc by (simp add: rc_wf_def)
    have rc1: "rc_wf live m ((pt_frames pt)(k := x))" using rc_wf_upd [OF rc] x by simp
    have "cnt ((pt_frames pt)(k := x)) g < km_rc m (pf_addr g)"
      using cnt_upd [OF fin, of k x g] Some x cnt_pos [OF fin Some] le by (cases "x = Some g") simp_all
    from arc_drop_ok [OF ok rc1 this] d Some have "km_rc m1 = (km_rc m)(pf_addr g := km_rc m (pf_addr g) - 1)"
      by (auto simp: drop_old_def)
    moreover have "0 < km_rc m (pf_addr g)" using rc_wf_live(2) [OF rc Some] .
    ultimately show ?thesis using Some by (auto simp: PhysFrame.expand)
  qed
  moreover have "cnt ((pt_frames pt)(k := x)) f + (if pt_frames pt k = Some f then 1 else 0) =
      cnt (pt_frames pt) f + (if x = Some f then 1 else 0)" for f by (rule cnt_upd [OF fin])
  ultimately have "km_rc m1 (pf_addr f) + cnt (pt_frames pt) f + (if x = Some f then 1 else 0) =
      km_rc m (pf_addr f) + cnt ((pt_frames pt)(k := x)) f" for f
    by (metis (no_types, lifting) add.assoc add.commute)
  then show ?thesis by (simp add: balanced_def)
qed

lemma pt_map_balanced:
  assumes ok: "frame_allocator_ok A live" and wf: "pt_wf R live m pt" and a: "hd (indexes a) \<in> R"
    and own: "cnt (pt_frames pt) f < km_rc m (pf_addr f)" and map: "pt_map A a f perm m pt = (r, m', pt')"
  shows "balanced (one_of f) none_of m pt m' pt'"
proof (rule indexes_split [where R = R and a = a])
  fix q j assume q: "indexes a = q @ [j]" "length q = 2" "j < 512" "hd (indexes a) \<in> R \<Longrightarrow> q \<in> paths R"
  let ?k = "va_align_page_down a"
  define pt1 where "pt1 = pt\<lparr>pt_frames := (pt_frames pt)(?k \<mapsto> f)\<rparr>"
  obtain m1 where m1: "drop_old A (pt_frames pt ?k) m = Ok m1" "pt_wf R live m1 pt1"
    using replace_frame [OF ok wf a, of "Some f"] own by (auto simp: pt1_def)
  have b1: "balanced (one_of f) none_of m pt m1 pt1"
    using replace_frame_balanced [OF ok wf _ m1(1), of "Some f"] own by (simp add: pt1_def eq_commute)
  obtain r2 m2 pt2 where cr: "create_from A (pt_root pt1) (q @ [j]) m1 pt1 = (r2, m2, pt2)" by (metis prod_cases3)
  have "balanced none_of none_of m1 pt1 m2 pt2"
    using create_from_balanced [OF ok m1(2), of "[]" q j "pt_root pt1" r2 m2 pt2] q(3) q(4) [OF a] cr by simp
  then have b: "balanced (one_of f) none_of m pt m2 pt2" by (rule balanced_trans [OF b1])
  have "pt_find_or_create A ?k m1 pt1 = (r2, m2, pt2)" by (simp add: pt_find_or_create_def indexes_align q(1) cr)
  then show ?thesis using map m1(1) b by (cases r2) (auto simp: pt_map_def Let_def simp flip: pt1_def)
qed

lemma pt_unmap_balanced:
  assumes ok: "frame_allocator_ok A live" and wf: "pt_wf R live m pt" and a: "hd (indexes a) \<in> R"
    and un: "pt_unmap A a m pt = (r, m', pt')"
  shows "balanced none_of none_of m pt m' pt'"
proof (cases "pt_frames pt (va_align_page_down a)")
  case None
  then show ?thesis using un by (auto simp: pt_unmap_def balanced_refl)
next
  case (Some f)
  let ?k = "va_align_page_down a"
  define pt1 where "pt1 = pt\<lparr>pt_frames := (pt_frames pt)(?k := None)\<rparr>"
  obtain m1 where m1: "drop_old A (pt_frames pt ?k) m = Ok m1" using replace_frame [OF ok wf a, of None] by auto
  have "balanced none_of none_of m pt m1 pt1"
    using replace_frame_balanced [OF ok wf _ m1, of None] by (simp add: pt1_def)
  then show ?thesis using un Some m1 by (auto simp: pt_unmap_def Let_def drop_old_def simp flip: pt1_def split: sum.splits)
qed

section \<open>Operations of callers that hold handles\<close>

datatype pt_op = PT_Alloc | PT_Map VirtAddr PhysFrame PagePerm | PT_Unmap VirtAddr | PT_Lookup VirtAddr
  | PT_Translate VirtAddr | PT_Clone PhysFrame | PT_Drop PhysFrame

record 'h pt_state =
  ps_mem :: "'h kmem"
  ps_table :: PageTable
  ps_held :: "PhysFrame multiset"

text \<open>What the types allow: a handle that is passed on or dropped is one the caller holds. The regions are those the table
  manages itself, and permissions are made of the defined flags.\<close>

definition pt_allowed :: "usize set \<Rightarrow> pt_op \<Rightarrow> PhysFrame multiset \<Rightarrow> bool" where
  "pt_allowed R op H = (case op of
     PT_Alloc \<Rightarrow> True
   | PT_Map a f perm \<Rightarrow> canonical a \<and> hd (indexes a) \<in> R \<and> perm AND PP_all = perm \<and> f \<in># H
   | PT_Unmap a \<Rightarrow> canonical a \<and> hd (indexes a) \<in> R
   | PT_Lookup a \<Rightarrow> canonical a \<and> hd (indexes a) \<in> R
   | PT_Translate a \<Rightarrow> canonical a \<and> hd (indexes a) \<in> R
   | PT_Clone f \<Rightarrow> f \<in># H
   | PT_Drop f \<Rightarrow> f \<in># H)"

definition pt_exec :: "'h frame_allocator \<Rightarrow> pt_op \<Rightarrow> 'h pt_state \<Rightarrow> unit res \<times> 'h pt_state" where
  "pt_exec A op s = (let m = ps_mem s; pt = ps_table s; H = ps_held s in case op of
     PT_Alloc \<Rightarrow> (case PhysFrame_alloc A m of
         (Inl e, m') \<Rightarrow> (Inl e, s\<lparr>ps_mem := m'\<rparr>)
       | (Inr f, m') \<Rightarrow> (Ok (), s\<lparr>ps_mem := m', ps_held := add_mset f H\<rparr>))
   | PT_Map a f perm \<Rightarrow> (case pt_map A a f perm m pt of
         (r, m', pt') \<Rightarrow> (r, \<lparr>ps_mem = m', ps_table = pt', ps_held = H - {#f#}\<rparr>))
   | PT_Unmap a \<Rightarrow> (case pt_unmap A a m pt of (r, m', pt') \<Rightarrow> (r, s\<lparr>ps_mem := m', ps_table := pt'\<rparr>))
   | PT_Lookup a \<Rightarrow> (case pt_lookup a m pt of
         (Inl e, m') \<Rightarrow> (Inl e, s\<lparr>ps_mem := m'\<rparr>)
       | (Inr (f, perm), m') \<Rightarrow> (Ok (), s\<lparr>ps_mem := m', ps_held := add_mset f H\<rparr>))
   | PT_Translate a \<Rightarrow> (case pt_translate A a m pt of
         (Inl e, m') \<Rightarrow> (Inl e, s\<lparr>ps_mem := m'\<rparr>)
       | (Inr x, m') \<Rightarrow> (Ok (), s\<lparr>ps_mem := m'\<rparr>))
   | PT_Clone f \<Rightarrow> (Ok (), s\<lparr>ps_mem := arc_clone f m, ps_held := add_mset f H\<rparr>)
   | PT_Drop f \<Rightarrow> (case arc_drop A f m of
         Inl e \<Rightarrow> (Inl e, s)
       | Inr m' \<Rightarrow> (Ok (), s\<lparr>ps_mem := m', ps_held := H - {#f#}\<rparr>)))"

inductive pt_reach :: "'h frame_allocator \<Rightarrow> usize set \<Rightarrow> 'h pt_state \<Rightarrow> 'h pt_state \<Rightarrow> bool" for A R s0 where
  start: "pt_reach A R s0 s0"
| exec: "pt_reach A R s0 s \<Longrightarrow> pt_allowed R op (ps_held s) \<Longrightarrow> pt_exec A op s = (r, s') \<Longrightarrow> pt_reach A R s0 s'"

text \<open>The invariant: the page table is well formed and coherent, and every handle that is held is counted beside those that the
  table keeps.\<close>

definition pt_owned :: "usize set \<Rightarrow> ('h \<Rightarrow> usize set) \<Rightarrow> 'h pt_state \<Rightarrow> bool" where
  "pt_owned R live s \<longleftrightarrow> pt_inv R live (ps_mem s) (ps_table s) \<and>
     (\<forall>f. cnt (pt_frames (ps_table s)) f + count (ps_held s) f \<le> km_rc (ps_mem s) (pf_addr f))"

lemma balanced_owned:
  assumes "balanced g none_of m pt m' pt'" "\<forall>f. cnt (pt_frames pt) f + count H f \<le> km_rc m (pf_addr f)"
    and "\<forall>f. g f + count H' f \<le> count H f"
  shows "cnt (pt_frames pt') f + count H' f \<le> km_rc m' (pf_addr f)"
proof -
  have "km_rc m' (pf_addr f) + cnt (pt_frames pt) f + g f = km_rc m (pf_addr f) + cnt (pt_frames pt') f"
    "cnt (pt_frames pt) f + count H f \<le> km_rc m (pf_addr f)" "g f + count H' f \<le> count H f"
    using assms by (simp_all add: balanced_def)
  then show ?thesis by linarith
qed

lemma held_slack:
  assumes "pt_owned R live s" "f \<in># ps_held s"
  shows "cnt (pt_frames (ps_table s)) f < km_rc (ps_mem s) (pf_addr f)"
proof -
  have "0 < count (ps_held s) f" using assms(2) by simp
  then show ?thesis using assms(1) unfolding pt_owned_def by (metis add_lessD1 less_add_same_cancel1 order_less_le_trans)
qed

text \<open>Only counters change.\<close>

lemma pt_inv_recount:
  assumes inv: "pt_inv R live m pt" and rc: "rc_wf live m' (pt_frames pt)"
    and cells: "\<And>b i. b \<in> live (km_heap m') \<Longrightarrow> b \<in> live (km_heap m) \<Longrightarrow> i < 512 \<Longrightarrow> km_cells m' (cell b i) = km_cells m (cell b i)"
  shows "pt_inv R live m' pt"
proof -
  have wf: "pt_wf R live m pt" and co: "pt_coherent R m pt" and R: "managed R" using inv by (simp_all add: pt_inv_def pt_wf_def)
  note agree = pt_wf_agree [OF wf rc refl refl cells]
  then have "extends R live m pt m' pt" by (simp add: extends_def)
  from extends_coherent [OF this R co] show ?thesis using agree(1) by (simp add: pt_inv_def)
qed

lemma clone_owned:
  assumes o: "pt_owned R live s" and f: "0 < km_rc (ps_mem s) (pf_addr f)"
  shows "pt_owned R live (s\<lparr>ps_mem := arc_clone f (ps_mem s), ps_held := add_mset f (ps_held s)\<rparr>)"
proof -
  have inv: "pt_inv R live (ps_mem s) (ps_table s)" and le: "\<forall>g. cnt (pt_frames (ps_table s)) g + count (ps_held s) g \<le> km_rc (ps_mem s) (pf_addr g)"
    using o by (simp_all add: pt_owned_def)
  have rc: "rc_wf live (ps_mem s) (pt_frames (ps_table s))" using inv by (simp add: pt_inv_def pt_wf_def)
  have "rc_wf live (arc_clone f (ps_mem s)) (pt_frames (ps_table s))"
    using rc f by (auto simp: rc_wf_def arc_clone_def le_SucI dest: PhysFrame.expand)
  then have "pt_inv R live (arc_clone f (ps_mem s)) (ps_table s)"
    by (rule pt_inv_recount [OF inv]) (simp add: arc_clone_def)
  moreover have "cnt (pt_frames (ps_table s)) g + count (add_mset f (ps_held s)) g \<le> km_rc (arc_clone f (ps_mem s)) (pf_addr g)" for g
    using le by (cases "g = f") (auto simp: arc_clone_def PhysFrame.expand)
  ultimately show ?thesis by (simp add: pt_owned_def)
qed

lemma drop_owned:
  assumes ok: "frame_allocator_ok A live" and o: "pt_owned R live s" and f: "f \<in># ps_held s"
  shows "\<exists>m'. arc_drop A f (ps_mem s) = Ok m' \<and> pt_owned R live (s\<lparr>ps_mem := m', ps_held := ps_held s - {#f#}\<rparr>)"
proof -
  have inv: "pt_inv R live (ps_mem s) (ps_table s)" and le: "\<forall>g. cnt (pt_frames (ps_table s)) g + count (ps_held s) g \<le> km_rc (ps_mem s) (pf_addr g)"
    using o by (simp_all add: pt_owned_def)
  have rc: "rc_wf live (ps_mem s) (pt_frames (ps_table s))" using inv by (simp add: pt_inv_def pt_wf_def)
  from arc_drop_ok [OF ok rc held_slack [OF o f]] obtain m' where
    m': "arc_drop A f (ps_mem s) = Ok m'" "rc_wf live m' (pt_frames (ps_table s))"
      "km_rc m' = (km_rc (ps_mem s))(pf_addr f := km_rc (ps_mem s) (pf_addr f) - 1)"
      "\<forall>b\<in>live (km_heap m'). \<forall>i<512. km_cells m' (cell b i) = km_cells (ps_mem s) (cell b i)" by blast
  have "pt_inv R live m' (ps_table s)" by (rule pt_inv_recount [OF inv m'(2)]) (use m'(4) in blast)
  moreover have "cnt (pt_frames (ps_table s)) g + count (ps_held s - {#f#}) g \<le> km_rc m' (pf_addr g)" for g
  proof (cases "g = f")
    case True
    have "0 < count (ps_held s) f" using f by simp
    then show ?thesis using le [rule_format, of f] True by (simp add: m'(3))
  next
    case False
    then have "pf_addr g \<noteq> pf_addr f" by (auto dest: PhysFrame.expand)
    then show ?thesis using le [rule_format, of g] False by (simp add: m'(3))
  qed
  ultimately show ?thesis using m'(1) by (simp add: pt_owned_def)
qed

lemma map_owned:
  assumes ok: "frame_allocator_ok A live" and o: "pt_owned R live s" and al: "pt_allowed R (PT_Map a f perm) (ps_held s)"
  shows "\<exists>r m' pt'. pt_map A a f perm (ps_mem s) (ps_table s) = (r, m', pt') \<and> r \<noteq> Panicked \<and>
    pt_owned R live \<lparr>ps_mem = m', ps_table = pt', ps_held = ps_held s - {#f#}\<rparr>"
proof -
  have inv: "pt_inv R live (ps_mem s) (ps_table s)" and le: "\<forall>g. cnt (pt_frames (ps_table s)) g + count (ps_held s) g \<le> km_rc (ps_mem s) (pf_addr g)"
    using o by (simp_all add: pt_owned_def)
  have a: "canonical a" "hd (indexes a) \<in> R" "perm AND PP_all = perm" "f \<in># ps_held s" using al by (simp_all add: pt_allowed_def)
  note own = held_slack [OF o a(4)]
  obtain r m' pt' where m': "pt_map A a f perm (ps_mem s) (ps_table s) = (r, m', pt')" "pt_inv R live m' pt'" "r = Ok () \<or> r = Fail NotEnoughMem"
    using pt_map_spec [OF ok inv a(1,2) own a(3)] by blast
  have wf: "pt_wf R live (ps_mem s) (ps_table s)" using inv by (simp add: pt_inv_def)
  have "one_of f g + count (ps_held s - {#f#}) g \<le> count (ps_held s) g" for g
    using a(4) by (cases "g = f") (simp_all add: Suc_le_eq)
  with balanced_owned [OF pt_map_balanced [OF ok wf a(2) own m'(1)] le]
  have "\<forall>g. cnt (pt_frames pt') g + count (ps_held s - {#f#}) g \<le> km_rc m' (pf_addr g)" by blast
  then show ?thesis using m' by (auto simp: pt_owned_def)
qed

lemma unmap_owned:
  assumes ok: "frame_allocator_ok A live" and o: "pt_owned R live s" and a: "canonical a" "hd (indexes a) \<in> R"
  shows "\<exists>r m' pt'. pt_unmap A a (ps_mem s) (ps_table s) = (r, m', pt') \<and> r \<noteq> Panicked \<and>
    pt_owned R live (s\<lparr>ps_mem := m', ps_table := pt'\<rparr>)"
proof -
  have inv: "pt_inv R live (ps_mem s) (ps_table s)" and le: "\<forall>g. cnt (pt_frames (ps_table s)) g + count (ps_held s) g \<le> km_rc (ps_mem s) (pf_addr g)"
    using o by (simp_all add: pt_owned_def)
  have wf: "pt_wf R live (ps_mem s) (ps_table s)" using inv by (simp add: pt_inv_def)
  obtain r m' pt' where m': "pt_unmap A a (ps_mem s) (ps_table s) = (r, m', pt')" "pt_inv R live m' pt'" "r \<noteq> Panicked"
    using pt_unmap_spec [OF ok inv a] inv by (cases "pt_frames (ps_table s) (va_align_page_down a)") auto
  have "\<forall>g. cnt (pt_frames pt') g + count (ps_held s) g \<le> km_rc m' (pf_addr g)"
    using balanced_owned [OF pt_unmap_balanced [OF ok wf a(2) m'(1)] le, of "ps_held s"] by simp
  then show ?thesis using m' by (auto simp: pt_owned_def)
qed

lemma alloc_owned:
  assumes ok: "frame_allocator_ok A live" and o: "pt_owned R live s"
  shows "pt_owned R live (snd (pt_exec A PT_Alloc s)) \<and> fst (pt_exec A PT_Alloc s) \<noteq> Panicked"
proof -
  have inv: "pt_inv R live (ps_mem s) (ps_table s)" and le: "\<forall>g. cnt (pt_frames (ps_table s)) g + count (ps_held s) g \<le> km_rc (ps_mem s) (pf_addr g)"
    using o by (simp_all add: pt_owned_def)
  have rc: "rc_wf live (ps_mem s) (pt_frames (ps_table s))" using inv by (simp add: pt_inv_def pt_wf_def)
  from frame_alloc_cases [OF ok, of "ps_mem s"] show ?thesis
  proof (elim disjE exE conjE)
    fix m' assume al: "PhysFrame_alloc A (ps_mem s) = (Fail NotEnoughMem, m')" "same_pages (live (km_heap (ps_mem s))) (ps_mem s) m'"
    have "pt_inv R live m' (ps_table s)" by (rule alloc_fail_keeps_pt_inv(2) [OF ok inv al(1)])
    then show ?thesis using al le by (simp add: pt_exec_def pt_owned_def same_pages_def)
  next
    fix a m' assume al: "PhysFrame_alloc A (ps_mem s) = (Ok (PhysFrame (to_phys (VirtAddr a))), m')" "a \<notin> live (km_heap (ps_mem s))"
      "km_rc m' = (km_rc (ps_mem s))(to_phys (VirtAddr a) := 1)"
    let ?f = "PhysFrame (to_phys (VirtAddr a))"
    have "km_rc (ps_mem s) (pf_addr ?f) = 0" using rc al(2) by (auto simp: rc_wf_def)
    then have z: "cnt (pt_frames (ps_table s)) ?f + count (ps_held s) ?f = 0" using le [rule_format, of ?f] by simp
    have "cnt (pt_frames (ps_table s)) g + count (add_mset ?f (ps_held s)) g \<le> km_rc m' (pf_addr g)" for g
      using le z by (cases "g = ?f") (auto simp: al(3) pf_addr_eq_iff)
    then show ?thesis using alloc_keeps_pt_inv(1) [OF ok inv al(1)] al(1) by (simp add: pt_exec_def pt_owned_def)
  qed
qed

lemma exec_owned:
  assumes ok: "frame_allocator_ok A live" and o: "pt_owned R live s" and al: "pt_allowed R op (ps_held s)"
  shows "pt_owned R live (snd (pt_exec A op s))" "fst (pt_exec A op s) \<noteq> Panicked"
proof -
  have inv: "pt_inv R live (ps_mem s) (ps_table s)" using o by (simp add: pt_owned_def)
  have rc: "rc_wf live (ps_mem s) (pt_frames (ps_table s))" using inv by (simp add: pt_inv_def pt_wf_def)
  have "pt_owned R live (snd (pt_exec A op s)) \<and> fst (pt_exec A op s) \<noteq> Panicked"
  proof (cases op)
    case PT_Alloc
    then show ?thesis using alloc_owned [OF ok o] by simp
  next
    case (PT_Map a f perm)
    then show ?thesis using map_owned [OF ok o al [unfolded PT_Map]] by (auto simp: pt_exec_def)
  next
    case (PT_Unmap a)
    then show ?thesis using unmap_owned [OF ok o, of a] al by (auto simp: pt_exec_def pt_allowed_def)
  next
    case (PT_Lookup a)
    then have a: "canonical a" "hd (indexes a) \<in> R" using al by (simp_all add: pt_allowed_def)
    show ?thesis
    proof (cases "leaf (km_cells (ps_mem s)) (root_va (ps_table s)) (indexes a)")
      case None
      then show ?thesis using PT_Lookup o by (simp add: pt_exec_def pt_lookup_leaf)
    next
      case (Some w)
      obtain f where f: "pt_frames (ps_table s) (va_align_page_down a) = Some f" using pt_leaf_frame [OF inv a Some] by blast
      then show ?thesis using clone_owned [OF o rc_wf_live(2) [OF rc f]] PT_Lookup Some by (simp add: pt_exec_def pt_lookup_leaf)
    qed
  next
    case (PT_Translate a)
    then have a: "canonical a" "hd (indexes a) \<in> R" using al by (simp_all add: pt_allowed_def)
    have "fst (pt_translate A a (ps_mem s) (ps_table s)) \<noteq> Panicked" "snd (pt_translate A a (ps_mem s) (ps_table s)) = ps_mem s"
      using pt_leaf_frame [OF inv a]
      by (cases "leaf (km_cells (ps_mem s)) (root_va (ps_table s)) (indexes a)"; force simp: pt_translate_leaf [OF rc])+
    then show ?thesis using PT_Translate o
      by (cases "pt_translate A a (ps_mem s) (ps_table s)") (auto simp: pt_exec_def split: sum.split)
  next
    case (PT_Clone f)
    then have "f \<in># ps_held s" using al by (simp add: pt_allowed_def)
    from held_slack [OF o this] have "0 < km_rc (ps_mem s) (pf_addr f)" by simp
    from clone_owned [OF o this] PT_Clone show ?thesis by (simp add: pt_exec_def)
  next
    case (PT_Drop f)
    then show ?thesis using drop_owned [OF ok o, of f] al by (auto simp: pt_exec_def pt_allowed_def)
  qed
  then show "pt_owned R live (snd (pt_exec A op s))" "fst (pt_exec A op s) \<noteq> Panicked" by simp_all
qed

lemma reach_owned:
  assumes "frame_allocator_ok A live" "pt_reach A R s0 s" "pt_owned R live s0"
  shows "pt_owned R live s"
  using assms(2,3)
proof (induction rule: pt_reach.induct)
  case (exec s op r s')
  then show ?case using exec_owned(1) [OF assms(1), of R s op] by simp
qed

section \<open>Properties\<close>

text \<open>
  C6. Ownership of frames is sound. Start from a new page table and let callers allocate, map, unmap, look up, translate, clone
  and drop in any order, passing on only handles they hold. At every moment the page table is well formed and agrees with what the
  hardware walks, every frame that is mapped or held is a frame in use (none has been given back to the allocator), and no
  further operation that the types allow panics.
\<close>

theorem page_table_ownership_sound:
  assumes ok: "frame_allocator_ok A live" and rc: "rc_wf live m0 Map.empty" and new: "pt_new A m0 = (Ok pt0, m1)"
    and reach: "pt_reach A (free_roots (km_boot m0)) \<lparr>ps_mem = m1, ps_table = pt0, ps_held = {#}\<rparr> s"
  shows "pt_inv (free_roots (km_boot m0)) live (ps_mem s) (ps_table s) \<and>
    (\<forall>f k. f \<in># ps_held s \<or> pt_frames (ps_table s) k = Some f \<longrightarrow> va_as_usize (to_virt (pf_addr f)) \<in> live (km_heap (ps_mem s))) \<and>
    (\<forall>op. pt_allowed (free_roots (km_boot m0)) op (ps_held s) \<longrightarrow> fst (pt_exec A op s) \<noteq> Panicked)"
proof -
  let ?R = "free_roots (km_boot m0)"
  have inv: "pt_inv ?R live m1 pt0" by (rule pt_new_inv [OF ok rc new])
  then have "cnt (pt_frames pt0) f \<le> km_rc m1 (pf_addr f)" for f by (simp add: pt_inv_def pt_wf_def rc_wf_def)
  then have "pt_owned ?R live \<lparr>ps_mem = m1, ps_table = pt0, ps_held = {#}\<rparr>" using inv by (simp add: pt_owned_def)
  from reach_owned [OF ok reach this] have o: "pt_owned ?R live s" .
  then have inv: "pt_inv ?R live (ps_mem s) (ps_table s)" by (simp add: pt_owned_def)
  then have rc: "rc_wf live (ps_mem s) (pt_frames (ps_table s))" by (simp add: pt_inv_def pt_wf_def)
  have "va_as_usize (to_virt (pf_addr f)) \<in> live (km_heap (ps_mem s))" if "f \<in># ps_held s \<or> pt_frames (ps_table s) k = Some f" for f k
  proof -
    have "0 < km_rc (ps_mem s) (pf_addr f)" using that held_slack [OF o, of f] rc_wf_live(2) [OF rc, of k f] by auto
    then show ?thesis using rc by (simp add: rc_wf_def)
  qed
  then show ?thesis using inv exec_owned(2) [OF ok o] by blast
qed

text \<open>A caller allocates a frame and may then map it.\<close>

definition demo_state :: "usize list pt_state" where
  "demo_state = \<lparr>ps_mem = demo_mem1, ps_table = demo_pt, ps_held = {#}\<rparr>"

theorem page_table_ownership_sound_witness:
  "pt_inv (free_roots (km_boot demo_mem)) set (ps_mem (snd (pt_exec pool_allocator PT_Alloc demo_state))) demo_pt \<and>
   fst (pt_exec pool_allocator (PT_Map (VirtAddr 0x1234) (PhysFrame (PhysAddr 0x80001000)) PP_R)
     (snd (pt_exec pool_allocator PT_Alloc demo_state))) \<noteq> Panicked"
proof -
  let ?R = "free_roots (km_boot demo_mem)"
  let ?s = "snd (pt_exec pool_allocator PT_Alloc demo_state)"
  have s: "?s = \<lparr>ps_mem = demo_mem2, ps_table = demo_pt, ps_held = {#PhysFrame (PhysAddr 0x80001000)#}\<rparr>"
    by (simp add: pt_exec_def demo_state_def demo_alloc)
  have "pt_reach pool_allocator ?R demo_state ?s"
    by (rule pt_reach.exec [OF pt_reach.start, where op = PT_Alloc]) (simp_all add: pt_allowed_def prod_eq_iff)
  then have reach: "pt_reach pool_allocator ?R \<lparr>ps_mem = demo_mem1, ps_table = demo_pt, ps_held = {#}\<rparr> ?s" by (simp add: demo_state_def)
  have rc: "rc_wf set demo_mem Map.empty" by (simp add: rc_wf_def demo_mem_def cnt_def)
  have "pt_allowed ?R (PT_Map (VirtAddr 0x1234) (PhysFrame (PhysAddr 0x80001000)) PP_R) (ps_held ?s)"
    using demo_page by (simp add: pt_allowed_def s PP_all_def perm_flag_defs demo_mem_def)
  then show ?thesis
    using page_table_ownership_sound [OF pool_allocator_ok rc demo_new reach] s by simp
qed

end
