(* ===== verification/Riscv_Asm.thy ===== *)
theory Riscv_Asm
  imports Jrinx_Prelude
begin

text \<open>
  The fragment of the RISC-V instruction set that the kernel's assembly uses, executed on a
  record of registers, control registers and memory. The context switch and the trap entry
  are lists of these instructions.

  Saving a group of registers and loading it back is the recurring pattern: \<open>reg_frame\<close> is
  the contract of a group of slots, no register and no offset twice, and its lemmas say what
  a run of stores leaves in memory and what a run of loads, in any order, brings back.
\<close>

unbundle bit_operations_syntax

section \<open>Machine state\<close>

datatype reg =
    Zero | Ra | Sp | Gp | Tp | T0 | T1 | T2 | S0 | S1 | A0 | A1 | A2 | A3 | A4 | A5 | A6 | A7
  | S2 | S3 | S4 | S5 | S6 | S7 | S8 | S9 | S10 | S11 | T3 | T4 | T5 | T6

datatype freg =
    Ft0 | Ft1 | Ft2 | Ft3 | Ft4 | Ft5 | Ft6 | Ft7 | Fs0 | Fs1 | Fa0 | Fa1 | Fa2 | Fa3 | Fa4 | Fa5 | Fa6 | Fa7
  | Fs2 | Fs3 | Fs4 | Fs5 | Fs6 | Fs7 | Fs8 | Fs9 | Fs10 | Fs11 | Ft8 | Ft9 | Ft10 | Ft11

datatype csr = Sscratch | Sstatus | Scause | Sie | Stval | Sepc | Satp

record cpu =
  gpr :: "reg \<Rightarrow> usize"
  fpr :: "freg \<Rightarrow> usize"
  csrs :: "csr \<Rightarrow> usize"
  mem :: "usize \<Rightarrow> usize"

section \<open>Instructions\<close>

datatype instr =
    Sd reg nat reg
  | Ld reg nat reg
  | Fsd freg nat reg
  | Fld freg nat reg
  | Csrr reg csr
  | Csrw csr reg
  | Csrrw reg csr reg
  | Addi reg reg usize
  | Andi reg reg usize
  | Mv reg reg
  | SfenceVma

definition set_gpr :: "reg \<Rightarrow> usize \<Rightarrow> cpu \<Rightarrow> cpu" where
  "set_gpr r v c = (if r = Zero then c else c\<lparr>gpr := (gpr c)(r := v)\<rparr>)"

fun exec :: "instr \<Rightarrow> cpu \<Rightarrow> cpu" where
  "exec (Sd r off b) c = c\<lparr>mem := (mem c)(gpr c b + of_nat off := gpr c r)\<rparr>"
| "exec (Ld r off b) c = set_gpr r (mem c (gpr c b + of_nat off)) c"
| "exec (Fsd f off b) c = c\<lparr>mem := (mem c)(gpr c b + of_nat off := fpr c f)\<rparr>"
| "exec (Fld f off b) c = c\<lparr>fpr := (fpr c)(f := mem c (gpr c b + of_nat off))\<rparr>"
| "exec (Csrr r k) c = set_gpr r (csrs c k) c"
| "exec (Csrw k r) c = c\<lparr>csrs := (csrs c)(k := gpr c r)\<rparr>"
| "exec (Csrrw r k s) c = set_gpr r (csrs c k) (c\<lparr>csrs := (csrs c)(k := gpr c s)\<rparr>)"
| "exec (Addi r s i) c = set_gpr r (gpr c s + i) c"
| "exec (Andi r s i) c = set_gpr r (gpr c s AND i) c"
| "exec (Mv r s) c = set_gpr r (gpr c s) c"
| "exec SfenceVma c = c"

fun run :: "instr list \<Rightarrow> cpu \<Rightarrow> cpu" where
  "run [] c = c"
| "run (i # is) c = run is (exec i c)"

lemma run_append: "run (is @ js) c = run js (run is c)"
  by (induction "is" arbitrary: c) simp_all

section \<open>Register frames\<close>

fun store_slots :: "('r \<Rightarrow> usize) \<Rightarrow> usize \<Rightarrow> ('r \<times> nat) list \<Rightarrow> (usize \<Rightarrow> usize) \<Rightarrow> usize \<Rightarrow> usize" where
  "store_slots v b [] m = m"
| "store_slots v b (s # ss) m = store_slots v b ss (m(b + of_nat (snd s) := v (fst s)))"

fun load_slots :: "(usize \<Rightarrow> usize) \<Rightarrow> usize \<Rightarrow> ('r \<times> nat) list \<Rightarrow> ('r \<Rightarrow> usize) \<Rightarrow> 'r \<Rightarrow> usize" where
  "load_slots m b [] v = v"
| "load_slots m b (s # ss) v = load_slots m b ss (v(fst s := m (b + of_nat (snd s))))"

lemma run_stores:
  "run (map (\<lambda>s. Sd (fst s) (snd s) b) ss) c = c\<lparr>mem := store_slots (gpr c) (gpr c b) ss (mem c)\<rparr>"
  by (induction ss arbitrary: c) simp_all

lemma run_fstores:
  "run (map (\<lambda>s. Fsd (fst s) (snd s) b) ss) c = c\<lparr>mem := store_slots (fpr c) (gpr c b) ss (mem c)\<rparr>"
  by (induction ss arbitrary: c) simp_all

lemma run_loads:
  assumes "b \<notin> fst ` set ss" "Zero \<notin> fst ` set ss"
  shows "run (map (\<lambda>s. Ld (fst s) (snd s) b) ss) c = c\<lparr>gpr := load_slots (mem c) (gpr c b) ss (gpr c)\<rparr>"
  using assms by (induction ss arbitrary: c) (auto simp: set_gpr_def)

lemma run_floads:
  "run (map (\<lambda>s. Fld (fst s) (snd s) b) ss) c = c\<lparr>fpr := load_slots (mem c) (gpr c b) ss (fpr c)\<rparr>"
  by (induction ss arbitrary: c) simp_all

lemma store_slots_other: "\<forall>s\<in>set ss. a \<noteq> b + of_nat (snd s) \<Longrightarrow> store_slots v b ss m a = m a"
  by (induction ss arbitrary: m) simp_all

lemma load_slots_other: "r \<notin> fst ` set ss \<Longrightarrow> load_slots m b ss v r = v r"
  by (induction ss arbitrary: v) auto

lemma load_slots_get:
  "distinct (map fst ss) \<Longrightarrow> (r, off) \<in> set ss \<Longrightarrow> load_slots m b ss v r = m (b + of_nat off)"
proof (induction ss arbitrary: v)
  case (Cons s ss)
  then show ?case by (cases "(r, off) = s") (auto simp: load_slots_other rev_image_eqI)
qed simp

text \<open>Small offsets from one base are distinct addresses.\<close>

lemma offset_inj:
  assumes "i < 4096" "j < 4096"
  shows "(of_nat i :: usize) = of_nat j \<longleftrightarrow> i = j"
proof -
  have "unat (of_nat i :: usize) = i" "unat (of_nat j :: usize) = j" using assms by (simp_all add: unat_of_nat)
  then show ?thesis by metis
qed

locale reg_frame =
  fixes slots :: "('r \<times> nat) list"
  assumes regs_once: "distinct (map fst slots)"
    and offs_once: "distinct (map snd slots)"
    and offs_small: "\<forall>s\<in>set slots. snd s < 4096"
begin

lemma stored:
  assumes "(r, off) \<in> set slots"
  shows "store_slots v b slots m (b + of_nat off) = v r"
proof -
  have "store_slots v b ss m (b + of_nat off) = v r"
    if "distinct (map snd ss)" "\<forall>s\<in>set ss. snd s < 4096" "(r, off) \<in> set ss" for ss m
    using that
  proof (induction ss arbitrary: m)
    case (Cons s ss)
    show ?case
    proof (cases "(r, off) = s")
      case True
      then have "off \<notin> snd ` set ss" "off < 4096" "\<forall>t\<in>set ss. snd t < 4096"
        using Cons.prems by (simp_all flip: True)
      then have "\<forall>t\<in>set ss. b + of_nat off \<noteq> b + (of_nat (snd t) :: usize)"
        using offset_inj by (metis add_left_cancel image_eqI)
      then show ?thesis by (simp add: store_slots_other flip: True)
    next
      case False
      then show ?thesis using Cons by auto
    qed
  qed simp
  then show ?thesis using offs_once offs_small assms by blast
qed

lemma untouched: "\<forall>s\<in>set slots. a \<noteq> b + of_nat (snd s) \<Longrightarrow> store_slots v b slots m a = m a"
  by (rule store_slots_other)

lemma loaded:
  assumes "set ls = set slots" "length ls = length slots" "(r, off) \<in> set slots"
  shows "load_slots m b ls v r = m (b + of_nat off)"
proof -
  have "distinct slots" using regs_once by (simp add: distinct_map)
  then have "distinct ls" using assms(1,2) by (metis card_distinct distinct_card)
  moreover have "inj_on fst (set ls)" using regs_once assms(1) by (simp add: distinct_map)
  ultimately have "distinct (map fst ls)" by (simp add: distinct_map)
  then show ?thesis by (rule load_slots_get) (simp add: assms)
qed

text \<open>Loading a frame that still holds what was stored brings every register back.\<close>

lemma restored:
  assumes "set ls = set slots" "length ls = length slots" "r \<in> fst ` set slots"
    and "\<forall>s\<in>set slots. m' (b + of_nat (snd s)) = store_slots v b slots m (b + of_nat (snd s))"
  shows "load_slots m' b ls w r = v r"
proof -
  obtain off where o: "(r, off) \<in> set slots" using assms(3) by force
  have "load_slots m' b ls w r = m' (b + of_nat off)" by (rule loaded [OF assms(1,2) o])
  also have "\<dots> = v r" using assms(4) o stored [OF o] by force
  finally show ?thesis .
qed

end

end
