(* ===== verification/Switch_Context.thy ===== *)
theory Switch_Context
  imports Riscv_Asm Addr
begin

text \<open>
  The context switch of \<^verbatim>\<open>kern/modules/multitask/src/arch/riscv/mod.rs\<close>: the saved context,
  its constructors and the two assembly routines. The executor and the runtime hand control
  to each other only through it.
\<close>

unbundle bit_operations_syntax

section \<open>The code\<close>

record SwitchContext =
  sc_ra :: usize
  sc_sp :: usize
  sc_s0 :: usize
  sc_s1 :: usize
  sc_s2 :: usize
  sc_s3 :: usize
  sc_s4 :: usize
  sc_s5 :: usize
  sc_s6 :: usize
  sc_s7 :: usize
  sc_s8 :: usize
  sc_s9 :: usize
  sc_s10 :: usize
  sc_s11 :: usize
  sc_satp :: usize

definition sc_default :: SwitchContext where
  "sc_default = \<lparr>sc_ra = 0, sc_sp = 0, sc_s0 = 0, sc_s1 = 0, sc_s2 = 0, sc_s3 = 0, sc_s4 = 0, sc_s5 = 0,
     sc_s6 = 0, sc_s7 = 0, sc_s8 = 0, sc_s9 = 0, sc_s10 = 0, sc_s11 = 0, sc_satp = 0\<rparr>"

definition sc_new_executor :: "VirtAddr \<Rightarrow> VirtAddr \<Rightarrow> usize \<Rightarrow> SwitchContext" where
  "sc_new_executor entry stack_top satp =
     sc_default\<lparr>sc_ra := va_as_usize entry, sc_sp := va_as_usize stack_top, sc_satp := satp\<rparr>"

definition sc_init_executor_addr :: "VirtAddr \<Rightarrow> SwitchContext \<Rightarrow> SwitchContext" where
  "sc_init_executor_addr executor c = c\<lparr>sc_s0 := va_as_usize executor\<rparr>"

definition sc_new_runtime :: SwitchContext where
  "sc_new_runtime = sc_default"

text \<open>The layout (\<^verbatim>\<open>repr(C)\<close>): the fields in order, eight bytes each.\<close>

definition sc_fields :: "SwitchContext \<Rightarrow> usize list" where
  "sc_fields c = [sc_ra c, sc_sp c, sc_s0 c, sc_s1 c, sc_s2 c, sc_s3 c, sc_s4 c, sc_s5 c, sc_s6 c, sc_s7 c,
     sc_s8 c, sc_s9 c, sc_s10 c, sc_s11 c, sc_satp c]"

definition sc_at :: "(usize \<Rightarrow> usize) \<Rightarrow> usize \<Rightarrow> SwitchContext \<Rightarrow> bool" where
  "sc_at m a c \<longleftrightarrow> (\<forall>i<15. m (a + of_nat (8 * i)) = sc_fields c ! i)"

definition switch_slots :: "(reg \<times> nat) list" where
  "switch_slots = [(Ra, 0), (Sp, 8), (S0, 16), (S1, 24), (S2, 32), (S3, 40), (S4, 48), (S5, 56), (S6, 64),
     (S7, 72), (S8, 80), (S9, 88), (S10, 96), (S11, 104)]"

definition SATP_OFFSET :: nat where
  "SATP_OFFSET = 112"

definition switch_code :: "instr list" where
  "switch_code =
     map (\<lambda>s. Sd (fst s) (snd s) A0) switch_slots @
     [Csrr S0 Satp, Sd S0 SATP_OFFSET A0] @
     [Ld S0 SATP_OFFSET A1, Csrw Satp S0, SfenceVma] @
     map (\<lambda>s. Ld (fst s) (snd s) A1) (rev switch_slots)"

definition switch_context :: "cpu \<Rightarrow> cpu" where
  "switch_context c = run switch_code c"

definition executor_launch :: "cpu \<Rightarrow> cpu" where
  "executor_launch c = exec (Mv A0 S0) c"

section \<open>The frame\<close>

interpretation sw: reg_frame switch_slots
  by unfold_locales (simp_all add: switch_slots_def)

abbreviation switch_regs :: "reg set" where
  "switch_regs \<equiv> fst ` set switch_slots"

lemma switch_base: "A0 \<notin> fst ` set switch_slots" "A1 \<notin> fst ` set (rev switch_slots)" "Zero \<notin> fst ` set (rev switch_slots)"
  by (auto simp: switch_slots_def)

text \<open>The memory a switch leaves behind and the registers it loads.\<close>

definition saved_mem :: "cpu \<Rightarrow> usize \<Rightarrow> usize" where
  "saved_mem c = (store_slots (gpr c) (gpr c A0) switch_slots (mem c))(gpr c A0 + 112 := csrs c Satp)"

lemma switch_context_eq:
  "switch_context c =
     c\<lparr>mem := saved_mem c,
       csrs := (csrs c)(Satp := saved_mem c (gpr c A1 + 112)),
       gpr := load_slots (saved_mem c) (gpr c A1) (rev switch_slots)
                ((gpr c)(S0 := saved_mem c (gpr c A1 + 112)))\<rparr>"
proof -
  let ?c1 = "c\<lparr>mem := store_slots (gpr c) (gpr c A0) switch_slots (mem c)\<rparr>"
  let ?c2 = "?c1\<lparr>gpr := (gpr c)(S0 := csrs c Satp), mem := saved_mem c\<rparr>"
  let ?c3 = "?c2\<lparr>gpr := (gpr c)(S0 := saved_mem c (gpr c A1 + 112)),
                csrs := (csrs c)(Satp := saved_mem c (gpr c A1 + 112))\<rparr>"
  have 1: "run (map (\<lambda>s. Sd (fst s) (snd s) A0) switch_slots) c = ?c1" by (rule run_stores)
  have 2: "run [Csrr S0 Satp, Sd S0 SATP_OFFSET A0] ?c1 = ?c2"
    by (simp add: set_gpr_def SATP_OFFSET_def saved_mem_def)
  have 3: "run [Ld S0 SATP_OFFSET A1, Csrw Satp S0, SfenceVma] ?c2 = ?c3"
    by (simp add: set_gpr_def SATP_OFFSET_def)
  show ?thesis
    unfolding switch_context_def switch_code_def run_append 1 2 3 run_loads [OF switch_base(2,3)] by simp
qed

lemma saved_mem_slot:
  assumes "(r, off) \<in> set switch_slots"
  shows "saved_mem c (gpr c A0 + of_nat off) = gpr c r"
proof -
  have "of_nat off \<noteq> (112 :: usize)"
    using assms by (auto simp: switch_slots_def)
  then show ?thesis using sw.stored [OF assms] by (simp add: saved_mem_def)
qed

lemma saved_mem_satp: "saved_mem c (gpr c A0 + 112) = csrs c Satp"
  by (simp add: saved_mem_def)

lemma saved_mem_other:
  assumes "\<forall>i<15. a \<noteq> gpr c A0 + of_nat (8 * i)"
  shows "saved_mem c a = mem c a"
proof -
  have "\<forall>s\<in>set switch_slots. \<exists>i<15. snd s = 8 * i"
    by (auto simp: switch_slots_def)
  then have "\<forall>s\<in>set switch_slots. a \<noteq> gpr c A0 + of_nat (snd s)" using assms by metis
  moreover have "a \<noteq> gpr c A0 + 112" using assms [rule_format, of 14] by simp
  ultimately show ?thesis by (simp add: saved_mem_def sw.untouched)
qed

text \<open>The callee-saved state of a processor, as the context that a switch saves.\<close>

definition sc_of_cpu :: "cpu \<Rightarrow> SwitchContext" where
  "sc_of_cpu c = \<lparr>sc_ra = gpr c Ra, sc_sp = gpr c Sp, sc_s0 = gpr c S0, sc_s1 = gpr c S1, sc_s2 = gpr c S2,
     sc_s3 = gpr c S3, sc_s4 = gpr c S4, sc_s5 = gpr c S5, sc_s6 = gpr c S6, sc_s7 = gpr c S7,
     sc_s8 = gpr c S8, sc_s9 = gpr c S9, sc_s10 = gpr c S10, sc_s11 = gpr c S11, sc_satp = csrs c Satp\<rparr>"

definition sc_apart :: "usize \<Rightarrow> usize \<Rightarrow> bool" where
  "sc_apart a b \<longleftrightarrow> (\<forall>i<15. \<forall>j<15. a + of_nat (8 * i) \<noteq> b + (of_nat (8 * j) :: usize))"

lemma all_less_15: "(\<forall>i<15. P i) \<longleftrightarrow>
   P 0 \<and> P 1 \<and> P 2 \<and> P 3 \<and> P 4 \<and> P 5 \<and> P 6 \<and> P 7 \<and> P 8 \<and> P 9 \<and> P 10 \<and> P 11 \<and> P 12 \<and> P 13 \<and> P (14 :: nat)"
  by (auto simp: numeral_eq_Suc All_less_Suc)

lemma switch_loads:
  assumes "(r, off) \<in> set switch_slots"
  shows "gpr (switch_context c) r = saved_mem c (gpr c A1 + of_nat off)"
  unfolding switch_context_eq using sw.loaded [OF _ _ assms, of "rev switch_slots"] by simp

lemma switch_sc:
  assumes "\<forall>i<15. saved_mem c (gpr c A1 + of_nat (8 * i)) = sc_fields ctx ! i"
  shows "sc_of_cpu (switch_context c) = ctx"
proof -
  have r: "gpr (switch_context c) r = saved_mem c (gpr c A1 + of_nat off)" if "(r, off) \<in> set switch_slots" for r off
    using switch_loads that by blast
  have satp: "csrs (switch_context c) Satp = saved_mem c (gpr c A1 + 112)" by (simp add: switch_context_eq)
  show ?thesis
    using assms unfolding all_less_15
    by (simp add: sc_of_cpu_def satp sc_fields_def r [of Ra 0] r [of Sp 8] r [of S0 16] r [of S1 24] r [of S2 32]
        r [of S3 40] r [of S4 48] r [of S5 56] r [of S6 64] r [of S7 72] r [of S8 80] r [of S9 88] r [of S10 96]
        r [of S11 104] switch_slots_def)
qed

lemma switch_saves: "sc_at (mem (switch_context c)) (gpr c A0) (sc_of_cpu c)"
proof -
  have r: "saved_mem c (gpr c A0 + of_nat off) = gpr c r" if "(r, off) \<in> set switch_slots" for r off
    using saved_mem_slot that by blast
  show ?thesis
    unfolding sc_at_def all_less_15
    using r [of Ra 0] r [of Sp 8] r [of S0 16] r [of S1 24] r [of S2 32]
        r [of S3 40] r [of S4 48] r [of S5 56] r [of S6 64] r [of S7 72] r [of S8 80] r [of S9 88] r [of S10 96]
        r [of S11 104] saved_mem_satp [of c]
    by (simp add: switch_context_eq sc_fields_def sc_of_cpu_def switch_slots_def)
qed

lemma switch_takes:
  assumes "sc_at (mem c) (gpr c A1) ctx" "sc_apart (gpr c A0) (gpr c A1)"
  shows "sc_of_cpu (switch_context c) = ctx"
proof (rule switch_sc, intro allI impI)
  fix i :: nat assume "i < 15"
  then show "saved_mem c (gpr c A1 + of_nat (8 * i)) = sc_fields ctx ! i"
    using assms saved_mem_other [of "gpr c A1 + of_nat (8 * i)" c] unfolding sc_at_def sc_apart_def by metis
qed

section \<open>Properties\<close>

text \<open>
  C10. A switch stores the caller's callee-saved registers, stack pointer, return address and
  address space in the old context and takes all of them from the new one; every other
  register and every cell outside the old context keeps its value. A later switch back to
  the saved context, from any processor state in which that context is still intact,
  restores exactly the saved values.
\<close>

theorem switch_context_swaps:
  assumes new: "sc_at (mem c) (gpr c A1) ctx" and apart: "sc_apart (gpr c A0) (gpr c A1)"
    and later: "gpr d A1 = gpr c A0" "sc_apart (gpr d A0) (gpr d A1)"
      "\<forall>i<15. mem d (gpr c A0 + of_nat (8 * i)) = mem (switch_context c) (gpr c A0 + of_nat (8 * i))"
  shows "sc_of_cpu (switch_context c) = ctx \<and> sc_at (mem (switch_context c)) (gpr c A0) (sc_of_cpu c) \<and>
    (\<forall>r. r \<notin> switch_regs \<longrightarrow> gpr (switch_context c) r = gpr c r) \<and> fpr (switch_context c) = fpr c \<and>
    (\<forall>a. (\<forall>i<15. a \<noteq> gpr c A0 + of_nat (8 * i)) \<longrightarrow> mem (switch_context c) a = mem c a) \<and>
    sc_of_cpu (switch_context d) = sc_of_cpu c"
proof (intro conjI allI impI)
  show "sc_of_cpu (switch_context c) = ctx" by (rule switch_takes [OF new apart])
  show saved: "sc_at (mem (switch_context c)) (gpr c A0) (sc_of_cpu c)" by (rule switch_saves)
  show "gpr (switch_context c) r = gpr c r" if "r \<notin> switch_regs" for r
  proof -
    have "r \<noteq> S0" using that by (auto simp: switch_slots_def)
    then show ?thesis using that by (simp add: switch_context_eq load_slots_other)
  qed
  show "fpr (switch_context c) = fpr c" by (simp add: switch_context_eq)
  show "mem (switch_context c) a = mem c a" if "\<forall>i<15. a \<noteq> gpr c A0 + of_nat (8 * i)" for a
    using saved_mem_other [OF that] by (simp add: switch_context_eq)
  have "sc_at (mem d) (gpr d A1) (sc_of_cpu c)" using saved later(1,3) unfolding sc_at_def by metis
  then show "sc_of_cpu (switch_context d) = sc_of_cpu c" by (rule switch_takes [OF _ later(2)])
qed

definition demo_cpu :: "usize \<Rightarrow> usize \<Rightarrow> (usize \<Rightarrow> usize) \<Rightarrow> cpu" where
  "demo_cpu x y m = \<lparr>gpr = (\<lambda>_. 7)(A0 := x, A1 := y), fpr = (\<lambda>_. 0), csrs = (\<lambda>_. 5), mem = m\<rparr>"

theorem switch_context_swaps_witness:
  "sc_of_cpu (switch_context (demo_cpu 0x1000 0x2000 (\<lambda>_. 9))) =
     \<lparr>sc_ra = 9, sc_sp = 9, sc_s0 = 9, sc_s1 = 9, sc_s2 = 9, sc_s3 = 9, sc_s4 = 9, sc_s5 = 9, sc_s6 = 9, sc_s7 = 9,
      sc_s8 = 9, sc_s9 = 9, sc_s10 = 9, sc_s11 = 9, sc_satp = 9\<rparr> \<and>
   sc_of_cpu (switch_context (demo_cpu 0x2000 0x1000 (mem (switch_context (demo_cpu 0x1000 0x2000 (\<lambda>_. 9)))))) =
     sc_of_cpu (demo_cpu 0x1000 0x2000 (\<lambda>_. 9))"
proof -
  let ?c = "demo_cpu 0x1000 0x2000 (\<lambda>_. 9)" and ?m = "mem (switch_context (demo_cpu 0x1000 0x2000 (\<lambda>_. 9)))"
  let ?ctx = "\<lparr>sc_ra = 9, sc_sp = 9, sc_s0 = 9, sc_s1 = 9, sc_s2 = 9, sc_s3 = 9, sc_s4 = 9, sc_s5 = 9, sc_s6 = 9,
      sc_s7 = 9, sc_s8 = 9, sc_s9 = 9, sc_s10 = 9, sc_s11 = 9, sc_satp = 9\<rparr> :: SwitchContext"
  have new: "sc_at (mem ?c) (gpr ?c A1) ?ctx"
    unfolding sc_at_def all_less_15 by (simp add: sc_fields_def demo_cpu_def)
  have apart: "sc_apart (gpr ?c A0) (gpr ?c A1)" "sc_apart (gpr (demo_cpu 0x2000 0x1000 ?m) A0) (gpr (demo_cpu 0x2000 0x1000 ?m) A1)"
    unfolding sc_apart_def all_less_15 by (simp_all add: demo_cpu_def)
  show ?thesis
    using switch_context_swaps [OF new apart(1), of "demo_cpu 0x2000 0x1000 ?m", OF _ apart(2)]
    by (simp add: demo_cpu_def)
qed

text \<open>
  The first switch to a newly built executor context enters at the launch routine with
  the executor's stack, and the routine passes the executor's own address to its start
  function.
\<close>

theorem executor_first_switch:
  assumes "sc_at (mem c) (gpr c A1) (sc_init_executor_addr ex (sc_new_executor entry stack_top satp))"
    and "sc_apart (gpr c A0) (gpr c A1)"
  shows "gpr (switch_context c) Ra = va_as_usize entry \<and> gpr (switch_context c) Sp = va_as_usize stack_top \<and>
     csrs (switch_context c) Satp = satp \<and> gpr (executor_launch (switch_context c)) A0 = va_as_usize ex"
  using switch_takes [OF assms]
  by (simp add: sc_of_cpu_def sc_init_executor_addr_def sc_new_executor_def sc_default_def executor_launch_def set_gpr_def)

theorem executor_first_switch_witness:
  "gpr (switch_context (demo_cpu 0x1000 0x2000 (\<lambda>_. 0))) Ra = va_as_usize (VirtAddr 0)"
proof -
  let ?c = "demo_cpu 0x1000 0x2000 (\<lambda>_. 0)"
  have "sc_at (mem ?c) (gpr ?c A1) (sc_init_executor_addr (VirtAddr 0) (sc_new_executor (VirtAddr 0) (VirtAddr 0) 0))"
    unfolding sc_at_def all_less_15
    by (simp add: sc_fields_def demo_cpu_def sc_init_executor_addr_def sc_new_executor_def sc_default_def)
  moreover have "sc_apart (gpr ?c A0) (gpr ?c A1)"
    unfolding sc_apart_def all_less_15 by (simp add: demo_cpu_def)
  ultimately show ?thesis using executor_first_switch by blast
qed

end
