(* ===== verification/Hal.thy ===== *)
theory Hal
  imports Jrinx_Prelude
begin

text \<open>
  The hardware abstraction of \<^verbatim>\<open>kern/modules/hal\<close> that carries logic of its own: the
  write-once processor counts and timebase, the conversions between timer ticks and
  durations, the interrupt-flag brackets and the choice of processors to interrupt. Also the
  serial identifiers of \<^verbatim>\<open>kern/modules/serial-id-macro\<close>. A \<^verbatim>\<open>Duration\<close> is its number of
  nanoseconds.
\<close>

section \<open>The code\<close>

record hal_state =
  CPU_COUNT :: "usize option"
  CPU_VALID_COUNT :: "usize option"
  CPU_TIMEBASE_FREQ :: "u64 option"

text \<open>\<^verbatim>\<open>Once::call_once\<close>: the first value stays.\<close>

definition call_once :: "'a \<Rightarrow> 'a option \<Rightarrow> 'a option" where
  "call_once v old = (case old of None \<Rightarrow> Some v | Some x \<Rightarrow> Some x)"

definition set_nproc_valid :: "usize \<Rightarrow> hal_state \<Rightarrow> hal_state" where
  "set_nproc_valid cnt h = h\<lparr>CPU_VALID_COUNT := call_once cnt (CPU_VALID_COUNT h)\<rparr>"

definition nproc_valid :: "hal_state \<Rightarrow> usize" where
  "nproc_valid h = (case CPU_VALID_COUNT h of None \<Rightarrow> 0 | Some n \<Rightarrow> n)"

definition set_nproc :: "usize \<Rightarrow> hal_state \<Rightarrow> hal_state" where
  "set_nproc cnt h = h\<lparr>CPU_COUNT := call_once cnt (CPU_COUNT h)\<rparr>"

definition nproc :: "hal_state \<Rightarrow> usize" where
  "nproc h = (case CPU_COUNT h of None \<Rightarrow> 0 | Some n \<Rightarrow> n)"

definition set_timebase_freq :: "u64 \<Rightarrow> hal_state \<Rightarrow> hal_state" where
  "set_timebase_freq freq h = h\<lparr>CPU_TIMEBASE_FREQ := call_once freq (CPU_TIMEBASE_FREQ h)\<rparr>"

definition timebase_freq :: "hal_state \<Rightarrow> u64" where
  "timebase_freq h = (case CPU_TIMEBASE_FREQ h of None \<Rightarrow> 0 | Some f \<Rightarrow> f)"

text \<open>\<^verbatim>\<open>Duration\<close> has 64-bit seconds and nanoseconds below one second.\<close>

definition Duration_MAX :: nat where
  "Duration_MAX = (2 ^ 64 - 1) * 1000000000 + 999999999"

text \<open>The current time from the tick counter, multiplied in 64 bits.\<close>

definition get_time :: "hal_state \<Rightarrow> u64 \<Rightarrow> nat" where
  "get_time h ticks =
     (let freq = timebase_freq h
      in if freq \<noteq> 0 then unat (ticks * 1000000000 div freq) else 0)"

text \<open>The tick count a deadline is programmed as, computed in 128 bits and truncated.\<close>

definition set_timer :: "hal_state \<Rightarrow> nat \<Rightarrow> u64" where
  "set_timer h next = of_nat (next * unat (timebase_freq h) mod 2 ^ 128 div 1000000000)"

text \<open>\<^verbatim>\<open>with_saved_on\<close> and \<^verbatim>\<open>with_saved_off\<close>: the first component of the state is the
  processor's interrupt-enable flag.\<close>

definition with_saved_on :: "(bool \<times> 's \<Rightarrow> 'r \<times> (bool \<times> 's)) \<Rightarrow> bool \<times> 's \<Rightarrow> 'r \<times> (bool \<times> 's)" where
  "with_saved_on f s =
     (let enabled = fst s; (ret, s') = f (True, snd s)
      in if \<not> enabled then (ret, (False, snd s')) else (ret, s'))"

definition with_saved_off :: "(bool \<times> 's \<Rightarrow> 'r \<times> (bool \<times> 's)) \<Rightarrow> bool \<times> 's \<Rightarrow> 'r \<times> (bool \<times> 's)" where
  "with_saved_off f s =
     (let enabled = fst s; (ret, s') = f (False, snd s)
      in if enabled then (ret, (True, snd s')) else (ret, s'))"

text \<open>\<^verbatim>\<open>broadcast_ipi\<close>: every processor but the calling one.\<close>

definition broadcast_targets :: "hal_state \<Rightarrow> usize \<Rightarrow> usize list" where
  "broadcast_targets h self = filter (\<lambda>cpu. cpu \<noteq> self) (map of_nat [0..<unat (nproc h)])"

text \<open>The derived \<^verbatim>\<open>SerialId::new\<close>: the generator panics rather than wrap.\<close>

definition serial_new :: "u64 \<Rightarrow> u64 res" where
  "serial_new generator = (if generator = - 1 then Panicked else Ok (generator + 1))"

section \<open>Facts\<close>

lemma get_time_exact:
  assumes "timebase_freq h \<noteq> 0" "unat ticks * 1000000000 < 2 ^ 64"
  shows "get_time h ticks = unat ticks * 1000000000 div unat (timebase_freq h)"
proof -
  have "unat (ticks * 1000000000) = unat ticks * 1000000000"
    using assms(2) by (simp add: unat_word_ariths)
  then show ?thesis using assms(1) by (simp add: get_time_def unat_div_distrib)
qed

lemma set_timer_exact:
  assumes "next * unat (timebase_freq h) div 1000000000 < 2 ^ 64"
  shows "unat (set_timer h next) = next * unat (timebase_freq h) div 1000000000"
proof -
  have "next * unat (timebase_freq h) < 2 ^ 64 * 1000000000"
    using assms by (simp add: div_less_iff_less_mult)
  then have "next * unat (timebase_freq h) < 2 ^ 128" by simp
  then show ?thesis using assms by (simp add: set_timer_def unat_of_nat)
qed

text \<open>Identifiers are issued in increasing order; the generator stops before it would wrap.\<close>

lemma serial_new_less: "serial_new g = Ok i \<Longrightarrow> g < i"
proof -
  assume "serial_new g = Ok i"
  then have g: "g \<noteq> - 1" and i: "i = g + 1" by (auto simp: serial_new_def split: if_splits)
  have "unat g \<noteq> unat (- 1 :: u64)" using g by (simp add: word_unat_eq_iff)
  then have "unat g + 1 < 18446744073709551616" using unat_usize_less [of g] by (simp add: unsigned_minus_1_eq_mask mask_eq_exp_minus_1)
  then show ?thesis by (simp add: i word_less_nat_alt unat_add_usize)
qed

lemma with_saved_flag:
  "fst (snd (with_saved_off f (True, s))) = True"
  "fst (snd (with_saved_on f (False, s))) = False"
  by (simp_all add: with_saved_off_def with_saved_on_def Let_def split: prod.split)

section \<open>Properties\<close>

text \<open>
  As long as the tick count times one billion fits in 64 bits, a deadline is programmed
  as a tick count that is never late: at the following tick the clock reads at least the
  deadline, and at the programmed tick it reads at most the deadline.
\<close>

theorem deadline_within_one_tick:
  assumes "timebase_freq h \<noteq> 0"
    and "(unat (set_timer h next) + 1) * 1000000000 < 2 ^ 64"
    and "next * unat (timebase_freq h) div 1000000000 < 2 ^ 64"
  shows "get_time h (set_timer h next) \<le> next \<and> next \<le> get_time h (set_timer h next + 1)"
proof -
  let ?f = "unat (timebase_freq h)" and ?t = "unat (set_timer h next)"
  have f: "0 < ?f" using assms(1) by (simp add: unat_gt_0)
  have t: "?t = next * ?f div 1000000000" by (rule set_timer_exact [OF assms(3)])
  have u: "unat (set_timer h next + 1) = ?t + 1"
    using assms(2) by (subst unat_add_usize) simp_all
  have "?t * 1000000000 \<le> next * ?f" unfolding t by (rule div_times_less_eq_dividend)
  then have "?t * 1000000000 div ?f \<le> next * ?f div ?f" by (rule div_le_mono)
  then have lo: "?t * 1000000000 div ?f \<le> next" using f by simp
  have "next * ?f < (?t + 1) * 1000000000"
    unfolding t by (metis add.commute dividend_less_div_times mult.commute mult_Suc_right plus_1_eq_Suc zero_less_numeral)
  then have "next * ?f div ?f \<le> (?t + 1) * 1000000000 div ?f" by (intro div_le_mono) simp
  then have hi: "next \<le> (?t + 1) * 1000000000 div ?f" using f by simp
  show ?thesis
    using lo hi get_time_exact [OF assms(1), of "set_timer h next"] get_time_exact [OF assms(1), of "set_timer h next + 1"]
      assms(2) u by simp
qed

text \<open>The timebase of the \<^verbatim>\<open>virt\<close> machine, 10 MHz.\<close>

definition demo_hal :: hal_state where
  "demo_hal = set_timebase_freq 10000000 \<lparr>CPU_COUNT = Some 4, CPU_VALID_COUNT = None, CPU_TIMEBASE_FREQ = None\<rparr>"

lemma demo_freq: "timebase_freq demo_hal = 10000000"
  by (simp add: demo_hal_def timebase_freq_def set_timebase_freq_def call_once_def)

theorem deadline_within_one_tick_witness:
  "get_time demo_hal (set_timer demo_hal 12345) \<le> 12345 \<and> 12345 \<le> get_time demo_hal (set_timer demo_hal 12345 + 1)"
  by (rule deadline_within_one_tick) (simp_all add: demo_freq set_timer_def)

text \<open>
  The clock conversion multiplies in 64 bits: on a 10 MHz timebase the time jumps back
  from about 1844 seconds to 29 nanoseconds at tick 18446744074, and an event whose deadline is not a
  multiple of the tick is not yet due at the tick its timer is programmed for.
\<close>

theorem clock_conversion_limits:
  "get_time demo_hal 18446744073 = 1844674407300 \<and> get_time demo_hal 18446744074 = 29 \<and>
   get_time demo_hal (set_timer demo_hal 150) < 150"
  by (simp add: get_time_def set_timer_def demo_freq Let_def)

end
