(* ===== verification/Executor.thy ===== *)
theory Executor
  imports Fastpq Stack_Alloc Switch_Context Hal
begin

text \<open>
  Tasks and executors, \<^verbatim>\<open>kern/modules/multitask/src/lib.rs\<close> and \<^verbatim>\<open>executor.rs\<close>. An executor
  owns its tasks, a queue of the identifiers of those that are ready, and one waker per task
  it has polled. A future is an opaque value; the parameter \<^verbatim>\<open>poll\<close> gives, for a future and
  the waker it is polled with, whether it is ready, the future afterwards and what it did
  meanwhile: wake a task of this executor or spawn a new one. The model records which tasks
  are polled.
\<close>

section \<open>The code\<close>

datatype TaskPriority = TaskPriority FastPriority

primrec FastPriority_of_TaskPriority :: "TaskPriority \<Rightarrow> FastPriority" where
  "FastPriority_of_TaskPriority (TaskPriority p) = p"

definition TaskPriority_new :: "u8 \<Rightarrow> TaskPriority" where
  "TaskPriority_new priority = TaskPriority (FastPriority_new priority)"

definition TaskPriority_default :: TaskPriority where
  "TaskPriority_default = TaskPriority (FastPriority 0)"

definition TaskPriority_NUM :: nat where
  "TaskPriority_NUM = FastPriority_NUM"

definition TaskPriority_MAX :: u8 where
  "TaskPriority_MAX = of_nat (TaskPriority_NUM - 1)"

definition u8_of_TaskPriority :: "TaskPriority \<Rightarrow> u8" where
  "u8_of_TaskPriority p = u8_of_FastPriority (FastPriority_of_TaskPriority p)"

datatype ExecutorPriority = ExecutorPriority FastPriority

primrec FastPriority_of_ExecutorPriority :: "ExecutorPriority \<Rightarrow> FastPriority" where
  "FastPriority_of_ExecutorPriority (ExecutorPriority p) = p"

definition ExecutorPriority_new :: "u8 \<Rightarrow> ExecutorPriority" where
  "ExecutorPriority_new priority = ExecutorPriority (FastPriority_new priority)"

definition ExecutorPriority_default :: ExecutorPriority where
  "ExecutorPriority_default = ExecutorPriority (FastPriority 0)"

record 'fut Task =
  t_id :: u64
  t_priority :: TaskPriority
  t_future :: 'fut

text \<open>\<^verbatim>\<open>Task::new\<close>: the serial number comes from the generator.\<close>

definition Task_new :: "'fut \<Rightarrow> TaskPriority \<Rightarrow> u64 \<Rightarrow> ('fut Task \<times> u64) res" where
  "Task_new future priority generator =
     bind_res (serial_new generator) (\<lambda>i. Ok (\<lparr>t_id = i, t_priority = priority, t_future = future\<rparr>, i))"

text \<open>A waker refers to the executor's own queue.\<close>

record TaskWaker =
  w_task_id :: u64
  w_task_priority :: TaskPriority

definition TaskWaker_create :: "u64 \<Rightarrow> TaskPriority \<Rightarrow> TaskWaker" where
  "TaskWaker_create task_id task_priority = \<lparr>w_task_id = task_id, w_task_priority = task_priority\<rparr>"

datatype Poll = Poll_Ready | Poll_Pending

datatype 'fut task_action =
    Wake TaskWaker
  | Spawn 'fut TaskPriority

type_synonym 'fut poll_fn = "TaskWaker \<Rightarrow> 'fut \<Rightarrow> Poll \<times> 'fut \<times> 'fut task_action list"

datatype ExecutorStatus = Runnable | Finished

type_synonym TaskQueue = "(TaskPriority, u64) FastPriorityQueueWithLock"

record 'fut Executor =
  ex_id :: u64
  ex_priority :: ExecutorPriority
  ex_status :: ExecutorStatus
  ex_stack_top :: VirtAddr
  ex_switch_context :: SwitchContext
  ex_task_registry :: "u64 \<rightharpoonup> 'fut Task"
  ex_task_queue :: TaskQueue
  ex_task_waker :: "u64 \<rightharpoonup> TaskWaker"
  ex_current_task_priority :: TaskPriority
  ex_polled :: "u64 list"

definition task_enqueue :: "TaskPriority \<Rightarrow> u64 \<Rightarrow> 'fut Executor \<Rightarrow> unit res \<times> 'fut Executor" where
  "task_enqueue priority i ex =
     (case fpql_enqueue FastPriority_of_TaskPriority priority i (ex_task_queue ex) of
        Inl e \<Rightarrow> (Inl e, ex)
      | Ok q \<Rightarrow> (Ok (), ex\<lparr>ex_task_queue := q\<rparr>))"

text \<open>\<^verbatim>\<open>TaskWaker::wake_task\<close>.\<close>

definition wake_task :: "TaskWaker \<Rightarrow> 'fut Executor \<Rightarrow> unit res \<times> 'fut Executor" where
  "wake_task w ex = task_enqueue (w_task_priority w) (w_task_id w) ex"

text \<open>\<^verbatim>\<open>spawn\<close> puts the identifier into the queue before it looks for a duplicate.\<close>

definition ex_spawn :: "'fut Task \<Rightarrow> 'fut Executor \<Rightarrow> unit res \<times> 'fut Executor" where
  "ex_spawn task ex =
     (case task_enqueue (t_priority task) (t_id task) ex of
        (Inl e, ex1) \<Rightarrow> (Inl e, ex1)
      | (Ok _, ex1) \<Rightarrow>
          (case ex_task_registry ex1 (t_id task) of
             Some _ \<Rightarrow> (Fail DuplicateTaskId, ex1)
           | None \<Rightarrow> (Ok (), ex1\<lparr>ex_task_registry := (ex_task_registry ex1)(t_id task \<mapsto> task)\<rparr>)))"

text \<open>\<^verbatim>\<open>do_spawn\<close> on the current executor; an error of \<^verbatim>\<open>spawn\<close> is unwrapped.\<close>

definition do_spawn :: "'fut \<Rightarrow> TaskPriority \<Rightarrow> 'fut Executor \<times> u64 \<Rightarrow> unit res \<times> 'fut Executor \<times> u64" where
  "do_spawn future priority s =
     (case Task_new future priority (snd s) of
        Inl e \<Rightarrow> (Panicked, s)
      | Ok (task, generator) \<Rightarrow>
          (case ex_spawn task (fst s) of
             (Inl _, ex) \<Rightarrow> (Panicked, ex, generator)
           | (Ok _, ex) \<Rightarrow> (Ok (), ex, generator)))"

definition run_action :: "'fut task_action \<Rightarrow> 'fut Executor \<times> u64 \<Rightarrow> unit res \<times> 'fut Executor \<times> u64" where
  "run_action a s =
     (case a of
        Wake w \<Rightarrow> (case wake_task w (fst s) of (r, ex) \<Rightarrow> (r, ex, snd s))
      | Spawn future priority \<Rightarrow> do_spawn future priority s)"

fun run_actions :: "'fut task_action list \<Rightarrow> 'fut Executor \<times> u64 \<Rightarrow> unit res \<times> 'fut Executor \<times> u64" where
  "run_actions [] s = (Ok (), s)"
| "run_actions (a # as) s =
     (case run_action a s of (Inl e, s') \<Rightarrow> (Inl e, s') | (Ok _, s') \<Rightarrow> run_actions as s')"

text \<open>One poll of a registered task: the waker is created at the first poll and kept.\<close>

definition poll_task :: "'fut poll_fn \<Rightarrow> u64 \<Rightarrow> 'fut Task \<Rightarrow> 'fut Executor \<times> u64 \<Rightarrow> unit res \<times> 'fut Executor \<times> u64" where
  "poll_task poll i task s =
     (let ex = fst s;
          waker = (case ex_task_waker ex i of Some w \<Rightarrow> w | None \<Rightarrow> TaskWaker_create (t_id task) (t_priority task))
      in case poll waker (t_future task) of
           (ready, future, actions) \<Rightarrow>
             (let ex1 = ex\<lparr>ex_task_waker := (ex_task_waker ex)(i \<mapsto> waker),
                           ex_current_task_priority := t_priority task,
                           ex_task_registry := (ex_task_registry ex)(i \<mapsto> task\<lparr>t_future := future\<rparr>),
                           ex_polled := ex_polled ex @ [i]\<rparr>
              in case run_actions actions (ex1, snd s) of
                   (Inl e, s2) \<Rightarrow> (Inl e, s2)
                 | (Ok _, ex2, g2) \<Rightarrow>
                     (Ok (), (case ready of
                        Poll_Ready \<Rightarrow> ex2\<lparr>ex_task_registry := (ex_task_registry ex2)(i := None),
                                          ex_task_waker := (ex_task_waker ex2)(i := None)\<rparr>
                      | Poll_Pending \<Rightarrow> ex2), g2)))"

partial_function (option) run_loop :: "'fut poll_fn \<Rightarrow> 'fut Executor \<times> u64 \<Rightarrow> (unit res \<times> 'fut Executor \<times> u64) option" where
  "run_loop poll s =
     (case fpql_dequeue (ex_task_queue (fst s)) of
        (None, q) \<Rightarrow> Some (Ok (), (fst s)\<lparr>ex_task_queue := q\<rparr>, snd s)
      | (Some (_, i), q) \<Rightarrow>
          (let ex = (fst s)\<lparr>ex_task_queue := q\<rparr>
           in case ex_task_registry ex i of
                None \<Rightarrow> run_loop poll (ex, snd s)
              | Some task \<Rightarrow>
                  (case poll_task poll i task (ex, snd s) of
                     (Inl e, s') \<Rightarrow> Some (Inl e, s')
                   | (Ok _, s') \<Rightarrow> run_loop poll s')))"

definition executor_run :: "'fut poll_fn \<Rightarrow> 'fut Executor \<times> u64 \<Rightarrow> (unit res \<times> 'fut Executor \<times> u64) option" where
  "executor_run poll s =
     (case run_loop poll s of
        Some (Ok _, ex, g) \<Rightarrow> Some (Ok (), ex\<lparr>ex_status := Finished\<rparr>, g)
      | r \<Rightarrow> r)"

text \<open>The future of \<^verbatim>\<open>do_yield\<close>: its state says whether it has yielded already.\<close>

definition YieldNow_poll :: "bool poll_fn" where
  "YieldNow_poll waker finished =
     (if finished then (Poll_Ready, finished, []) else (Poll_Pending, True, [Wake waker]))"

text \<open>
  \<^verbatim>\<open>Executor::new\<close>: the stack comes from the executor stack allocator, the address of the
  boxed executor goes into the first callee-saved register. Both failures of the two
  \<^verbatim>\<open>unwrap\<close> calls panic. \<^verbatim>\<open>entry\<close> is the address of \<^verbatim>\<open>executor_launch\<close>, \<^verbatim>\<open>addr\<close> the address the
  executor is boxed at and \<^verbatim>\<open>satp\<close> the current root of translation.
\<close>

definition executor_new :: "'h frame_allocator \<Rightarrow> VirtAddr \<Rightarrow> usize \<Rightarrow> usize \<Rightarrow> u64 \<Rightarrow> ExecutorPriority \<Rightarrow> 'fut Task \<Rightarrow>
    StackAllocator \<times> 'h kmem \<times> PageTable \<Rightarrow> ('fut Executor \<times> u64) res \<times> StackAllocator \<times> 'h kmem \<times> PageTable" where
  "executor_new A entry satp addr generator priority root_task ks =
     (case sa_allocate (kpt_map A) EXECUTOR_STACK_SIZE (fst ks) (snd ks) of
        (Inl _, ks1) \<Rightarrow> (Panicked, ks1)
      | (Ok stack_top, ks1) \<Rightarrow>
          (case serial_new generator of
             Inl e \<Rightarrow> (Inl e, ks1)
           | Ok i \<Rightarrow>
               (let ex = \<lparr>ex_id = i, ex_priority = priority, ex_status = Runnable, ex_stack_top = stack_top,
                          ex_switch_context = sc_new_executor entry stack_top satp, ex_task_registry = Map.empty,
                          ex_task_queue = fpql_new, ex_task_waker = Map.empty,
                          ex_current_task_priority = TaskPriority_default, ex_polled = []\<rparr>;
                    ex1 = ex\<lparr>ex_switch_context := sc_init_executor_addr (va_new addr) (ex_switch_context ex)\<rparr>
                in case ex_spawn root_task ex1 of
                     (Inl _, _) \<Rightarrow> (Panicked, ks1)
                   | (Ok _, ex2) \<Rightarrow> (Ok (ex2, i), ks1))))"

definition executor_drop :: "'h frame_allocator \<Rightarrow> 'fut Executor \<Rightarrow> StackAllocator \<times> 'h kmem \<times> PageTable \<Rightarrow>
    unit res \<times> StackAllocator \<times> 'h kmem \<times> PageTable" where
  "executor_drop A ex ks =
     (case sa_deallocate (kpt_unmap A) (ex_stack_top ex) (fst ks) (snd ks) of
        (Inl _, ks1) \<Rightarrow> (Panicked, ks1) | (Ok _, ks1) \<Rightarrow> (Ok (), ks1))"

section \<open>Facts\<close>

abbreviation task_rank :: "TaskPriority \<Rightarrow> nat" where
  "task_rank \<equiv> fpq_rank FastPriority_of_TaskPriority"

definition tq_list :: "'fut Executor \<Rightarrow> (TaskPriority \<times> u64) list" where
  "tq_list ex = fpq_list (fpql_inner (ex_task_queue ex))"

definition tq_inv :: "'fut Executor \<Rightarrow> bool" where
  "tq_inv ex \<longleftrightarrow> fpq_inv FastPriority_of_TaskPriority (fpql_inner (ex_task_queue ex))"

lemma task_enqueue_ok:
  assumes "tq_inv ex" "task_rank p < 64"
  obtains q where "task_enqueue p i ex = (Ok (), ex\<lparr>ex_task_queue := q\<rparr>)"
    "tq_inv (ex\<lparr>ex_task_queue := q\<rparr>)" "fpq_list (fpql_inner q) = insert_rank task_rank (p, i) (tq_list ex)"
  using fpql.enq_ok [OF assms(1) [unfolded tq_inv_def] assms(2), of i]
  by (auto simp: task_enqueue_def tq_inv_def tq_list_def)

text \<open>A future that yields \<^verbatim>\<open>n\<close> times, as through \<^verbatim>\<open>do_yield\<close>, and then is ready.\<close>

primrec yields :: "'fut poll_fn \<Rightarrow> nat \<Rightarrow> 'fut \<Rightarrow> bool" where
  "yields poll 0 f \<longleftrightarrow> (\<forall>w. \<exists>f'. poll w f = (Poll_Ready, f', []))"
| "yields poll (Suc n) f \<longleftrightarrow> (\<forall>w. \<exists>f'. poll w f = (Poll_Pending, f', [Wake w]) \<and> yields poll n f')"

text \<open>Every registered task is queued once, at its priority, and yields as often as \<^verbatim>\<open>N\<close>
  says.\<close>

definition all_ready :: "'fut poll_fn \<Rightarrow> (u64 \<Rightarrow> nat) \<Rightarrow> 'fut Executor \<Rightarrow> bool" where
  "all_ready poll N ex \<longleftrightarrow>
     tq_inv ex \<and> distinct (map snd (tq_list ex)) \<and> dom (ex_task_registry ex) = snd ` set (tq_list ex) \<and>
     (\<forall>p i. (p, i) \<in> set (tq_list ex) \<longrightarrow>
        (\<exists>f. ex_task_registry ex i = Some \<lparr>t_id = i, t_priority = p, t_future = f\<rparr> \<and> yields poll (N i) f)) \<and>
     (\<forall>p\<in>fst ` set (tq_list ex). task_rank p < 64) \<and>
     (\<forall>p i w. (p, i) \<in> set (tq_list ex) \<longrightarrow> ex_task_waker ex i = Some w \<longrightarrow> w = TaskWaker_create i p)"

definition prio_of :: "'fut Executor \<Rightarrow> u64 \<Rightarrow> nat" where
  "prio_of ex i = task_rank (t_priority (the (ex_task_registry ex i)))"

text \<open>The next poll: the first task of the queue leaves, or goes behind its equals.\<close>

lemma run_step:
  assumes "all_ready poll N ex" "tq_list ex = (p, i) # xs"
  obtains ex1 where "run_loop poll (ex, g) = run_loop poll (ex1, g)" "ex_polled ex1 = ex_polled ex @ [i]"
    "all_ready poll (N(i := N i - 1)) ex1" "tq_list ex1 = (if N i = 0 then xs else insert_rank task_rank (p, i) xs)"
    "\<And>j. j \<in> dom (ex_task_registry ex1) \<Longrightarrow> prio_of ex1 j = prio_of ex j"
proof -
  note R = assms(1) [unfolded all_ready_def]
  obtain q where q: "fpql_dequeue (ex_task_queue ex) = (Some (p, i), q)" "fpq_inv FastPriority_of_TaskPriority (fpql_inner q)"
    "fpq_list (fpql_inner q) = xs"
    using fpql.deq_cons [of FastPriority_of_TaskPriority "ex_task_queue ex"] R assms(2) by (auto simp: tq_inv_def tq_list_def)
  obtain f where f: "ex_task_registry ex i = Some \<lparr>t_id = i, t_priority = p, t_future = f\<rparr>" "yields poll (N i) f"
    using R assms(2) by (metis list.set_intros(1))
  have p: "task_rank p < 64" using R assms(2) by auto
  let ?w = "TaskWaker_create i p"
  have w: "ex_task_waker ex i = None \<or> ex_task_waker ex i = Some ?w"
    using R assms(2) by (metis list.set_intros(1) not_None_eq)
  have dom: "dom (ex_task_registry ex) = insert i (snd ` set xs)" and fresh: "i \<notin> snd ` set xs"
    using R assms(2) by auto
  then have fresh2: "(p', i) \<notin> set xs" for p' by force
  show thesis
  proof (cases "N i")
    case 0
    obtain f' where f': "poll ?w f = (Poll_Ready, f', [])" using f(2) 0 by auto
    define ex1 where "ex1 = ex\<lparr>ex_task_queue := q, ex_current_task_priority := p, ex_polled := ex_polled ex @ [i],
      ex_task_registry := (ex_task_registry ex)(i := None), ex_task_waker := (ex_task_waker ex)(i := None)\<rparr>"
    have "run_loop poll (ex, g) = run_loop poll (ex1, g)"
      using w by (subst run_loop.simps) (auto simp: q f poll_task_def f' ex1_def)
    moreover have tl: "tq_list ex1 = xs" by (simp add: ex1_def tq_list_def q)
    moreover have "all_ready poll (N(i := N i - 1)) ex1"
      unfolding all_ready_def tl using R assms(2) q(2) fresh fresh2 dom
      by (auto simp: ex1_def tq_inv_def 0)
    ultimately show thesis using that [of ex1] 0 by (simp add: ex1_def prio_of_def)
  next
    case (Suc n)
    obtain f' where f': "poll ?w f = (Poll_Pending, f', [Wake ?w])" "yields poll n f'" using f(2) Suc by auto
    define ex0 where "ex0 = ex\<lparr>ex_task_queue := q, ex_task_waker := (ex_task_waker ex)(i \<mapsto> ?w), ex_current_task_priority := p,
      ex_task_registry := (ex_task_registry ex)(i \<mapsto> \<lparr>t_id = i, t_priority = p, t_future = f'\<rparr>), ex_polled := ex_polled ex @ [i]\<rparr>"
    have "tq_inv ex0" "tq_list ex0 = xs" using q by (simp_all add: ex0_def tq_inv_def tq_list_def)
    then obtain q1 where q1: "task_enqueue p i ex0 = (Ok (), ex0\<lparr>ex_task_queue := q1\<rparr>)" "tq_inv (ex0\<lparr>ex_task_queue := q1\<rparr>)"
      "fpq_list (fpql_inner q1) = insert_rank task_rank (p, i) xs"
      using task_enqueue_ok [OF _ p, of ex0] by metis
    define ex1 where "ex1 = ex0\<lparr>ex_task_queue := q1\<rparr>"
    have rl: "run_loop poll (ex, g) = run_loop poll (ex1, g)"
      using w q1(1) f'(1) unfolding ex0_def
      by (subst run_loop.simps) (auto simp: q f poll_task_def ex1_def ex0_def run_action_def wake_task_def TaskWaker_create_def)
    have tl: "tq_list ex1 = insert_rank task_rank (p, i) xs" by (simp add: ex1_def tq_list_def q1)
    have "distinct (map snd (tq_list ex1))"
    proof -
      have "mset (map snd (tq_list ex1)) = mset (map snd (tq_list ex))" using tl assms(2) by simp
      then show ?thesis using R by (metis mset_eq_imp_distinct_iff)
    qed
    moreover have t1: "ex_task_registry ex1 j = ex_task_registry ex j" "ex_task_waker ex1 j = ex_task_waker ex j"
      "(N(i := N i - 1)) j = N j" if "(p', j) \<in> set xs" for p' j
      using that fresh2 by (auto simp: ex1_def ex0_def)
    moreover have t2: "ex_task_registry ex1 i = Some \<lparr>t_id = i, t_priority = p, t_future = f'\<rparr>" "ex_task_waker ex1 i = Some ?w"
      "(N(i := N i - 1)) i = n" by (simp_all add: ex1_def ex0_def Suc)
    moreover have "dom (ex_task_registry ex1) = insert i (snd ` set xs)" using dom by (simp add: ex1_def ex0_def)
    moreover have "tq_inv ex1" using q1(2) by (simp add: ex1_def)
    ultimately have rdy: "all_ready poll (N(i := N i - 1)) ex1"
      unfolding all_ready_def tl using R assms(2) f'(2) p
      by (intro conjI allI impI) (auto simp del: fun_upd_apply)
    have pol: "ex_polled ex1 = ex_polled ex @ [i]" by (simp add: ex1_def ex0_def)
    have pr: "prio_of ex1 j = prio_of ex j" for j using f(1) by (simp add: prio_of_def ex1_def ex0_def)
    show thesis by (rule that [OF rl pol rdy _ pr]) (simp add: tl Suc)
  qed
qed

lemma sum_list_insert_rank:
  fixes h :: "'p \<times> 'i \<Rightarrow> nat"
  shows "sum_list (map h (insert_rank r y ys)) = h y + sum_list (map h ys)"
  by (induction ys) auto

lemma run_loop_completes:
  assumes "all_ready poll N ex"
  shows "\<exists>ex' tr. run_loop poll (ex, g) = Some (Ok (), ex', g) \<and> dom (ex_task_registry ex') = {} \<and> tq_list ex' = [] \<and>
    ex_polled ex' = ex_polled ex @ tr \<and> set tr \<subseteq> dom (ex_task_registry ex) \<and>
    (\<forall>i\<in>dom (ex_task_registry ex). count_list tr i = Suc (N i)) \<and>
    sorted_wrt (\<lambda>i j. prio_of ex j \<le> prio_of ex i) tr"
  using assms
proof (induction "sum_list (map (\<lambda>x. Suc (N (snd x))) (tq_list ex))" arbitrary: N ex rule: less_induct)
  case less
  note R = less.prems [unfolded all_ready_def]
  show ?case
  proof (cases "tq_list ex")
    case Nil
    then have "fpql_dequeue (ex_task_queue ex) = (None, ex_task_queue ex)"
      using R by (intro fpql.deq_empty [of FastPriority_of_TaskPriority]) (simp_all add: tq_inv_def tq_list_def)
    then have "run_loop poll (ex, g) = Some (Ok (), ex, g)" by (subst run_loop.simps) simp
    then show ?thesis using R Nil by (intro exI [of _ ex] exI [of _ "[]"]) simp
  next
    case (Cons x xs)
    obtain p i where x: "x = (p, i)" by (cases x)
    note L = Cons [unfolded x]
    obtain ex1 where e: "run_loop poll (ex, g) = run_loop poll (ex1, g)" "ex_polled ex1 = ex_polled ex @ [i]"
      and ar: "all_ready poll (N(i := N i - 1)) ex1" and tl: "tq_list ex1 = (if N i = 0 then xs else insert_rank task_rank (p, i) xs)"
      and pr: "\<And>j. j \<in> dom (ex_task_registry ex1) \<Longrightarrow> prio_of ex1 j = prio_of ex j"
      using run_step [OF less.prems L] by blast
    have ixs: "i \<notin> snd ` set xs" and dom: "dom (ex_task_registry ex) = insert i (snd ` set xs)" using R L by auto
    have dom1: "dom (ex_task_registry ex1) = snd ` set (tq_list ex1)" using ar by (simp add: all_ready_def)
    have sm: "sum_list (map (\<lambda>x. Suc ((N(i := N i - 1)) (snd x))) xs) = sum_list (map (\<lambda>x. Suc (N (snd x))) xs)"
      using ixs by (intro arg_cong [where f = sum_list] map_cong) auto
    have "sum_list (map (\<lambda>x. Suc ((N(i := N i - 1)) (snd x))) (tq_list ex1)) < sum_list (map (\<lambda>x. Suc (N (snd x))) (tq_list ex))"
      unfolding tl L by (cases "N i") (use sm in \<open>simp_all del: fun_upd_apply add: fun_upd_same sum_list_insert_rank\<close>)
    from less.hyps [OF this ar] obtain ex' tr where
      IH: "run_loop poll (ex1, g) = Some (Ok (), ex', g)" "dom (ex_task_registry ex') = {}" "tq_list ex' = []"
        "ex_polled ex' = ex_polled ex1 @ tr" "set tr \<subseteq> dom (ex_task_registry ex1)"
        "\<forall>j\<in>dom (ex_task_registry ex1). count_list tr j = Suc ((N(i := N i - 1)) j)"
        "sorted_wrt (\<lambda>j k. prio_of ex1 k \<le> prio_of ex1 j) tr" by blast
    have sub: "dom (ex_task_registry ex1) \<subseteq> dom (ex_task_registry ex)" unfolding dom dom1 tl by auto
    have cnt: "count_list (i # tr) j = Suc (N j)" if "j \<in> dom (ex_task_registry ex)" for j
    proof (cases "j = i")
      case True
      show ?thesis
      proof (cases "N i")
        case 0
        then have "i \<notin> set tr" using IH(5) ixs unfolding dom1 tl by auto
        then show ?thesis using True 0 by (simp add: count_list_0_iff)
      next
        case (Suc n)
        then have "i \<in> dom (ex_task_registry ex1)" unfolding dom1 tl by simp
        then show ?thesis using IH(6) True Suc by simp
      qed
    next
      case False
      then have "j \<in> dom (ex_task_registry ex1)" using that unfolding dom dom1 tl by auto
      then show ?thesis using IH(6) False by simp
    qed
    have srt: "sorted_wrt (\<lambda>j k. prio_of ex k \<le> prio_of ex j) tr"
      using IH(7) by (rule sorted_wrt_mono_rel [rotated]) (metis IH(5) pr subsetD)
    have prx: "prio_of ex k = task_rank p'" if "(p', k) \<in> set (tq_list ex)" for p' k
      using R that by (force simp: prio_of_def)
    have "prio_of ex k \<le> prio_of ex i" if "k \<in> set tr" for k
    proof -
      have "k \<in> snd ` set (tq_list ex)" using that IH(5) sub R by auto
      then obtain p' where p': "(p', k) \<in> set (tq_list ex)" by force
      have "task_rank p' \<le> task_rank p"
        using fpq_list_sorted [of FastPriority_of_TaskPriority "fpql_inner (ex_task_queue ex)"] R p' L
        by (auto simp: tq_inv_def tq_list_def [symmetric])
      then show ?thesis using prx [OF p'] prx [of p i] L by simp
    qed
    then show ?thesis using IH e cnt srt sub dom by (intro exI [of _ ex'] exI [of _ "i # tr"]) auto
  qed
qed

section \<open>Properties\<close>

text \<open>
  C16. An executor whose tasks are all queued, and each yield some number of times before they
  are ready, finishes: no task is left, each is polled exactly once more than it yields, and
  no task is polled before a task of higher priority has completed.
\<close>

theorem executor_completes_tasks:
  assumes "all_ready poll N ex"
  shows "\<exists>ex' tr. executor_run poll (ex, g) = Some (Ok (), ex', g) \<and> ex_status ex' = Finished \<and>
    ex_task_registry ex' = Map.empty \<and> ex_polled ex' = ex_polled ex @ tr \<and> set tr = dom (ex_task_registry ex) \<and>
    (\<forall>i\<in>dom (ex_task_registry ex). count_list tr i = Suc (N i)) \<and>
    sorted_wrt (\<lambda>i j. prio_of ex j \<le> prio_of ex i) tr"
proof -
  obtain ex' tr where r: "run_loop poll (ex, g) = Some (Ok (), ex', g)" "dom (ex_task_registry ex') = {}"
    "ex_polled ex' = ex_polled ex @ tr" "set tr \<subseteq> dom (ex_task_registry ex)"
    "\<forall>i\<in>dom (ex_task_registry ex). count_list tr i = Suc (N i)"
    "sorted_wrt (\<lambda>i j. prio_of ex j \<le> prio_of ex i) tr"
    using run_loop_completes [OF assms, of g] by blast
  have "i \<in> set tr" if "i \<in> dom (ex_task_registry ex)" for i
    using r(5) that count_notin [of i tr] by (metis nat.distinct(1))
  then have "set tr = dom (ex_task_registry ex)" using r(4) by blast
  then show ?thesis using r
    by (intro exI [of _ "ex'\<lparr>ex_status := Finished\<rparr>"] exI [of _ tr]) (simp add: executor_run_def)
qed

text \<open>Futures that yield as often as their number says.\<close>

definition countdown :: "nat poll_fn" where
  "countdown w n = (case n of 0 \<Rightarrow> (Poll_Ready, 0, []) | Suc k \<Rightarrow> (Poll_Pending, k, [Wake w]))"

lemma countdown_yields: "yields countdown n n"
  by (induction n) (auto simp: countdown_def)

lemma spawn_all_ready:
  assumes ex: "all_ready poll N ex" and t: "yields poll (N (t_id t)) (t_future t)" "task_rank (t_priority t) < 64"
    and fresh: "ex_task_registry ex (t_id t) = None" "ex_task_waker ex (t_id t) = None"
  obtains ex' where "ex_spawn t ex = (Ok (), ex')" "all_ready poll N ex'"
    "ex_task_registry ex' = (ex_task_registry ex)(t_id t \<mapsto> t)" "ex_polled ex' = ex_polled ex" "ex_task_waker ex' = ex_task_waker ex"
    "ex_switch_context ex' = ex_switch_context ex" "ex_stack_top ex' = ex_stack_top ex"
proof -
  note R = ex [unfolded all_ready_def]
  have "tq_inv ex" using R by blast
  then obtain q where q: "task_enqueue (t_priority t) (t_id t) ex = (Ok (), ex\<lparr>ex_task_queue := q\<rparr>)"
    "tq_inv (ex\<lparr>ex_task_queue := q\<rparr>)" "fpq_list (fpql_inner q) = insert_rank task_rank (t_priority t, t_id t) (tq_list ex)"
    using task_enqueue_ok t(2) by metis
  define ex' where "ex' = ex\<lparr>ex_task_queue := q, ex_task_registry := (ex_task_registry ex)(t_id t \<mapsto> t)\<rparr>"
  have s: "ex_spawn t ex = (Ok (), ex')" using q fresh by (simp add: ex_spawn_def ex'_def)
  have tl: "tq_list ex' = insert_rank task_rank (t_priority t, t_id t) (tq_list ex)" using q by (simp add: tq_list_def ex'_def)
  have notin: "t_id t \<notin> snd ` set (tq_list ex)" using R fresh by (metis domIff)
  then have ne: "i \<noteq> t_id t" if "(p, i) \<in> set (tq_list ex)" for p i using that by force
  have "mset (map snd (tq_list ex')) = add_mset (t_id t) (mset (map snd (tq_list ex)))" by (simp add: tl)
  then have dist: "distinct (map snd (tq_list ex'))"
    using R notin mset_eq_imp_distinct_iff [of "map snd (tq_list ex')" "t_id t # map snd (tq_list ex)"] by simp
  have rd: "\<exists>f. ex_task_registry ex' i = Some \<lparr>t_id = i, t_priority = p, t_future = f\<rparr> \<and> yields poll (N i) f"
    if "(p, i) \<in> set (tq_list ex')" for p i
  proof (cases "(p, i) \<in> set (tq_list ex)")
    case True
    then show ?thesis using R ne by (simp add: ex'_def)
  next
    case False
    then have "p = t_priority t" "i = t_id t" using that by (simp_all add: tl)
    then show ?thesis using t(1) by (intro exI [of _ "t_future t"]) (simp add: ex'_def)
  qed
  have "all_ready poll N ex'"
    unfolding all_ready_def
  proof (intro conjI allI impI)
    show "dom (ex_task_registry ex') = snd ` set (tq_list ex')" using R unfolding tl by (simp add: ex'_def)
    show "tq_inv ex'" using q(2) by (simp add: ex'_def tq_inv_def)
    show "\<forall>p\<in>fst ` set (tq_list ex'). task_rank p < 64" using R t(2) by (simp add: tl)
    show "w = TaskWaker_create i p" if "(p, i) \<in> set (tq_list ex')" "ex_task_waker ex' i = Some w" for p i w
    proof -
      have "ex_task_waker ex i = Some w" "(p, i) \<in> insert (t_priority t, t_id t) (set (tq_list ex))"
        using that by (simp_all add: tl) (simp add: ex'_def)
      then show ?thesis using R fresh(2) by auto
    qed
  qed (use dist rd in blast)+
  then show thesis using that s by (simp add: ex'_def)
qed

definition blank_executor :: "u64 \<Rightarrow> ExecutorPriority \<Rightarrow> VirtAddr \<Rightarrow> SwitchContext \<Rightarrow> 'fut Executor" where
  "blank_executor i priority stack_top ctx = \<lparr>ex_id = i, ex_priority = priority, ex_status = Runnable, ex_stack_top = stack_top,
     ex_switch_context = ctx, ex_task_registry = Map.empty, ex_task_queue = fpql_new, ex_task_waker = Map.empty,
     ex_current_task_priority = TaskPriority_default, ex_polled = []\<rparr>"

lemma blank_tq: "tq_inv (blank_executor i priority stack_top ctx)" "tq_list (blank_executor i priority stack_top ctx) = []"
  by (simp_all add: blank_executor_def tq_inv_def tq_list_def fpql_new_def fpq_inv_new fpq_list_new)

lemma blank_ready: "all_ready poll N (blank_executor i priority stack_top ctx)"
  by (simp add: all_ready_def blank_tq) (simp add: blank_executor_def)

lemma spawn_blank:
  assumes "yields poll n (t_future t)" "task_rank (t_priority t) < 64"
  obtains ex where "ex_spawn t (blank_executor i priority stack_top ctx) = (Ok (), ex)" "all_ready poll (\<lambda>_. n) ex"
    "ex_task_registry ex = [t_id t \<mapsto> t]" "ex_polled ex = []" "ex_switch_context ex = ctx" "ex_stack_top ex = stack_top"
  by (rule spawn_all_ready [OF blank_ready, of poll "\<lambda>_. n" t i priority stack_top ctx])
    (use assms in \<open>simp_all add: blank_executor_def\<close>)

theorem executor_completes_tasks_witness:
  "\<exists>ex ex' g. ex_spawn \<lparr>t_id = 1, t_priority = TaskPriority_new 5, t_future = 2\<rparr>
       (blank_executor 1 ExecutorPriority_default (VirtAddr 0) sc_default) = (Ok (), ex) \<and>
     executor_run countdown (ex, g) = Some (Ok (), ex', g) \<and> ex_status ex' = Finished \<and> count_list (ex_polled ex') 1 = 3"
proof -
  let ?t = "\<lparr>t_id = 1, t_priority = TaskPriority_new 5, t_future = 2\<rparr> :: nat Task"
  let ?b = "blank_executor 1 ExecutorPriority_default (VirtAddr 0) sc_default :: nat Executor"
  have "task_rank (t_priority ?t) < 64" by (simp add: fpq_rank_def TaskPriority_new_def FastPriority_new_def)
  moreover have "yields countdown 2 (t_future ?t)" using countdown_yields [of 2] by simp
  ultimately obtain ex where s: "ex_spawn ?t ?b = (Ok (), ex)" "all_ready countdown (\<lambda>_. 2) ex"
    "ex_task_registry ex = [t_id ?t \<mapsto> ?t]" "ex_polled ex = []"
    using spawn_blank by metis
  from executor_completes_tasks [OF s(2), of 0] obtain ex' tr where
    "executor_run countdown (ex, 0) = Some (Ok (), ex', 0)" "ex_status ex' = Finished" "ex_polled ex' = ex_polled ex @ tr"
    "\<forall>i\<in>dom (ex_task_registry ex). count_list tr i = Suc 2" by blast
  then show ?thesis using s by (intro exI [of _ ex] exI [of _ ex'] exI [of _ 0]) simp
qed

text \<open>
  A new executor starts, at its first switch, the launch code on the stack it was given
  with its own address in the first saved register; its root task, when it yields
  \<^verbatim>\<open>n\<close> times, is polled \<^verbatim>\<open>n + 1\<close> times by \<^verbatim>\<open>run\<close>, which then ends. It panics when there is no
  stack.
\<close>

theorem executor_new_runs_root:
  assumes alloc: "sa_allocate (kpt_map A) EXECUTOR_STACK_SIZE (fst ks) (snd ks) = (r, ks1)"
    and gen: "generator \<noteq> - 1" and t: "yields poll n (t_future t)" "task_rank (t_priority t) < 64"
  shows "case r of
      Inl _ \<Rightarrow> executor_new A entry satp addr generator priority t ks = (Panicked, ks1)
    | Ok stack_top \<Rightarrow> \<exists>ex. executor_new A entry satp addr generator priority t ks = (Ok (ex, generator + 1), ks1) \<and>
        ex_stack_top ex = stack_top \<and>
        ex_switch_context ex = sc_default\<lparr>sc_ra := va_as_usize entry, sc_sp := va_as_usize stack_top, sc_satp := satp, sc_s0 := addr\<rparr> \<and>
        (\<exists>ex'. executor_run poll (ex, g) = Some (Ok (), ex', g) \<and> ex_task_registry ex' = Map.empty \<and>
           ex_polled ex' = replicate (Suc n) (t_id t))"
proof (cases r)
  case (Inl e)
  then show ?thesis using alloc by (simp add: executor_new_def)
next
  case (Inr stack_top)
  let ?b = "blank_executor (generator + 1) priority stack_top (sc_init_executor_addr (va_new addr) (sc_new_executor entry stack_top satp))"
  obtain ex where ex: "ex_spawn t ?b = (Ok (), ex)" "all_ready poll (\<lambda>_. n) ex" "ex_task_registry ex = [t_id t \<mapsto> t]"
    "ex_polled ex = []" "ex_stack_top ex = stack_top"
    "ex_switch_context ex = sc_init_executor_addr (va_new addr) (sc_new_executor entry stack_top satp)"
    by (rule spawn_blank [OF t])
  obtain ex' tr where r: "run_loop poll (ex, g) = Some (Ok (), ex', g)" "dom (ex_task_registry ex') = {}"
    "ex_polled ex' = ex_polled ex @ tr" "set tr \<subseteq> dom (ex_task_registry ex)"
    "\<forall>i\<in>dom (ex_task_registry ex). count_list tr i = Suc n"
    using run_loop_completes [OF ex(2), of g] by blast
  have all: "\<forall>x\<in>set tr. x = t_id t" using r(4) ex(3) by auto
  then have "tr = replicate (length tr) (t_id t)" by (simp add: replicate_length_same)
  moreover have "count_list tr (t_id t) = length tr" using all by (induction tr) auto
  ultimately have tr: "tr = replicate (Suc n) (t_id t)" using r(5) ex(3) by simp
  have new: "executor_new A entry satp addr generator priority t ks = (Ok (ex, generator + 1), ks1)"
    using alloc Inr gen ex(1) by (simp add: executor_new_def serial_new_def blank_executor_def)
  show ?thesis unfolding Inr sum.case
    using new ex r tr by (intro exI [of _ ex] conjI exI [of _ "ex'\<lparr>ex_status := Finished\<rparr>"])
      (simp_all add: executor_run_def blank_executor_def sc_init_executor_addr_def sc_new_executor_def va_new_def)
qed

theorem executor_new_runs_root_witness:
  "\<exists>r ks1. sa_allocate (kpt_map pool_allocator) EXECUTOR_STACK_SIZE EXECUTOR_STACK_ALLOCATOR (demo_mem2, demo_pt) = (r, ks1) \<and>
     (case r of
        Inl _ \<Rightarrow> executor_new pool_allocator (VirtAddr 0x80200000) 0 0x1000 0 ExecutorPriority_default
          \<lparr>t_id = 1, t_priority = TaskPriority_default, t_future = 3\<rparr> (EXECUTOR_STACK_ALLOCATOR, demo_mem2, demo_pt) = (Panicked :: (nat Executor \<times> u64) res, ks1)
      | Ok stack_top \<Rightarrow> \<exists>ex. executor_new pool_allocator (VirtAddr 0x80200000) 0 0x1000 0 ExecutorPriority_default
          \<lparr>t_id = 1, t_priority = TaskPriority_default, t_future = 3\<rparr> (EXECUTOR_STACK_ALLOCATOR, demo_mem2, demo_pt) = (Ok (ex, 1), ks1) \<and>
          (\<exists>ex'. executor_run countdown (ex, 7) = Some (Ok (), ex', 7) \<and> ex_polled ex' = [1, 1, 1, 1]))"
proof -
  obtain r ks1 where al: "sa_allocate (kpt_map pool_allocator) EXECUTOR_STACK_SIZE
      (fst (EXECUTOR_STACK_ALLOCATOR, demo_mem2, demo_pt)) (snd (EXECUTOR_STACK_ALLOCATOR, demo_mem2, demo_pt)) = (r, ks1)" by (meson surj_pair)
  let ?t = "\<lparr>t_id = 1, t_priority = TaskPriority_default, t_future = 3\<rparr> :: nat Task"
  have y: "yields countdown 3 (t_future ?t)" "task_rank (t_priority ?t) < 64"
    using countdown_yields [of 3] by (simp_all add: fpq_rank_def TaskPriority_default_def)
  show ?thesis
    using al executor_new_runs_root [OF al _ y, where generator = 0 and entry = "VirtAddr 0x80200000" and satp = 0
        and addr = "0x1000" and priority = ExecutorPriority_default and g = 7]
    by (intro exI [of _ r] exI [of _ ks1]) (auto simp: numeral_3_eq_3 split: sum.splits)
qed

text \<open>
  \<^verbatim>\<open>run\<close> ends as soon as the queue is empty: an executor whose only task waits for
  something else and has not been woken is reported finished while the task is still
  pending.
\<close>

theorem executor_drops_waiting_task:
  fixes f :: 'fut
  assumes wait: "\<And>w. poll w f = (Poll_Pending, f, [])" and p: "task_rank p < 64"
    and sp: "ex_spawn \<lparr>t_id = k, t_priority = p, t_future = f\<rparr> (blank_executor i priority stack_top ctx) = (r, ex)"
  shows "\<exists>ex'. executor_run poll (ex, g) = Some (Ok (), ex', g) \<and> ex_status ex' = Finished \<and>
     ex_task_registry ex' k = Some \<lparr>t_id = k, t_priority = p, t_future = f\<rparr> \<and> ex_polled ex' = [k]"
proof -
  let ?b = "blank_executor i priority stack_top ctx :: 'fut Executor" and ?t = "\<lparr>t_id = k, t_priority = p, t_future = f\<rparr>"
  obtain q where q: "task_enqueue p k ?b = (Ok (), ?b\<lparr>ex_task_queue := q\<rparr>)" "tq_inv (?b\<lparr>ex_task_queue := q\<rparr>)"
    "fpq_list (fpql_inner q) = [(p, k)]"
    using task_enqueue_ok [OF blank_tq(1) p, of k i priority stack_top ctx thesis, where 'a = 'fut]
    by (simp add: blank_tq(2))
  have ex: "ex = ?b\<lparr>ex_task_queue := q, ex_task_registry := [k \<mapsto> ?t]\<rparr>"
    using sp q(1) by (simp add: ex_spawn_def) (simp add: blank_executor_def)
  obtain q' where q': "fpql_dequeue q = (Some (p, k), q')" "fpq_inv FastPriority_of_TaskPriority (fpql_inner q')" "fpq_list (fpql_inner q') = []"
    using fpql.deq_cons [OF q(2) [unfolded tq_inv_def], of "(p, k)" "[]"] q(3) by auto
  have none: "fpql_dequeue q' = (None, q')" using fpql.deq_empty [OF q'(2,3)] .
  let ?e = "ex\<lparr>ex_task_queue := q', ex_task_waker := [k \<mapsto> TaskWaker_create k p], ex_current_task_priority := p, ex_polled := [k]\<rparr>"
  have "run_loop poll (ex, g) = run_loop poll (?e, g)"
    by (subst run_loop.simps) (simp add: ex q' poll_task_def wait blank_executor_def)
  also have "\<dots> = Some (Ok (), ?e, g)" by (subst run_loop.simps) (simp add: none)
  finally show ?thesis by (simp add: executor_run_def ex)
qed

theorem executor_drops_waiting_task_witness:
  "\<exists>ex ex'. executor_run (\<lambda>w f. (Poll_Pending, f, [])) (ex, 0) = Some (Ok (), ex', 0) \<and> ex_status ex' = Finished \<and>
     ex_task_registry ex' 4 = Some \<lparr>t_id = 4, t_priority = TaskPriority_default, t_future = ()\<rparr>"
proof -
  obtain r ex where "ex_spawn \<lparr>t_id = 4, t_priority = TaskPriority_default, t_future = ()\<rparr>
      (blank_executor 1 ExecutorPriority_default (VirtAddr 0) sc_default) = (r, ex)" by fastforce
  from executor_drops_waiting_task [OF _ _ this, of "\<lambda>w f. (Poll_Pending, f, [])" 0] show ?thesis
    by (auto simp: fpq_rank_def TaskPriority_default_def)
qed

end
