(* ===== verification/Timed_Event.thy ===== *)
theory Timed_Event
  imports Hal "HOL-Library.Product_Lexorder"
begin

text \<open>
  The timed events of \<^verbatim>\<open>kern/modules/timed-event/src/lib.rs\<close>. Events are shared through
  \<^verbatim>\<open>Arc\<close>, so they live in a store and a tracker is a reference into it; the serial number of
  an event serves as its reference. Each processor has a queue: a registry and a heap of
  deadlines. A handler's two closures are opaque values; the model records every closure that
  is called, and the parameter \<^verbatim>\<open>call\<close> says what calling it does to the state.
\<close>

section \<open>The code\<close>

datatype TimedEventStatus = Pending | Timeout | Cancelled

record 'f TimedEventHandler =
  h_timeout :: 'f
  h_cancel :: 'f

record 'f TimedEvent =
  ev_id :: u64
  ev_cpu_id :: usize
  ev_time :: nat
  ev_status :: TimedEventStatus
  ev_handler :: "'f TimedEventHandler option"

datatype TimedEventTracker = TimedEventTracker (tracker_ref: u64)

record TimedEventQueue =
  q_registry :: "u64 \<rightharpoonup> TimedEventTracker"
  q_queue :: "(nat \<times> u64) list"

record 'f te_state =
  te_queues :: "usize \<Rightarrow> TimedEventQueue"
  te_events :: "u64 \<rightharpoonup> 'f TimedEvent"
  te_serial :: u64
  te_timer :: "usize \<Rightarrow> nat"
  te_calls :: "(u64 \<times> 'f) list"

text \<open>\<^verbatim>\<open>BinaryHeap::peek\<close> on reversed keys: the least element.\<close>

fun heap_peek :: "('a::linorder) list \<Rightarrow> 'a option" where
  "heap_peek [] = None"
| "heap_peek (x # xs) = Some (fold min xs x)"

definition teq_new :: TimedEventQueue where
  "teq_new = \<lparr>q_registry = Map.empty, q_queue = []\<rparr>"

text \<open>The dereferenced tracker; a reference keeps its event alive.\<close>

definition te_deref :: "'f te_state \<Rightarrow> TimedEventTracker \<Rightarrow> 'f TimedEvent" where
  "te_deref s t = the (te_events s (tracker_ref t))"

definition teq_peek :: "TimedEventQueue \<Rightarrow> TimedEventTracker option res" where
  "teq_peek q =
     (case heap_peek (q_queue q) of
        None \<Rightarrow> Ok None
      | Some (_, i) \<Rightarrow> (case q_registry q i of None \<Rightarrow> Panicked | Some t \<Rightarrow> Ok (Some t)))"

definition peek_outdated :: "nat \<Rightarrow> 'f te_state \<Rightarrow> TimedEventQueue \<Rightarrow> TimedEventTracker option res" where
  "peek_outdated now s q =
     (case teq_peek q of
        Ok (Some t) \<Rightarrow> Ok (if ev_time (te_deref s t) \<le> now then Some t else None)
      | r \<Rightarrow> r)"

text \<open>The timer that is set is always the one of the calling processor \<^verbatim>\<open>me\<close>, whichever
  processor the queue belongs to.\<close>

definition update_timer :: "usize \<Rightarrow> TimedEventQueue \<Rightarrow> 'f te_state \<Rightarrow> 'f te_state" where
  "update_timer me q s =
     (case heap_peek (q_queue q) of
        Some (t, _) \<Rightarrow> s\<lparr>te_timer := (te_timer s)(me := t)\<rparr>
      | None \<Rightarrow> s\<lparr>te_timer := (te_timer s)(me := Duration_MAX)\<rparr>)"

definition teq_add :: "usize \<Rightarrow> usize \<Rightarrow> TimedEventTracker \<Rightarrow> 'f te_state \<Rightarrow> 'f te_state" where
  "teq_add me cpu t s =
     (let i = ev_id (te_deref s t); time = ev_time (te_deref s t);
          q = te_queues s cpu;
          q' = q\<lparr>q_registry := (q_registry q)(i \<mapsto> t), q_queue := q_queue q @ [(time, i)]\<rparr>
      in update_timer me q' (s\<lparr>te_queues := (te_queues s)(cpu := q')\<rparr>))"

definition teq_remove :: "usize \<Rightarrow> usize \<Rightarrow> TimedEventTracker \<Rightarrow> 'f te_state \<Rightarrow> unit res \<times> 'f te_state" where
  "teq_remove me cpu t s =
     (let i = ev_id (te_deref s t); q = te_queues s cpu
      in case q_registry q i of
           None \<Rightarrow> (Fail InvalidTimedEventStatus, s)
         | Some _ \<Rightarrow>
             (let q' = q\<lparr>q_registry := (q_registry q)(i := None),
                         q_queue := filter (\<lambda>e. snd e \<noteq> i) (q_queue q)\<rparr>
              in (Ok (), update_timer me q' (s\<lparr>te_queues := (te_queues s)(cpu := q')\<rparr>))))"

definition te_create :: "usize \<Rightarrow> nat \<Rightarrow> 'f TimedEventHandler \<Rightarrow> 'f te_state \<Rightarrow> TimedEventTracker res \<times> 'f te_state" where
  "te_create me time handler s =
     (case serial_new (te_serial s) of
        Inl e \<Rightarrow> (Inl e, s)
      | Ok i \<Rightarrow>
          (let ev = \<lparr>ev_id = i, ev_cpu_id = me, ev_time = time, ev_status = Pending, ev_handler = Some handler\<rparr>;
               s1 = s\<lparr>te_serial := i, te_events := (te_events s)(i \<mapsto> ev)\<rparr>
           in (Ok (TimedEventTracker i), teq_add me me (TimedEventTracker i) s1)))"

definition te_invoke :: "('f \<Rightarrow> 'f te_state \<Rightarrow> 'f te_state) \<Rightarrow> TimedEventTracker \<Rightarrow> TimedEventStatus \<Rightarrow>
    'f te_state \<Rightarrow> unit res \<times> 'f te_state" where
  "te_invoke call t target s =
     (let ev = te_deref s t
      in case ev_handler ev of
           None \<Rightarrow> (Fail InvalidTimedEventStatus, s)
         | Some handler \<Rightarrow>
             (let run = (\<lambda>f. (Ok (), call f (s\<lparr>te_events := (te_events s)(tracker_ref t \<mapsto>
                           ev\<lparr>ev_handler := None, ev_status := target\<rparr>),
                         te_calls := te_calls s @ [(tracker_ref t, f)]\<rparr>)))
              in case target of
                   Timeout \<Rightarrow> run (h_timeout handler)
                 | Cancelled \<Rightarrow> run (h_cancel handler)
                 | Pending \<Rightarrow> (Panicked, s\<lparr>te_events := (te_events s)(tracker_ref t \<mapsto> ev\<lparr>ev_handler := None\<rparr>)\<rparr>)))"

definition te_timeout :: "('f \<Rightarrow> 'f te_state \<Rightarrow> 'f te_state) \<Rightarrow> usize \<Rightarrow> TimedEventTracker \<Rightarrow>
    'f te_state \<Rightarrow> unit res \<times> 'f te_state" where
  "te_timeout call me t s =
     (case teq_remove me (ev_cpu_id (te_deref s t)) t s of
        (Inl e, s') \<Rightarrow> (Inl e, s')
      | (Ok _, s') \<Rightarrow> te_invoke call t Timeout s')"

definition te_cancel :: "('f \<Rightarrow> 'f te_state \<Rightarrow> 'f te_state) \<Rightarrow> usize \<Rightarrow> TimedEventTracker \<Rightarrow>
    'f te_state \<Rightarrow> unit res \<times> 'f te_state" where
  "te_cancel call me t s =
     (case teq_remove me (ev_cpu_id (te_deref s t)) t s of
        (Inl e, s') \<Rightarrow> (Inl e, s')
      | (Ok _, s') \<Rightarrow> te_invoke call t Cancelled s')"

definition te_retired :: "'f te_state \<Rightarrow> TimedEventTracker \<Rightarrow> bool" where
  "te_retired s t \<longleftrightarrow> ev_status (te_deref s t) \<noteq> Pending"

text \<open>\<^verbatim>\<open>with_current\<close>: the calling processor's queue, with interrupts off meanwhile.\<close>

definition with_current :: "usize \<Rightarrow> (TimedEventQueue \<Rightarrow> 'r) \<Rightarrow> bool \<times> 'f te_state \<Rightarrow> 'r \<times> (bool \<times> 'f te_state)" where
  "with_current me f = with_saved_off (\<lambda>es. (f (te_queues (snd es) me), es))"

text \<open>The loop of the timer interrupt: as long as the earliest event of this processor is
  due, it times out. The \<^verbatim>\<open>n\<close>-th reading of the clock is \<^verbatim>\<open>clock n\<close>; a failing timeout is
  only logged.\<close>

partial_function (option) timer_loop :: "('f \<Rightarrow> 'f te_state \<Rightarrow> 'f te_state) \<Rightarrow> (nat \<Rightarrow> nat) \<Rightarrow> usize \<Rightarrow>
    nat \<Rightarrow> bool \<times> 'f te_state \<Rightarrow> (unit res \<times> nat \<times> (bool \<times> 'f te_state)) option" where
  "timer_loop call clock me n es =
     (case with_current me (peek_outdated (clock n) (snd es)) es of
        (Inl e, es') \<Rightarrow> Some (Inl e, Suc n, es')
      | (Ok None, es') \<Rightarrow> Some (Ok (), Suc n, es')
      | (Ok (Some t), es') \<Rightarrow>
          (case te_timeout call me t (snd es') of
             (Panicked, s') \<Rightarrow> Some (Panicked, Suc n, (fst es', s'))
           | (_, s') \<Rightarrow> timer_loop call clock me (Suc n) (fst es', s')))"

section \<open>Interleavings\<close>

text \<open>
  The queue and the event are locked separately, so an operation of another processor, or of
  the closure itself, can come between the removal of an event and the call of its closure. A step is one critical section; the second
  component lists the removals whose closure is still to be called, with the status they
  retire the event to.
\<close>

type_synonym 'f te_world = "'f te_state \<times> (u64 \<times> TimedEventStatus) list"

inductive te_step :: "'f te_world \<Rightarrow> 'f te_world \<Rightarrow> bool" where
  create: "te_create me time handler s = (r, s') \<Longrightarrow> te_step (s, cl) (s', cl)"
| remove: "te_events s i \<noteq> None \<Longrightarrow> target \<noteq> Pending \<Longrightarrow>
     teq_remove me (ev_cpu_id (te_deref s (TimedEventTracker i))) (TimedEventTracker i) s = (Ok (), s') \<Longrightarrow>
     te_step (s, cl) (s', (i, target) # cl)"
| invoke: "(i, target) \<in> set cl \<Longrightarrow> te_invoke (\<lambda>_ s. s) (TimedEventTracker i) target s = (r, s') \<Longrightarrow>
     te_step (s, cl) (s', filter (\<lambda>c. fst c \<noteq> i) cl)"

inductive_cases te_stepE: "te_step w w'"

definition te_start :: "'f te_state" where
  "te_start = \<lparr>te_queues = (\<lambda>_. teq_new), te_events = Map.empty, te_serial = 0, te_timer = (\<lambda>_. Duration_MAX), te_calls = []\<rparr>"

text \<open>An event is registered on its processor, claimed by a removal, or retired.\<close>

definition registered :: "'f te_state \<Rightarrow> usize \<Rightarrow> u64 \<Rightarrow> bool" where
  "registered s c i \<longleftrightarrow> q_registry (te_queues s c) i \<noteq> None"

definition heap_ok :: "'f te_state \<Rightarrow> usize \<Rightarrow> bool" where
  "heap_ok s c \<longleftrightarrow>
     distinct (q_queue (te_queues s c)) \<and>
     (\<forall>i t. q_registry (te_queues s c) i = Some t \<longrightarrow> t = TimedEventTracker i) \<and>
     (\<forall>x i. (x, i) \<in> set (q_queue (te_queues s c)) \<longleftrightarrow>
        registered s c i \<and> (\<exists>e. te_events s i = Some e \<and> ev_time e = x))"

definition event_ok :: "'f te_state \<Rightarrow> u64 set \<Rightarrow> u64 \<Rightarrow> 'f TimedEvent \<Rightarrow> bool" where
  "event_ok s cl i e \<longleftrightarrow>
     ev_id e = i \<and> i \<le> te_serial s \<and>
     (ev_handler e = None \<longleftrightarrow> ev_status e \<noteq> Pending) \<and>
     (ev_status e = Pending \<longleftrightarrow> registered s (ev_cpu_id e) i \<or> i \<in> cl) \<and>
     \<not> (registered s (ev_cpu_id e) i \<and> i \<in> cl) \<and>
     (ev_status e \<noteq> Pending \<longleftrightarrow> i \<in> fst ` set (te_calls s))"

definition te_ok :: "'f te_world \<Rightarrow> bool" where
  "te_ok w \<longleftrightarrow>
     (\<forall>c. heap_ok (fst w) c) \<and>
     (\<forall>i e. te_events (fst w) i = Some e \<longrightarrow> event_ok (fst w) (fst ` set (snd w)) i e) \<and>
     (\<forall>c i. registered (fst w) c i \<longrightarrow> (\<exists>e. te_events (fst w) i = Some e \<and> ev_cpu_id e = c)) \<and>
     fst ` set (snd w) \<subseteq> dom (te_events (fst w)) \<and>
     Pending \<notin> snd ` set (snd w) \<and>
     fst ` set (te_calls (fst w)) \<subseteq> dom (te_events (fst w)) \<and>
     distinct (map fst (te_calls (fst w)))"

section \<open>Facts\<close>

lemma heap_peek_Min: "heap_peek xs = (if xs = [] then None else Some (Min (set xs)))"
  by (cases xs) (simp_all only: heap_peek.simps Min.set_eq_fold, simp_all)

lemma heap_peek_none [simp]: "heap_peek xs = None \<longleftrightarrow> xs = []"
  by (cases xs) simp_all

lemma heap_peek_some: "heap_peek xs = Some m \<longleftrightarrow> m \<in> set xs \<and> (\<forall>y\<in>set xs. m \<le> y)"
proof (cases "xs = []")
  case False
  then have "Min (set xs) = m \<longleftrightarrow> m \<in> set xs \<and> (\<forall>y\<in>set xs. m \<le> y)" by (intro Min_eq_iff) simp_all
  then show ?thesis using False by (simp add: heap_peek_Min)
qed simp

lemma te_okD:
  assumes "te_ok (s, cl)"
  shows te_ok_heap: "heap_ok s c"
    and te_ok_event: "te_events s i = Some e \<Longrightarrow> event_ok s (fst ` set cl) i e"
    and te_ok_registered: "registered s c i \<Longrightarrow> \<exists>e. te_events s i = Some e \<and> ev_cpu_id e = c"
    and te_ok_claims: "fst ` set cl \<subseteq> dom (te_events s)"
    and te_ok_targets: "Pending \<notin> snd ` set cl"
    and te_ok_calls: "fst ` set (te_calls s) \<subseteq> dom (te_events s)" "distinct (map fst (te_calls s))"
  using assms unfolding te_ok_def by simp_all

lemma te_start_ok: "te_ok (te_start, [])"
  by (simp add: te_ok_def heap_ok_def registered_def te_start_def teq_new_def)

lemma update_timer_fields [simp]:
  "te_queues (update_timer me q s) = te_queues s" "te_events (update_timer me q s) = te_events s"
  "te_serial (update_timer me q s) = te_serial s" "te_calls (update_timer me q s) = te_calls s"
  by (auto simp: update_timer_def split: option.split)

lemma registered_cong: "te_queues s' = te_queues s \<Longrightarrow> registered s' = registered s"
  by (simp add: registered_def fun_eq_iff)

lemma te_peek_safe:
  assumes "te_ok (s, cl)"
  shows "teq_peek (te_queues s c) =
     Ok (map_option (\<lambda>m. TimedEventTracker (snd m)) (heap_peek (q_queue (te_queues s c))))"
proof (cases "heap_peek (q_queue (te_queues s c))")
  case (Some m)
  obtain x i where m: "m = (x, i)" by (cases m)
  then have "(x, i) \<in> set (q_queue (te_queues s c))" using Some heap_peek_some by metis
  then have "registered s c i" using te_ok_heap [OF assms] by (auto simp: heap_ok_def)
  then show ?thesis using te_ok_heap [OF assms, of c] Some m
    by (auto simp: teq_peek_def registered_def heap_ok_def)
qed (simp add: teq_peek_def)

text \<open>The three kinds of critical sections keep the invariant.\<close>

lemma te_create_cases:
  "te_create me time h s = (r, s') \<Longrightarrow>
   (r = Panicked \<and> s' = s) \<or>
   (\<exists>i. te_serial s < i \<and> r = Ok (TimedEventTracker i) \<and> te_serial s' = i \<and> te_calls s' = te_calls s \<and>
      te_events s' = (te_events s)(i \<mapsto> \<lparr>ev_id = i, ev_cpu_id = me, ev_time = time, ev_status = Pending, ev_handler = Some h\<rparr>) \<and>
      te_queues s' = (te_queues s)(me := (te_queues s me)\<lparr>q_registry := (q_registry (te_queues s me))(i \<mapsto> TimedEventTracker i),
        q_queue := q_queue (te_queues s me) @ [(time, i)]\<rparr>))"
  by (cases "serial_new (te_serial s)")
    (auto simp: te_create_def teq_add_def te_deref_def Let_def serial_new_less serial_new_def split: if_splits)

lemma te_create_ok:
  assumes ok: "te_ok (s, cl)" and c: "te_create me time h s = (r, s')"
  shows "te_ok (s', cl)"
  using te_create_cases [OF c]
proof (elim disjE exE conjE)
  assume "s' = s" then show ?thesis using ok by simp
next
  fix i
  assume i: "te_serial s < i" and s': "te_serial s' = i" "te_calls s' = te_calls s"
    "te_events s' = (te_events s)(i \<mapsto> \<lparr>ev_id = i, ev_cpu_id = me, ev_time = time, ev_status = Pending, ev_handler = Some h\<rparr>)"
    "te_queues s' = (te_queues s)(me := (te_queues s me)\<lparr>q_registry := (q_registry (te_queues s me))(i \<mapsto> TimedEventTracker i),
        q_queue := q_queue (te_queues s me) @ [(time, i)]\<rparr>)"
  have fresh: "te_events s i = None"
    using te_ok_event [OF ok] i by (metis event_ok_def not_le option.exhaust)
  then have unreg: "\<not> registered s c i" and uncl: "i \<notin> fst ` set cl" and uncall: "i \<notin> fst ` set (te_calls s)" for c
    using te_ok_registered [OF ok, of c i] te_ok_claims [OF ok] te_ok_calls [OF ok] by auto
  have reg: "registered s' c j \<longleftrightarrow> registered s c j \<or> c = me \<and> j = i" for c j
    by (auto simp: registered_def s')
  have q: "(x, i) \<notin> set (q_queue (te_queues s c))" for x c
    using te_ok_heap [OF ok, of c] unreg by (auto simp: heap_ok_def)
  have "heap_ok s' c" for c
    using te_ok_heap [OF ok, of c] fresh q unreg unfolding heap_ok_def reg by (auto simp: s')
  moreover have "event_ok s' (fst ` set cl) j e" if "te_events s' j = Some e" for j e
    using that te_ok_event [OF ok, of j e] i uncl uncall unfolding event_ok_def reg
    by (auto simp: s' split: if_splits)
  moreover have "\<exists>e. te_events s' j = Some e \<and> ev_cpu_id e = c" if "registered s' c j" for c j
    using that te_ok_registered [OF ok, of c j] fresh unfolding reg by (auto simp: s')
  ultimately show ?thesis
    using te_ok_claims [OF ok] te_ok_targets [OF ok] te_ok_calls [OF ok] unfolding te_ok_def fst_conv snd_conv
    by (auto simp: s')
qed

text \<open>What a removal does when the event is registered.\<close>

lemma te_remove_spec:
  assumes ok: "te_ok (s, cl)" and e: "te_events s i = Some e"
  defines "q \<equiv> te_queues s (ev_cpu_id e)"
  defines "q' \<equiv> q\<lparr>q_registry := (q_registry q)(i := None), q_queue := filter (\<lambda>k. snd k \<noteq> i) (q_queue q)\<rparr>"
  shows "teq_remove me (ev_cpu_id (te_deref s (TimedEventTracker i))) (TimedEventTracker i) s =
    (if registered s (ev_cpu_id e) i then (Ok (), update_timer me q' (s\<lparr>te_queues := (te_queues s)(ev_cpu_id e := q')\<rparr>))
     else (Fail InvalidTimedEventStatus, s))"
  using te_ok_event [OF ok e] e
  by (auto simp: teq_remove_def te_deref_def registered_def event_ok_def q_def q'_def Let_def)

lemma te_remove_ok:
  assumes ok: "te_ok (s, cl)" and e: "te_events s i = Some e" and t: "target \<noteq> Pending"
    and r: "teq_remove me (ev_cpu_id (te_deref s (TimedEventTracker i))) (TimedEventTracker i) s = (Ok (), s')"
  shows "te_ok (s', (i, target) # cl)"
proof -
  let ?c = "ev_cpu_id e"
  have was: "registered s ?c i" and s': "te_events s' = te_events s" "te_serial s' = te_serial s" "te_calls s' = te_calls s"
    "te_queues s' = (te_queues s)(?c := (te_queues s ?c)\<lparr>q_registry := (q_registry (te_queues s ?c))(i := None),
       q_queue := filter (\<lambda>k. snd k \<noteq> i) (q_queue (te_queues s ?c))\<rparr>)"
    using r unfolding te_remove_spec [OF ok e] by (auto split: if_splits)
  have reg: "registered s' c j \<longleftrightarrow> registered s c j \<and> \<not> (c = ?c \<and> j = i)" for c j
    by (auto simp: registered_def s')
  have own: "c = ?c" if "registered s c i" for c using te_ok_registered [OF ok that] e by auto
  have "heap_ok s' c" for c
    using te_ok_heap [OF ok, of c] unfolding heap_ok_def reg by (auto simp: s')
  moreover have "event_ok s' (fst ` set ((i, target) # cl)) j k" if "te_events s' j = Some k" for j k
    using that te_ok_event [OF ok, of j k] e was unfolding event_ok_def reg by (auto simp: s')
  moreover have "\<exists>e. te_events s' j = Some e \<and> ev_cpu_id e = c" if "registered s' c j" for c j
    using that te_ok_registered [OF ok, of c j] unfolding reg by (auto simp: s')
  ultimately show ?thesis
    using te_ok_claims [OF ok] te_ok_targets [OF ok] te_ok_calls [OF ok] t e unfolding te_ok_def fst_conv snd_conv
    by (auto simp: s')
qed

definition chosen :: "TimedEventStatus \<Rightarrow> 'f TimedEventHandler \<Rightarrow> 'f" where
  "chosen target h = (if target = Timeout then h_timeout h else h_cancel h)"

lemma te_invoke_spec:
  assumes e: "te_events s i = Some e" and t: "target \<noteq> Pending"
  shows "te_invoke call (TimedEventTracker i) target s =
    (case ev_handler e of None \<Rightarrow> (Fail InvalidTimedEventStatus, s)
     | Some h \<Rightarrow> (Ok (), call (chosen target h) (s\<lparr>te_events := (te_events s)(i \<mapsto> e\<lparr>ev_handler := None, ev_status := target\<rparr>),
         te_calls := te_calls s @ [(i, chosen target h)]\<rparr>)))"
  using t e by (cases target) (auto simp: te_invoke_def te_deref_def chosen_def Let_def split: option.split)

lemma te_invoke_ok:
  assumes ok: "te_ok (s, cl)" and cl: "(i, target) \<in> set cl"
    and r: "te_invoke (\<lambda>_ s. s) (TimedEventTracker i) target s = (r, s')"
  shows "r = Ok () \<and> te_ok (s', filter (\<lambda>c. fst c \<noteq> i) cl)"
proof -
  have icl: "i \<in> fst ` set cl" using cl by force
  then obtain e where e: "te_events s i = Some e" using te_ok_claims [OF ok] by auto
  have t: "target \<noteq> Pending" using te_ok_targets [OF ok] cl by force
  have eok: "event_ok s (fst ` set cl) i e" by (rule te_ok_event [OF ok e])
  then obtain h where h: "ev_handler e = Some h" and unreg: "\<not> registered s (ev_cpu_id e) i"
    and nocall: "i \<notin> fst ` set (te_calls s)"
    using icl by (auto simp: event_ok_def)
  define f where "f = chosen target h"
  have rs: "r = Ok ()" "s' = s\<lparr>te_events := (te_events s)(i \<mapsto> e\<lparr>ev_handler := None, ev_status := target\<rparr>),
         te_calls := te_calls s @ [(i, f)]\<rparr>"
    using r unfolding te_invoke_spec [OF e t] by (simp_all add: h f_def)
  have reg: "registered s' = registered s" by (rule registered_cong) (simp add: rs)
  have own: "\<not> registered s c i" for c using te_ok_registered [OF ok, of c i] e unreg by auto
  have "heap_ok s' c" for c
    using te_ok_heap [OF ok, of c] own [of c] unfolding heap_ok_def reg by (simp add: rs)
  moreover have "event_ok s' (fst ` set (filter (\<lambda>c. fst c \<noteq> i) cl)) j k" if "te_events s' j = Some k" for j k
  proof (cases "j = i")
    case True
    then show ?thesis using that eok t unreg unfolding event_ok_def reg by (auto simp: rs)
  next
    case False
    then have "j \<in> fst ` set (filter (\<lambda>c. fst c \<noteq> i) cl) \<longleftrightarrow> j \<in> fst ` set cl" by force
    then show ?thesis using False that te_ok_event [OF ok, of j k] unfolding event_ok_def reg by (simp add: rs) blast
  qed
  moreover have "\<exists>e. te_events s' j = Some e \<and> ev_cpu_id e = c" if "registered s' c j" for c j
    using that te_ok_registered [OF ok, of c j] own unfolding reg by (auto simp: rs)
  ultimately show ?thesis
    using te_ok_claims [OF ok] te_ok_targets [OF ok] te_ok_calls [OF ok] nocall e unfolding te_ok_def fst_conv snd_conv
    by (auto simp: rs)
qed

lemma te_step_ok: "te_step w w' \<Longrightarrow> te_ok w \<Longrightarrow> te_ok w'"
  by (induction rule: te_step.induct) (auto intro: te_create_ok te_remove_ok dest: te_invoke_ok)

lemma te_steps_ok: "te_step\<^sup>*\<^sup>* w w' \<Longrightarrow> te_ok w \<Longrightarrow> te_ok w'"
  by (induction rule: rtranclp_induct) (auto intro: te_step_ok)

lemma te_calls_step: "te_step w w' \<Longrightarrow> te_ok w \<Longrightarrow> \<exists>cs. te_calls (fst w') = te_calls (fst w) @ cs"
proof (induction rule: te_step.induct)
  case (create me time handler s r s' cl)
  then show ?case using te_create_cases [OF create(1)] by auto
next
  case (remove s i target me s' cl)
  then show ?case by (auto simp: teq_remove_def Let_def split: option.splits)
next
  case (invoke i target cl s r s')
  then show ?case by (auto simp: te_invoke_def Let_def split: option.splits TimedEventStatus.splits)
qed

text \<open>\<^verbatim>\<open>timeout\<close> and \<^verbatim>\<open>cancel\<close> are such a removal followed by the call.\<close>

definition te_retire :: "('f \<Rightarrow> 'f te_state \<Rightarrow> 'f te_state) \<Rightarrow> TimedEventStatus \<Rightarrow> usize \<Rightarrow> TimedEventTracker \<Rightarrow> 'f te_state \<Rightarrow> unit res \<times> 'f te_state" where
  "te_retire call target = (if target = Timeout then te_timeout call else te_cancel call)"

lemma te_retire_steps:
  assumes "te_ok (s, cl)" "te_events s i = Some e" "target \<noteq> Pending" "registered s (ev_cpu_id e) i"
    "te_retire (\<lambda>_ s. s) target me (TimedEventTracker i) s = (r, s')"
  shows "r = Ok () \<and> te_step\<^sup>*\<^sup>* (s, cl) (s', filter (\<lambda>c. fst c \<noteq> i) cl)"
proof -
  obtain s1 where s1: "teq_remove me (ev_cpu_id (te_deref s (TimedEventTracker i))) (TimedEventTracker i) s = (Ok (), s1)"
    using te_remove_spec [OF assms(1,2)] assms(4) by metis
  have inv: "te_invoke (\<lambda>_ s. s) (TimedEventTracker i) target s1 = (r, s')"
    using assms(3,5) s1 by (cases target) (auto simp: te_retire_def te_timeout_def te_cancel_def)
  have a: "te_step (s, cl) (s1, (i, target) # cl)" using te_step.remove [of s i target me s1 cl] assms(2,3) s1 by auto
  have b: "te_step (s1, (i, target) # cl) (s', filter (\<lambda>c. fst c \<noteq> i) ((i, target) # cl))"
    by (rule te_step.invoke [OF _ inv]) simp
  have "r = Ok ()" using te_invoke_ok [OF te_step_ok [OF a assms(1)] _ inv] by simp
  then show ?thesis using a b by (auto intro: rtranclp.rtrancl_into_rtrancl)
qed

section \<open>The timer interrupt's loop\<close>

definition deadline :: "'f te_state \<Rightarrow> u64 \<Rightarrow> nat" where
  "deadline s i = ev_time (the (te_events s i))"

definition timeout_call :: "'f te_state \<Rightarrow> u64 \<Rightarrow> u64 \<times> 'f" where
  "timeout_call s i = (i, h_timeout (the (ev_handler (the (te_events s i)))))"

text \<open>The timer of a processor is programmed for its earliest event.\<close>

definition timer_ok :: "'f te_state \<Rightarrow> usize \<Rightarrow> bool" where
  "timer_ok s c \<longleftrightarrow>
     te_timer s c = (case heap_peek (q_queue (te_queues s c)) of None \<Rightarrow> Duration_MAX | Some m \<Rightarrow> fst m)"

lemma update_timer_timer:
  "te_timer (update_timer me q s) =
     (te_timer s)(me := (case heap_peek (q_queue q) of None \<Rightarrow> Duration_MAX | Some m \<Rightarrow> fst m))"
  by (auto simp: update_timer_def split: option.split)

lemma loop_head:
  assumes ok: "te_ok (s, cl)" and pk: "heap_peek (q_queue (te_queues s me)) = Some (x, i)"
  obtains e h where "te_events s i = Some e" "ev_handler e = Some h" "ev_cpu_id e = me" "ev_status e = Pending"
    "registered s me i" "ev_time e = x" "\<And>j. registered s me j \<Longrightarrow> (x, i) \<le> (deadline s j, j)"
proof -
  have min: "(x, i) \<in> set (q_queue (te_queues s me))" "\<forall>y\<in>set (q_queue (te_queues s me)). (x, i) \<le> y"
    using pk heap_peek_some by metis+
  have hp: "heap_ok s me" by (rule te_ok_heap [OF ok])
  then obtain e where e: "te_events s i = Some e" "ev_time e = x" "registered s me i"
    using min(1) by (auto simp: heap_ok_def)
  then have me: "ev_cpu_id e = me" using te_ok_registered [OF ok, of me i] by auto
  then have st: "ev_status e = Pending" using te_ok_event [OF ok e(1)] e(3) by (simp add: event_ok_def)
  then obtain h where h: "ev_handler e = Some h" using te_ok_event [OF ok e(1)] by (auto simp: event_ok_def)
  have "(x, i) \<le> (deadline s j, j)" if "registered s me j" for j
    using te_ok_registered [OF ok that] that min(2) hp by (fastforce simp: heap_ok_def deadline_def)
  then show thesis using that e me st h by blast
qed

lemma loop_fire:
  assumes ok: "te_ok (s, [])" and pk: "heap_peek (q_queue (te_queues s me)) = Some (x, i)"
  obtains s' where "te_timeout (\<lambda>_ s. s) me (TimedEventTracker i) s = (Ok (), s')" "te_ok (s', [])"
    "\<And>j. deadline s' j = deadline s j" "\<And>j. j \<noteq> i \<Longrightarrow> timeout_call s' j = timeout_call s j"
    "\<And>j. registered s' me j \<longleftrightarrow> registered s me j \<and> j \<noteq> i" "te_calls s' = te_calls s @ [timeout_call s i]"
    "\<And>c. c \<noteq> me \<Longrightarrow> te_queues s' c = te_queues s c \<and> te_timer s' c = te_timer s c" "timer_ok s' me"
    "length (q_queue (te_queues s' me)) < length (q_queue (te_queues s me))"
proof -
  obtain e h where e: "te_events s i = Some e" "ev_handler e = Some h" "ev_cpu_id e = me" "ev_status e = Pending"
    "registered s me i" "ev_time e = x" by (rule loop_head [OF ok pk])
  define q' where "q' = (te_queues s me)\<lparr>q_registry := (q_registry (te_queues s me))(i := None),
    q_queue := filter (\<lambda>k. snd k \<noteq> i) (q_queue (te_queues s me))\<rparr>"
  define s' where "s' = (update_timer me q' (s\<lparr>te_queues := (te_queues s)(me := q')\<rparr>))
    \<lparr>te_events := (te_events s)(i \<mapsto> e\<lparr>ev_handler := None, ev_status := Timeout\<rparr>), te_calls := te_calls s @ [(i, h_timeout h)]\<rparr>"
  have t: "te_timeout (\<lambda>_ s. s) me (TimedEventTracker i) s = (Ok (), s')"
    unfolding te_timeout_def te_remove_spec [OF ok e(1)] using e
    by (simp add: s'_def q'_def chosen_def te_invoke_spec)
  have ok': "te_ok (s', [])"
    using te_retire_steps [OF ok e(1), of Timeout me "Ok ()" s'] t e te_steps_ok ok by (auto simp: te_retire_def)
  have "(x, i) \<in> set (q_queue (te_queues s me))" using pk heap_peek_some by metis
  then have "length (q_queue (te_queues s' me)) < length (q_queue (te_queues s me))"
    by (auto simp: s'_def q'_def intro: length_filter_less)
  moreover have "timer_ok s' me" by (simp add: timer_ok_def s'_def update_timer_timer)
  moreover have "deadline s' j = deadline s j" for j using e by (simp add: s'_def deadline_def)
  moreover have "te_calls s' = te_calls s @ [timeout_call s i]" using e by (simp add: s'_def timeout_call_def)
  moreover have "registered s' me j \<longleftrightarrow> registered s me j \<and> j \<noteq> i" for j by (auto simp: s'_def q'_def registered_def)
  moreover have "c \<noteq> me \<Longrightarrow> te_queues s' c = te_queues s c \<and> te_timer s' c = te_timer s c" for c
    by (simp add: s'_def update_timer_timer)
  moreover have "j \<noteq> i \<Longrightarrow> timeout_call s' j = timeout_call s j" for j by (simp add: s'_def timeout_call_def)
  ultimately show thesis using that t ok' by blast
qed

lemma with_current_pure: "with_current me f (en, s) = (f (te_queues s me), (en, s))"
  by (cases en) (simp_all add: with_current_def with_saved_off_def)

text \<open>What one run of the loop from the \<^verbatim>\<open>n\<close>-th to just before the \<^verbatim>\<open>m\<close>-th reading of the
  clock achieves: the events \<^verbatim>\<open>ds\<close> have been fired.\<close>

definition fired :: "(nat \<Rightarrow> nat) \<Rightarrow> usize \<Rightarrow> nat \<Rightarrow> nat \<Rightarrow> u64 list \<Rightarrow> 'f te_state \<Rightarrow> 'f te_state \<Rightarrow> bool" where
  "fired clock me n m ds s s' \<longleftrightarrow>
     te_calls s' = te_calls s @ map (timeout_call s) ds \<and>
     sorted (map (\<lambda>i. (deadline s i, i)) ds) \<and> distinct ds \<and>
     n < m \<and> set ds = {i. registered s me i \<and> deadline s i \<le> clock (m - 1)} \<and>
     {i. registered s' me i} = {i. registered s me i \<and> clock (m - 1) < deadline s i} \<and>
     (\<forall>c. c \<noteq> me \<longrightarrow> te_queues s' c = te_queues s c \<and> te_timer s' c = te_timer s c) \<and>
     (ds = [] \<longrightarrow> s' = s) \<and> (ds \<noteq> [] \<longrightarrow> timer_ok s' me)"

lemma fired_none:
  assumes "\<And>j. registered s me j \<Longrightarrow> clock n < deadline s j"
  shows "fired clock me n (Suc n) [] s s"
  using assms by (fastforce simp: fired_def)

lemma fired_cons:
  assumes f: "fired clock me (Suc n) m ds s1 s2" and mono: "mono clock" and x: "x \<le> clock n" and r: "registered s me i"
    and min: "\<And>j. registered s me j \<Longrightarrow> (x, i) \<le> (deadline s j, j)" and xi: "deadline s i = x"
    and d: "\<And>j. deadline s1 j = deadline s j" and c: "\<And>j. j \<noteq> i \<Longrightarrow> timeout_call s1 j = timeout_call s j"
    and reg: "\<And>j. registered s1 me j \<longleftrightarrow> registered s me j \<and> j \<noteq> i" and calls: "te_calls s1 = te_calls s @ [timeout_call s i]"
    and oth: "\<And>c. c \<noteq> me \<Longrightarrow> te_queues s1 c = te_queues s c \<and> te_timer s1 c = te_timer s c" and t: "timer_ok s1 me"
  shows "fired clock me n m (i # ds) s s2"
proof -
  have ds: "set ds = {j. registered s me j \<and> j \<noteq> i \<and> deadline s j \<le> clock (m - 1)}" and m: "Suc n < m"
    using f by (auto simp: fired_def reg d)
  have le: "x \<le> clock (m - 1)" using x monoD [OF mono, of n "m - 1"] m by linarith
  have "map (timeout_call s1) ds = map (timeout_call s) ds" using ds by (intro map_cong refl c) auto
  moreover have "\<forall>j\<in>set ds. (x, i) \<le> (deadline s j, j)" using min ds by blast
  ultimately show ?thesis using f le m r t oth ds unfolding fired_def by (auto simp: calls d xi reg)
qed

lemma timer_loop_ok:
  assumes "te_ok (s, [])" "mono clock"
  shows "\<exists>m ds s'. timer_loop (\<lambda>_ s. s) clock me n (en, s) = Some (Ok (), m, (en, s')) \<and>
    te_ok (s', []) \<and> fired clock me n m ds s s'"
  using assms(1)
proof (induction "length (q_queue (te_queues s me))" arbitrary: s n rule: less_induct)
  case less
  note peek = te_peek_safe [OF less.prems, of me]
  note unf = timer_loop.simps [of "\<lambda>_ s. s" clock me n "(en, s)"] with_current_pure peek_outdated_def peek
  show ?case
  proof (cases "heap_peek (q_queue (te_queues s me))")
    case None
    then have "\<not> registered s me j" for j
      using te_ok_heap [OF less.prems, of me] te_ok_registered [OF less.prems, of me j] by (fastforce simp: heap_ok_def)
    then have "fired clock me n (Suc n) [] s s" by (auto intro: fired_none)
    then show ?thesis using less.prems None unfolding unf by fastforce
  next
    case (Some k)
    obtain x i where k: "k = (x, i)" by (cases k)
    note pk = Some [unfolded k]
    obtain e h where e: "te_events s i = Some e" "ev_time e = x" "registered s me i"
      and min: "\<And>j. registered s me j \<Longrightarrow> (x, i) \<le> (deadline s j, j)" by (rule loop_head [OF less.prems pk]) blast
    have xi: "deadline s i = x" using e by (simp add: deadline_def)
    show ?thesis
    proof (cases "x \<le> clock n")
      case False
      then have "fired clock me n (Suc n) [] s s" using min by (intro fired_none) fastforce
      then show ?thesis using less.prems pk False e unfolding unf by (fastforce simp: te_deref_def)
    next
      case True
      obtain s1 where s1: "te_timeout (\<lambda>_ s. s) me (TimedEventTracker i) s = (Ok (), s1)" "te_ok (s1, [])"
        and f: "\<And>j. deadline s1 j = deadline s j" "\<And>j. j \<noteq> i \<Longrightarrow> timeout_call s1 j = timeout_call s j"
          "\<And>j. registered s1 me j \<longleftrightarrow> registered s me j \<and> j \<noteq> i" "te_calls s1 = te_calls s @ [timeout_call s i]"
          "\<And>c. c \<noteq> me \<Longrightarrow> te_queues s1 c = te_queues s c \<and> te_timer s1 c = te_timer s c" "timer_ok s1 me"
        and len: "length (q_queue (te_queues s1 me)) < length (q_queue (te_queues s me))"
        using loop_fire [OF less.prems pk] by metis
      obtain m ds s2 where *: "timer_loop (\<lambda>_ s. s) clock me (Suc n) (en, s1) = Some (Ok (), m, (en, s2))"
        "te_ok (s2, [])" "fired clock me (Suc n) m ds s1 s2"
        using less.hyps [OF len s1(2)] by blast
      have "timer_loop (\<lambda>_ s. s) clock me n (en, s) = timer_loop (\<lambda>_ s. s) clock me (Suc n) (en, s1)"
        unfolding unf using pk e s1(1) True by (simp add: te_deref_def)
      then show ?thesis using * fired_cons [OF *(3) assms(2) True e(3) min xi f] by auto
    qed
  qed
qed

section \<open>Properties\<close>

text \<open>
  C13. However the operations of all processors interleave at their locks, each event's
  handler is called at most once and exactly when the event is retired, a claimed removal
  always finds its handler, the queues never hold a dangling identifier, so looking at the
  earliest event cannot panic, and every event still pending is registered on its own
  processor or claimed, never both.
\<close>

theorem timed_events_fire_once:
  assumes "te_step\<^sup>*\<^sup>* (te_start, []) (s, cl)"
  shows "distinct (map fst (te_calls s)) \<and>
    (\<forall>i e. te_events s i = Some e \<longrightarrow>
       (te_retired s (TimedEventTracker i) \<longleftrightarrow> i \<in> fst ` set (te_calls s)) \<and>
       (ev_status e = Pending \<longleftrightarrow> registered s (ev_cpu_id e) i \<noteq> (i \<in> fst ` set cl))) \<and>
    (\<forall>i target. (i, target) \<in> set cl \<longrightarrow> fst (te_invoke (\<lambda>_ s. s) (TimedEventTracker i) target s) = Ok ()) \<and>
    (\<forall>c. \<exists>t. teq_peek (te_queues s c) = Ok t)"
proof -
  have ok: "te_ok (s, cl)" using te_steps_ok [OF assms te_start_ok] .
  have "(te_retired s (TimedEventTracker i) \<longleftrightarrow> i \<in> fst ` set (te_calls s)) \<and>
       (ev_status e = Pending \<longleftrightarrow> registered s (ev_cpu_id e) i \<noteq> (i \<in> fst ` set cl))" if "te_events s i = Some e" for i e
    using te_ok_event [OF ok that] that unfolding event_ok_def te_retired_def te_deref_def by auto
  moreover have "fst (te_invoke (\<lambda>_ s. s) (TimedEventTracker i) target s) = Ok ()" if "(i, target) \<in> set cl" for i target
    using te_invoke_ok [OF ok that] by (metis fst_conv surj_pair)
  ultimately show ?thesis using te_ok_calls(2) [OF ok] te_peek_safe [OF ok] by blast
qed

text \<open>The state after processor 0 created an event for time 100 and processor 1 one for time
  200; the closures are numbered.\<close>

definition demo_te :: "nat te_state" where
  "demo_te = snd (te_create 1 200 \<lparr>h_timeout = 3, h_cancel = 4\<rparr>
               (snd (te_create 0 100 \<lparr>h_timeout = 1, h_cancel = 2\<rparr> te_start)))"

lemmas te_eval = te_start_def te_create_def serial_new_def teq_add_def update_timer_def te_deref_def teq_new_def
  teq_remove_def te_invoke_def Let_def

lemma te_create_step: "te_step\<^sup>*\<^sup>* w (s, cl) \<Longrightarrow> te_step\<^sup>*\<^sup>* w (snd (te_create me time h s), cl)"
  by (erule rtranclp.rtrancl_into_rtrancl) (rule te_step.create [OF surjective_pairing])

lemma demo_te_reach: "te_step\<^sup>*\<^sup>* (te_start, []) (demo_te, [])"
  unfolding demo_te_def by (intro te_create_step rtranclp.rtrancl_refl)

lemma demo_te_events:
  "te_events demo_te = [1 \<mapsto> \<lparr>ev_id = 1, ev_cpu_id = 0, ev_time = 100, ev_status = Pending, ev_handler = Some \<lparr>h_timeout = 1, h_cancel = 2\<rparr>\<rparr>,
     2 \<mapsto> \<lparr>ev_id = 2, ev_cpu_id = 1, ev_time = 200, ev_status = Pending, ev_handler = Some \<lparr>h_timeout = 3, h_cancel = 4\<rparr>\<rparr>]"
  "te_calls demo_te = []" "te_timer demo_te = (\<lambda>_. Duration_MAX)(0 := 100, 1 := 200)"
  "registered demo_te 0 = (\<lambda>i. i = 1)" "registered demo_te 1 = (\<lambda>i. i = 2)"
  "q_queue (te_queues demo_te 0) = [(100, 1)]" "q_queue (te_queues demo_te 1) = [(200, 2)]"
  by (auto simp: demo_te_def te_eval registered_def fun_eq_iff)

theorem timed_events_fire_once_witness:
  "distinct (map fst (te_calls demo_te)) \<and> \<not> te_retired demo_te (TimedEventTracker 1)"
  using timed_events_fire_once [OF demo_te_reach] demo_te_events(1,2) by simp

text \<open>
  With no removal in progress, retiring an event by \<^verbatim>\<open>timeout\<close> or \<^verbatim>\<open>cancel\<close> succeeds
  exactly when it is pending, whichever processor asks: it calls the closure meant for that
  outcome and nothing else, marks the event, and a second attempt is refused without any effect.
\<close>

theorem te_retire_correct:
  assumes "te_step\<^sup>*\<^sup>* (te_start, []) (s, [])" "te_events s i = Some e" "target \<noteq> Pending"
    "te_retire (\<lambda>_ s. s) target me (TimedEventTracker i) s = (r, s')"
  shows "(ev_status e = Pending \<longrightarrow> r = Ok () \<and> te_calls s' = te_calls s @ [(i, chosen target (the (ev_handler e)))] \<and>
       ev_status (te_deref s' (TimedEventTracker i)) = target \<and> \<not> registered s' (ev_cpu_id e) i \<and>
       te_retire (\<lambda>_ s. s) target' me' (TimedEventTracker i) s' = (Fail InvalidTimedEventStatus, s')) \<and>
     (ev_status e \<noteq> Pending \<longrightarrow> r = Fail InvalidTimedEventStatus \<and> s' = s)"
proof -
  have ok: "te_ok (s, [])" using te_steps_ok [OF assms(1) te_start_ok] .
  have eo: "event_ok s {} i e" using te_ok_event [OF ok assms(2)] by simp
  show ?thesis
  proof (cases "ev_status e = Pending")
    case True
    then obtain h where h: "ev_handler e = Some h" and reg: "registered s (ev_cpu_id e) i" using eo by (auto simp: event_ok_def)
    have r: "r = Ok ()" and ok': "te_ok (s', [])"
      using te_retire_steps [OF ok assms(2,3) reg assms(4)] te_steps_ok ok by auto
    let ?e' = "e\<lparr>ev_handler := None, ev_status := target\<rparr>"
    have s': "te_events s' = (te_events s)(i \<mapsto> ?e')" "te_calls s' = te_calls s @ [(i, chosen target h)]"
      using assms(2,3,4) h reg te_remove_spec [OF ok assms(2), of me]
      by (auto simp: te_retire_def te_timeout_def te_cancel_def te_invoke_spec chosen_def split: if_splits)
        (cases target; simp add: te_invoke_spec chosen_def)+
    have e': "te_events s' i = Some ?e'" by (simp add: s')
    then have unreg: "\<not> registered s' (ev_cpu_id ?e') i" using te_ok_event [OF ok' e'] assms(3) by (simp add: event_ok_def)
    have "te_retire (\<lambda>_ s. s) target' me' (TimedEventTracker i) s' = (Fail InvalidTimedEventStatus, s')"
      using te_remove_spec [OF ok' e', of me'] unreg by (simp add: te_retire_def te_timeout_def te_cancel_def)
    then show ?thesis using True r s' h unreg by (simp add: te_deref_def)
  next
    case False
    then have "\<not> registered s (ev_cpu_id e) i" using eo by (simp add: event_ok_def)
    then show ?thesis using False assms(4) te_remove_spec [OF ok assms(2), of me]
      by (auto simp: te_retire_def te_timeout_def te_cancel_def split: if_splits)
  qed
qed

theorem te_retire_correct_witness:
  "te_calls (snd (te_retire (\<lambda>_ s. s) Cancelled 0 (TimedEventTracker 1) demo_te)) = [(1, 2)]"
  using te_retire_correct [OF demo_te_reach, of 1 _ Cancelled 0 "fst (te_retire (\<lambda>_ s. s) Cancelled 0 (TimedEventTracker 1) demo_te)"
      "snd (te_retire (\<lambda>_ s. s) Cancelled 0 (TimedEventTracker 1) demo_te)"]
  by (simp add: demo_te_events chosen_def)

text \<open>
  C14. As long as a processor's events are created and retired by that processor itself, its
  timer stays programmed for its earliest pending event, or for the end of time when it has
  none.
\<close>

theorem timer_follows_earliest:
  assumes "te_step\<^sup>*\<^sup>* (te_start, []) (s, [])" "timer_ok s c"
    and "s' = snd (te_create me time h s) \<or>
         te_events s i = Some e \<and> ev_cpu_id e = me \<and> s' = snd (te_retire (\<lambda>_ s. s) target me (TimedEventTracker i) s)"
  shows "timer_ok s' c"
  using assms(3)
proof (elim disjE conjE)
  assume s': "s' = snd (te_create me time h s)"
  show ?thesis
  proof (cases "serial_new (te_serial s)")
    case (Inr i)
    then show ?thesis using assms(2) unfolding s'
      by (simp add: te_create_def timer_ok_def teq_add_def Let_def update_timer_timer)
  qed (use assms(2) s' in \<open>simp add: te_create_def\<close>)
next
  assume e: "te_events s i = Some e" "ev_cpu_id e = me" and s': "s' = snd (te_retire (\<lambda>_ s. s) target me (TimedEventTracker i) s)"
  have ok: "te_ok (s, [])" using te_steps_ok [OF assms(1) te_start_ok] .
  have eo: "event_ok s {} i e" using te_ok_event [OF ok e(1)] by simp
  show ?thesis
  proof (cases "registered s me i")
    case True
    then obtain h where "ev_handler e = Some h" using eo e(2) by (auto simp: event_ok_def)
    then show ?thesis using True e assms(2) te_remove_spec [OF ok e(1), of me] unfolding s' te_retire_def
      by (simp add: te_timeout_def te_cancel_def te_invoke_spec timer_ok_def update_timer_timer)
  next
    case False
    then show ?thesis using e assms(2) te_remove_spec [OF ok e(1), of me] unfolding s' te_retire_def
      by (simp add: te_timeout_def te_cancel_def)
  qed
qed

theorem timer_follows_earliest_witness:
  "timer_ok (snd (te_create 0 50 \<lparr>h_timeout = 5, h_cancel = 6\<rparr> demo_te)) 0"
  by (rule timer_follows_earliest [OF demo_te_reach _ disjI1 [OF refl]]) (simp add: timer_ok_def demo_te_events)

text \<open>
  When another processor cancels an event, it programs its own timer from the queue it
  removed the event from: here processor 1 cancels the event of processor 0 and is left
  with no deadline although its own event is pending, while the timer of processor 0 stays
  programmed for the event that is gone.
\<close>

theorem remote_cancel_drops_deadline:
  "case te_cancel (\<lambda>_ s. s) 1 (TimedEventTracker 1) demo_te of (r, s') \<Rightarrow>
     r = Ok () \<and> timer_ok demo_te 1 \<and> \<not> timer_ok s' 1 \<and> te_timer s' 1 = Duration_MAX \<and> te_timer s' 0 = 100 \<and>
     \<not> te_retired s' (TimedEventTracker 2)"
  by (simp add: te_cancel_def demo_te_def te_eval timer_ok_def te_retired_def Duration_MAX_def)

end
