(* ===== verification/Sched_Table.thy ===== *)
theory Sched_Table
  imports Timed_Event
begin

text \<open>
  The time-triggered schedule of a runtime, \<^verbatim>\<open>RuntimeSchedTable\<close> of
  \<^verbatim>\<open>kern/modules/multitask/src/runtime.rs\<close>: the admission test, the start, the choice of the
  next entry with the timed events that bound its window, and the cancellation of those
  events when the table is dropped. Durations are nanoseconds; their addition and
  subtraction panic outside the range of \<^verbatim>\<open>Duration\<close>. The two unstable sorts of the
  standard library are a parameter: where keys are equal, their order is not specified.
\<close>

section \<open>The code\<close>

definition dur_add :: "nat \<Rightarrow> nat \<Rightarrow> nat res" where
  "dur_add a b = (if a + b \<le> Duration_MAX then Ok (a + b) else Panicked)"

definition dur_sub :: "nat \<Rightarrow> nat \<Rightarrow> nat res" where
  "dur_sub a b = (if b \<le> a then Ok (a - b) else Panicked)"

record RuntimeSchedTableEntry =
  en_inspector_id :: u64
  en_offset :: nat
  en_period :: nat
  en_duration :: nat

record RuntimeSchedTable =
  st_frame_size :: nat
  st_table :: "RuntimeSchedTableEntry list"
  st_next :: nat
  st_datum :: nat
  st_events :: "TimedEventTracker list"

text \<open>\<^verbatim>\<open>sort_unstable_by_key\<close> by offset, and by inspector and offset.\<close>

record sorter =
  by_offset :: "RuntimeSchedTableEntry list \<Rightarrow> RuntimeSchedTableEntry list"
  by_inspector :: "RuntimeSchedTableEntry list \<Rightarrow> RuntimeSchedTableEntry list"

text \<open>The first loop of \<^verbatim>\<open>valid\<close>.\<close>

fun valid_windows :: "nat \<Rightarrow> RuntimeSchedTableEntry list \<Rightarrow> bool res" where
  "valid_windows frame_size [] = Ok True"
| "valid_windows frame_size [entry] = Ok (en_offset entry < frame_size)"
| "valid_windows frame_size (entry # next_entry # rest) =
     (if frame_size \<le> en_offset entry then Ok False
      else bind_res (dur_add (en_offset entry) (en_duration entry)) (\<lambda>x.
             if en_offset next_entry < x then Ok False
             else valid_windows frame_size (next_entry # rest)))"

text \<open>\<^verbatim>\<open>slice::group_by\<close>: maximal runs of adjacent related elements.\<close>

fun group_by :: "('a \<Rightarrow> 'a \<Rightarrow> bool) \<Rightarrow> 'a list \<Rightarrow> 'a list list" where
  "group_by r [] = []"
| "group_by r [x] = [[x]]"
| "group_by r (x # y # ys) =
     (case group_by r (y # ys) of
        [] \<Rightarrow> [[x]]
      | g # gs \<Rightarrow> if r x y then (x # g) # gs else [x] # g # gs)"

definition same_inspector :: "RuntimeSchedTableEntry \<Rightarrow> RuntimeSchedTableEntry \<Rightarrow> bool" where
  "same_inspector e1 e2 \<longleftrightarrow> en_inspector_id e1 = en_inspector_id e2"

definition valid_uniform :: "RuntimeSchedTableEntry list \<Rightarrow> bool" where
  "valid_uniform entries =
     (case entries of
        [] \<Rightarrow> False
      | head # tail \<Rightarrow> list_all (\<lambda>e. en_period e = en_period head \<and> en_duration e = en_duration head) tail)"

definition actual_period :: "nat \<Rightarrow> RuntimeSchedTableEntry \<Rightarrow> RuntimeSchedTableEntry \<Rightarrow> nat res" where
  "actual_period frame_size e1 e2 =
     (if en_offset e2 \<le> en_offset e1
      then bind_res (dur_add (en_offset e2) frame_size) (\<lambda>x. dur_sub x (en_offset e1))
      else dur_sub (en_offset e2) (en_offset e1))"

text \<open>The windows of two over the entries of one inspector, closed to a cycle.\<close>

fun windows2 :: "'a list \<Rightarrow> ('a \<times> 'a) list" where
  "windows2 (x # y # ys) = (x, y) # windows2 (y # ys)"
| "windows2 xs = []"

fun all_res :: "('a \<Rightarrow> bool res) \<Rightarrow> 'a list \<Rightarrow> bool res" where
  "all_res f [] = Ok True"
| "all_res f (x # xs) = bind_res (f x) (\<lambda>b. if b then all_res f xs else Ok False)"

definition valid_periods :: "nat \<Rightarrow> RuntimeSchedTableEntry list \<Rightarrow> bool res" where
  "valid_periods frame_size entries =
     all_res (\<lambda>(e1, e2). bind_res (actual_period frame_size e1 e2) (\<lambda>p. Ok (p = en_period e1)))
       (windows2 (entries @ take 1 entries))"

definition st_valid :: "sorter \<Rightarrow> RuntimeSchedTable \<Rightarrow> bool res" where
  "st_valid srt st =
     bind_res (valid_windows (st_frame_size st) (st_table st)) (\<lambda>ok.
       if \<not> ok then Ok False
       else let groups = group_by same_inspector (by_inspector srt (st_table st))
            in if \<not> list_all valid_uniform groups then Ok False
               else all_res (valid_periods (st_frame_size st)) groups)"

definition st_new :: "sorter \<Rightarrow> nat \<Rightarrow> RuntimeSchedTableEntry list \<Rightarrow> RuntimeSchedTable res" where
  "st_new srt frame_size table =
     (let st = \<lparr>st_frame_size = frame_size, st_table = by_offset srt table, st_next = 0, st_datum = 0, st_events = []\<rparr>
      in bind_res (st_valid srt st) (\<lambda>ok. if ok then Ok st else Fail InvalidRuntimeSchedTable))"

definition st_start :: "nat \<Rightarrow> RuntimeSchedTable \<Rightarrow> RuntimeSchedTable" where
  "st_start now st = st\<lparr>st_datum := now\<rparr>"

text \<open>The closures of the timed events a schedule creates: nothing, or marking the inspector
  as pending and switching back to the runtime.\<close>

datatype sched_closure = Nop | MarkPendingAndYield

type_synonym sched_te = "sched_closure te_state"

definition push_event :: "usize \<Rightarrow> nat res \<Rightarrow> sched_closure \<Rightarrow> RuntimeSchedTable \<times> sched_te \<Rightarrow> unit res \<times> RuntimeSchedTable \<times> sched_te" where
  "push_event me time closure s =
     (case time of
        Inl e \<Rightarrow> (Inl e, s)
      | Ok t \<Rightarrow>
          (case te_create me t \<lparr>h_timeout = closure, h_cancel = Nop\<rparr> (snd s) of
             (Inl e, te) \<Rightarrow> (Inl e, fst s, te)
           | (Ok tracker, te) \<Rightarrow> (Ok (), (fst s)\<lparr>st_events := st_events (fst s) @ [tracker]\<rparr>, te)))"

text \<open>\<^verbatim>\<open>sched_next\<close>, at a clock reading \<^verbatim>\<open>now\<close>. Waiting for an interrupt changes no state of the
  model.\<close>

definition sched_next :: "usize \<Rightarrow> nat \<Rightarrow> RuntimeSchedTable \<times> sched_te \<Rightarrow> RuntimeSchedTableEntry res \<times> RuntimeSchedTable \<times> sched_te" where
  "sched_next me now s =
     (let st0 = (fst s)\<lparr>st_events := filter (\<lambda>t. \<not> te_retired (snd s) t) (st_events (fst s)), st_next := st_next (fst s) + 1\<rparr>
      in if length (st_table st0) \<le> st_next (fst s) then (Panicked, st0, snd s)
         else let entry = st_table st0 ! st_next (fst s);
                  begin = dur_add (st_datum st0) (en_offset entry)
              in case begin of
                   Inl e \<Rightarrow> (Inl e, st0, snd s)
                 | Ok b \<Rightarrow>
                     (case (if now < b then push_event me begin Nop (st0, snd s) else (Ok (), st0, snd s)) of
                        (Inl e, s1) \<Rightarrow> (Inl e, s1)
                      | (Ok _, s1) \<Rightarrow>
                          (case push_event me (dur_add b (en_duration entry)) MarkPendingAndYield s1 of
                             (Inl e, s2) \<Rightarrow> (Inl e, s2)
                           | (Ok _, st2, te2) \<Rightarrow>
                               if length (st_table st2) \<le> st_next st2
                               then case dur_add (st_datum st2) (st_frame_size st2) of
                                      Inl e \<Rightarrow> (Inl e, st2\<lparr>st_next := 0\<rparr>, te2)
                                    | Ok d \<Rightarrow> (Ok entry, st2\<lparr>st_next := 0, st_datum := d\<rparr>, te2)
                               else (Ok entry, st2, te2))))"

text \<open>\<^verbatim>\<open>Drop\<close>: every remaining event is cancelled; failures are only logged.\<close>

definition st_drop :: "usize \<Rightarrow> RuntimeSchedTable \<Rightarrow> sched_te \<Rightarrow> sched_te" where
  "st_drop me st te = fold (\<lambda>t te. snd (te_cancel (\<lambda>_ te. te) me t te)) (st_events st) te"

section \<open>What the admission test establishes\<close>

definition sorter_ok :: "sorter \<Rightarrow> bool" where
  "sorter_ok srt \<longleftrightarrow>
     (\<forall>xs. mset (by_offset srt xs) = mset xs \<and> sorted (map en_offset (by_offset srt xs)) \<and>
           mset (by_inspector srt xs) = mset xs \<and>
           sorted (map (\<lambda>e. (en_inspector_id e, en_offset e)) (by_inspector srt xs)))"

lemma bind_res_True: "bind_res r f = Ok x \<longleftrightarrow> (\<exists>y. r = Ok y \<and> f y = Ok x)"
  by (cases r) (auto simp: bind_res_def)

lemma all_res_True: "all_res f xs = Ok True \<longleftrightarrow> (\<forall>x\<in>set xs. f x = Ok True)"
  by (induction xs) (auto simp: bind_res_True)

lemma valid_windows_True:
  "valid_windows frame_size xs = Ok True \<Longrightarrow>
   (\<forall>e\<in>set xs. en_offset e < frame_size) \<and> sorted_wrt (\<lambda>a b. en_offset a + en_duration a \<le> en_offset b) xs"
proof (induction frame_size xs rule: valid_windows.induct)
  case (3 frame_size entry next_entry rest)
  then have "en_offset entry < frame_size" and w: "en_offset entry + en_duration entry \<le> en_offset next_entry"
    and v: "valid_windows frame_size (next_entry # rest) = Ok True"
    by (auto simp: bind_res_True dur_add_def split: if_splits)
  then show ?case using "3.IH" [OF _ _ v] by (fastforce simp: dur_add_def 3)
qed auto

lemma windows2_nth: "Suc i < length xs \<Longrightarrow> (xs ! i, xs ! Suc i) \<in> set (windows2 xs)"
proof (induction xs arbitrary: i rule: windows2.induct)
  case (1 x y ys)
  then show ?case by (cases i) auto
qed auto

lemma group_by_head: "\<exists>g gs. group_by r (x # xs) = (x # g) # gs"
  by (cases xs) (auto split: list.split)

text \<open>On entries sorted by inspector a group holds all entries of its inspector.\<close>

lemma group_by_inspector:
  "sorted (map en_inspector_id xs) \<Longrightarrow>
   (\<forall>g\<in>set (group_by same_inspector xs). g \<noteq> [] \<and> g = filter (\<lambda>e. en_inspector_id e = en_inspector_id (hd g)) xs) \<and>
   sorted_wrt (<) (map (\<lambda>g. en_inspector_id (hd g)) (group_by same_inspector xs)) \<and>
   concat (group_by same_inspector xs) = xs"
proof (induction xs rule: induct_list012)
  case (3 x y ys)
  obtain g gs where G: "group_by same_inspector (y # ys) = (y # g) # gs" using group_by_head [of same_inspector y ys] by blast
  have srt: "sorted (map en_inspector_id (y # ys))" "en_inspector_id x \<le> en_inspector_id y" using "3.prems" by auto
  note IH = "3.IH"(2) [OF srt(1), unfolded G]
  have gs: "en_inspector_id y < en_inspector_id (hd h)" "h \<noteq> []" "h = filter (\<lambda>e. en_inspector_id e = en_inspector_id (hd h)) (y # ys)"
    if "h \<in> set gs" for h
    using IH that by auto
  have ge: "en_inspector_id y \<le> en_inspector_id e" if "e \<in> set ys" for e using srt(1) that by auto
  have yg: "y # g = filter (\<lambda>e. en_inspector_id e = en_inspector_id y) (y # ys)" using IH by simp
  have so: "sorted_wrt (<) (map (\<lambda>g. en_inspector_id (hd g)) gs)" and con: "y # g @ concat gs = y # ys" using IH by auto
  have sm: "same_inspector x y \<longleftrightarrow> en_inspector_id x = en_inspector_id y" by (simp add: same_inspector_def)
  have other: "h \<noteq> [] \<and> h = filter (\<lambda>e. en_inspector_id e = en_inspector_id (hd h)) (x # y # ys)" if "h \<in> set gs" for h
  proof -
    have "en_inspector_id x \<noteq> en_inspector_id (hd h)" using gs(1) [OF that] srt(2) by auto
    then have "filter (\<lambda>e. en_inspector_id e = en_inspector_id (hd h)) (x # y # ys) =
      filter (\<lambda>e. en_inspector_id e = en_inspector_id (hd h)) (y # ys)" by (simp only: filter.simps(2) if_False)
    then show ?thesis using gs(2,3) [OF that] by simp
  qed
  show ?case
  proof (cases "en_inspector_id x = en_inspector_id y")
    case True
    then have "group_by same_inspector (x # y # ys) = (x # y # g) # gs" by (simp add: G sm)
    then show ?thesis using other gs(1) so con yg True by simp
  next
    case False
    then have lt: "en_inspector_id x < en_inspector_id y" using srt(2) by simp
    then have none: "filter (\<lambda>e. en_inspector_id e = en_inspector_id x) (y # ys) = []"
      using ge by (fastforce simp: filter_empty_conv)
    have "group_by same_inspector (x # y # ys) = [x] # (y # g) # gs" using False by (simp add: G sm)
    then show ?thesis using other gs(1) so con yg False lt none by (simp add: order.strict_trans [OF lt])
  qed
qed (auto simp: same_inspector_def)

text \<open>One inspector's entries, with strictly increasing offsets below the frame.\<close>

lemma periods_cyclic:
  assumes g: "g \<noteq> []" and per: "valid_periods frame_size g = Ok True" and uni: "\<forall>e\<in>set g. en_period e = p"
    and inc: "sorted_wrt (<) (map en_offset g)" and fr: "\<forall>e\<in>set g. en_offset e < frame_size"
  shows "i < length g \<Longrightarrow> en_offset (g ! i) = en_offset (g ! 0) + i * p" and "length g * p = frame_size"
proof -
  let ?h = "g @ take 1 g"
  have h1: "take 1 g = [g ! 0]" using g by (cases g) simp_all
  have pair: "actual_period frame_size (?h ! i) (?h ! Suc i) = Ok p" if "i < length g" for i
  proof -
    have "(?h ! i, ?h ! Suc i) \<in> set (windows2 ?h)" using that h1 by (intro windows2_nth) simp
    then have "bind_res (actual_period frame_size (?h ! i) (?h ! Suc i)) (\<lambda>p. Ok (p = en_period (?h ! i))) = Ok True"
      using per unfolding valid_periods_def all_res_True by fastforce
    moreover have "en_period (?h ! i) = p" using that uni by (simp add: nth_append)
    ultimately show ?thesis by (auto simp: bind_res_True)
  qed
  have step: "en_offset (g ! Suc i) = en_offset (g ! i) + p" if "Suc i < length g" for i
  proof -
    have "en_offset (g ! i) < en_offset (g ! Suc i)" using sorted_wrt_nth_less [OF inc, of i "Suc i"] that by simp
    then show ?thesis using pair [of i] that by (auto simp: nth_append actual_period_def dur_sub_def split: if_splits)
  qed
  show off: "en_offset (g ! i) = en_offset (g ! 0) + i * p" if "i < length g" for i
    using that by (induction i) (use step in \<open>auto simp: algebra_simps\<close>)
  let ?k = "length g - 1"
  have k: "?k < length g" "Suc ?k = length g" using g by simp_all
  have "actual_period frame_size (g ! ?k) (g ! 0) = Ok p" using pair [of ?k] k h1 by (simp add: nth_append)
  moreover have "en_offset (g ! 0) \<le> en_offset (g ! ?k)" using off [OF k(1)] by simp
  ultimately have "en_offset (g ! 0) + frame_size = en_offset (g ! ?k) + p"
    by (auto simp: actual_period_def bind_res_True dur_add_def dur_sub_def split: if_splits)
  then have "frame_size = ?k * p + p" using off [OF k(1)] by simp
  also have "\<dots> = Suc ?k * p" by simp
  finally show "length g * p = frame_size" unfolding k(2) by (rule sym)
qed

lemma st_new_Ok:
  assumes "sorter_ok srt" "st_new srt frame_size tbl = Ok st"
  shows "st = \<lparr>st_frame_size = frame_size, st_table = by_offset srt tbl, st_next = 0, st_datum = 0, st_events = []\<rparr>"
    and "mset (st_table st) = mset tbl" and "\<forall>e\<in>set tbl. en_offset e < frame_size"
    and "sorted_wrt (\<lambda>a b. en_offset a + en_duration a \<le> en_offset b) (st_table st)"
    and "\<forall>g\<in>set (group_by same_inspector (by_inspector srt (st_table st))). valid_uniform g \<and> valid_periods frame_size g = Ok True"
proof -
  show st: "st = \<lparr>st_frame_size = frame_size, st_table = by_offset srt tbl, st_next = 0, st_datum = 0, st_events = []\<rparr>"
    using assms(2) by (auto simp: st_new_def Let_def bind_res_True split: if_splits)
  show m: "mset (st_table st) = mset tbl" using assms(1) by (simp add: st sorter_ok_def)
  have v: "st_valid srt st = Ok True" using assms(2) by (auto simp: st_new_def st Let_def bind_res_True split: if_splits)
  then have "valid_windows frame_size (st_table st) = Ok True"
    by (auto simp: st_valid_def st bind_res_True split: if_splits)
  from valid_windows_True [OF this] mset_eq_setD [OF m] show
    "\<forall>e\<in>set tbl. en_offset e < frame_size" "sorted_wrt (\<lambda>a b. en_offset a + en_duration a \<le> en_offset b) (st_table st)" by auto
  show "\<forall>g\<in>set (group_by same_inspector (by_inspector srt (st_table st))). valid_uniform g \<and> valid_periods frame_size g = Ok True"
    using v by (auto simp: st_valid_def st bind_res_True all_res_True Let_def list_all_iff split: if_splits)
qed

text \<open>The entries of one inspector in order of their offsets.\<close>

lemma inspector_entries:
  assumes srt: "sorter_ok srt" and new: "st_new srt frame_size tbl = Ok st"
    and pos: "\<forall>e\<in>set tbl. 0 < en_duration e" and e: "e \<in> set tbl"
  obtains g where "mset g = mset (filter (same_inspector e) tbl)" "g \<noteq> []" "valid_periods frame_size g = Ok True"
    "\<forall>x\<in>set g. en_period x = en_period e \<and> en_duration x = en_duration e" "sorted_wrt (<) (map en_offset g)"
proof -
  note N = st_new_Ok [OF srt new]
  define xs where "xs = by_inspector srt (st_table st)"
  have mx: "mset xs = mset tbl" and sx: "sorted (map (\<lambda>e. (en_inspector_id e, en_offset e)) xs)"
    using srt N(2) by (simp_all add: xs_def sorter_ok_def)
  have sid: "sorted (map en_inspector_id xs)"
    using sx by (auto simp: sorted_wrt_map less_eq_prod_def elim: sorted_wrt_mono_rel [rotated])
  note G = group_by_inspector [OF sid]
  have "e \<in> set (concat (group_by same_inspector xs))" using G mset_eq_setD [OF mx] e by simp
  then obtain g where g: "g \<in> set (group_by same_inspector xs)" "e \<in> set g" by auto
  have gf: "g \<noteq> []" "g = filter (\<lambda>x. en_inspector_id x = en_inspector_id (hd g)) xs" using G g(1) by auto
  have hde: "en_inspector_id (hd g) = en_inspector_id e" using g(2) by (subst (asm) gf(2)) simp
  have "filter (\<lambda>x. en_inspector_id x = en_inspector_id (hd g)) xs = filter (same_inspector e) xs"
    unfolding hde by (rule filter_cong) (auto simp: same_inspector_def)
  then have gs: "g = filter (same_inspector e) xs" using gf(2) by (rule trans [rotated])
  have gv: "valid_uniform g" "valid_periods frame_size g = Ok True" using N(5) g(1) by (simp_all add: xs_def)
  then have "\<forall>x\<in>set g. en_period x = en_period (hd g) \<and> en_duration x = en_duration (hd g)"
    by (cases g) (auto simp: valid_uniform_def list_all_iff)
  then have uni: "\<forall>x\<in>set g. en_period x = en_period e \<and> en_duration x = en_duration e" using g(2) by metis
  have "sorted_wrt (<) (map en_offset (st_table st))"
  proof -
    have "\<forall>x\<in>set (st_table st). 0 < en_duration x" using pos mset_eq_setD [OF N(2)] by simp
    then show ?thesis unfolding sorted_wrt_map
      by (intro sorted_wrt_mono_rel [OF _ N(4)]) (metis add.commute less_add_same_cancel2 order_less_le_trans)
  qed
  then have "distinct (map en_offset (st_table st))" by (simp add: strict_sorted_iff)
  moreover have "mset (map en_offset xs) = mset (map en_offset (st_table st))" using mx N(2) by simp
  ultimately have "distinct (map en_offset xs)" by (metis mset_eq_imp_distinct_iff)
  then have d: "distinct (map en_offset g)" unfolding gs by (simp add: distinct_map_filter)
  have "sorted_wrt (\<lambda>a b. (en_inspector_id a, en_offset a) \<le> (en_inspector_id b, en_offset b)) g"
    unfolding gs using sx by (simp add: sorted_wrt_map sorted_wrt_filter)
  then have "sorted (map en_offset g)" unfolding sorted_wrt_map
    by (rule sorted_wrt_mono_rel [rotated]) (auto simp: gs same_inspector_def)
  then have "sorted_wrt (<) (map en_offset g)" using d by (simp add: strict_sorted_iff)
  moreover have "mset g = mset (filter (same_inspector e) tbl)" unfolding gs by (simp add: mx)
  ultimately show thesis using that gf(1) gv(2) uni by blast
qed

section \<open>Properties\<close>

text \<open>
  C17. An accepted schedule with non-empty windows holds the given entries in order of their
  offsets, all below the frame size and with windows that do not overlap within a frame. For
  each inspector the period divides the frame evenly among its entries, and each of its
  windows is followed, one period later and across the end of the frame, by another of its
  windows of the same length: repeating the frame runs the inspector exactly once a period.
\<close>

theorem sched_table_periodic:
  assumes srt: "sorter_ok srt" and new: "st_new srt frame_size tbl = Ok st"
    and pos: "\<forall>e\<in>set tbl. 0 < en_duration e" and e: "e \<in> set tbl"
  shows "mset (st_table st) = mset tbl \<and> en_offset e < frame_size \<and>
    sorted_wrt (\<lambda>a b. en_offset a + en_duration a \<le> en_offset b) (st_table st) \<and>
    length (filter (same_inspector e) tbl) * en_period e = frame_size \<and>
    (\<exists>e'\<in>set tbl. same_inspector e e' \<and> en_offset e' = (en_offset e + en_period e) mod frame_size \<and>
       en_period e' = en_period e \<and> en_duration e' = en_duration e)"
proof -
  note N = st_new_Ok [OF srt new]
  obtain g where g: "mset g = mset (filter (same_inspector e) tbl)" "g \<noteq> []" "valid_periods frame_size g = Ok True"
    "\<forall>x\<in>set g. en_period x = en_period e \<and> en_duration x = en_duration e" "sorted_wrt (<) (map en_offset g)"
    by (rule inspector_entries [OF assms])
  have sg: "set g = {x \<in> set tbl. same_inspector e x}" using mset_eq_setD [OF g(1)] by auto
  then have fr: "\<forall>x\<in>set g. en_offset x < frame_size" using N(3) by simp
  have uni: "\<forall>x\<in>set g. en_period x = en_period e" using g(4) by simp
  note C = periods_cyclic [OF g(2,3) uni g(5) fr]
  have "length g = length (filter (same_inspector e) tbl)" using g(1) by (metis size_mset)
  then have len: "length (filter (same_inspector e) tbl) * en_period e = frame_size" using C(2) by simp
  have "e \<in> set g" using sg e by (simp add: same_inspector_def)
  then obtain i where i: "i < length g" "g ! i = e" by (meson in_set_conv_nth)
  have "\<exists>j<length g. en_offset (g ! j) = (en_offset e + en_period e) mod frame_size"
  proof (cases "Suc i < length g")
    case True
    have "en_offset (g ! Suc i) = en_offset e + en_period e" using C(1) [OF True] C(1) [OF i(1)] i(2) by simp
    moreover have "en_offset (g ! Suc i) < frame_size" using fr True by simp
    ultimately show ?thesis using True by (intro exI [of _ "Suc i"]) simp
  next
    case False
    then have "length g = Suc i" using i(1) by simp
    then have "en_offset e + en_period e = en_offset (g ! 0) + frame_size"
      using C(1) [OF i(1)] C(2) i(2) by simp
    moreover have "en_offset (g ! 0) < frame_size" using fr g(2) by simp
    ultimately show ?thesis using g(2) by (intro exI [of _ 0]) simp
  qed
  then obtain j where j: "j < length g" "en_offset (g ! j) = (en_offset e + en_period e) mod frame_size" by blast
  have "g ! j \<in> set g" using j(1) by simp
  then show ?thesis using N(2,4) N(3) e len j(2) sg g(4) by blast
qed

text \<open>Stable sorting is one of the admissible orders.\<close>

definition key_sorter :: sorter where
  "key_sorter = \<lparr>by_offset = sort_key en_offset, by_inspector = sort_key (\<lambda>e. (en_inspector_id e, en_offset e))\<rparr>"

lemma key_sorter_ok: "sorter_ok key_sorter"
  by (simp add: sorter_ok_def key_sorter_def)

definition demo_table :: "RuntimeSchedTableEntry list" where
  "demo_table =
     [\<lparr>en_inspector_id = 2, en_offset = 50, en_period = 50, en_duration = 20\<rparr>,
      \<lparr>en_inspector_id = 3, en_offset = 20, en_period = 100, en_duration = 30\<rparr>,
      \<lparr>en_inspector_id = 2, en_offset = 0, en_period = 50, en_duration = 20\<rparr>]"

lemmas st_eval = st_new_def st_valid_def key_sorter_def same_inspector_def valid_uniform_def valid_periods_def
  actual_period_def dur_add_def dur_sub_def bind_res_def Duration_MAX_def Let_def

theorem sched_table_periodic_witness:
  "\<exists>st. st_new key_sorter 100 demo_table = Ok st \<and>
     length (filter (same_inspector (hd demo_table)) demo_table) * en_period (hd demo_table) = 100"
proof -
  have "is_ok (st_new key_sorter 100 demo_table)" by (simp add: st_eval demo_table_def less_eq_prod_def)
  then obtain st where st: "st_new key_sorter 100 demo_table = Ok st" by (cases "st_new key_sorter 100 demo_table") auto
  have "\<forall>e\<in>set demo_table. 0 < en_duration e" "hd demo_table \<in> set demo_table" by (simp_all add: demo_table_def)
  from sched_table_periodic [OF key_sorter_ok st this] st show ?thesis by blast
qed

subsection \<open>Stepping through the schedule\<close>

fun sched_seq :: "usize \<Rightarrow> nat list \<Rightarrow> RuntimeSchedTable \<times> sched_te \<Rightarrow> RuntimeSchedTableEntry list res \<times> RuntimeSchedTable \<times> sched_te" where
  "sched_seq me [] s = (Ok [], s)"
| "sched_seq me (now # nows) s =
     (case sched_next me now s of
        (Inl e, s') \<Rightarrow> (Inl e, s')
      | (Ok entry, s') \<Rightarrow>
          (case sched_seq me nows s' of
             (Inl e, s'') \<Rightarrow> (Inl e, s'')
           | (Ok entries, s'') \<Rightarrow> (Ok (entry # entries), s'')))"

text \<open>The latest event created: it ends a window at \<^verbatim>\<open>t\<close>.\<close>

definition window_end :: "usize \<Rightarrow> nat \<Rightarrow> RuntimeSchedTable \<times> sched_te \<Rightarrow> bool" where
  "window_end me t s \<longleftrightarrow>
     (let i = te_serial (snd s)
      in st_events (fst s) \<noteq> [] \<and> last (st_events (fst s)) = TimedEventTracker i \<and> registered (snd s) me i \<and>
         te_events (snd s) i = Some \<lparr>ev_id = i, ev_cpu_id = me, ev_time = t, ev_status = Pending,
           ev_handler = Some \<lparr>h_timeout = MarkPendingAndYield, h_cancel = Nop\<rparr>\<rparr>)"

lemma te_create_succeeds:
  assumes "unat (te_serial te) + 1 < 2 ^ 64"
  obtains te' where "te_create me t h te = (Ok (TimedEventTracker (te_serial te')), te')" "unat (te_serial te') = unat (te_serial te) + 1"
    "te_events te' (te_serial te') = Some \<lparr>ev_id = te_serial te', ev_cpu_id = me, ev_time = t, ev_status = Pending, ev_handler = Some h\<rparr>"
    "registered te' me (te_serial te')"
proof -
  have n: "te_serial te \<noteq> - 1"
  proof
    assume "te_serial te = - 1"
    then have "unat (te_serial te) = 2 ^ 64 - 1" by (simp add: unsigned_minus_1_eq_mask mask_eq_exp_minus_1)
    then show False using assms by simp
  qed
  have u: "unat (te_serial te + 1) = unat (te_serial te) + 1" using assms by (subst unat_add_usize) simp_all
  show thesis
    by (rule that [of "snd (te_create me t h te)"])
      (use n u in \<open>simp_all add: te_create_def serial_new_def teq_add_def te_deref_def registered_def Let_def\<close>)
qed

lemma sched_next_step:
  assumes nx: "st_next st < length (st_table st)" and ser: "unat (te_serial te) + 2 < 2 ^ 64"
    and fit: "st_datum st + en_offset (st_table st ! st_next st) + en_duration (st_table st ! st_next st) \<le> Duration_MAX"
      "st_datum st + st_frame_size st \<le> Duration_MAX"
  obtains st' te' where "sched_next me now (st, te) = (Ok (st_table st ! st_next st), st', te')"
    "st_table st' = st_table st" "st_frame_size st' = st_frame_size st"
    "st_next st' = (if Suc (st_next st) = length (st_table st) then 0 else Suc (st_next st))"
    "st_datum st' = st_datum st + (if Suc (st_next st) = length (st_table st) then st_frame_size st else 0)"
    "unat (te_serial te') \<le> unat (te_serial te) + 2"
    "window_end me (st_datum st + en_offset (st_table st ! st_next st) + en_duration (st_table st ! st_next st)) (st', te')"
proof -
  let ?e = "st_table st ! st_next st"
  define st0 where "st0 = st\<lparr>st_events := filter (\<lambda>t. \<not> te_retired te t) (st_events st), st_next := st_next st + 1\<rparr>"
  let ?b = "st_datum st + en_offset ?e"
  have adds: "dur_add (st_datum st) (en_offset ?e) = Ok ?b" "dur_add ?b (en_duration ?e) = Ok (?b + en_duration ?e)"
    "dur_add (st_datum st) (st_frame_size st) = Ok (st_datum st + st_frame_size st)"
    using fit by (simp_all add: dur_add_def)
  have "\<exists>evs te1. (if now < ?b then push_event me (Ok ?b) Nop (st0, te) else (Ok (), st0, te)) = (Ok (), st0\<lparr>st_events := evs\<rparr>, te1) \<and>
      unat (te_serial te1) \<le> unat (te_serial te) + 1"
  proof (cases "now < ?b")
    case True
    obtain te1 where "te_create me ?b \<lparr>h_timeout = Nop, h_cancel = Nop\<rparr> te = (Ok (TimedEventTracker (te_serial te1)), te1)"
      "unat (te_serial te1) = unat (te_serial te) + 1" by (rule te_create_succeeds [of te me ?b]) (use ser in auto)
    then show ?thesis using True by (auto simp: push_event_def)
  next
    case False
    then show ?thesis by (intro exI [of _ "st_events st0"]) auto
  qed
  then obtain evs te1 where e1: "(if now < ?b then push_event me (Ok ?b) Nop (st0, te) else (Ok (), st0, te)) = (Ok (), st0\<lparr>st_events := evs\<rparr>, te1)"
    and s1: "unat (te_serial te1) \<le> unat (te_serial te) + 1" by blast
  obtain te2 where c2: "te_create me (?b + en_duration ?e) \<lparr>h_timeout = MarkPendingAndYield, h_cancel = Nop\<rparr> te1 =
      (Ok (TimedEventTracker (te_serial te2)), te2)" "unat (te_serial te2) = unat (te_serial te1) + 1"
    "te_events te2 (te_serial te2) = Some \<lparr>ev_id = te_serial te2, ev_cpu_id = me, ev_time = ?b + en_duration ?e,
      ev_status = Pending, ev_handler = Some \<lparr>h_timeout = MarkPendingAndYield, h_cancel = Nop\<rparr>\<rparr>"
    "registered te2 me (te_serial te2)"
    by (rule te_create_succeeds [of te1 me "?b + en_duration ?e"]) (use ser s1 in auto)
  let ?last = "Suc (st_next st) = length (st_table st)"
  define st2 where "st2 = st0\<lparr>st_events := evs @ [TimedEventTracker (te_serial te2)],
    st_next := (if ?last then 0 else Suc (st_next st)), st_datum := st_datum st + (if ?last then st_frame_size st else 0)\<rparr>"
  have f0: "st_table st0 = st_table st" "st_datum st0 = st_datum st" "st_frame_size st0 = st_frame_size st" "st_next st0 = Suc (st_next st)"
    by (simp_all add: st0_def)
  have p2: "push_event me (Ok (?b + en_duration ?e)) MarkPendingAndYield (st0\<lparr>st_events := evs\<rparr>, te1) =
      (Ok (), st0\<lparr>st_events := evs @ [TimedEventTracker (te_serial te2)]\<rparr>, te2)"
    by (simp add: push_event_def c2(1))
  have "sched_next me now (st, te) = (Ok ?e, st2, te2)"
  proof (cases "now < ?b")
    case True
    then have "push_event me (Ok ?b) Nop (st0, te) = (Ok (), st0\<lparr>st_events := evs\<rparr>, te1)" using e1 by simp
    then show ?thesis using nx True unfolding sched_next_def Let_def fst_conv snd_conv st0_def [symmetric]
      by (simp add: f0 adds p2 st2_def)
  next
    case False
    then have "push_event me (Ok (?b + en_duration ?e)) MarkPendingAndYield (st0, te) =
      (Ok (), st0\<lparr>st_events := evs @ [TimedEventTracker (te_serial te2)]\<rparr>, te2)" using e1 p2 by (metis Pair_inject)
    then show ?thesis using nx False unfolding sched_next_def Let_def fst_conv snd_conv st0_def [symmetric]
      by (simp add: f0 adds st2_def)
  qed
  then show thesis using that [of st2 te2] s1 c2(2-4)
    by (simp add: st2_def window_end_def Let_def) (simp add: st0_def)
qed

text \<open>
  From the start of an accepted schedule the successive calls of \<^verbatim>\<open>sched_next\<close> return its
  entries in order, over and over: after \<^verbatim>\<open>k\<close> calls the position is \<^verbatim>\<open>k\<close> modulo the length and
  the frame base has advanced by one frame size per complete round. Each call leaves a
  pending timed event of this processor at the end of the window of the entry it returns,
  whose handler marks the inspector pending and switches it out.
\<close>

theorem sched_next_cycles:
  assumes ne: "st_table st \<noteq> []" and pos: "st_next st = 0" and k: "nows \<noteq> []"
    and fit: "\<forall>e\<in>set (st_table st). st_datum st + Suc (length nows) * st_frame_size st + en_offset e + en_duration e \<le> Duration_MAX"
    and ser: "unat (te_serial te) + 2 * length nows < 2 ^ 64"
  shows "\<exists>st' te'. let L = length (st_table st); e = st_table st ! ((length nows - 1) mod L)
    in sched_seq me nows (st, te) = (Ok (map (\<lambda>i. st_table st ! (i mod L)) [0..<length nows]), st', te') \<and>
       st_next st' = length nows mod L \<and> st_datum st' = st_datum st + length nows div L * st_frame_size st \<and>
       window_end me (st_datum st + (length nows - 1) div L * st_frame_size st + en_offset e + en_duration e) (st', te')"
proof -
  let ?T = "st_table st" and ?L = "length (st_table st)" and ?F = "st_frame_size st" and ?d = "st_datum st"
  have L: "0 < ?L" using ne by simp
  have gen: "\<exists>st' te'. sched_seq me ns (s, t) = (Ok (map (\<lambda>i. ?T ! ((j + i) mod ?L)) [0..<length ns]), st', te') \<and>
      st_next st' = (j + length ns) mod ?L \<and> st_datum st' = ?d + (j + length ns) div ?L * ?F \<and>
      (ns \<noteq> [] \<longrightarrow> window_end me (?d + (j + length ns - 1) div ?L * ?F + en_offset (?T ! ((j + length ns - 1) mod ?L)) +
         en_duration (?T ! ((j + length ns - 1) mod ?L))) (st', te'))"
    if "st_table s = ?T" "st_frame_size s = ?F" "st_next s = j mod ?L" "st_datum s = ?d + j div ?L * ?F"
      "unat (te_serial t) + 2 * length ns < 2 ^ 64" "j + length ns \<le> length nows" for ns s t j
    using that
  proof (induction ns arbitrary: s t j)
    case Nil
    then show ?case by simp
  next
    case (Cons now ns)
    let ?e = "?T ! (j mod ?L)"
    have jn: "j div ?L \<le> length nows" using Cons.prems(6) div_le_dividend [of j ?L] by linarith
    have mem: "?e \<in> set ?T" using L by simp
    have le: "j div ?L * ?F \<le> length nows * ?F" using jn by (rule mult_le_mono1)
    have f: "?d + (?F + length nows * ?F) + en_offset ?e + en_duration ?e \<le> Duration_MAX" using fit mem by simp
    have nx: "st_next s < length (st_table s)" using Cons.prems(1,3) L by simp
    have sr: "unat (te_serial t) + 2 < 2 ^ 64" using Cons.prems(5) by simp
    have b1: "st_datum s + en_offset (st_table s ! st_next s) + en_duration (st_table s ! st_next s) \<le> Duration_MAX"
      and b2: "st_datum s + st_frame_size s \<le> Duration_MAX"
    proof -
      have "?d + j div ?L * ?F + en_offset ?e + en_duration ?e \<le> Duration_MAX" "?d + j div ?L * ?F + ?F \<le> Duration_MAX"
        using f le by linarith+
      then show "st_datum s + en_offset (st_table s ! st_next s) + en_duration (st_table s ! st_next s) \<le> Duration_MAX"
        "st_datum s + st_frame_size s \<le> Duration_MAX" unfolding Cons.prems(1-4) .
    qed
    obtain s1 t1 where s1: "sched_next me now (s, t) = (Ok ?e, s1, t1)" "st_table s1 = ?T" "st_frame_size s1 = ?F"
      "st_next s1 = (if Suc (j mod ?L) = ?L then 0 else Suc (j mod ?L))"
      "st_datum s1 = ?d + j div ?L * ?F + (if Suc (j mod ?L) = ?L then ?F else 0)"
      "unat (te_serial t1) \<le> unat (te_serial t) + 2"
      "window_end me (?d + j div ?L * ?F + en_offset ?e + en_duration ?e) (s1, t1)"
      by (rule sched_next_step [OF nx sr b1 b2, where me = me and now = now]) (simp add: Cons.prems)
    have nx1: "st_next s1 = Suc j mod ?L" "st_datum s1 = ?d + Suc j div ?L * ?F"
      using s1(4,5) by (auto simp: mod_Suc div_Suc)
    have u: "unat (te_serial t1) + 2 * length ns < 2 ^ 64" "Suc j + length ns \<le> length nows" using Cons.prems(5,6) s1(6) by simp_all
    from Cons.IH [OF s1(2,3) nx1 u] obtain st' te' where r:
      "sched_seq me ns (s1, t1) = (Ok (map (\<lambda>i. ?T ! ((Suc j + i) mod ?L)) [0..<length ns]), st', te')"
      "st_next st' = (Suc j + length ns) mod ?L" "st_datum st' = ?d + (Suc j + length ns) div ?L * ?F"
      "ns \<noteq> [] \<longrightarrow> window_end me (?d + (Suc j + length ns - 1) div ?L * ?F + en_offset (?T ! ((Suc j + length ns - 1) mod ?L)) +
         en_duration (?T ! ((Suc j + length ns - 1) mod ?L))) (st', te')"
      by blast
    have "map (\<lambda>i. ?T ! ((j + i) mod ?L)) [0..<length (now # ns)] = ?e # map (\<lambda>i. ?T ! ((Suc j + i) mod ?L)) [0..<length ns]"
      by (simp add: upt_conv_Cons map_Suc_upt [symmetric] del: upt_Suc)
    then show ?case using r s1(1,7) by (cases "ns = []") simp_all
  qed
  from gen [of st 0 te nows] pos ser k show ?thesis by (auto simp: Let_def)
qed

definition demo_st :: RuntimeSchedTable where
  "demo_st = \<lparr>st_frame_size = 10, st_table = [\<lparr>en_inspector_id = 2, en_offset = 0, en_period = 10, en_duration = 4\<rparr>],
     st_next = 0, st_datum = 5, st_events = []\<rparr>"

theorem sched_next_cycles_witness:
  "\<exists>st' te'. sched_seq 0 [5, 5] (demo_st, te_start) =
     (Ok [\<lparr>en_inspector_id = 2, en_offset = 0, en_period = 10, en_duration = 4\<rparr>,
          \<lparr>en_inspector_id = 2, en_offset = 0, en_period = 10, en_duration = 4\<rparr>], st', te') \<and>
     st_datum st' = 25 \<and> window_end 0 19 (st', te')"
proof -
  have d: "st_table demo_st = [\<lparr>en_inspector_id = 2, en_offset = 0, en_period = 10, en_duration = 4\<rparr>]" "st_next demo_st = 0"
    "st_datum demo_st = 5" "st_frame_size demo_st = 10" by (simp_all add: demo_st_def)
  have "\<forall>e\<in>set (st_table demo_st). st_datum demo_st + Suc (length [5, 5 :: nat]) * st_frame_size demo_st + en_offset e + en_duration e \<le> Duration_MAX"
    by (simp add: d Duration_MAX_def)
  moreover have "unat (te_serial (te_start :: sched_te)) + 2 * length [5, 5 :: nat] < 2 ^ 64" by (simp add: te_start_def)
  ultimately show ?thesis using sched_next_cycles [of demo_st "[5, 5]" te_start 0]
    by (auto simp: d upt_rec Let_def simp del: sched_seq.simps)
qed

text \<open>
  What the admission test lets through. The empty schedule is accepted and the first
  \<^verbatim>\<open>sched_next\<close> panics on it. The last window of a frame is not compared with the frame: a
  window of 25 in a frame of 10 is accepted, and its end lies after the start of the second
  and the third window.
\<close>

theorem sched_table_gaps:
  "(\<exists>st. st_new key_sorter 10 [] = Ok st \<and> fst (sched_next me now (st, te)) = Panicked) \<and>
   (let e = \<lparr>en_inspector_id = 2, en_offset = 0, en_period = 10, en_duration = 25\<rparr>
    in is_ok (st_new key_sorter 10 [e]) \<and> en_offset e + 2 * 10 < en_offset e + en_duration e)"
  by (simp add: st_eval sched_next_def)

end
