(* ===== verification/Runtime.thy ===== *)
theory Runtime
  imports Executor Sched_Table
begin

text \<open>
  The two upper levels of the scheduler, \<^verbatim>\<open>kern/modules/multitask/src/inspector.rs\<close> and
  \<^verbatim>\<open>runtime.rs\<close>: an inspector serves its executors by priority, the runtime of a processor
  serves its inspectors in turn or by a time-triggered schedule. The context switch into an
  executor is the parameter \<^verbatim>\<open>switch\<close>, a function on the state of the processor that may not
  return; \<open>run_executor\<close> is its instance for executors that are not preempted. The messages
  that log a switch are kept as a trace.
\<close>

section \<open>Inspectors\<close>

datatype InspectorStatus = Is_Idle | Is_Running u64 | Is_Pending u64

record 'fut Inspector =
  is_id :: u64
  is_status :: InspectorStatus
  is_registry :: "u64 \<rightharpoonup> 'fut Executor"
  is_queue :: "(ExecutorPriority, u64) FastPriorityQueueWithLock"

definition is_register :: "'fut Executor \<Rightarrow> 'fut Inspector \<Rightarrow> unit res \<times> 'fut Inspector" where
  "is_register executor is =
     (case is_registry is (ex_id executor) of
        Some _ \<Rightarrow> (Fail DuplicateExecutorId, is)
      | None \<Rightarrow>
          (let is1 = is\<lparr>is_registry := (is_registry is)(ex_id executor \<mapsto> executor)\<rparr>
           in case fpql_enqueue FastPriority_of_ExecutorPriority (ex_priority executor) (ex_id executor) (is_queue is) of
                Inl e \<Rightarrow> (Inl e, is1)
              | Ok q \<Rightarrow> (Ok (), is1\<lparr>is_queue := q\<rparr>)))"

definition is_new :: "'fut Executor \<Rightarrow> u64 \<Rightarrow> ('fut Inspector \<times> u64) res" where
  "is_new root_executor generator =
     (case serial_new generator of
        Inl e \<Rightarrow> Inl e
      | Ok i \<Rightarrow>
          (case is_register root_executor \<lparr>is_id = i, is_status = Is_Idle, is_registry = Map.empty, is_queue = fpql_new\<rparr> of
             (Inl _, _) \<Rightarrow> Panicked
           | (Ok _, is) \<Rightarrow> Ok (is, i)))"

definition is_is_empty :: "'fut Inspector \<Rightarrow> bool" where
  "is_is_empty is \<longleftrightarrow> dom (is_registry is) = {}"

definition mark_pending :: "'fut Inspector \<Rightarrow> unit res \<times> 'fut Inspector" where
  "mark_pending is =
     (case is_status is of
        Is_Idle \<Rightarrow> (Fail InvalidInspectorStatus, is)
      | Is_Running i \<Rightarrow> (Ok (), is\<lparr>is_status := Is_Pending i\<rparr>)
      | Is_Pending i \<Rightarrow> (Ok (), is))"

definition is_unregister :: "u64 \<Rightarrow> 'fut Inspector \<Rightarrow> unit res \<times> 'fut Inspector" where
  "is_unregister i is =
     (case is_registry is i of
        None \<Rightarrow> (Fail InvalidExecutorId, is)
      | Some _ \<Rightarrow> (Ok (), is\<lparr>is_registry := (is_registry is)(i := None)\<rparr>))"

definition is_with_executor :: "u64 \<Rightarrow> ('fut Executor \<Rightarrow> 'r \<times> 'fut Executor) \<Rightarrow> 'fut Inspector \<Rightarrow> 'r res \<times> 'fut Inspector" where
  "is_with_executor i f is =
     (case is_registry is i of
        None \<Rightarrow> (Fail InvalidExecutorId, is)
      | Some ex \<Rightarrow> (case f ex of (r, ex') \<Rightarrow> (Ok r, is\<lparr>is_registry := (is_registry is)(i \<mapsto> ex')\<rparr>)))"

definition is_dequeue :: "'fut Inspector \<Rightarrow> u64 option \<times> 'fut Inspector" where
  "is_dequeue is =
     (case fpql_dequeue (is_queue is) of (r, q) \<Rightarrow> (map_option snd r, is\<lparr>is_queue := q\<rparr>))"

definition is_enqueue :: "u64 \<Rightarrow> 'fut Inspector \<Rightarrow> unit res \<times> 'fut Inspector" where
  "is_enqueue i is =
     (case is_registry is i of
        None \<Rightarrow> (Fail InvalidExecutorId, is)
      | Some ex \<Rightarrow>
          (case fpql_enqueue FastPriority_of_ExecutorPriority (ex_priority ex) i (is_queue is) of
             Inl e \<Rightarrow> (Inl e, is)
           | Ok q \<Rightarrow> (Ok (), is\<lparr>is_queue := q\<rparr>)))"

definition set_current :: "u64 option \<Rightarrow> 'fut Inspector \<Rightarrow> 'fut Inspector" where
  "set_current i is =
     (case i of
        Some e \<Rightarrow> is\<lparr>is_status := Is_Running e\<rparr>
      | None \<Rightarrow> (case is_status is of Is_Running _ \<Rightarrow> is\<lparr>is_status := Is_Idle\<rparr> | _ \<Rightarrow> is))"

section \<open>The runtime of a processor\<close>

datatype RuntimeStatus = Rt_Unused | Rt_Init | Rt_Idle | Rt_Running u64 | Rt_Endpoint

record 'fut Runtime =
  rt_registry :: "u64 \<rightharpoonup> 'fut Inspector"
  rt_queue :: "u64 list"
  rt_sched_table :: "RuntimeSchedTable option"
  rt_status :: RuntimeStatus
  rt_switch_context :: SwitchContext

definition rt_new :: "'fut Runtime" where
  "rt_new = \<lparr>rt_registry = Map.empty, rt_queue = [], rt_sched_table = None, rt_status = Rt_Unused,
     rt_switch_context = sc_new_runtime\<rparr>"

definition rt_init :: "'fut Runtime \<Rightarrow> 'fut Runtime" where
  "rt_init rt = rt\<lparr>rt_status := Rt_Init\<rparr>"

definition enact_sched_table :: "RuntimeSchedTable \<Rightarrow> 'fut Runtime \<Rightarrow> unit res \<times> 'fut Runtime" where
  "enact_sched_table st rt =
     (case rt_sched_table rt of
        Some _ \<Rightarrow> (Fail DuplicateRuntimeSchedTable, rt)
      | None \<Rightarrow>
          (Ok (), rt\<lparr>rt_queue := filter (\<lambda>i. list_all (\<lambda>e. en_inspector_id e \<noteq> i) (st_table st)) (rt_queue rt),
                     rt_sched_table := Some st\<rparr>))"

definition revoke_sched_table :: "'fut Runtime \<Rightarrow> RuntimeSchedTable res \<times> 'fut Runtime" where
  "revoke_sched_table rt =
     (case rt_sched_table rt of
        None \<Rightarrow> (Fail InvalidRuntimeSchedTable, rt)
      | Some st \<Rightarrow> (Ok st, rt\<lparr>rt_sched_table := None\<rparr>))"

definition rt_register :: "'fut Inspector \<Rightarrow> 'fut Runtime \<Rightarrow> unit res \<times> 'fut Runtime" where
  "rt_register is rt =
     (case rt_registry rt (is_id is) of
        Some _ \<Rightarrow> (Fail DuplicateInspectorId, rt)
      | None \<Rightarrow> (Ok (), rt\<lparr>rt_registry := (rt_registry rt)(is_id is \<mapsto> is), rt_queue := rt_queue rt @ [is_id is]\<rparr>))"

definition rt_unregister :: "u64 \<Rightarrow> 'fut Runtime \<Rightarrow> unit res \<times> 'fut Runtime" where
  "rt_unregister i rt =
     (case rt_registry rt i of
        None \<Rightarrow> (Fail InvalidInspectorId, rt)
      | Some _ \<Rightarrow> (Ok (), rt\<lparr>rt_registry := (rt_registry rt)(i := None)\<rparr>))"

definition with_inspector :: "u64 \<Rightarrow> ('fut Inspector \<Rightarrow> 'r \<times> 'fut Inspector) \<Rightarrow> 'fut Runtime \<Rightarrow> 'r res \<times> 'fut Runtime" where
  "with_inspector i f rt =
     (case rt_registry rt i of
        None \<Rightarrow> (Fail InvalidInspectorId, rt)
      | Some is \<Rightarrow> (case f is of (r, is') \<Rightarrow> (Ok r, rt\<lparr>rt_registry := (rt_registry rt)(i \<mapsto> is')\<rparr>)))"

definition set_current_inspector :: "u64 option \<Rightarrow> 'fut Runtime \<Rightarrow> 'fut Runtime" where
  "set_current_inspector i rt =
     (case i of Some k \<Rightarrow> rt\<lparr>rt_status := Rt_Running k\<rparr> | None \<Rightarrow> rt\<lparr>rt_status := Rt_Idle\<rparr>)"

definition pop_front :: "'fut Runtime \<Rightarrow> u64 option \<times> 'fut Runtime" where
  "pop_front rt = (case rt_queue rt of [] \<Rightarrow> (None, rt) | i # rest \<Rightarrow> (Some i, rt\<lparr>rt_queue := rest\<rparr>))"

definition push_back :: "u64 \<Rightarrow> 'fut Runtime \<Rightarrow> unit res \<times> 'fut Runtime" where
  "push_back i rt =
     (case rt_registry rt i of
        None \<Rightarrow> (Fail InvalidInspectorId, rt)
      | Some _ \<Rightarrow> (Ok (), rt\<lparr>rt_queue := rt_queue rt @ [i]\<rparr>))"

text \<open>\<^verbatim>\<open>Inspector::with_current\<close> and \<^verbatim>\<open>Executor::with_current\<close>.\<close>

definition inspector_with_current :: "('fut Inspector \<Rightarrow> 'r \<times> 'fut Inspector) \<Rightarrow> 'fut Runtime \<Rightarrow> 'r res \<times> 'fut Runtime" where
  "inspector_with_current f rt =
     (case rt_status rt of
        Rt_Running i \<Rightarrow> with_inspector i f rt
      | _ \<Rightarrow> (Fail InvalidRuntimeStatus, rt))"

definition executor_with_current :: "('fut Executor \<Rightarrow> 'r \<times> 'fut Executor) \<Rightarrow> 'fut Runtime \<Rightarrow> 'r res \<times> 'fut Runtime" where
  "executor_with_current f rt =
     (case inspector_with_current (\<lambda>is.
        (case is_status is of
           Is_Running e \<Rightarrow> is_with_executor e f is
         | Is_Pending e \<Rightarrow> is_with_executor e f is
         | Is_Idle \<Rightarrow> (Fail InvalidInspectorStatus, is))) rt of
        (Inl e, rt') \<Rightarrow> (Inl e, rt')
      | (Ok r, rt') \<Rightarrow> (r, rt'))"

section \<open>Running\<close>

text \<open>The state of a processor: its runtime, the timed events of the machine, the generator
  of task identifiers, the number of clock readings so far and the trace of switches.\<close>

datatype switch_log = Into_Executor u64 | Into_Inspector u64

record 'fut rt_world =
  rw_rt :: "'fut Runtime"
  rw_te :: sched_te
  rw_gen :: u64
  rw_reads :: nat
  rw_trace :: "switch_log list"

type_synonym 'fut switch_fn = "u64 \<Rightarrow> 'fut rt_world \<Rightarrow> (unit res \<times> 'fut rt_world) option"

text \<open>An operation on the runtime whose error is unwrapped.\<close>

definition rt_do :: "('fut Runtime \<Rightarrow> 'r res \<times> 'fut Runtime) \<Rightarrow> 'fut rt_world \<Rightarrow> 'r res \<times> 'fut rt_world" where
  "rt_do f w = (case f (rw_rt w) of (r, rt) \<Rightarrow> (unwrap_res r, w\<lparr>rw_rt := rt\<rparr>))"

text \<open>After the switch back: the executor leaves or queues again; the result says whether the
  inspector has been asked to stop.\<close>

definition switch_back :: "u64 \<Rightarrow> 'fut Inspector \<Rightarrow> bool res \<times> 'fut Inspector" where
  "switch_back e is =
     (case is_with_executor e (\<lambda>ex. (ex_status ex = Finished, ex)) is of
        (Inl _, is1) \<Rightarrow> (Panicked, is1)
      | (Ok finished, is1) \<Rightarrow>
          (case (if finished then is_unregister e is1 else is_enqueue e is1) of
             (Inl _, is2) \<Rightarrow> (Panicked, is2)
           | (Ok _, is2) \<Rightarrow> (Ok (case is_status is2 of Is_Pending _ \<Rightarrow> True | _ \<Rightarrow> False), is2)))"

partial_function (option) inspector_run :: "'fut switch_fn \<Rightarrow> 'fut rt_world \<Rightarrow> (unit res \<times> 'fut rt_world) option" where
  "inspector_run switch w =
     (case rt_do (inspector_with_current is_dequeue) w of
        (Inl x, w1) \<Rightarrow> Some (Inl x, w1)
      | (Ok None, w1) \<Rightarrow> Some (Ok (), w1)
      | (Ok (Some e), w1) \<Rightarrow>
          (case rt_do (inspector_with_current (\<lambda>is. ((), set_current (Some e) is))) (w1\<lparr>rw_trace := rw_trace w1 @ [Into_Executor e]\<rparr>) of
             (Inl x, w2) \<Rightarrow> Some (Inl x, w2)
           | (Ok _, w2) \<Rightarrow>
               (case rt_do (executor_with_current (\<lambda>ex. (ex_switch_context ex, ex))) w2 of
                  (Inl x, w3) \<Rightarrow> Some (Inl x, w3)
                | (Ok _, w3) \<Rightarrow>
                    (case switch e w3 of
                       None \<Rightarrow> None
                     | Some (Inl x, w4) \<Rightarrow> Some (Inl x, w4)
                     | Some (Ok _, w4) \<Rightarrow>
                         (case rt_do (inspector_with_current (\<lambda>is. ((), set_current None is))) w4 of
                            (Inl x, w5) \<Rightarrow> Some (Inl x, w5)
                          | (Ok _, w5) \<Rightarrow>
                              (case rt_do (inspector_with_current (switch_back e)) w5 of
                                 (Inl x, w6) \<Rightarrow> Some (Inl x, w6)
                               | (Ok (Inl x), w6) \<Rightarrow> Some (Inl x, w6)
                               | (Ok (Ok switch_out), w6) \<Rightarrow>
                                   if switch_out then Some (Ok (), w6) else inspector_run switch w6))))))"

definition sched_table_start :: "nat \<Rightarrow> 'fut Runtime \<Rightarrow> unit res \<times> 'fut Runtime" where
  "sched_table_start now rt =
     (case rt_sched_table rt of
        None \<Rightarrow> (Fail InvalidRuntimeSchedTable, rt)
      | Some st \<Rightarrow> (Ok (), rt\<lparr>rt_sched_table := Some (st_start now st)\<rparr>))"

definition sched_table_next :: "usize \<Rightarrow> nat \<Rightarrow> 'fut rt_world \<Rightarrow> RuntimeSchedTableEntry option res \<times> 'fut rt_world" where
  "sched_table_next me now w =
     (case rt_sched_table (rw_rt w) of
        None \<Rightarrow> (Ok None, w)
      | Some st \<Rightarrow>
          (case sched_next me now (st, rw_te w) of
             (r, st', te) \<Rightarrow>
               (case r of Inl e \<Rightarrow> Inl e | Ok entry \<Rightarrow> Ok (Some entry),
                w\<lparr>rw_rt := (rw_rt w)\<lparr>rt_sched_table := Some st'\<rparr>, rw_te := te, rw_reads := Suc (rw_reads w)\<rparr>)))"

definition log_inspector :: "u64 \<Rightarrow> 'fut rt_world \<Rightarrow> 'fut rt_world" where
  "log_inspector i w = w\<lparr>rw_rt := set_current_inspector (Some i) (rw_rt w), rw_trace := rw_trace w @ [Into_Inspector i]\<rparr>"

definition leave_inspector :: "'fut rt_world \<Rightarrow> 'fut rt_world" where
  "leave_inspector w = w\<lparr>rw_rt := set_current_inspector None (rw_rt w)\<rparr>"

partial_function (option) table_loop :: "'fut switch_fn \<Rightarrow> (nat \<Rightarrow> nat) \<Rightarrow> usize \<Rightarrow> 'fut rt_world \<Rightarrow> (unit res \<times> 'fut rt_world) option" where
  "table_loop switch clock me w =
     (case sched_table_next me (clock (rw_reads w)) w of
        (Inl x, w1) \<Rightarrow> Some (Inl x, w1)
      | (Ok None, w1) \<Rightarrow> Some (Ok (), w1)
      | (Ok (Some entry), w1) \<Rightarrow>
          (case inspector_run switch (log_inspector (en_inspector_id entry) w1) of
             None \<Rightarrow> None
           | Some (Inl x, w2) \<Rightarrow> Some (Inl x, w2)
           | Some (Ok _, w2) \<Rightarrow> table_loop switch clock me (leave_inspector w2)))"

definition run_with_sched_table :: "'fut switch_fn \<Rightarrow> (nat \<Rightarrow> nat) \<Rightarrow> usize \<Rightarrow> 'fut rt_world \<Rightarrow> (unit res \<times> 'fut rt_world) option" where
  "run_with_sched_table switch clock me w =
     (case rt_do (sched_table_start (clock (rw_reads w))) (w\<lparr>rw_reads := Suc (rw_reads w)\<rparr>) of
        (Inl x, w1) \<Rightarrow> Some (Inl x, w1)
      | (Ok _, w1) \<Rightarrow> table_loop switch clock me w1)"

definition inspector_done :: "'fut Inspector \<Rightarrow> bool \<times> 'fut Inspector" where
  "inspector_done is = (is_is_empty is \<and> is_status is = Is_Idle, is)"

partial_function (option) run_without_sched_table :: "'fut switch_fn \<Rightarrow> 'fut rt_world \<Rightarrow> (unit res \<times> 'fut rt_world) option" where
  "run_without_sched_table switch w =
     (if rt_sched_table (rw_rt w) \<noteq> None then Some (Ok (), w)
      else case pop_front (rw_rt w) of
        (None, rt) \<Rightarrow> Some (Ok (), w\<lparr>rw_rt := rt\<rparr>)
      | (Some i, rt) \<Rightarrow>
          (case inspector_run switch (log_inspector i (w\<lparr>rw_rt := rt\<rparr>)) of
             None \<Rightarrow> None
           | Some (Inl x, w2) \<Rightarrow> Some (Inl x, w2)
           | Some (Ok _, w2) \<Rightarrow>
               (case rt_do (with_inspector i inspector_done) (leave_inspector w2) of
                  (Inl x, w3) \<Rightarrow> Some (Inl x, w3)
                | (Ok finished, w3) \<Rightarrow>
                    (case rt_do (if finished then rt_unregister i else push_back i) w3 of
                       (Inl x, w4) \<Rightarrow> Some (Inl x, w4)
                     | (Ok _, w4) \<Rightarrow> run_without_sched_table switch w4))))"

text \<open>Without preemption a switch into an executor runs it until it has finished.\<close>

definition run_executor :: "'fut poll_fn \<Rightarrow> 'fut switch_fn" where
  "run_executor poll e w =
     (case rt_status (rw_rt w) of
        Rt_Running k \<Rightarrow>
          (case rt_registry (rw_rt w) k of
             None \<Rightarrow> Some (Panicked, w)
           | Some is \<Rightarrow>
               (case is_registry is e of
                  None \<Rightarrow> Some (Panicked, w)
                | Some ex \<Rightarrow>
                    (case executor_run poll (ex, rw_gen w) of
                       None \<Rightarrow> None
                     | Some (r, ex', g) \<Rightarrow>
                         Some (r, w\<lparr>rw_rt := (rw_rt w)\<lparr>rt_registry := (rt_registry (rw_rt w))(k \<mapsto>
                                    is\<lparr>is_registry := (is_registry is)(e \<mapsto> ex')\<rparr>)\<rparr>, rw_gen := g\<rparr>))))
      | _ \<Rightarrow> Some (Panicked, w))"

text \<open>The end of a processor's work. The argument lists the status of every processor's
  runtime; the result is to halt, or an inter-processor interrupt if any, with the own
  status moved to the endpoint.\<close>

datatype halt_action = Halt | Ipi "nat option"

definition halt_if_all_finished_or_ipi :: "nat \<Rightarrow> RuntimeStatus list \<Rightarrow> halt_action res \<times> RuntimeStatus list" where
  "halt_if_all_finished_or_ipi me ss =
     (if length ss = 1 \<or> list_all (\<lambda>s. s = Rt_Endpoint) (filter (\<lambda>s. s \<noteq> Rt_Unused) ss) then (Ok Halt, ss)
      else let target = (case filter (\<lambda>c. ss ! c = Rt_Endpoint) [0..<length ss] of [] \<Rightarrow> None | c # _ \<Rightarrow> if c \<noteq> me then Some c else None)
           in if me < length ss then (Ok (Ipi target), ss[me := Rt_Endpoint]) else (Panicked, ss))"

text \<open>One round of the loop of \<^verbatim>\<open>Runtime::start\<close>; \<^verbatim>\<open>None\<close> as the action is a \<^verbatim>\<open>continue\<close>. The wait
  for an interrupt changes no state of the model.\<close>

definition start_round :: "'fut switch_fn \<Rightarrow> (nat \<Rightarrow> nat) \<Rightarrow> nat \<Rightarrow> RuntimeStatus list \<times> 'fut rt_world \<Rightarrow>
    (halt_action option res \<times> RuntimeStatus list \<times> 'fut rt_world) option" where
  "start_round switch clock me sw =
     (let w = snd sw;
          scheduled = (rt_sched_table (rw_rt w) \<noteq> None)
      in case (if scheduled then run_with_sched_table switch clock (of_nat me) w else run_without_sched_table switch w) of
           None \<Rightarrow> None
         | Some (Inl x, w1) \<Rightarrow> Some (Inl x, fst sw, w1)
         | Some (Ok _, w1) \<Rightarrow>
             (let ss = (fst sw)[me := rt_status (rw_rt w1)]
              in if (rt_sched_table (rw_rt w1) \<noteq> None) \<noteq> scheduled then Some (Ok None, ss, w1)
                 else case halt_if_all_finished_or_ipi me ss of
                        (Inl x, ss1) \<Rightarrow> Some (Inl x, ss1, w1)
                      | (Ok a, ss1) \<Rightarrow> Some (Ok (Some a), ss1, w1\<lparr>rw_rt := (rw_rt w1)\<lparr>rt_status := ss1 ! me\<rparr>\<rparr>)))"

text \<open>\<^verbatim>\<open>multitask::runtime::init\<close> for an executor already created.\<close>

definition multitask_init :: "'fut Executor \<Rightarrow> u64 \<Rightarrow> 'fut Runtime \<Rightarrow> unit res \<times> 'fut Runtime" where
  "multitask_init root_executor generator rt =
     (case is_new root_executor generator of
        Inl e \<Rightarrow> (Inl e, rt)
      | Ok (is, _) \<Rightarrow> (case rt_register is rt of (r, rt') \<Rightarrow> (unwrap_res r, rt')))"

section \<open>Facts\<close>

abbreviation ex_rank :: "ExecutorPriority \<Rightarrow> nat" where
  "ex_rank \<equiv> fpq_rank FastPriority_of_ExecutorPriority"

text \<open>The current inspector and its replacement.\<close>

definition cur :: "'fut rt_world \<Rightarrow> u64 \<Rightarrow> 'fut Inspector \<Rightarrow> bool" where
  "cur w k is \<longleftrightarrow> rt_status (rw_rt w) = Rt_Running k \<and> rt_registry (rw_rt w) k = Some is"

definition put :: "'fut rt_world \<Rightarrow> u64 \<Rightarrow> 'fut Inspector \<Rightarrow> 'fut rt_world" where
  "put w k is = w\<lparr>rw_rt := (rw_rt w)\<lparr>rt_registry := (rt_registry (rw_rt w))(k \<mapsto> is)\<rparr>\<rparr>"

lemma cur_put [simp]: "cur w k is \<Longrightarrow> cur (put w k is') k is'"
  by (simp add: cur_def put_def)

lemma put_put [simp]: "put (put w k a) k b = put w k b"
  by (simp add: put_def)

lemma put_fields [simp]:
  "rw_trace (put w k is) = rw_trace w" "rw_gen (put w k is) = rw_gen w" "rw_te (put w k is) = rw_te w"
  "rw_reads (put w k is) = rw_reads w"
  "(put w k is)\<lparr>rw_trace := t\<rparr> = put (w\<lparr>rw_trace := t\<rparr>) k is" "(put w k is)\<lparr>rw_gen := g\<rparr> = put (w\<lparr>rw_gen := g\<rparr>) k is"
  "cur (w\<lparr>rw_trace := t\<rparr>) k is = cur w k is" "cur (w\<lparr>rw_gen := g\<rparr>) k is = cur w k is"
  by (simp_all add: put_def cur_def)

lemma rt_do_current:
  "cur w k is \<Longrightarrow> rt_do (inspector_with_current f) w = (Ok (fst (f is)), put w k (snd (f is)))"
  by (simp add: cur_def put_def rt_do_def inspector_with_current_def with_inspector_def unwrap_res_def split: prod.split)

lemma rt_do_executor:
  assumes "cur w k is" "is_status is = Is_Running e" "is_registry is e = Some ex"
  shows "rt_do (executor_with_current f) w =
    (Ok (fst (f ex)), put w k (is\<lparr>is_registry := (is_registry is)(e \<mapsto> snd (f ex))\<rparr>))"
  using assms
  by (simp add: cur_def put_def rt_do_def executor_with_current_def inspector_with_current_def with_inspector_def
      is_with_executor_def unwrap_res_def split: prod.split)

lemma run_executor_cur:
  assumes "cur w k is" "is_registry is e = Some ex" "executor_run poll (ex, rw_gen w) = Some (r, ex', g)"
  shows "run_executor poll e w = Some (r, put (w\<lparr>rw_gen := g\<rparr>) k (is\<lparr>is_registry := (is_registry is)(e \<mapsto> ex')\<rparr>))"
  using assms by (simp add: cur_def put_def run_executor_def)

definition eq_list :: "'fut Inspector \<Rightarrow> (ExecutorPriority \<times> u64) list" where
  "eq_list is = fpq_list (fpql_inner (is_queue is))"

text \<open>An inspector all of whose executors are queued once and can run to completion.\<close>

definition is_ready :: "'fut poll_fn \<Rightarrow> 'fut Inspector \<Rightarrow> bool" where
  "is_ready poll is \<longleftrightarrow>
     fpq_inv FastPriority_of_ExecutorPriority (fpql_inner (is_queue is)) \<and>
     distinct (map snd (eq_list is)) \<and> dom (is_registry is) = snd ` set (eq_list is) \<and>
     (\<forall>e ex. is_registry is e = Some ex \<longrightarrow> (\<exists>N. all_ready poll N ex))"

lemma inspector_step:
  assumes c: "cur w k is" and r: "is_ready poll is" and L: "eq_list is = (p, e) # xs"
  obtains is' where
    "inspector_run (run_executor poll) w = inspector_run (run_executor poll) (put (w\<lparr>rw_trace := rw_trace w @ [Into_Executor e]\<rparr>) k is')"
    "is_ready poll is'" "eq_list is' = xs" "is_status is' = Is_Idle" "is_id is' = is_id is"
proof -
  note R = r [unfolded is_ready_def]
  obtain q where q: "fpql_dequeue (is_queue is) = (Some (p, e), q)" "fpq_inv FastPriority_of_ExecutorPriority (fpql_inner q)"
    "fpq_list (fpql_inner q) = xs"
    using fpql.deq_cons [of FastPriority_of_ExecutorPriority "is_queue is"] R L by (auto simp: eq_list_def)
  have d: "dom (is_registry is) = insert e (snd ` set xs)" "e \<notin> snd ` set xs" "distinct (map snd xs)" using R L by auto
  then obtain ex N where ex: "is_registry is e = Some ex" "all_ready poll N ex" using R by (metis domIff insertI1 not_None_eq)
  obtain ex' where ex': "executor_run poll (ex, g) = Some (Ok (), ex', g)" "ex_status ex' = Finished" if "g = rw_gen w" for g
    using run_loop_completes [OF ex(2), of "rw_gen w"] that by (fastforce simp: executor_run_def)
  define is1 where "is1 = is\<lparr>is_queue := q\<rparr>"
  define is2 where "is2 = is1\<lparr>is_status := Is_Running e\<rparr>"
  define is' where "is' = is\<lparr>is_queue := q, is_status := Is_Idle, is_registry := (is_registry is)(e := None)\<rparr>"
  let ?w = "w\<lparr>rw_trace := rw_trace w @ [Into_Executor e]\<rparr>"
  have c2: "cur (put ?w k is2) k is2" and s2: "is_status is2 = Is_Running e" "is_registry is2 e = Some ex"
    using c ex(1) by (simp_all add: is1_def is2_def cur_def put_def)
  have upd: "is2\<lparr>is_registry := (is_registry is2)(e \<mapsto> ex)\<rparr> = is2" using ex(1) by (simp add: is1_def is2_def fun_upd_idem)
  have sw: "run_executor poll e (put ?w k is2) = Some (Ok (), put ?w k (is2\<lparr>is_registry := (is_registry is2)(e \<mapsto> ex')\<rparr>))"
    using run_executor_cur [OF c2 s2(2), of poll "Ok ()" ex' "rw_gen w"] ex'(1) by (simp add: put_def)
  define is3 where "is3 = is2\<lparr>is_registry := (is_registry is2)(e \<mapsto> ex')\<rparr>"
  have cp: "cur (put ?w k i) k i" for i using c by simp
  have a1: "rt_do (inspector_with_current is_dequeue) w = (Ok (Some e), put w k is1)"
    unfolding rt_do_current [OF c] by (simp add: is_dequeue_def q is1_def)
  have a2: "rt_do (inspector_with_current (\<lambda>i. ((), set_current (Some e) i))) (put ?w k is1) = (Ok (), put ?w k is2)"
    unfolding rt_do_current [OF cp] by (simp add: set_current_def is2_def)
  have a3: "rt_do (executor_with_current (\<lambda>x. (ex_switch_context x, x))) (put ?w k is2) = (Ok (ex_switch_context ex), put ?w k is2)"
    unfolding rt_do_executor [OF c2 s2] by (simp add: upd)
  have a5: "rt_do (inspector_with_current (\<lambda>i. ((), set_current None i))) (put ?w k is3) = (Ok (), put ?w k (is3\<lparr>is_status := Is_Idle\<rparr>))"
    unfolding rt_do_current [OF cp] by (simp add: set_current_def is3_def is2_def)
  have a6: "rt_do (inspector_with_current (switch_back e)) (put ?w k (is3\<lparr>is_status := Is_Idle\<rparr>)) = (Ok (Ok False), put ?w k is')"
    unfolding rt_do_current [OF cp] using ex'(2)
    by (simp add: switch_back_def is_with_executor_def is_unregister_def is3_def is2_def is1_def is'_def)
  have "inspector_run (run_executor poll) w = inspector_run (run_executor poll) (put ?w k is')"
    by (subst inspector_run.simps) (simp add: a1 a2 a3 sw is3_def [symmetric] a5 a6)
  moreover have "is_ready poll is'"
    using R q(2,3) d by (auto simp: is_ready_def is'_def eq_list_def)
  ultimately show thesis using that q(3) by (simp add: is'_def eq_list_def)
qed

lemma inspector_run_completes:
  assumes "cur w k is" "is_ready poll is"
  shows "\<exists>is'. inspector_run (run_executor poll) w =
      Some (Ok (), put (w\<lparr>rw_trace := rw_trace w @ map (\<lambda>x. Into_Executor (snd x)) (eq_list is)\<rparr>) k is') \<and>
    is_is_empty is' \<and> eq_list is' = [] \<and> (eq_list is = [] \<longrightarrow> is_status is' = is_status is) \<and>
    (eq_list is \<noteq> [] \<longrightarrow> is_status is' = Is_Idle)"
  using assms
proof (induction "eq_list is" arbitrary: w "is")
  case Nil
  then have "fpql_dequeue (is_queue is) = (None, is_queue is)"
    by (intro fpql.deq_empty [of FastPriority_of_ExecutorPriority]) (simp_all add: is_ready_def eq_list_def)
  then have "inspector_run (run_executor poll) w = Some (Ok (), put w k is)"
    by (subst inspector_run.simps) (simp add: rt_do_current [OF Nil.prems(1)] is_dequeue_def)
  moreover have "dom (is_registry is) = {}" using Nil.prems(2) Nil.hyps by (simp add: is_ready_def)
  ultimately show ?case using Nil.hyps by (intro exI [of _ "is"]) (simp add: is_is_empty_def)
next
  case (Cons x xs)
  obtain p e where x: "x = (p, e)" by (cases x)
  have L: "eq_list is = (p, e) # xs" using Cons.hyps(2) x by simp
  let ?w = "w\<lparr>rw_trace := rw_trace w @ [Into_Executor e]\<rparr>"
  obtain is1 where i: "inspector_run (run_executor poll) w = inspector_run (run_executor poll) (put ?w k is1)"
    "is_ready poll is1" "eq_list is1 = xs" "is_status is1 = Is_Idle"
    by (rule inspector_step [OF Cons.prems L])
  have c1: "cur (put ?w k is1) k is1" using Cons.prems(1) by simp
  from Cons.hyps(1) [OF i(3) [symmetric] c1 i(2)] show ?case
    unfolding i(1) L by (auto simp: i(3,4))
qed

text \<open>One inspector of a runtime without a schedule: run to completion and removed.\<close>

lemma runtime_step:
  assumes t: "rt_sched_table (rw_rt w) = None" and Q: "rt_queue (rw_rt w) = i # qs"
    and I: "rt_registry (rw_rt w) i = Some is" "is_ready poll is" "is_status is = Is_Idle"
  shows "run_without_sched_table (run_executor poll) w =
    run_without_sched_table (run_executor poll) (w\<lparr>rw_trace := rw_trace w @ Into_Inspector i # map (\<lambda>x. Into_Executor (snd x)) (eq_list is),
      rw_rt := (rw_rt w)\<lparr>rt_registry := (rt_registry (rw_rt w))(i := None), rt_queue := qs, rt_status := Rt_Idle\<rparr>\<rparr>)"
proof -
  let ?w = "log_inspector i (w\<lparr>rw_rt := (rw_rt w)\<lparr>rt_queue := qs\<rparr>\<rparr>)"
  have c: "cur ?w i is" using I(1) by (simp add: cur_def log_inspector_def set_current_inspector_def)
  obtain is' where r: "inspector_run (run_executor poll) ?w =
      Some (Ok (), put (?w\<lparr>rw_trace := rw_trace ?w @ map (\<lambda>x. Into_Executor (snd x)) (eq_list is)\<rparr>) i is')"
    and e: "is_is_empty is'" "is_status is' = Is_Idle"
    using inspector_run_completes [OF c I(2)] I(3) by (cases "eq_list is = []") auto
  let ?v = "leave_inspector (put (?w\<lparr>rw_trace := rw_trace ?w @ map (\<lambda>x. Into_Executor (snd x)) (eq_list is)\<rparr>) i is')"
  have reg: "rt_registry (rw_rt ?v) i = Some is'" by (simp add: leave_inspector_def set_current_inspector_def put_def)
  have d: "rt_do (with_inspector i inspector_done) ?v = (Ok True, ?v)"
    using reg e by (simp add: rt_do_def with_inspector_def inspector_done_def unwrap_res_def fun_upd_idem)
  have u: "rt_do (rt_unregister i) ?v =
      (Ok (), w\<lparr>rw_trace := rw_trace w @ Into_Inspector i # map (\<lambda>x. Into_Executor (snd x)) (eq_list is),
        rw_rt := (rw_rt w)\<lparr>rt_registry := (rt_registry (rw_rt w))(i := None), rt_queue := qs, rt_status := Rt_Idle\<rparr>\<rparr>)"
    using reg by (simp add: rt_do_def rt_unregister_def unwrap_res_def)
      (simp add: leave_inspector_def set_current_inspector_def put_def log_inspector_def)
  show ?thesis by (subst run_without_sched_table.simps) (simp add: t pop_front_def Q r d u)
qed

definition switch_trace :: "('fut Inspector) list \<Rightarrow> switch_log list" where
  "switch_trace iss = concat (map (\<lambda>is. Into_Inspector (is_id is) # map (\<lambda>x. Into_Executor (snd x)) (eq_list is)) iss)"

section \<open>Properties\<close>

text \<open>
  C18. A runtime without a schedule, whose inspectors are idle and hold executors with tasks
  that yield finitely often, serves the inspectors in their queue order and within each the
  executors in order of priority, each exactly once, and returns with no inspector left.
\<close>

theorem runtime_completes:
  assumes "rt_sched_table (rw_rt w) = None" "rt_queue (rw_rt w) = map is_id iss" "distinct (map is_id iss)"
    and "rt_registry (rw_rt w) = map_of (map (\<lambda>is. (is_id is, is)) iss)"
    and "\<forall>is\<in>set iss. is_ready poll is \<and> is_status is = Is_Idle"
  shows "\<exists>w'. run_without_sched_table (run_executor poll) w = Some (Ok (), w') \<and>
    rt_registry (rw_rt w') = Map.empty \<and> rt_queue (rw_rt w') = [] \<and>
    rw_trace w' = rw_trace w @ switch_trace iss \<and> rw_gen w' = rw_gen w"
  using assms
proof (induction iss arbitrary: w)
  case Nil
  then have "run_without_sched_table (run_executor poll) w = Some (Ok (), w)"
    by (subst run_without_sched_table.simps) (simp add: pop_front_def)
  then show ?case using Nil by (simp add: switch_trace_def)
next
  case (Cons s iss)
  have Q: "rt_queue (rw_rt w) = is_id s # map is_id iss" and r: "rt_registry (rw_rt w) (is_id s) = Some s"
    and i: "is_ready poll s" "is_status s = Is_Idle"
    using Cons.prems by auto
  note st = runtime_step [OF Cons.prems(1) Q r i]
  have reg: "(rt_registry (rw_rt w))(is_id s := None) = map_of (map (\<lambda>is. (is_id is, is)) iss)"
  proof -
    have "map_of (map (\<lambda>is. (is_id is, is)) iss) (is_id s) = None" using Cons.prems(3) by (auto simp: map_of_eq_None_iff)
    then show ?thesis by (auto simp: Cons.prems(4) fun_eq_iff)
  qed
  show ?case unfolding st
    using Cons.IH [of "w\<lparr>rw_trace := rw_trace w @ Into_Inspector (is_id s) # map (\<lambda>x. Into_Executor (snd x)) (eq_list s),
      rw_rt := (rw_rt w)\<lparr>rt_registry := (rt_registry (rw_rt w))(is_id s := None), rt_queue := map is_id iss, rt_status := Rt_Idle\<rparr>\<rparr>"]
      reg Cons.prems(1,3,5) by (simp add: switch_trace_def)
qed

lemma is_new_ready:
  assumes ex: "all_ready poll N ex" "ex_rank (ex_priority ex) < 64" and g: "g \<noteq> - 1"
  obtains "is" where "is_new ex g = Ok (is, g + 1)" "is_ready poll is" "is_status is = Is_Idle" "is_id is = g + 1"
    "eq_list is = [(ex_priority ex, ex_id ex)]"
proof -
  obtain q where q: "fpql_enqueue FastPriority_of_ExecutorPriority (ex_priority ex) (ex_id ex) fpql_new = Ok q"
    "fpq_inv FastPriority_of_ExecutorPriority (fpql_inner q)" "fpq_list (fpql_inner q) = [(ex_priority ex, ex_id ex)]"
    using fpql.enq_ok [OF fpql.invar_empty ex(2), of "ex_id ex"] by (auto simp: fpql_new_def fpq_list_new)
  show thesis
    by (rule that [of "\<lparr>is_id = g + 1, is_status = Is_Idle, is_registry = [ex_id ex \<mapsto> ex], is_queue = q\<rparr>"])
      (use q ex(1) g in \<open>auto simp: is_new_def serial_new_def is_register_def is_ready_def eq_list_def\<close>)
qed

theorem runtime_completes_witness:
  "\<exists>ex rt w'. multitask_init ex 4 rt_new = (Ok (), rt) \<and>
     run_without_sched_table (run_executor countdown) \<lparr>rw_rt = rt, rw_te = te_start, rw_gen = 9, rw_reads = 0, rw_trace = []\<rparr> = Some (Ok (), w') \<and>
     rw_trace w' = [Into_Inspector 5, Into_Executor 3] \<and> rt_queue (rw_rt w') = []"
proof -
  let ?t = "\<lparr>t_id = 1, t_priority = TaskPriority_default, t_future = 2\<rparr> :: nat Task"
  have t: "yields countdown 2 (t_future ?t)" "task_rank (t_priority ?t) < 64"
    using countdown_yields [of 2] by (simp_all add: fpq_rank_def TaskPriority_default_def)
  obtain ex where ex: "ex_spawn ?t (blank_executor 3 ExecutorPriority_default (VirtAddr 0) sc_default) = (Ok (), ex)"
    "all_ready countdown (\<lambda>_. 2) ex" by (rule spawn_blank [OF t])
  then have f: "ex_id ex = 3" "ex_priority ex = ExecutorPriority_default"
    by (auto simp: ex_spawn_def task_enqueue_def blank_executor_def split: sum.splits)
  have "ex_rank (ex_priority ex) < 64" by (simp add: f ExecutorPriority_default_def fpq_rank_def)
  then obtain s where s: "is_new ex 4 = Ok (s, 4 + 1)" "is_ready countdown s" "is_status s = Is_Idle" "is_id s = 4 + 1"
    "eq_list s = [(ex_priority ex, ex_id ex)]"
    using is_new_ready [OF ex(2), of 4] by auto
  define rt where "rt = (rt_new :: nat Runtime)\<lparr>rt_registry := [5 \<mapsto> s], rt_queue := [5]\<rparr>"
  let ?w = "\<lparr>rw_rt = rt, rw_te = te_start, rw_gen = 9, rw_reads = 0, rw_trace = []\<rparr>"
  have init: "multitask_init ex 4 rt_new = (Ok (), rt)"
    using s by (simp add: multitask_init_def rt_register_def rt_new_def unwrap_res_def rt_def)
  obtain w' where "run_without_sched_table (run_executor countdown) ?w = Some (Ok (), w')"
    "rt_queue (rw_rt w') = []" "rw_trace w' = rw_trace ?w @ switch_trace [s]"
    using runtime_completes [of ?w "[s]" countdown] s by (auto simp: rt_def rt_new_def)
  then show ?thesis using init s f by (intro exI [of _ ex] exI [of _ rt] exI [of _ w']) (simp add: switch_trace_def)
qed

text \<open>
  When an enacted schedule is revoked, the inspectors it listed are left out of the
  queue: they stay registered and no later round of the runtime without a schedule selects
  them.
\<close>

theorem revoked_inspectors_not_requeued:
  assumes "rt_sched_table rt = None" "en \<in> set (st_table st)"
    and "rt' = snd (revoke_sched_table (snd (enact_sched_table st rt)))"
  shows "fst (enact_sched_table st rt) = Ok () \<and> rt_sched_table rt' = None \<and> rt_registry rt' = rt_registry rt \<and>
    en_inspector_id en \<notin> set (rt_queue rt')"
  using assms by (auto simp: enact_sched_table_def revoke_sched_table_def list_all_iff)

theorem revoked_inspectors_not_requeued_witness:
  "2 \<notin> set (rt_queue (snd (revoke_sched_table (snd (enact_sched_table demo_st ((rt_new :: nat Runtime)\<lparr>rt_queue := [2, 3]\<rparr>))))))"
  using revoked_inspectors_not_requeued [of "(rt_new :: nat Runtime)\<lparr>rt_queue := [2, 3]\<rparr>" "hd (st_table demo_st)" demo_st, OF _ _ refl]
  by (simp add: demo_st_def rt_new_def)

text \<open>The processors reach the end of their work one after another.\<close>

fun visits :: "nat list \<Rightarrow> RuntimeStatus list \<Rightarrow> halt_action res list \<times> RuntimeStatus list" where
  "visits [] ss = ([], ss)"
| "visits (c # cs) ss =
     (case halt_if_all_finished_or_ipi c ss of (a, ss1) \<Rightarrow> (case visits cs ss1 of (as, ss2) \<Rightarrow> (a # as, ss2)))"

lemma halt_visit:
  assumes n: "2 \<le> length ss" "me < length ss" and s: "ss ! me \<noteq> Rt_Unused" "ss ! me \<noteq> Rt_Endpoint"
  shows "\<exists>t. halt_if_all_finished_or_ipi me ss = (Ok (Ipi t), ss[me := Rt_Endpoint]) \<and>
    ((\<exists>c<length ss. ss ! c = Rt_Endpoint) \<longrightarrow> (\<exists>c<length ss. c \<noteq> me \<and> t = Some c))"
proof -
  have "\<not> list_all (\<lambda>s. s = Rt_Endpoint) (filter (\<lambda>s. s \<noteq> Rt_Unused) ss)"
    using nth_mem [OF n(2)] s by (auto simp: list_all_iff)
  then have h: "halt_if_all_finished_or_ipi me ss =
    (Ok (Ipi (case filter (\<lambda>c. ss ! c = Rt_Endpoint) [0..<length ss] of [] \<Rightarrow> None | c # _ \<Rightarrow> if c \<noteq> me then Some c else None)), ss[me := Rt_Endpoint])"
    using n by (simp add: halt_if_all_finished_or_ipi_def Let_def)
  show ?thesis
  proof (cases "filter (\<lambda>c. ss ! c = Rt_Endpoint) [0..<length ss]")
    case Nil
    then have "\<not> (\<exists>c<length ss. ss ! c = Rt_Endpoint)" by (auto simp: filter_empty_conv)
    then show ?thesis using h Nil by auto
  next
    case (Cons c cs)
    then have "c \<in> set (filter (\<lambda>c. ss ! c = Rt_Endpoint) [0..<length ss])" by simp
    then have "ss ! c = Rt_Endpoint" "c < length ss" by auto
    then show ?thesis using h Cons s(2) by auto
  qed
qed

lemma visits_length: "length (fst (visits es qs)) = length es"
proof (induction es arbitrary: qs)
  case (Cons e es)
  then show ?case by (simp add: case_prod_beta)
qed simp

lemma visits_all:
  assumes "2 \<le> length rs" "distinct ds" "set ds \<subseteq> {..<length rs}" "\<forall>c\<in>set ds. rs ! c \<noteq> Rt_Unused \<and> rs ! c \<noteq> Rt_Endpoint"
    "\<forall>c<length rs. c \<notin> set ds \<longrightarrow> rs ! c = Rt_Endpoint"
  shows "snd (visits ds rs) = replicate (length rs) Rt_Endpoint \<and>
      list_all (\<lambda>a. \<exists>t. a = Ok (Ipi t)) (fst (visits ds rs)) \<and>
      (ds \<noteq> [] \<longrightarrow> (\<exists>c<length rs. c \<noteq> last ds \<and> last (fst (visits ds rs)) = Ok (Ipi (Some c))))"
  using assms
proof (induction ds arbitrary: rs)
  case Nil
  then show ?case by (simp add: list_eq_iff_nth_eq)
next
  case (Cons d ds)
  let ?rs = "rs[d := Rt_Endpoint]"
  obtain t where h: "halt_if_all_finished_or_ipi d rs = (Ok (Ipi t), ?rs)"
    and t: "(\<exists>c<length rs. rs ! c = Rt_Endpoint) \<longrightarrow> (\<exists>c<length rs. c \<noteq> d \<and> t = Some c)"
    using halt_visit [of rs d] Cons.prems by auto
  have p: "2 \<le> length ?rs" "distinct ds" "set ds \<subseteq> {..<length ?rs}" "\<forall>c\<in>set ds. ?rs ! c \<noteq> Rt_Unused \<and> ?rs ! c \<noteq> Rt_Endpoint"
    "\<forall>c<length ?rs. c \<notin> set ds \<longrightarrow> ?rs ! c = Rt_Endpoint"
    using Cons.prems by (auto simp: nth_list_update)
  note IH = Cons.IH [OF p]
  show ?case
  proof (cases "ds = []")
    case True
    define c where "c = (if d = 0 then 1 else 0 :: nat)"
    have c: "c < length rs" "c \<noteq> d" using Cons.prems(1) by (auto simp: c_def)
    then have "rs ! c = Rt_Endpoint" using Cons.prems(5) True by simp
    then show ?thesis using h t True IH c(1) by auto
  next
    case False
    then have "fst (visits ds ?rs) \<noteq> []" using visits_length [of ds ?rs] by (metis length_0_conv)
    then show ?thesis using h IH False by (auto split: prod.split)
  qed
qed

text \<open>
  C19. When every processor of a machine with at least two reaches the end of its work once,
  in any order, none of them halts the machine before the last; the last one interrupts
  another processor, and that processor's next visit halts the machine.
\<close>

theorem halt_protocol:
  assumes "2 \<le> length ss" "\<forall>s\<in>set ss. s \<noteq> Rt_Unused \<and> s \<noteq> Rt_Endpoint" "distinct cs" "set cs = {..<length ss}"
  shows "\<exists>c<length ss. c \<noteq> last cs \<and> list_all (\<lambda>a. \<exists>t. a = Ok (Ipi t)) (fst (visits cs ss)) \<and>
    last (fst (visits cs ss)) = Ok (Ipi (Some c)) \<and>
    fst (halt_if_all_finished_or_ipi c (snd (visits cs ss))) = Ok Halt"
proof -
  have "0 \<in> set cs" using assms(1) unfolding assms(4) by auto
  then have "cs \<noteq> []" by auto
  moreover have "\<forall>c\<in>set cs. ss ! c \<noteq> Rt_Unused \<and> ss ! c \<noteq> Rt_Endpoint" using assms(2) unfolding assms(4) by simp
  ultimately obtain c where c: "c < length ss" "c \<noteq> last cs" "last (fst (visits cs ss)) = Ok (Ipi (Some c))"
    and v: "snd (visits cs ss) = replicate (length ss) Rt_Endpoint" "list_all (\<lambda>a. \<exists>t. a = Ok (Ipi t)) (fst (visits cs ss))"
    using visits_all [of ss cs] assms(1,3,4) by (metis lessThan_iff order_refl)
  then show ?thesis by (intro exI [of _ c]) (simp add: halt_if_all_finished_or_ipi_def list_all_iff)
qed

theorem halt_protocol_witness:
  "\<exists>c<2. fst (halt_if_all_finished_or_ipi c (snd (visits [1, 0] [Rt_Idle, Rt_Idle]))) = Ok Halt"
  using halt_protocol [of "[Rt_Idle, Rt_Idle]" "[1, 0]"] by (auto simp: lessThan_Suc numeral_2_eq_2)

end
