(* ===== verification/Trap_Entry.thy ===== *)
theory Trap_Entry
  imports Riscv_Asm Addr
begin

text \<open>
  The trap entry and exit assembly of \<^verbatim>\<open>kern/modules/trap/src/arch/riscv/entry.rs\<close>, over the
  context layout of \<^verbatim>\<open>kern/modules/trap/src/arch/riscv/mod.rs\<close>. The handler that the entry
  code calls is a parameter: any processor step that keeps the stack pointer, as the calling
  convention demands.
\<close>

unbundle bit_operations_syntax

section \<open>The context\<close>

record Context =
  cx_regs :: "reg \<Rightarrow> usize"
  cx_fregs :: "freg \<Rightarrow> usize"
  cx_sstatus :: usize
  cx_scause :: usize
  cx_sie :: usize
  cx_stval :: usize
  cx_sepc :: usize

text \<open>Position of a register in \<^verbatim>\<open>Register\<close> and \<^verbatim>\<open>FRegister\<close> (\<^verbatim>\<open>repr(C)\<close>).\<close>

definition reg_list :: "reg list" where
  "reg_list = [Zero, Ra, Sp, Gp, Tp, T0, T1, T2, S0, S1, A0, A1, A2, A3, A4, A5, A6, A7,
     S2, S3, S4, S5, S6, S7, S8, S9, S10, S11, T3, T4, T5, T6]"

definition freg_list :: "freg list" where
  "freg_list = [Ft0, Ft1, Ft2, Ft3, Ft4, Ft5, Ft6, Ft7, Fs0, Fs1, Fa0, Fa1, Fa2, Fa3, Fa4, Fa5, Fa6, Fa7,
     Fs2, Fs3, Fs4, Fs5, Fs6, Fs7, Fs8, Fs9, Fs10, Fs11, Ft8, Ft9, Ft10, Ft11]"

fun position :: "'a \<Rightarrow> 'a list \<Rightarrow> nat" where
  "position x [] = 0"
| "position x (y # ys) = (if x = y then 0 else Suc (position x ys))"

definition XLENB :: nat where "XLENB = 8"

definition CTX_OFFS_REG :: "reg \<Rightarrow> nat" where
  "CTX_OFFS_REG r = XLENB * position r reg_list"

definition CTX_OFFS_FREG :: "freg \<Rightarrow> nat" where
  "CTX_OFFS_FREG f = XLENB * (32 + position f freg_list)"

definition CTX_OFFS_SSTATUS :: nat where "CTX_OFFS_SSTATUS = XLENB * 64"
definition CTX_OFFS_SCAUSE :: nat where "CTX_OFFS_SCAUSE = XLENB * 65"
definition CTX_OFFS_SIE :: nat where "CTX_OFFS_SIE = XLENB * 66"
definition CTX_OFFS_STVAL :: nat where "CTX_OFFS_STVAL = XLENB * 67"
definition CTX_OFFS_SEPC :: nat where "CTX_OFFS_SEPC = XLENB * 68"
definition CTX_SIZE :: nat where "CTX_SIZE = XLENB * 69"

text \<open>The context stored at an address; the slot of the zero register belongs to the kernel.\<close>

definition ctx_at :: "(usize \<Rightarrow> usize) \<Rightarrow> usize \<Rightarrow> Context \<Rightarrow> bool" where
  "ctx_at m a x \<longleftrightarrow>
     (\<forall>r. r \<noteq> Zero \<longrightarrow> m (a + of_nat (CTX_OFFS_REG r)) = cx_regs x r) \<and>
     (\<forall>f. m (a + of_nat (CTX_OFFS_FREG f)) = cx_fregs x f) \<and>
     m (a + of_nat CTX_OFFS_SSTATUS) = cx_sstatus x \<and> m (a + of_nat CTX_OFFS_SCAUSE) = cx_scause x \<and>
     m (a + of_nat CTX_OFFS_SIE) = cx_sie x \<and> m (a + of_nat CTX_OFFS_STVAL) = cx_stval x \<and>
     m (a + of_nat CTX_OFFS_SEPC) = cx_sepc x"

section \<open>The code\<close>

definition trap_regs :: "reg list" where
  "trap_regs = [Ra, Gp, Tp, T0, T1, T2, S0, S1, A0, A1, A2, A3, A4, A5, A6, A7,
     S2, S3, S4, S5, S6, S7, S8, S9, S10, S11, T3, T4, T5, T6]"

definition trap_save :: "instr list" where
  "trap_save =
     map (\<lambda>s. Sd (fst s) (snd s) Sp) (map (\<lambda>r. (r, CTX_OFFS_REG r)) trap_regs) @
     map (\<lambda>s. Fsd (fst s) (snd s) Sp) (map (\<lambda>f. (f, CTX_OFFS_FREG f)) freg_list) @
     [Csrrw T0 Sscratch Zero, Sd T0 (CTX_OFFS_REG Sp) Sp,
      Csrr T1 Sstatus, Sd T1 CTX_OFFS_SSTATUS Sp,
      Csrr T2 Scause, Sd T2 CTX_OFFS_SCAUSE Sp,
      Csrr T3 Sie, Sd T3 CTX_OFFS_SIE Sp,
      Csrr T4 Stval, Sd T4 CTX_OFFS_STVAL Sp,
      Csrr T5 Sepc, Sd T5 CTX_OFFS_SEPC Sp]"

definition trap_exit :: "instr list" where
  "trap_exit =
     [Ld T5 CTX_OFFS_SEPC Sp, Csrw Sepc T5,
      Ld T4 CTX_OFFS_STVAL Sp, Csrw Stval T4,
      Ld T3 CTX_OFFS_SIE Sp, Csrw Sie T3,
      Ld T2 CTX_OFFS_SCAUSE Sp, Csrw Scause T2,
      Ld T1 CTX_OFFS_SSTATUS Sp, Csrw Sstatus T1] @
     map (\<lambda>s. Fld (fst s) (snd s) Sp) (map (\<lambda>f. (f, CTX_OFFS_FREG f)) (rev freg_list)) @
     map (\<lambda>s. Ld (fst s) (snd s) Sp) (map (\<lambda>r. (r, CTX_OFFS_REG r)) (rev trap_regs)) @
     [Ld Sp (CTX_OFFS_REG Sp) Sp]"

text \<open>The kernel's own registers, which \<^verbatim>\<open>run_user\<close> keeps on the kernel stack.\<close>

definition kern_slots :: "(reg \<times> nat) list" where
  "kern_slots = [(S0, 0 * XLENB), (S1, 1 * XLENB), (S2, 2 * XLENB), (S3, 3 * XLENB), (S4, 4 * XLENB),
     (S5, 5 * XLENB), (S6, 6 * XLENB), (S7, 7 * XLENB), (S8, 8 * XLENB), (S9, 9 * XLENB), (S10, 10 * XLENB),
     (S11, 11 * XLENB), (Ra, 12 * XLENB), (Gp, 13 * XLENB), (Tp, 14 * XLENB)]"

definition trap_from_user_ed :: "instr list" where
  "trap_from_user_ed =
     [Ld Sp 0 Sp] @ map (\<lambda>s. Ld (fst s) (snd s) Sp) kern_slots @ [Addi Sp Sp (of_nat (15 * XLENB))]"

definition run_user :: "instr list" where
  "run_user =
     [Addi Sp Sp (- of_nat (15 * XLENB))] @ map (\<lambda>s. Sd (fst s) (snd s) Sp) (rev kern_slots) @
     [Mv T0 Sp, Mv Sp A0, Sd T0 0 Sp, Csrw Sscratch Sp] @ trap_exit"

definition trap_frame :: "cpu \<Rightarrow> cpu" where
  "trap_frame c =
     (let c1 = exec (Csrrw Sp Sscratch Sp) c
      in if gpr c1 Sp \<noteq> 0 then c1
         else run [Csrr Sp Sscratch, Addi Sp Sp (- of_nat CTX_SIZE)] c1)"

text \<open>How the entry code leaves: by \<^verbatim>\<open>sret\<close> to the trapped code, or by \<^verbatim>\<open>ret\<close> to the caller of
  \<^verbatim>\<open>run_user\<close>.\<close>

datatype trap_outcome = Sret cpu | Ret cpu

definition trap_entry :: "(cpu \<Rightarrow> cpu) \<Rightarrow> cpu \<Rightarrow> trap_outcome" where
  "trap_entry handle c =
     (let c1 = run trap_save (trap_frame c);
          c2 = exec (Andi T1 T1 (push_bit 8 1)) c1
      in if gpr c2 T1 = 0 then Ret (run trap_from_user_ed c2)
         else Sret (run trap_exit (handle (exec (Mv A0 Sp) c2))))"

section \<open>Layout facts\<close>

definition gslots :: "(reg \<times> nat) list" where
  "gslots = map (\<lambda>r. (r, CTX_OFFS_REG r)) trap_regs"

definition fslots :: "(freg \<times> nat) list" where
  "fslots = map (\<lambda>f. (f, CTX_OFFS_FREG f)) freg_list"

lemmas ctx_offs = CTX_OFFS_REG_def CTX_OFFS_FREG_def CTX_OFFS_SSTATUS_def CTX_OFFS_SCAUSE_def CTX_OFFS_SIE_def
  CTX_OFFS_STVAL_def CTX_OFFS_SEPC_def CTX_SIZE_def XLENB_def

interpretation tg: reg_frame gslots
  by unfold_locales (simp_all add: gslots_def trap_regs_def ctx_offs reg_list_def)

interpretation tf: reg_frame fslots
  by unfold_locales (simp_all add: fslots_def freg_list_def ctx_offs)

interpretation tk: reg_frame kern_slots
  by unfold_locales (simp_all add: kern_slots_def XLENB_def)

lemma reg_cases: "r = Zero \<or> r = Sp \<or> r \<in> set trap_regs"
  by (cases r) (simp_all add: trap_regs_def)

lemma freg_all: "f \<in> set freg_list"
  by (cases f) (simp_all add: freg_list_def)

lemma reg_offs: "CTX_OFFS_REG r < 256" "CTX_OFFS_REG Sp = 16" "CTX_OFFS_REG r = 16 \<longleftrightarrow> r = Sp" "CTX_OFFS_REG r = 0 \<longleftrightarrow> r = Zero"
  by (cases r; simp add: ctx_offs reg_list_def)+

lemma freg_offs: "256 \<le> CTX_OFFS_FREG f" "CTX_OFFS_FREG f < 512"
  by (cases f; simp add: ctx_offs freg_list_def)+

section \<open>Saving\<close>

definition saved :: "cpu \<Rightarrow> usize \<Rightarrow> usize" where
  "saved c =
     (store_slots (fpr c) (gpr c Sp) fslots (store_slots (gpr c) (gpr c Sp) gslots (mem c)))
       (gpr c Sp + 16 := csrs c Sscratch, gpr c Sp + 512 := csrs c Sstatus, gpr c Sp + 520 := csrs c Scause,
        gpr c Sp + 528 := csrs c Sie, gpr c Sp + 536 := csrs c Stval, gpr c Sp + 544 := csrs c Sepc)"

lemma run_trap_save:
  "run trap_save c =
     c\<lparr>mem := saved c, csrs := (csrs c)(Sscratch := gpr c Zero),
       gpr := (gpr c)(T0 := csrs c Sscratch, T1 := csrs c Sstatus, T2 := csrs c Scause, T3 := csrs c Sie,
                      T4 := csrs c Stval, T5 := csrs c Sepc)\<rparr>"
  unfolding trap_save_def run_append gslots_def [symmetric] fslots_def [symmetric] run_stores run_fstores saved_def
  by (simp add: set_gpr_def ctx_offs reg_list_def)

text \<open>The processor state as a context; the trapped stack pointer is in \<^verbatim>\<open>sscratch\<close>.\<close>

definition ctx_of :: "cpu \<Rightarrow> Context" where
  "ctx_of c = \<lparr>cx_regs = (gpr c)(Sp := csrs c Sscratch), cx_fregs = fpr c, cx_sstatus = csrs c Sstatus,
     cx_scause = csrs c Scause, cx_sie = csrs c Sie, cx_stval = csrs c Stval, cx_sepc = csrs c Sepc\<rparr>"

lemma small_offset:
  assumes "i < 4096" "j < 4096" "i \<noteq> j"
  shows "b + of_nat i \<noteq> b + (of_nat j :: usize)"
  using assms offset_inj by (metis add_left_cancel)

lemma saved_tail:
  assumes "off < 512" "off \<noteq> 16"
  shows "saved c (gpr c Sp + of_nat off) =
    store_slots (fpr c) (gpr c Sp) fslots (store_slots (gpr c) (gpr c Sp) gslots (mem c)) (gpr c Sp + of_nat off)"
proof -
  have "gpr c Sp + of_nat off \<noteq> gpr c Sp + of_nat k" if "k \<in> {16, 512, 520, 528, 536, 544}" for k
    by (rule small_offset) (use assms that in auto)
  from this [of 16] this [of 512] this [of 520] this [of 528] this [of 536] this [of 544]
  show ?thesis by (simp add: saved_def)
qed

lemma saved_freg: "saved c (gpr c Sp + of_nat (CTX_OFFS_FREG f)) = fpr c f"
proof -
  have "(f, CTX_OFFS_FREG f) \<in> set fslots" using freg_all [of f] by (auto simp: fslots_def)
  then show ?thesis using saved_tail [of "CTX_OFFS_FREG f" c] freg_offs [of f] tf.stored by fastforce
qed

lemma saved_reg:
  assumes "r \<in> set trap_regs"
  shows "saved c (gpr c Sp + of_nat (CTX_OFFS_REG r)) = gpr c r"
proof -
  have r: "(r, CTX_OFFS_REG r) \<in> set gslots" using assms by (auto simp: gslots_def)
  have "\<forall>s\<in>set fslots. gpr c Sp + of_nat (CTX_OFFS_REG r) \<noteq> gpr c Sp + of_nat (snd s)"
  proof
    fix s assume "s \<in> set fslots"
    then have "256 \<le> snd s" "snd s < 512" using freg_offs by (auto simp: fslots_def)
    then show "gpr c Sp + of_nat (CTX_OFFS_REG r) \<noteq> gpr c Sp + of_nat (snd s)"
      using reg_offs(1) [of r] by (intro small_offset) auto
  qed
  moreover have "r \<noteq> Sp" using assms by (auto simp: trap_regs_def)
  ultimately show ?thesis
    using saved_tail [of "CTX_OFFS_REG r" c] reg_offs(1,3) [of r] tg.stored [OF r] by (simp add: tf.untouched)
qed

lemma saved_ctx: "ctx_at (saved c) (gpr c Sp) (ctx_of c)"
proof -
  have tail: "saved c (gpr c Sp + 16) = csrs c Sscratch" "saved c (gpr c Sp + 512) = csrs c Sstatus"
    "saved c (gpr c Sp + 520) = csrs c Scause" "saved c (gpr c Sp + 528) = csrs c Sie"
    "saved c (gpr c Sp + 536) = csrs c Stval" "saved c (gpr c Sp + 544) = csrs c Sepc"
    by (simp_all add: saved_def)
  have "saved c (gpr c Sp + of_nat (CTX_OFFS_REG r)) = ((gpr c)(Sp := csrs c Sscratch)) r" if "r \<noteq> Zero" for r
  proof (cases "r = Sp")
    case True
    then show ?thesis using tail(1) reg_offs(2) by simp
  next
    case False
    then show ?thesis using that saved_reg reg_cases by fastforce
  qed
  then show ?thesis
    using saved_freg tail(2-) by (simp add: ctx_at_def ctx_of_def CTX_OFFS_SSTATUS_def CTX_OFFS_SCAUSE_def
        CTX_OFFS_SIE_def CTX_OFFS_STVAL_def CTX_OFFS_SEPC_def XLENB_def)
qed

lemma saved_other:
  assumes "\<forall>off. 8 \<le> off \<and> off < CTX_SIZE \<longrightarrow> a \<noteq> gpr c Sp + of_nat off"
  shows "saved c a = mem c a"
proof -
  have n: "a \<noteq> gpr c Sp + of_nat off" if "8 \<le> off" "off < 552" for off
    using assms that by (simp add: CTX_SIZE_def XLENB_def)
  have "\<forall>s\<in>set gslots. 8 \<le> snd s \<and> snd s < 552" "\<forall>s\<in>set fslots. 8 \<le> snd s \<and> snd s < 552"
    by (simp_all add: gslots_def fslots_def trap_regs_def freg_list_def ctx_offs reg_list_def)
  then have "\<forall>s\<in>set gslots. a \<noteq> gpr c Sp + of_nat (snd s)" "\<forall>s\<in>set fslots. a \<noteq> gpr c Sp + of_nat (snd s)"
    using n by blast+
  then show ?thesis
    using n [of 16] n [of 512] n [of 520] n [of 528] n [of 536] n [of 544]
    by (simp add: saved_def tg.untouched tf.untouched)
qed

section \<open>Restoring\<close>

lemma trap_exit_regs: "Sp \<notin> fst ` set (rev gslots)" "Zero \<notin> fst ` set (rev gslots)"
  by (auto simp: gslots_def trap_regs_def)

lemma run_trap_exit:
  assumes ctx: "ctx_at (mem c) (gpr c Sp) x"
  shows "\<forall>r. r \<noteq> Zero \<longrightarrow> gpr (run trap_exit c) r = cx_regs x r"
    and "gpr (run trap_exit c) Zero = gpr c Zero" and "fpr (run trap_exit c) = cx_fregs x" and "mem (run trap_exit c) = mem c"
    and "csrs (run trap_exit c) = (csrs c)(Sepc := cx_sepc x, Stval := cx_stval x, Sie := cx_sie x,
           Scause := cx_scause x, Sstatus := cx_sstatus x)"
proof -
  let ?g = "(gpr c)(T5 := cx_sepc x, T4 := cx_stval x, T3 := cx_sie x, T2 := cx_scause x, T1 := cx_sstatus x)"
  let ?s = "(csrs c)(Sepc := cx_sepc x, Stval := cx_stval x, Sie := cx_sie x, Scause := cx_scause x, Sstatus := cx_sstatus x)"
  let ?f = "load_slots (mem c) (gpr c Sp) (rev fslots) (fpr c)"
  let ?h = "load_slots (mem c) (gpr c Sp) (rev gslots) ?g"
  have rev_f: "map (\<lambda>f. (f, CTX_OFFS_FREG f)) (rev freg_list) = rev fslots" by (simp add: fslots_def rev_map)
  have rev_g: "map (\<lambda>r. (r, CTX_OFFS_REG r)) (rev trap_regs) = rev gslots" by (simp add: gslots_def rev_map)
  have head: "run [Ld T5 CTX_OFFS_SEPC Sp, Csrw Sepc T5, Ld T4 CTX_OFFS_STVAL Sp, Csrw Stval T4,
      Ld T3 CTX_OFFS_SIE Sp, Csrw Sie T3, Ld T2 CTX_OFFS_SCAUSE Sp, Csrw Scause T2,
      Ld T1 CTX_OFFS_SSTATUS Sp, Csrw Sstatus T1] c = c\<lparr>gpr := ?g, csrs := ?s\<rparr>"
    using ctx by (simp add: ctx_at_def set_gpr_def)
  have h: "?h Sp = gpr c Sp" "?h Zero = gpr c Zero"
    unfolding load_slots_other [OF trap_exit_regs(1)] load_slots_other [OF trap_exit_regs(2)] by simp_all
  have run: "run trap_exit c = c\<lparr>gpr := ?h(Sp := cx_regs x Sp), csrs := ?s, fpr := ?f\<rparr>"
    unfolding trap_exit_def run_append rev_f rev_g head run_floads run_loads [OF trap_exit_regs]
    using ctx h(1) by (simp add: ctx_at_def set_gpr_def)
  have "?f = cx_fregs x"
  proof
    fix f
    have "(f, CTX_OFFS_FREG f) \<in> set fslots" using freg_all [of f] by (auto simp: fslots_def)
    from tf.loaded [OF _ _ this, of "rev fslots"] show "?f f = cx_fregs x f" using ctx by (simp add: ctx_at_def)
  qed
  then show "fpr (run trap_exit c) = cx_fregs x" by (simp add: run)
  have "?h r = cx_regs x r" if "r \<in> set trap_regs" for r
  proof -
    have g: "(r, CTX_OFFS_REG r) \<in> set gslots" using that by (simp add: gslots_def)
    have "r \<noteq> Zero" using that by (auto simp: trap_regs_def)
    with tg.loaded [OF _ _ g, of "rev gslots"] show ?thesis using ctx by (simp add: ctx_at_def)
  qed
  then show "\<forall>r. r \<noteq> Zero \<longrightarrow> gpr (run trap_exit c) r = cx_regs x r" using reg_cases by (auto simp: run)
  show "gpr (run trap_exit c) Zero = gpr c Zero" using h(2) by (simp add: run)
  show "mem (run trap_exit c) = mem c" by (simp add: run)
  show "csrs (run trap_exit c) = ?s" by (simp add: run)
qed

section \<open>Traps\<close>

text \<open>The state in which the kernel trap handler is called.\<close>

definition handed :: "cpu \<Rightarrow> cpu" where
  "handed c = exec (Mv A0 Sp) (exec (Andi T1 T1 (push_bit 8 1)) (run trap_save (trap_frame c)))"

lemma spp_test: "(w :: usize) AND push_bit 8 1 = 0 \<longleftrightarrow> \<not> bit w 8"
  unfolding and_flag using flag_nonzero [of 8] by simp

lemma trap_frame_kern:
  assumes "csrs c Sscratch = 0"
  shows "trap_frame c = c\<lparr>gpr := (gpr c)(Sp := gpr c Sp - 552), csrs := (csrs c)(Sscratch := gpr c Sp)\<rparr>"
  using assms by (simp add: trap_frame_def Let_def set_gpr_def ctx_offs)

lemma trap_frame_user:
  assumes "csrs c Sscratch \<noteq> 0"
  shows "trap_frame c = c\<lparr>gpr := (gpr c)(Sp := csrs c Sscratch), csrs := (csrs c)(Sscratch := gpr c Sp)\<rparr>"
  using assms by (simp add: trap_frame_def Let_def set_gpr_def)

lemma frame_sstatus: "csrs (trap_frame c) Sstatus = csrs c Sstatus"
  by (cases "csrs c Sscratch = 0") (simp_all add: trap_frame_kern trap_frame_user)

lemma trap_entry_cases:
  "trap_entry handle c =
     (if bit (csrs c Sstatus) 8 then Sret (run trap_exit (handle (handed c)))
      else Ret (run trap_from_user_ed (exec (Andi T1 T1 (push_bit 8 1)) (run trap_save (trap_frame c)))))"
proof -
  have "gpr (exec (Andi T1 T1 (push_bit 8 1)) (run trap_save (trap_frame c))) T1 = csrs c Sstatus AND push_bit 8 1"
    unfolding run_trap_save by (simp add: set_gpr_def frame_sstatus del: push_bit_of_1)
  then show ?thesis unfolding trap_entry_def handed_def Let_def by (simp only: spp_test split: if_split) simp
qed

text \<open>Ranges of bytes that do not meet.\<close>

definition apart :: "usize \<Rightarrow> nat \<Rightarrow> usize \<Rightarrow> nat \<Rightarrow> bool" where
  "apart a n b k \<longleftrightarrow> (\<forall>i<n. \<forall>j<k. a + of_nat i \<noteq> b + (of_nat j :: usize))"

section \<open>Properties\<close>

text \<open>
  C11. A trap taken in the kernel hands the handler a context that holds every register and
  control register of the interrupted code, in a frame right below its stack; nothing else
  in memory changes. When the handler returns, the processor continues in exactly the state
  the context then describes, so a handler that leaves the context alone is transparent.
\<close>

theorem kernel_trap_roundtrip:
  assumes z: "gpr c Zero = 0" and kern: "csrs c Sscratch = 0" "bit (csrs c Sstatus) 8"
    and conv: "gpr (handle (handed c)) Sp = gpr (handed c) Sp"
    and after: "ctx_at (mem (handle (handed c))) (gpr (handed c) Sp) x"
  shows "gpr (handed c) A0 = gpr c Sp - of_nat CTX_SIZE \<and> csrs (handed c) Sscratch = 0 \<and>
    ctx_at (mem (handed c)) (gpr (handed c) A0) ((ctx_of c)\<lparr>cx_regs := gpr c\<rparr>) \<and>
    (\<forall>a. (\<forall>off<CTX_SIZE. a \<noteq> gpr c Sp - of_nat CTX_SIZE + of_nat off) \<longrightarrow> mem (handed c) a = mem c a) \<and>
    (\<exists>d. trap_entry handle c = Sret d \<and> (\<forall>r. r \<noteq> Zero \<longrightarrow> gpr d r = cx_regs x r) \<and> fpr d = cx_fregs x \<and>
       mem d = mem (handle (handed c)) \<and>
       csrs d = (csrs (handle (handed c)))(Sepc := cx_sepc x, Stval := cx_stval x, Sie := cx_sie x,
                  Scause := cx_scause x, Sstatus := cx_sstatus x))"
proof -
  let ?f = "trap_frame c"
  note f = trap_frame_kern [OF kern(1)]
  have hm: "mem (handed c) = saved ?f" "csrs (handed c) Sscratch = 0" "gpr (handed c) A0 = gpr ?f Sp"
      "gpr (handed c) Sp = gpr ?f Sp"
    using z unfolding handed_def run_trap_save by (simp_all add: set_gpr_def f)
  have "ctx_of ?f = (ctx_of c)\<lparr>cx_regs := gpr c\<rparr>" by (simp add: ctx_of_def f)
  then have "ctx_at (mem (handed c)) (gpr (handed c) A0) ((ctx_of c)\<lparr>cx_regs := gpr c\<rparr>)"
    using saved_ctx [of ?f] hm by simp
  moreover have "mem (handed c) a = mem c a" if "\<forall>off<CTX_SIZE. a \<noteq> gpr c Sp - of_nat CTX_SIZE + of_nat off" for a
    using saved_other [of a ?f] that by (simp add: hm(1) f CTX_SIZE_def XLENB_def)
  moreover have "gpr (handed c) A0 = gpr c Sp - of_nat CTX_SIZE" using hm(3) by (simp add: f CTX_SIZE_def XLENB_def)
  moreover have "trap_entry handle c = Sret (run trap_exit (handle (handed c)))"
    using kern(2) by (simp add: trap_entry_cases)
  ultimately show ?thesis
    using run_trap_exit [of "handle (handed c)" x] after conv hm(2) by auto
qed

definition demo_kern :: cpu where
  "demo_kern = \<lparr>gpr = (\<lambda>r. if r = Zero then 0 else 0x80001000), fpr = (\<lambda>_. 3),
     csrs = (\<lambda>k. if k = Sscratch then 0 else 0x100), mem = (\<lambda>_. 0)\<rparr>"

theorem kernel_trap_roundtrip_witness:
  "\<exists>d. trap_entry (\<lambda>k. k) demo_kern = Sret d \<and> gpr d Ra = 0x80001000 \<and> gpr d Sp = 0x80001000"
proof -
  let ?f = "trap_frame demo_kern"
  have f: "csrs demo_kern Sscratch = 0" "gpr demo_kern Zero = 0" "bit (csrs demo_kern Sstatus) 8"
    by (simp_all add: demo_kern_def bit_numeral_rec)
  have "mem (handed demo_kern) = saved ?f" "gpr (handed demo_kern) Sp = gpr ?f Sp"
    unfolding handed_def run_trap_save by (simp_all add: set_gpr_def)
  then have ctx: "ctx_at (mem (handed demo_kern)) (gpr (handed demo_kern) Sp) (ctx_of ?f)"
    using saved_ctx [of ?f] by simp
  have "cx_regs (ctx_of ?f) Ra = 0x80001000" "cx_regs (ctx_of ?f) Sp = 0x80001000"
    unfolding trap_frame_kern [OF f(1)] by (simp_all add: ctx_of_def demo_kern_def)
  then show ?thesis
    using kernel_trap_roundtrip [OF f(2,1,3), of "\<lambda>k. k", OF refl ctx] by auto
qed

lemma kern_regs: "Sp \<notin> fst ` set kern_slots" "Zero \<notin> fst ` set kern_slots" "A0 \<notin> fst ` set kern_slots"
  by (auto simp: kern_slots_def)

lemma kern_offs: "\<forall>s\<in>set kern_slots. snd s < 120"
  by (simp add: kern_slots_def XLENB_def)

text \<open>The memory when \<^verbatim>\<open>run_user\<close> has saved the kernel's registers.\<close>

definition user_mem :: "cpu \<Rightarrow> usize \<Rightarrow> usize" where
  "user_mem c = (store_slots (gpr c) (gpr c Sp - 120) (rev kern_slots) (mem c))(gpr c A0 := gpr c Sp - 120)"

lemma store_slots_sp: "Sp \<notin> fst ` set ss \<Longrightarrow> store_slots (v(Sp := w)) b ss m = store_slots v b ss m"
  by (induction ss arbitrary: m) auto

lemma run_run_user:
  "run run_user c =
     run trap_exit (c\<lparr>mem := user_mem c, csrs := (csrs c)(Sscratch := gpr c A0),
       gpr := (gpr c)(T0 := gpr c Sp - 120, Sp := gpr c A0)\<rparr>)"
proof -
  let ?c1 = "c\<lparr>gpr := (gpr c)(Sp := gpr c Sp - 120)\<rparr>"
  let ?c2 = "?c1\<lparr>mem := store_slots (gpr c) (gpr c Sp - 120) (rev kern_slots) (mem c)\<rparr>"
  have 1: "run [Addi Sp Sp (- of_nat (15 * XLENB))] c = ?c1" by (simp add: set_gpr_def XLENB_def)
  have 2: "run (map (\<lambda>s. Sd (fst s) (snd s) Sp) (rev kern_slots)) ?c1 = ?c2"
    unfolding run_stores using kern_regs(1) by (simp add: store_slots_sp)
  have 3: "run [Mv T0 Sp, Mv Sp A0, Sd T0 0 Sp, Csrw Sscratch Sp] ?c2 =
      c\<lparr>mem := user_mem c, csrs := (csrs c)(Sscratch := gpr c A0), gpr := (gpr c)(T0 := gpr c Sp - 120, Sp := gpr c A0)\<rparr>"
    by (simp add: set_gpr_def user_mem_def fun_upd_twist)
  show ?thesis unfolding run_user_def run_append 1 2 3 ..
qed

interpretation tr: reg_frame "rev kern_slots"
  by unfold_locales (simp_all add: kern_slots_def XLENB_def)

lemma user_mem_slot:
  assumes "(r, off) \<in> set kern_slots" and "apart (gpr c Sp - 120) 120 (gpr c A0) CTX_SIZE"
  shows "user_mem c (gpr c Sp - 120 + of_nat off) = gpr c r"
proof -
  have off: "off < 120" using kern_offs assms(1) by force
  have "gpr c Sp - 120 + of_nat off \<noteq> gpr c A0 + of_nat 0"
    using assms(2) off unfolding apart_def CTX_SIZE_def XLENB_def by (metis mult_pos_pos zero_less_numeral)
  then show ?thesis using tr.stored [of r off] assms(1) by (simp add: user_mem_def)
qed

lemma user_mem_other:
  assumes "\<forall>off<120. a \<noteq> gpr c Sp - 120 + of_nat off" "a \<noteq> gpr c A0"
  shows "user_mem c a = mem c a"
  using assms kern_offs by (simp add: user_mem_def tr.untouched)

lemma ctx_at_cong:
  assumes "ctx_at m a x" "\<And>off. 8 \<le> off \<Longrightarrow> off < CTX_SIZE \<Longrightarrow> m' (a + of_nat off) = m (a + of_nat off)"
  shows "ctx_at m' a x"
proof -
  have s: "CTX_SIZE = 552" by (simp add: CTX_SIZE_def XLENB_def)
  have r: "8 \<le> CTX_OFFS_REG r" if "r \<noteq> Zero" for r
    using that by (cases r) (simp_all add: ctx_offs reg_list_def)
  have "m' (a + of_nat (CTX_OFFS_REG r)) = m (a + of_nat (CTX_OFFS_REG r))" if "r \<noteq> Zero" for r
    using assms(2) [OF r [OF that]] reg_offs(1) [of r] s by simp
  moreover have "m' (a + of_nat (CTX_OFFS_FREG f)) = m (a + of_nat (CTX_OFFS_FREG f))" for f
    using assms(2) [of "CTX_OFFS_FREG f"] freg_offs [of f] s by simp
  moreover have "m' (a + 512) = m (a + 512)" "m' (a + 520) = m (a + 520)" "m' (a + 528) = m (a + 528)"
    "m' (a + 536) = m (a + 536)" "m' (a + 544) = m (a + 544)"
    using assms(2) [of 512] assms(2) [of 520] assms(2) [of 528] assms(2) [of 536] assms(2) [of 544] s by simp_all
  ultimately show ?thesis
    using assms(1) unfolding ctx_at_def CTX_OFFS_SSTATUS_def CTX_OFFS_SCAUSE_def CTX_OFFS_SIE_def CTX_OFFS_STVAL_def
      CTX_OFFS_SEPC_def XLENB_def by simp
qed

text \<open>Coming back from user mode.\<close>

lemma user_trap_return:
  assumes z: "gpr u Zero = 0" and user: "csrs u Sscratch = p" "p \<noteq> 0" "\<not> bit (csrs u Sstatus) 8"
    and top: "mem u p = k" and ap: "apart k 120 p CTX_SIZE"
  shows "\<exists>d. trap_entry handle u = Ret d \<and> csrs d Sscratch = 0 \<and> gpr d Sp = k + 120 \<and>
     (\<forall>s\<in>set kern_slots. gpr d (fst s) = mem u (k + of_nat (snd s))) \<and>
     ctx_at (mem d) p ((ctx_of u)\<lparr>cx_regs := gpr u\<rparr>)"
proof -
  let ?f = "trap_frame u" and ?c = "exec (Andi T1 T1 (push_bit 8 1)) (run trap_save (trap_frame u))"
  have "csrs u Sscratch \<noteq> 0" using user by simp
  note f = trap_frame_user [OF this, unfolded user(1)]
  have c: "mem ?c = saved ?f" "gpr ?c Sp = p" "csrs ?c Sscratch = 0"
    using z unfolding run_trap_save by (simp_all add: set_gpr_def f)
  have sp: "gpr ?f Sp = p" and m: "mem ?f = mem u" by (simp_all add: f)
  have p: "saved ?f p = k"
  proof -
    have "p \<noteq> p + of_nat off" if "8 \<le> off" "off < CTX_SIZE" for off
      using small_offset [of 0 off p] that by (simp add: CTX_SIZE_def XLENB_def)
    then show ?thesis using saved_other [of p ?f] top sp m by metis
  qed
  let ?d1 = "?c\<lparr>gpr := (gpr ?c)(Sp := k)\<rparr>"
  have d1: "run [Ld Sp 0 Sp] ?c = ?d1" using c(1,2) p by (simp add: set_gpr_def)
  let ?g = "load_slots (mem ?c) k kern_slots ((gpr ?c)(Sp := k))"
  have "run trap_from_user_ed ?c = ?c\<lparr>gpr := ?g(Sp := ?g Sp + 120)\<rparr>"
    unfolding trap_from_user_ed_def run_append d1 run_loads [OF kern_regs(1,2)]
    by (simp add: set_gpr_def XLENB_def)
  moreover have "?g Sp = k" using kern_regs(1) by (simp add: load_slots_other)
  moreover have "?g (fst s) = mem u (k + of_nat (snd s))" if s: "s \<in> set kern_slots" for s
  proof -
    have "snd s < 120" using kern_offs s by blast
    then have "\<forall>off. 8 \<le> off \<and> off < CTX_SIZE \<longrightarrow> k + of_nat (snd s) \<noteq> gpr ?f Sp + of_nat off"
      using ap sp unfolding apart_def by metis
    then have "saved ?f (k + of_nat (snd s)) = mem u (k + of_nat (snd s))" using saved_other m by metis
    then show ?thesis using tk.loaded [of kern_slots "fst s" "snd s"] s c(1) by simp
  qed
  moreover have "fst s \<noteq> Sp" if "s \<in> set kern_slots" for s using that kern_regs(1) by force
  moreover have "ctx_at (saved ?f) p ((ctx_of u)\<lparr>cx_regs := gpr u\<rparr>)"
    using saved_ctx [of ?f] by (simp add: f ctx_of_def)
  moreover have "trap_entry handle u = Ret (run trap_from_user_ed ?c)" using user(3) by (simp add: trap_entry_cases)
  ultimately show ?thesis using c by simp
qed

text \<open>
  C12. Entering user mode through \<^verbatim>\<open>run_user\<close> loads every register from the context. When the
  user program, which can change neither the kernel's frame nor the first slot of the
  context, traps, control returns to the caller of \<^verbatim>\<open>run_user\<close> with the kernel's stack
  pointer, return address, global, thread and callee-saved registers as they were, the
  context holding the user's state and \<^verbatim>\<open>sscratch\<close> back at zero; the kernel trap handler is
  not involved.
\<close>

theorem user_round_trip:
  assumes ctx: "ctx_at (mem c) (gpr c A0) x" and ap: "apart (gpr c Sp - 120) 120 (gpr c A0) CTX_SIZE"
    and p: "gpr c A0 \<noteq> 0"
    and u: "gpr u Zero = 0" "csrs u Sscratch = csrs (run run_user c) Sscratch" "\<not> bit (csrs u Sstatus) 8"
      "mem u (gpr c A0) = mem (run run_user c) (gpr c A0)"
      "\<forall>off<120. mem u (gpr c Sp - 120 + of_nat off) = mem (run run_user c) (gpr c Sp - 120 + of_nat off)"
  shows "(\<forall>r. r \<noteq> Zero \<longrightarrow> gpr (run run_user c) r = cx_regs x r) \<and> fpr (run run_user c) = cx_fregs x \<and>
    csrs (run run_user c) Sepc = cx_sepc x \<and> csrs (run run_user c) Sstatus = cx_sstatus x \<and>
    (\<exists>d. trap_entry handle u = Ret d \<and> csrs d Sscratch = 0 \<and>
       (\<forall>r\<in>{Sp, Ra, Gp, Tp, S0, S1, S2, S3, S4, S5, S6, S7, S8, S9, S10, S11}. gpr d r = gpr c r) \<and>
       ctx_at (mem d) (gpr c A0) ((ctx_of u)\<lparr>cx_regs := gpr u\<rparr>))"
proof -
  let ?p = "gpr c A0" and ?k = "gpr c Sp - 120"
  let ?c = "c\<lparr>mem := user_mem c, csrs := (csrs c)(Sscratch := ?p), gpr := (gpr c)(T0 := ?k, Sp := ?p)\<rparr>"
  have "user_mem c (?p + of_nat off) = mem c (?p + of_nat off)" if "8 \<le> off" "off < CTX_SIZE" for off
  proof (rule user_mem_other)
    show "\<forall>i<120. ?p + of_nat off \<noteq> ?k + of_nat i" using ap that unfolding apart_def by metis
    show "?p + of_nat off \<noteq> ?p" using small_offset [of 0 off ?p] that by (simp add: CTX_SIZE_def XLENB_def)
  qed
  then have "ctx_at (user_mem c) ?p x" using ctx_at_cong [OF ctx] by blast
  then have cx: "ctx_at (mem ?c) (gpr ?c Sp) x" by simp
  note exit = run_trap_exit [OF cx, folded run_run_user]
  have ss: "csrs (run run_user c) Sscratch = ?p" and m: "mem (run run_user c) = user_mem c"
    unfolding exit(4,5) by simp_all
  have top: "mem u ?p = ?k" using u(4) m by (simp add: user_mem_def)
  from user_trap_return [OF u(1) u(2) [unfolded ss] p u(3) top ap, of handle] obtain d where
    d: "trap_entry handle u = Ret d" "csrs d Sscratch = 0" "gpr d Sp = gpr c Sp"
      "\<forall>s\<in>set kern_slots. gpr d (fst s) = mem u (?k + of_nat (snd s))"
      "ctx_at (mem d) ?p ((ctx_of u)\<lparr>cx_regs := gpr u\<rparr>)" by auto
  have "gpr d r = gpr c r" if s: "(r, off) \<in> set kern_slots" for r off
  proof -
    have "off < 120" using kern_offs s by force
    then have "gpr d r = user_mem c (?k + of_nat off)" using d(4) s u(5) m by force
    then show ?thesis using user_mem_slot [OF s ap] by simp
  qed
  then have "\<forall>r\<in>fst ` set kern_slots. gpr d r = gpr c r" by force
  with d(3) have "\<forall>r\<in>{Sp, Ra, Gp, Tp, S0, S1, S2, S3, S4, S5, S6, S7, S8, S9, S10, S11}. gpr d r = gpr c r"
    by (simp add: kern_slots_def)
  with d exit show ?thesis by auto
qed

definition demo_run :: cpu where
  "demo_run = \<lparr>gpr = (\<lambda>r. if r = Zero then 0 else if r = A0 then 0x1000 else 0x3000), fpr = (\<lambda>_. 0),
     csrs = (\<lambda>_. 0), mem = (\<lambda>_. 0)\<rparr>"

lemma demo_apart: "apart 0x2F88 120 0x1000 CTX_SIZE"
proof -
  have "(0x2F88 + of_nat i :: usize) \<noteq> 0x1000 + of_nat j" if "i < 120" "j < 552" for i j
  proof -
    have "unat (0x2F88 + of_nat i :: usize) = 12168 + i" "unat (0x1000 + of_nat j :: usize) = 4096 + j"
      using that by (subst unat_add_usize; simp add: unat_of_nat)+
    moreover have "12168 + i \<noteq> 4096 + j" using that by simp
    ultimately show ?thesis by metis
  qed
  then show ?thesis by (simp add: apart_def CTX_SIZE_def XLENB_def)
qed

theorem user_round_trip_witness:
  "\<exists>d. trap_entry (\<lambda>k. k) (run run_user demo_run) = Ret d \<and> gpr d Ra = 0x3000 \<and> gpr d Sp = 0x3000"
proof -
  let ?x = "\<lparr>cx_regs = (\<lambda>_. 0), cx_fregs = (\<lambda>_. 0), cx_sstatus = 0, cx_scause = 0, cx_sie = 0, cx_stval = 0, cx_sepc = 0\<rparr>"
  have ctx: "ctx_at (mem demo_run) (gpr demo_run A0) ?x" by (simp add: ctx_at_def demo_run_def)
  have ap: "apart (gpr demo_run Sp - 120) 120 (gpr demo_run A0) CTX_SIZE"
    using demo_apart by (simp add: demo_run_def)
  have p: "gpr demo_run A0 \<noteq> 0" by (simp add: demo_run_def)
  let ?c = "demo_run\<lparr>mem := user_mem demo_run, csrs := (csrs demo_run)(Sscratch := gpr demo_run A0),
       gpr := (gpr demo_run)(T0 := gpr demo_run Sp - 120, Sp := gpr demo_run A0)\<rparr>"
  have "user_mem demo_run (gpr demo_run A0 + of_nat off) = 0" if "8 \<le> off" "off < CTX_SIZE" for off
  proof -
    have "\<forall>i<120. gpr demo_run A0 + of_nat off \<noteq> gpr demo_run Sp - 120 + of_nat i"
      using ap that unfolding apart_def by metis
    moreover have "gpr demo_run A0 + of_nat off \<noteq> gpr demo_run A0"
      using small_offset [of 0 off "gpr demo_run A0"] that by (simp add: CTX_SIZE_def XLENB_def)
    ultimately show ?thesis using user_mem_other [of _ demo_run] by (simp add: demo_run_def)
  qed
  then have "ctx_at (mem ?c) (gpr ?c Sp) ?x" using ctx_at_cong [OF ctx, of "user_mem demo_run"] by (simp add: demo_run_def)
  note exit = run_trap_exit [OF this, folded run_run_user]
  have u: "gpr (run run_user demo_run) Zero = 0" "\<not> bit (csrs (run run_user demo_run) Sstatus) 8"
    unfolding exit(2,5) by (simp_all add: demo_run_def)
  have "\<exists>d. trap_entry (\<lambda>k. k) (run run_user demo_run) = Ret d \<and> gpr d Ra = gpr demo_run Ra \<and> gpr d Sp = gpr demo_run Sp"
    using user_round_trip [OF ctx ap p u(1) refl u(2) refl, of "\<lambda>k. k"] by auto
  then show ?thesis by (simp add: demo_run_def)
qed

end
