(* ===== verification/Trap.thy ===== *)
theory Trap
  imports Timed_Event Trap_Entry Pte
begin

text \<open>
  The trap handlers of \<^verbatim>\<open>kern/modules/trap\<close>: the decoding of the trap reason, the operations
  on a context, the breakpoint, software and timer interrupt handlers and their dispatch by
  \<^verbatim>\<open>handle_kern_trap\<close>. The cause decoders and field values of the \<^verbatim>\<open>riscv\<close> crate, the code
  memory, the clock, the pending bit of the timer and the interrupt controller are
  parameters.
\<close>

unbundle bit_operations_syntax

section \<open>The code\<close>

datatype TrapReason =
    ExternalInterrupt
  | SoftwareInterrupt
  | TimerInterrupt
  | SystemCall
  | Breakpoint VirtAddr
  | PageFault VirtAddr PagePerm
  | Unknown usize

text \<open>The causes of the \<^verbatim>\<open>riscv\<close> crate that the kernel distinguishes.\<close>

datatype Interrupt = SupervisorSoft | SupervisorTimer | SupervisorExternal | OtherInterrupt

datatype Exception = UserEnvCall | BreakpointException | LoadPageFault | StorePageFault
  | InstructionPageFault | OtherException

record riscv_crate =
  Interrupt_from :: "usize \<Rightarrow> Interrupt"
  Exception_from :: "usize \<Rightarrow> Exception"
  FS_Initial :: usize
  SPP_User :: usize

definition trap_reason :: "riscv_crate \<Rightarrow> Context \<Rightarrow> TrapReason" where
  "trap_reason rv ctx =
     (if cx_scause ctx AND push_bit 63 1 \<noteq> 0 then
        (case Interrupt_from rv (cx_scause ctx AND NOT (push_bit 63 1)) of
           SupervisorSoft \<Rightarrow> SoftwareInterrupt
         | SupervisorTimer \<Rightarrow> TimerInterrupt
         | SupervisorExternal \<Rightarrow> ExternalInterrupt
         | OtherInterrupt \<Rightarrow> Unknown (cx_scause ctx))
      else
        (case Exception_from rv (cx_scause ctx) of
           UserEnvCall \<Rightarrow> SystemCall
         | BreakpointException \<Rightarrow> Breakpoint (va_new (cx_sepc ctx))
         | LoadPageFault \<Rightarrow> PageFault (va_new (cx_stval ctx)) PP_R
         | StorePageFault \<Rightarrow> PageFault (va_new (cx_stval ctx)) PP_W
         | InstructionPageFault \<Rightarrow> PageFault (va_new (cx_stval ctx)) PP_X
         | OtherException \<Rightarrow> Unknown (cx_scause ctx)))"

definition enable_int :: "Context \<Rightarrow> Context" where
  "enable_int ctx = ctx\<lparr>cx_sie := push_bit 9 1 OR push_bit 5 1 OR push_bit 1 1\<rparr>"

definition disable_int :: "Context \<Rightarrow> Context" where
  "disable_int ctx = ctx\<lparr>cx_sie := 0\<rparr>"

definition user_setup :: "riscv_crate \<Rightarrow> usize \<Rightarrow> usize \<Rightarrow> Context \<Rightarrow> Context" where
  "user_setup rv entry_point stack_top ctx =
     enable_int (ctx\<lparr>cx_regs := (cx_regs ctx)(Sp := stack_top),
       cx_sstatus := push_bit 18 1 OR push_bit 13 (FS_Initial rv) OR push_bit 8 (SPP_User rv) OR push_bit 5 1,
       cx_sepc := entry_point\<rparr>)"

definition pc_advance :: "(usize \<Rightarrow> u8) \<Rightarrow> Context \<Rightarrow> Context" where
  "pc_advance code ctx =
     (let is_rvc = (code (cx_sepc ctx) AND 3 \<noteq> 3)
      in ctx\<lparr>cx_sepc := cx_sepc ctx + (if is_rvc then 2 else 4)\<rparr>)"

definition syscall_num :: "Context \<Rightarrow> usize" where
  "syscall_num ctx = cx_regs ctx A7"

text \<open>\<^verbatim>\<open>trap::init\<close>: no user context yet, and the entry code as the trap vector.\<close>

definition trap_init :: "usize \<Rightarrow> cpu \<times> usize \<Rightarrow> cpu \<times> usize" where
  "trap_init entry cs = ((fst cs)\<lparr>csrs := (csrs (fst cs))(Sscratch := 0)\<rparr>, entry)"

text \<open>The state of the handlers: the three counters, the software-interrupt bit, the
  interrupt-enable flag and the timed events.\<close>

record 'f trap_state =
  TIMER_INT_COUNTER :: u64
  SOFT_INT_COUNTER :: u64
  BREAKPOINT_COUNTER :: u64
  sip_soft :: bool
  int_enabled :: bool
  tevents :: "'f te_state"

text \<open>What the handlers rely on outside themselves.\<close>

record 'f trap_env =
  rv :: riscv_crate
  code_byte :: "usize \<Rightarrow> u8"
  clock :: "nat \<Rightarrow> nat"
  timer_pending :: "'f te_state \<Rightarrow> bool"
  call :: "'f \<Rightarrow> 'f te_state \<Rightarrow> 'f te_state"
  intc_handle_irq :: "(nat \<Rightarrow> 'f trap_state \<Rightarrow> (nat \<times> nat) res \<times> 'f trap_state) option"
  info_logged :: bool

type_synonym 'f trap_result = "unit res \<times> Context \<times> 'f trap_state"

definition breakpoint_handle :: "'f trap_env \<Rightarrow> Context \<times> 'f trap_state \<Rightarrow> 'f trap_result" where
  "breakpoint_handle E cs =
     (case cs of (ctx, s) \<Rightarrow>
        (case trap_reason (rv E) ctx of
           Breakpoint _ \<Rightarrow>
             (Ok (), pc_advance (code_byte E) ctx, s\<lparr>BREAKPOINT_COUNTER := BREAKPOINT_COUNTER s + 1\<rparr>)
         | _ \<Rightarrow> (Panicked, ctx, s)))"

definition software_interrupt_handler :: "'f trap_state \<Rightarrow> 'f trap_state" where
  "software_interrupt_handler s = s\<lparr>SOFT_INT_COUNTER := SOFT_INT_COUNTER s + 1, sip_soft := False\<rparr>"

definition soft_int_handle :: "'f trap_env \<Rightarrow> Context \<times> 'f trap_state \<Rightarrow> 'f trap_result" where
  "soft_int_handle E cs =
     (case cs of (ctx, s) \<Rightarrow>
        (case trap_reason (rv E) ctx of
           SoftwareInterrupt \<Rightarrow> (Ok (), ctx, s\<lparr>SOFT_INT_COUNTER := SOFT_INT_COUNTER s + 1, sip_soft := False\<rparr>)
         | _ \<Rightarrow> (Panicked, ctx, s)))"

text \<open>The loop of both timer handlers on the handlers' state; \<^verbatim>\<open>n\<close> counts the readings of
  the clock.\<close>

definition fire_outdated :: "'f trap_env \<Rightarrow> usize \<Rightarrow> nat \<Rightarrow> 'f trap_state \<Rightarrow> (unit res \<times> nat \<times> 'f trap_state) option" where
  "fire_outdated E me n s =
     map_option (\<lambda>(r, m, (en, te)). (r, m, s\<lparr>int_enabled := en, tevents := te\<rparr>))
       (timer_loop (call E) (clock E) me n (int_enabled s, tevents s))"

definition timer_interrupt_handler :: "'f trap_env \<Rightarrow> usize \<Rightarrow> nat \<Rightarrow> 'f trap_state \<Rightarrow> (unit res \<times> nat \<times> 'f trap_state) option" where
  "timer_interrupt_handler E me n s = fire_outdated E me n (s\<lparr>TIMER_INT_COUNTER := TIMER_INT_COUNTER s + 1\<rparr>)"

definition timer_int_handle :: "'f trap_env \<Rightarrow> usize \<Rightarrow> nat \<Rightarrow> Context \<times> 'f trap_state \<Rightarrow> (nat \<times> 'f trap_result) option" where
  "timer_int_handle E me n cs =
     (case cs of (ctx, s) \<Rightarrow>
        (case trap_reason (rv E) ctx of
           TimerInterrupt \<Rightarrow>
             (case fire_outdated E me n (s\<lparr>TIMER_INT_COUNTER := TIMER_INT_COUNTER s + 1\<rparr>) of
                None \<Rightarrow> None
              | Some (Inl e, m, s') \<Rightarrow> Some (m, Inl e, ctx, s')
              | Some (Ok _, m, s') \<Rightarrow>
                  Some (m, Ok (), ctx,
                    if timer_pending E (tevents s')
                    then s'\<lparr>tevents := (tevents s')\<lparr>te_timer := (te_timer (tevents s'))(me := Duration_MAX)\<rparr>\<rparr>
                    else s'))
         | _ \<Rightarrow> Some (n, Panicked, ctx, s)))"

text \<open>\<^verbatim>\<open>Duration\<close> subtraction panics below zero; the second difference is only evaluated when
  the message is logged. The controller returns the number of clock readings it took and
  the time it reports.\<close>

definition handle_kern_trap :: "'f trap_env \<Rightarrow> usize \<Rightarrow> nat \<Rightarrow> Context \<times> 'f trap_state \<Rightarrow> (nat \<times> 'f trap_result) option" where
  "handle_kern_trap E me n cs =
     (let trap_start_time = clock E n
      in case trap_reason (rv E) (fst cs) of
           Breakpoint _ \<Rightarrow> Some (Suc n, breakpoint_handle E cs)
         | SoftwareInterrupt \<Rightarrow> Some (Suc n, soft_int_handle E cs)
         | TimerInterrupt \<Rightarrow> timer_int_handle E me (Suc n) cs
         | _ \<Rightarrow>
             (case intc_handle_irq E of
                None \<Rightarrow> Some (Suc n, Panicked, cs)
              | Some handle_irq \<Rightarrow>
                  (case handle_irq (Suc n) (snd cs) of
                     (Inl e, s') \<Rightarrow> Some (Suc n, Inl e, fst cs, s')
                   | (Ok (m, handle_start_time), s') \<Rightarrow>
                       (let trap_finished_time = clock E m
                        in Some (Suc m,
                             if trap_finished_time < trap_start_time \<or>
                                info_logged E \<and> handle_start_time < trap_start_time
                             then Panicked else Ok (), fst cs, s')))))"

section \<open>Facts\<close>

text \<open>The supervisor causes of the privileged architecture, and the field encodings.\<close>

definition riscv_causes :: "riscv_crate \<Rightarrow> bool" where
  "riscv_causes r \<longleftrightarrow>
     Interrupt_from r = (\<lambda>c. if c = 1 then SupervisorSoft else if c = 5 then SupervisorTimer
        else if c = 9 then SupervisorExternal else OtherInterrupt) \<and>
     Exception_from r = (\<lambda>c. if c = 8 then UserEnvCall else if c = 3 then BreakpointException
        else if c = 13 then LoadPageFault else if c = 15 then StorePageFault
        else if c = 12 then InstructionPageFault else OtherException) \<and>
     FS_Initial r = 1 \<and> SPP_User r = 0"

definition demo_rv :: riscv_crate where
  "demo_rv = \<lparr>Interrupt_from = (\<lambda>c. if c = 1 then SupervisorSoft else if c = 5 then SupervisorTimer
        else if c = 9 then SupervisorExternal else OtherInterrupt),
     Exception_from = (\<lambda>c. if c = 8 then UserEnvCall else if c = 3 then BreakpointException
        else if c = 13 then LoadPageFault else if c = 15 then StorePageFault
        else if c = 12 then InstructionPageFault else OtherException),
     FS_Initial = 1, SPP_User = 0\<rparr>"

lemma demo_rv_causes: "riscv_causes demo_rv"
  by (simp add: riscv_causes_def demo_rv_def)

lemma fire_outdated_ok:
  assumes "te_ok (tevents s, [])" "mono (clock E)" "call E = (\<lambda>_ s. s)"
  shows "\<exists>m ds te. fire_outdated E me n s = Some (Ok (), m, s\<lparr>tevents := te\<rparr>) \<and> te_ok (te, []) \<and>
    fired (clock E) me n m ds (tevents s) te"
proof -
  obtain m ds te where "timer_loop (\<lambda>_ s. s) (clock E) me n (int_enabled s, tevents s) = Some (Ok (), m, (int_enabled s, te))"
    "te_ok (te, [])" "fired (clock E) me n m ds (tevents s) te"
    using timer_loop_ok [OF assms(1,2)] by blast
  then show ?thesis by (auto simp: fire_outdated_def assms(3))
qed

section \<open>Properties\<close>

text \<open>
  C15. A timer interrupt, when the closures of the due events do not touch the queues
  themselves, returns, counts once, leaves the context and the interrupt flag alone and
  fires exactly this processor's events whose deadline the last reading of the clock has
  reached, in order of deadline, each once; the later ones stay registered and other
  processors are not affected. Unless the timer is still pending afterwards, the timer is
  left for the earliest remaining event, given that it was so before.
\<close>

theorem timer_interrupt_fires_due:
  assumes "te_step\<^sup>*\<^sup>* (te_start, []) (tevents s, [])" "mono (clock E)" "call E = (\<lambda>_ s. s)"
    and "trap_reason (rv E) ctx = TimerInterrupt" "timer_ok (tevents s) me"
  shows "\<exists>m ds te s'. handle_kern_trap E me n (ctx, s) = Some (m, Ok (), ctx, s') \<and>
    fired (clock E) me (Suc n) m ds (tevents s) te \<and> timer_ok te me \<and>
    s' = s\<lparr>TIMER_INT_COUNTER := TIMER_INT_COUNTER s + 1,
           tevents := if timer_pending E te then te\<lparr>te_timer := (te_timer te)(me := Duration_MAX)\<rparr> else te\<rparr>"
proof -
  let ?s = "s\<lparr>TIMER_INT_COUNTER := TIMER_INT_COUNTER s + 1\<rparr>"
  have "te_ok (tevents ?s, [])" using te_steps_ok [OF assms(1) te_start_ok] by simp
  from fire_outdated_ok [OF this assms(2,3), of me "Suc n"] obtain m ds te where
    f: "fire_outdated E me (Suc n) ?s = Some (Ok (), m, ?s\<lparr>tevents := te\<rparr>)" "fired (clock E) me (Suc n) m ds (tevents s) te"
    by auto
  have "timer_ok te me" using f(2) assms(5) by (cases "ds = []") (auto simp: fired_def)
  then show ?thesis using f by (auto simp: handle_kern_trap_def timer_int_handle_def assms(4))
qed

definition demo_env :: "nat trap_env" where
  "demo_env = \<lparr>rv = demo_rv, code_byte = (\<lambda>_. 0x73), clock = (\<lambda>_. 150), timer_pending = (\<lambda>_. False),
     call = (\<lambda>_ s. s), intc_handle_irq = None, info_logged = True\<rparr>"

definition demo_ts :: "nat trap_state" where
  "demo_ts = \<lparr>TIMER_INT_COUNTER = 0, SOFT_INT_COUNTER = 0, BREAKPOINT_COUNTER = 0, sip_soft = True,
     int_enabled = False, tevents = demo_te\<rparr>"

definition demo_ctx :: "usize \<Rightarrow> Context" where
  "demo_ctx cause = \<lparr>cx_regs = (\<lambda>_. 0), cx_fregs = (\<lambda>_. 0), cx_sstatus = 0x100, cx_scause = cause,
     cx_sie = 0, cx_stval = 0xdead000, cx_sepc = 0x80200000\<rparr>"

lemma demo_timer: "trap_reason (rv demo_env) (demo_ctx 0x8000000000000005) = TimerInterrupt"
  by (simp add: trap_reason_def demo_env_def demo_rv_def demo_ctx_def)

theorem timer_interrupt_fires_due_witness:
  "\<exists>m s'. handle_kern_trap demo_env 0 0 (demo_ctx 0x8000000000000005, demo_ts) = Some (m, Ok (), demo_ctx 0x8000000000000005, s') \<and>
     te_calls (tevents s') = [(1, 1)] \<and> TIMER_INT_COUNTER s' = 1"
proof -
  have t: "tevents demo_ts = demo_te" by (simp add: demo_ts_def)
  have ok: "timer_ok demo_te 0" by (simp add: timer_ok_def demo_te_events)
  obtain m ds te s' where *: "handle_kern_trap demo_env 0 0 (demo_ctx 0x8000000000000005, demo_ts) =
      Some (m, Ok (), demo_ctx 0x8000000000000005, s')"
    "fired (clock demo_env) 0 (Suc 0) m ds demo_te te"
    "s' = demo_ts\<lparr>TIMER_INT_COUNTER := TIMER_INT_COUNTER demo_ts + 1,
           tevents := if timer_pending demo_env te then te\<lparr>te_timer := (te_timer te)(0 := Duration_MAX)\<rparr> else te\<rparr>"
    using timer_interrupt_fires_due [of demo_ts demo_env "demo_ctx 0x8000000000000005" 0 0] demo_te_reach ok demo_timer
    by (auto simp: t demo_env_def mono_def)
  have "set ds = {1}" "distinct ds" "te_calls te = map (timeout_call demo_te) ds"
    using *(2) by (auto simp: fired_def demo_te_events deadline_def demo_env_def)
  then have "te_calls te = [(1, 1)]" using distinct_card [of ds]
    by (cases ds; cases "tl ds") (auto simp: timeout_call_def demo_te_events)
  then show ?thesis using * by (auto simp: demo_ts_def demo_env_def)
qed

text \<open>
  With the cause codes of the architecture, a kernel breakpoint is counted and resumed
  after the instruction, two bytes on when its low bits say it is compressed and four
  otherwise; a software interrupt is counted and acknowledged with the context untouched;
  none of the two involves the interrupt controller or the timed events.
\<close>

theorem breakpoint_and_soft_int_handled:
  assumes "riscv_causes (rv E)"
  shows "(cx_scause ctx = 3 \<longrightarrow> handle_kern_trap E me n (ctx, s) =
       Some (Suc n, Ok (), ctx\<lparr>cx_sepc := cx_sepc ctx + (if code_byte E (cx_sepc ctx) AND 3 = 3 then 4 else 2)\<rparr>,
         s\<lparr>BREAKPOINT_COUNTER := BREAKPOINT_COUNTER s + 1\<rparr>)) \<and>
    (cx_scause ctx = push_bit 63 1 OR 1 \<longrightarrow> handle_kern_trap E me n (ctx, s) =
       Some (Suc n, Ok (), ctx, s\<lparr>SOFT_INT_COUNTER := SOFT_INT_COUNTER s + 1, sip_soft := False\<rparr>))"
  using assms
  by (auto simp: riscv_causes_def handle_kern_trap_def breakpoint_handle_def soft_int_handle_def trap_reason_def pc_advance_def)

theorem breakpoint_and_soft_int_handled_witness:
  "handle_kern_trap demo_env 0 0 (demo_ctx 3, demo_ts) =
     Some (1, Ok (), (demo_ctx 3)\<lparr>cx_sepc := 0x80200004\<rparr>, demo_ts\<lparr>BREAKPOINT_COUNTER := 1\<rparr>)"
  using breakpoint_and_soft_int_handled [of demo_env "demo_ctx 3" 0 0 demo_ts] demo_rv_causes
  by (simp add: demo_env_def demo_ctx_def demo_ts_def)

text \<open>
  Every other trap taken in the kernel, a page fault or an unknown exception included, is
  treated as an external interrupt: the interrupt controller is asked to handle an interrupt,
  or the kernel panics when there is none; the context is returned unchanged, so the faulting
  instruction runs again.
\<close>

theorem other_traps_reach_controller:
  assumes "riscv_causes (rv E)" "cx_scause ctx \<in> {12, 13, 15} \<or> cx_scause ctx = push_bit 63 1 OR 9"
  shows "\<exists>m r s'. handle_kern_trap E me n (ctx, s) = Some (m, r, ctx, s') \<and>
    (case intc_handle_irq E of
       None \<Rightarrow> r = Panicked \<and> s' = s
     | Some handle_irq \<Rightarrow> s' = snd (handle_irq (Suc n) s) \<and>
         (\<forall>k t. fst (handle_irq (Suc n) s) = Ok (k, t) \<longrightarrow> mono (clock E) \<longrightarrow> n \<le> k \<longrightarrow> clock E n \<le> t \<longrightarrow> r = Ok ()))"
proof -
  let ?no = "\<lambda>r. r \<noteq> SoftwareInterrupt \<and> r \<noteq> TimerInterrupt \<and> (\<forall>a. r \<noteq> Breakpoint a)"
  have no: "?no (trap_reason (rv E) ctx)"
    using assms by (auto simp: riscv_causes_def trap_reason_def)
  show ?thesis
  proof (cases "intc_handle_irq E")
    case None
    then show ?thesis using no by (cases "trap_reason (rv E) ctx") (simp_all add: handle_kern_trap_def)
  next
    case (Some h)
    obtain r1 s1 where h: "h (Suc n) s = (r1, s1)" by (cases "h (Suc n) s")
    have le: "clock E n \<le> clock E k" if "mono (clock E)" "n \<le> k" for k using that by (rule monoD)
    show ?thesis
    proof (cases r1)
      case (Inl e)
      then show ?thesis using no Some h by (cases "trap_reason (rv E) ctx") (simp_all add: handle_kern_trap_def)
    next
      case (Inr kt)
      then show ?thesis using no Some h le
        by (cases kt; cases "trap_reason (rv E) ctx") (auto simp: handle_kern_trap_def Let_def not_less dest: leD)
    qed
  qed
qed

theorem other_traps_reach_controller_witness:
  "\<exists>m s'. handle_kern_trap (demo_env\<lparr>intc_handle_irq := Some (\<lambda>n s. (Ok (n, 150), s))\<rparr>) 0 0 (demo_ctx 13, demo_ts) =
     Some (m, Ok (), demo_ctx 13, s')"
proof -
  let ?E = "demo_env\<lparr>intc_handle_irq := Some (\<lambda>n s. (Ok (n, 150), s))\<rparr>"
  have "riscv_causes (rv ?E)" using demo_rv_causes by (simp add: demo_env_def)
  moreover have "cx_scause (demo_ctx 13) \<in> {12, 13, 15} \<or> cx_scause (demo_ctx 13) = push_bit 63 1 OR 9"
    by (simp add: demo_ctx_def)
  ultimately have "\<exists>m r s'. handle_kern_trap ?E 0 0 (demo_ctx 13, demo_ts) = Some (m, r, demo_ctx 13, s') \<and>
    (case intc_handle_irq ?E of
       None \<Rightarrow> r = Panicked \<and> s' = demo_ts
     | Some handle_irq \<Rightarrow> s' = snd (handle_irq (Suc 0) demo_ts) \<and>
         (\<forall>k t. fst (handle_irq (Suc 0) demo_ts) = Ok (k, t) \<longrightarrow> mono (clock ?E) \<longrightarrow> 0 \<le> k \<longrightarrow> clock ?E 0 \<le> t \<longrightarrow> r = Ok ()))"
    by (rule other_traps_reach_controller)
  then show ?thesis by (auto simp: demo_env_def mono_def)
qed

text \<open>
  A timer is programmed for the last tick not after the deadline, at which the clock may
  read less than the deadline. The interrupt of that tick then finds no event due but the
  timer still pending, and switches the timer off: the event stays registered with no timer
  programmed for it. Here the deadline is 150 ns and a tick 100 ns.
\<close>

theorem early_timer_interrupt_drops_deadline:
  "let s = snd (te_create 0 150 \<lparr>h_timeout = 3, h_cancel = (2 :: nat)\<rparr> te_start);
       ticks = set_timer demo_hal (te_timer s 0);
       E = demo_env\<lparr>clock := (\<lambda>_. get_time demo_hal ticks),
             timer_pending := (\<lambda>te. set_timer demo_hal (te_timer te 0) \<le> ticks)\<rparr>
   in case timer_int_handle E 0 0 (demo_ctx 0x8000000000000005, demo_ts\<lparr>tevents := s\<rparr>) of
        Some (_, r, _, s') \<Rightarrow> r = Ok () \<and> te_calls (tevents s') = [] \<and> registered (tevents s') 0 1 \<and>
          te_timer (tevents s') 0 = Duration_MAX
      | None \<Rightarrow> False"
proof -
  let ?s = "snd (te_create 0 150 \<lparr>h_timeout = 3, h_cancel = (2 :: nat)\<rparr> te_start)"
  have s: "te_timer ?s 0 = 150" "registered ?s 0 1" "te_calls ?s = []" "heap_peek (q_queue (te_queues ?s 0)) = Some (150, 1)"
    "teq_peek (te_queues ?s 0) = Ok (Some (TimedEventTracker 1))" "ev_time (te_deref ?s (TimedEventTracker 1)) = 150"
    by (simp_all add: te_eval registered_def teq_peek_def)
  have t: "set_timer demo_hal 150 = 1" "get_time demo_hal 1 = 100"
    by (simp_all add: set_timer_def get_time_def demo_freq Let_def)
  have l: "timer_loop f (\<lambda>_. 100) 0 0 (False, ?s) = Some (Ok (), 1, (False, ?s))" for f
    by (simp add: timer_loop.simps [of f] with_current_pure peek_outdated_def s)
  show ?thesis
    using demo_timer
    by (simp add: s t l timer_int_handle_def fire_outdated_def demo_ts_def Let_def demo_env_def registered_def [symmetric])
      (use s(2,3) in \<open>simp add: registered_def\<close>)
qed

text \<open>
  A context set up for a user program enters user mode with interrupts enabled after the
  return (previous privilege user, previous interrupt enable), the floating-point unit in
  its initial state, at the entry point with the given stack, and with exactly the
  software, timer and external interrupts enabled; every other register is kept.
\<close>

theorem user_setup_enters_user_mode:
  assumes "riscv_causes r" "ctx' = user_setup r entry_point stack_top ctx"
  shows "\<not> bit (cx_sstatus ctx') 8 \<and> bit (cx_sstatus ctx') 5 \<and> bit (cx_sstatus ctx') 18 \<and>
    drop_bit 13 (cx_sstatus ctx') AND 3 = 1 \<and> cx_sepc ctx' = entry_point \<and>
    (\<forall>i. bit (cx_sie ctx') i \<longleftrightarrow> i \<in> {1, 5, 9}) \<and>
    cx_regs ctx' = (cx_regs ctx)(Sp := stack_top) \<and> cx_fregs ctx' = cx_fregs ctx"
proof -
  have b: "bit (push_bit 9 1 OR push_bit 5 1 OR push_bit 1 1 :: usize) i \<longleftrightarrow> i \<in> {1, 5, 9}" for i
    by (auto simp only: bit_or_iff bit_push_bit_iff bit_1_iff) simp_all
  have s: "cx_sstatus ctx' = 0x42020" and e: "cx_sie ctx' = push_bit 9 1 OR push_bit 5 1 OR push_bit 1 1"
    using assms by (simp_all add: user_setup_def enable_int_def riscv_causes_def)
  show ?thesis unfolding s unfolding e
    using b assms by (simp add: user_setup_def enable_int_def bit_numeral_rec)
qed

theorem user_setup_enters_user_mode_witness:
  "cx_sepc (user_setup demo_rv 0x10000 0x40000 (demo_ctx 0)) = 0x10000 \<and>
   \<not> bit (cx_sstatus (user_setup demo_rv 0x10000 0x40000 (demo_ctx 0))) 8"
  using user_setup_enters_user_mode [OF demo_rv_causes refl] by blast

end
