(* ===== verification/Irq.thy ===== *)
theory Irq
  imports Runtime Trap
begin

text \<open>
  External interrupts, \<^verbatim>\<open>kern/modules/driver/src/irq\<close> with the register access of
  \<^verbatim>\<open>kern/modules/driver/src/io/mmio.rs\<close>: the platform-level interrupt controller, the
  per-processor controller in front of it, the table of registered devices and the strategies
  that choose the processor an interrupt goes to. The controller's priority, enable and
  threshold registers behave as memory; what a read of a claim register returns is up to the
  hardware and is a parameter, as are the drivers of the devices.
\<close>

unbundle bit_operations_syntax

section \<open>Register access\<close>

definition Mmio_from_base :: "usize \<Rightarrow> usize res" where
  "Mmio_from_base base_addr = (if base_addr mod 4 = 0 then Ok base_addr else Panicked)"

definition Mmio_add :: "usize \<Rightarrow> usize \<Rightarrow> usize" where
  "Mmio_add base offset = base + 4 * offset"

type_synonym regs = "usize \<Rightarrow> u32"

section \<open>The device table\<close>

record 'dev IrqManager =
  im_range :: "usize \<times> usize"
  im_table :: "usize \<rightharpoonup> 'dev option"

definition im_new :: "usize \<times> usize \<Rightarrow> 'dev IrqManager" where
  "im_new irq_range = \<lparr>im_range = irq_range, im_table = Map.empty\<rparr>"

definition im_contains :: "'dev IrqManager \<Rightarrow> usize \<Rightarrow> bool" where
  "im_contains im irq_num \<longleftrightarrow> fst (im_range im) \<le> irq_num \<and> irq_num < snd (im_range im)"

definition im_register_device :: "usize \<Rightarrow> 'dev \<Rightarrow> 'dev IrqManager \<Rightarrow> 'dev IrqManager" where
  "im_register_device irq_num dev im =
     (if im_contains im irq_num \<and> irq_num \<noteq> 0 then im\<lparr>im_table := (im_table im)(irq_num \<mapsto> Some dev)\<rparr> else im)"

text \<open>A driver handles its interrupt on the state \<^verbatim>\<open>'w\<close> of the devices and returns the time
  it started.\<close>

type_synonym ('dev, 'w) driver = "'dev \<Rightarrow> usize \<Rightarrow> 'w \<Rightarrow> nat \<times> 'w"

definition im_handle_irq :: "('dev, 'w) driver \<Rightarrow> usize \<Rightarrow> 'dev IrqManager \<Rightarrow> 'w \<Rightarrow> nat res \<times> 'w" where
  "im_handle_irq drv irq_num im w =
     (if im_contains im irq_num \<and> irq_num \<noteq> 0 then
        (case im_table im irq_num of
           None \<Rightarrow> (Ok 0, w)
         | Some None \<Rightarrow> (Panicked, w)
         | Some (Some dev) \<Rightarrow> (case drv dev irq_num w of (t, w') \<Rightarrow> (Ok t, w')))
      else (Ok 0, w))"

section \<open>The platform-level interrupt controller\<close>

definition IRQ_RANGE :: "usize \<times> usize" where "IRQ_RANGE = (1, 1024)"
definition PLIC_PRIORITY_BASE :: usize where "PLIC_PRIORITY_BASE = 0"
definition PLIC_ENABLE_BASE :: usize where "PLIC_ENABLE_BASE = 0x2000"
definition PLIC_CONTEXT_BASE :: usize where "PLIC_CONTEXT_BASE = 0x200000"
definition PLIC_CONTEXT_THRESHOLD :: usize where "PLIC_CONTEXT_THRESHOLD = 0"
definition PLIC_CONTEXT_CLAIM :: usize where "PLIC_CONTEXT_CLAIM = 4 div 4"
definition PLIC_ENABLE_CONTEXT_OFFSET :: usize where "PLIC_ENABLE_CONTEXT_OFFSET = 0x80 div 4"
definition PLIC_CONTEXT_HART_OFFSET :: usize where "PLIC_CONTEXT_HART_OFFSET = 0x1000 div 4"

text \<open>The context of a processor depends on the machine named in the device tree.\<close>

definition get_context_id :: "string option \<Rightarrow> usize \<Rightarrow> usize res" where
  "get_context_id root cpu_id =
     (case root of
        None \<Rightarrow> Panicked
      | Some c \<Rightarrow>
          if c = ''riscv-virtio'' then Ok (cpu_id * 2 + 1)
          else if c = ''sifive'' then (if cpu_id = 0 then Panicked else Ok (cpu_id * 2))
          else Panicked)"

record 'dev PLICInner =
  pl_priority_base :: usize
  pl_enable_base :: usize
  pl_context_base :: usize
  pl_irq_manager :: "'dev IrqManager"

definition enable_reg :: "'dev PLICInner \<Rightarrow> usize \<Rightarrow> usize \<Rightarrow> usize" where
  "enable_reg p context_id irq_num =
     Mmio_add (Mmio_add (pl_enable_base p) (context_id * PLIC_ENABLE_CONTEXT_OFFSET)) (irq_num div 32)"

definition threshold_reg :: "'dev PLICInner \<Rightarrow> usize \<Rightarrow> usize" where
  "threshold_reg p context_id =
     Mmio_add (Mmio_add (pl_context_base p) (context_id * PLIC_CONTEXT_HART_OFFSET)) PLIC_CONTEXT_THRESHOLD"

definition claim_reg :: "'dev PLICInner \<Rightarrow> usize \<Rightarrow> usize" where
  "claim_reg p context_id =
     Mmio_add (Mmio_add (pl_context_base p) (context_id * PLIC_CONTEXT_HART_OFFSET)) PLIC_CONTEXT_CLAIM"

definition plic_enable :: "'dev PLICInner \<Rightarrow> usize \<Rightarrow> usize \<Rightarrow> regs \<Rightarrow> regs" where
  "plic_enable p context_id irq_num m =
     (let content = m (enable_reg p context_id irq_num)
      in m(enable_reg p context_id irq_num := push_bit (unat (irq_num mod 32)) 1 OR content))"

definition plic_disable :: "'dev PLICInner \<Rightarrow> usize \<Rightarrow> usize \<Rightarrow> regs \<Rightarrow> regs" where
  "plic_disable p context_id irq_num m =
     (let content = m (enable_reg p context_id irq_num)
      in m(enable_reg p context_id irq_num := NOT (push_bit (unat (irq_num mod 32)) 1) AND content))"

definition plic_disable_all :: "'dev PLICInner \<Rightarrow> usize \<Rightarrow> regs \<Rightarrow> regs" where
  "plic_disable_all p context_id m =
     fold (\<lambda>i m. m(Mmio_add (pl_enable_base p) (context_id * PLIC_ENABLE_CONTEXT_OFFSET + of_nat i * 4) := 0)) [0..<128] m"

definition plic_set_priority :: "'dev PLICInner \<Rightarrow> usize \<Rightarrow> u8 \<Rightarrow> regs \<Rightarrow> regs" where
  "plic_set_priority p irq_num priority m = m(Mmio_add (pl_priority_base p) irq_num := ucast priority)"

definition plic_set_threshold :: "'dev PLICInner \<Rightarrow> usize \<Rightarrow> u8 \<Rightarrow> regs \<Rightarrow> regs" where
  "plic_set_threshold p context_id threshold m = m(threshold_reg p context_id := ucast threshold)"

definition plic_init :: "'dev PLICInner \<Rightarrow> nat \<Rightarrow> regs \<Rightarrow> regs" where
  "plic_init p context_max_id m =
     fold (\<lambda>i m. plic_set_threshold p (of_nat i) 0 (plic_disable_all p (of_nat i) m)) [0..<Suc context_max_id] m"

definition plic_new :: "usize \<Rightarrow> nat \<Rightarrow> regs \<Rightarrow> ('dev PLICInner \<times> regs) res" where
  "plic_new base_addr context_max_id m =
     bind_res (Mmio_from_base (base_addr + PLIC_PRIORITY_BASE)) (\<lambda>pb.
     bind_res (Mmio_from_base (base_addr + PLIC_ENABLE_BASE)) (\<lambda>eb.
     bind_res (Mmio_from_base (base_addr + PLIC_CONTEXT_BASE)) (\<lambda>cb.
       let p = \<lparr>pl_priority_base = pb, pl_enable_base = eb, pl_context_base = cb, pl_irq_manager = im_new IRQ_RANGE\<rparr>
       in Ok (p, plic_init p context_max_id m))))"

text \<open>The \<^verbatim>\<open>InterruptController\<close> operations.\<close>

definition ic_enable :: "string option \<Rightarrow> 'dev PLICInner \<Rightarrow> usize \<Rightarrow> usize \<Rightarrow> regs \<Rightarrow> regs res" where
  "ic_enable root p cpu_id irq_num m =
     bind_res (get_context_id root cpu_id) (\<lambda>context_id.
       Ok (plic_set_threshold p context_id 0 (plic_enable p context_id irq_num m)))"

definition ic_disable :: "string option \<Rightarrow> 'dev PLICInner \<Rightarrow> usize \<Rightarrow> usize \<Rightarrow> regs \<Rightarrow> regs res" where
  "ic_disable root p cpu_id irq_num m =
     bind_res (get_context_id root cpu_id) (\<lambda>context_id. Ok (plic_disable p context_id irq_num m))"

definition ic_register_device :: "usize \<Rightarrow> 'dev \<Rightarrow> 'dev PLICInner \<Rightarrow> regs \<Rightarrow> 'dev PLICInner \<times> regs" where
  "ic_register_device irq_num dev p m =
     (p\<lparr>pl_irq_manager := im_register_device irq_num dev (pl_irq_manager p)\<rparr>, plic_set_priority p irq_num 7 m)"

text \<open>The state an interrupt works on: the registers, the number of interrupts per source and
  per processor, and the devices. Completions are writes to the claim register and are kept
  as a list.\<close>

record ('dev, 'w) irq_state =
  iq_plic :: "'dev PLICInner"
  iq_regs :: regs
  iq_completed :: "(usize \<times> usize) list"
  IRQ_COUNT :: "usize \<rightharpoonup> 32 word"
  INTERRUPT_COUNT :: "u8 list option"
  ROTATE_INDEX :: usize
  iq_devices :: 'w

definition end_of_interrupt :: "string option \<Rightarrow> usize \<Rightarrow> usize \<Rightarrow> ('dev, 'w) irq_state \<Rightarrow> unit res \<times> ('dev, 'w) irq_state" where
  "end_of_interrupt root me irq_num s =
     (case get_context_id root me of
        Inl e \<Rightarrow> (Inl e, s)
      | Ok context_id \<Rightarrow>
          (Ok (), s\<lparr>iq_regs := (iq_regs s)(claim_reg (iq_plic s) context_id := ucast irq_num),
                    iq_completed := iq_completed s @ [(context_id, irq_num)]\<rparr>))"

definition plic_handle_irq :: "string option \<Rightarrow> (usize \<Rightarrow> u32) \<Rightarrow> ('dev, 'w) driver \<Rightarrow> usize \<Rightarrow>
    ('dev, 'w) irq_state \<Rightarrow> nat res \<times> ('dev, 'w) irq_state" where
  "plic_handle_irq root claim drv me s =
     (case get_context_id root me of
        Inl e \<Rightarrow> (Inl e, s)
      | Ok context_id \<Rightarrow>
          (let irq_num = ucast (claim context_id) :: usize
           in if irq_num = 0 then (Ok 0, s)
              else case IRQ_COUNT s irq_num of
                     None \<Rightarrow> (Panicked, s)
                   | Some n \<Rightarrow>
                       (let s1 = s\<lparr>IRQ_COUNT := (IRQ_COUNT s)(irq_num \<mapsto> n + 1)\<rparr>
                        in case im_handle_irq drv irq_num (pl_irq_manager (iq_plic s)) (iq_devices s1) of
                             (Inl e, w) \<Rightarrow> (Inl e, s1\<lparr>iq_devices := w\<rparr>)
                           | (Ok start_time, w) \<Rightarrow>
                               (case end_of_interrupt root me irq_num (s1\<lparr>iq_devices := w\<rparr>) of
                                  (Inl e, s2) \<Rightarrow> (Inl e, s2)
                                | (Ok _, s2) \<Rightarrow> (Ok start_time, s2)))))"

section \<open>The controller of a processor\<close>

text \<open>\<^verbatim>\<open>present\<close> says that \<^verbatim>\<open>PLIC_PHANDLE\<close> is set and that the controller it names is in the table of controllers;
  \<open>iq_plic\<close> is that controller. Theory \<open>Kernel_Init\<close> reads both from the table that probing fills.\<close>

definition intc_handle :: "bool \<Rightarrow> string option \<Rightarrow> (usize \<Rightarrow> u32) \<Rightarrow> ('dev, 'w) driver \<Rightarrow> usize \<Rightarrow>
    ('dev, 'w) irq_state \<Rightarrow> nat res \<times> ('dev, 'w) irq_state" where
  "intc_handle present root claim drv me s =
     (if \<not> present then (Panicked, s)
      else case plic_handle_irq root claim drv me s of
             (Inl e, s1) \<Rightarrow> (Inl e, s1)
           | (Ok start_time, s1) \<Rightarrow>
               (case INTERRUPT_COUNT s1 of
                  None \<Rightarrow> (Panicked, s1)
                | Some v \<Rightarrow>
                    if unat me < length v
                    then (Ok start_time, s1\<lparr>INTERRUPT_COUNT := Some (v[unat me := v ! unat me + 1])\<rparr>)
                    else (Panicked, s1)))"

definition intc_enable :: "riscv_crate \<Rightarrow> usize \<Rightarrow> usize \<Rightarrow> usize res" where
  "intc_enable r irq_num sie =
     (case Interrupt_from r irq_num of
        SupervisorSoft \<Rightarrow> Ok (sie OR push_bit 1 1)
      | SupervisorTimer \<Rightarrow> Ok (sie OR push_bit 5 1)
      | SupervisorExternal \<Rightarrow> Ok (sie OR push_bit 9 1)
      | OtherInterrupt \<Rightarrow> Fail DevWriteError)"

definition intc_disable :: "riscv_crate \<Rightarrow> usize \<Rightarrow> usize \<Rightarrow> usize res" where
  "intc_disable r irq_num sie =
     (case Interrupt_from r irq_num of
        SupervisorSoft \<Rightarrow> Ok (sie AND NOT (push_bit 1 1))
      | SupervisorTimer \<Rightarrow> Ok (sie AND NOT (push_bit 5 1))
      | SupervisorExternal \<Rightarrow> Ok (sie AND NOT (push_bit 9 1))
      | OtherInterrupt \<Rightarrow> Fail DevWriteError)"

section \<open>Choosing the processor of an interrupt\<close>

definition DISPATCH_CPU_COUNT :: nat where "DISPATCH_CPU_COUNT = 5"
definition TIME_INTERVAL :: nat where "TIME_INTERVAL = 1"
definition UART_LOAD :: "32 word" where "UART_LOAD = 1"
definition NET_LOAD :: "32 word" where "NET_LOAD = 4"

text \<open>The strategies run with the tables of controllers locked. A panic stops the kernel, so
  that only the result of a run without one carries a state.\<close>

definition init_strategy :: "bool \<Rightarrow> string option \<Rightarrow> usize \<Rightarrow> ('dev, 'w) irq_state \<Rightarrow> ('dev, 'w) irq_state res" where
  "init_strategy present root me s =
     (let s1 = s\<lparr>INTERRUPT_COUNT := call_once (replicate DISPATCH_CPU_COUNT 0) (INTERRUPT_COUNT s), ROTATE_INDEX := me,
                 IRQ_COUNT := (IRQ_COUNT s)(8 \<mapsto> 0, 10 \<mapsto> 0)\<rparr>
      in if \<not> present then Panicked
         else bind_res (ic_enable root (iq_plic s) me 8 (iq_regs s1)) (\<lambda>m1.
              bind_res (ic_enable root (iq_plic s) me 10 m1) (\<lambda>m2. Ok (s1\<lparr>iq_regs := m2\<rparr>))))"

text \<open>The priority of the task a processor runs, when it runs one: \<^verbatim>\<open>Runtime::with_spec_cpu\<close> and
  the closure it is called with.\<close>

definition with_spec_cpu :: "('fut Runtime \<Rightarrow> 'r) \<Rightarrow> 'fut Runtime \<Rightarrow> 'r res" where
  "with_spec_cpu f rt = (if rt_status rt = Rt_Unused then Fail InvalidRuntimeStatus else Ok (f rt))"

definition running_task_priority :: "'fut Runtime \<Rightarrow> u8 res res" where
  "running_task_priority =
     with_spec_cpu (\<lambda>rt.
       case rt_status rt of
         Rt_Running inspector_id \<Rightarrow>
           bind_res (fst (with_inspector inspector_id (\<lambda>is.
             (case is_status is of
                Is_Running executor_id \<Rightarrow> fst (is_with_executor executor_id (\<lambda>ex. (ex_current_task_priority ex, ex)) is)
              | _ \<Rightarrow> Fail InvalidRuntimeStatus, is)) rt)) (map_sum id u8_of_TaskPriority)
       | _ \<Rightarrow> Fail InvalidRuntimeStatus)"

definition cpu_ids :: "usize list" where
  "cpu_ids = map of_nat [0..<DISPATCH_CPU_COUNT]"

definition cpu_task_priority :: "(usize \<Rightarrow> 'fut Runtime) \<Rightarrow> (usize \<times> u8) list" where
  "cpu_task_priority runtimes =
     List.map_filter (\<lambda>cpu_id. case running_task_priority (runtimes cpu_id) of
                                 Ok (Ok priority) \<Rightarrow> Some (cpu_id, priority) | _ \<Rightarrow> None) cpu_ids"

fun disable_irqs :: "string option \<Rightarrow> 'dev PLICInner \<Rightarrow> usize list \<Rightarrow> regs \<Rightarrow> regs res" where
  "disable_irqs root p [] m = Ok m"
| "disable_irqs root p (cpu_id # cpus) m =
     bind_res (ic_disable root p cpu_id 10 m) (\<lambda>m1.
     bind_res (ic_disable root p cpu_id 8 m1) (\<lambda>m2. disable_irqs root p cpus m2))"

text \<open>The event is created anew for the next interval; \<^verbatim>\<open>ev\<close> is the handler that runs the
  strategy again.\<close>

definition strategy_create :: "'f TimedEventHandler \<Rightarrow> usize \<Rightarrow> nat \<Rightarrow> 'f te_state \<Rightarrow> 'f te_state res" where
  "strategy_create ev me now te =
     (if now + TIME_INTERVAL * 1000000000 > Duration_MAX then Panicked
      else case te_create me (now + TIME_INTERVAL * 1000000000) ev te of
             (Inl e, _) \<Rightarrow> Inl e
           | (Ok _, te') \<Rightarrow> Ok te')"

definition enable_two :: "string option \<Rightarrow> 'dev PLICInner \<Rightarrow> usize \<Rightarrow> usize \<Rightarrow> (usize \<times> 'p) list \<Rightarrow> regs \<Rightarrow> regs res" where
  "enable_two root p irq0 irq1 v m =
     (case v of
        (c0, _) # rest \<Rightarrow>
          bind_res (ic_enable root p c0 irq0 m) (\<lambda>m1.
            case rest of (c1, _) # _ \<Rightarrow> ic_enable root p c1 irq1 m1 | [] \<Rightarrow> Panicked)
      | [] \<Rightarrow> Panicked)"

definition min_load_strategy_event :: "bool \<Rightarrow> string option \<Rightarrow> usize \<Rightarrow> nat \<Rightarrow> (usize \<Rightarrow> 'fut Runtime) \<Rightarrow>
    'f TimedEventHandler \<Rightarrow> ('dev, 'w) irq_state \<Rightarrow> 'f te_state \<Rightarrow> (('dev, 'w) irq_state \<times> 'f te_state) res" where
  "min_load_strategy_event present root me now runtimes ev s te =
     (if \<not> present then Panicked
      else bind_res (disable_irqs root (iq_plic s) cpu_ids (iq_regs s)) (\<lambda>m1.
        let v = sort_key snd (cpu_task_priority runtimes)
        in case (IRQ_COUNT s 8, IRQ_COUNT s 10) of
             (Some net_count, Some uart_count) \<Rightarrow>
               (let c = (IRQ_COUNT s)(8 \<mapsto> 0, 10 \<mapsto> 0);
                    net_irq_load = NET_LOAD * net_count; uart_irq_load = UART_LOAD * uart_count
                in bind_res (if sint net_irq_load > sint uart_irq_load
                             then enable_two root (iq_plic s) 8 10 v m1
                             else enable_two root (iq_plic s) 10 8 v m1) (\<lambda>m2.
                   bind_res (strategy_create ev me now te) (\<lambda>te'.
                     Ok (s\<lparr>iq_regs := m2, IRQ_COUNT := c\<rparr>, te'))))
           | _ \<Rightarrow> Panicked))"

fun cpu_loads :: "string option \<Rightarrow> 'dev PLICInner \<Rightarrow> u8 list \<Rightarrow> (usize \<rightharpoonup> u8) \<Rightarrow> usize list \<Rightarrow> regs \<Rightarrow>
    ((usize \<times> u32) list \<times> regs) res" where
  "cpu_loads root p counts prios [] m = Ok ([], m)"
| "cpu_loads root p counts prios (i # cpus) m =
     bind_res (ic_disable root p i 10 m) (\<lambda>m1.
     bind_res (ic_disable root p i 8 m1) (\<lambda>m2.
       if unat i < length counts
       then case prios i of
              None \<Rightarrow> Panicked
            | Some pri \<Rightarrow>
                (let cur_load = ucast (counts ! unat i) OR push_bit 16 (ucast pri)
                 in bind_res (cpu_loads root p counts prios cpus m2) (\<lambda>(ls, m3). Ok ((i, cur_load) # ls, m3)))
       else Panicked))"

definition min_count_cpu_strategy_event :: "bool \<Rightarrow> string option \<Rightarrow> usize \<Rightarrow> nat \<Rightarrow> (usize \<Rightarrow> 'fut Runtime) \<Rightarrow>
    'f TimedEventHandler \<Rightarrow> ('dev, 'w) irq_state \<Rightarrow> 'f te_state \<Rightarrow> (('dev, 'w) irq_state \<times> 'f te_state) res" where
  "min_count_cpu_strategy_event present root me now runtimes ev s te =
     (if \<not> present then Panicked
      else case INTERRUPT_COUNT s of
             None \<Rightarrow> Panicked
           | Some counts \<Rightarrow>
               bind_res (cpu_loads root (iq_plic s) counts (map_of (cpu_task_priority runtimes)) cpu_ids (iq_regs s)) (\<lambda>(ls, m1).
               bind_res (enable_two root (iq_plic s) 8 10 (sort_key snd ls) m1) (\<lambda>m2.
               bind_res (strategy_create ev me now te) (\<lambda>te'.
                 Ok (s\<lparr>iq_regs := m2\<rparr>, te')))))"

definition rotate_strategy :: "bool \<Rightarrow> string option \<Rightarrow> ('dev, 'w) irq_state \<Rightarrow> ('dev, 'w) irq_state res" where
  "rotate_strategy present root s =
     (if \<not> present then Panicked
      else bind_res (ic_disable root (iq_plic s) ((ROTATE_INDEX s + of_nat DISPATCH_CPU_COUNT - 1) mod of_nat DISPATCH_CPU_COUNT) 10 (iq_regs s)) (\<lambda>m1.
           bind_res (ic_enable root (iq_plic s) (ROTATE_INDEX s + 0) 10 m1) (\<lambda>m2.
             Ok (s\<lparr>iq_regs := m2, ROTATE_INDEX := (ROTATE_INDEX s + 1) mod of_nat DISPATCH_CPU_COUNT\<rparr>))))"

section \<open>Facts\<close>

text \<open>A controller whose register blocks follow one base address, and the enable bit of an
  interrupt for a context.\<close>

definition plic_at :: "usize \<Rightarrow> 'dev PLICInner \<Rightarrow> bool" where
  "plic_at base p \<longleftrightarrow> pl_priority_base p = base \<and> pl_enable_base p = base + 0x2000 \<and> pl_context_base p = base + 0x200000"

definition enabled :: "'dev PLICInner \<Rightarrow> regs \<Rightarrow> usize \<Rightarrow> usize \<Rightarrow> bool" where
  "enabled p m context_id irq_num \<longleftrightarrow> bit (m (enable_reg p context_id irq_num)) (unat (irq_num mod 32))"

lemma plic_new_at: "plic_new base n m = Ok (p, m') \<Longrightarrow> plic_at base p"
  by (auto simp: plic_new_def Mmio_from_base_def plic_at_def PLIC_PRIORITY_BASE_def PLIC_ENABLE_BASE_def
      PLIC_CONTEXT_BASE_def bind_res_def Let_def split: if_splits)

lemma plic_strides: "PLIC_ENABLE_CONTEXT_OFFSET = 32" "PLIC_CONTEXT_HART_OFFSET = 1024" "PLIC_CONTEXT_CLAIM = 1"
  by (simp_all add: PLIC_ENABLE_CONTEXT_OFFSET_def PLIC_CONTEXT_HART_OFFSET_def PLIC_CONTEXT_CLAIM_def
      word_unat_eq_iff unat_div)

lemmas plic_offsets = Mmio_add_def plic_strides PLIC_CONTEXT_THRESHOLD_def

lemma block_offset_eq: "b < 32 \<Longrightarrow> d < 32 \<Longrightarrow> 0x2000 + 4 * (32 * a + b) = 0x2000 + 4 * (32 * c + d) \<longleftrightarrow> a = c \<and> b = d"
  for a b c d :: nat
  by (cases a c rule: linorder_cases) auto

lemma div32_less: "(irq :: usize) < 1024 \<Longrightarrow> unat (irq div 32) < 32"
  by (simp add: word_less_nat_alt unat_div)

lemma enable_reg_offset:
  assumes "plic_at base p" "ctx < 15872" "irq < 1024"
  shows "\<exists>k. enable_reg p ctx irq = base + of_nat k \<and> k = 0x2000 + 4 * (32 * unat ctx + unat (irq div 32)) \<and> k < 0x200000"
proof -
  have "unat ctx < 15872" using assms(2) by (simp add: word_less_nat_alt)
  moreover note div32_less [OF assms(3)]
  moreover have "enable_reg p ctx irq = base + of_nat (0x2000 + 4 * (32 * unat ctx + unat (irq div 32)))"
    using assms(1) by (simp add: enable_reg_def plic_at_def plic_offsets algebra_simps)
  ultimately show ?thesis by (intro exI [of _ "0x2000 + 4 * (32 * unat ctx + unat (irq div 32))"]) simp
qed

lemma of_nat_inj_small: "a < 2 ^ 64 \<Longrightarrow> b < 2 ^ 64 \<Longrightarrow> (of_nat a :: usize) = of_nat b \<longleftrightarrow> a = b"
  by (auto simp: word_unat_eq_iff unat_of_nat take_bit_nat_eq_self)

lemma enable_reg_inj:
  assumes "plic_at base p" "ctx < 15872" "irq < 1024" "ctx' < 15872" "irq' < 1024"
  shows "enable_reg p ctx irq = enable_reg p ctx' irq' \<longleftrightarrow> ctx = ctx' \<and> irq div 32 = irq' div 32"
proof -
  obtain k where k: "enable_reg p ctx irq = base + of_nat k" "k = 0x2000 + 4 * (32 * unat ctx + unat (irq div 32))" "k < 0x200000"
    using enable_reg_offset [OF assms(1,2,3)] by blast
  obtain j where j: "enable_reg p ctx' irq' = base + of_nat j" "j = 0x2000 + 4 * (32 * unat ctx' + unat (irq' div 32))" "j < 0x200000"
    using enable_reg_offset [OF assms(1,4,5)] by blast
  have "enable_reg p ctx irq = enable_reg p ctx' irq' \<longleftrightarrow> k = j"
    using k(1,3) j(1,3) of_nat_inj_small [of k j] by simp
  also have "\<dots> \<longleftrightarrow> unat ctx = unat ctx' \<and> unat (irq div 32) = unat (irq' div 32)"
    using k(2) j(2) block_offset_eq [OF div32_less [OF assms(3)] div32_less [OF assms(5)], of "unat ctx" "unat ctx'"] by (simp only:)
  finally show ?thesis by (simp add: word_unat_eq_iff)
qed

lemma threshold_not_enable:
  assumes "plic_at base p" "ctx < 15872" "ctx' < 15872" "irq < 1024"
  shows "threshold_reg p ctx \<noteq> enable_reg p ctx' irq"
proof -
  obtain j where j: "enable_reg p ctx' irq = base + of_nat j" "j < 0x200000"
    using enable_reg_offset [OF assms(1,3,4)] by blast
  have "unat ctx < 15872" using assms(2) by (simp add: word_less_nat_alt)
  then have lt: "0x200000 + 0x1000 * unat ctx < 2 ^ 64" by simp
  have "threshold_reg p ctx = base + of_nat (0x200000 + 0x1000 * unat ctx)"
    using assms(1) by (simp add: threshold_reg_def plic_at_def plic_offsets algebra_simps)
  then show ?thesis using j lt of_nat_inj_small [of "0x200000 + 0x1000 * unat ctx" j] by simp
qed

lemma irq_eq_iff: "(irq :: usize) = irq' \<longleftrightarrow> irq div 32 = irq' div 32 \<and> unat (irq mod 32) = unat (irq' mod 32)"
  by (metis word_mod_div_equality word_unat_eq_iff mult.commute)

lemma bit_mod32: "unat ((irq :: usize) mod 32) < 32"
  by (simp add: unat_mod)

lemma bit_selector: "bit (push_bit (unat ((irq :: usize) mod 32)) 1 :: u32) (unat (irq' mod 32)) \<longleftrightarrow> unat (irq mod 32) = unat (irq' mod 32)"
  for irq' :: usize
  using bit_mod32 [of irq'] by (auto simp: bit_push_bit_iff bit_1_iff simp del: push_bit_of_1)

lemma enabled_enable:
  assumes "plic_at base p" "ctx < 15872" "irq < 1024" "ctx' < 15872" "irq' < 1024"
  shows "enabled p (plic_enable p ctx irq m) ctx' irq' \<longleftrightarrow> (ctx' = ctx \<and> irq' = irq) \<or> enabled p m ctx' irq'"
  using enable_reg_inj [OF assms] bit_mod32 [of irq] bit_mod32 [of irq']
  by (auto simp: enabled_def plic_enable_def Let_def bit_or_iff bit_selector irq_eq_iff [of irq' irq]
      simp del: push_bit_of_1)

lemma enabled_disable:
  assumes "plic_at base p" "ctx < 15872" "irq < 1024" "ctx' < 15872" "irq' < 1024"
  shows "enabled p (plic_disable p ctx irq m) ctx' irq' \<longleftrightarrow> \<not> (ctx' = ctx \<and> irq' = irq) \<and> enabled p m ctx' irq'"
  using enable_reg_inj [OF assms] bit_mod32 [of irq] bit_mod32 [of irq']
  by (auto simp: enabled_def plic_disable_def Let_def bit_and_iff bit_not_iff bit_selector irq_eq_iff [of irq' irq]
      simp del: push_bit_of_1)

lemma enabled_threshold:
  assumes "plic_at base p" "ctx < 15872" "ctx' < 15872" "irq' < 1024"
  shows "enabled p (plic_set_threshold p ctx t m) ctx' irq' \<longleftrightarrow> enabled p m ctx' irq'"
  using threshold_not_enable [OF assms] by (simp add: enabled_def plic_set_threshold_def)

subsection \<open>The enable bits as a set\<close>

text \<open>Seen from outside, the enable registers hold a set of pairs of a context and an interrupt.
  The locale states what a client may rely on.\<close>

locale enable_bits =
  fixes en dis :: "'p \<Rightarrow> 'x \<Rightarrow> 'm \<Rightarrow> 'm"
    and bits :: "'p \<Rightarrow> 'm \<Rightarrow> 'x set"
    and valid :: "'p \<Rightarrow> 'x \<Rightarrow> bool"
  assumes en_bits: "valid p x \<Longrightarrow> bits p (en p x m) = insert x (bits p m)"
    and dis_bits: "valid p x \<Longrightarrow> bits p (dis p x m) = bits p m - {x}"
begin

lemma fold_dis_bits: "\<forall>x\<in>set xs. valid p x \<Longrightarrow> bits p (fold (dis p) xs m) = bits p m - set xs"
  by (induction xs arbitrary: m) (auto simp: dis_bits)

lemma fold_en_bits: "\<forall>x\<in>set xs. valid p x \<Longrightarrow> bits p (fold (en p) xs m) = bits p m \<union> set xs"
  by (induction xs arbitrary: m) (auto simp: en_bits)

lemma reroute_bits:
  assumes "\<forall>x\<in>set xs. valid p x" "\<forall>x\<in>set ys. valid p x"
  shows "bits p (fold (en p) ys (fold (dis p) xs m)) = (bits p m - set xs) \<union> set ys"
  by (simp add: fold_en_bits [OF assms(2)] fold_dis_bits [OF assms(1)])

end

definition enabled_set :: "'dev PLICInner \<Rightarrow> regs \<Rightarrow> (usize \<times> usize) set" where
  "enabled_set p m = {(c, i). c < 15872 \<and> i < 1024 \<and> enabled p m c i}"

definition valid_irq :: "'dev PLICInner \<Rightarrow> usize \<times> usize \<Rightarrow> bool" where
  "valid_irq p x \<longleftrightarrow> plic_at (pl_priority_base p) p \<and> fst x < 15872 \<and> snd x < 1024"

definition en_pair :: "'dev PLICInner \<Rightarrow> usize \<times> usize \<Rightarrow> regs \<Rightarrow> regs" where
  "en_pair p x m = plic_set_threshold p (fst x) 0 (plic_enable p (fst x) (snd x) m)"

definition dis_pair :: "'dev PLICInner \<Rightarrow> usize \<times> usize \<Rightarrow> regs \<Rightarrow> regs" where
  "dis_pair p x m = plic_disable p (fst x) (snd x) m"

interpretation eb: enable_bits en_pair dis_pair enabled_set valid_irq
  by unfold_locales
    (auto simp: valid_irq_def en_pair_def dis_pair_def enabled_set_def enabled_threshold enabled_enable enabled_disable)

lemma plic_at_valid: "plic_at base p \<Longrightarrow> ctx < 15872 \<Longrightarrow> irq < 1024 \<Longrightarrow> valid_irq p (ctx, irq)"
  by (simp add: valid_irq_def plic_at_def)

subsection \<open>Contexts\<close>

abbreviation virtio_root :: "string option" where
  "virtio_root \<equiv> Some ''riscv-virtio''"

definition plic_ctx :: "usize \<Rightarrow> usize" where
  "plic_ctx cpu_id = cpu_id * 2 + 1"

lemma virtio_context: "get_context_id virtio_root cpu_id = Ok (plic_ctx cpu_id)"
  by (simp add: get_context_id_def plic_ctx_def)

lemma ic_ops_virtio [simp]:
  "ic_enable virtio_root p c i m = Ok (en_pair p (plic_ctx c, i) m)"
  "ic_disable virtio_root p c i m = Ok (dis_pair p (plic_ctx c, i) m)"
  by (simp_all add: ic_enable_def ic_disable_def virtio_context en_pair_def dis_pair_def)

lemma disable_irqs_virtio:
  "disable_irqs virtio_root p cpus m = Ok (fold (dis_pair p) (concat (map (\<lambda>c. [(plic_ctx c, 10), (plic_ctx c, 8)]) cpus)) m)"
  by (induction cpus arbitrary: m) simp_all

lemma cpu_ids_eq: "cpu_ids = [0, 1, 2, 3, 4]"
  by (simp add: cpu_ids_def DISPATCH_CPU_COUNT_def upt_rec)

lemma plic_ctx_cpu_ids: "c \<in> set cpu_ids \<Longrightarrow> plic_ctx c < 15872"
  by (auto simp: cpu_ids_eq plic_ctx_def)

lemma set_map_filter_fst: "(c, q) \<in> set (List.map_filter (\<lambda>c. map_option (Pair c) (f c)) cs) \<Longrightarrow> c \<in> set cs"
  by (induction cs) (auto simp: List.map_filter_simps split: option.splits)

lemma distinct_map_filter_fst: "distinct cs \<Longrightarrow> distinct (map fst (List.map_filter (\<lambda>c. map_option (Pair c) (f c)) cs))"
proof (induction cs)
  case (Cons c cs)
  then show ?case
    using set_map_filter_fst [of _ _ f cs] by (force simp: List.map_filter_simps split: option.splits)
qed (simp add: List.map_filter_simps)

lemma cpu_task_priority_eq:
  "cpu_task_priority rts = List.map_filter (\<lambda>c. map_option (Pair c)
     (case running_task_priority (rts c) of Ok (Ok q) \<Rightarrow> Some q | _ \<Rightarrow> None)) cpu_ids"
  unfolding cpu_task_priority_def by (rule arg_cong2 [of _ _ _ _ List.map_filter]) (auto split: sum.splits)

lemma cpu_task_priority_cpus:
  "(c, q) \<in> set (cpu_task_priority rts) \<Longrightarrow> c \<in> set cpu_ids" "distinct (map fst (cpu_task_priority rts))"
  unfolding cpu_task_priority_eq
  by (erule set_map_filter_fst) (rule distinct_map_filter_fst, simp add: cpu_ids_eq)

text \<open>The first two of the processors sorted by a key are the two with the least keys.\<close>

lemma sort_two_least:
  assumes "sort_key snd v = (c0, q0) # (c1, q1) # rest" "distinct (map fst v)"
  shows "c0 \<noteq> c1" "(c0, q0) \<in> set v" "(c1, q1) \<in> set v" "q0 \<le> q1" "\<forall>(c, q)\<in>set v. c \<noteq> c0 \<longrightarrow> q1 \<le> q"
proof -
  have srt: "sorted (map snd ((c0, q0) # (c1, q1) # rest))" using sorted_sort_key [of snd v] by (simp only: assms(1))
  have st: "set v = set ((c0, q0) # (c1, q1) # rest)" using set_sort [of snd v] by (simp only: assms(1))
  have "mset (map fst (sort_key snd v)) = mset (map fst v)" by (simp add: mset_map)
  then have "distinct (map fst (sort_key snd v))" using assms(2) mset_eq_imp_distinct_iff by blast
  then show "c0 \<noteq> c1" by (simp add: assms(1))
  show "(c0, q0) \<in> set v" "(c1, q1) \<in> set v" "q0 \<le> q1" "\<forall>(c, q)\<in>set v. c \<noteq> c0 \<longrightarrow> q1 \<le> q"
    using srt by (auto simp: st)
qed

lemma strategy_create_ok:
  assumes "now + 1000000000 \<le> Duration_MAX" "te_serial te \<noteq> -1"
  shows "\<exists>te'. strategy_create ev me now te = Ok te' \<and>
    registered te' me (te_serial te + 1) \<and> te_deref te' (TimedEventTracker (te_serial te + 1)) =
      \<lparr>ev_id = te_serial te + 1, ev_cpu_id = me, ev_time = now + 1000000000, ev_status = Pending, ev_handler = Some ev\<rparr>"
  using assms by (auto simp: strategy_create_def TIME_INTERVAL_def te_create_def serial_new_def Let_def registered_def teq_add_def te_deref_def)

subsection \<open>A concrete machine\<close>

text \<open>A machine of five processors, three of which run a task, and a controller at the address
  of the \<^verbatim>\<open>virt\<close> machine.\<close>

definition demo_runtime :: "u8 \<Rightarrow> nat Runtime" where
  "demo_runtime q = rt_new\<lparr>rt_status := Rt_Running 2, rt_registry := [2 \<mapsto> \<lparr>is_id = 2, is_status = Is_Running 3,
     is_registry = [3 \<mapsto> (blank_executor 3 ExecutorPriority_default (VirtAddr 0) sc_default)\<lparr>ex_current_task_priority := TaskPriority_new q\<rparr>],
     is_queue = fpql_new\<rparr>]\<rparr>"

definition demo_runtimes :: "usize \<Rightarrow> nat Runtime" where
  "demo_runtimes c = (if c = 0 then demo_runtime 9 else if c = 2 then demo_runtime 4 else if c = 3 then demo_runtime 7 else rt_new)"

definition demo_plic :: "nat PLICInner" where
  "demo_plic = \<lparr>pl_priority_base = 0xC000000, pl_enable_base = 0xC002000, pl_context_base = 0xC200000,
     pl_irq_manager = im_new IRQ_RANGE\<rparr>"

definition demo_irq :: "(nat, nat) irq_state" where
  "demo_irq = \<lparr>iq_plic = demo_plic, iq_regs = (\<lambda>_. 0), iq_completed = [], IRQ_COUNT = [8 \<mapsto> 3, 10 \<mapsto> 7],
     INTERRUPT_COUNT = Some (replicate 5 0), ROTATE_INDEX = 0, iq_devices = 40\<rparr>"

lemma demo_plic_at: "plic_at 0xC000000 demo_plic" "plic_at 0xC000000 (iq_plic demo_irq)"
  by (simp_all add: plic_at_def demo_plic_def demo_irq_def)

lemma running_task_priority_demo:
  "running_task_priority (demo_runtime q) = Ok (Ok q)" "running_task_priority (rt_new :: nat Runtime) = Fail InvalidRuntimeStatus"
  by (simp_all add: running_task_priority_def with_spec_cpu_def demo_runtime_def with_inspector_def is_with_executor_def rt_new_def
      u8_of_TaskPriority_def TaskPriority_new_def FastPriority_new_def)

lemma demo_priorities: "sort_key snd (cpu_task_priority demo_runtimes) = [(2, 4), (3, 7), (0, 9)]"
  by (simp add: cpu_task_priority_def cpu_ids_eq demo_runtimes_def running_task_priority_demo List.map_filter_simps)

subsection \<open>Properties\<close>

text \<open>C20. The enable registers of the controller implement a set: \<^verbatim>\<open>enable\<close> adds exactly the pair of
  the context and the interrupt, \<^verbatim>\<open>disable\<close> removes exactly that pair, and neither the other 31
  interrupts of the same register, nor the registers of another context, nor the threshold registers are
  affected or affect it; for every controller that \<^verbatim>\<open>Plic::new\<close> builds, all 1024 interrupts and all
  15872 contexts.\<close>

theorem plic_enable_refines_set:
  assumes "plic_new base n m0 = Ok (p, m1)" "ctx < 15872" "irq < 1024"
  shows "enabled_set p (plic_enable p ctx irq m) = insert (ctx, irq) (enabled_set p m) \<and>
    enabled_set p (plic_disable p ctx irq m) = enabled_set p m - {(ctx, irq)} \<and>
    enabled_set p (plic_set_threshold p ctx t m) = enabled_set p m"
  using plic_new_at [OF assms(1)] assms(2,3)
  by (auto simp: enabled_set_def enabled_enable enabled_disable enabled_threshold)

theorem plic_enable_refines_set_witness:
  "\<exists>p m1. plic_new 0xC000000 9 (\<lambda>_. 0) = Ok (p :: unit PLICInner, m1) \<and>
     enabled_set p (plic_enable p 3 10 (plic_disable p 3 8 m1)) = insert (3, 10) (enabled_set p m1 - {(3, 8)})"
proof -
  have "\<exists>p m1. plic_new 0xC000000 9 (\<lambda>_. 0) = Ok (p :: unit PLICInner, m1)"
    by (simp add: plic_new_def Mmio_from_base_def PLIC_PRIORITY_BASE_def PLIC_ENABLE_BASE_def
        PLIC_CONTEXT_BASE_def word_mod_def Let_def)
  then obtain p :: "unit PLICInner" and m1 where p: "plic_new 0xC000000 9 (\<lambda>_. 0) = Ok (p, m1)" by blast
  then show ?thesis
    using plic_enable_refines_set [OF p, of 3 10 "plic_disable p 3 8 m1"]
      plic_enable_refines_set [OF p, of 3 8 m1] by auto
qed

text \<open>C21. The minimal-load strategy on a machine where at least two processors run a task: the
  handler returns; of the five processors exactly one is left with the network interrupt (8) and exactly
  one with the serial interrupt (10), every other enable bit keeps its value; the two processors are
  different and are the two whose tasks are least urgent to disturb (lowest priority value), the
  lower one serving the interrupt that loaded the system more in the last interval (a network interrupt
  counts four times); both counters start again at zero; and the strategy is armed again on this
  processor one second later.\<close>

theorem min_load_routes:
  assumes "plic_at base (iq_plic s)" "IRQ_COUNT s 8 = Some net" "IRQ_COUNT s 10 = Some uart"
    and v: "sort_key snd (cpu_task_priority rts) = (c0, q0) # (c1, q1) # rest"
    and "now + 1000000000 \<le> Duration_MAX" "te_serial te \<noteq> -1"
  shows "\<exists>s' te'. min_load_strategy_event True virtio_root me now rts ev s te = Ok (s', te') \<and>
    enabled_set (iq_plic s) (iq_regs s') =
      (enabled_set (iq_plic s) (iq_regs s) - {plic_ctx c | c. c \<in> set cpu_ids} \<times> {8, 10}) \<union>
      (if sint (4 * net) > sint uart then {(plic_ctx c0, 8), (plic_ctx c1, 10)} else {(plic_ctx c0, 10), (plic_ctx c1, 8)}) \<and>
    c0 \<noteq> c1 \<and> q0 \<le> q1 \<and> (\<forall>(c, q)\<in>set (cpu_task_priority rts). c \<noteq> c0 \<longrightarrow> q1 \<le> q) \<and>
    IRQ_COUNT s' 8 = Some 0 \<and> IRQ_COUNT s' 10 = Some 0 \<and>
    registered te' me (te_serial te + 1) \<and> ev_time (te_deref te' (TimedEventTracker (te_serial te + 1))) = now + 1000000000"
proof -
  let ?p = "iq_plic s" and ?heavy = "sint (4 * net) > sint uart"
  define xs where "xs = concat (map (\<lambda>c. [(plic_ctx c, 10), (plic_ctx c, 8 :: usize)]) cpu_ids)"
  define ys where "ys = (if ?heavy then [(plic_ctx c0, 8), (plic_ctx c1, 10)] else [(plic_ctx c0, 10), (plic_ctx c1, 8 :: usize)])"
  note two = sort_two_least [OF v cpu_task_priority_cpus(2)]
  obtain te' where te': "strategy_create ev me now te = Ok te'" "registered te' me (te_serial te + 1)"
    "ev_time (te_deref te' (TimedEventTracker (te_serial te + 1))) = now + 1000000000"
    using strategy_create_ok [OF assms(5,6), of ev me] by auto
  have cpus: "c0 \<in> set cpu_ids" "c1 \<in> set cpu_ids" using two(2,3) cpu_task_priority_cpus(1) by blast+
  have "\<forall>x\<in>set xs. valid_irq ?p x" "\<forall>x\<in>set ys. valid_irq ?p x"
    using cpus by (auto simp: xs_def ys_def intro!: plic_at_valid [OF assms(1)] plic_ctx_cpu_ids)
  then have bits: "enabled_set ?p (fold (en_pair ?p) ys (fold (dis_pair ?p) xs (iq_regs s))) =
      (enabled_set ?p (iq_regs s) - set xs) \<union> set ys"
    by (rule eb.reroute_bits)
  have run: "min_load_strategy_event True virtio_root me now rts ev s te =
      Ok (s\<lparr>iq_regs := fold (en_pair ?p) ys (fold (dis_pair ?p) xs (iq_regs s)), IRQ_COUNT := (IRQ_COUNT s)(8 \<mapsto> 0, 10 \<mapsto> 0)\<rparr>, te')"
    using te'(1) by (simp add: min_load_strategy_event_def disable_irqs_virtio xs_def ys_def assms(2,3) v enable_two_def
        Let_def NET_LOAD_def UART_LOAD_def)
  have "set xs = {plic_ctx c | c. c \<in> set cpu_ids} \<times> {8, 10}" by (auto simp: xs_def)
  moreover have "set ys = (if ?heavy then {(plic_ctx c0, 8), (plic_ctx c1, 10)} else {(plic_ctx c0, 10), (plic_ctx c1, 8)})"
    by (simp add: ys_def)
  ultimately show ?thesis using run bits two te'(2,3) by (auto simp del: fun_upd_apply simp: fun_upd_def)
qed

theorem min_load_routes_witness:
  "\<exists>s' te'. min_load_strategy_event True virtio_root 0 0 demo_runtimes \<lparr>h_timeout = 5, h_cancel = 6 :: nat\<rparr> demo_irq te_start = Ok (s', te') \<and>
     enabled_set (iq_plic demo_irq) (iq_regs s') =
       (enabled_set (iq_plic demo_irq) (iq_regs demo_irq) - {plic_ctx c | c. c \<in> set cpu_ids} \<times> {8, 10}) \<union> {(5, 8), (7, 10)}"
proof -
  have c: "IRQ_COUNT demo_irq 8 = Some 3" "IRQ_COUNT demo_irq 10 = Some 7" by (simp_all add: demo_irq_def)
  have t: "(0 :: nat) + 1000000000 \<le> Duration_MAX" "te_serial te_start \<noteq> -1" by (simp_all add: Duration_MAX_def te_start_def)
  show ?thesis
    using min_load_routes [OF demo_plic_at(2) c demo_priorities t, of 0 "\<lparr>h_timeout = 5, h_cancel = 6 :: nat\<rparr>"]
    by (auto simp: plic_ctx_def)
qed

text \<open>With fewer than two processors running a task the minimal-load strategy panics: it
  indexes the list of running processors at 0 and 1 without a check.\<close>

theorem min_load_panics:
  assumes "length (cpu_task_priority rts) < 2" "IRQ_COUNT s 8 = Some net" "IRQ_COUNT s 10 = Some uart"
  shows "min_load_strategy_event True virtio_root me now rts ev s te = Panicked"
proof -
  let ?v = "sort_key snd (cpu_task_priority rts)"
  have "length ?v < 2" using assms(1) by simp
  then have "?v = [] \<or> (\<exists>x. ?v = [x])" by (cases ?v; cases "tl ?v") simp_all
  then show ?thesis
    using assms(2,3) by (auto simp: min_load_strategy_event_def disable_irqs_virtio enable_two_def Let_def split: prod.splits)
qed

theorem min_load_panics_witness:
  "min_load_strategy_event True virtio_root 0 0 (\<lambda>_. rt_new :: nat Runtime) \<lparr>h_timeout = 5, h_cancel = 6 :: nat\<rparr> demo_irq te_start = Panicked"
  by (rule min_load_panics [of _ _ 3 7])
    (simp_all add: cpu_task_priority_def cpu_ids_eq running_task_priority_demo List.map_filter_simps demo_irq_def)

text \<open>\<^verbatim>\<open>disable_all\<close> of a context clears the enable bits of one register in four only: the bits
  of interrupts 32 to 127, 160 to 255 and so on keep their value.\<close>

theorem plic_disable_all_skips:
  assumes "plic_at base p" "ctx < 15872" "irq < 1024"
  shows "enabled p (plic_disable_all p ctx m) ctx irq \<longleftrightarrow> enabled p m ctx irq \<and> irq div 32 mod 4 \<noteq> 0"
proof -
  define addr where "addr i = Mmio_add (pl_enable_base p) (ctx * PLIC_ENABLE_CONTEXT_OFFSET + of_nat i * 4)" for i :: nat
  have fold_upd: "fold (\<lambda>i m. m(addr i := 0)) is m a = (if a \<in> addr ` set is then 0 else m a)" for "is" m a
    by (induction "is" arbitrary: m) auto
  have uc: "unat ctx < 15872" using assms(2) by (simp add: word_less_nat_alt)
  obtain k where k: "enable_reg p ctx irq = base + of_nat k" "k = 0x2000 + 4 * (32 * unat ctx + unat (irq div 32))" "k < 0x200000"
    using enable_reg_offset [OF assms] by blast
  have "addr i = base + of_nat (0x2000 + 4 * (32 * unat ctx + i * 4))" for i
    using assms(1) by (simp add: addr_def plic_at_def plic_offsets algebra_simps)
  then have "enable_reg p ctx irq = addr i \<longleftrightarrow> unat (irq div 32) = i * 4" if "i < 128" for i
    using that k uc of_nat_inj_small [of k "0x2000 + 4 * (32 * unat ctx + i * 4)"] by auto
  then have "enable_reg p ctx irq \<in> addr ` set [0..<128] \<longleftrightarrow> (\<exists>i < 128. unat (irq div 32) = i * 4)"
    by (auto simp: image_iff)
  also have "\<dots> \<longleftrightarrow> unat (irq div 32) mod 4 = 0"
    using div32_less [OF assms(3)] by (auto intro!: exI [of _ "unat (irq div 32) div 4"])
  also have "\<dots> \<longleftrightarrow> irq div 32 mod 4 = 0" by (simp add: word_unat_eq_iff unat_mod)
  finally have "enable_reg p ctx irq \<in> addr ` set [0..<128] \<longleftrightarrow> irq div 32 mod 4 = 0" .
  moreover have "plic_disable_all p ctx m = fold (\<lambda>i m. m(addr i := 0)) [0..<128] m"
    by (simp add: plic_disable_all_def addr_def)
  ultimately show ?thesis by (simp add: enabled_def fold_upd)
qed

theorem plic_disable_all_skips_witness:
  "enabled demo_plic (plic_disable_all demo_plic 1 (\<lambda>_. 2)) 1 33 \<and> \<not> enabled demo_plic (plic_disable_all demo_plic 1 (\<lambda>_. 2)) 1 1"
proof -
  have "enabled demo_plic (\<lambda>_. 2) 1 33" "(33 :: usize) div 32 mod 4 \<noteq> 0" "(1 :: usize) div 32 mod 4 = 0"
    by (simp_all add: enabled_def word_unat_eq_iff unat_div unat_mod bit_iff_odd)
  then show ?thesis
    using plic_disable_all_skips [OF demo_plic_at(1), of 1 33 "\<lambda>_. 2"] plic_disable_all_skips [OF demo_plic_at(1), of 1 1 "\<lambda>_. 2"] by simp
qed

lemma intc_handle_registered:
  assumes "im_table (pl_irq_manager (iq_plic s)) irq = Some (Some dev)" "im_contains (pl_irq_manager (iq_plic s)) irq" "irq \<noteq> 0"
    and "ucast (claim (plic_ctx me)) = irq" "IRQ_COUNT s irq = Some n" "INTERRUPT_COUNT s = Some v" "unat me < length v"
    and "drv dev irq (iq_devices s) = (t, w)"
  shows "intc_handle True virtio_root claim drv me s =
    (Ok t, s\<lparr>IRQ_COUNT := (IRQ_COUNT s)(irq \<mapsto> n + 1), iq_devices := w,
             iq_regs := (iq_regs s)(claim_reg (iq_plic s) (plic_ctx me) := ucast irq),
             iq_completed := iq_completed s @ [(plic_ctx me, irq)],
             INTERRUPT_COUNT := Some (v[unat me := v ! unat me + 1])\<rparr>)"
proof -
  have "im_handle_irq drv irq (pl_irq_manager (iq_plic s)) (iq_devices s) = (Ok t, w)"
    using assms(1,2,3,8) by (simp add: im_handle_irq_def)
  then show ?thesis using assms(3-7)
    by (simp add: intc_handle_def plic_handle_irq_def virtio_context end_of_interrupt_def Let_def)
qed

text \<open>An external interrupt of a registered device is served completely: the interrupt is
  claimed, the driver that \<^verbatim>\<open>register_device\<close> stored for it runs exactly once, the interrupt is counted
  for its source and for the processor, and its completion is written to the context that claimed
  it, exactly once and after the driver; the start time the driver reported is the result and
  nothing else changes.\<close>

theorem external_interrupt_served:
  assumes "iq_plic s = fst (ic_register_device irq dev p m)" "im_range (pl_irq_manager p) = IRQ_RANGE" "irq \<noteq> 0" "irq < 1024"
    and "ucast (claim (plic_ctx me)) = irq" "IRQ_COUNT s irq = Some n" "INTERRUPT_COUNT s = Some v" "unat me < length v"
    and "drv dev irq (iq_devices s) = (t, w)"
  shows "intc_handle True virtio_root claim drv me s =
    (Ok t, s\<lparr>IRQ_COUNT := (IRQ_COUNT s)(irq \<mapsto> n + 1), iq_devices := w,
             iq_regs := (iq_regs s)(claim_reg (iq_plic s) (plic_ctx me) := ucast irq),
             iq_completed := iq_completed s @ [(plic_ctx me, irq)],
             INTERRUPT_COUNT := Some (v[unat me := v ! unat me + 1])\<rparr>)"
proof -
  have "1 \<le> irq" using assms(3) by (simp add: word_le_nat_alt unat_gt_0 Suc_le_eq)
  then have "im_table (pl_irq_manager (iq_plic s)) irq = Some (Some dev)" "im_contains (pl_irq_manager (iq_plic s)) irq"
    using assms(1-4) by (simp_all add: ic_register_device_def im_register_device_def im_contains_def IRQ_RANGE_def)
  then show ?thesis using intc_handle_registered [of s irq dev claim me n v drv t w] assms(3,5-9) by blast
qed

theorem external_interrupt_served_witness:
  "(case intc_handle True virtio_root (\<lambda>c. if c = 5 then 8 else 0) (\<lambda>d i w. (d, w + 1)) 2
      (demo_irq\<lparr>iq_plic := fst (ic_register_device 8 77 demo_plic (\<lambda>_. 0))\<rparr>) of
      (r, s) \<Rightarrow> r = Ok 77 \<and> iq_devices s = 41 \<and> iq_completed s = [(5, 8)] \<and> IRQ_COUNT s 8 = Some 4)"
  using external_interrupt_served [of "demo_irq\<lparr>iq_plic := fst (ic_register_device 8 77 demo_plic (\<lambda>_. 0))\<rparr>" 8 77 demo_plic
    "\<lambda>_. 0" "\<lambda>c. if c = 5 then 8 else 0" 2 3 "replicate 5 0" "\<lambda>d i w. (d, w + 1)" 77 41]
  by (simp add: demo_irq_def demo_plic_def im_new_def plic_ctx_def)

text \<open>After \<^verbatim>\<open>init_strategy\<close> only the interrupts 8 and 10 have a counter, and a claimed interrupt
  without one panics before its driver runs and without a completion.\<close>

theorem uncounted_interrupt_panics:
  assumes "init_strategy True virtio_root me s0 = Ok s" "IRQ_COUNT s0 = Map.empty"
    and "ucast (claim (plic_ctx me)) = (irq :: usize)" "irq \<noteq> 0" "irq \<noteq> 8" "irq \<noteq> 10"
  shows "intc_handle True virtio_root claim drv me s = (Panicked, s)"
  using assms by (auto simp: init_strategy_def intc_handle_def plic_handle_irq_def virtio_context Let_def)

theorem uncounted_interrupt_panics_witness:
  "\<exists>s. init_strategy True virtio_root 1 (demo_irq\<lparr>IRQ_COUNT := Map.empty\<rparr>) = Ok s \<and>
     intc_handle True virtio_root (\<lambda>_. 5) (\<lambda>d i w. (d, w)) 1 s = (Panicked, s)"
proof -
  obtain s where s: "init_strategy True virtio_root 1 (demo_irq\<lparr>IRQ_COUNT := Map.empty\<rparr>) = Ok s"
    by (simp add: init_strategy_def)
  then show ?thesis using uncounted_interrupt_panics [OF s, of "\<lambda>_. 5" 5 "\<lambda>d i w. (d, w)"] by simp
qed

end
