(* ===== verification/Net_Buf.thy ===== *)
theory Net_Buf
  imports Jrinx_Prelude "HOL-Library.Multiset"
begin

text \<open>
  Packet buffers and the network card, \<^verbatim>\<open>kern/modules/driver/src/net/net_buf.rs\<close>,
  \<^verbatim>\<open>net/virtio_net.rs\<close> and the device wrapper and tokens of \<^verbatim>\<open>smoltcp_impl/mod.rs\<close>: a pool of
  equal buffers in one allocation, buffers that return to the pool when they are dropped, and the
  driver that keeps buffers in its receive and transmit slots, in a list of free transmit buffers,
  or hands them out. The virtqueue device (crate \<^verbatim>\<open>virtio-drivers\<close>) is a parameter.
\<close>

section \<open>Buffers and the pool\<close>

definition MIN_BUFFER_LEN :: usize where "MIN_BUFFER_LEN = 1526"
definition MAX_BUFFER_LEN :: usize where "MAX_BUFFER_LEN = 65535"

text \<open>All buffers belong to one pool, which is part of the state.\<close>

record NetBuf =
  nb_header_len :: usize
  nb_packet_len :: usize
  nb_capacity :: usize
  nb_buf_ptr :: usize
  nb_pool_offset :: usize

type_synonym mem = "usize \<Rightarrow> u8"

definition get_slice :: "mem \<Rightarrow> NetBuf \<Rightarrow> usize \<Rightarrow> usize \<Rightarrow> u8 list" where
  "get_slice m b start len = map (\<lambda>i. m (nb_buf_ptr b + start + of_nat i)) [0..<unat len]"

definition nb_header :: "mem \<Rightarrow> NetBuf \<Rightarrow> u8 list" where
  "nb_header m b = get_slice m b 0 (nb_header_len b)"

definition nb_packet :: "mem \<Rightarrow> NetBuf \<Rightarrow> u8 list" where
  "nb_packet m b = get_slice m b (nb_header_len b) (nb_packet_len b)"

definition packet_with_header :: "mem \<Rightarrow> NetBuf \<Rightarrow> u8 list" where
  "packet_with_header m b = get_slice m b 0 (nb_header_len b + nb_packet_len b)"

definition raw_buf :: "mem \<Rightarrow> NetBuf \<Rightarrow> u8 list" where
  "raw_buf m b = get_slice m b 0 (nb_capacity b)"

definition set_header_len :: "usize \<Rightarrow> NetBuf \<Rightarrow> NetBuf" where
  "set_header_len header_len b = b\<lparr>nb_header_len := header_len\<rparr>"

definition set_packet_len :: "usize \<Rightarrow> NetBuf \<Rightarrow> NetBuf" where
  "set_packet_len packet_len b = b\<lparr>nb_packet_len := packet_len\<rparr>"

text \<open>A buffer given away as a raw pointer: the pointer stands for the box it was made from.\<close>

record NetBufPtr =
  ptr_raw_ptr :: NetBuf
  ptr_buf_ptr :: usize
  ptr_len :: usize

definition into_buf_ptr :: "NetBuf \<Rightarrow> NetBufPtr" where
  "into_buf_ptr b = \<lparr>ptr_raw_ptr = b, ptr_buf_ptr = nb_buf_ptr b + nb_header_len b, ptr_len = nb_packet_len b\<rparr>"

definition from_buf_ptr :: "NetBufPtr \<Rightarrow> NetBuf" where
  "from_buf_ptr p = ptr_raw_ptr p"

definition ptr_packet :: "mem \<Rightarrow> NetBufPtr \<Rightarrow> u8 list" where
  "ptr_packet m p = map (\<lambda>i. m (ptr_buf_ptr p + of_nat i)) [0..<unat (ptr_len p)]"

record NetBufPool =
  np_capacity :: usize
  np_buf_len :: usize
  np_pool :: usize
  np_free_list :: "usize list"

text \<open>\<^verbatim>\<open>pool\<close> is the address of the allocation, which is assumed to succeed.\<close>

definition pool_new :: "usize \<Rightarrow> usize \<Rightarrow> usize \<Rightarrow> NetBufPool res" where
  "pool_new pool capacity buf_len =
     (if capacity = 0 then Fail InvalidParam
      else if \<not> (MIN_BUFFER_LEN \<le> buf_len \<and> buf_len \<le> MAX_BUFFER_LEN) then Fail InvalidParam
      else Ok \<lparr>np_capacity = capacity, np_buf_len = buf_len, np_pool = pool,
               np_free_list = map (\<lambda>i. of_nat i * buf_len) [0..<unat capacity]\<rparr>)"

definition pool_alloc :: "NetBufPool \<Rightarrow> (NetBuf \<times> NetBufPool) option" where
  "pool_alloc np =
     (if np_free_list np = [] then None
      else (let pool_offset = last (np_free_list np)
            in Some (\<lparr>nb_header_len = 0, nb_packet_len = 0, nb_capacity = np_buf_len np,
                      nb_buf_ptr = np_pool np + pool_offset, nb_pool_offset = pool_offset\<rparr>,
                     np\<lparr>np_free_list := butlast (np_free_list np)\<rparr>)))"

definition pool_dealloc :: "usize \<Rightarrow> NetBufPool \<Rightarrow> NetBufPool" where
  "pool_dealloc pool_offset np = np\<lparr>np_free_list := np_free_list np @ [pool_offset]\<rparr>"

definition nb_drop :: "NetBuf \<Rightarrow> NetBufPool \<Rightarrow> NetBufPool" where
  "nb_drop b np = pool_dealloc (nb_pool_offset b) np"

section \<open>The driver\<close>

definition NET_BUF_LEN :: usize where "NET_BUF_LEN = 1526"
definition QS :: nat where "QS = 64"

text \<open>The functions of \<^verbatim>\<open>VirtIONetRaw\<close> on its state; a buffer is passed as address and length, and
  a failing function returns \<^verbatim>\<open>None\<close>.\<close>

record 'd raw_api =
  raw_receive_begin :: "usize \<times> usize \<Rightarrow> 'd \<Rightarrow> (u16 \<times> 'd) option"
  raw_poll_receive :: "'d \<Rightarrow> u16 option"
  raw_receive_complete :: "u16 \<Rightarrow> usize \<times> usize \<Rightarrow> 'd \<Rightarrow> ((usize \<times> usize) \<times> 'd) option"
  raw_fill_buffer_header :: "usize \<times> usize \<Rightarrow> 'd \<Rightarrow> usize option"
  raw_can_send :: "'d \<Rightarrow> bool"
  raw_transmit_begin :: "usize \<times> usize \<Rightarrow> 'd \<Rightarrow> (u16 \<times> 'd) option"
  raw_poll_transmit :: "'d \<Rightarrow> u16 option"
  raw_transmit_complete :: "u16 \<Rightarrow> usize \<times> usize \<Rightarrow> 'd \<Rightarrow> 'd option"

record 'd VirtIoNetInner =
  vn_rx_buffers :: "NetBuf option list"
  vn_tx_buffers :: "NetBuf option list"
  vn_free_tx_bufs :: "NetBuf list"
  vn_buf_pool :: NetBufPool
  vn_raw :: 'd

definition raw_range :: "NetBuf \<Rightarrow> usize \<times> usize" where
  "raw_range b = (nb_buf_ptr b, nb_capacity b)"

definition packet_range :: "NetBuf \<Rightarrow> usize \<times> usize" where
  "packet_range b = (nb_buf_ptr b, nb_header_len b + nb_packet_len b)"

fun fill_rx :: "'d raw_api \<Rightarrow> nat list \<Rightarrow> 'd VirtIoNetInner \<Rightarrow> 'd VirtIoNetInner res" where
  "fill_rx api [] dev = Ok dev"
| "fill_rx api (i # rest) dev =
     (case pool_alloc (vn_buf_pool dev) of
        None \<Rightarrow> Fail NotEnoughMem
      | Some (rx_buf, np) \<Rightarrow>
          (case raw_receive_begin api (raw_range rx_buf) (vn_raw dev) of
             None \<Rightarrow> Panicked
           | Some (token, d) \<Rightarrow>
               if token \<noteq> of_nat i then Panicked
               else fill_rx api rest (dev\<lparr>vn_rx_buffers := (vn_rx_buffers dev)[i := Some rx_buf], vn_buf_pool := np, vn_raw := d\<rparr>)))"

primrec alloc_tx :: "'d raw_api \<Rightarrow> nat \<Rightarrow> 'd VirtIoNetInner \<Rightarrow> 'd VirtIoNetInner res" where
  "alloc_tx api 0 dev = Ok dev"
| "alloc_tx api (Suc n) dev =
     (case pool_alloc (vn_buf_pool dev) of
        None \<Rightarrow> Fail NotEnoughMem
      | Some (tx_buf, np) \<Rightarrow>
          (case raw_fill_buffer_header api (raw_range tx_buf) (vn_raw dev) of
             None \<Rightarrow> Fail InvalidParam
           | Some hdr_len \<Rightarrow>
               alloc_tx api n (dev\<lparr>vn_free_tx_bufs := vn_free_tx_bufs dev @ [set_header_len hdr_len tx_buf], vn_buf_pool := np\<rparr>)))"

definition vn_new :: "'d raw_api \<Rightarrow> usize \<Rightarrow> 'd \<Rightarrow> 'd VirtIoNetInner res" where
  "vn_new api pool inner =
     (case pool_new pool (of_nat (2 * QS)) NET_BUF_LEN of
        Inl _ \<Rightarrow> Panicked
      | Ok np \<Rightarrow>
          bind_res (fill_rx api [0..<QS] \<lparr>vn_rx_buffers = replicate QS None, vn_tx_buffers = replicate QS None, vn_free_tx_bufs = [],
                      vn_buf_pool = np, vn_raw = inner\<rparr>)
            (alloc_tx api QS))"

definition can_transmit :: "'d raw_api \<Rightarrow> 'd VirtIoNetInner \<Rightarrow> bool" where
  "can_transmit api dev \<longleftrightarrow> vn_free_tx_bufs dev \<noteq> [] \<and> raw_can_send api (vn_raw dev)"

definition can_receive :: "'d raw_api \<Rightarrow> 'd VirtIoNetInner \<Rightarrow> bool" where
  "can_receive api dev \<longleftrightarrow> raw_poll_receive api (vn_raw dev) \<noteq> None"

text \<open>A buffer that goes out of scope on an early return is dropped into the pool.\<close>

definition recycle_rx_buffer :: "'d raw_api \<Rightarrow> NetBufPtr \<Rightarrow> 'd VirtIoNetInner \<Rightarrow> unit res \<times> 'd VirtIoNetInner" where
  "recycle_rx_buffer api p dev =
     (let rx_buf = from_buf_ptr p
      in case raw_receive_begin api (raw_range rx_buf) (vn_raw dev) of
           None \<Rightarrow> (Panicked, dev)
         | Some (new_token, d) \<Rightarrow>
             if unat new_token \<ge> length (vn_rx_buffers dev) then (Panicked, dev\<lparr>vn_raw := d\<rparr>)
             else if vn_rx_buffers dev ! unat new_token \<noteq> None
             then (Fail DevBadState, dev\<lparr>vn_raw := d, vn_buf_pool := nb_drop rx_buf (vn_buf_pool dev)\<rparr>)
             else (Ok (), dev\<lparr>vn_raw := d, vn_rx_buffers := (vn_rx_buffers dev)[unat new_token := Some rx_buf]\<rparr>))"

partial_function (option) recycle_tx_buffers :: "'d raw_api \<Rightarrow> 'd VirtIoNetInner \<Rightarrow> (unit res \<times> 'd VirtIoNetInner) option" where
  "recycle_tx_buffers api dev =
     (case raw_poll_transmit api (vn_raw dev) of
        None \<Rightarrow> Some (Ok (), dev)
      | Some token \<Rightarrow>
          if unat token \<ge> length (vn_tx_buffers dev) then Some (Panicked, dev)
          else (case vn_tx_buffers dev ! unat token of
                  None \<Rightarrow> Some (Fail DevBadState, dev)
                | Some tx_buf \<Rightarrow>
                    (case raw_transmit_complete api token (packet_range tx_buf) (vn_raw dev) of
                       None \<Rightarrow> Some (Panicked, dev)
                     | Some d \<Rightarrow>
                         recycle_tx_buffers api (dev\<lparr>vn_tx_buffers := (vn_tx_buffers dev)[unat token := None], vn_raw := d,
                           vn_free_tx_bufs := vn_free_tx_bufs dev @ [tx_buf]\<rparr>))))"

text \<open>Assigning to a slot drops the buffer that was in it.\<close>

definition drop_slot :: "NetBuf option \<Rightarrow> NetBufPool \<Rightarrow> NetBufPool" where
  "drop_slot old np = (case old of None \<Rightarrow> np | Some b \<Rightarrow> nb_drop b np)"

definition vn_transmit :: "'d raw_api \<Rightarrow> NetBufPtr \<Rightarrow> 'd VirtIoNetInner \<Rightarrow> unit res \<times> 'd VirtIoNetInner" where
  "vn_transmit api p dev =
     (let tx_buf = from_buf_ptr p
      in case raw_transmit_begin api (packet_range tx_buf) (vn_raw dev) of
           None \<Rightarrow> (Panicked, dev)
         | Some (token, d) \<Rightarrow>
             if unat token \<ge> length (vn_tx_buffers dev) then (Panicked, dev\<lparr>vn_raw := d\<rparr>)
             else (Ok (), dev\<lparr>vn_raw := d, vn_buf_pool := drop_slot (vn_tx_buffers dev ! unat token) (vn_buf_pool dev),
                     vn_tx_buffers := (vn_tx_buffers dev)[unat token := Some tx_buf]\<rparr>))"

definition vn_receive :: "'d raw_api \<Rightarrow> 'd VirtIoNetInner \<Rightarrow> NetBufPtr res \<times> 'd VirtIoNetInner" where
  "vn_receive api dev =
     (case raw_poll_receive api (vn_raw dev) of
        None \<Rightarrow> (Fail NetAgain, dev)
      | Some token \<Rightarrow>
          if unat token \<ge> length (vn_rx_buffers dev) then (Panicked, dev)
          else (case vn_rx_buffers dev ! unat token of
                  None \<Rightarrow> (Fail DevBadState, dev)
                | Some rx_buf \<Rightarrow>
                    (let dev1 = dev\<lparr>vn_rx_buffers := (vn_rx_buffers dev)[unat token := None]\<rparr>
                     in case raw_receive_complete api token (raw_range rx_buf) (vn_raw dev1) of
                          None \<Rightarrow> (Panicked, dev1)
                        | Some ((hdr_len, pkt_len), d) \<Rightarrow>
                            (Ok (into_buf_ptr (set_packet_len pkt_len (set_header_len hdr_len rx_buf))), dev1\<lparr>vn_raw := d\<rparr>))))"

definition alloc_tx_buffer :: "usize \<Rightarrow> 'd VirtIoNetInner \<Rightarrow> NetBufPtr res \<times> 'd VirtIoNetInner" where
  "alloc_tx_buffer pkt_len dev =
     (if vn_free_tx_bufs dev = [] then (Fail NotEnoughMem, dev)
      else (let net_buf = last (vn_free_tx_bufs dev); dev1 = dev\<lparr>vn_free_tx_bufs := butlast (vn_free_tx_bufs dev)\<rparr>
            in if nb_header_len net_buf + pkt_len > nb_capacity net_buf
               then (Fail InvalidParam, dev1\<lparr>vn_buf_pool := nb_drop net_buf (vn_buf_pool dev1)\<rparr>)
               else (Ok (into_buf_ptr (set_packet_len pkt_len net_buf)), dev1)))"

section \<open>The device as the protocol engine sees it\<close>

definition dw_receive :: "'d raw_api \<Rightarrow> 'd VirtIoNetInner \<Rightarrow> (NetBufPtr option res \<times> 'd VirtIoNetInner) option" where
  "dw_receive api dev =
     (case recycle_tx_buffers api dev of
        None \<Rightarrow> None
      | Some (Panicked, dev1) \<Rightarrow> Some (Panicked, dev1)
      | Some (Fail _, dev1) \<Rightarrow> Some (Ok None, dev1)
      | Some (Ok _, dev1) \<Rightarrow>
          Some (if \<not> can_transmit api dev1 then (Ok None, dev1)
                else case vn_receive api dev1 of
                       (Ok buf, dev2) \<Rightarrow> (Ok (Some buf), dev2)
                     | (Fail _, dev2) \<Rightarrow> (Ok None, dev2)
                     | (Panicked, dev2) \<Rightarrow> (Panicked, dev2)))"

definition dw_transmit :: "'d raw_api \<Rightarrow> 'd VirtIoNetInner \<Rightarrow> (bool res \<times> 'd VirtIoNetInner) option" where
  "dw_transmit api dev =
     (case recycle_tx_buffers api dev of
        None \<Rightarrow> None
      | Some (Panicked, dev1) \<Rightarrow> Some (Panicked, dev1)
      | Some (Fail _, dev1) \<Rightarrow> Some (Ok False, dev1)
      | Some (Ok _, dev1) \<Rightarrow> Some (Ok (can_transmit api dev1), dev1))"

text \<open>The tokens run a closure of the engine on the packet's bytes in between, which cannot touch
  the driver.\<close>

definition rx_consume :: "'d raw_api \<Rightarrow> NetBufPtr \<Rightarrow> 'd VirtIoNetInner \<Rightarrow> unit res \<times> 'd VirtIoNetInner" where
  "rx_consume api rx_buf dev = (case recycle_rx_buffer api rx_buf dev of (r, dev1) \<Rightarrow> (unwrap_res r, dev1))"

definition tx_consume :: "'d raw_api \<Rightarrow> usize \<Rightarrow> 'd VirtIoNetInner \<Rightarrow> unit res \<times> 'd VirtIoNetInner" where
  "tx_consume api len dev =
     (case alloc_tx_buffer len dev of
        (Inl _, dev1) \<Rightarrow> (Panicked, dev1)
      | (Ok tx_buf, dev1) \<Rightarrow> (case vn_transmit api tx_buf dev1 of (r, dev2) \<Rightarrow> (unwrap_res r, dev2)))"

section \<open>Facts\<close>

subsection \<open>Who has which buffer\<close>

text \<open>The buffers in the driver and those handed out, the latter as a list of pointers.\<close>

definition slots :: "NetBuf option list \<Rightarrow> NetBuf multiset" where
  "slots xs = mset (List.map_filter id xs)"

definition live :: "'d VirtIoNetInner \<Rightarrow> NetBufPtr list \<Rightarrow> NetBuf multiset" where
  "live dev C = slots (vn_rx_buffers dev) + slots (vn_tx_buffers dev) + mset (vn_free_tx_bufs dev) + mset (map from_buf_ptr C)"

definition all_offsets :: "usize list" where
  "all_offsets = map (\<lambda>i. of_nat i * NET_BUF_LEN) [0..<2 * QS]"

definition nb_ok :: "usize \<Rightarrow> NetBuf \<Rightarrow> bool" where
  "nb_ok pool b \<longleftrightarrow> nb_capacity b = NET_BUF_LEN \<and> nb_buf_ptr b = pool + nb_pool_offset b"

definition conserved :: "usize \<Rightarrow> 'd VirtIoNetInner \<Rightarrow> NetBufPtr list \<Rightarrow> bool" where
  "conserved pool dev C \<longleftrightarrow>
     image_mset nb_pool_offset (live dev C) + mset (np_free_list (vn_buf_pool dev)) = mset all_offsets \<and>
     (\<forall>b\<in>#live dev C. nb_ok pool b) \<and> np_pool (vn_buf_pool dev) = pool \<and> np_buf_len (vn_buf_pool dev) = NET_BUF_LEN"

definition handed :: "NetBufPtr res \<Rightarrow> NetBufPtr list \<Rightarrow> NetBufPtr list" where
  "handed r C = (case r of Ok p \<Rightarrow> p # C | Inl _ \<Rightarrow> C)"

lemma handed_simps [simp]: "handed (Ok p) C = p # C" "handed (Inl e) C = C"
  by (simp_all add: handed_def)

definition slot :: "NetBuf option \<Rightarrow> NetBuf multiset" where
  "slot x = (case x of None \<Rightarrow> {#} | Some b \<Rightarrow> {#b#})"

lemma slot_simps [simp]: "slot None = {#}" "slot (Some b) = {#b#}"
  by (simp_all add: slot_def)

lemma slots_Cons [simp]: "slots (x # xs) = slot x + slots xs" "slots [] = {#}"
  by (simp_all add: slots_def List.map_filter_simps split: option.split)

lemma slots_upd: "i < length xs \<Longrightarrow> slots (xs[i := y]) + slot (xs ! i) = slots xs + slot y"
proof (induction xs arbitrary: i)
  case (Cons x xs)
  then show ?case by (cases i) (auto simp: algebra_simps)
qed simp

lemma slots_put: "i < length xs \<Longrightarrow> xs ! i = None \<Longrightarrow> slots (xs[i := Some b]) = add_mset b (slots xs)"
  using slots_upd [of i xs "Some b"] by simp

lemma slots_take: "i < length xs \<Longrightarrow> xs ! i = Some b \<Longrightarrow> slots xs = add_mset b (slots (xs[i := None]))"
  using slots_upd [of i xs None] by simp

lemma slots_replicate [simp]: "slots (replicate n None) = {#}"
  by (induction n) simp_all

lemma last_mset: "xs \<noteq> [] \<Longrightarrow> mset xs = add_mset (last xs) (mset (butlast xs))"
  by (metis append_butlast_last_id mset.simps(2) mset_append union_mset_add_mset_right mset_single_iff_right add.right_neutral)

text \<open>Changing the lengths of a buffer keeps its place.\<close>

lemma set_len_simps [simp]:
  "nb_pool_offset (set_packet_len n b) = nb_pool_offset b" "nb_pool_offset (set_header_len n b) = nb_pool_offset b"
  "nb_ok pool (set_packet_len n b) = nb_ok pool b" "nb_ok pool (set_header_len n b) = nb_ok pool b"
  by (simp_all add: set_packet_len_def set_header_len_def nb_ok_def)

lemma from_into [simp]: "from_buf_ptr (into_buf_ptr b) = b"
  by (simp add: from_buf_ptr_def into_buf_ptr_def)

text \<open>Two states with the same buffers.\<close>

lemma conserved_cong:
  assumes "conserved pool dev C" "live dev' C' = live dev C" "vn_buf_pool dev' = vn_buf_pool dev"
  shows "conserved pool dev' C'"
  using assms by (simp add: conserved_def)

lemma conserved_resize:
  assumes "conserved pool dev C" "live dev C = add_mset b M" "live dev' C' = add_mset b' M"
    "nb_pool_offset b' = nb_pool_offset b" "nb_ok pool b' = nb_ok pool b" "vn_buf_pool dev' = vn_buf_pool dev"
  shows "conserved pool dev' C'"
  using assms by (simp add: conserved_def)

lemma conserved_drop:
  assumes "conserved pool dev C" "live dev C = add_mset b (live dev' C')" "vn_buf_pool dev' = nb_drop b (vn_buf_pool dev)"
  shows "conserved pool dev' C'"
  using assms by (simp add: conserved_def nb_drop_def pool_dealloc_def)

lemma conserved_alloc:
  assumes "conserved pool dev C" "pool_alloc (vn_buf_pool dev) = Some (b, np)" "live dev' C' = add_mset b' (live dev C)"
    "nb_pool_offset b' = nb_pool_offset b" "nb_ok pool b' = nb_ok pool b" "vn_buf_pool dev' = np"
  shows "conserved pool dev' C'"
proof -
  have ne: "np_free_list (vn_buf_pool dev) \<noteq> []" using assms(2) by (auto simp: pool_alloc_def split: if_splits)
  have b: "nb_pool_offset b = last (np_free_list (vn_buf_pool dev))" "np_free_list np = butlast (np_free_list (vn_buf_pool dev))"
    "nb_ok pool b" "np_pool np = np_pool (vn_buf_pool dev)" "np_buf_len np = np_buf_len (vn_buf_pool dev)"
    using assms(1,2) ne by (auto simp: pool_alloc_def nb_ok_def conserved_def Let_def)
  show ?thesis using assms(1,3-6) b last_mset [OF ne] by (simp add: conserved_def)
qed

subsection \<open>Every operation conserves the buffers\<close>

lemma fill_rx_conserved:
  "fill_rx api is dev = Ok dev' \<Longrightarrow> conserved pool dev C \<Longrightarrow> distinct is \<Longrightarrow> \<forall>i\<in>set is. i < length (vn_rx_buffers dev) \<and> vn_rx_buffers dev ! i = None \<Longrightarrow>
   conserved pool dev' C"
proof (induction "is" arbitrary: dev)
  case (Cons i "is")
  obtain b np token d where a: "pool_alloc (vn_buf_pool dev) = Some (b, np)"
    "raw_receive_begin api (raw_range b) (vn_raw dev) = Some (token, d)"
    using Cons.prems(1) by (auto split: option.splits)
  define dev1 where "dev1 = dev\<lparr>vn_rx_buffers := (vn_rx_buffers dev)[i := Some b], vn_buf_pool := np, vn_raw := d\<rparr>"
  have "fill_rx api is dev1 = Ok dev'" using Cons.prems(1) a by (auto simp: dev1_def split: if_splits)
  moreover have "live dev1 C = add_mset b (live dev C)"
    using Cons.prems(4) by (simp add: live_def dev1_def slots_put)
  then have "conserved pool dev1 C" by (rule conserved_alloc [OF Cons.prems(2) a(1)]) (simp_all add: dev1_def)
  moreover have "\<forall>j\<in>set is. j < length (vn_rx_buffers dev1) \<and> vn_rx_buffers dev1 ! j = None"
    using Cons.prems(3,4) by (auto simp: dev1_def nth_list_update)
  ultimately show ?case using Cons.IH Cons.prems(3) by simp
qed simp

lemma alloc_tx_conserved:
  "alloc_tx api n dev = Ok dev' \<Longrightarrow> conserved pool dev C \<Longrightarrow> conserved pool dev' C"
proof (induction n arbitrary: dev)
  case (Suc n)
  obtain b np h where a: "pool_alloc (vn_buf_pool dev) = Some (b, np)" "raw_fill_buffer_header api (raw_range b) (vn_raw dev) = Some h"
    using Suc.prems(1) by (auto split: option.splits)
  define dev1 where "dev1 = dev\<lparr>vn_free_tx_bufs := vn_free_tx_bufs dev @ [set_header_len h b], vn_buf_pool := np\<rparr>"
  have "alloc_tx api n dev1 = Ok dev'" using Suc.prems(1) a by (simp add: dev1_def)
  moreover have "live dev1 C = add_mset (set_header_len h b) (live dev C)" by (simp add: live_def dev1_def)
  then have "conserved pool dev1 C" by (rule conserved_alloc [OF Suc.prems(2) a(1)]) (simp_all add: dev1_def)
  ultimately show ?case using Suc.IH by simp
qed simp

lemma vn_new_conserved:
  assumes "vn_new api pool d = Ok dev"
  shows "conserved pool dev []"
proof -
  let ?np = "\<lparr>np_capacity = 128, np_buf_len = NET_BUF_LEN, np_pool = pool, np_free_list = all_offsets\<rparr>"
  let ?dev0 = "\<lparr>vn_rx_buffers = replicate QS None, vn_tx_buffers = replicate QS None, vn_free_tx_bufs = [], vn_buf_pool = ?np, vn_raw = d\<rparr>"
  have np: "pool_new pool (of_nat (2 * QS)) NET_BUF_LEN = Ok ?np"
    by (simp add: pool_new_def QS_def NET_BUF_LEN_def MIN_BUFFER_LEN_def MAX_BUFFER_LEN_def all_offsets_def)
  obtain dev1 where f: "fill_rx api [0..<QS] ?dev0 = Ok dev1" "alloc_tx api QS dev1 = Ok dev"
    using assms np by (auto simp: vn_new_def bind_res_def split: sum.splits)
  have "conserved pool ?dev0 []" by (simp add: conserved_def live_def)
  then have "conserved pool dev1 []" by (rule fill_rx_conserved [OF f(1)]) auto
  then show ?thesis by (rule alloc_tx_conserved [OF f(2)])
qed

lemma vn_receive_conserved:
  assumes "vn_receive api dev = (r, dev')" "r \<noteq> Panicked" "conserved pool dev C"
  shows "conserved pool dev' (handed r C)"
proof (cases r)
  case (Inl e)
  then have "dev' = dev" using assms(1,2) by (auto simp: vn_receive_def Let_def split: option.splits if_splits)
  then show ?thesis using assms(3) Inl by simp
next
  case (Inr p)
  obtain token where tk: "raw_poll_receive api (vn_raw dev) = Some token" "unat token < length (vn_rx_buffers dev)"
    using assms(1) Inr by (auto simp: vn_receive_def not_le split: option.splits if_splits)
  then obtain b h n d where rc: "vn_rx_buffers dev ! unat token = Some b"
    "raw_receive_complete api token (raw_range b) (vn_raw dev) = Some ((h, n), d)"
    using assms(1) Inr by (auto simp: vn_receive_def Let_def split: option.splits)
  then have b: "unat token < length (vn_rx_buffers dev)" "vn_rx_buffers dev ! unat token = Some b"
    "p = into_buf_ptr (set_packet_len n (set_header_len h b))" "dev' = dev\<lparr>vn_rx_buffers := (vn_rx_buffers dev)[unat token := None], vn_raw := d\<rparr>"
    using assms(1) Inr tk by (simp_all add: vn_receive_def Let_def)
  have "live dev C = add_mset b (live dev' C)" using slots_take [OF b(1,2)] by (simp add: live_def b(4))
  moreover have "live dev' (p # C) = add_mset (set_packet_len n (set_header_len h b)) (live dev' C)" by (simp add: live_def b(3))
  ultimately have "conserved pool dev' (p # C)" by (rule conserved_resize [OF assms(3)]) (simp_all add: b(4))
  then show ?thesis using Inr by simp
qed

lemma recycle_rx_conserved:
  assumes "recycle_rx_buffer api p dev = (r, dev')" "r \<noteq> Panicked" "conserved pool dev (p # C)"
  shows "conserved pool dev' C"
proof -
  let ?b = "from_buf_ptr p"
  have l: "live dev (p # C) = add_mset ?b (live dev C)" by (simp add: live_def)
  obtain token d where b: "raw_receive_begin api (raw_range ?b) (vn_raw dev) = Some (token, d)"
    using assms(1,2) by (auto simp: recycle_rx_buffer_def Let_def split: option.splits)
  then have t: "unat token < length (vn_rx_buffers dev)" and
    c: "(vn_rx_buffers dev ! unat token \<noteq> None \<and> dev' = dev\<lparr>vn_raw := d, vn_buf_pool := nb_drop ?b (vn_buf_pool dev)\<rparr>) \<or>
        (vn_rx_buffers dev ! unat token = None \<and> dev' = dev\<lparr>vn_raw := d, vn_rx_buffers := (vn_rx_buffers dev)[unat token := Some ?b]\<rparr>)"
    using assms(1,2) by (auto simp: recycle_rx_buffer_def Let_def not_le split: if_splits)
  from c show ?thesis
  proof
    assume d: "vn_rx_buffers dev ! unat token \<noteq> None \<and> dev' = dev\<lparr>vn_raw := d, vn_buf_pool := nb_drop ?b (vn_buf_pool dev)\<rparr>"
    then have "live dev' C = live dev C" by (simp add: live_def)
    then have "live dev (p # C) = add_mset ?b (live dev' C)" using l by simp
    then show ?thesis by (rule conserved_drop [OF assms(3)]) (simp add: d)
  next
    assume d: "vn_rx_buffers dev ! unat token = None \<and> dev' = dev\<lparr>vn_raw := d, vn_rx_buffers := (vn_rx_buffers dev)[unat token := Some ?b]\<rparr>"
    then have "live dev' C = live dev (p # C)" using slots_put [OF t] by (simp add: live_def)
    then show ?thesis by (rule conserved_cong [OF assms(3)]) (simp add: d)
  qed
qed

lemma vn_transmit_conserved:
  assumes "vn_transmit api p dev = (r, dev')" "r \<noteq> Panicked" "conserved pool dev (p # C)"
  shows "conserved pool dev' C"
proof -
  let ?b = "from_buf_ptr p"
  obtain token d where b: "raw_transmit_begin api (packet_range ?b) (vn_raw dev) = Some (token, d)"
    using assms(1,2) by (auto simp: vn_transmit_def Let_def split: option.splits)
  then have t: "unat token < length (vn_tx_buffers dev)" and
    dev': "dev' = dev\<lparr>vn_raw := d, vn_buf_pool := drop_slot (vn_tx_buffers dev ! unat token) (vn_buf_pool dev),
                     vn_tx_buffers := (vn_tx_buffers dev)[unat token := Some ?b]\<rparr>"
    using assms(1,2) by (auto simp: vn_transmit_def Let_def not_le split: if_splits)
  have s: "slots ((vn_tx_buffers dev)[unat token := Some ?b]) + slot (vn_tx_buffers dev ! unat token) = slots (vn_tx_buffers dev) + {#?b#}"
    using slots_upd [OF t, of "Some ?b"] by simp
  show ?thesis
  proof (cases "vn_tx_buffers dev ! unat token")
    case None
    then have "live dev' C = live dev (p # C)" using s by (simp add: live_def dev')
    then show ?thesis by (rule conserved_cong [OF assms(3)]) (simp add: dev' drop_slot_def None)
  next
    case (Some old)
    then have "add_mset old (slots ((vn_tx_buffers dev)[unat token := Some ?b])) = add_mset ?b (slots (vn_tx_buffers dev))" using s by simp
    from arg_cong [OF this, of "\<lambda>X. X + (slots (vn_rx_buffers dev) + mset (vn_free_tx_bufs dev) + mset (map from_buf_ptr C))"]
    have "live dev (p # C) = add_mset old (live dev' C)" by (simp add: live_def dev' ac_simps)
    then show ?thesis by (rule conserved_drop [OF assms(3)]) (simp add: dev' drop_slot_def Some)
  qed
qed

lemma alloc_tx_buffer_conserved:
  assumes "alloc_tx_buffer n dev = (r, dev')" "conserved pool dev C"
  shows "conserved pool dev' (handed r C)"
proof (cases "vn_free_tx_bufs dev = []")
  case True
  then show ?thesis using assms by (auto simp: alloc_tx_buffer_def)
next
  case False
  let ?b = "last (vn_free_tx_bufs dev)" and ?dev1 = "dev\<lparr>vn_free_tx_bufs := butlast (vn_free_tx_bufs dev)\<rparr>"
  have l: "live dev C = add_mset ?b (live ?dev1 C)" using last_mset [OF False] by (simp add: live_def)
  show ?thesis
  proof (cases "nb_header_len ?b + n > nb_capacity ?b")
    case True
    then have d: "r = Fail InvalidParam" "dev' = ?dev1\<lparr>vn_buf_pool := nb_drop ?b (vn_buf_pool dev)\<rparr>"
      using assms(1) False by (simp_all add: alloc_tx_buffer_def Let_def)
    have "live dev' C = live ?dev1 C" by (simp add: live_def d(2))
    then have "live dev C = add_mset ?b (live dev' C)" using l by simp
    then have "conserved pool dev' C" by (rule conserved_drop [OF assms(2)]) (simp add: d)
    then show ?thesis by (simp add: d)
  next
    case fits: False
    then have d: "r = Ok (into_buf_ptr (set_packet_len n ?b))" "dev' = ?dev1"
      using assms(1) False by (simp_all add: alloc_tx_buffer_def Let_def)
    have "live dev' (into_buf_ptr (set_packet_len n ?b) # C) = add_mset (set_packet_len n ?b) (live ?dev1 C)" by (simp add: live_def d(2))
    then have "conserved pool dev' (into_buf_ptr (set_packet_len n ?b) # C)"
      by (rule conserved_resize [OF assms(2) l]) (simp_all add: d)
    then show ?thesis by (simp add: d)
  qed
qed

lemma recycle_tx_conserved:
  assumes "recycle_tx_buffers api dev = Some y" "conserved pool dev C" "fst y \<noteq> Panicked"
  shows "conserved pool (snd y) C"
  using assms(2,3)
proof (induction rule: recycle_tx_buffers.raw_induct [OF _ assms(1), case_names 1])
  case (1 loop api dev y)
  show ?case
  proof (cases "raw_poll_transmit api (vn_raw dev)")
    case None
    then show ?thesis using 1(2,3) by auto
  next
    case (Some token)
    show ?thesis
    proof (cases "unat token < length (vn_tx_buffers dev) \<and> (\<exists>b d. vn_tx_buffers dev ! unat token = Some b \<and> raw_transmit_complete api token (packet_range b) (vn_raw dev) = Some d)")
      case True
      then obtain b d where b: "unat token < length (vn_tx_buffers dev)" "vn_tx_buffers dev ! unat token = Some b"
        "raw_transmit_complete api token (packet_range b) (vn_raw dev) = Some d" by blast
      define dev1 where "dev1 = dev\<lparr>vn_tx_buffers := (vn_tx_buffers dev)[unat token := None], vn_raw := d,
                           vn_free_tx_bufs := vn_free_tx_bufs dev @ [b]\<rparr>"
      have "live dev1 C = live dev C" using slots_take [OF b(1,2)] by (simp add: live_def dev1_def)
      then have "conserved pool dev1 C" by (rule conserved_cong [OF 1(3)]) (simp add: dev1_def)
      moreover have "loop api dev1 = Some y" using 1(2) Some b by (simp add: dev1_def)
      ultimately show ?thesis using 1(1,4) by blast
    next
      case False
      then have "snd y = dev" using 1(2) Some by (auto split: if_splits option.splits)
      then show ?thesis using 1(3) by simp
    qed
  qed
qed

subsection \<open>The driver and its clients\<close>

text \<open>The clients hold the pointers of the list; a step is an operation of the driver that does not
  panic, or an action of the device.\<close>

inductive vn_step :: "'d raw_api \<Rightarrow> 'd VirtIoNetInner \<times> NetBufPtr list \<Rightarrow> 'd VirtIoNetInner \<times> NetBufPtr list \<Rightarrow> bool" for api where
  receive: "vn_receive api dev = (r, dev') \<Longrightarrow> r \<noteq> Panicked \<Longrightarrow> vn_step api (dev, C) (dev', handed r C)"
| recycle_rx: "recycle_rx_buffer api p dev = (r, dev') \<Longrightarrow> r \<noteq> Panicked \<Longrightarrow> vn_step api (dev, p # C) (dev', C)"
| recycle_tx: "recycle_tx_buffers api dev = Some (r, dev') \<Longrightarrow> r \<noteq> Panicked \<Longrightarrow> vn_step api (dev, C) (dev', C)"
| alloc: "alloc_tx_buffer n dev = (r, dev') \<Longrightarrow> vn_step api (dev, C) (dev', handed r C)"
| transmit: "vn_transmit api p dev = (r, dev') \<Longrightarrow> r \<noteq> Panicked \<Longrightarrow> vn_step api (dev, p # C) (dev', C)"
| device: "vn_step api (dev, C) (dev\<lparr>vn_raw := d\<rparr>, C)"
| rotate: "vn_step api (dev, p # C) (dev, C @ [p])"

inductive_simps vn_step_simps: "vn_step api (dev, C) y"

lemma conserved_step:
  assumes "vn_step api x y" "conserved pool (fst x) (snd x)"
  shows "conserved pool (fst y) (snd y)"
  using assms(1)
proof cases
  case (receive dev r dev' C)
  then show ?thesis using vn_receive_conserved assms(2) by simp
next
  case (recycle_rx p dev r dev' C)
  then show ?thesis using recycle_rx_conserved assms(2) by simp
next
  case (recycle_tx dev r dev' C)
  then show ?thesis using recycle_tx_conserved [of api dev "(r, dev')" pool C] assms(2) by simp
next
  case (alloc n dev r dev' C)
  then show ?thesis using alloc_tx_buffer_conserved assms(2) by simp
next
  case (transmit p dev r dev' C)
  then show ?thesis using vn_transmit_conserved assms(2) by simp
next
  case (device dev C d)
  then have "conserved pool dev C" using assms(2) by simp
  then have "conserved pool (dev\<lparr>vn_raw := d\<rparr>) C" by (rule conserved_cong) (simp_all add: live_def)
  then show ?thesis using device by simp
next
  case (rotate dev p C)
  then have "conserved pool dev (p # C)" using assms(2) by simp
  then have "conserved pool dev (C @ [p])" by (rule conserved_cong) (simp_all add: live_def)
  then show ?thesis using rotate by simp
qed

lemma conserved_reachable:
  assumes "vn_new api pool d = Ok dev0" "(vn_step api)\<^sup>*\<^sup>* (dev0, []) (dev, C)"
  shows "conserved pool dev C"
  using assms(2)
proof (induction rule: rtranclp_induct2)
  case refl
  show ?case by (rule vn_new_conserved [OF assms(1)])
next
  case (step dev C dev' C')
  then show ?case using conserved_step [OF step.hyps(2)] by simp
qed

lemma offset_unat: "k < 128 \<Longrightarrow> unat (of_nat k * NET_BUF_LEN :: usize) = k * 1526"
proof -
  assume "k < 128"
  then have "k * 1526 < 2 ^ 64" by simp
  then have "unat (of_nat (k * 1526) :: usize) = k * 1526" by (simp add: unat_of_nat take_bit_nat_eq_self del: of_nat_mult)
  moreover have "(of_nat k * NET_BUF_LEN :: usize) = of_nat (k * 1526)" by (simp add: NET_BUF_LEN_def)
  ultimately show ?thesis by (simp only:)
qed

lemma all_offsets_unat: "x \<in> set all_offsets \<Longrightarrow> \<exists>i < 128. unat x = i * 1526"
proof -
  assume "x \<in> set all_offsets"
  then obtain i where "i < 2 * QS" "x = of_nat i * NET_BUF_LEN" by (auto simp: all_offsets_def)
  then show ?thesis using offset_unat [of i] by (auto simp: QS_def)
qed

lemma distinct_offsets: "distinct all_offsets"
proof -
  have "inj_on (\<lambda>i. of_nat i * NET_BUF_LEN :: usize) {0..<128}"
  proof (rule inj_onI)
    fix i j assume ij: "i \<in> {0..<128 :: nat}" "j \<in> {0..<128}" "of_nat i * NET_BUF_LEN = (of_nat j * NET_BUF_LEN :: usize)"
    then have "i * 1526 = j * 1526" using offset_unat [of i] offset_unat [of j] by (metis atLeastLessThan_iff)
    then show "i = j" by simp
  qed
  then have "inj_on (\<lambda>i. of_nat i * NET_BUF_LEN :: usize) {0..<2 * QS}" by (simp add: QS_def)
  then show ?thesis by (simp add: all_offsets_def distinct_map)
qed

lemma count_single_le: "count (add_mset x (add_mset x M)) x \<le> 1 \<Longrightarrow> P"
  by simp

lemma live_place:
  assumes "conserved pool dev C" "b \<in># live dev C" "unat pool + 195328 \<le> 2 ^ 64"
  shows "nb_pool_offset b \<in> set all_offsets" "nb_capacity b = NET_BUF_LEN"
    "\<exists>i < 128. unat (nb_pool_offset b) = i * 1526 \<and> unat (nb_buf_ptr b) = unat pool + i * 1526"
proof -
  have "nb_pool_offset b \<in># image_mset nb_pool_offset (live dev C)" using assms(2) by simp
  then have "nb_pool_offset b \<in># mset all_offsets" using assms(1) unfolding conserved_def by (metis union_iff)
  then show o: "nb_pool_offset b \<in> set all_offsets" by simp
  have ok: "nb_capacity b = NET_BUF_LEN" "nb_buf_ptr b = pool + nb_pool_offset b" using assms(1,2) by (auto simp: conserved_def nb_ok_def)
  then show "nb_capacity b = NET_BUF_LEN" by simp
  obtain i where i: "i < 128" "unat (nb_pool_offset b) = i * 1526" using all_offsets_unat [OF o] by blast
  then have "unat pool + unat (nb_pool_offset b) < 2 ^ 64" using assms(3) by simp
  then have "unat (nb_buf_ptr b) = unat pool + i * 1526" using ok(2) i(2) by (simp add: unat_word_ariths)
  then show "\<exists>i < 128. unat (nb_pool_offset b) = i * 1526 \<and> unat (nb_buf_ptr b) = unat pool + i * 1526" using i by blast
qed

subsection \<open>Properties\<close>

lemma buffers_partition:
  assumes "vn_new api pool d = Ok dev0" "(vn_step api)\<^sup>*\<^sup>* (dev0, []) (dev, C)" "unat pool + 195328 \<le> 2 ^ 64"
  shows "image_mset nb_pool_offset (live dev C) + mset (np_free_list (vn_buf_pool dev)) = mset all_offsets"
    "b \<in># live dev C \<Longrightarrow> nb_capacity b = 1526 \<and> unat pool \<le> unat (nb_buf_ptr b) \<and> unat (nb_buf_ptr b) + 1526 \<le> unat pool + 195328"
    "live dev C = add_mset b (add_mset b' M) \<Longrightarrow>
      {unat (nb_buf_ptr b)..<unat (nb_buf_ptr b) + 1526} \<inter> {unat (nb_buf_ptr b')..<unat (nb_buf_ptr b') + 1526} = {}"
proof -
  have c: "conserved pool dev C" by (rule conserved_reachable [OF assms(1,2)])
  then show all: "image_mset nb_pool_offset (live dev C) + mset (np_free_list (vn_buf_pool dev)) = mset all_offsets"
    by (simp add: conserved_def)
  show "nb_capacity b = 1526 \<and> unat pool \<le> unat (nb_buf_ptr b) \<and> unat (nb_buf_ptr b) + 1526 \<le> unat pool + 195328" if "b \<in># live dev C"
    using live_place [OF c that assms(3)] by (auto simp: NET_BUF_LEN_def)
  assume l: "live dev C = add_mset b (add_mset b' M)"
  then have "b \<in># live dev C" "b' \<in># live dev C" by simp_all
  then obtain i j where ij: "unat (nb_pool_offset b) = i * 1526" "unat (nb_buf_ptr b) = unat pool + i * 1526"
    "unat (nb_pool_offset b') = j * 1526" "unat (nb_buf_ptr b') = unat pool + j * 1526"
    using live_place(3) [OF c _ assms(3)] by metis
  have "mset all_offsets = add_mset (nb_pool_offset b) (add_mset (nb_pool_offset b')
      (image_mset nb_pool_offset M + mset (np_free_list (vn_buf_pool dev))))" using all l by simp
  moreover have "count (mset all_offsets) x \<le> 1" for x using distinct_offsets by (simp add: distinct_count_atmost_1)
  ultimately have "nb_pool_offset b \<noteq> nb_pool_offset b'" by (metis count_single_le)
  then have "i \<noteq> j" using ij(1,3) by (auto simp: word_unat_eq_iff)
  then have "i * 1526 + 1526 \<le> j * 1526 \<or> j * 1526 + 1526 \<le> i * 1526" by (cases i j rule: linorder_cases) auto
  then show "{unat (nb_buf_ptr b)..<unat (nb_buf_ptr b) + 1526} \<inter> {unat (nb_buf_ptr b')..<unat (nb_buf_ptr b') + 1526} = {}"
    unfolding ij(2,4) by auto
qed

text \<open>C22. The driver never lets two owners share packet memory, for any behaviour of the device and
  any sequence of operations and errors: of the 128 buffers of the pool each one is, at every moment, in exactly one
  place -- a receive slot, a transmit slot, the list of free transmit buffers, the pool's free list, or
  the hands of one client; buffers that are not in the pool occupy disjoint ranges of memory, all inside
  the pool's allocation.\<close>

theorem net_buffers_disjoint:
  assumes "vn_new api pool d = Ok dev0" "(vn_step api)\<^sup>*\<^sup>* (dev0, []) (dev, C)" "unat pool + 195328 \<le> 2 ^ 64"
  shows "image_mset nb_pool_offset (live dev C) + mset (np_free_list (vn_buf_pool dev)) = mset all_offsets \<and>
    (\<forall>b. b \<in># live dev C \<longrightarrow> nb_capacity b = 1526 \<and> unat pool \<le> unat (nb_buf_ptr b) \<and> unat (nb_buf_ptr b) + 1526 \<le> unat pool + 195328) \<and>
    (\<forall>b b' M. live dev C = add_mset b (add_mset b' M) \<longrightarrow>
      {unat (nb_buf_ptr b)..<unat (nb_buf_ptr b) + 1526} \<inter> {unat (nb_buf_ptr b')..<unat (nb_buf_ptr b') + 1526} = {})"
  using buffers_partition [OF assms] by blast

subsection \<open>Starting and running the driver\<close>

text \<open>A device that numbers the receive buffers it is given and has the 12-byte header of a
  modern virtio network card; \<^verbatim>\<open>n d\<close> is the number of buffers it has been given.\<close>

definition rx_in_order :: "'d raw_api \<Rightarrow> ('d \<Rightarrow> nat) \<Rightarrow> bool" where
  "rx_in_order api n \<longleftrightarrow> (\<forall>r d. n d < QS \<longrightarrow> (\<exists>d'. raw_receive_begin api r d = Some (of_nat (n d), d') \<and> n d' = Suc (n d)))"

lemma pool_alloc_some:
  "np_free_list np \<noteq> [] \<Longrightarrow> \<exists>b np'. pool_alloc np = Some (b, np') \<and> length (np_free_list np') = length (np_free_list np) - 1 \<and>
     nb_header_len b = 0 \<and> nb_capacity b = np_buf_len np \<and> np_buf_len np' = np_buf_len np"
  by (simp add: pool_alloc_def Let_def)

lemma fill_rx_total:
  assumes "rx_in_order api n"
  shows "k \<le> QS \<Longrightarrow> n (vn_raw dev) = k \<Longrightarrow> QS - k \<le> length (np_free_list (vn_buf_pool dev)) \<Longrightarrow> length (vn_rx_buffers dev) = QS \<Longrightarrow>
    \<forall>i<k. vn_rx_buffers dev ! i \<noteq> None \<Longrightarrow>
    \<exists>dev'. fill_rx api [k..<QS] dev = Ok dev' \<and> length (np_free_list (vn_buf_pool dev')) = length (np_free_list (vn_buf_pool dev)) - (QS - k) \<and>
      length (vn_rx_buffers dev') = QS \<and> (\<forall>i<QS. vn_rx_buffers dev' ! i \<noteq> None) \<and> vn_tx_buffers dev' = vn_tx_buffers dev \<and>
      vn_free_tx_bufs dev' = vn_free_tx_bufs dev \<and> np_buf_len (vn_buf_pool dev') = np_buf_len (vn_buf_pool dev)"
proof (induction "QS - k" arbitrary: k dev)
  case 0
  then show ?case by auto
next
  case (Suc m)
  then have k: "k < QS" by simp
  have "np_free_list (vn_buf_pool dev) \<noteq> []" using Suc.prems(3) k by auto
  then obtain b np where b: "pool_alloc (vn_buf_pool dev) = Some (b, np)" "length (np_free_list np) = length (np_free_list (vn_buf_pool dev)) - 1"
    "np_buf_len np = np_buf_len (vn_buf_pool dev)" using pool_alloc_some by metis
  obtain d where d: "raw_receive_begin api (raw_range b) (vn_raw dev) = Some (of_nat k, d)" "n d = Suc k"
    using assms k Suc.prems(2) unfolding rx_in_order_def by metis
  define dev1 where "dev1 = dev\<lparr>vn_rx_buffers := (vn_rx_buffers dev)[k := Some b], vn_buf_pool := np, vn_raw := d\<rparr>"
  have r: "fill_rx api [k..<QS] dev = fill_rx api [Suc k..<QS] dev1"
    using k b(1) d(1) by (simp add: upt_conv_Cons dev1_def)
  have "\<forall>i<Suc k. vn_rx_buffers dev1 ! i \<noteq> None" using Suc.prems(4,5) k by (auto simp: dev1_def nth_list_update less_Suc_eq)
  moreover have "m = QS - Suc k" "Suc k \<le> QS" "n (vn_raw dev1) = Suc k" "length (vn_rx_buffers dev1) = QS"
    "QS - Suc k \<le> length (np_free_list (vn_buf_pool dev1))"
    using Suc.hyps(2) k d(2) Suc.prems(3,4) b(2) by (simp_all add: dev1_def)
  ultimately obtain dev' where "fill_rx api [Suc k..<QS] dev1 = Ok dev'"
    "length (np_free_list (vn_buf_pool dev')) = length (np_free_list (vn_buf_pool dev1)) - (QS - Suc k)"
    "length (vn_rx_buffers dev') = QS" "\<forall>i<QS. vn_rx_buffers dev' ! i \<noteq> None" "vn_tx_buffers dev' = vn_tx_buffers dev1"
    "vn_free_tx_bufs dev' = vn_free_tx_bufs dev1" "np_buf_len (vn_buf_pool dev') = np_buf_len (vn_buf_pool dev1)"
    using Suc.hyps(1) [of "Suc k" dev1] by blast
  then show ?case using r b(2,3) k by (simp add: dev1_def)
qed

lemma alloc_tx_total:
  assumes "\<And>r d. raw_fill_buffer_header api r d = Some h"
  shows "m \<le> length (np_free_list (vn_buf_pool dev)) \<Longrightarrow>
    \<exists>dev'. alloc_tx api m dev = Ok dev' \<and> length (np_free_list (vn_buf_pool dev')) = length (np_free_list (vn_buf_pool dev)) - m \<and>
      length (vn_free_tx_bufs dev') = length (vn_free_tx_bufs dev) + m \<and>
      (\<forall>b\<in>set (vn_free_tx_bufs dev'). b \<in> set (vn_free_tx_bufs dev) \<or> (nb_header_len b = h \<and> nb_capacity b = np_buf_len (vn_buf_pool dev))) \<and>
      vn_rx_buffers dev' = vn_rx_buffers dev \<and> vn_tx_buffers dev' = vn_tx_buffers dev"
proof (induction m arbitrary: dev)
  case (Suc m)
  then have "np_free_list (vn_buf_pool dev) \<noteq> []" by auto
  then obtain b np where b: "pool_alloc (vn_buf_pool dev) = Some (b, np)" "length (np_free_list np) = length (np_free_list (vn_buf_pool dev)) - 1"
    "nb_capacity b = np_buf_len (vn_buf_pool dev)" "np_buf_len np = np_buf_len (vn_buf_pool dev)" using pool_alloc_some by metis
  define dev1 where "dev1 = dev\<lparr>vn_free_tx_bufs := vn_free_tx_bufs dev @ [set_header_len h b], vn_buf_pool := np\<rparr>"
  have r: "alloc_tx api (Suc m) dev = alloc_tx api m dev1" using b(1) assms by (simp add: dev1_def)
  have "m \<le> length (np_free_list (vn_buf_pool dev1))" using Suc.prems b(2) by (simp add: dev1_def)
  from Suc.IH [OF this] obtain dev' where d: "alloc_tx api m dev1 = Ok dev'"
    "length (np_free_list (vn_buf_pool dev')) = length (np_free_list (vn_buf_pool dev1)) - m"
    "length (vn_free_tx_bufs dev') = length (vn_free_tx_bufs dev1) + m"
    "\<forall>b\<in>set (vn_free_tx_bufs dev'). b \<in> set (vn_free_tx_bufs dev1) \<or> (nb_header_len b = h \<and> nb_capacity b = np_buf_len (vn_buf_pool dev1))"
    "vn_rx_buffers dev' = vn_rx_buffers dev1" "vn_tx_buffers dev' = vn_tx_buffers dev1" by blast
  then show ?case using r b by (auto simp: dev1_def set_header_len_def)
qed simp

lemma vn_new_total:
  assumes "rx_in_order api n" "n d = 0" "\<And>r d. raw_fill_buffer_header api r d = Some h"
  shows "\<exists>dev. vn_new api pool d = Ok dev \<and> length (vn_rx_buffers dev) = QS \<and> (\<forall>i<QS. vn_rx_buffers dev ! i \<noteq> None) \<and>
    vn_tx_buffers dev = replicate QS None \<and> length (vn_free_tx_bufs dev) = QS \<and>
    (\<forall>b\<in>set (vn_free_tx_bufs dev). nb_header_len b = h \<and> nb_capacity b = NET_BUF_LEN) \<and> length (np_free_list (vn_buf_pool dev)) = 0"
proof -
  let ?np = "\<lparr>np_capacity = 128, np_buf_len = NET_BUF_LEN, np_pool = pool, np_free_list = all_offsets\<rparr>"
  let ?dev0 = "\<lparr>vn_rx_buffers = replicate QS None, vn_tx_buffers = replicate QS None, vn_free_tx_bufs = [], vn_buf_pool = ?np, vn_raw = d\<rparr>"
  have np: "pool_new pool (of_nat (2 * QS)) NET_BUF_LEN = Ok ?np"
    by (simp add: pool_new_def QS_def NET_BUF_LEN_def MIN_BUFFER_LEN_def MAX_BUFFER_LEN_def all_offsets_def)
  have len: "length all_offsets = 2 * QS" by (simp add: all_offsets_def)
  obtain dev1 where f: "fill_rx api [0..<QS] ?dev0 = Ok dev1" "length (np_free_list (vn_buf_pool dev1)) = QS"
    "length (vn_rx_buffers dev1) = QS" "\<forall>i<QS. vn_rx_buffers dev1 ! i \<noteq> None" "vn_tx_buffers dev1 = replicate QS None"
    "vn_free_tx_bufs dev1 = []" "np_buf_len (vn_buf_pool dev1) = NET_BUF_LEN"
    using fill_rx_total [OF assms(1), of 0 ?dev0] assms(2) len by auto
  obtain dev where t: "alloc_tx api QS dev1 = Ok dev" "length (np_free_list (vn_buf_pool dev)) = 0" "length (vn_free_tx_bufs dev) = QS"
    "\<forall>b\<in>set (vn_free_tx_bufs dev). nb_header_len b = h \<and> nb_capacity b = NET_BUF_LEN"
    "vn_rx_buffers dev = vn_rx_buffers dev1" "vn_tx_buffers dev = vn_tx_buffers dev1"
    using alloc_tx_total [OF assms(3), of QS dev1] f by auto
  have "vn_new api pool d = Ok dev" using np f(1) t(1) by (simp add: vn_new_def)
  then show ?thesis using f t by auto
qed

text \<open>Starting the driver on a device that hands out receive tokens in order: \<^verbatim>\<open>new\<close> returns
  a driver whose 64 receive slots are all filled and whose 64 transmit buffers are all free, with the
  device's header length set and the full capacity, and the pool is used up: the 128 buffers are exactly enough.\<close>

theorem vn_new_ready:
  assumes "rx_in_order api n" "n d = 0" "\<And>r d. raw_fill_buffer_header api r d = Some h"
  shows "\<exists>dev. vn_new api pool d = Ok dev \<and> length (vn_rx_buffers dev) = 64 \<and> (\<forall>i<64. vn_rx_buffers dev ! i \<noteq> None) \<and>
    vn_tx_buffers dev = replicate 64 None \<and> length (vn_free_tx_bufs dev) = 64 \<and>
    (\<forall>b\<in>set (vn_free_tx_bufs dev). nb_header_len b = h \<and> nb_capacity b = 1526) \<and> np_free_list (vn_buf_pool dev) = []"
  using vn_new_total [OF assms] by (simp add: QS_def NET_BUF_LEN_def)

text \<open>A card that numbers buffers round the 64 slots and completes nothing by itself.\<close>

definition demo_raw :: "nat raw_api" where
  "demo_raw = \<lparr>raw_receive_begin = (\<lambda>r d. Some (of_nat (d mod 64), d + 1)), raw_poll_receive = (\<lambda>d. None),
     raw_receive_complete = (\<lambda>t r d. None), raw_fill_buffer_header = (\<lambda>r d. Some 12), raw_can_send = (\<lambda>d. True),
     raw_transmit_begin = (\<lambda>r d. Some (of_nat (d mod 64), d + 1)), raw_poll_transmit = (\<lambda>d. if d \<ge> 1000 then Some 5 else None),
     raw_transmit_complete = (\<lambda>t r d. Some (d - 1000))\<rparr>"

lemma demo_in_order: "rx_in_order demo_raw id"
  by (simp add: rx_in_order_def demo_raw_def QS_def)

theorem vn_new_ready_witness:
  "\<exists>dev. vn_new demo_raw 0x90000000 0 = Ok dev \<and> length (vn_free_tx_bufs dev) = 64 \<and> np_free_list (vn_buf_pool dev) = []"
  using vn_new_ready [OF demo_in_order, of 0 12 "0x90000000"] by (auto simp: demo_raw_def)

theorem net_buffers_disjoint_witness:
  "\<exists>dev. vn_new demo_raw 0x90000000 0 = Ok dev \<and>
     image_mset nb_pool_offset (live dev []) + mset (np_free_list (vn_buf_pool dev)) = mset all_offsets"
proof -
  obtain dev where d: "vn_new demo_raw 0x90000000 0 = Ok dev"
    using vn_new_total [OF demo_in_order, of 0 12 "0x90000000"] by (auto simp: demo_raw_def)
  have "unat (0x90000000 :: usize) + 195328 \<le> 2 ^ 64" by simp
  from net_buffers_disjoint [OF d rtranclp.rtrancl_refl this] d show ?thesis by blast
qed

text \<open>The completed transmissions of a device, in the order in which it reports them; completing
  one takes it off the list.\<close>

definition tx_used :: "'d raw_api \<Rightarrow> ('d \<Rightarrow> u16 list) \<Rightarrow> bool" where
  "tx_used api used \<longleftrightarrow> (\<forall>d. raw_poll_transmit api d = (case used d of [] \<Rightarrow> None | t # _ \<Rightarrow> Some t)) \<and>
     (\<forall>d t ts r. used d = t # ts \<longrightarrow> (\<exists>d'. raw_transmit_complete api t r d = Some d' \<and> used d' = ts))"

lemma recycle_tx_total:
  assumes "tx_used api used"
  shows "used (vn_raw dev) = ts \<Longrightarrow> distinct ts \<Longrightarrow> \<forall>t\<in>set ts. unat t < length (vn_tx_buffers dev) \<and> vn_tx_buffers dev ! unat t \<noteq> None \<Longrightarrow>
    \<exists>d. recycle_tx_buffers api dev = Some (Ok (), dev\<lparr>vn_tx_buffers := fold (\<lambda>t xs. xs[unat t := None]) ts (vn_tx_buffers dev), vn_raw := d,
      vn_free_tx_bufs := vn_free_tx_bufs dev @ map (\<lambda>t. the (vn_tx_buffers dev ! unat t)) ts\<rparr>) \<and> used d = []"
proof (induction ts arbitrary: dev)
  case Nil
  then have "raw_poll_transmit api (vn_raw dev) = None" using assms by (simp add: tx_used_def)
  then show ?case using Nil by (subst recycle_tx_buffers.simps) (auto intro: exI [of _ "vn_raw dev"])
next
  case (Cons t ts)
  obtain b where b: "vn_tx_buffers dev ! unat t = Some b" "unat t < length (vn_tx_buffers dev)" using Cons.prems(3) by auto
  have p: "raw_poll_transmit api (vn_raw dev) = Some t" using assms Cons.prems(1) by (simp add: tx_used_def)
  obtain d where d: "raw_transmit_complete api t (packet_range b) (vn_raw dev) = Some d" "used d = ts"
    using assms Cons.prems(1) unfolding tx_used_def by metis
  define dev1 where "dev1 = dev\<lparr>vn_tx_buffers := (vn_tx_buffers dev)[unat t := None], vn_raw := d, vn_free_tx_bufs := vn_free_tx_bufs dev @ [b]\<rparr>"
  have r: "recycle_tx_buffers api dev = recycle_tx_buffers api dev1"
    using b p d(1) by (subst recycle_tx_buffers.simps) (simp add: dev1_def)
  have ne: "unat t \<noteq> unat u" if "u \<in> set ts" for u using that Cons.prems(2) by (auto simp: word_unat_eq_iff [symmetric])
  have m: "map (\<lambda>u. the (vn_tx_buffers dev1 ! unat u)) ts = map (\<lambda>u. the (vn_tx_buffers dev ! unat u)) ts"
    using ne by (auto simp: dev1_def)
  have "\<forall>u\<in>set ts. unat u < length (vn_tx_buffers dev1) \<and> vn_tx_buffers dev1 ! unat u \<noteq> None"
    using Cons.prems(3) ne by (auto simp: dev1_def)
  moreover have "used (vn_raw dev1) = ts" "distinct ts" using d(2) Cons.prems(2) by (simp_all add: dev1_def)
  ultimately obtain d2 where "recycle_tx_buffers api dev1 = Some (Ok (), dev1\<lparr>vn_tx_buffers := fold (\<lambda>t xs. xs[unat t := None]) ts (vn_tx_buffers dev1),
      vn_raw := d2, vn_free_tx_bufs := vn_free_tx_bufs dev1 @ map (\<lambda>t. the (vn_tx_buffers dev ! unat t)) ts\<rparr>)" "used d2 = []"
    using Cons.IH [of dev1] m by metis
  then show ?case using b(1) by (intro exI [of _ d2]) (simp add: r, simp add: dev1_def)
qed

text \<open>Recycling transmit buffers ends, after one round per completed transmission, and returns
  each of them to the free list exactly once, in the order of completion, with its slot emptied; nothing
  else changes, and afterwards the device has nothing more to report.\<close>

theorem recycle_tx_returns:
  assumes "tx_used api used" "used (vn_raw dev) = ts" "distinct ts"
    and "\<forall>t\<in>set ts. unat t < length (vn_tx_buffers dev) \<and> vn_tx_buffers dev ! unat t \<noteq> None"
  shows "\<exists>dev'. recycle_tx_buffers api dev = Some (Ok (), dev') \<and> used (vn_raw dev') = [] \<and>
    vn_free_tx_bufs dev' = vn_free_tx_bufs dev @ map (\<lambda>t. the (vn_tx_buffers dev ! unat t)) ts \<and>
    vn_rx_buffers dev' = vn_rx_buffers dev \<and> vn_buf_pool dev' = vn_buf_pool dev \<and>
    (\<forall>i < length (vn_tx_buffers dev). vn_tx_buffers dev' ! i = (if i \<in> unat ` set ts then None else vn_tx_buffers dev ! i))"
proof -
  have f: "length (fold (\<lambda>t xs. xs[unat t := None]) ts ys) = length ys \<and>
      (i < length ys \<longrightarrow> fold (\<lambda>t xs. xs[unat t := None]) ts ys ! i = (if i \<in> unat ` set ts then None else ys ! i))"
    for i and ts :: "u16 list" and ys :: "NetBuf option list"
    by (induction ts arbitrary: ys) (auto simp: nth_list_update)
  from recycle_tx_total [OF assms] obtain d where
    "recycle_tx_buffers api dev = Some (Ok (), dev\<lparr>vn_tx_buffers := fold (\<lambda>t xs. xs[unat t := None]) ts (vn_tx_buffers dev), vn_raw := d,
      vn_free_tx_bufs := vn_free_tx_bufs dev @ map (\<lambda>t. the (vn_tx_buffers dev ! unat t)) ts\<rparr>)" "used d = []" by blast
  then show ?thesis using f by simp
qed

definition demo_buf :: NetBuf where
  "demo_buf = \<lparr>nb_header_len = 12, nb_packet_len = 60, nb_capacity = 1526, nb_buf_ptr = 0x90000000, nb_pool_offset = 0\<rparr>"

definition demo_vn :: "nat VirtIoNetInner" where
  "demo_vn = \<lparr>vn_rx_buffers = replicate 64 None, vn_tx_buffers = (replicate 64 None)[5 := Some demo_buf], vn_free_tx_bufs = [demo_buf],
     vn_buf_pool = \<lparr>np_capacity = 128, np_buf_len = 1526, np_pool = 0x90000000, np_free_list = []\<rparr>, vn_raw = 1007\<rparr>"

lemma demo_tx_used: "tx_used demo_raw (\<lambda>d. replicate (d div 1000) 5)"
  unfolding tx_used_def
proof (intro conjI allI impI)
  show "raw_poll_transmit demo_raw d = (case replicate (d div 1000) 5 of [] \<Rightarrow> None | t # _ \<Rightarrow> Some t)" for d :: nat
    by (cases "d div 1000") (auto simp: demo_raw_def div_eq_0_iff not_less)
  fix d :: nat and t :: u16 and ts r
  assume "replicate (d div 1000) 5 = t # ts"
  then show "\<exists>d'. raw_transmit_complete demo_raw t r d = Some d' \<and> replicate (d' div 1000) 5 = ts"
    by (cases "d div 1000") (auto simp: demo_raw_def le_div_geq div_less)
qed

theorem recycle_tx_returns_witness:
  "\<exists>dev'. recycle_tx_buffers demo_raw demo_vn = Some (Ok (), dev') \<and> vn_free_tx_bufs dev' = [demo_buf, demo_buf] \<and> vn_tx_buffers dev' ! 5 = None"
proof -
  have u: "replicate (vn_raw demo_vn div 1000) 5 = [5 :: u16]" by (simp add: demo_vn_def)
  have d: "distinct [5 :: u16]" "\<forall>t\<in>set [5 :: u16]. unat t < length (vn_tx_buffers demo_vn) \<and> vn_tx_buffers demo_vn ! unat t \<noteq> None"
    by (simp_all add: demo_vn_def)
  have l: "length (vn_tx_buffers demo_vn) = 64" "vn_tx_buffers demo_vn ! 5 = Some demo_buf" "vn_free_tx_bufs demo_vn = [demo_buf]"
    by (simp_all add: demo_vn_def)
  from recycle_tx_returns [OF demo_tx_used u d] show ?thesis using l by auto
qed

text \<open>A transmit token keeps its promise: when the device wrapper has issued one, sending a frame
  of any length up to the advertised maximum of 1514 bytes finds a buffer, fits into it together with
  the 12-byte header, and occupies one transmit slot with exactly that packet length, provided the device
  accepts buffers into its free slots.\<close>

theorem tx_token_sends:
  assumes "dw_transmit api dev0 = Some (Ok True, dev)" "len \<le> 1514"
    and "\<forall>b\<in>set (vn_free_tx_bufs dev). nb_header_len b \<le> 12 \<and> nb_capacity b = 1526"
    and "\<And>r. raw_can_send api (vn_raw dev) \<Longrightarrow> \<exists>t d'. raw_transmit_begin api r (vn_raw dev) = Some (t, d') \<and> unat t < length (vn_tx_buffers dev) \<and> vn_tx_buffers dev ! unat t = None"
  shows "\<exists>t d'. tx_consume api len dev = (Ok (), dev\<lparr>vn_free_tx_bufs := butlast (vn_free_tx_bufs dev), vn_raw := d',
      vn_tx_buffers := (vn_tx_buffers dev)[t := Some (set_packet_len len (last (vn_free_tx_bufs dev)))]\<rparr>) \<and>
    t < length (vn_tx_buffers dev) \<and> vn_tx_buffers dev ! t = None"
proof -
  let ?b = "last (vn_free_tx_bufs dev)"
  have ct: "vn_free_tx_bufs dev \<noteq> []" "raw_can_send api (vn_raw dev)"
    using assms(1) by (auto simp: dw_transmit_def can_transmit_def split: option.splits prod.splits sum.splits exn.splits)
  then have b: "nb_header_len ?b \<le> 12" "nb_capacity ?b = 1526" using assms(3) by simp_all
  have "unat (nb_header_len ?b) \<le> 12" "unat len \<le> 1514" using b(1) assms(2) by (simp_all add: word_le_nat_alt)
  then have "unat (nb_header_len ?b + len) \<le> 1526" by (simp add: unat_word_ariths)
  then have fits: "\<not> nb_header_len ?b + len > nb_capacity ?b" by (simp add: b(2) word_le_nat_alt not_less)
  have al: "alloc_tx_buffer len dev = (Ok (into_buf_ptr (set_packet_len len ?b)), dev\<lparr>vn_free_tx_bufs := butlast (vn_free_tx_bufs dev)\<rparr>)"
    using ct(1) fits by (simp add: alloc_tx_buffer_def Let_def)
  obtain t d' where t: "raw_transmit_begin api (packet_range (set_packet_len len ?b)) (vn_raw dev) = Some (t, d')"
    "unat t < length (vn_tx_buffers dev)" "vn_tx_buffers dev ! unat t = None" using assms(4) [OF ct(2)] by blast
  have "tx_consume api len dev = (Ok (), dev\<lparr>vn_free_tx_bufs := butlast (vn_free_tx_bufs dev), vn_raw := d',
      vn_tx_buffers := (vn_tx_buffers dev)[unat t := Some (set_packet_len len ?b)]\<rparr>)"
    using al t by (simp add: tx_consume_def vn_transmit_def drop_slot_def unwrap_res_def Let_def)
  then show ?thesis using t by blast
qed

theorem tx_token_sends_witness:
  "\<exists>t d'. tx_consume demo_raw 1514 (demo_vn\<lparr>vn_raw := 7\<rparr>) = (Ok (), demo_vn\<lparr>vn_free_tx_bufs := [], vn_raw := d',
     vn_tx_buffers := (vn_tx_buffers demo_vn)[t := Some (set_packet_len 1514 demo_buf)]\<rparr>) \<and> t < length (vn_tx_buffers demo_vn)"
proof -
  let ?dev = "demo_vn\<lparr>vn_raw := 7\<rparr>"
  have r: "recycle_tx_buffers demo_raw ?dev = Some (Ok (), ?dev)"
    by (subst recycle_tx_buffers.simps) (simp add: demo_raw_def)
  have dw: "dw_transmit demo_raw ?dev = Some (Ok True, ?dev)"
    by (simp add: dw_transmit_def r can_transmit_def) (simp add: demo_raw_def demo_vn_def)
  have b: "\<forall>b\<in>set (vn_free_tx_bufs ?dev). nb_header_len b \<le> 12 \<and> nb_capacity b = 1526" by (simp add: demo_vn_def demo_buf_def)
  have t: "\<exists>t d'. raw_transmit_begin demo_raw r (vn_raw ?dev) = Some (t, d') \<and> unat t < length (vn_tx_buffers ?dev) \<and> vn_tx_buffers ?dev ! unat t = None" for r
    by (simp add: demo_raw_def demo_vn_def)
  have f: "vn_free_tx_bufs demo_vn = [demo_buf]" by (simp add: demo_vn_def)
  from tx_token_sends [OF dw _ b t, of 1514] show ?thesis by (simp add: f) blast
qed

text \<open>A request for a transmit buffer that is too large costs the driver a buffer: the request
  is refused, but the buffer has left the list of free transmit buffers and goes back to the pool, from
  which transmit buffers are never taken again; after as many such requests as there are free
  buffers the driver cannot transmit at all, whatever the device does.\<close>

theorem oversized_request_loses_buffer:
  assumes "length (vn_free_tx_bufs dev) = n" "\<forall>b\<in>set (vn_free_tx_bufs dev). nb_header_len b + len > nb_capacity b"
  shows "\<exists>dev'. ((\<lambda>dev. snd (alloc_tx_buffer len dev)) ^^ n) dev = dev' \<and> vn_free_tx_bufs dev' = [] \<and>
    length (np_free_list (vn_buf_pool dev')) = length (np_free_list (vn_buf_pool dev)) + n \<and>
    (\<forall>api d. \<not> can_transmit api (dev'\<lparr>vn_raw := d\<rparr>))"
  using assms
proof (induction n arbitrary: dev)
  case (Suc n)
  let ?dev1 = "snd (alloc_tx_buffer len dev)"
  have ne: "vn_free_tx_bufs dev \<noteq> []" using Suc.prems(1) by auto
  then have "nb_header_len (last (vn_free_tx_bufs dev)) + len > nb_capacity (last (vn_free_tx_bufs dev))" using Suc.prems(2) by simp
  then have d: "vn_free_tx_bufs ?dev1 = butlast (vn_free_tx_bufs dev)"
    "length (np_free_list (vn_buf_pool ?dev1)) = Suc (length (np_free_list (vn_buf_pool dev)))"
    using ne by (simp_all add: alloc_tx_buffer_def nb_drop_def pool_dealloc_def Let_def)
  have "length (vn_free_tx_bufs ?dev1) = n" "\<forall>b\<in>set (vn_free_tx_bufs ?dev1). nb_header_len b + len > nb_capacity b"
    using d(1) Suc.prems by (auto dest: in_set_butlastD)
  from Suc.IH [OF this] show ?case using d(2) by (simp add: funpow_Suc_right del: funpow.simps)
qed (simp add: can_transmit_def)

theorem oversized_request_loses_buffer_witness:
  "\<exists>dev'. snd (alloc_tx_buffer 2000 demo_vn) = dev' \<and> vn_free_tx_bufs dev' = [] \<and> (\<forall>api d. \<not> can_transmit api (dev'\<lparr>vn_raw := d\<rparr>))"
  using oversized_request_loses_buffer [of demo_vn 1 2000] by (simp add: demo_vn_def demo_buf_def)

end
