(* ===== verification/Tcp_Listen.thy ===== *)
theory Tcp_Listen
  imports Jrinx_Prelude "HOL-Library.Multiset"
begin

text \<open>
  The lower half of the TCP layer: address conversion (\<^verbatim>\<open>smoltcp_impl/addr.rs\<close>), the table of
  listening ports with its queues of half-open connections (\<^verbatim>\<open>listen_table.rs\<close>), and from
  \<^verbatim>\<open>smoltcp_impl/mod.rs\<close> the set of sockets and the inspection of received frames, all under
  \<^verbatim>\<open>kern/modules/driver/src\<close>. The protocol engine is the \<^verbatim>\<open>smoltcp\<close> crate: its sockets are
  values of a type \<^verbatim>\<open>'sk\<close> and its functions the fields of a record that every operation takes.
\<close>

section \<open>Addresses\<close>

type_synonym octets = "u8 \<times> u8 \<times> u8 \<times> u8"

datatype IpAddr = V4 octets | V6 "128 word"

datatype IpAddress = Ipv4 octets

record SocketAddr =
  sa_ip :: IpAddr
  sa_port :: u16

record IpEndpoint =
  ep_addr :: IpAddress
  ep_port :: u16

record IpListenEndpoint =
  le_addr :: "IpAddress option"
  le_port :: u16

definition from_core_ipaddr :: "IpAddr \<Rightarrow> IpAddress res" where
  "from_core_ipaddr ip = (case ip of V4 ipv4 \<Rightarrow> Ok (Ipv4 ipv4) | V6 _ \<Rightarrow> Panicked)"

definition into_core_ipaddr :: "IpAddress \<Rightarrow> IpAddr" where
  "into_core_ipaddr ip = (case ip of Ipv4 ipv4 \<Rightarrow> V4 ipv4)"

definition from_core_sockaddr :: "SocketAddr \<Rightarrow> IpEndpoint res" where
  "from_core_sockaddr addr =
     bind_res (from_core_ipaddr (sa_ip addr)) (\<lambda>ip. Ok \<lparr>ep_addr = ip, ep_port = sa_port addr\<rparr>)"

definition into_core_sockaddr :: "IpEndpoint \<Rightarrow> SocketAddr" where
  "into_core_sockaddr addr = \<lparr>sa_ip = into_core_ipaddr (ep_addr addr), sa_port = ep_port addr\<rparr>"

definition is_unspecified :: "IpAddress \<Rightarrow> bool" where
  "is_unspecified ip \<longleftrightarrow> ip = Ipv4 (0, 0, 0, 0)"

definition UNSPECIFIED_IP :: IpAddress where
  "UNSPECIFIED_IP = Ipv4 (0, 0, 0, 0)"

definition UNSPECIFIED_ENDPOINT :: IpEndpoint where
  "UNSPECIFIED_ENDPOINT = \<lparr>ep_addr = UNSPECIFIED_IP, ep_port = 0\<rparr>"

section \<open>The protocol engine\<close>

text \<open>The states of a \<^verbatim>\<open>smoltcp\<close> socket and the functions of the crate that the code calls; a
  function that may fail returns an option. \<^verbatim>\<open>api_slot\<close> is the handle that \<^verbatim>\<open>SocketSet::add\<close> chooses.\<close>

datatype TcpState = Closed | Listen | SynSent | SynReceived | Established | FinWait1 | FinWait2 | CloseWait
  | Closing | LastAck | TimeWait

type_synonym SocketHandle = nat

record ('sk, 'e) tcp_api =
  api_new :: 'sk
  api_listen :: "IpListenEndpoint \<Rightarrow> 'sk \<Rightarrow> 'sk option"
  api_connect :: "'e \<Rightarrow> IpEndpoint \<Rightarrow> IpListenEndpoint \<Rightarrow> 'sk \<Rightarrow> 'sk option"
  api_state :: "'sk \<Rightarrow> TcpState"
  api_local_endpoint :: "'sk \<Rightarrow> IpEndpoint option"
  api_remote_endpoint :: "'sk \<Rightarrow> IpEndpoint option"
  api_close :: "'sk \<Rightarrow> 'sk"
  api_is_active :: "'sk \<Rightarrow> bool"
  api_may_recv :: "'sk \<Rightarrow> bool"
  api_may_send :: "'sk \<Rightarrow> bool"
  api_can_recv :: "'sk \<Rightarrow> bool"
  api_can_send :: "'sk \<Rightarrow> bool"
  api_recv_queue :: "'sk \<Rightarrow> nat"
  api_recv_slice :: "nat \<Rightarrow> 'sk \<Rightarrow> (u8 list \<times> 'sk) option"
  api_send_slice :: "u8 list \<Rightarrow> 'sk \<Rightarrow> (nat \<times> 'sk) option"
  api_slot :: "(SocketHandle \<rightharpoonup> 'sk) \<Rightarrow> SocketHandle"

text \<open>\<^verbatim>\<open>SocketSet::add\<close> uses a free slot of the set.\<close>

definition slots_free :: "('sk, 'e) tcp_api \<Rightarrow> bool" where
  "slots_free api \<longleftrightarrow> (\<forall>m. finite (dom m) \<longrightarrow> m (api_slot api m) = None)"

section \<open>The state\<close>

definition LISTEN_QUEUE_SIZE :: nat where "LISTEN_QUEUE_SIZE = 512"

record ListenTableEntry =
  lt_endpoint :: IpListenEndpoint
  lt_syn_queue :: "SocketHandle list"

text \<open>The state after \<^verbatim>\<open>smoltcp_impl::init\<close>: the listen table with one slot for each of the
  65536 ports, the sockets, the next ephemeral port and the environment, that is the network
  interface with its device.\<close>

record ('sk, 'e) net =
  nt_tcp :: "u16 \<Rightarrow> ListenTableEntry option"
  nt_sockets :: "SocketHandle \<rightharpoonup> 'sk"
  nt_curr :: u16
  nt_env :: 'e

section \<open>The socket set\<close>

definition ss_add :: "('sk, 'e) tcp_api \<Rightarrow> 'sk \<Rightarrow> ('sk, 'e) net \<Rightarrow> SocketHandle \<times> ('sk, 'e) net" where
  "ss_add api socket w =
     (let handle = api_slot api (nt_sockets w)
      in (handle, w\<lparr>nt_sockets := (nt_sockets w)(handle \<mapsto> socket)\<rparr>))"

definition ss_remove :: "SocketHandle \<Rightarrow> ('sk, 'e) net \<Rightarrow> unit res \<times> ('sk, 'e) net" where
  "ss_remove handle w =
     (case nt_sockets w handle of
        None \<Rightarrow> (Panicked, w)
      | Some _ \<Rightarrow> (Ok (), w\<lparr>nt_sockets := (nt_sockets w)(handle := None)\<rparr>))"

definition with_socket :: "SocketHandle \<Rightarrow> ('sk \<Rightarrow> 'r res) \<Rightarrow> ('sk, 'e) net \<Rightarrow> 'r res" where
  "with_socket handle f w = (case nt_sockets w handle of None \<Rightarrow> Panicked | Some socket \<Rightarrow> f socket)"

definition with_socket_mut :: "SocketHandle \<Rightarrow> ('sk \<Rightarrow> 'r res \<times> 'sk) \<Rightarrow> ('sk, 'e) net \<Rightarrow> 'r res \<times> ('sk, 'e) net" where
  "with_socket_mut handle f w =
     (case nt_sockets w handle of
        None \<Rightarrow> (Panicked, w)
      | Some socket \<Rightarrow> (case f socket of (r, socket') \<Rightarrow> (r, w\<lparr>nt_sockets := (nt_sockets w)(handle \<mapsto> socket')\<rparr>)))"

section \<open>The listen table\<close>

definition lte_new :: "IpListenEndpoint \<Rightarrow> ListenTableEntry" where
  "lte_new listen_endpoint = \<lparr>lt_endpoint = listen_endpoint, lt_syn_queue = []\<rparr>"

definition lte_can_accept :: "ListenTableEntry \<Rightarrow> IpAddress \<Rightarrow> bool" where
  "lte_can_accept entry dst = (case le_addr (lt_endpoint entry) of Some addr \<Rightarrow> addr = dst | None \<Rightarrow> True)"

fun drop_handles :: "SocketHandle list \<Rightarrow> ('sk, 'e) net \<Rightarrow> unit res \<times> ('sk, 'e) net" where
  "drop_handles [] w = (Ok (), w)"
| "drop_handles (handle # rest) w =
     (case ss_remove handle w of (Inl e, w1) \<Rightarrow> (Inl e, w1) | (Ok _, w1) \<Rightarrow> drop_handles rest w1)"

definition lt_new :: "u16 \<Rightarrow> ListenTableEntry option" where
  "lt_new = (\<lambda>_. None)"

definition can_listen :: "u16 \<Rightarrow> ('sk, 'e) net \<Rightarrow> bool" where
  "can_listen port w \<longleftrightarrow> nt_tcp w port = None"

definition lt_listen :: "IpListenEndpoint \<Rightarrow> ('sk, 'e) net \<Rightarrow> unit res \<times> ('sk, 'e) net" where
  "lt_listen listen_endpoint w =
     (let port = le_port listen_endpoint
      in if port = 0 then (Panicked, w)
         else case nt_tcp w port of
                None \<Rightarrow> (Ok (), w\<lparr>nt_tcp := (nt_tcp w)(port \<mapsto> lte_new listen_endpoint)\<rparr>)
              | Some _ \<Rightarrow> (Fail NetFail, w))"

text \<open>Overwriting the slot drops the entry, and dropping an entry removes the sockets of its
  queue.\<close>

definition unlisten :: "u16 \<Rightarrow> ('sk, 'e) net \<Rightarrow> unit res \<times> ('sk, 'e) net" where
  "unlisten port w =
     (case nt_tcp w port of
        None \<Rightarrow> (Ok (), w)
      | Some entry \<Rightarrow> drop_handles (lt_syn_queue entry) (w\<lparr>nt_tcp := (nt_tcp w)(port := None)\<rparr>))"

definition is_connected :: "('sk, 'e) tcp_api \<Rightarrow> ('sk, 'e) net \<Rightarrow> SocketHandle \<Rightarrow> bool res" where
  "is_connected api w handle = with_socket handle (\<lambda>socket. Ok (api_state api socket \<notin> {Listen, SynReceived})) w"

definition get_addr_tuple :: "('sk, 'e) tcp_api \<Rightarrow> ('sk, 'e) net \<Rightarrow> SocketHandle \<Rightarrow> (IpEndpoint \<times> IpEndpoint) res" where
  "get_addr_tuple api w handle =
     with_socket handle (\<lambda>socket.
       bind_res (unwrap_opt (api_local_endpoint api socket)) (\<lambda>l.
       bind_res (unwrap_opt (api_remote_endpoint api socket)) (\<lambda>r. Ok (l, r)))) w"

fun any_connected :: "('sk, 'e) tcp_api \<Rightarrow> ('sk, 'e) net \<Rightarrow> SocketHandle list \<Rightarrow> bool res" where
  "any_connected api w [] = Ok False"
| "any_connected api w (handle # rest) =
     bind_res (is_connected api w handle) (\<lambda>b. if b then Ok True else any_connected api w rest)"

definition lt_can_accept :: "('sk, 'e) tcp_api \<Rightarrow> u16 \<Rightarrow> ('sk, 'e) net \<Rightarrow> bool res" where
  "lt_can_accept api port w =
     (case nt_tcp w port of Some entry \<Rightarrow> any_connected api w (lt_syn_queue entry) | None \<Rightarrow> Fail NetFail)"

fun find_connected :: "('sk, 'e) tcp_api \<Rightarrow> ('sk, 'e) net \<Rightarrow> nat \<Rightarrow> SocketHandle list \<Rightarrow> (nat \<times> IpEndpoint \<times> IpEndpoint) option res" where
  "find_connected api w idx [] = Ok None"
| "find_connected api w idx (handle # rest) =
     bind_res (is_connected api w handle) (\<lambda>b.
       if b then bind_res (get_addr_tuple api w handle) (\<lambda>t. Ok (Some (idx, t)))
       else find_connected api w (Suc idx) rest)"

text \<open>\<^verbatim>\<open>VecDeque::swap_remove_front\<close>: the element is replaced by the first one, which is removed.\<close>

definition swap_remove_front :: "nat \<Rightarrow> 'a list \<Rightarrow> ('a \<times> 'a list) option" where
  "swap_remove_front idx q = (if idx < length q then Some (q ! idx, tl (q[idx := hd q])) else None)"

definition lt_accept :: "('sk, 'e) tcp_api \<Rightarrow> u16 \<Rightarrow> ('sk, 'e) net \<Rightarrow>
    (SocketHandle \<times> IpEndpoint \<times> IpEndpoint) res \<times> ('sk, 'e) net" where
  "lt_accept api port w =
     (case nt_tcp w port of
        None \<Rightarrow> (Fail NetFail, w)
      | Some entry \<Rightarrow>
          (case find_connected api w 0 (lt_syn_queue entry) of
             Inl e \<Rightarrow> (Inl e, w)
           | Ok None \<Rightarrow> (Fail WouldBlock, w)
           | Ok (Some (idx, addr_tuple)) \<Rightarrow>
               (case swap_remove_front idx (lt_syn_queue entry) of
                  None \<Rightarrow> (Panicked, w)
                | Some (handle, q) \<Rightarrow>
                    (Ok (handle, addr_tuple), w\<lparr>nt_tcp := (nt_tcp w)(port \<mapsto> entry\<lparr>lt_syn_queue := q\<rparr>)\<rparr>))))"

definition incoming_tcp_packet :: "('sk, 'e) tcp_api \<Rightarrow> IpEndpoint \<Rightarrow> IpEndpoint \<Rightarrow> ('sk, 'e) net \<Rightarrow> ('sk, 'e) net" where
  "incoming_tcp_packet api src dst w =
     (case nt_tcp w (ep_port dst) of
        None \<Rightarrow> w
      | Some entry \<Rightarrow>
          if \<not> lte_can_accept entry (ep_addr dst) then w
          else if length (lt_syn_queue entry) \<ge> LISTEN_QUEUE_SIZE then w
          else case api_listen api (lt_endpoint entry) (api_new api) of
                 None \<Rightarrow> w
               | Some socket \<Rightarrow>
                   (case ss_add api socket w of
                      (handle, w1) \<Rightarrow>
                        w1\<lparr>nt_tcp := (nt_tcp w1)(ep_port dst \<mapsto> entry\<lparr>lt_syn_queue := lt_syn_queue entry @ [handle]\<rparr>)\<rparr>))"

text \<open>The packet parsers of \<^verbatim>\<open>smoltcp\<close>: the payload of an Ethernet frame, the fields of an IPv4 and
  of a TCP packet.\<close>

record wire_api =
  wire_ether :: "u8 list \<Rightarrow> u8 list option"
  wire_ipv4 :: "u8 list \<Rightarrow> (u8 \<times> octets \<times> octets \<times> u8 list) option"
  wire_tcp :: "u8 list \<Rightarrow> (u16 \<times> u16 \<times> bool \<times> bool) option"

definition IpProtocol_Tcp :: u8 where "IpProtocol_Tcp = 6"

definition snoop_tcp_packet :: "wire_api \<Rightarrow> ('sk, 'e) tcp_api \<Rightarrow> u8 list \<Rightarrow> ('sk, 'e) net \<Rightarrow> ('sk, 'e) net" where
  "snoop_tcp_packet wr api buf w =
     (case wire_ether wr buf of
        None \<Rightarrow> w
      | Some ether_payload \<Rightarrow>
          (case wire_ipv4 wr ether_payload of
             None \<Rightarrow> w
           | Some (next_header, src, dst, payload) \<Rightarrow>
               if next_header = IpProtocol_Tcp then
                 (case wire_tcp wr payload of
                    None \<Rightarrow> w
                  | Some (src_port, dst_port, syn, ack) \<Rightarrow>
                      if syn \<and> \<not> ack
                      then incoming_tcp_packet api \<lparr>ep_addr = Ipv4 src, ep_port = src_port\<rparr> \<lparr>ep_addr = Ipv4 dst, ep_port = dst_port\<rparr> w
                      else w)
               else w))"

section \<open>Facts\<close>

subsection \<open>Ownership of handles\<close>

text \<open>The sockets waiting in the queues; the queues are well formed: an entry sits at the port it
  listens on, never at port 0, its queue is bounded, and every queued socket exists and is queued
  once. \<open>holds F w\<close>: the handles of \<^verbatim>\<open>F\<close> exist and no queue has them, they belong to somebody else.\<close>

definition queue_of :: "('sk, 'e) net \<Rightarrow> u16 \<Rightarrow> SocketHandle list" where
  "queue_of w p = (case nt_tcp w p of None \<Rightarrow> [] | Some e \<Rightarrow> lt_syn_queue e)"

definition lt_inv :: "('sk, 'e) net \<Rightarrow> bool" where
  "lt_inv w \<longleftrightarrow> finite (dom (nt_sockets w)) \<and>
     (\<forall>p e. nt_tcp w p = Some e \<longrightarrow> le_port (lt_endpoint e) = p \<and> p \<noteq> 0) \<and>
     (\<forall>p. length (queue_of w p) \<le> LISTEN_QUEUE_SIZE \<and> distinct (queue_of w p) \<and> set (queue_of w p) \<subseteq> dom (nt_sockets w)) \<and>
     (\<forall>p q. p \<noteq> q \<longrightarrow> set (queue_of w p) \<inter> set (queue_of w q) = {})"

definition holds :: "SocketHandle set \<Rightarrow> ('sk, 'e) net \<Rightarrow> bool" where
  "holds F w \<longleftrightarrow> lt_inv w \<and> F \<subseteq> dom (nt_sockets w) \<and> (\<forall>p. F \<inter> set (queue_of w p) = {})"

text \<open>\<^verbatim>\<open>queue_upd\<close> replaces one queue.\<close>

lemma queue_of_upd [simp]:
  "queue_of (w\<lparr>nt_tcp := (nt_tcp w)(p := x)\<rparr>) q = (if q = p then (case x of None \<Rightarrow> [] | Some e \<Rightarrow> lt_syn_queue e) else queue_of w q)"
  by (simp add: queue_of_def)

lemma queue_of_fields [simp]:
  "queue_of (w\<lparr>nt_sockets := m\<rparr>) = queue_of w" "queue_of (w\<lparr>nt_curr := c\<rparr>) = queue_of w" "queue_of (w\<lparr>nt_env := e\<rparr>) = queue_of w"
  by (simp_all add: queue_of_def fun_eq_iff)

lemma queue_of_Some [simp]: "nt_tcp w p = Some e \<Longrightarrow> queue_of w p = lt_syn_queue e"
  by (simp add: queue_of_def)

lemma lt_invD:
  assumes "lt_inv w"
  shows "finite (dom (nt_sockets w))" "distinct (queue_of w p)" "set (queue_of w p) \<subseteq> dom (nt_sockets w)"
    "length (queue_of w p) \<le> LISTEN_QUEUE_SIZE" "p \<noteq> q \<Longrightarrow> set (queue_of w p) \<inter> set (queue_of w q) = {}"
    "nt_tcp w p = Some e \<Longrightarrow> le_port (lt_endpoint e) = p" "nt_tcp w p = Some e \<Longrightarrow> p \<noteq> 0"
  using assms unfolding lt_inv_def by blast+

lemma holds_lt_inv: "holds F w \<Longrightarrow> lt_inv w"
  by (simp add: holds_def)

lemma holds_live: "holds F w \<Longrightarrow> h \<in> F \<Longrightarrow> nt_sockets w h \<noteq> None"
  by (auto simp: holds_def dom_def)

lemma holds_mono: "holds F w \<Longrightarrow> G \<subseteq> F \<Longrightarrow> holds G w"
  by (auto simp: holds_def)

text \<open>Changing the value of a socket that exists, the ephemeral port or the environment.\<close>

lemma holds_same_dom:
  assumes "holds F w" "dom (nt_sockets w') = dom (nt_sockets w)" "nt_tcp w' = nt_tcp w"
  shows "holds F w'"
proof -
  have "queue_of w' = queue_of w" by (simp add: queue_of_def fun_eq_iff assms(3))
  then show ?thesis using assms by (simp add: holds_def lt_inv_def)
qed

lemma holds_with_socket_mut:
  assumes "with_socket_mut h f w = (r, w')" "holds F w"
  shows "holds F w'"
  using assms by (auto simp: with_socket_mut_def split: option.splits prod.splits if_splits intro!: holds_same_dom [OF assms(2)])

lemma holds_ss_add:
  assumes "slots_free api" "ss_add api socket w = (h, w')" "holds F w"
  shows "h \<notin> F" "holds (insert h F) w'" "nt_sockets w' = (nt_sockets w)(h \<mapsto> socket)" "nt_tcp w' = nt_tcp w"
proof -
  have w': "w' = w\<lparr>nt_sockets := (nt_sockets w)(h \<mapsto> socket)\<rparr>" using assms(2) by (auto simp: ss_add_def Let_def)
  have new: "nt_sockets w h = None" using assms by (auto simp: slots_free_def ss_add_def holds_def lt_inv_def Let_def)
  show "h \<notin> F" using new assms(3) by (auto simp: holds_def)
  show "nt_sockets w' = (nt_sockets w)(h \<mapsto> socket)" "nt_tcp w' = nt_tcp w" by (simp_all add: w')
  have "h \<notin> set (queue_of w p)" for p using new assms(3) by (auto simp: holds_def lt_inv_def)
  then show "holds (insert h F) w'"
    using assms(3) by (auto simp: w' holds_def lt_inv_def subset_iff)
qed

lemma holds_ss_remove:
  assumes "holds (insert h F) w" "h \<notin> F"
  shows "\<exists>w'. ss_remove h w = (Ok (), w') \<and> holds F w' \<and> nt_tcp w' = nt_tcp w \<and> nt_sockets w' = (nt_sockets w)(h := None)"
proof -
  obtain s where s: "nt_sockets w h = Some s" using assms(1) by (auto simp: holds_def)
  define w' where "w' = w\<lparr>nt_sockets := (nt_sockets w)(h := None)\<rparr>"
  have "ss_remove h w = (Ok (), w')" by (simp add: ss_remove_def s w'_def)
  moreover have "h \<notin> set (queue_of w p)" for p using assms(1) by (auto simp: holds_def)
  then have "holds F w'" using assms by (auto simp: w'_def holds_def lt_inv_def subset_iff)
  ultimately show ?thesis by (simp add: w'_def)
qed

lemma holds_lt_listen:
  assumes "lt_listen ep w = (r, w')" "holds F w"
  shows "holds F w'"
proof (cases "r = Ok ()")
  case True
  then have w': "w' = w\<lparr>nt_tcp := (nt_tcp w)(le_port ep \<mapsto> lte_new ep)\<rparr>" and "le_port ep \<noteq> 0" "nt_tcp w (le_port ep) = None"
    using assms(1) by (auto simp: lt_listen_def Let_def split: if_splits option.splits)
  then show ?thesis using assms(2) by (auto simp: holds_def lt_inv_def lte_new_def queue_of_def)
next
  case False
  then show ?thesis using assms by (auto simp: lt_listen_def Let_def split: if_splits option.splits)
qed

lemma drop_handles_ok:
  assumes "holds (set hs \<union> F) w" "distinct hs" "set hs \<inter> F = {}"
  shows "\<exists>w'. drop_handles hs w = (Ok (), w') \<and> holds F w' \<and> nt_tcp w' = nt_tcp w \<and> dom (nt_sockets w') = dom (nt_sockets w) - set hs"
  using assms
proof (induction hs arbitrary: w)
  case (Cons h hs)
  from Cons.prems have "holds (insert h (set hs \<union> F)) w" "h \<notin> set hs \<union> F" by auto
  from holds_ss_remove [OF this] obtain w1 where w1: "ss_remove h w = (Ok (), w1)" "holds (set hs \<union> F) w1"
    "nt_tcp w1 = nt_tcp w" "nt_sockets w1 = (nt_sockets w)(h := None)" by blast
  obtain w' where w': "drop_handles hs w1 = (Ok (), w')" "holds F w'" "nt_tcp w' = nt_tcp w1"
    "dom (nt_sockets w') = dom (nt_sockets w1) - set hs"
    using Cons.IH [OF w1(2)] Cons.prems(2,3) by auto
  then show ?case by (intro exI [of _ w']) (auto simp: w1)
qed simp

lemma unlisten_ok:
  assumes "holds F w"
  shows "\<exists>w'. unlisten port w = (Ok (), w') \<and> holds F w' \<and> nt_tcp w' = (nt_tcp w)(port := None) \<and>
    dom (nt_sockets w') = dom (nt_sockets w) - set (queue_of w port)"
proof (cases "nt_tcp w port")
  case None
  then show ?thesis using assms by (auto simp: unlisten_def queue_of_def fun_upd_idem)
next
  case (Some entry)
  define w1 where "w1 = w\<lparr>nt_tcp := (nt_tcp w)(port := None)\<rparr>"
  note inv = lt_invD [OF holds_lt_inv [OF assms]]
  have q: "lt_syn_queue entry = queue_of w port" by (simp add: Some)
  have F: "F \<subseteq> dom (nt_sockets w)" "F \<inter> set (queue_of w p) = {}" for p using assms by (simp_all add: holds_def)
  have "lt_inv w1" using holds_lt_inv [OF assms] by (auto simp: lt_inv_def w1_def)
  moreover have "set (queue_of w port) \<inter> set (queue_of w1 p) = {}" for p using inv(5) [of port p] by (simp add: w1_def)
  moreover have "F \<inter> set (queue_of w1 p) = {}" for p using F(2) by (simp add: w1_def)
  moreover have "nt_sockets w1 = nt_sockets w" by (simp add: w1_def)
  ultimately have h: "holds (set (queue_of w port) \<union> F) w1"
    using F(1) inv(3) [of port] by (simp add: holds_def Int_Un_distrib2)
  obtain w' where "drop_handles (queue_of w port) w1 = (Ok (), w')" "holds F w'" "nt_tcp w' = nt_tcp w1"
    "dom (nt_sockets w') = dom (nt_sockets w1) - set (queue_of w port)"
    using drop_handles_ok [OF h inv(2)] F(2) [of port] by (auto simp: Int_commute)
  then show ?thesis by (simp add: unlisten_def Some w1_def q del: queue_of_Some)
qed

subsection \<open>Accepting a connection\<close>

lemma find_connected_Some:
  "find_connected api w i q = Ok (Some (k, t)) \<Longrightarrow>
   i \<le> k \<and> k - i < length q \<and> is_connected api w (q ! (k - i)) = Ok True \<and> get_addr_tuple api w (q ! (k - i)) = Ok t \<and>
   (\<forall>j < k - i. is_connected api w (q ! j) = Ok False)"
proof (induction q arbitrary: i)
  case (Cons h q)
  obtain b where b: "is_connected api w h = Ok b" using Cons.prems by (cases "is_connected api w h") auto
  show ?case
  proof (cases b)
    case True
    then show ?thesis using Cons.prems b by (cases "get_addr_tuple api w h") auto
  next
    case False
    then have IH: "Suc i \<le> k \<and> k - Suc i < length q \<and> is_connected api w (q ! (k - Suc i)) = Ok True \<and>
        get_addr_tuple api w (q ! (k - Suc i)) = Ok t \<and> (\<forall>j < k - Suc i. is_connected api w (q ! j) = Ok False)"
      using Cons.prems b Cons.IH [of "Suc i"] by simp
    then have "k - i = Suc (k - Suc i)" by (simp add: Suc_diff_Suc Suc_le_eq)
    then show ?thesis using IH b False by (auto simp: less_Suc_eq_0_disj)
  qed
qed simp

lemma find_connected_none:
  "\<forall>h\<in>set q. is_connected api w h = Ok False \<Longrightarrow> find_connected api w i q = Ok None"
  by (induction q arbitrary: i) simp_all

lemma find_connected_total:
  assumes "\<forall>h\<in>set q. \<exists>k. nt_sockets w h = Some k \<and>
    (api_state api k \<notin> {Listen, SynReceived} \<longrightarrow> api_local_endpoint api k \<noteq> None \<and> api_remote_endpoint api k \<noteq> None)"
  shows "\<exists>x. find_connected api w i q = Ok x \<and> (x = None \<longleftrightarrow> (\<forall>h\<in>set q. is_connected api w h = Ok False))"
  using assms
proof (induction q arbitrary: i)
  case (Cons h q)
  then obtain k where k: "nt_sockets w h = Some k"
    "api_state api k \<notin> {Listen, SynReceived} \<longrightarrow> api_local_endpoint api k \<noteq> None \<and> api_remote_endpoint api k \<noteq> None" by auto
  have c: "is_connected api w h = Ok (api_state api k \<notin> {Listen, SynReceived})" using k(1) by (simp add: is_connected_def with_socket_def)
  show ?case
  proof (cases "api_state api k \<notin> {Listen, SynReceived}")
    case True
    then obtain l r where "api_local_endpoint api k = Some l" "api_remote_endpoint api k = Some r" using k(2) by auto
    then show ?thesis using c True k(1) by (auto simp: get_addr_tuple_def with_socket_def unwrap_opt_def)
  next
    case False
    then show ?thesis using c Cons.IH [of "Suc i"] Cons.prems by simp
  qed
qed simp

lemma swap_remove_front_mset:
  assumes "swap_remove_front idx q = Some (h, q')"
  shows "idx < length q" "h = q ! idx" "mset q = add_mset h (mset q')"
proof -
  have s: "idx < length q" "h = q ! idx" "q' = tl (q[idx := hd q])"
    using assms by (auto simp: swap_remove_front_def split: if_splits)
  then show "idx < length q" "h = q ! idx" by simp_all
  from s(1) obtain a r where q: "q = a # r" by (cases q) auto
  show "mset q = add_mset h (mset q')"
  proof (cases idx)
    case (Suc j)
    then have "r ! j \<in># mset r" using s(1) q by simp
    then show ?thesis using s Suc q by (simp add: mset_update)
  qed (use s q in simp)
qed

lemma lt_accept_cases:
  assumes "lt_accept api port w = (r, w')"
  obtains (err) e where "w' = w" "r = Inl e"
  | (taken) entry idx h t q' where "nt_tcp w port = Some entry" "find_connected api w 0 (lt_syn_queue entry) = Ok (Some (idx, t))"
      "swap_remove_front idx (lt_syn_queue entry) = Some (h, q')" "r = Ok (h, t)"
      "w' = w\<lparr>nt_tcp := (nt_tcp w)(port \<mapsto> entry\<lparr>lt_syn_queue := q'\<rparr>)\<rparr>"
proof (cases "nt_tcp w port")
  case None
  then show ?thesis using assms by (intro err) (auto simp: lt_accept_def)
next
  case entry: (Some entry)
  show ?thesis
  proof (cases "find_connected api w 0 (lt_syn_queue entry)")
    case (Inl e)
    then show ?thesis using assms entry by (intro err) (auto simp: lt_accept_def)
  next
    case found: (Inr x)
    show ?thesis
    proof (cases x)
      case None
      then show ?thesis using assms entry found by (intro err) (auto simp: lt_accept_def)
    next
      case (Some y)
      obtain idx t where y: "y = (idx, t)" by (cases y)
      show ?thesis
      proof (cases "swap_remove_front idx (lt_syn_queue entry)")
        case None
        then show ?thesis using assms entry found Some y by (intro err) (auto simp: lt_accept_def)
      next
        case (Some z)
        then show ?thesis
          using assms entry found \<open>x = Some y\<close> y taken [of entry idx t "fst z" "snd z"] by (cases z) (auto simp: lt_accept_def)
      qed
    qed
  qed
qed

lemma holds_take:
  assumes "holds F w" "nt_tcp w port = Some entry" "mset (lt_syn_queue entry) = add_mset h (mset q')"
  shows "h \<notin> F" "holds (insert h F) (w\<lparr>nt_tcp := (nt_tcp w)(port \<mapsto> entry\<lparr>lt_syn_queue := q'\<rparr>)\<rparr>)" (is "holds _ ?w'")
proof -
  note inv = lt_invD [OF holds_lt_inv [OF assms(1)]]
  have q: "queue_of w port = lt_syn_queue entry" by (simp add: assms(2))
  have st: "set (queue_of w port) = insert h (set q')" using arg_cong [OF assms(3), of set_mset] by (simp add: q)
  have len: "length (queue_of w port) = Suc (length q')" using arg_cong [OF assms(3), of size] by (simp add: q)
  have "distinct (queue_of w port) \<longleftrightarrow> distinct (h # q')"
    by (rule mset_eq_imp_distinct_iff) (simp add: q assms(3))
  then have d: "h \<notin> set q'" "distinct q'" using inv(2) by auto
  have F: "F \<subseteq> dom (nt_sockets w)" "F \<inter> set (queue_of w p) = {}" for p using assms(1) by (simp_all add: holds_def)
  show "h \<notin> F" using F(2) [of port] st by auto
  have sub: "set (queue_of ?w' p) \<subseteq> set (queue_of w p)" for p using st by auto
  have h: "h \<notin> set (queue_of ?w' p)" for p using d inv(5) [of p port] st by auto
  have "lt_inv ?w'"
    unfolding lt_inv_def
  proof (intro conjI allI impI)
    show "set (queue_of ?w' p) \<inter> set (queue_of ?w' q) = {}" if "p \<noteq> q" for p q
      using inv(5) [OF that] sub [of p] sub [of q] by blast
    show "set (queue_of ?w' p) \<subseteq> dom (nt_sockets ?w')" for p using inv(3) [of p] sub [of p] by auto
    show "length (queue_of ?w' p) \<le> LISTEN_QUEUE_SIZE" for p using inv(4) [of p] inv(4) [of port] len by auto
  qed (use inv(1,2) inv(6,7) assms(2) d in \<open>auto split: if_splits\<close>)
  moreover have "insert h F \<subseteq> dom (nt_sockets ?w')" using F(1) st inv(3) [of port] by auto
  moreover have "insert h F \<inter> set (queue_of ?w' p) = {}" for p using F(2) [of p] sub [of p] h [of p] by blast
  ultimately show "holds (insert h F) ?w'" by (simp add: holds_def)
qed

lemma lt_accept_holds:
  assumes "lt_accept api port w = (Ok (h, t), w')" "holds F w"
  shows "h \<notin> F" "holds (insert h F) w'" "nt_sockets w' = nt_sockets w"
    "mset (queue_of w port) = add_mset h (mset (queue_of w' port))" "p \<noteq> port \<Longrightarrow> nt_tcp w' p = nt_tcp w p"
proof -
  from assms(1) obtain entry idx q' where e: "nt_tcp w port = Some entry" "swap_remove_front idx (lt_syn_queue entry) = Some (h, q')"
      "w' = w\<lparr>nt_tcp := (nt_tcp w)(port \<mapsto> entry\<lparr>lt_syn_queue := q'\<rparr>)\<rparr>"
    by (cases rule: lt_accept_cases) auto
  note m = swap_remove_front_mset(3) [OF e(2)]
  show "h \<notin> F" "holds (insert h F) w'" using holds_take [OF assms(2) e(1) m] by (simp_all add: e(3))
  show "mset (queue_of w port) = add_mset h (mset (queue_of w' port))" by (simp add: e m)
  show "nt_sockets w' = nt_sockets w" "p \<noteq> port \<Longrightarrow> nt_tcp w' p = nt_tcp w p" by (simp_all add: e)
qed

subsection \<open>A first packet\<close>

lemma incoming_cases:
  obtains (ignored) "incoming_tcp_packet api src dst w = w"
  | (queued) entry socket h w1 where "nt_tcp w (ep_port dst) = Some entry" "lte_can_accept entry (ep_addr dst)"
      "length (lt_syn_queue entry) < LISTEN_QUEUE_SIZE" "api_listen api (lt_endpoint entry) (api_new api) = Some socket"
      "ss_add api socket w = (h, w1)" "incoming_tcp_packet api src dst w =
         w1\<lparr>nt_tcp := (nt_tcp w1)(ep_port dst \<mapsto> entry\<lparr>lt_syn_queue := lt_syn_queue entry @ [h]\<rparr>)\<rparr>"
proof (cases "\<exists>entry socket. nt_tcp w (ep_port dst) = Some entry \<and> lte_can_accept entry (ep_addr dst) \<and>
    length (lt_syn_queue entry) < LISTEN_QUEUE_SIZE \<and> api_listen api (lt_endpoint entry) (api_new api) = Some socket")
  case True
  then obtain entry socket where e: "nt_tcp w (ep_port dst) = Some entry" "lte_can_accept entry (ep_addr dst)"
      "length (lt_syn_queue entry) < LISTEN_QUEUE_SIZE" "api_listen api (lt_endpoint entry) (api_new api) = Some socket" by blast
  obtain h w1 where "ss_add api socket w = (h, w1)" by (cases "ss_add api socket w")
  then show ?thesis using e by (intro queued [OF e]) (simp_all add: incoming_tcp_packet_def)
next
  case False
  then show ?thesis by (intro ignored) (simp add: incoming_tcp_packet_def split: option.split)
qed

lemma holds_put:
  assumes "holds (insert h F) w" "h \<notin> F" "nt_tcp w port = Some entry" "length (lt_syn_queue entry) < LISTEN_QUEUE_SIZE"
  shows "holds F (w\<lparr>nt_tcp := (nt_tcp w)(port \<mapsto> entry\<lparr>lt_syn_queue := lt_syn_queue entry @ [h]\<rparr>)\<rparr>)" (is "holds _ ?w'")
proof -
  note inv = lt_invD [OF holds_lt_inv [OF assms(1)]]
  have q: "queue_of w port = lt_syn_queue entry" by (simp add: assms(3))
  have F: "F \<subseteq> dom (nt_sockets w)" "h \<in> dom (nt_sockets w)" "F \<inter> set (queue_of w p) = {}" "h \<notin> set (queue_of w p)" for p
    using assms(1) by (auto simp: holds_def)
  have q': "set (queue_of ?w' p) = set (queue_of w p) \<union> (if p = port then {h} else {})" for p by (simp add: q)
  have "lt_inv ?w'"
    unfolding lt_inv_def
  proof (intro conjI allI impI)
    show "set (queue_of ?w' p) \<inter> set (queue_of ?w' q) = {}" if "p \<noteq> q" for p q
      using inv(5) [OF that] F(4) that unfolding q' by auto
    show "set (queue_of ?w' p) \<subseteq> dom (nt_sockets ?w')" for p using inv(3) [of p] F(2) unfolding q' by auto
    show "distinct (queue_of ?w' p)" for p using inv(2) [of p] inv(2) [of port] F(4) [of port] q by auto
    show "length (queue_of ?w' p) \<le> LISTEN_QUEUE_SIZE" for p using inv(4) [of p] assms(4) by auto
  qed (use inv(1,6,7) assms(3) in \<open>auto split: if_splits\<close>)
  moreover have "F \<inter> set (queue_of ?w' p) = {}" for p using F(3) assms(2) unfolding q' by auto
  ultimately show ?thesis using F(1) by (simp add: holds_def)
qed

lemma holds_incoming:
  assumes "slots_free api" "holds F w"
  shows "holds F (incoming_tcp_packet api src dst w)"
proof (cases rule: incoming_cases [of api src dst w])
  case (queued entry socket h w1)
  note add = holds_ss_add [OF assms(1) queued(5) assms(2)]
  show ?thesis
    unfolding queued(6) by (rule holds_put [OF add(2,1) _ queued(3)]) (simp add: add queued)
qed (use assms in simp)

lemma holds_snoop:
  "slots_free api \<Longrightarrow> holds F w \<Longrightarrow> holds F (snoop_tcp_packet wr api buf w)"
  by (auto simp: snoop_tcp_packet_def holds_incoming split: option.splits)

end
