(* ===== verification/Tcp.thy ===== *)
theory Tcp
  imports Tcp_Listen
begin

text \<open>
  TCP sockets, \<^verbatim>\<open>kern/modules/driver/src/smoltcp_impl/tcp.rs\<close>: a state word that guards the other
  fields, and the operations of a client and of a server on it. An operation works on the socket
  and the network state. Polling the interface runs the protocol engine and is a parameter
  \<^verbatim>\<open>poll\<close>; the loop of a blocking operation need not end, so those operations return an option.
\<close>

section \<open>The code\<close>

definition STATE_CLOSED :: u8 where "STATE_CLOSED = 0"
definition STATE_BUSY :: u8 where "STATE_BUSY = 1"
definition STATE_CONNECTING :: u8 where "STATE_CONNECTING = 2"
definition STATE_CONNECTED :: u8 where "STATE_CONNECTED = 3"
definition STATE_LISTENING :: u8 where "STATE_LISTENING = 4"

lemmas STATE_defs = STATE_CLOSED_def STATE_BUSY_def STATE_CONNECTING_def STATE_CONNECTED_def STATE_LISTENING_def

record TcpSocket =
  tc_state :: u8
  tc_handle :: "SocketHandle option"
  tc_local_addr :: IpEndpoint
  tc_peer_addr :: IpEndpoint
  tc_nonblock :: bool

record PollState =
  readable :: bool
  writable :: bool

type_synonym ('sk, 'e) tcp_st = "TcpSocket \<times> ('sk, 'e) net"

text \<open>Sequencing with an early return on an error.\<close>

definition bind_st :: "'a res \<times> 's \<Rightarrow> ('a \<Rightarrow> 's \<Rightarrow> 'b res \<times> 's) \<Rightarrow> 'b res \<times> 's" where
  "bind_st m f = (case m of (Inl e, s) \<Rightarrow> (Inl e, s) | (Inr a, s) \<Rightarrow> f a s)"

lemma bind_st_simps [simp]: "bind_st (Inl e, s) f = (Inl e, s)" "bind_st (Inr a, s) f = f a s"
  by (simp_all add: bind_st_def)

definition lift_net :: "(('sk, 'e) net \<Rightarrow> 'a res \<times> ('sk, 'e) net) \<Rightarrow> ('sk, 'e) tcp_st \<Rightarrow> 'a res \<times> ('sk, 'e) tcp_st" where
  "lift_net f s = (case f (snd s) of (r, w) \<Rightarrow> (r, (fst s, w)))"

definition tcp_new :: TcpSocket where
  "tcp_new = \<lparr>tc_state = STATE_CLOSED, tc_handle = None, tc_local_addr = UNSPECIFIED_ENDPOINT,
     tc_peer_addr = UNSPECIFIED_ENDPOINT, tc_nonblock = False\<rparr>"

definition tcp_new_connected :: "SocketHandle \<Rightarrow> IpEndpoint \<Rightarrow> IpEndpoint \<Rightarrow> TcpSocket" where
  "tcp_new_connected handle local_addr peer_addr =
     \<lparr>tc_state = STATE_CONNECTED, tc_handle = Some handle, tc_local_addr = local_addr, tc_peer_addr = peer_addr, tc_nonblock = False\<rparr>"

definition tcp_local_addr :: "TcpSocket \<Rightarrow> SocketAddr res" where
  "tcp_local_addr sk =
     (if tc_state sk = STATE_CONNECTED \<or> tc_state sk = STATE_LISTENING then Ok (into_core_sockaddr (tc_local_addr sk)) else Fail NetFail)"

definition tcp_peer_addr :: "TcpSocket \<Rightarrow> SocketAddr res" where
  "tcp_peer_addr sk =
     (if tc_state sk = STATE_CONNECTED \<or> tc_state sk = STATE_LISTENING then Ok (into_core_sockaddr (tc_peer_addr sk)) else Fail NetFail)"

definition set_nonblocking :: "bool \<Rightarrow> TcpSocket \<Rightarrow> TcpSocket" where
  "set_nonblocking nonblocking sk = sk\<lparr>tc_nonblock := nonblocking\<rparr>"

definition check_bind :: "TcpSocket \<Rightarrow> bool" where
  "check_bind sk \<longleftrightarrow> tc_local_addr sk = UNSPECIFIED_ENDPOINT"

definition set_state :: "u8 \<Rightarrow> ('sk, 'e) tcp_st \<Rightarrow> ('sk, 'e) tcp_st" where
  "set_state st s = ((fst s)\<lparr>tc_state := st\<rparr>, snd s)"

text \<open>The result is \<^verbatim>\<open>Inl old\<close> when the state is not the expected one.\<close>

definition update_state :: "u8 \<Rightarrow> u8 \<Rightarrow> (('sk, 'e) tcp_st \<Rightarrow> 'r res \<times> ('sk, 'e) tcp_st) \<Rightarrow> ('sk, 'e) tcp_st \<Rightarrow>
    (u8 + 'r res) \<times> ('sk, 'e) tcp_st" where
  "update_state expect new f s =
     (if tc_state (fst s) = expect then
        (case f (set_state STATE_BUSY s) of
           (Ok r, s1) \<Rightarrow> (Inr (Ok r), set_state new s1)
         | (Fail e, s1) \<Rightarrow> (Inr (Fail e), set_state expect s1)
         | (Panicked, s1) \<Rightarrow> (Inr Panicked, s1))
      else (Inl (tc_state (fst s)), s))"

text \<open>\<^verbatim>\<open>Result::unwrap_or\<close> on the outer result.\<close>

definition or_else :: "(u8 + 'r res) \<times> 's \<Rightarrow> 'r res \<Rightarrow> 'r res \<times> 's" where
  "or_else m d = (case m of (Inl _, s) \<Rightarrow> (d, s) | (Inr r, s) \<Rightarrow> (r, s))"

definition PORT_START :: u16 where "PORT_START = 0xc000"
definition PORT_END :: u16 where "PORT_END = 0xffff"

text \<open>The first argument counts the tries that are left.\<close>

primrec ephemeral_loop :: "nat \<Rightarrow> ('sk, 'e) net \<Rightarrow> u16 res \<times> ('sk, 'e) net" where
  "ephemeral_loop 0 w = (Fail NetFail, w)"
| "ephemeral_loop (Suc n) w =
     (let port = nt_curr w;
          w1 = w\<lparr>nt_curr := if nt_curr w = PORT_END then PORT_START else nt_curr w + 1\<rparr>
      in if can_listen port w1 then (Ok port, w1) else ephemeral_loop n w1)"

definition get_ephemeral_port :: "('sk, 'e) net \<Rightarrow> u16 res \<times> ('sk, 'e) net" where
  "get_ephemeral_port w = ephemeral_loop (unat (PORT_END - PORT_START) + 1) w"

definition bound_endpoint :: "('sk, 'e) tcp_st \<Rightarrow> IpListenEndpoint res \<times> ('sk, 'e) tcp_st" where
  "bound_endpoint s =
     (let local_addr = tc_local_addr (fst s)
      in bind_st (if ep_port local_addr \<noteq> 0 then (Ok (ep_port local_addr), s) else lift_net get_ephemeral_port s) (\<lambda>port s1.
           if port = 0 then (Panicked, s1)
           else (Ok \<lparr>le_addr = (if \<not> is_unspecified (ep_addr local_addr) then Some (ep_addr local_addr) else None), le_port = port\<rparr>, s1)))"

definition connect_socket :: "('sk, 'e) tcp_api \<Rightarrow> 'e \<Rightarrow> IpEndpoint \<Rightarrow> IpListenEndpoint \<Rightarrow> 'sk \<Rightarrow> (IpEndpoint \<times> IpEndpoint) res \<times> 'sk" where
  "connect_socket api env remote_endpoint be socket =
     (case api_connect api env remote_endpoint be socket of
        None \<Rightarrow> (Fail NetFail, socket)
      | Some socket' \<Rightarrow>
          (bind_res (unwrap_opt (api_local_endpoint api socket')) (\<lambda>l.
           bind_res (unwrap_opt (api_remote_endpoint api socket')) (\<lambda>r. Ok (l, r))), socket'))"

definition handle_or_add :: "('sk, 'e) tcp_api \<Rightarrow> ('sk, 'e) tcp_st \<Rightarrow> SocketHandle res \<times> ('sk, 'e) tcp_st" where
  "handle_or_add api s =
     (case tc_handle (fst s) of
        Some handle \<Rightarrow> (Ok handle, s)
      | None \<Rightarrow> lift_net (\<lambda>w. case ss_add api (api_new api) w of (h, w1) \<Rightarrow> (Ok h, w1)) s)"

definition start_connect :: "('sk, 'e) tcp_api \<Rightarrow> SocketAddr \<Rightarrow> ('sk, 'e) tcp_st \<Rightarrow> unit res \<times> ('sk, 'e) tcp_st" where
  "start_connect api remote_addr s =
     or_else (update_state STATE_CLOSED STATE_CONNECTING (\<lambda>s.
       bind_st (handle_or_add api s) (\<lambda>handle s.
       bind_st (from_core_sockaddr remote_addr, s) (\<lambda>remote_endpoint s.
       bind_st (bound_endpoint s) (\<lambda>be s.
       bind_st (lift_net (with_socket_mut handle (connect_socket api (nt_env (snd s)) remote_endpoint be)) s) (\<lambda>(l, r) s.
         (Ok (), ((fst s)\<lparr>tc_local_addr := l, tc_peer_addr := r, tc_handle := Some handle\<rparr>, snd s))))))) s) (Fail NetFail)"

definition poll_connect :: "('sk, 'e) tcp_api \<Rightarrow> ('sk, 'e) tcp_st \<Rightarrow> PollState res \<times> ('sk, 'e) tcp_st" where
  "poll_connect api s =
     (case tc_handle (fst s) of
        None \<Rightarrow> (Panicked, s)
      | Some handle \<Rightarrow>
          (case with_socket handle (\<lambda>socket. Ok (api_state api socket)) (snd s) of
             Inl e \<Rightarrow> (Inl e, s)
           | Ok SynSent \<Rightarrow> (Ok \<lparr>readable = False, writable = False\<rparr>, s)
           | Ok Established \<Rightarrow> (Ok \<lparr>readable = False, writable = True\<rparr>, set_state STATE_CONNECTED s)
           | Ok _ \<Rightarrow> (Ok \<lparr>readable = False, writable = True\<rparr>,
               set_state STATE_CLOSED ((fst s)\<lparr>tc_local_addr := UNSPECIFIED_ENDPOINT, tc_peer_addr := UNSPECIFIED_ENDPOINT\<rparr>, snd s))))"

partial_function (option) block_loop :: "(('sk, 'e) net \<Rightarrow> ('sk, 'e) net) \<Rightarrow> (('sk, 'e) tcp_st \<Rightarrow> 'r res \<times> ('sk, 'e) tcp_st) \<Rightarrow>
    ('sk, 'e) tcp_st \<Rightarrow> ('r res \<times> ('sk, 'e) tcp_st) option" where
  "block_loop poll f s =
     (case f (fst s, poll (snd s)) of
        (r, s1) \<Rightarrow> if r = Fail WouldBlock then block_loop poll f s1 else Some (r, s1))"

definition block_on :: "(('sk, 'e) net \<Rightarrow> ('sk, 'e) net) \<Rightarrow> (('sk, 'e) tcp_st \<Rightarrow> 'r res \<times> ('sk, 'e) tcp_st) \<Rightarrow>
    ('sk, 'e) tcp_st \<Rightarrow> ('r res \<times> ('sk, 'e) tcp_st) option" where
  "block_on poll f s = (if tc_nonblock (fst s) then Some (f s) else block_loop poll f s)"

definition await_connect :: "('sk, 'e) tcp_api \<Rightarrow> ('sk, 'e) tcp_st \<Rightarrow> unit res \<times> ('sk, 'e) tcp_st" where
  "await_connect api s =
     bind_st (poll_connect api s) (\<lambda>ps s.
       if \<not> writable ps then (Fail WouldBlock, s)
       else if tc_state (fst s) = STATE_CONNECTED then (Ok (), s)
       else (Fail NetFail, s))"

definition tcp_connect :: "(('sk, 'e) net \<Rightarrow> ('sk, 'e) net) \<Rightarrow> ('sk, 'e) tcp_api \<Rightarrow> SocketAddr \<Rightarrow> ('sk, 'e) tcp_st \<Rightarrow>
    (unit res \<times> ('sk, 'e) tcp_st) option" where
  "tcp_connect poll api remote_addr s =
     (case start_connect api remote_addr s of
        (Inl e, s1) \<Rightarrow> Some (Inl e, s1)
      | (Ok _, s1) \<Rightarrow> if tc_nonblock (fst s1) then Some (Fail WouldBlock, s1) else block_on poll (await_connect api) s1)"

definition tcp_bind :: "SocketAddr \<Rightarrow> ('sk, 'e) tcp_st \<Rightarrow> unit res \<times> ('sk, 'e) tcp_st" where
  "tcp_bind local_addr s =
     or_else (update_state STATE_CLOSED STATE_CLOSED (\<lambda>s.
       bind_st (if sa_port local_addr = 0 then lift_net get_ephemeral_port s else (Ok (sa_port local_addr), s)) (\<lambda>port s.
         if tc_local_addr (fst s) \<noteq> UNSPECIFIED_ENDPOINT then (Fail NetFail, s)
         else bind_st (from_core_sockaddr (local_addr\<lparr>sa_port := port\<rparr>), s) (\<lambda>ep s.
                (Ok (), ((fst s)\<lparr>tc_local_addr := ep\<rparr>, snd s))))) s) (Fail NetFail)"

definition tcp_listen :: "('sk, 'e) tcp_st \<Rightarrow> unit res \<times> ('sk, 'e) tcp_st" where
  "tcp_listen s =
     or_else (update_state STATE_CLOSED STATE_LISTENING (\<lambda>s.
       bind_st (bound_endpoint s) (\<lambda>be s.
         lift_net (lt_listen be) ((fst s)\<lparr>tc_local_addr := (tc_local_addr (fst s))\<lparr>ep_port := le_port be\<rparr>\<rparr>, snd s))) s) (Ok ())"

definition accept_once :: "('sk, 'e) tcp_api \<Rightarrow> u16 \<Rightarrow> ('sk, 'e) tcp_st \<Rightarrow> TcpSocket res \<times> ('sk, 'e) tcp_st" where
  "accept_once api local_port s =
     bind_st (lift_net (lt_accept api local_port) s) (\<lambda>(handle, l, r) s. (Ok (tcp_new_connected handle l r), s))"

definition tcp_accept :: "(('sk, 'e) net \<Rightarrow> ('sk, 'e) net) \<Rightarrow> ('sk, 'e) tcp_api \<Rightarrow> ('sk, 'e) tcp_st \<Rightarrow>
    (TcpSocket res \<times> ('sk, 'e) tcp_st) option" where
  "tcp_accept poll api s =
     (if tc_state (fst s) \<noteq> STATE_LISTENING then Some (Fail NetFail, s)
      else block_on poll (accept_once api (ep_port (tc_local_addr (fst s)))) s)"

definition shutdown_stream :: "(('sk, 'e) net \<Rightarrow> ('sk, 'e) net) \<Rightarrow> ('sk, 'e) tcp_api \<Rightarrow> ('sk, 'e) tcp_st \<Rightarrow> unit res \<times> ('sk, 'e) tcp_st" where
  "shutdown_stream poll api s =
     (case tc_handle (fst s) of
        None \<Rightarrow> (Panicked, s)
      | Some handle \<Rightarrow>
          bind_st (lift_net (with_socket_mut handle (\<lambda>socket. (Ok (), api_close api socket))) s) (\<lambda>_ s.
            (Ok (), ((fst s)\<lparr>tc_local_addr := UNSPECIFIED_ENDPOINT\<rparr>, poll (snd s)))))"

definition shutdown_listener :: "(('sk, 'e) net \<Rightarrow> ('sk, 'e) net) \<Rightarrow> ('sk, 'e) tcp_st \<Rightarrow> unit res \<times> ('sk, 'e) tcp_st" where
  "shutdown_listener poll s =
     (let local_port = ep_port (tc_local_addr (fst s))
      in bind_st (lift_net (unlisten local_port) ((fst s)\<lparr>tc_local_addr := UNSPECIFIED_ENDPOINT\<rparr>, snd s)) (\<lambda>_ s.
           (Ok (), (fst s, poll (snd s)))))"

definition tcp_shutdown :: "(('sk, 'e) net \<Rightarrow> ('sk, 'e) net) \<Rightarrow> ('sk, 'e) tcp_api \<Rightarrow> ('sk, 'e) tcp_st \<Rightarrow> unit res \<times> ('sk, 'e) tcp_st" where
  "tcp_shutdown poll api s =
     bind_st (or_else (update_state STATE_CONNECTED STATE_CLOSED (shutdown_stream poll api) s) (Ok ())) (\<lambda>_ s.
     bind_st (or_else (update_state STATE_LISTENING STATE_CLOSED (shutdown_listener poll) s) (Ok ())) (\<lambda>_ s. (Ok (), s)))"

text \<open>\<^verbatim>\<open>recv\<close> into a buffer of \<^verbatim>\<open>n\<close> bytes returns the bytes it stored.\<close>

definition recv_once :: "('sk, 'e) tcp_api \<Rightarrow> SocketHandle \<Rightarrow> nat \<Rightarrow> ('sk, 'e) tcp_st \<Rightarrow> u8 list res \<times> ('sk, 'e) tcp_st" where
  "recv_once api handle n =
     lift_net (with_socket_mut handle (\<lambda>socket.
       if \<not> api_is_active api socket then (Fail NetFail, socket)
       else if \<not> api_may_recv api socket then (Ok [], socket)
       else if api_recv_queue api socket > 0 then
         (case api_recv_slice api n socket of None \<Rightarrow> (Panicked, socket) | Some (bytes, socket') \<Rightarrow> (Ok bytes, socket'))
       else (Fail WouldBlock, socket)))"

definition tcp_recv :: "(('sk, 'e) net \<Rightarrow> ('sk, 'e) net) \<Rightarrow> ('sk, 'e) tcp_api \<Rightarrow> nat \<Rightarrow> ('sk, 'e) tcp_st \<Rightarrow>
    (u8 list res \<times> ('sk, 'e) tcp_st) option" where
  "tcp_recv poll api n s =
     (if tc_state (fst s) = STATE_CONNECTING then Some (Fail WouldBlock, s)
      else if tc_state (fst s) \<noteq> STATE_CONNECTED then Some (Fail NetFail, s)
      else case tc_handle (fst s) of
             None \<Rightarrow> Some (Panicked, s)
           | Some handle \<Rightarrow> block_on poll (recv_once api handle n) s)"

definition send_once :: "('sk, 'e) tcp_api \<Rightarrow> SocketHandle \<Rightarrow> u8 list \<Rightarrow> ('sk, 'e) tcp_st \<Rightarrow> nat res \<times> ('sk, 'e) tcp_st" where
  "send_once api handle buf =
     lift_net (with_socket_mut handle (\<lambda>socket.
       if \<not> api_is_active api socket \<or> \<not> api_may_send api socket then (Fail NetFail, socket)
       else if api_can_send api socket then
         (case api_send_slice api buf socket of None \<Rightarrow> (Panicked, socket) | Some (len, socket') \<Rightarrow> (Ok len, socket'))
       else (Fail WouldBlock, socket)))"

definition tcp_send :: "(('sk, 'e) net \<Rightarrow> ('sk, 'e) net) \<Rightarrow> ('sk, 'e) tcp_api \<Rightarrow> u8 list \<Rightarrow> ('sk, 'e) tcp_st \<Rightarrow>
    (nat res \<times> ('sk, 'e) tcp_st) option" where
  "tcp_send poll api buf s =
     (if tc_state (fst s) = STATE_CONNECTING then Some (Fail WouldBlock, s)
      else if tc_state (fst s) \<noteq> STATE_CONNECTED then Some (Fail NetFail, s)
      else case tc_handle (fst s) of
             None \<Rightarrow> Some (Panicked, s)
           | Some handle \<Rightarrow> block_on poll (send_once api handle buf) s)"

definition poll_stream :: "('sk, 'e) tcp_api \<Rightarrow> ('sk, 'e) tcp_st \<Rightarrow> PollState res" where
  "poll_stream api s =
     (case tc_handle (fst s) of
        None \<Rightarrow> Panicked
      | Some handle \<Rightarrow>
          with_socket handle (\<lambda>socket. Ok
            \<lparr>readable = (\<not> api_may_recv api socket \<or> api_can_recv api socket),
             writable = (\<not> api_may_send api socket \<or> api_can_send api socket)\<rparr>) (snd s))"

definition poll_listener :: "('sk, 'e) tcp_api \<Rightarrow> ('sk, 'e) tcp_st \<Rightarrow> PollState res" where
  "poll_listener api s =
     bind_res (lt_can_accept api (ep_port (tc_local_addr (fst s))) (snd s)) (\<lambda>b. Ok \<lparr>readable = b, writable = False\<rparr>)"

definition tcp_poll :: "('sk, 'e) tcp_api \<Rightarrow> ('sk, 'e) tcp_st \<Rightarrow> PollState res \<times> ('sk, 'e) tcp_st" where
  "tcp_poll api s =
     (if tc_state (fst s) = STATE_CONNECTING then poll_connect api s
      else if tc_state (fst s) = STATE_CONNECTED then (poll_stream api s, s)
      else if tc_state (fst s) = STATE_LISTENING then (poll_listener api s, s)
      else (Ok \<lparr>readable = False, writable = False\<rparr>, s))"

definition tcp_drop :: "(('sk, 'e) net \<Rightarrow> ('sk, 'e) net) \<Rightarrow> ('sk, 'e) tcp_api \<Rightarrow> ('sk, 'e) tcp_st \<Rightarrow> unit res \<times> ('sk, 'e) net" where
  "tcp_drop poll api s =
     (case tcp_shutdown poll api s of
        (Panicked, s1) \<Rightarrow> (Panicked, snd s1)
      | (_, s1) \<Rightarrow>
          (case tc_handle (fst s1) of Some handle \<Rightarrow> ss_remove handle (snd s1) | None \<Rightarrow> (Ok (), snd s1)))"

section \<open>Facts\<close>

lemma bind_stE:
  assumes "bind_st m f = (r, s')"
  obtains (err) e where "m = (Inl e, s')" "r = Inl e" | (ok) a s1 where "m = (Inr a, s1)" "f a s1 = (r, s')"
  using assms by (cases m; cases "fst m") (auto simp: bind_st_def)

lemma lift_net_iff: "lift_net f s = (r, s') \<longleftrightarrow> fst s' = fst s \<and> f (snd s) = (r, snd s')"
  by (cases s') (auto simp: lift_net_def split: prod.splits)

lemma set_state_simps [simp]:
  "fst (set_state st s) = (fst s)\<lparr>tc_state := st\<rparr>" "snd (set_state st s) = snd s"
  by (simp_all add: set_state_def)

lemma or_else_update:
  assumes "or_else (update_state expect new f s) d = (r, s')"
  obtains (other) "tc_state (fst s) \<noteq> expect" "r = d" "s' = s"
  | (ok) x s1 where "tc_state (fst s) = expect" "f (set_state STATE_BUSY s) = (Ok x, s1)" "r = Ok x" "s' = set_state new s1"
  | (err) e s1 where "tc_state (fst s) = expect" "f (set_state STATE_BUSY s) = (Fail e, s1)" "r = Fail e" "s' = set_state expect s1"
  | (panic) "tc_state (fst s) = expect" "f (set_state STATE_BUSY s) = (Panicked, s')" "r = Panicked"
proof (cases "tc_state (fst s) = expect")
  case True
  obtain x s1 where f: "f (set_state STATE_BUSY s) = (x, s1)" by (cases "f (set_state STATE_BUSY s)")
  show ?thesis
  proof (cases x)
    case (Inl e)
    show ?thesis
    proof (cases e)
      case (Err ie)
      then show ?thesis using assms True f Inl by (intro err [of ie s1]) (auto simp: or_else_def update_state_def)
    next
      case Panic
      then show ?thesis using assms True f Inl by (intro panic) (auto simp: or_else_def update_state_def)
    qed
  next
    case (Inr y)
    then show ?thesis using assms True f by (intro ok [of y s1]) (auto simp: or_else_def update_state_def)
  qed
next
  case False
  then show ?thesis using assms by (intro other) (auto simp: or_else_def update_state_def)
qed

subsection \<open>Polling\<close>

text \<open>What the code relies on of the protocol engine: a poll of the interface changes sockets that
  exist and the environment, and passes received frames to the hook that inspects them.\<close>

inductive net_env :: "wire_api \<Rightarrow> ('sk, 'e) tcp_api \<Rightarrow> ('sk, 'e) net \<Rightarrow> ('sk, 'e) net \<Rightarrow> bool" for wr api where
  engine: "dom m = dom (nt_sockets w) \<Longrightarrow> net_env wr api w (w\<lparr>nt_sockets := m, nt_env := e\<rparr>)"
| frame: "net_env wr api w (snoop_tcp_packet wr api buf w)"

definition poll_ok :: "wire_api \<Rightarrow> ('sk, 'e) tcp_api \<Rightarrow> (('sk, 'e) net \<Rightarrow> ('sk, 'e) net) \<Rightarrow> bool" where
  "poll_ok wr api poll \<longleftrightarrow> (\<forall>w. (net_env wr api)\<^sup>*\<^sup>* w (poll w))"

lemma incoming_dom_tcp: "dom (nt_tcp (incoming_tcp_packet api src dst w)) = dom (nt_tcp w)"
  by (cases rule: incoming_cases [of api src dst w]) (auto simp: ss_add_def Let_def)

lemma snoop_dom_tcp: "dom (nt_tcp (snoop_tcp_packet wr api buf w)) = dom (nt_tcp w)"
  by (simp add: snoop_tcp_packet_def incoming_dom_tcp split: option.split prod.split)

lemma snoop_curr: "nt_curr (snoop_tcp_packet wr api buf w) = nt_curr w"
  by (simp add: snoop_tcp_packet_def incoming_tcp_packet_def ss_add_def Let_def split: option.split prod.split)

lemma net_env_keeps:
  assumes "net_env wr api w w'" "slots_free api" "holds F w"
  shows "holds F w'" "dom (nt_tcp w') = dom (nt_tcp w)" "nt_curr w' = nt_curr w"
proof -
  have "holds F w' \<and> dom (nt_tcp w') = dom (nt_tcp w) \<and> nt_curr w' = nt_curr w"
    using assms(1)
  proof cases
    case (engine m e)
    then show ?thesis using holds_same_dom [OF assms(3), of w'] by simp
  next
    case (frame buf)
    then show ?thesis using holds_snoop [OF assms(2,3)] snoop_dom_tcp snoop_curr by blast
  qed
  then show "holds F w'" "dom (nt_tcp w') = dom (nt_tcp w)" "nt_curr w' = nt_curr w" by simp_all
qed

lemma poll_keeps:
  assumes "poll_ok wr api poll" "slots_free api" "holds F w"
  shows "holds F (poll w)" "dom (nt_tcp (poll w)) = dom (nt_tcp w)" "nt_curr (poll w) = nt_curr w"
proof -
  have "(net_env wr api)\<^sup>*\<^sup>* w (poll w)" using assms(1) by (simp add: poll_ok_def)
  then have "holds F (poll w) \<and> dom (nt_tcp (poll w)) = dom (nt_tcp w) \<and> nt_curr (poll w) = nt_curr w"
  proof (induction rule: rtranclp_induct)
    case (step y z)
    then show ?case using net_env_keeps [OF step.hyps(2) assms(2), of F] by metis
  qed (use assms(3) in simp)
  then show "holds F (poll w)" "dom (nt_tcp (poll w)) = dom (nt_tcp w)" "nt_curr (poll w) = nt_curr w" by simp_all
qed

subsection \<open>Ephemeral ports\<close>

definition ephemeral_ports :: "u16 set" where
  "ephemeral_ports = {PORT_START..}"

text \<open>The ports are tried in a circle, by position.\<close>

definition port_at :: "nat \<Rightarrow> u16" where
  "port_at k = PORT_START + of_nat (k mod 0x4000)"

definition port_pos :: "u16 \<Rightarrow> nat" where
  "port_pos p = unat (p - PORT_START)"

lemma port_pos_at: "p \<in> ephemeral_ports \<Longrightarrow> port_pos p < 0x4000 \<and> port_at (port_pos p) = p"
proof -
  assume "p \<in> ephemeral_ports"
  then have p: "PORT_START \<le> p" by (simp add: ephemeral_ports_def)
  have "unat p < 2 ^ 16" using unsigned_less [of p, where ?'a = nat] by simp
  then have "port_pos p < 0x4000" using p by (simp add: port_pos_def unat_sub PORT_START_def)
  then show ?thesis by (simp add: port_at_def port_pos_def)
qed

lemma port_at_eq: "unat (port_at k) = 0xc000 + k mod 0x4000"
proof -
  have "k mod 0x4000 < 0x4000" by simp
  then have lt: "0xc000 + k mod 0x4000 < 2 ^ 16" by simp
  have "port_at k = of_nat (0xc000 + k mod 0x4000)" by (simp add: port_at_def PORT_START_def)
  then have "unat (port_at k) = unat (of_nat (0xc000 + k mod 0x4000) :: u16)" by (simp only:)
  also have "\<dots> = 0xc000 + k mod 0x4000" using lt by (simp add: unat_of_nat take_bit_nat_eq_self del: of_nat_add)
  finally show ?thesis .
qed

lemma port_at_range: "port_at k \<in> ephemeral_ports"
  by (simp add: ephemeral_ports_def PORT_START_def word_le_nat_alt port_at_eq)

lemma port_next: "(if port_at k = PORT_END then PORT_START else port_at k + 1) = port_at (Suc k)"
proof (cases "k mod 0x4000 = 0x3fff")
  case True
  then have "port_at k = PORT_END" by (simp add: word_unat_eq_iff port_at_eq PORT_END_def)
  moreover have "Suc k mod 0x4000 = 0" using True by (simp add: mod_Suc)
  ultimately show ?thesis by (simp add: port_at_def)
next
  case False
  then have "port_at k \<noteq> PORT_END" by (simp add: word_unat_eq_iff port_at_eq PORT_END_def)
  moreover have "Suc k mod 0x4000 = Suc (k mod 0x4000)" using False by (simp add: mod_Suc)
  ultimately show ?thesis by (simp add: port_at_def)
qed

lemma ephemeral_loop_scan:
  "nt_curr w = port_at k \<Longrightarrow>
   (\<exists>j < n. can_listen (port_at (k + j)) w \<and> ephemeral_loop n w = (Ok (port_at (k + j)), w\<lparr>nt_curr := port_at (k + Suc j)\<rparr>)) \<or>
   ((\<forall>j < n. \<not> can_listen (port_at (k + j)) w) \<and> ephemeral_loop n w = (Fail NetFail, w\<lparr>nt_curr := port_at (k + n)\<rparr>))"
proof (induction n arbitrary: k w)
  case 0
  then show ?case by simp
next
  case (Suc n)
  define w1 where "w1 = w\<lparr>nt_curr := port_at (Suc k)\<rparr>"
  have step: "ephemeral_loop (Suc n) w = (if can_listen (port_at k) w then (Ok (port_at k), w1) else ephemeral_loop n w1)"
    unfolding w1_def port_next [symmetric] by (simp only: ephemeral_loop.simps Let_def Suc.prems can_listen_def) simp
  have c: "can_listen p w1 = can_listen p w" for p by (simp add: w1_def can_listen_def)
  show ?case
  proof (cases "can_listen (port_at k) w")
    case True
    then show ?thesis using step by (auto simp: w1_def)
  next
    case False
    have "nt_curr w1 = port_at (Suc k)" by (simp add: w1_def)
    from Suc.IH [OF this] show ?thesis
    proof (elim disjE exE conjE)
      fix j assume "j < n" "can_listen (port_at (Suc k + j)) w1"
        "ephemeral_loop n w1 = (Ok (port_at (Suc k + j)), w1\<lparr>nt_curr := port_at (Suc k + Suc j)\<rparr>)"
      then show ?thesis using False step c by (intro disjI1 exI [of _ "Suc j"]) (simp add: w1_def)
    next
      assume "\<forall>j<n. \<not> can_listen (port_at (Suc k + j)) w1"
        "ephemeral_loop n w1 = (Fail NetFail, w1\<lparr>nt_curr := port_at (Suc k + n)\<rparr>)"
      then show ?thesis using False step c by (intro disjI2 conjI allI impI) (auto simp: w1_def less_Suc_eq_0_disj)
    qed
  qed
qed

lemma ephemeral_cases:
  assumes "get_ephemeral_port w = (r, w')" "nt_curr w \<in> ephemeral_ports"
  obtains (port) p c where "r = Ok p" "p \<in> ephemeral_ports" "can_listen p w" "c \<in> ephemeral_ports" "w' = w\<lparr>nt_curr := c\<rparr>"
  | (full) c where "r = Fail NetFail" "\<forall>p\<in>ephemeral_ports. \<not> can_listen p w" "c \<in> ephemeral_ports" "w' = w\<lparr>nt_curr := c\<rparr>"
proof -
  define k where "k = port_pos (nt_curr w)"
  have k: "nt_curr w = port_at k" using port_pos_at [OF assms(2)] by (simp add: k_def)
  have n: "unat (PORT_END - PORT_START) + 1 = 0x4000" by (simp add: PORT_END_def PORT_START_def)
  have g: "ephemeral_loop 0x4000 w = (r, w')" using assms(1) unfolding get_ephemeral_port_def n .
  from ephemeral_loop_scan [OF k, of "0x4000"] show ?thesis
  proof (elim disjE exE conjE)
    fix j assume "can_listen (port_at (k + j)) w" "ephemeral_loop 0x4000 w = (Ok (port_at (k + j)), w\<lparr>nt_curr := port_at (k + Suc j)\<rparr>)"
    then show ?thesis using g port [OF _ port_at_range _ port_at_range, of "k + j" "k + Suc j"] by simp
  next
    assume none: "\<forall>j<0x4000. \<not> can_listen (port_at (k + j)) w" and
      e: "ephemeral_loop 0x4000 w = (Fail NetFail, w\<lparr>nt_curr := port_at (k + 0x4000)\<rparr>)"
    have "\<not> can_listen p w" if p: "p \<in> ephemeral_ports" for p
    proof -
      have "(k + (port_pos p + 0x4000 - k mod 0x4000) mod 0x4000) mod 0x4000 = (k mod 0x4000 + (port_pos p + 0x4000 - k mod 0x4000)) mod 0x4000"
        by (simp only: mod_add_left_eq mod_add_right_eq)
      also have "k mod 0x4000 + (port_pos p + 0x4000 - k mod 0x4000) = port_pos p + 0x4000"
        by (simp add: less_imp_le)
      finally have "port_at (k + (port_pos p + 0x4000 - k mod 0x4000) mod 0x4000) = p"
        using port_pos_at [OF p] by (simp add: port_at_def)
      moreover have "(port_pos p + 0x4000 - k mod 0x4000) mod 0x4000 < 0x4000" by simp
      ultimately show ?thesis using none by metis
    qed
    then show ?thesis using g e full [OF _ _ port_at_range, of "k + 0x4000"] by simp
  qed
qed

lemma ephemeral_frame:
  "get_ephemeral_port w = (r, w') \<Longrightarrow> nt_curr w \<in> ephemeral_ports \<Longrightarrow> \<exists>c\<in>ephemeral_ports. w' = w\<lparr>nt_curr := c\<rparr>"
  by (erule ephemeral_cases) auto

subsection \<open>What a socket owns\<close>

text \<open>A socket owns its handle and, while it listens, its port. \<open>base F P s\<close>: the handles \<^verbatim>\<open>F\<close> and
  ports \<^verbatim>\<open>P\<close> of all other sockets are live, and the handle of this one is live and not among them.\<close>

definition own :: "TcpSocket \<Rightarrow> SocketHandle set" where
  "own sk = set_option (tc_handle sk)"

definition lports :: "TcpSocket \<Rightarrow> u16 set" where
  "lports sk = (if tc_state sk = STATE_LISTENING then {ep_port (tc_local_addr sk)} else {})"

definition netok :: "SocketHandle set \<Rightarrow> u16 set \<Rightarrow> ('sk, 'e) net \<Rightarrow> bool" where
  "netok G P w \<longleftrightarrow> holds G w \<and> P \<subseteq> dom (nt_tcp w) \<and> nt_curr w \<in> ephemeral_ports"

definition base :: "SocketHandle set \<Rightarrow> u16 set \<Rightarrow> ('sk, 'e) tcp_st \<Rightarrow> bool" where
  "base F P s \<longleftrightarrow> netok (own (fst s) \<union> F) P (snd s) \<and> own (fst s) \<inter> F = {}"

definition quiet :: "TcpSocket \<Rightarrow> bool" where
  "quiet sk \<longleftrightarrow> tc_state sk \<in> {STATE_CLOSED, STATE_CONNECTING, STATE_CONNECTED, STATE_LISTENING} \<and>
     (tc_state sk \<in> {STATE_CONNECTING, STATE_CONNECTED} \<longrightarrow> tc_handle sk \<noteq> None)"

definition sock_ok :: "SocketHandle set \<Rightarrow> u16 set \<Rightarrow> ('sk, 'e) tcp_st \<Rightarrow> bool" where
  "sock_ok F P s \<longleftrightarrow> base F P s \<and> quiet (fst s) \<and> lports (fst s) \<subseteq> dom (nt_tcp (snd s)) \<and> lports (fst s) \<inter> P = {}"

lemma base_cong:
  assumes "base F P s" "tc_handle (fst s') = tc_handle (fst s)" "snd s' = snd s"
  shows "base F P s'"
  using assms by (simp add: base_def own_def)

lemma netok_curr: "netok G P w \<Longrightarrow> c \<in> ephemeral_ports \<Longrightarrow> netok G P (w\<lparr>nt_curr := c\<rparr>)"
  using holds_same_dom [of G w "w\<lparr>nt_curr := c\<rparr>"] by (simp add: netok_def)

lemma netok_mono: "netok G P w \<Longrightarrow> H \<subseteq> G \<Longrightarrow> netok H P w"
  by (auto simp: netok_def intro: holds_mono)

lemma with_socket_mut_frame:
  "with_socket_mut h f w = (r, w') \<Longrightarrow> nt_tcp w' = nt_tcp w \<and> nt_curr w' = nt_curr w \<and> nt_env w' = nt_env w"
  by (auto simp: with_socket_mut_def split: option.splits prod.splits)

lemma netok_mut:
  "with_socket_mut h f w = (r, w') \<Longrightarrow> netok G P w \<Longrightarrow> netok G P w'"
  using holds_with_socket_mut [of h f w r w' G] with_socket_mut_frame [of h f w r w'] by (simp add: netok_def)

lemma netok_ephemeral: "get_ephemeral_port w = (r, w') \<Longrightarrow> netok G P w \<Longrightarrow> netok G P w'"
  using ephemeral_frame [of w r w'] netok_curr [of G P w] by (auto simp: netok_def)

lemma base_netok: "base F P s \<Longrightarrow> netok (own (fst s) \<union> F) P (snd s)"
  by (simp add: base_def)

lemma baseI: "netok G P (snd s) \<Longrightarrow> own (fst s) \<union> F \<subseteq> G \<Longrightarrow> own (fst s) \<inter> F = {} \<Longrightarrow> base F P s"
  by (simp add: base_def netok_mono)

lemma base_poll:
  assumes "poll_ok wr api poll" "slots_free api" "base F P s"
  shows "base F P (fst s, poll (snd s))" "dom (nt_tcp (poll (snd s))) = dom (nt_tcp (snd s))"
proof -
  have h: "holds (own (fst s) \<union> F) (snd s)" using assms(3) by (simp add: base_def netok_def)
  note p = poll_keeps [OF assms(1,2) h]
  show "dom (nt_tcp (poll (snd s))) = dom (nt_tcp (snd s))" by (rule p(2))
  show "base F P (fst s, poll (snd s))" using assms(3) p by (simp add: base_def netok_def)
qed

lemma sock_ok_poll:
  assumes "poll_ok wr api poll" "slots_free api" "sock_ok F P s"
  shows "sock_ok F P (fst s, poll (snd s))"
  using base_poll [OF assms(1,2), of F P s] assms(3) by (simp add: sock_ok_def)

lemma sock_ok_mut:
  assumes "sock_ok F P s" "lift_net (with_socket_mut h f) s = (r, s')"
  shows "sock_ok F P s'"
proof -
  have w: "fst s' = fst s" "with_socket_mut h f (snd s) = (r, snd s')" using assms(2) by (simp_all add: lift_net_iff)
  then show ?thesis using assms(1) netok_mut [OF w(2)] with_socket_mut_frame [OF w(2)] by (simp add: sock_ok_def base_def)
qed

subsection \<open>The operations of one socket\<close>

lemma ephemeral_nonzero: "p \<in> ephemeral_ports \<Longrightarrow> p \<noteq> 0"
  by (auto simp: ephemeral_ports_def PORT_START_def word_le_nat_alt)

lemma bound_endpoint_cases:
  assumes "bound_endpoint s = (r, s')" "netok G P (snd s)"
  obtains (ok) be where "r = Ok be" "le_port be \<noteq> 0" "fst s' = fst s" "netok G P (snd s')" "nt_tcp (snd s') = nt_tcp (snd s)"
  | (none) "r = Fail NetFail" "fst s' = fst s" "netok G P (snd s')" "ep_port (tc_local_addr (fst s)) = 0"
proof (cases "ep_port (tc_local_addr (fst s)) = 0")
  case True
  obtain x w' where g: "get_ephemeral_port (snd s) = (x, w')" by (cases "get_ephemeral_port (snd s)")
  note n = netok_ephemeral [OF g assms(2)]
  have "nt_curr (snd s) \<in> ephemeral_ports" using assms(2) by (simp add: netok_def)
  with g show ?thesis
  proof (cases rule: ephemeral_cases)
    case (port p c')
    then obtain be where "bound_endpoint s = (Ok be, (fst s, w'))" "le_port be = p"
      using True g ephemeral_nonzero [OF port(2)] by (simp add: bound_endpoint_def Let_def lift_net_def)
    then show ?thesis using assms(1) ok [of be] port ephemeral_nonzero [OF port(2)] n by simp
  next
    case (full c')
    then have "bound_endpoint s = (Fail NetFail, (fst s, w'))" using True g by (simp add: bound_endpoint_def Let_def lift_net_def)
    then show ?thesis using assms(1) none True n by simp
  qed
next
  case False
  then obtain be where "bound_endpoint s = (Ok be, s)" "le_port be \<noteq> 0" by (simp add: bound_endpoint_def Let_def)
  then show ?thesis using assms ok [of be] by simp
qed

lemma sock_ok_closed: "base F P s \<Longrightarrow> sock_ok F P (set_state STATE_CLOSED s)"
  by (auto simp: sock_ok_def quiet_def lports_def STATE_defs base_def own_def)

lemma sock_ok_connected:
  "base F P s \<Longrightarrow> tc_handle (fst s) \<noteq> None \<Longrightarrow> sock_ok F P (set_state STATE_CONNECTING s)"
  "base F P s \<Longrightarrow> tc_handle (fst s) \<noteq> None \<Longrightarrow> sock_ok F P (set_state STATE_CONNECTED s)"
  by (auto simp: sock_ok_def quiet_def lports_def STATE_defs base_def own_def)

lemma sock_ok_base: "sock_ok F P s \<Longrightarrow> base F P s"
  by (simp add: sock_ok_def)

lemma base_set_state: "base F P s \<Longrightarrow> base F P (set_state st s)"
  by (simp add: base_def own_def)

text \<open>An update that starts in the state \<^verbatim>\<open>CLOSED\<close> and whose body keeps what the socket owns.\<close>

lemma sock_ok_update:
  assumes "or_else (update_state STATE_CLOSED new f s) d = (r, s')" "r \<noteq> Panicked" "sock_ok F P s"
    and body: "\<And>x s1. f (set_state STATE_BUSY s) = (x, s1) \<Longrightarrow> base F P (set_state STATE_BUSY s) \<Longrightarrow> base F P s1"
    and finish: "\<And>x s1. f (set_state STATE_BUSY s) = (Ok x, s1) \<Longrightarrow> base F P s1 \<Longrightarrow> sock_ok F P (set_state new s1)"
  shows "sock_ok F P s'"
  using assms(1)
proof (cases rule: or_else_update)
  case (ok x s1)
  then show ?thesis using finish [OF ok(2)] body [OF ok(2)] base_set_state [OF sock_ok_base [OF assms(3)]] by blast
next
  case (err e s1)
  then show ?thesis using sock_ok_closed body [OF err(2)] base_set_state [OF sock_ok_base [OF assms(3)]] by blast
qed (use assms in auto)

lemma bind_body:
  assumes "bind_st (if sa_port addr = 0 then lift_net get_ephemeral_port s else (Ok (sa_port addr), s)) (\<lambda>port s.
         if tc_local_addr (fst s) \<noteq> UNSPECIFIED_ENDPOINT then (Fail NetFail, s)
         else bind_st (from_core_sockaddr (addr\<lparr>sa_port := port\<rparr>), s) (\<lambda>ep s.
                (Ok (), ((fst s)\<lparr>tc_local_addr := ep\<rparr>, snd s)))) = (x, s1)"
    and "base F P s"
  shows "base F P s1"
proof -
  have first: "base F P s2"
    if "(if sa_port addr = 0 then lift_net get_ephemeral_port s else (Ok (sa_port addr), s)) = (y, s2)" for y s2
    using that assms(2) netok_ephemeral [of "snd s" y "snd s2"] by (auto simp: base_def lift_net_iff split: if_splits)
  from assms(1) show ?thesis
    by (rule bind_stE) (use first in \<open>auto elim!: bind_stE simp: base_def own_def split: if_splits\<close>)
qed

lemma sock_ok_bind:
  assumes "tcp_bind addr s = (r, s')" "r \<noteq> Panicked" "sock_ok F P s"
  shows "sock_ok F P s'"
  using assms(1) unfolding tcp_bind_def
  by (rule sock_ok_update [OF _ assms(2,3)]) (erule (1) bind_body, rule sock_ok_closed)

lemma lt_listen_netok:
  assumes "lt_listen be w = (r, w')" "netok G P w"
  shows "netok G P w'" "r = Ok () \<Longrightarrow> le_port be \<in> dom (nt_tcp w') - P"
proof -
  have "dom (nt_tcp w) \<subseteq> dom (nt_tcp w') \<and> nt_curr w' = nt_curr w \<and>
      (r = Ok () \<longrightarrow> nt_tcp w (le_port be) = None \<and> nt_tcp w' (le_port be) \<noteq> None)"
    using assms(1) by (auto simp: lt_listen_def Let_def split: if_splits option.splits)
  then show "netok G P w'" "r = Ok () \<Longrightarrow> le_port be \<in> dom (nt_tcp w') - P"
    using assms(2) holds_lt_listen [OF assms(1), of G] order_trans [of P "dom (nt_tcp w)" "dom (nt_tcp w')"]
    by (simp_all add: netok_def) (auto dest: subsetD)
qed

lemma listen_body:
  assumes "bind_st (bound_endpoint s) (\<lambda>be s.
      lift_net (lt_listen be) ((fst s)\<lparr>tc_local_addr := (tc_local_addr (fst s))\<lparr>ep_port := le_port be\<rparr>\<rparr>, snd s)) = (x, s1)"
    and "base F P s"
  shows "base F P s1" "x = Ok () \<Longrightarrow> ep_port (tc_local_addr (fst s1)) \<in> dom (nt_tcp (snd s1)) - P"
proof -
  have "base F P s1 \<and> (x = Ok () \<longrightarrow> ep_port (tc_local_addr (fst s1)) \<in> dom (nt_tcp (snd s1)) - P)"
    using assms(1)
  proof (cases rule: bind_stE)
    case (err e)
    from err(1) base_netok [OF assms(2)] show ?thesis
      using assms(2) err(2) by (cases rule: bound_endpoint_cases) (auto simp: base_def)
  next
    case (ok be s2)
    from ok(1) base_netok [OF assms(2)] have b: "fst s2 = fst s" "netok (own (fst s) \<union> F) P (snd s2)"
      by (auto elim: bound_endpoint_cases)
    have l: "fst s1 = (fst s2)\<lparr>tc_local_addr := (tc_local_addr (fst s2))\<lparr>ep_port := le_port be\<rparr>\<rparr>" "lt_listen be (snd s2) = (x, snd s1)"
      using ok(2) by (simp_all add: lift_net_iff)
    show ?thesis using lt_listen_netok [OF l(2) b(2)] l(1) b(1) assms(2) by (simp add: base_def own_def)
  qed
  then show "base F P s1" "x = Ok () \<Longrightarrow> ep_port (tc_local_addr (fst s1)) \<in> dom (nt_tcp (snd s1)) - P" by simp_all
qed

lemma sock_ok_listening:
  "base F P s \<Longrightarrow> ep_port (tc_local_addr (fst s)) \<in> dom (nt_tcp (snd s)) - P \<Longrightarrow> sock_ok F P (set_state STATE_LISTENING s)"
  by (simp add: sock_ok_def quiet_def lports_def STATE_defs base_def own_def)

lemma sock_ok_listen:
  assumes "tcp_listen s = (r, s')" "r \<noteq> Panicked" "sock_ok F P s"
  shows "sock_ok F P s'"
proof -
  have "base F P (set_state STATE_BUSY s)" by (rule base_set_state [OF sock_ok_base [OF assms(3)]])
  note body = listen_body [OF _ this]
  from assms(1) show ?thesis
    unfolding tcp_listen_def
    by (rule sock_ok_update [OF _ assms(2,3)]) (erule body(1), intro sock_ok_listening, assumption, erule body(2), simp)
qed

lemma handle_or_add_netok:
  assumes "handle_or_add api s = (r, s')" "slots_free api" "base F P s"
  shows "\<exists>h. r = Ok h \<and> fst s' = fst s \<and> h \<notin> F \<and> own (fst s) \<subseteq> {h} \<and> netok (insert h F) P (snd s')"
proof (cases "tc_handle (fst s)")
  case None
  obtain h w1 where a: "ss_add api (api_new api) (snd s) = (h, w1)" by (cases "ss_add api (api_new api) (snd s)")
  have F: "holds F (snd s)" using assms(3) None by (simp add: base_def own_def netok_def)
  note add = holds_ss_add [OF assms(2) a F]
  have "nt_curr w1 = nt_curr (snd s)" using a by (auto simp: ss_add_def Let_def)
  then show ?thesis using assms(1,3) None a add by (auto simp: handle_or_add_def lift_net_def base_def own_def netok_def)
next
  case (Some h)
  then show ?thesis using assms by (auto simp: handle_or_add_def base_def own_def)
qed

lemma connect_body:
  assumes "bind_st (handle_or_add api s) (\<lambda>handle s.
       bind_st (from_core_sockaddr addr, s) (\<lambda>remote_endpoint s.
       bind_st (bound_endpoint s) (\<lambda>be s.
       bind_st (lift_net (with_socket_mut handle (connect_socket api (nt_env (snd s)) remote_endpoint be)) s) (\<lambda>(l, r) s.
         (Ok (), ((fst s)\<lparr>tc_local_addr := l, tc_peer_addr := r, tc_handle := Some handle\<rparr>, snd s)))))) = (x, s')"
    and "slots_free api" "base F P s"
  shows "base F P s' \<and> (x = Ok () \<longrightarrow> tc_handle (fst s') \<noteq> None)"
proof -
  obtain h s1 where a: "handle_or_add api s = (Ok h, s1)" "fst s1 = fst s" "h \<notin> F" "own (fst s) \<subseteq> {h}" "netok (insert h F) P (snd s1)"
    using handle_or_add_netok [OF _ assms(2,3)] by (metis surj_pair)
  have keep: "base F P s2" if "netok (insert h F) P (snd s2)" "own (fst s2) \<subseteq> {h}" for s2
    by (rule baseI [OF that(1)]) (use that(2) a(3) in auto)
  from assms(1)[unfolded a(1) bind_st_simps] show ?thesis
  proof (cases rule: bind_stE)
    case (err e)
    then show ?thesis using keep [of s'] a by simp
  next
    case (ok re s2)
    then have s2: "fst s2 = fst s" "netok (insert h F) P (snd s2)" using a by auto
    from ok(2) show ?thesis
    proof (cases rule: bind_stE)
      case (err e)
      from err(1) s2(2) have "fst s' = fst s2" "netok (insert h F) P (snd s')" by (auto elim: bound_endpoint_cases)
      then show ?thesis using keep [of s'] s2(1) a(4) err(2) by simp
    next
      case (ok be s3)
      from ok(1) s2(2) have s3: "fst s3 = fst s2" "netok (insert h F) P (snd s3)" by (auto elim: bound_endpoint_cases)
      from ok(2) show ?thesis
      proof (cases rule: bind_stE)
        case (err e)
        then have "fst s' = fst s3" "netok (insert h F) P (snd s')" by (auto simp: lift_net_iff intro: netok_mut [OF _ s3(2)])
        then show ?thesis using keep [of s'] s2(1) s3(1) a(4) err(2) by simp
      next
        case (ok y s4)
        then have "netok (insert h F) P (snd s4)" by (auto simp: lift_net_iff intro: netok_mut [OF _ s3(2)])
        moreover have "tc_handle (fst s') = Some h" "snd s' = snd s4" using ok(2) by (auto split: prod.splits)
        ultimately show ?thesis using keep [of s'] by (simp add: own_def)
      qed
    qed
  qed
qed

lemma sock_ok_start_connect:
  assumes "start_connect api addr s = (r, s')" "r \<noteq> Panicked" "slots_free api" "sock_ok F P s"
  shows "sock_ok F P s'"
proof -
  have "base F P (set_state STATE_BUSY s)" by (rule base_set_state [OF sock_ok_base [OF assms(4)]])
  note body = connect_body [OF _ assms(3) this]
  from assms(1) show ?thesis
    unfolding start_connect_def
    by (rule sock_ok_update [OF _ assms(2,4)])
      (drule body, simp, drule body, simp add: sock_ok_connected(1))
qed

lemma sock_ok_poll_connect:
  assumes "poll_connect api s = (r, s')" "sock_ok F P s" "tc_state (fst s) = STATE_CONNECTING"
  shows "sock_ok F P s'" "r \<noteq> Panicked"
proof -
  obtain h where h: "tc_handle (fst s) = Some h" using assms(2,3) by (auto simp: sock_ok_def quiet_def)
  have b: "base F P s" by (rule sock_ok_base [OF assms(2)])
  then obtain k where k: "nt_sockets (snd s) h = Some k" using h by (auto simp: base_def netok_def own_def holds_def)
  have c: "base F P ((fst s)\<lparr>tc_local_addr := l, tc_peer_addr := p\<rparr>, snd s)" for l p
    by (rule base_cong [OF b]) simp_all
  have "sock_ok F P s' \<and> r \<noteq> Panicked"
    using assms(1,2) h k sock_ok_connected(2) [OF b] sock_ok_closed [OF c]
    by (cases "api_state api k") (auto simp: poll_connect_def with_socket_def)
  then show "sock_ok F P s'" "r \<noteq> Panicked" by simp_all
qed

lemma accept_once_ok:
  assumes "accept_once api port s = (r, s')" "sock_ok F P s"
  shows "sock_ok F P s'"
    "r = Ok sk \<Longrightarrow> \<exists>h l p. sk = tcp_new_connected h l p \<and> h \<notin> own (fst s') \<union> F \<and> holds (insert h (own (fst s') \<union> F)) (snd s')"
proof -
  have h: "holds (own (fst s) \<union> F) (snd s)" using assms(2) by (simp add: sock_ok_def base_def netok_def)
  have "sock_ok F P s' \<and> (r = Ok sk \<longrightarrow> (\<exists>h l p. sk = tcp_new_connected h l p \<and> h \<notin> own (fst s') \<union> F \<and> holds (insert h (own (fst s') \<union> F)) (snd s')))"
    using assms(1) unfolding accept_once_def
  proof (cases rule: bind_stE)
    case (err e)
    then have "lt_accept api port (snd s) = (Inl e, snd s')" "fst s' = fst s" by (simp_all add: lift_net_iff)
    then show ?thesis using err(2) assms(2) by (cases rule: lt_accept_cases) (auto simp: sock_ok_def base_def)
  next
    case (ok y s1)
    obtain k l p where y: "y = (k, l, p)" by (cases y)
    have a: "lt_accept api port (snd s) = (Ok (k, l, p), snd s1)" "fst s1 = fst s" using ok(1) y by (simp_all add: lift_net_iff)
    have s': "s' = s1" "r = Ok (tcp_new_connected k l p)" using ok(2) y by auto
    note t = lt_accept_holds [OF a(1) h]
    have "holds (own (fst s) \<union> F) (snd s1)" by (rule holds_mono [OF t(2)]) auto
    moreover have "dom (nt_tcp (snd s1)) = dom (nt_tcp (snd s))" "nt_curr (snd s1) = nt_curr (snd s)"
      using a(1) by (auto elim!: lt_accept_cases split: if_splits)
    ultimately have "sock_ok F P s1" using assms(2) a(2) by (simp add: sock_ok_def base_def netok_def)
    then show ?thesis using s' t(1,2) a(2) by auto
  qed
  then show "sock_ok F P s'"
    "r = Ok sk \<Longrightarrow> \<exists>h l p. sk = tcp_new_connected h l p \<and> h \<notin> own (fst s') \<union> F \<and> holds (insert h (own (fst s') \<union> F)) (snd s')" by simp_all
qed

lemma drop_handles_curr: "drop_handles hs w = (r, w') \<Longrightarrow> nt_curr w' = nt_curr w"
  by (induction hs w rule: drop_handles.induct) (auto simp: ss_remove_def split: option.splits)

lemma unlisten_curr: "unlisten p w = (r, w') \<Longrightarrow> nt_curr w' = nt_curr w"
  by (auto simp: unlisten_def dest: drop_handles_curr split: option.splits)

lemma shutdown_ok:
  assumes "poll_ok wr api poll" "slots_free api" "sock_ok F P s"
  shows "\<exists>s'. tcp_shutdown poll api s = (Ok (), s') \<and> sock_ok F P s' \<and> tc_handle (fst s') = tc_handle (fst s) \<and>
    tc_state (fst s') \<notin> {STATE_CONNECTED, STATE_LISTENING} \<and> lports (fst s) \<inter> dom (nt_tcp (snd s')) = {}"
proof -
  have b: "base F P s" by (rule sock_ok_base [OF assms(3)])
  consider (stream) "tc_state (fst s) = STATE_CONNECTED" | (listener) "tc_state (fst s) = STATE_LISTENING"
    | (rest) "tc_state (fst s) \<notin> {STATE_CONNECTED, STATE_LISTENING}" by auto
  then show ?thesis
  proof cases
    case stream
    then obtain h where h: "tc_handle (fst s) = Some h" using assms(3) by (auto simp: sock_ok_def quiet_def)
    then obtain k where k: "nt_sockets (snd s) h = Some k" using b by (auto simp: base_def netok_def own_def holds_def)
    define w1 where "w1 = (snd s)\<lparr>nt_sockets := (nt_sockets (snd s))(h \<mapsto> api_close api k)\<rparr>"
    have mut: "with_socket_mut h (\<lambda>socket. (Ok (), api_close api socket)) (snd s) = (Ok (), w1)"
      by (simp add: with_socket_mut_def k w1_def)
    define s1 where "s1 = ((fst s)\<lparr>tc_state := STATE_BUSY, tc_local_addr := UNSPECIFIED_ENDPOINT\<rparr>, poll w1)"
    have "base F P ((fst s)\<lparr>tc_state := STATE_BUSY, tc_local_addr := UNSPECIFIED_ENDPOINT\<rparr>, w1)"
      using b netok_mut [OF mut] by (simp add: base_def own_def)
    then have b1: "base F P s1" using base_poll(1) [OF assms(1,2)] by (fastforce simp: s1_def)
    have run: "tcp_shutdown poll api s = (Ok (), set_state STATE_CLOSED s1)"
      using stream h mut by (simp add: tcp_shutdown_def or_else_def update_state_def shutdown_stream_def lift_net_def s1_def STATE_defs)
    show ?thesis using run sock_ok_closed [OF b1] stream by (auto simp: s1_def STATE_defs lports_def)
  next
    case listener
    let ?p = "ep_port (tc_local_addr (fst s))"
    have "holds (own (fst s) \<union> F) (snd s)" using b by (simp add: base_def netok_def)
    from unlisten_ok [OF this, of ?p] obtain w1 where u: "unlisten ?p (snd s) = (Ok (), w1)" "holds (own (fst s) \<union> F) w1"
      "nt_tcp w1 = (nt_tcp (snd s))(?p := None)" by blast
    have "nt_curr w1 = nt_curr (snd s)" by (rule unlisten_curr [OF u(1)])
    moreover have "?p \<notin> P" using listener assms(3) by (simp add: sock_ok_def lports_def)
    ultimately have n: "netok (own (fst s) \<union> F) P w1" using b u(2,3) by (auto simp: base_def netok_def)
    define s1 where "s1 = ((fst s)\<lparr>tc_state := STATE_BUSY, tc_local_addr := UNSPECIFIED_ENDPOINT\<rparr>, poll w1)"
    have "base F P ((fst s)\<lparr>tc_state := STATE_BUSY, tc_local_addr := UNSPECIFIED_ENDPOINT\<rparr>, w1)"
      using b n by (simp add: base_def own_def)
    then have b1: "base F P s1" using base_poll(1) [OF assms(1,2)] by (fastforce simp: s1_def)
    have "dom (nt_tcp (snd s1)) = dom (nt_tcp w1)" using base_poll(2) [OF assms(1,2)] b n by (fastforce simp: s1_def base_def own_def)
    then have free: "?p \<notin> dom (nt_tcp (snd s1))" by (simp add: u(3))
    have run: "tcp_shutdown poll api s = (Ok (), set_state STATE_CLOSED s1)"
      using listener u(1) by (simp add: tcp_shutdown_def or_else_def update_state_def shutdown_listener_def lift_net_def s1_def STATE_defs Let_def)
    show ?thesis using run sock_ok_closed [OF b1] free listener by (auto simp: s1_def STATE_defs lports_def)
  next
    case rest
    then have "tcp_shutdown poll api s = (Ok (), s)" by (simp add: tcp_shutdown_def or_else_def update_state_def)
    then show ?thesis using rest assms(3) by (simp add: lports_def)
  qed
qed

lemma drop_ok:
  assumes "poll_ok wr api poll" "slots_free api" "sock_ok F P s"
  shows "\<exists>w. tcp_drop poll api s = (Ok (), w) \<and> netok F P w \<and> own (fst s) \<inter> dom (nt_sockets w) = {} \<and> lports (fst s) \<inter> dom (nt_tcp w) = {}"
proof -
  obtain s1 where s1: "tcp_shutdown poll api s = (Ok (), s1)" "sock_ok F P s1" "tc_handle (fst s1) = tc_handle (fst s)"
    "lports (fst s) \<inter> dom (nt_tcp (snd s1)) = {}"
    using shutdown_ok [OF assms] by blast
  have b: "netok (own (fst s1) \<union> F) P (snd s1)" "own (fst s1) \<inter> F = {}" using s1(2) by (simp_all add: sock_ok_def base_def)
  show ?thesis
  proof (cases "tc_handle (fst s)")
    case None
    then show ?thesis using s1 b by (simp add: tcp_drop_def own_def)
  next
    case (Some h)
    have "holds (insert h F) (snd s1)" "h \<notin> F" using b Some s1(3) by (simp_all add: netok_def own_def)
    from holds_ss_remove [OF this] obtain w where w: "ss_remove h (snd s1) = (Ok (), w)" "holds F w" "nt_tcp w = nt_tcp (snd s1)"
      "nt_sockets w = (nt_sockets (snd s1))(h := None)" by blast
    have "nt_curr w = nt_curr (snd s1)" using w(1) by (auto simp: ss_remove_def split: option.splits)
    then show ?thesis using w b s1 Some by (simp add: tcp_drop_def netok_def own_def)
  qed
qed

text \<open>The loop of a blocking operation.\<close>

lemma block_loop_inv:
  assumes "block_loop poll f s = Some y"
    and poll: "\<And>s. I s \<Longrightarrow> I (fst s, poll (snd s))"
    and step: "\<And>s r s'. I s \<Longrightarrow> f s = (r, s') \<Longrightarrow> r \<noteq> Panicked \<Longrightarrow> Q r s' \<and> (r = Fail WouldBlock \<longrightarrow> I s')"
    and "I s" "fst y \<noteq> Panicked"
  shows "Q (fst y) (snd y)"
proof -
  define A where "A p g \<longleftrightarrow> (\<forall>s. I s \<longrightarrow> I (fst s, p (snd s))) \<and>
    (\<forall>s r s'. I s \<longrightarrow> g s = (r, s') \<longrightarrow> r \<noteq> Panicked \<longrightarrow> Q r s' \<and> (r = Fail WouldBlock \<longrightarrow> I s'))" for p g
  have "A poll f \<longrightarrow> I s \<longrightarrow> fst y \<noteq> Panicked \<longrightarrow> Q (fst y) (snd y)"
  proof (rule block_loop.raw_induct [OF _ assms(1)], intro impI)
    fix loop p g s y
    assume IH: "\<And>p g s y. loop p g s = Some y \<Longrightarrow> A p g \<longrightarrow> I s \<longrightarrow> fst y \<noteq> Panicked \<longrightarrow> Q (fst y) (snd y)"
      and body: "(case g (fst s, p (snd s)) of (r, s1) \<Rightarrow> if r = Fail WouldBlock then loop p g s1 else Some (r, s1)) = Some y"
      and a: "A p g" "I s" "fst y \<noteq> Panicked"
    obtain r s1 where g: "g (fst s, p (snd s)) = (r, s1)" by (cases "g (fst s, p (snd s))")
    have I: "I (fst s, p (snd s))" using a(1,2) by (simp add: A_def)
    have st: "r \<noteq> Panicked \<Longrightarrow> Q r s1 \<and> (r = Fail WouldBlock \<longrightarrow> I s1)" using a(1) I g unfolding A_def by blast
    show "Q (fst y) (snd y)"
    proof (cases "r = Fail WouldBlock")
      case True
      then show ?thesis using IH [of p g s1 y] st body g a(1,3) by simp
    next
      case False
      then show ?thesis using st body g a(3) by auto
    qed
  qed
  then show ?thesis using assms by (simp add: A_def)
qed

lemma block_on_inv:
  assumes "block_on poll f s = Some (r, s')"
    and "\<And>s. I s \<Longrightarrow> I (fst s, poll (snd s))"
    and "\<And>s r s'. I s \<Longrightarrow> f s = (r, s') \<Longrightarrow> r \<noteq> Panicked \<Longrightarrow> Q r s' \<and> (r = Fail WouldBlock \<longrightarrow> I s')"
    and "I s" "r \<noteq> Panicked"
  shows "Q r s'"
proof (cases "tc_nonblock (fst s)")
  case True
  then have "f s = (r, s')" using assms(1) by (simp add: block_on_def)
  then show ?thesis using assms(3) [OF assms(4)] assms(5) by blast
next
  case False
  then have "block_loop poll f s = Some (r, s')" using assms(1) by (simp add: block_on_def)
  from block_loop_inv [OF this, of I Q] show ?thesis using assms(2-5) by simp
qed

end
