(* ===== verification/Tcp_World.thy ===== *)
theory Tcp_World
  imports Tcp
begin

text \<open>
  All TCP sockets of the kernel together: a step relation over the operations of
  \<^verbatim>\<open>smoltcp_impl/tcp.rs\<close>, the handles and ports each socket owns as an invariant of it, and the
  properties of the TCP layer. A small engine serves as the concrete instance of the parameters.
\<close>

subsection \<open>All sockets of the kernel\<close>

datatype tcp_op = Bind SocketAddr | Listening | Connect SocketAddr | Shutdown | Recv nat | Send "u8 list" | Poll | Nonblocking bool

definition discard :: "'a res \<times> 's \<Rightarrow> unit res \<times> 's" where
  "discard = map_prod (map_sum id (\<lambda>_. ())) id"

definition run_op :: "(('sk, 'e) net \<Rightarrow> ('sk, 'e) net) \<Rightarrow> ('sk, 'e) tcp_api \<Rightarrow> tcp_op \<Rightarrow> ('sk, 'e) tcp_st \<Rightarrow>
    (unit res \<times> ('sk, 'e) tcp_st) option" where
  "run_op poll api op s =
     (case op of
        Bind a \<Rightarrow> Some (tcp_bind a s)
      | Listening \<Rightarrow> Some (tcp_listen s)
      | Connect a \<Rightarrow> tcp_connect poll api a s
      | Shutdown \<Rightarrow> Some (tcp_shutdown poll api s)
      | Recv n \<Rightarrow> map_option discard (tcp_recv poll api n s)
      | Send bytes \<Rightarrow> map_option discard (tcp_send poll api bytes s)
      | Poll \<Rightarrow> Some (discard (tcp_poll api s))
      | Nonblocking b \<Rightarrow> Some (Ok (), (set_nonblocking b (fst s), snd s)))"

lemma sock_ok_cong:
  "sock_ok F P (sk, w) \<Longrightarrow> tc_state sk' = tc_state sk \<Longrightarrow> tc_handle sk' = tc_handle sk \<Longrightarrow> tc_local_addr sk' = tc_local_addr sk \<Longrightarrow>
   sock_ok F P (sk', w)"
proof -
  assume "sock_ok F P (sk, w)" and e: "tc_state sk' = tc_state sk" "tc_handle sk' = tc_handle sk" "tc_local_addr sk' = tc_local_addr sk"
  moreover have "quiet sk' = quiet sk" "lports sk' = lports sk" "own sk' = own sk" using e by (simp_all add: quiet_def lports_def own_def)
  ultimately show ?thesis by (simp add: sock_ok_def base_def)
qed

lemma sock_ok_connect:
  assumes "poll_ok wr api poll" "slots_free api" "tcp_connect poll api addr s = Some (r, s')" "r \<noteq> Panicked" "sock_ok F P s"
  shows "sock_ok F P s'"
proof -
  obtain r1 s1 where c: "start_connect api addr s = (r1, s1)" by (cases "start_connect api addr s")
  show ?thesis
  proof (cases r1)
    case (Inl e)
    then have "r = r1" "s' = s1" using assms(3) c by (simp_all add: tcp_connect_def)
    then show ?thesis using sock_ok_start_connect [OF c _ assms(2,5)] assms(4) by simp
  next
    case (Inr u)
    have ok1: "sock_ok F P s1" by (rule sock_ok_start_connect [OF c _ assms(2,5)]) (simp add: Inr)
    have conn: "tc_state (fst s1) = STATE_CONNECTING"
      using c Inr by (auto simp: start_connect_def elim!: or_else_update)
    show ?thesis
    proof (cases "tc_nonblock (fst s1)")
      case True
      then show ?thesis using assms(3) c Inr ok1 by (simp add: tcp_connect_def)
    next
      case False
      then have "block_on poll (await_connect api) s1 = Some (r, s')" using assms(3) c Inr by (simp add: tcp_connect_def)
      then show ?thesis
      proof (rule block_on_inv [where I = "\<lambda>t. sock_ok F P t \<and> tc_state (fst t) = STATE_CONNECTING"])
        fix t r t'
        assume t: "sock_ok F P t \<and> tc_state (fst t) = STATE_CONNECTING" and a: "await_connect api t = (r, t')"
        obtain x t1 where pc: "poll_connect api t = (x, t1)" by (cases "poll_connect api t")
        have "sock_ok F P t1" using sock_ok_poll_connect(1) [OF pc] t by simp
        moreover have "t' = t1" using a pc by (cases x) (auto simp: await_connect_def split: if_splits)
        moreover have "tc_state (fst t1) = STATE_CONNECTING" if "r = Fail WouldBlock"
          using a pc t that by (cases x) (auto simp: await_connect_def poll_connect_def with_socket_def split: if_splits option.splits TcpState.splits)
        ultimately show "sock_ok F P t' \<and> (r = Fail WouldBlock \<longrightarrow> sock_ok F P t' \<and> tc_state (fst t') = STATE_CONNECTING)" by simp
      qed (use ok1 conn assms(4) sock_ok_poll [OF assms(1,2)] in auto)
    qed
  qed
qed

lemma recv_once_ok: "sock_ok F P t \<Longrightarrow> recv_once api h n t = (r, t') \<Longrightarrow> sock_ok F P t'"
  unfolding recv_once_def by (rule sock_ok_mut)

lemma sock_ok_recv:
  assumes "poll_ok wr api poll" "slots_free api" "tcp_recv poll api n s = Some (r, s')" "r \<noteq> Panicked" "sock_ok F P s"
  shows "sock_ok F P s'"
proof -
  have "sock_ok F P s'" if "block_on poll (recv_once api h n) s = Some (r, s')" for h
    using that
  proof (rule block_on_inv [where I = "sock_ok F P"])
    show "sock_ok F P t' \<and> (x = Fail WouldBlock \<longrightarrow> sock_ok F P t')" if "sock_ok F P t" "recv_once api h n t = (x, t')" for t x t'
      using recv_once_ok [OF that] by simp
  qed (use assms(4,5) sock_ok_poll [OF assms(1,2)] in auto)
  then show ?thesis using assms(3,5) by (auto simp: tcp_recv_def split: if_splits option.splits)
qed

lemma send_once_ok: "sock_ok F P t \<Longrightarrow> send_once api h bytes t = (r, t') \<Longrightarrow> sock_ok F P t'"
  unfolding send_once_def by (rule sock_ok_mut)

lemma sock_ok_send:
  assumes "poll_ok wr api poll" "slots_free api" "tcp_send poll api bytes s = Some (r, s')" "r \<noteq> Panicked" "sock_ok F P s"
  shows "sock_ok F P s'"
proof -
  have "sock_ok F P s'" if "block_on poll (send_once api h bytes) s = Some (r, s')" for h
    using that
  proof (rule block_on_inv [where I = "sock_ok F P"])
    show "sock_ok F P t' \<and> (x = Fail WouldBlock \<longrightarrow> sock_ok F P t')" if "sock_ok F P t" "send_once api h bytes t = (x, t')" for t x t'
      using send_once_ok [OF that] by simp
  qed (use assms(4,5) sock_ok_poll [OF assms(1,2)] in auto)
  then show ?thesis using assms(3,5) by (auto simp: tcp_send_def split: if_splits option.splits)
qed

lemma discard_iff: "discard m = (r, s') \<longleftrightarrow> (\<exists>x. m = (x, s') \<and> r = map_sum id (\<lambda>_. ()) x)"
  by (cases m) (auto simp: discard_def)

lemma sock_ok_op:
  assumes "poll_ok wr api poll" "slots_free api" "run_op poll api op s = Some (r, s')" "r \<noteq> Panicked" "sock_ok F P s"
  shows "sock_ok F P s'"
proof (cases op)
  case Shutdown
  then show ?thesis using shutdown_ok [OF assms(1,2,5)] assms(3) by (auto simp: run_op_def)
next
  case (Recv n)
  then obtain x where "tcp_recv poll api n s = Some (x, s')" "r = map_sum id (\<lambda>_. ()) x"
    using assms(3) by (auto simp: run_op_def discard_iff)
  then show ?thesis using sock_ok_recv [OF assms(1,2) _ _ assms(5)] assms(4) by (cases x) auto
next
  case (Send bytes)
  then obtain x where "tcp_send poll api bytes s = Some (x, s')" "r = map_sum id (\<lambda>_. ()) x"
    using assms(3) by (auto simp: run_op_def discard_iff)
  then show ?thesis using sock_ok_send [OF assms(1,2) _ _ assms(5)] assms(4) by (cases x) auto
next
  case Poll
  then obtain x where "tcp_poll api s = (x, s')" using assms(3) by (auto simp: run_op_def discard_iff)
  then show ?thesis using sock_ok_poll_connect(1) [of api s x s' F P] assms(5) by (auto simp: tcp_poll_def split: if_splits)
next
  case (Nonblocking b)
  then show ?thesis using assms(3,5) sock_ok_cong [of F P "fst s" "snd s"] by (auto simp: run_op_def set_nonblocking_def)
next
  case (Bind a)
  then show ?thesis using sock_ok_bind [OF _ assms(4,5), of a] assms(3) by (simp add: run_op_def)
next
  case Listening
  then show ?thesis using sock_ok_listen [OF _ assms(4,5)] assms(3) by (simp add: run_op_def)
next
  case (Connect a)
  then show ?thesis using sock_ok_connect [OF assms(1,2) _ assms(4,5), of a] assms(3) by (simp add: run_op_def)
qed

text \<open>The kernel's sockets, by number, with the network. A step is the creation of a socket, an
  operation that does not panic, a successful or failing \<^verbatim>\<open>accept\<close>, a drop, or an action of the
  network.\<close>

type_synonym ('sk, 'e) tcp_world = "(nat \<rightharpoonup> TcpSocket) \<times> ('sk, 'e) net"

inductive tcp_step :: "wire_api \<Rightarrow> ('sk, 'e) tcp_api \<Rightarrow> (('sk, 'e) net \<Rightarrow> ('sk, 'e) net) \<Rightarrow> ('sk, 'e) tcp_world \<Rightarrow> ('sk, 'e) tcp_world \<Rightarrow> bool"
  for wr api poll where
  create: "m i = None \<Longrightarrow> tcp_step wr api poll (m, w) (m(i \<mapsto> tcp_new), w)"
| operate: "m i = Some sk \<Longrightarrow> run_op poll api op (sk, w) = Some (r, (sk', w')) \<Longrightarrow> r \<noteq> Panicked \<Longrightarrow>
    tcp_step wr api poll (m, w) (m(i \<mapsto> sk'), w')"
| accept: "m i = Some sk \<Longrightarrow> m j = None \<Longrightarrow> tcp_accept poll api (sk, w) = Some (Ok sk2, (sk', w')) \<Longrightarrow>
    tcp_step wr api poll (m, w) (m(i \<mapsto> sk', j \<mapsto> sk2), w')"
| refuse: "m i = Some sk \<Longrightarrow> tcp_accept poll api (sk, w) = Some (Fail e, (sk', w')) \<Longrightarrow>
    tcp_step wr api poll (m, w) (m(i \<mapsto> sk'), w')"
| drop: "m i = Some sk \<Longrightarrow> tcp_drop poll api (sk, w) = (Ok (), w') \<Longrightarrow> tcp_step wr api poll (m, w) (m(i := None), w')"
| network: "net_env wr api w w' \<Longrightarrow> tcp_step wr api poll (m, w) (m, w')"

inductive_cases tcp_stepE: "tcp_step wr api poll x y"

definition net_start :: "'e \<Rightarrow> ('sk, 'e) net" where
  "net_start e = \<lparr>nt_tcp = lt_new, nt_sockets = Map.empty, nt_curr = PORT_START, nt_env = e\<rparr>"

definition owned :: "(nat \<rightharpoonup> TcpSocket) \<Rightarrow> nat set \<Rightarrow> SocketHandle set" where
  "owned m I = (\<Union>i\<in>I. case m i of None \<Rightarrow> {} | Some sk \<Rightarrow> own sk)"

definition ports :: "(nat \<rightharpoonup> TcpSocket) \<Rightarrow> nat set \<Rightarrow> u16 set" where
  "ports m I = (\<Union>i\<in>I. case m i of None \<Rightarrow> {} | Some sk \<Rightarrow> lports sk)"

definition world_ok :: "('sk, 'e) tcp_world \<Rightarrow> bool" where
  "world_ok x \<longleftrightarrow> netok (owned (fst x) UNIV) (ports (fst x) UNIV) (snd x) \<and>
     (\<forall>i sk. fst x i = Some sk \<longrightarrow> quiet sk \<and> own sk \<inter> owned (fst x) (- {i}) = {} \<and> lports sk \<inter> ports (fst x) (- {i}) = {})"

lemma owned_split: "m i = Some sk \<Longrightarrow> owned m UNIV = own sk \<union> owned m (- {i})"
  "m i = Some sk \<Longrightarrow> ports m UNIV = lports sk \<union> ports m (- {i})"
  by (auto simp: owned_def ports_def split: option.splits) force+

lemma owned_mem: "m j = Some sk \<Longrightarrow> j \<noteq> i \<Longrightarrow> own sk \<subseteq> owned m (- {i})" "m j = Some sk \<Longrightarrow> j \<noteq> i \<Longrightarrow> lports sk \<subseteq> ports m (- {i})"
  by (force simp: owned_def ports_def)+

lemma owned_upd [simp]: "owned (m(i := x)) (- {i}) = owned m (- {i})" "ports (m(i := x)) (- {i}) = ports m (- {i})"
  by (auto simp: owned_def ports_def split: if_splits)

lemma owned_none: "m i = None \<Longrightarrow> owned m (- {i}) = owned m UNIV" "m i = None \<Longrightarrow> ports m (- {i}) = ports m UNIV"
  by (auto simp: owned_def ports_def split: option.splits) force+

lemma world_ok_sock: "world_ok (m, w) \<Longrightarrow> m i = Some sk \<Longrightarrow> sock_ok (owned m (- {i})) (ports m (- {i})) (sk, w)"
  using owned_split [of m i sk] by (auto simp: world_ok_def sock_ok_def base_def netok_def)

lemma owned_disjointI:
  assumes "\<And>j sk. j \<noteq> i \<Longrightarrow> m j = Some sk \<Longrightarrow> quiet sk \<and> own sk \<inter> owned m (- {j}) = {} \<and> lports sk \<inter> ports m (- {j}) = {}"
    and "own sk' \<inter> owned m (- {i}) = {}" "lports sk' \<inter> ports m (- {i}) = {}" "j \<noteq> i" "m j = Some sk"
  shows "own sk \<inter> owned (m(i \<mapsto> sk')) (- {j}) = {}" "lports sk \<inter> ports (m(i \<mapsto> sk')) (- {j}) = {}"
proof -
  have "owned (m(i \<mapsto> sk')) (- {j}) \<subseteq> own sk' \<union> owned m (- {j})" "own sk \<subseteq> owned m (- {i})"
    using assms(4,5) by (force simp: owned_def split: option.splits if_splits)+
  then show "own sk \<inter> owned (m(i \<mapsto> sk')) (- {j}) = {}" using assms(1) [OF assms(4,5)] assms(2) by blast
  have "ports (m(i \<mapsto> sk')) (- {j}) \<subseteq> lports sk' \<union> ports m (- {j})" "lports sk \<subseteq> ports m (- {i})"
    using assms(4,5) by (force simp: ports_def split: option.splits if_splits)+
  then show "lports sk \<inter> ports (m(i \<mapsto> sk')) (- {j}) = {}" using assms(1) [OF assms(4,5)] assms(3) by blast
qed

text \<open>Replacing or adding one socket.\<close>

lemma world_ok_put:
  assumes "world_ok (m, w)" "sock_ok (owned m (- {i})) (ports m (- {i})) (sk', w')"
  shows "world_ok (m(i \<mapsto> sk'), w')"
proof -
  have o: "owned (m(i \<mapsto> sk')) UNIV = own sk' \<union> owned m (- {i})" "ports (m(i \<mapsto> sk')) UNIV = lports sk' \<union> ports m (- {i})"
    using owned_split [of "m(i \<mapsto> sk')" i sk'] by simp_all
  have s: "netok (own sk' \<union> owned m (- {i})) (ports m (- {i})) w'" "own sk' \<inter> owned m (- {i}) = {}" "quiet sk'"
    "lports sk' \<subseteq> dom (nt_tcp w')" "lports sk' \<inter> ports m (- {i}) = {}"
    using assms(2) by (simp_all add: sock_ok_def base_def)
  have old: "quiet sk \<and> own sk \<inter> owned m (- {j}) = {} \<and> lports sk \<inter> ports m (- {j}) = {}" if "m j = Some sk" for j sk
    using assms(1) that by (simp add: world_ok_def)
  have "quiet sk \<and> own sk \<inter> owned (m(i \<mapsto> sk')) (- {j}) = {} \<and> lports sk \<inter> ports (m(i \<mapsto> sk')) (- {j}) = {}"
    if "(m(i \<mapsto> sk')) j = Some sk" for j sk
  proof (cases "j = i")
    case True
    then show ?thesis using that s by simp
  next
    case False
    then have "m j = Some sk" using that by simp
    then show ?thesis using owned_disjointI [OF old s(2,5) False] old by blast
  qed
  then show ?thesis using s(1,4) unfolding world_ok_def fst_conv snd_conv o by (auto simp: netok_def)
qed

lemma world_ok_net:
  assumes "world_ok (m, w)" "netok (owned m UNIV) (ports m UNIV) w'"
  shows "world_ok (m, w')"
  using assms by (simp add: world_ok_def)

lemma world_ok_remove:
  assumes "world_ok (m, w)" "netok (owned m (- {i})) (ports m (- {i})) w'"
  shows "world_ok (m(i := None), w')"
proof -
  have o: "owned (m(i := None)) UNIV = owned m (- {i})" "ports (m(i := None)) UNIV = ports m (- {i})"
    using owned_none [of "m(i := None)" i] by simp_all
  have "owned (m(i := None)) J \<subseteq> owned m J" "ports (m(i := None)) J \<subseteq> ports m J" for J
    by (auto simp: owned_def ports_def split: if_splits)
  then show ?thesis using assms unfolding world_ok_def fst_conv snd_conv o by (fastforce split: if_splits)
qed

lemma accept_sock_ok:
  assumes "poll_ok wr api poll" "slots_free api" "tcp_accept poll api s = Some (r, s')" "r \<noteq> Panicked" "sock_ok F P s"
  shows "sock_ok F P s' \<and> (\<forall>sk. r = Ok sk \<longrightarrow>
    (\<exists>h l p. sk = tcp_new_connected h l p \<and> h \<notin> own (fst s') \<union> F \<and> holds (insert h (own (fst s') \<union> F)) (snd s')))"
proof (cases "tc_state (fst s) = STATE_LISTENING")
  case True
  then have "block_on poll (accept_once api (ep_port (tc_local_addr (fst s)))) s = Some (r, s')"
    using assms(3) by (simp add: tcp_accept_def)
  then show ?thesis
  proof (rule block_on_inv [where I = "sock_ok F P"])
    fix t x t'
    assume a: "sock_ok F P t" "accept_once api (ep_port (tc_local_addr (fst s))) t = (x, t')"
    show "(sock_ok F P t' \<and> (\<forall>sk. x = Ok sk \<longrightarrow> (\<exists>h l p. sk = tcp_new_connected h l p \<and> h \<notin> own (fst t') \<union> F \<and>
        holds (insert h (own (fst t') \<union> F)) (snd t')))) \<and> (x = Fail WouldBlock \<longrightarrow> sock_ok F P t')"
      using accept_once_ok [OF a(2,1)] by blast
  qed (use assms(4,5) sock_ok_poll [OF assms(1,2)] in auto)
next
  case False
  then show ?thesis using assms(3,5) by (auto simp: tcp_accept_def)
qed

lemma world_ok_step:
  assumes "tcp_step wr api poll x y" "poll_ok wr api poll" "slots_free api" "world_ok x"
  shows "world_ok y"
  using assms(1)
proof cases
  case (create m i w)
  have "netok (owned m (- {i})) (ports m (- {i})) w" using assms(4) create owned_none [of m i] by (simp add: world_ok_def)
  then have "sock_ok (owned m (- {i})) (ports m (- {i})) (tcp_new, w)"
    by (simp add: sock_ok_def base_def own_def quiet_def lports_def tcp_new_def STATE_defs)
  then show ?thesis using world_ok_put assms(4) create by blast
next
  case (operate m i sk op w r sk' w')
  then have "sock_ok (owned m (- {i})) (ports m (- {i})) (sk', w')"
    using sock_ok_op [OF assms(2,3)] world_ok_sock assms(4) by blast
  then show ?thesis using world_ok_put assms(4) operate by blast
next
  case (accept m i sk j w sk2 sk' w')
  let ?F = "owned m (- {i})" and ?P = "ports m (- {i})"
  have old: "sock_ok ?F ?P (sk, w)" using world_ok_sock assms(4) accept by blast
  have new: "sock_ok ?F ?P (sk', w')" "\<exists>h l p. sk2 = tcp_new_connected h l p \<and> h \<notin> own sk' \<union> ?F \<and> holds (insert h (own sk' \<union> ?F)) w'"
    using accept_sock_ok [OF assms(2,3) accept(5) _ old] by simp_all
  have ok1: "world_ok (m(i \<mapsto> sk'), w')" using world_ok_put new(1) assms(4) accept by blast
  have "(m(i \<mapsto> sk')) j = None" using accept by auto
  then have o: "owned (m(i \<mapsto> sk')) (- {j}) = own sk' \<union> ?F" "ports (m(i \<mapsto> sk')) (- {j}) = ports (m(i \<mapsto> sk')) UNIV"
    using owned_none [of "m(i \<mapsto> sk')" j] owned_split [of "m(i \<mapsto> sk')" i sk'] by simp_all
  have "sock_ok (owned (m(i \<mapsto> sk')) (- {j})) (ports (m(i \<mapsto> sk')) (- {j})) (sk2, w')"
    using new(2) ok1 unfolding o
    by (auto simp: sock_ok_def base_def netok_def own_def quiet_def lports_def tcp_new_connected_def STATE_defs world_ok_def)
  then show ?thesis using world_ok_put [OF ok1] accept by simp
next
  case (refuse m i sk w e sk' w')
  have "sock_ok (owned m (- {i})) (ports m (- {i})) (sk, w)" using world_ok_sock assms(4) refuse by blast
  then have "sock_ok (owned m (- {i})) (ports m (- {i})) (sk', w')" using accept_sock_ok [OF assms(2,3) refuse(4)] by simp
  then show ?thesis using world_ok_put assms(4) refuse by blast
next
  case (drop m i sk w w')
  have "sock_ok (owned m (- {i})) (ports m (- {i})) (sk, w)" using world_ok_sock assms(4) drop by blast
  then have "netok (owned m (- {i})) (ports m (- {i})) w'" using drop_ok [OF assms(2,3)] drop(4) by fastforce
  then show ?thesis using world_ok_remove assms(4) drop by blast
next
  case (network w w' m)
  have "holds (owned m UNIV) w" using assms(4) network by (simp add: world_ok_def netok_def)
  from net_env_keeps [OF network(3) assms(3) this]
  have "netok (owned m UNIV) (ports m UNIV) w'" using assms(4) network by (simp add: world_ok_def netok_def)
  then show ?thesis using world_ok_net assms(4) network by blast
qed

lemma world_ok_reachable:
  assumes "poll_ok wr api poll" "slots_free api" "(tcp_step wr api poll)\<^sup>*\<^sup>* (Map.empty, net_start e) x"
  shows "world_ok x"
  using assms(3)
proof (induction rule: rtranclp_induct)
  case base
  show ?case
    by (simp add: world_ok_def netok_def holds_def lt_inv_def owned_def ports_def net_start_def queue_of_def lt_new_def
        ephemeral_ports_def)
next
  case (step y z)
  then show ?case using world_ok_step assms(1,2) by blast
qed

subsection \<open>A small engine\<close>

text \<open>An engine whose sockets are a state with two endpoints, enough to run the operations:
  a poll establishes the connections that wait for it.\<close>

record toy_socket =
  ts_state :: TcpState
  ts_local :: "IpEndpoint option"
  ts_remote :: "IpEndpoint option"

definition toy_peer :: IpEndpoint where
  "toy_peer = \<lparr>ep_addr = Ipv4 (10, 0, 2, 2), ep_port = 40000\<rparr>"

definition toy_api :: "(toy_socket, nat) tcp_api" where
  "toy_api = \<lparr>api_new = \<lparr>ts_state = Closed, ts_local = None, ts_remote = None\<rparr>,
     api_listen = (\<lambda>ep s. if le_port ep = 0 then None else Some \<lparr>ts_state = Listen, ts_local = Some \<lparr>ep_addr = Ipv4 (10, 0, 2, 15), ep_port = le_port ep\<rparr>, ts_remote = None\<rparr>),
     api_connect = (\<lambda>e r ep s. if ep_port r = 0 then None else
        Some \<lparr>ts_state = SynSent, ts_local = Some \<lparr>ep_addr = Ipv4 (10, 0, 2, 15), ep_port = le_port ep\<rparr>, ts_remote = Some r\<rparr>),
     api_state = ts_state, api_local_endpoint = ts_local, api_remote_endpoint = ts_remote,
     api_close = (\<lambda>s. s\<lparr>ts_state := Closed\<rparr>), api_is_active = (\<lambda>s. ts_state s \<noteq> Closed),
     api_may_recv = (\<lambda>s. ts_state s = Established), api_may_send = (\<lambda>s. ts_state s = Established),
     api_can_recv = (\<lambda>s. False), api_can_send = (\<lambda>s. ts_state s = Established), api_recv_queue = (\<lambda>s. 0),
     api_recv_slice = (\<lambda>n s. None), api_send_slice = (\<lambda>b s. Some (length b, s)),
     api_slot = (\<lambda>m. if dom m = {} then 0 else Suc (Max (dom m)))\<rparr>"

definition toy_establish :: "toy_socket \<Rightarrow> toy_socket" where
  "toy_establish s =
     (if ts_state s = SynSent then s\<lparr>ts_state := Established\<rparr>
      else if ts_state s = Listen then s\<lparr>ts_state := Established, ts_remote := Some toy_peer\<rparr> else s)"

definition toy_poll :: "(toy_socket, nat) net \<Rightarrow> (toy_socket, nat) net" where
  "toy_poll w = w\<lparr>nt_sockets := map_option toy_establish \<circ> nt_sockets w, nt_env := nt_env w + 1\<rparr>"

definition toy_wire :: wire_api where
  "toy_wire = \<lparr>wire_ether = Some, wire_ipv4 = (\<lambda>b. Some (6, (10, 0, 2, 2), (10, 0, 2, 15), b)),
     wire_tcp = (\<lambda>b. if length b = 2 then Some (40000, ucast (b ! 0) * 256 + ucast (b ! 1), True, False) else None)\<rparr>"

lemma toy_slots: "slots_free toy_api"
proof -
  have "m (Suc (Max (dom m))) = None" if "finite (dom m)" for m :: "nat \<rightharpoonup> toy_socket"
  proof (rule ccontr)
    assume "m (Suc (Max (dom m))) \<noteq> None"
    then have "Suc (Max (dom m)) \<le> Max (dom m)" using Max_ge [OF that] by (simp add: domIff)
    then show False by simp
  qed
  then show ?thesis by (auto simp: slots_free_def toy_api_def)
qed

lemma toy_poll_ok: "poll_ok toy_wire toy_api toy_poll"
proof -
  have "net_env toy_wire toy_api w (toy_poll w)" for w
    unfolding toy_poll_def by (rule net_env.engine) (auto simp: dom_def)
  then show ?thesis by (simp add: poll_ok_def r_into_rtranclp)
qed

text \<open>A server that listens on port 80.\<close>

definition demo_addr :: SocketAddr where
  "demo_addr = \<lparr>sa_ip = V4 (0, 0, 0, 0), sa_port = 80\<rparr>"

definition demo_bound :: TcpSocket where
  "demo_bound = tcp_new\<lparr>tc_local_addr := \<lparr>ep_addr = Ipv4 (0, 0, 0, 0), ep_port = 80\<rparr>\<rparr>"

definition demo_server :: TcpSocket where
  "demo_server = demo_bound\<lparr>tc_state := STATE_LISTENING\<rparr>"

definition demo_net :: "(toy_socket, nat) net" where
  "demo_net = (net_start 0)\<lparr>nt_tcp := lt_new(80 \<mapsto> \<lparr>lt_endpoint = \<lparr>le_addr = None, le_port = 80\<rparr>, lt_syn_queue = []\<rparr>)\<rparr>"

lemma demo_bind: "tcp_bind demo_addr (tcp_new, w) = (Ok (), (demo_bound, w))"
  by (simp add: tcp_bind_def or_else_def update_state_def demo_addr_def demo_bound_def tcp_new_def set_state_def
      from_core_sockaddr_def from_core_ipaddr_def STATE_defs)

lemma demo_listen: "tcp_listen (demo_bound, net_start 0) = (Ok (), (demo_server, demo_net))"
  by (simp add: tcp_listen_def or_else_def update_state_def demo_bound_def demo_server_def demo_net_def tcp_new_def set_state_def
      bound_endpoint_def lift_net_def lt_listen_def lte_new_def net_start_def lt_new_def is_unspecified_def STATE_defs Let_def)

lemma demo_reachable:
  "(tcp_step toy_wire toy_api toy_poll)\<^sup>*\<^sup>* (Map.empty, net_start 0) ([0 \<mapsto> demo_server], demo_net)"
proof -
  have 1: "tcp_step toy_wire toy_api toy_poll (Map.empty, net_start 0) ([0 \<mapsto> tcp_new], net_start 0)"
    by (rule tcp_step.create) simp
  have "run_op toy_poll toy_api (Bind demo_addr) (tcp_new, net_start 0) = Some (Ok (), (demo_bound, net_start 0))"
    by (simp add: run_op_def demo_bind)
  from tcp_step.operate [of "[0 \<mapsto> tcp_new]" 0, OF _ this]
  have 2: "tcp_step toy_wire toy_api toy_poll ([0 \<mapsto> tcp_new], net_start 0) ([0 \<mapsto> demo_bound], net_start 0)" by simp
  have "run_op toy_poll toy_api Listening (demo_bound, net_start 0) = Some (Ok (), (demo_server, demo_net))"
    by (simp add: run_op_def demo_listen)
  from tcp_step.operate [of "[0 \<mapsto> demo_bound]" 0, OF _ this]
  have 3: "tcp_step toy_wire toy_api toy_poll ([0 \<mapsto> demo_bound], net_start 0) ([0 \<mapsto> demo_server], demo_net)" by simp
  show ?thesis by (rule converse_rtranclp_into_rtranclp, rule 1, rule converse_rtranclp_into_rtranclp, rule 2, rule r_into_rtranclp, rule 3)
qed

subsection \<open>Properties\<close>

lemma sockets_exclusive:
  assumes "poll_ok wr api poll" "slots_free api" "(tcp_step wr api poll)\<^sup>*\<^sup>* (Map.empty, net_start e) (m, w)"
  shows "m i = Some sk \<Longrightarrow> tc_handle sk = Some h \<Longrightarrow>
      nt_sockets w h \<noteq> None \<and> h \<notin> set (queue_of w p) \<and> (\<forall>j tk. j \<noteq> i \<longrightarrow> m j = Some tk \<longrightarrow> tc_handle tk \<noteq> Some h)"
    "m i = Some sk \<Longrightarrow> tc_state sk = STATE_LISTENING \<Longrightarrow> nt_tcp w (ep_port (tc_local_addr sk)) \<noteq> None \<and>
      (\<forall>j tk. j \<noteq> i \<longrightarrow> m j = Some tk \<longrightarrow> tc_state tk = STATE_LISTENING \<longrightarrow> ep_port (tc_local_addr tk) \<noteq> ep_port (tc_local_addr sk))"
    "m i = Some sk \<Longrightarrow> tc_state sk \<noteq> STATE_BUSY"
    "length (queue_of w p) \<le> 512 \<and> distinct (queue_of w p) \<and> set (queue_of w p) \<subseteq> dom (nt_sockets w) \<and> nt_tcp w 0 = None"
    "p \<noteq> q \<Longrightarrow> set (queue_of w p) \<inter> set (queue_of w q) = {}"
proof -
  have ok: "world_ok (m, w)" by (rule world_ok_reachable [OF assms])
  then have inv: "lt_inv w" by (simp add: world_ok_def netok_def holds_def)
  show "length (queue_of w p) \<le> 512 \<and> distinct (queue_of w p) \<and> set (queue_of w p) \<subseteq> dom (nt_sockets w) \<and> nt_tcp w 0 = None"
    using lt_invD(2-4) [OF inv] lt_invD(7) [OF inv, of 0] by (cases "nt_tcp w 0") (auto simp: LISTEN_QUEUE_SIZE_def)
  show "p \<noteq> q \<Longrightarrow> set (queue_of w p) \<inter> set (queue_of w q) = {}" by (rule lt_invD(5) [OF inv])
  assume i: "m i = Some sk"
  note s = world_ok_sock [OF ok i]
  have qt: "quiet sk" "lports sk \<subseteq> dom (nt_tcp w)" "lports sk \<inter> ports m (- {i}) = {}" "own sk \<inter> owned m (- {i}) = {}"
      "holds (own sk \<union> owned m (- {i})) w"
    using s by (simp_all add: sock_ok_def base_def netok_def)
  show "tc_state sk \<noteq> STATE_BUSY" using qt(1) by (auto simp: quiet_def STATE_defs)
  show "nt_sockets w h \<noteq> None \<and> h \<notin> set (queue_of w p) \<and> (\<forall>j tk. j \<noteq> i \<longrightarrow> m j = Some tk \<longrightarrow> tc_handle tk \<noteq> Some h)"
    if "tc_handle sk = Some h"
  proof -
    have "h \<in> own sk" using that by (simp add: own_def)
    then have "h \<notin> own tk" if "m j = Some tk" "j \<noteq> i" for j tk using owned_mem(1) [of m j tk i] that qt(4) by blast
    then show ?thesis using \<open>h \<in> own sk\<close> qt(5) by (auto simp: own_def holds_def)
  qed
  show "nt_tcp w (ep_port (tc_local_addr sk)) \<noteq> None \<and>
      (\<forall>j tk. j \<noteq> i \<longrightarrow> m j = Some tk \<longrightarrow> tc_state tk = STATE_LISTENING \<longrightarrow> ep_port (tc_local_addr tk) \<noteq> ep_port (tc_local_addr sk))"
    if l: "tc_state sk = STATE_LISTENING"
  proof -
    have "ep_port (tc_local_addr sk) \<in> lports sk" using l by (simp add: lports_def)
    moreover have "ep_port (tc_local_addr tk) \<notin> lports sk" if "m j = Some tk" "j \<noteq> i" "tc_state tk = STATE_LISTENING" for j tk
      using owned_mem(2) [of m j tk i] that qt(3) by (auto simp: lports_def)
    ultimately show ?thesis using qt(2) by (metis domIff subsetD)
  qed
qed

text \<open>C23. Sockets own their resources exclusively, in every state the kernel can reach, whatever
  the network does: a handle that a socket holds is live in the socket set, is held by no other socket
  and waits in no accept queue; a listening socket's port has an entry in the listen table, which no other
  socket listens on; accept queues have at most 512 distinct, live handles, no handle is in two queues, port
  0 never listens; and between operations no socket is left in the state BUSY.\<close>

theorem tcp_handles_exclusive:
  assumes "poll_ok wr api poll" "slots_free api" "(tcp_step wr api poll)\<^sup>*\<^sup>* (Map.empty, net_start e) (m, w)"
  shows "(\<forall>i sk h p. m i = Some sk \<and> tc_handle sk = Some h \<longrightarrow>
      nt_sockets w h \<noteq> None \<and> h \<notin> set (queue_of w p) \<and> (\<forall>j tk. j \<noteq> i \<longrightarrow> m j = Some tk \<longrightarrow> tc_handle tk \<noteq> Some h)) \<and>
    (\<forall>i sk. m i = Some sk \<and> tc_state sk = STATE_LISTENING \<longrightarrow> nt_tcp w (ep_port (tc_local_addr sk)) \<noteq> None \<and>
      (\<forall>j tk. j \<noteq> i \<longrightarrow> m j = Some tk \<longrightarrow> tc_state tk = STATE_LISTENING \<longrightarrow> ep_port (tc_local_addr tk) \<noteq> ep_port (tc_local_addr sk))) \<and>
    (\<forall>i sk. m i = Some sk \<longrightarrow> tc_state sk \<noteq> STATE_BUSY) \<and>
    (\<forall>p. length (queue_of w p) \<le> 512 \<and> distinct (queue_of w p) \<and> set (queue_of w p) \<subseteq> dom (nt_sockets w)) \<and> nt_tcp w 0 = None \<and>
    (\<forall>p q. p \<noteq> q \<longrightarrow> set (queue_of w p) \<inter> set (queue_of w q) = {})"
proof -
  note f = sockets_exclusive [OF assms]
  show ?thesis
  proof (intro conjI allI impI)
    fix p
    show "length (queue_of w p) \<le> 512" "distinct (queue_of w p)" "set (queue_of w p) \<subseteq> dom (nt_sockets w)"
      using f(4) [of p] by blast+
    show "nt_tcp w 0 = None" using f(4) by blast
  qed (use f(1,2) in blast, use f(1) in blast, use f(1) in blast, use f(2) in blast, use f(2) in blast, use f(3) in blast, use f(5) in blast)
qed

theorem tcp_handles_exclusive_witness:
  "nt_tcp demo_net 80 \<noteq> None \<and> nt_tcp demo_net 0 = None \<and> tc_state demo_server \<noteq> STATE_BUSY"
proof -
  have "[0 \<mapsto> demo_server] (0 :: nat) = Some demo_server" by simp
  moreover have "tc_state demo_server = STATE_LISTENING" "ep_port (tc_local_addr demo_server) = 80"
    by (simp_all add: demo_server_def demo_bound_def)
  ultimately show ?thesis
    using tcp_handles_exclusive [OF toy_poll_ok toy_slots demo_reachable] by metis
qed

text \<open>Closing a socket never fails: in every reachable state \<^verbatim>\<open>shutdown\<close> and \<^verbatim>\<open>drop\<close> of any socket
  return without an error and without a panic; after the drop the socket's handle is gone from the socket set
  and the port it listened on can be listened on again, and no other socket loses a handle or a port.\<close>

theorem tcp_drop_releases:
  assumes "poll_ok wr api poll" "slots_free api" "(tcp_step wr api poll)\<^sup>*\<^sup>* (Map.empty, net_start e) (m, w)" "m i = Some sk"
  shows "(\<exists>s. tcp_shutdown poll api (sk, w) = (Ok (), s)) \<and>
    (\<exists>w'. tcp_drop poll api (sk, w) = (Ok (), w') \<and> (\<forall>h. tc_handle sk = Some h \<longrightarrow> nt_sockets w' h = None) \<and>
      (tc_state sk = STATE_LISTENING \<longrightarrow> can_listen (ep_port (tc_local_addr sk)) w') \<and>
      (\<forall>j tk h. j \<noteq> i \<longrightarrow> m j = Some tk \<longrightarrow> tc_handle tk = Some h \<longrightarrow> nt_sockets w' h \<noteq> None) \<and>
      (\<forall>j tk. j \<noteq> i \<longrightarrow> m j = Some tk \<longrightarrow> tc_state tk = STATE_LISTENING \<longrightarrow> \<not> can_listen (ep_port (tc_local_addr tk)) w'))"
proof (rule conjI)
  note s = world_ok_sock [OF world_ok_reachable [OF assms(1-3)] assms(4)]
  show "\<exists>s. tcp_shutdown poll api (sk, w) = (Ok (), s)" using shutdown_ok [OF assms(1,2) s] by blast
  obtain w' where w': "tcp_drop poll api (sk, w) = (Ok (), w')" "netok (owned m (- {i})) (ports m (- {i})) w'"
    "own sk \<inter> dom (nt_sockets w') = {}" "lports sk \<inter> dom (nt_tcp w') = {}"
    using drop_ok [OF assms(1,2) s] by auto
  have o: "\<forall>j tk h. j \<noteq> i \<longrightarrow> m j = Some tk \<longrightarrow> tc_handle tk = Some h \<longrightarrow> h \<in> owned m (- {i})"
    "\<forall>j tk. j \<noteq> i \<longrightarrow> m j = Some tk \<longrightarrow> tc_state tk = STATE_LISTENING \<longrightarrow> ep_port (tc_local_addr tk) \<in> ports m (- {i})"
    using owned_mem [of m _ _ i] by (fastforce simp: own_def, metis insert_subset lports_def)
  have n: "owned m (- {i}) \<subseteq> dom (nt_sockets w')" "ports m (- {i}) \<subseteq> dom (nt_tcp w')" using w'(2) by (simp_all add: netok_def holds_def)
  show "\<exists>w'. tcp_drop poll api (sk, w) = (Ok (), w') \<and> (\<forall>h. tc_handle sk = Some h \<longrightarrow> nt_sockets w' h = None) \<and>
      (tc_state sk = STATE_LISTENING \<longrightarrow> can_listen (ep_port (tc_local_addr sk)) w') \<and>
      (\<forall>j tk h. j \<noteq> i \<longrightarrow> m j = Some tk \<longrightarrow> tc_handle tk = Some h \<longrightarrow> nt_sockets w' h \<noteq> None) \<and>
      (\<forall>j tk. j \<noteq> i \<longrightarrow> m j = Some tk \<longrightarrow> tc_state tk = STATE_LISTENING \<longrightarrow> \<not> can_listen (ep_port (tc_local_addr tk)) w')"
  proof (intro exI [of _ w'] conjI)
    show "\<forall>h. tc_handle sk = Some h \<longrightarrow> nt_sockets w' h = None" using w'(3) by (auto simp: own_def)
    show "tc_state sk = STATE_LISTENING \<longrightarrow> can_listen (ep_port (tc_local_addr sk)) w'" using w'(4) by (auto simp: lports_def can_listen_def)
    show "\<forall>j tk h. j \<noteq> i \<longrightarrow> m j = Some tk \<longrightarrow> tc_handle tk = Some h \<longrightarrow> nt_sockets w' h \<noteq> None" using o(1) n(1) by blast
    show "\<forall>j tk. j \<noteq> i \<longrightarrow> m j = Some tk \<longrightarrow> tc_state tk = STATE_LISTENING \<longrightarrow> \<not> can_listen (ep_port (tc_local_addr tk)) w'"
      using o(2) n(2) by (auto simp: can_listen_def)
  qed (rule w'(1))
qed

theorem tcp_drop_releases_witness:
  "\<exists>w'. tcp_drop toy_poll toy_api (demo_server, demo_net) = (Ok (), w') \<and> can_listen 80 w'"
proof -
  have "tc_state demo_server = STATE_LISTENING" "ep_port (tc_local_addr demo_server) = 80"
    by (simp_all add: demo_server_def demo_bound_def)
  then show ?thesis
    using tcp_drop_releases [OF toy_poll_ok toy_slots demo_reachable, of 0 demo_server] by auto
qed

text \<open>\<^verbatim>\<open>accept\<close> hands out the connection that is first in the queue among those that are
  established, with the endpoints of its socket: everything before it still waits for the handshake, the
  handle leaves the queue and nothing else does, every other port's queue and all sockets stay as they
  are. When no connection is established it reports that it would block and changes nothing.\<close>

theorem accept_first_connected:
  assumes "nt_tcp w port = Some entry" "\<forall>h\<in>set (lt_syn_queue entry). nt_sockets w h \<noteq> None"
    and "\<forall>h k. h \<in> set (lt_syn_queue entry) \<longrightarrow> nt_sockets w h = Some k \<longrightarrow> api_state api k \<notin> {Listen, SynReceived} \<longrightarrow>
          api_local_endpoint api k \<noteq> None \<and> api_remote_endpoint api k \<noteq> None"
  shows "if \<exists>h k. h \<in> set (lt_syn_queue entry) \<and> nt_sockets w h = Some k \<and> api_state api k \<notin> {Listen, SynReceived}
    then \<exists>idx h k l r q. lt_accept api port w = (Ok (h, l, r), w\<lparr>nt_tcp := (nt_tcp w)(port \<mapsto> entry\<lparr>lt_syn_queue := q\<rparr>)\<rparr>) \<and>
      idx < length (lt_syn_queue entry) \<and> h = lt_syn_queue entry ! idx \<and> nt_sockets w h = Some k \<and>
      api_state api k \<notin> {Listen, SynReceived} \<and> api_local_endpoint api k = Some l \<and> api_remote_endpoint api k = Some r \<and>
      (\<forall>j < idx. \<forall>k'. nt_sockets w (lt_syn_queue entry ! j) = Some k' \<longrightarrow> api_state api k' \<in> {Listen, SynReceived}) \<and>
      mset (lt_syn_queue entry) = add_mset h (mset q)
    else lt_accept api port w = (Fail WouldBlock, w)"
proof -
  let ?q = "lt_syn_queue entry"
  have live: "\<exists>k. nt_sockets w h = Some k" if "h \<in> set ?q" for h using assms(2) that by auto
  have conn: "is_connected api w h = Ok (api_state api k \<notin> {Listen, SynReceived})" if "nt_sockets w h = Some k" for h k
    using that by (simp add: is_connected_def with_socket_def)
  have "\<forall>h\<in>set ?q. \<exists>k. nt_sockets w h = Some k \<and>
      (api_state api k \<notin> {Listen, SynReceived} \<longrightarrow> api_local_endpoint api k \<noteq> None \<and> api_remote_endpoint api k \<noteq> None)"
    using live assms(3) by blast
  then obtain x where x: "find_connected api w 0 ?q = Ok x" "x = None \<longleftrightarrow> (\<forall>h\<in>set ?q. is_connected api w h = Ok False)"
    using find_connected_total by blast
  have iff: "x = None \<longleftrightarrow> \<not> (\<exists>h k. h \<in> set ?q \<and> nt_sockets w h = Some k \<and> api_state api k \<notin> {Listen, SynReceived})"
    using x(2) conn live by fastforce
  show ?thesis
  proof (cases x)
    case None
    then show ?thesis using iff x(1) assms(1) by (simp add: lt_accept_def)
  next
    case (Some y)
    obtain idx l r where y: "y = (idx, l, r)" by (cases y)
    have f: "idx < length ?q" "is_connected api w (?q ! idx) = Ok True" "get_addr_tuple api w (?q ! idx) = Ok (l, r)"
      "\<forall>j < idx. is_connected api w (?q ! j) = Ok False"
      using find_connected_Some [of api w 0 ?q idx "(l, r)"] x(1) Some y by simp_all
    obtain k where k: "nt_sockets w (?q ! idx) = Some k" using live f(1) by force
    obtain q where q: "swap_remove_front idx ?q = Some (?q ! idx, q)" using f(1) by (simp add: swap_remove_front_def)
    have lr: "api_local_endpoint api k = Some l" "api_remote_endpoint api k = Some r"
      using f(3) k by (auto simp: get_addr_tuple_def with_socket_def unwrap_opt_def bind_res_def split: option.splits)
    have before: "\<forall>j < idx. \<forall>k'. nt_sockets w (?q ! j) = Some k' \<longrightarrow> api_state api k' \<in> {Listen, SynReceived}"
      using f(4) conn by fastforce
    have "lt_accept api port w = (Ok (?q ! idx, l, r), w\<lparr>nt_tcp := (nt_tcp w)(port \<mapsto> entry\<lparr>lt_syn_queue := q\<rparr>)\<rparr>)"
      using assms(1) x(1) Some y q by (simp add: lt_accept_def)
    moreover have "api_state api k \<notin> {Listen, SynReceived}" using f(2) conn [OF k] by simp
    ultimately show ?thesis
      using iff Some f(1) k lr before swap_remove_front_mset(3) [OF q] by (simp only: option.distinct simp_thms if_True) blast
  qed
qed

text \<open>A listener with three half-open connections, the second and third of which are established.\<close>

definition demo_socket :: "TcpState \<Rightarrow> u16 \<Rightarrow> toy_socket" where
  "demo_socket st p = \<lparr>ts_state = st, ts_local = Some \<lparr>ep_addr = Ipv4 (10, 0, 2, 15), ep_port = 80\<rparr>,
     ts_remote = Some \<lparr>ep_addr = Ipv4 (10, 0, 2, 2), ep_port = p\<rparr>\<rparr>"

definition demo_queue :: "(toy_socket, nat) net" where
  "demo_queue = demo_net\<lparr>nt_tcp := lt_new(80 \<mapsto> \<lparr>lt_endpoint = \<lparr>le_addr = None, le_port = 80\<rparr>, lt_syn_queue = [3, 5, 7]\<rparr>),
     nt_sockets := [3 \<mapsto> demo_socket SynReceived 40003, 5 \<mapsto> demo_socket Established 40005, 7 \<mapsto> demo_socket Established 40007]\<rparr>"

theorem accept_first_connected_witness:
  "\<exists>q. fst (lt_accept toy_api 80 demo_queue) = Ok (5, \<lparr>ep_addr = Ipv4 (10, 0, 2, 15), ep_port = 80\<rparr>, \<lparr>ep_addr = Ipv4 (10, 0, 2, 2), ep_port = 40005\<rparr>) \<and>
     mset [3, 5, 7] = add_mset (5 :: SocketHandle) (mset q)"
proof -
  let ?entry = "\<lparr>lt_endpoint = \<lparr>le_addr = None, le_port = 80\<rparr>, lt_syn_queue = [3, 5, 7]\<rparr>"
  have e: "nt_tcp demo_queue 80 = Some ?entry" by (simp add: demo_queue_def)
  have l: "\<forall>h\<in>set (lt_syn_queue ?entry). nt_sockets demo_queue h \<noteq> None"
    "\<forall>h k. h \<in> set (lt_syn_queue ?entry) \<longrightarrow> nt_sockets demo_queue h = Some k \<longrightarrow> api_state toy_api k \<notin> {Listen, SynReceived} \<longrightarrow>
          api_local_endpoint toy_api k \<noteq> None \<and> api_remote_endpoint toy_api k \<noteq> None"
    by (auto simp: demo_queue_def demo_socket_def toy_api_def)
  have c: "\<exists>h k. h \<in> set (lt_syn_queue ?entry) \<and> nt_sockets demo_queue h = Some k \<and> api_state toy_api k \<notin> {Listen, SynReceived}"
    by (rule exI [of _ 5]) (simp add: demo_queue_def demo_socket_def toy_api_def)
  from accept_first_connected [OF e l] c obtain idx h k lo r q where
    a: "lt_accept toy_api 80 demo_queue = (Ok (h, lo, r), demo_queue\<lparr>nt_tcp := (nt_tcp demo_queue)(80 \<mapsto> ?entry\<lparr>lt_syn_queue := q\<rparr>)\<rparr>)"
      "idx < 3" "h = [3, 5, 7] ! idx" "nt_sockets demo_queue h = Some k" "api_state toy_api k \<notin> {Listen, SynReceived}"
      "api_local_endpoint toy_api k = Some lo" "api_remote_endpoint toy_api k = Some r"
      "\<forall>j < idx. \<forall>k'. nt_sockets demo_queue ([3, 5, 7] ! j) = Some k' \<longrightarrow> api_state toy_api k' \<in> {Listen, SynReceived}"
      "mset [3, 5, 7] = add_mset h (mset q)" by (auto simp del: mset.simps)
  have "idx = 1"
  proof -
    have "idx \<noteq> 0"
    proof
      assume "idx = 0"
      then have "h = 3" using a(3) by simp
      then show False using a(4,5) by (auto simp: demo_queue_def demo_socket_def toy_api_def)
    qed
    moreover have "\<not> 1 < idx" using a(8) by (auto simp: demo_queue_def demo_socket_def toy_api_def)
    ultimately show ?thesis by simp
  qed
  then have "h = 5" using a(3) by simp
  moreover have "lo = \<lparr>ep_addr = Ipv4 (10, 0, 2, 15), ep_port = 80\<rparr>" "r = \<lparr>ep_addr = Ipv4 (10, 0, 2, 2), ep_port = 40005\<rparr>"
    using a(4,6,7) \<open>h = 5\<close> by (auto simp: demo_queue_def demo_socket_def toy_api_def)
  ultimately show ?thesis using a(1,9) by (intro exI [of _ q]) simp
qed

text \<open>C25. The ephemeral port generator finds a port whenever one is free: its 16384 tries visit
  every port from 0xc000 to 0xffff exactly once, starting from the port after the last one it gave out
  and wrapping around at the end; it returns a free port of that range, never 0, and fails exactly when all
  of them are taken; nothing but the generator's position changes.\<close>

theorem ephemeral_port_complete:
  assumes "PORT_START \<le> nt_curr w"
  shows "if \<exists>p \<ge> PORT_START. can_listen p w
    then \<exists>p c. get_ephemeral_port w = (Ok p, w\<lparr>nt_curr := c\<rparr>) \<and> PORT_START \<le> p \<and> can_listen p w \<and> PORT_START \<le> c
    else \<exists>c. get_ephemeral_port w = (Fail NetFail, w\<lparr>nt_curr := c\<rparr>) \<and> PORT_START \<le> c"
proof -
  obtain r w' where g: "get_ephemeral_port w = (r, w')" by (cases "get_ephemeral_port w")
  have "nt_curr w \<in> ephemeral_ports" using assms by (simp add: ephemeral_ports_def)
  from g this show ?thesis
    by (cases rule: ephemeral_cases) (auto simp: g ephemeral_ports_def)
qed

theorem ephemeral_port_complete_witness:
  "\<exists>p c. get_ephemeral_port demo_net = (Ok p, demo_net\<lparr>nt_curr := c\<rparr>) \<and> PORT_START \<le> p \<and> can_listen p demo_net"
proof -
  have s: "PORT_START \<le> nt_curr demo_net" by (simp add: demo_net_def net_start_def)
  have "can_listen PORT_START demo_net" by (simp add: can_listen_def demo_net_def lt_new_def PORT_START_def)
  then have "\<exists>p \<ge> PORT_START. can_listen p demo_net" by blast
  then show ?thesis using ephemeral_port_complete [OF s] by auto
qed

text \<open>A failed \<^verbatim>\<open>connect\<close> of a socket that has no handle yet leaks a socket: the new protocol
  socket stays in the socket set, while neither the socket that asked for it nor any accept queue has its
  handle, and dropping the socket does not remove it.\<close>

theorem connect_failure_leaks:
  assumes "tc_state sk = STATE_CLOSED" "tc_handle sk = None" "from_core_sockaddr addr = Ok re" "bound_endpoint (sk\<lparr>tc_state := STATE_BUSY\<rparr>, w1) = (Ok be, (sk\<lparr>tc_state := STATE_BUSY\<rparr>, w2))"
    and "ss_add api (api_new api) w = (h, w1)" "nt_sockets w2 = nt_sockets w1"
    and "api_connect api (nt_env w2) re be (api_new api) = None"
  shows "\<exists>w3. tcp_connect poll api addr (sk, w) = Some (Fail NetFail, (sk, w3)) \<and> nt_sockets w3 h \<noteq> None \<and>
    tcp_drop poll api (sk, w3) = (Ok (), w3)"
proof -
  have h: "nt_sockets w2 h = Some (api_new api)" using assms(5,6) by (auto simp: ss_add_def Let_def)
  define w3 where "w3 = w2\<lparr>nt_sockets := (nt_sockets w2)(h \<mapsto> api_new api)\<rparr>"
  have "lift_net (with_socket_mut h (connect_socket api (nt_env w2) re be)) (sk\<lparr>tc_state := STATE_BUSY\<rparr>, w2) =
      (Fail NetFail, (sk\<lparr>tc_state := STATE_BUSY\<rparr>, w3))"
    using h assms(7) by (simp add: lift_net_def with_socket_mut_def connect_socket_def w3_def)
  then have "start_connect api addr (sk, w) = (Fail NetFail, (sk\<lparr>tc_state := STATE_CLOSED\<rparr>, w3))"
    using assms(1-5) by (simp add: start_connect_def or_else_def update_state_def set_state_def handle_or_add_def lift_net_def)
  moreover have "sk\<lparr>tc_state := STATE_CLOSED\<rparr> = sk" using assms(1) by simp
  ultimately have "tcp_connect poll api addr (sk, w) = Some (Fail NetFail, (sk, w3))" by (simp add: tcp_connect_def)
  moreover have "tcp_drop poll api (sk, w3) = (Ok (), w3)"
    using assms(1,2) by (simp add: tcp_drop_def tcp_shutdown_def or_else_def update_state_def STATE_defs)
  ultimately show ?thesis by (auto simp: w3_def)
qed

theorem connect_failure_leaks_witness:
  "\<exists>w3. tcp_connect toy_poll toy_api \<lparr>sa_ip = V4 (10, 0, 2, 2), sa_port = 0\<rparr> (demo_bound, net_start 0) = Some (Fail NetFail, (demo_bound, w3)) \<and>
     nt_sockets w3 0 \<noteq> None \<and> tcp_drop toy_poll toy_api (demo_bound, w3) = (Ok (), w3)"
proof -
  define w1 where "w1 = (net_start 0 :: (toy_socket, nat) net)\<lparr>nt_sockets := [0 \<mapsto> api_new toy_api]\<rparr>"
  have a: "ss_add toy_api (api_new toy_api) (net_start 0) = (0, w1)"
    by (simp add: ss_add_def toy_api_def net_start_def w1_def Let_def)
  have b: "bound_endpoint (demo_bound\<lparr>tc_state := STATE_BUSY\<rparr>, w1) = (Ok \<lparr>le_addr = None, le_port = 80\<rparr>, (demo_bound\<lparr>tc_state := STATE_BUSY\<rparr>, w1))"
    by (simp add: bound_endpoint_def demo_bound_def is_unspecified_def Let_def)
  have c: "tc_state demo_bound = STATE_CLOSED" "tc_handle demo_bound = None" by (simp_all add: demo_bound_def tcp_new_def)
  have d: "from_core_sockaddr \<lparr>sa_ip = V4 (10, 0, 2, 2), sa_port = 0\<rparr> = Ok \<lparr>ep_addr = Ipv4 (10, 0, 2, 2), ep_port = 0\<rparr>"
    by (simp add: from_core_sockaddr_def from_core_ipaddr_def)
  show ?thesis
    by (rule connect_failure_leaks [OF c d b a refl]) (simp add: toy_api_def)
qed

text \<open>The queued connections of a port whose handshake is over, in the order of the queue: those that
  \<^verbatim>\<open>is_connected\<close> accepts.\<close>

definition ready :: "('sk, 'e) tcp_api \<Rightarrow> ('sk, 'e) net \<Rightarrow> SocketHandle list \<Rightarrow> SocketHandle list" where
  "ready api w q = filter (\<lambda>h. case nt_sockets w h of None \<Rightarrow> False | Some k \<Rightarrow> api_state api k \<notin> {Listen, SynReceived}) q"

lemma any_connected_ready:
  assumes "set q \<subseteq> dom (nt_sockets w)"
  shows "any_connected api w q = Ok (ready api w q \<noteq> [])"
  using assms
proof (induction q)
  case (Cons x q)
  obtain k where k: "nt_sockets w x = Some k" using Cons.prems by auto
  have "any_connected api w q = Ok (ready api w q \<noteq> [])" using Cons by simp
  then show ?case using k by (simp add: ready_def is_connected_def with_socket_def)
qed (simp add: ready_def)

lemma find_connected_ready:
  assumes "set q \<subseteq> dom (nt_sockets w)"
  shows "case ready api w q of [] \<Rightarrow> find_connected api w i q = Ok None
    | h # _ \<Rightarrow> \<exists>k < length q. q ! k = h \<and> find_connected api w i q = bind_res (get_addr_tuple api w h) (\<lambda>t. Ok (Some (i + k, t)))"
  using assms
proof (induction q arbitrary: i)
  case (Cons x q)
  obtain k where k: "nt_sockets w x = Some k" using Cons.prems by auto
  show ?case
  proof (cases "api_state api k \<in> {Listen, SynReceived}")
    case True
    then have r: "ready api w (x # q) = ready api w q" "find_connected api w i (x # q) = find_connected api w (Suc i) q"
      using k by (auto simp: ready_def is_connected_def with_socket_def)
    show ?thesis
    proof (cases "ready api w q")
      case Nil
      then have "find_connected api w (Suc i) q = Ok None" using Cons.IH [of "Suc i"] Cons.prems by simp
      then show ?thesis unfolding r Nil by simp
    next
      case hd: (Cons h hs)
      from Cons.IH [of "Suc i"] Cons.prems hd obtain n where "n < length q" "q ! n = h"
        "find_connected api w (Suc i) q = bind_res (get_addr_tuple api w h) (\<lambda>t. Ok (Some (Suc i + n, t)))" by auto
      then show ?thesis unfolding r hd by (auto intro!: exI [of _ "Suc n"])
    qed
  next
    case False
    then have "ready api w (x # q) = x # ready api w q" using k by (simp add: ready_def)
    then show ?thesis using False k by (auto simp: is_connected_def with_socket_def intro!: exI [of _ 0])
  qed
qed (simp add: ready_def)

text \<open>What the two operations give, in terms of the connections that are ready.\<close>

lemma lt_accept_ready:
  assumes inv: "lt_inv w"
  shows "case nt_tcp w port of
      None \<Rightarrow> lt_can_accept api port w = Fail NetFail \<and> lt_accept api port w = (Fail NetFail, w)
    | Some entry \<Rightarrow> (case ready api w (lt_syn_queue entry) of
        [] \<Rightarrow> lt_can_accept api port w = Ok False \<and> lt_accept api port w = (Fail WouldBlock, w)
      | h # _ \<Rightarrow> lt_can_accept api port w = Ok True \<and> (\<exists>k. nt_sockets w h = Some k \<and>
          (case (api_local_endpoint api k, api_remote_endpoint api k) of
             (Some l, Some r) \<Rightarrow> \<exists>q. lt_accept api port w = (Ok (h, l, r), w\<lparr>nt_tcp := (nt_tcp w)(port \<mapsto> entry\<lparr>lt_syn_queue := q\<rparr>)\<rparr>) \<and>
               mset (lt_syn_queue entry) = add_mset h (mset q) \<and> (hd (lt_syn_queue entry) = h \<longrightarrow> q = tl (lt_syn_queue entry))
           | _ \<Rightarrow> lt_accept api port w = (Panicked, w))))"
proof (cases "nt_tcp w port")
  case None
  then show ?thesis by (simp add: lt_can_accept_def lt_accept_def)
next
  case (Some entry)
  let ?q = "lt_syn_queue entry"
  have q: "set ?q \<subseteq> dom (nt_sockets w)" using lt_invD(3) [OF inv, of port] Some by simp
  note f = find_connected_ready [OF q, of api 0]
  have c: "lt_can_accept api port w = Ok (ready api w ?q \<noteq> [])" using any_connected_ready [OF q, of api] Some by (simp add: lt_can_accept_def)
  show ?thesis
  proof (cases "ready api w ?q")
    case Nil
    then show ?thesis using f c Some by (simp add: lt_accept_def)
  next
    case (Cons h hs)
    obtain n where n: "n < length ?q" "?q ! n = h" "find_connected api w 0 ?q = bind_res (get_addr_tuple api w h) (\<lambda>t. Ok (Some (n, t)))"
      using f Cons by auto
    obtain k where k: "nt_sockets w h = Some k" using q n(1,2) by (metis domD nth_mem subsetD)
    have rm: "swap_remove_front n ?q = Some (h, tl (?q[n := hd ?q]))" using n(1,2) by (simp add: swap_remove_front_def)
    show ?thesis
    proof (cases "api_local_endpoint api k = None \<or> api_remote_endpoint api k = None")
      case True
      then have "get_addr_tuple api w h = Panicked" using k by (auto simp: get_addr_tuple_def with_socket_def unwrap_opt_def bind_res_def split: option.splits)
      then have "lt_accept api port w = (Panicked, w)" using Some n(3) by (simp add: lt_accept_def)
      then show ?thesis using Some Cons c k True by (auto split: option.split)
    next
      case False
      then obtain l r where lr: "api_local_endpoint api k = Some l" "api_remote_endpoint api k = Some r" by auto
      then have "get_addr_tuple api w h = Ok (l, r)" using k by (simp add: get_addr_tuple_def with_socket_def unwrap_opt_def)
      then have "lt_accept api port w = (Ok (h, l, r), w\<lparr>nt_tcp := (nt_tcp w)(port \<mapsto> entry\<lparr>lt_syn_queue := tl (?q[n := hd ?q])\<rparr>)\<rparr>)"
        using Some n(3) rm by (simp add: lt_accept_def)
      moreover have "tl (?q[n := hd ?q]) = tl ?q" if "hd ?q = h"
      proof -
        have "n = 0" using n(1,2) that lt_invD(2) [OF inv, of port] Some nth_eq_iff_index_eq [of ?q n 0] by (simp add: hd_conv_nth [of ?q] flip: length_greater_0_conv)
        then show ?thesis by (cases ?q) simp_all
      qed
      ultimately show ?thesis using Some Cons c k lr swap_remove_front_mset(3) [OF rm] by auto
    qed
  qed
qed

text \<open>Polling only adds to the accept queues, at their end.\<close>

lemma incoming_queue: "\<exists>rest. queue_of (incoming_tcp_packet api src dst w) p = queue_of w p @ rest"
proof (cases rule: incoming_cases [of api src dst w])
  case (queued entry socket h w1)
  have "nt_tcp w1 = nt_tcp w" using queued(5) by (auto simp: ss_add_def Let_def)
  then show ?thesis using queued(1,6) by (auto simp: queue_of_def)
qed simp

lemma snoop_queue: "\<exists>rest. queue_of (snoop_tcp_packet wr api buf w) p = queue_of w p @ rest"
proof -
  have "snoop_tcp_packet wr api buf w = w \<or> (\<exists>src dst. snoop_tcp_packet wr api buf w = incoming_tcp_packet api src dst w)"
    by (auto simp: snoop_tcp_packet_def split: option.split)
  then show ?thesis using incoming_queue by (metis append_Nil2)
qed

lemma poll_queue:
  assumes "poll_ok wr api poll"
  shows "\<exists>rest. queue_of ((poll ^^ n) w) p = queue_of w p @ rest"
proof (induction n)
  case (Suc n)
  let ?w = "(poll ^^ n) w"
  have "(net_env wr api)\<^sup>*\<^sup>* ?w (poll ?w)" using assms by (simp add: poll_ok_def)
  then have "\<exists>rest. queue_of (poll ?w) p = queue_of ?w p @ rest"
  proof (induction rule: rtranclp_induct)
    case (step y z)
    from step.hyps(2) have "\<exists>rest. queue_of z p = queue_of y p @ rest"
      by cases (auto simp: queue_of_def intro: snoop_queue [unfolded queue_of_def])
    then show ?case using step.IH by auto
  qed simp
  then show ?case using Suc by auto
qed simp

lemma poll_inv:
  assumes "poll_ok wr api poll" "slots_free api" "lt_inv w"
  shows "lt_inv ((poll ^^ n) w)" "dom (nt_tcp ((poll ^^ n) w)) = dom (nt_tcp w)"
proof -
  have "lt_inv ((poll ^^ n) w) \<and> dom (nt_tcp ((poll ^^ n) w)) = dom (nt_tcp w)"
  proof (induction n)
    case (Suc n)
    then have "holds {} ((poll ^^ n) w)" by (simp add: holds_def)
    from poll_keeps(1,2) [OF assms(1,2) this] Suc show ?case by (simp add: holds_def)
  qed (simp add: assms(3))
  then show "lt_inv ((poll ^^ n) w)" "dom (nt_tcp ((poll ^^ n) w)) = dom (nt_tcp w)" by blast+
qed

text \<open>A blocking operation that would block until the \<open>n\<close>-th poll.\<close>

lemma block_loop_polls:
  assumes "\<And>j. 0 < j \<Longrightarrow> j < n \<Longrightarrow> f (sk, (poll ^^ j) w) = (Fail WouldBlock, (sk, (poll ^^ j) w))"
    and "f (sk, (poll ^^ n) w) = (Ok x, s)" "0 < n"
  shows "block_loop poll f (sk, w) = Some (Ok x, s)"
  using assms
proof (induction n arbitrary: w)
  case (Suc n)
  show ?case
  proof (cases "n = 0")
    case True
    then show ?thesis using Suc.prems(2) by (simp add: block_loop.simps [of poll f "(sk, w)"])
  next
    case False
    have "f (sk, poll w) = (Fail WouldBlock, (sk, poll w))" using Suc.prems(1) [of 1] False by simp
    moreover have "block_loop poll f (sk, poll w) = Some (Ok x, s)"
      using Suc.IH [of "poll w"] Suc.prems(1) [of "Suc _"] Suc.prems(2) False by (simp add: funpow_swap1)
    ultimately show ?thesis by (simp add: block_loop.simps [of poll f "(sk, w)"])
  qed
qed simp

text \<open>What the engine is asked for: \<^verbatim>\<open>listen\<close> of a new socket succeeds for every port but 0, and the connection of
  the handle \<open>h\<close> is established, with the endpoints \<open>l\<close> and \<open>r\<close>, at the \<open>n\<close>-th poll, up to which no connection of the
  port is.\<close>

definition listens :: "('sk, 'e) tcp_api \<Rightarrow> bool" where
  "listens api \<longleftrightarrow> (\<forall>ep. le_port ep \<noteq> 0 \<longrightarrow> api_listen api ep (api_new api) \<noteq> None)"

definition comes_up :: "('sk, 'e) tcp_api \<Rightarrow> (('sk, 'e) net \<Rightarrow> ('sk, 'e) net) \<Rightarrow> u16 \<Rightarrow> SocketHandle \<Rightarrow> IpEndpoint \<Rightarrow> IpEndpoint \<Rightarrow> nat \<Rightarrow> ('sk, 'e) net \<Rightarrow> bool" where
  "comes_up api poll port h l r n w \<longleftrightarrow> 0 < n \<and> (\<forall>j < n. ready api ((poll ^^ j) w) (queue_of ((poll ^^ j) w) port) = []) \<and>
     (\<exists>k. nt_sockets ((poll ^^ n) w) h = Some k \<and> api_state api k = Established \<and> api_local_endpoint api k = Some l \<and> api_remote_endpoint api k = Some r)"

lemma accept_comes_up:
  assumes ok: "poll_ok wr api poll" "slots_free api" and inv: "lt_inv w" and up: "comes_up api poll port h l r n w"
    and q: "queue_of w port = h # q"
  shows "j < n \<Longrightarrow> lt_accept api port ((poll ^^ j) w) = (Fail WouldBlock, (poll ^^ j) w)"
    "\<exists>w'. lt_accept api port ((poll ^^ n) w) = (Ok (h, l, r), w') \<and> queue_of ((poll ^^ n) w) port = h # queue_of w' port"
proof -
  obtain e where e: "nt_tcp w port = Some e" using q by (cases "nt_tcp w port") (simp_all add: queue_of_def)
  have entry: "\<exists>e. nt_tcp ((poll ^^ j) w) port = Some e" for j using poll_inv(2) [OF ok inv, of j] e by (metis domD domI)
  show "lt_accept api port ((poll ^^ j) w) = (Fail WouldBlock, (poll ^^ j) w)" if "j < n"
    using lt_accept_ready [where port = port and api = api, OF poll_inv(1) [OF ok inv, of j]] entry [of j] up that by (auto simp: comes_up_def)
  let ?w = "(poll ^^ n) w"
  obtain en where en: "nt_tcp ?w port = Some en" using entry by blast
  obtain rest where r: "lt_syn_queue en = h # rest" using poll_queue [OF ok(1), of n w port] q en by auto
  obtain k where k: "nt_sockets ?w h = Some k" "api_state api k = Established" "api_local_endpoint api k = Some l" "api_remote_endpoint api k = Some r"
    using up by (auto simp: comes_up_def)
  have rd: "ready api ?w (lt_syn_queue en) = h # ready api ?w rest" using k(1,2) r by (simp add: ready_def)
  obtain q' where q': "lt_accept api port ?w = (Ok (h, l, r), ?w\<lparr>nt_tcp := (nt_tcp ?w)(port \<mapsto> en\<lparr>lt_syn_queue := q'\<rparr>)\<rparr>)" "q' = rest"
    using lt_accept_ready [where port = port and api = api, OF poll_inv(1) [OF ok inv, of n]] en rd k r by auto
  then show "\<exists>w'. lt_accept api port ?w = (Ok (h, l, r), w') \<and> queue_of ?w port = h # queue_of w' port" using en r by simp
qed

text \<open>C24. A server accepts a connection end to end, with a blocking and with a non-blocking socket.
  Binding an unused port other than 0 and listening on it succeed; the first SYN frame for that port
  makes the kernel create exactly one socket, queued for the port. When the engine establishes it at its
  \<open>n\<close>-th poll from there (and no later connection of that port before it), a blocking \<^verbatim>\<open>accept\<close> called at once returns,
  after those polls, a connected socket that owns this very handle with the engine's endpoints; on a
  non-blocking socket \<^verbatim>\<open>accept\<close> says at once that it would block, and returns that connection when called after
  the polls. In both cases just this handle leaves the queue. The engine is taken to let a new socket
  listen on every port other than 0.\<close>

theorem server_accepts_connection:
  assumes addr: "sa_ip addr = V4 ip" "sa_port addr = port" "port \<noteq> 0" "can_listen port w" and inv: "lt_inv w"
    and ok: "poll_ok wr api poll" "slots_free api" "listens api"
    and frame: "wire_ether wr buf = Some eb" "wire_ipv4 wr eb = Some (6, src, dst, tb)" "wire_tcp wr tb = Some (sp, port, True, False)"
    and dst: "ip = (0, 0, 0, 0) \<or> ip = dst"
  shows "\<exists>sk1 sk2 w1 h. tcp_bind addr (set_nonblocking nb tcp_new, w) = (Ok (), (sk1, w)) \<and> tcp_listen (sk1, w) = (Ok (), (sk2, w1)) \<and>
    (let w2 = snoop_tcp_packet wr api buf w1
     in nt_sockets w h = None \<and> dom (nt_sockets w2) = insert h (dom (nt_sockets w)) \<and> queue_of w2 port = [h] \<and>
        (\<forall>n l r. comes_up api poll port h l r n w2 \<longrightarrow>
           (nb \<longrightarrow> tcp_accept poll api (sk2, w2) = Some (Fail WouldBlock, (sk2, w2))) \<and>
           (\<exists>w3. tcp_accept poll api (sk2, if nb then (poll ^^ n) w2 else w2) = Some (Ok (tcp_new_connected h l r), (sk2, w3)) \<and>
              queue_of ((poll ^^ n) w2) port = h # queue_of w3 port)))"
proof -
  let ?sk = "set_nonblocking nb tcp_new"
  let ?be = "\<lparr>le_addr = if is_unspecified (Ipv4 ip) then None else Some (Ipv4 ip), le_port = port\<rparr>"
  define sk1 where "sk1 = ?sk\<lparr>tc_local_addr := \<lparr>ep_addr = Ipv4 ip, ep_port = port\<rparr>\<rparr>"
  define sk2 where "sk2 = sk1\<lparr>tc_state := STATE_LISTENING\<rparr>"
  define w1 where "w1 = w\<lparr>nt_tcp := (nt_tcp w)(port \<mapsto> lte_new ?be)\<rparr>"
  obtain k where k: "api_listen api ?be (api_new api) = Some k" using ok(3) addr(3) by (fastforce simp: listens_def)
  define h where "h = api_slot api (nt_sockets w)"
  have new: "nt_sockets w h = None" using ok(2) lt_invD(1) [OF inv] by (simp add: slots_free_def h_def)
  define e1 where "e1 = (lte_new ?be)\<lparr>lt_syn_queue := [h]\<rparr>"
  define w2 where "w2 = w\<lparr>nt_sockets := (nt_sockets w)(h \<mapsto> k), nt_tcp := (nt_tcp w)(port \<mapsto> e1)\<rparr>"
  have sk2: "tc_state sk2 = STATE_LISTENING" "ep_port (tc_local_addr sk2) = port" "tc_nonblock sk2 = nb"
    by (simp_all add: sk2_def sk1_def set_nonblocking_def)
  have bind: "tcp_bind addr (?sk, w) = (Ok (), (sk1, w))"
    using addr(1-3) by (simp add: tcp_bind_def or_else_def update_state_def sk1_def set_nonblocking_def tcp_new_def set_state_def
        from_core_sockaddr_def from_core_ipaddr_def STATE_defs)
  have listen: "tcp_listen (sk1, w) = (Ok (), (sk2, w1))"
    using addr(3,4) by (simp add: tcp_listen_def or_else_def update_state_def sk1_def sk2_def w1_def set_nonblocking_def tcp_new_def
        set_state_def bound_endpoint_def lift_net_def lt_listen_def can_listen_def STATE_defs Let_def)
  have acc: "lte_can_accept (lte_new ?be) (Ipv4 dst)" using dst by (auto simp: lte_can_accept_def lte_new_def is_unspecified_def)
  have snoop: "snoop_tcp_packet wr api buf w1 = w2"
    using frame acc k by (simp add: snoop_tcp_packet_def IpProtocol_Tcp_def incoming_tcp_packet_def w1_def w2_def e1_def lte_new_def
        LISTEN_QUEUE_SIZE_def ss_add_def h_def Let_def)
  have "lt_inv w1" using inv addr(3,4) by (auto simp: lt_inv_def w1_def lte_new_def can_listen_def queue_of_def split: option.splits)
  then have "holds {} w2" unfolding snoop [symmetric] using net_env_keeps(1) [OF net_env.frame ok(2)] by (fastforce simp: holds_def)
  then have inv2: "lt_inv w2" by (rule holds_lt_inv)
  have q2: "queue_of w2 port = [h]" by (simp add: w2_def e1_def queue_of_def)
  have accept: "(nb \<longrightarrow> tcp_accept poll api (sk2, w2) = Some (Fail WouldBlock, (sk2, w2))) \<and>
      (\<exists>w3. tcp_accept poll api (sk2, if nb then (poll ^^ n) w2 else w2) = Some (Ok (tcp_new_connected h l r), (sk2, w3)) \<and>
         queue_of ((poll ^^ n) w2) port = h # queue_of w3 port)" if up: "comes_up api poll port h l r n w2" for n l r
  proof -
    note a = accept_comes_up [OF ok(1,2) inv2 up q2]
    have n: "0 < n" using up by (simp add: comes_up_def)
    obtain w3 where w3: "lt_accept api port ((poll ^^ n) w2) = (Ok (h, l, r), w3)" "queue_of ((poll ^^ n) w2) port = h # queue_of w3 port"
      using a(2) by blast
    have once: "accept_once api port (sk2, (poll ^^ j) w2) = (Fail WouldBlock, (sk2, (poll ^^ j) w2))" if "j < n" for j
      using a(1) [OF that] by (simp add: accept_once_def lift_net_def)
    have last: "accept_once api port (sk2, (poll ^^ n) w2) = (Ok (tcp_new_connected h l r), (sk2, w3))"
      using w3(1) by (simp add: accept_once_def lift_net_def)
    have "block_loop poll (accept_once api port) (sk2, w2) = Some (Ok (tcp_new_connected h l r), (sk2, w3))"
      by (rule block_loop_polls [OF once last n])
    then show ?thesis using once [OF n] last w3(2) sk2 by (auto simp: tcp_accept_def block_on_def)
  qed
  show ?thesis
    by (rule exI [of _ sk1], rule exI [of _ sk2], rule exI [of _ w1], rule exI [of _ h])
      (use bind listen new q2 accept in \<open>simp add: snoop Let_def, simp add: w2_def\<close>)
qed

lemma toy_inv: "lt_inv (net_start e)"
  by (simp add: lt_inv_def net_start_def queue_of_def lt_new_def)

definition demo_syn :: "(toy_socket, nat) net" where
  "demo_syn = demo_net\<lparr>nt_tcp := lt_new(80 \<mapsto> \<lparr>lt_endpoint = \<lparr>le_addr = None, le_port = 80\<rparr>, lt_syn_queue = [0]\<rparr>),
     nt_sockets := [0 \<mapsto> \<lparr>ts_state = Listen, ts_local = Some \<lparr>ep_addr = Ipv4 (10, 0, 2, 15), ep_port = 80\<rparr>, ts_remote = None\<rparr>]\<rparr>"

lemma demo_snoop: "snoop_tcp_packet toy_wire toy_api [0, 80] demo_net = demo_syn"
  by (simp add: snoop_tcp_packet_def toy_wire_def toy_api_def IpProtocol_Tcp_def incoming_tcp_packet_def demo_net_def demo_syn_def
      net_start_def lte_can_accept_def LISTEN_QUEUE_SIZE_def ss_add_def Let_def)

lemma demo_comes_up: "comes_up toy_api toy_poll 80 0 \<lparr>ep_addr = Ipv4 (10, 0, 2, 15), ep_port = 80\<rparr> toy_peer 1 demo_syn"
  by (simp add: comes_up_def ready_def demo_syn_def toy_api_def toy_poll_def toy_establish_def queue_of_def)

theorem server_accepts_connection_witness:
  "\<exists>w3. tcp_bind demo_addr (tcp_new, net_start 0 :: (toy_socket, nat) net) = (Ok (), (demo_bound, net_start 0)) \<and>
     tcp_listen (demo_bound, net_start 0) = (Ok (), (demo_server, demo_net)) \<and>
     tcp_accept toy_poll toy_api (demo_server, demo_syn) =
       Some (Ok (tcp_new_connected 0 \<lparr>ep_addr = Ipv4 (10, 0, 2, 15), ep_port = 80\<rparr> toy_peer), (demo_server, w3)) \<and> queue_of w3 80 = []"
proof -
  let ?w = "net_start 0 :: (toy_socket, nat) net"
  have nb: "set_nonblocking False tcp_new = tcp_new" by (simp add: set_nonblocking_def tcp_new_def)
  have "listens toy_api" by (simp add: listens_def toy_api_def)
  note server = server_accepts_connection [of demo_addr "(0, 0, 0, 0)" 80 ?w toy_wire toy_api toy_poll "[0, 80]" "[0, 80]" "(10, 0, 2, 2)" "(10, 0, 2, 15)" "[0, 80]" 40000 False,
      OF _ _ _ _ toy_inv toy_poll_ok toy_slots this, unfolded nb demo_bind Let_def]
  have "\<exists>h. queue_of demo_syn 80 = [h] \<and> (\<forall>n l r. comes_up toy_api toy_poll 80 h l r n demo_syn \<longrightarrow>
      (\<exists>w3. tcp_accept toy_poll toy_api (demo_server, demo_syn) = Some (Ok (tcp_new_connected h l r), (demo_server, w3)) \<and>
        queue_of ((toy_poll ^^ n) demo_syn) 80 = h # queue_of w3 80))"
    using server demo_listen demo_snoop by (fastforce simp: demo_addr_def can_listen_def lt_new_def net_start_def toy_wire_def)
  moreover have "queue_of demo_syn 80 = [0]" by (simp add: demo_syn_def queue_of_def)
  ultimately have "\<forall>n l r. comes_up toy_api toy_poll 80 0 l r n demo_syn \<longrightarrow>
      (\<exists>w3. tcp_accept toy_poll toy_api (demo_server, demo_syn) = Some (Ok (tcp_new_connected 0 l r), (demo_server, w3)) \<and>
        queue_of ((toy_poll ^^ n) demo_syn) 80 = 0 # queue_of w3 80)" by auto
  from this [rule_format, OF demo_comes_up] obtain w3 where "tcp_accept toy_poll toy_api (demo_server, demo_syn) =
       Some (Ok (tcp_new_connected 0 \<lparr>ep_addr = Ipv4 (10, 0, 2, 15), ep_port = 80\<rparr> toy_peer), (demo_server, w3))"
      "queue_of ((toy_poll ^^ 1) demo_syn) 80 = 0 # queue_of w3 80"
    by blast
  moreover have "queue_of ((toy_poll ^^ 1) demo_syn) 80 = [0]" by (simp add: demo_syn_def toy_poll_def queue_of_def)
  ultimately show ?thesis using demo_bind demo_listen by auto
qed

text \<open>C26. Polling a listening socket and accepting on it see the same connections, in every state that the
  listen table can reach: both report a port that does not listen; when no queued connection is past its
  handshake, \<^verbatim>\<open>can_accept\<close> is false and \<^verbatim>\<open>accept\<close> would block and changes nothing; otherwise \<^verbatim>\<open>can_accept\<close> is true and
  \<^verbatim>\<open>accept\<close> takes the first such connection, with the endpoints of its socket, out of the queue and leaves the
  others in it (in their order when the connection was at the head of the queue). When that socket has no endpoints any more, which is so for a connection that was reset
  after its handshake, \<^verbatim>\<open>can_accept\<close> is still true and \<^verbatim>\<open>accept\<close> panics.\<close>

theorem can_accept_iff_accept:
  assumes "lt_inv w"
  shows "case nt_tcp w port of
      None \<Rightarrow> lt_can_accept api port w = Fail NetFail \<and> lt_accept api port w = (Fail NetFail, w)
    | Some entry \<Rightarrow> (case ready api w (lt_syn_queue entry) of
        [] \<Rightarrow> lt_can_accept api port w = Ok False \<and> lt_accept api port w = (Fail WouldBlock, w)
      | h # _ \<Rightarrow> lt_can_accept api port w = Ok True \<and> (\<exists>k. nt_sockets w h = Some k \<and>
          (case (api_local_endpoint api k, api_remote_endpoint api k) of
             (Some l, Some r) \<Rightarrow> \<exists>q. lt_accept api port w = (Ok (h, l, r), w\<lparr>nt_tcp := (nt_tcp w)(port \<mapsto> entry\<lparr>lt_syn_queue := q\<rparr>)\<rparr>) \<and>
               mset (lt_syn_queue entry) = add_mset h (mset q) \<and> (hd (lt_syn_queue entry) = h \<longrightarrow> q = tl (lt_syn_queue entry))
           | _ \<Rightarrow> lt_accept api port w = (Panicked, w))))"
  by (rule lt_accept_ready [OF assms])

text \<open>The listener above, and the same one after the peer of its second connection has reset it.\<close>

definition demo_reset :: "(toy_socket, nat) net" where
  "demo_reset = demo_queue\<lparr>nt_sockets := (nt_sockets demo_queue)(5 \<mapsto> \<lparr>ts_state = Closed, ts_local = None, ts_remote = None\<rparr>)\<rparr>"

lemma demo_queue_inv: "lt_inv demo_queue" "lt_inv demo_reset"
  by (auto simp: lt_inv_def demo_reset_def demo_queue_def queue_of_def lt_new_def LISTEN_QUEUE_SIZE_def split: option.splits if_splits)

theorem can_accept_iff_accept_witness:
  "lt_can_accept toy_api 80 demo_queue = Ok True \<and> (\<exists>l r. fst (lt_accept toy_api 80 demo_queue) = Ok (5, l, r)) \<and>
   lt_can_accept toy_api 80 demo_reset = Ok True \<and> lt_accept toy_api 80 demo_reset = (Panicked, demo_reset)"
proof -
  have "lt_can_accept toy_api 80 demo_queue = Ok True" "\<exists>l r. fst (lt_accept toy_api 80 demo_queue) = Ok (5, l, r)"
    using can_accept_iff_accept [where port = 80 and api = toy_api, OF demo_queue_inv(1)] by (auto simp: ready_def demo_queue_def demo_socket_def toy_api_def)
  moreover have "lt_can_accept toy_api 80 demo_reset = Ok True" "lt_accept toy_api 80 demo_reset = (Panicked, demo_reset)"
    using can_accept_iff_accept [where port = 80 and api = toy_api, OF demo_queue_inv(2)] by (auto simp: ready_def demo_reset_def demo_queue_def demo_socket_def toy_api_def)
  ultimately show ?thesis by blast
qed

end
