(* ===== verification/Intervals.thy ===== *)
theory Intervals
  imports Addr "HOL-Library.Product_Lexorder"
begin

text \<open>
  Sets of addresses as lists of interval ends, \<^verbatim>\<open>kern/modules/util/src/interval.rs\<close>, and their use: the
  probe of the memory node, \<^verbatim>\<open>kern/modules/driver/src/mem.rs\<close>, which gives the memory outside the kernel
  image to the heap of \<^verbatim>\<open>kern/modules/heap\<close>. Each end is a position with a change of depth; a bound that is
  taken away lowers the depth by more than the added bounds can raise it. The lemmas relate the
  iterator to the depth at every address, \<open>depth\<close>.
\<close>

unbundle bit_operations_syntax

section \<open>The code\<close>

type_synonym isize = "64 word"

definition INFINITY :: isize where "INFINITY = 32767"

record Bound =
  bd_start :: usize
  bd_len :: usize

definition bd_new :: "usize \<Rightarrow> usize \<Rightarrow> Bound" where
  "bd_new start l = \<lparr>bd_start = start, bd_len = l\<rparr>"

definition bd_into :: "Bound \<Rightarrow> usize \<times> usize" where
  "bd_into b = (bd_start b, bd_len b)"

type_synonym ExclusiveIntervals = "(usize \<times> isize) list"

definition ei_new :: "Bound list \<Rightarrow> ExclusiveIntervals" where
  "ei_new bs = concat (map (\<lambda>b. [(bd_start b, 1), (bd_start b + bd_len b, - 1)]) bs)"

definition ei_sub_assign :: "Bound \<Rightarrow> ExclusiveIntervals \<Rightarrow> ExclusiveIntervals" where
  "ei_sub_assign rhs inner = inner @ [(bd_start rhs, - INFINITY), (bd_start rhs + bd_len rhs, INFINITY)]"

record ExclusiveIntervalsIter =
  it_sum :: isize
  it_into_iter :: "(usize \<times> isize) list"

text \<open>\<^verbatim>\<open>slice::group_by\<close> with equality of the positions: maximal runs of neighbours.\<close>

fun runs_of :: "(usize \<times> isize) list \<Rightarrow> (usize \<times> isize) list list" where
  "runs_of [] = []"
| "runs_of (x # xs) = (case runs_of xs of [] \<Rightarrow> [[x]]
     | g # gs \<Rightarrow> if fst x = fst (hd g) then (x # g) # gs else [x] # g # gs)"

text \<open>The pairs are sorted by the unsigned position and the signed change.\<close>

definition ei_into_iter :: "ExclusiveIntervals \<Rightarrow> ExclusiveIntervalsIter" where
  "ei_into_iter inner = \<lparr>it_sum = 0, it_into_iter = map (\<lambda>s. (fst (s ! 0), sum_list (map snd s)))
     (runs_of (sort_key (\<lambda>(p, d). (unat p, sint d)) inner))\<rparr>"

fun next_loop :: "usize option \<Rightarrow> isize \<Rightarrow> (usize \<times> isize) list \<Rightarrow> Bound option res \<times> ExclusiveIntervalsIter" where
  "next_loop left sm [] = (Ok None, \<lparr>it_sum = sm, it_into_iter = []\<rparr>)"
| "next_loop left sm ((pos, delta) # rest) =
     (let new = sm + delta
      in if sint sm \<le> 0 \<and> 0 < sint new then next_loop (Some pos) new rest
         else if 0 < sint sm \<and> sint new \<le> 0
         then (bind_res (unwrap_opt left) (\<lambda>l. Ok (Some \<lparr>bd_start = l, bd_len = pos - l\<rparr>)), \<lparr>it_sum = new, it_into_iter = rest\<rparr>)
         else next_loop left new rest)"

definition ei_next :: "ExclusiveIntervalsIter \<Rightarrow> Bound option res \<times> ExclusiveIntervalsIter" where
  "ei_next it = next_loop None (it_sum it) (it_into_iter it)"

lemma next_loop_shrinks:
  "next_loop left sm xs = (Inr (Some b), it) \<Longrightarrow> length (it_into_iter it) < length xs"
  by (induction left sm xs rule: next_loop.induct) (fastforce simp: Let_def split: if_splits)+

text \<open>Collecting an iterator: \<^verbatim>\<open>next\<close> until it returns nothing.\<close>

function ei_collect :: "ExclusiveIntervalsIter \<Rightarrow> Bound list res" where
  "ei_collect it = (case ei_next it of
     (Inl e, _) \<Rightarrow> Inl e
   | (Inr None, _) \<Rightarrow> Ok []
   | (Inr (Some b), it') \<Rightarrow> bind_res (ei_collect it') (\<lambda>bs. Ok (b # bs)))"
  by auto
termination
  by (relation "measure (\<lambda>it. length (it_into_iter it))") (auto simp: ei_next_def next_loop_shrinks [OF sym])

declare ei_collect.simps [simp del]

text \<open>The heap: \<^verbatim>\<open>buddy_system_allocator\<close> is a parameter, the call that adds a range to it.\<close>

definition heap_enlarge :: "(usize \<Rightarrow> usize \<Rightarrow> 'h \<Rightarrow> 'h) \<Rightarrow> VirtAddr \<times> usize \<Rightarrow> 'h \<Rightarrow> 'h" where
  "heap_enlarge add_to_heap region heap =
     add_to_heap (va_as_usize (fst region)) (va_as_usize (fst region) + snd region) heap"

definition heap_init :: "(usize \<Rightarrow> usize \<Rightarrow> 'h \<Rightarrow> 'h) \<Rightarrow> usize \<Rightarrow> 'h \<Rightarrow> 'h" where
  "heap_init init HEAP_SPACE heap = init HEAP_SPACE KHEAP_SIZE heap"

text \<open>The ranges that one entry of the \<^verbatim>\<open>reg\<close> property of a memory node contributes; the address of the
  kernel's last byte comes from the linker.\<close>

definition mem_region :: "usize \<Rightarrow> usize \<Rightarrow> usize \<Rightarrow> (VirtAddr \<times> usize) list res" where
  "mem_region kernel_end starting_address sz =
     (let addr = to_virt (pa_new starting_address);
          intervals = ei_sub_assign (bd_new (va_as_usize (to_virt (pa_new PHYS_MEM_BASE)))
            (va_diff (va_align_page_up (va_new kernel_end)) (to_virt (pa_new PHYS_MEM_BASE))))
            (ei_new [bd_new (va_as_usize addr) sz])
      in bind_res (ei_collect (ei_into_iter intervals)) (\<lambda>bs.
           Ok (map (\<lambda>b. case bd_into b of (a, l) \<Rightarrow> (va_new a, l)) bs)))"

fun mem_probe_regions :: "(usize \<Rightarrow> usize \<Rightarrow> 'h \<Rightarrow> 'h) \<Rightarrow> usize \<Rightarrow> (usize \<times> usize option) list \<Rightarrow> 'h \<Rightarrow> unit res \<times> 'h" where
  "mem_probe_regions add kernel_end [] heap = (Ok (), heap)"
| "mem_probe_regions add kernel_end ((start, None) # regs) heap = mem_probe_regions add kernel_end regs heap"
| "mem_probe_regions add kernel_end ((start, Some sz) # regs) heap =
     (case mem_region kernel_end start sz of
        Inl e \<Rightarrow> (Inl e, heap)
      | Inr rs \<Rightarrow> mem_probe_regions add kernel_end regs (fold (heap_enlarge add) rs heap))"

definition mem_probe :: "(usize \<Rightarrow> usize \<Rightarrow> 'h \<Rightarrow> 'h) \<Rightarrow> usize \<Rightarrow> (usize \<times> usize option) list option \<Rightarrow> 'h \<Rightarrow> unit res \<times> 'h" where
  "mem_probe add kernel_end reg heap = (case reg of
     None \<Rightarrow> (Fail DevProbeError, heap)
   | Some regs \<Rightarrow> mem_probe_regions add kernel_end regs heap)"

section \<open>Depth\<close>

text \<open>How deep an address lies: the sum of the changes at and below it.\<close>

definition depth :: "(usize \<times> isize) list \<Rightarrow> nat \<Rightarrow> int" where
  "depth xs x = (\<Sum>(p, d)\<leftarrow>xs. if unat p \<le> x then sint d else 0)"

definition weight :: "(usize \<times> isize) list \<Rightarrow> int" where
  "weight xs = (\<Sum>(p, d)\<leftarrow>xs. \<bar>sint d\<bar>)"

lemma depth_simps [simp]:
  "depth [] x = 0" "depth ((p, d) # xs) x = (if unat p \<le> x then sint d else 0) + depth xs x"
  "depth (xs @ ys) x = depth xs x + depth ys x"
  by (simp_all add: depth_def)

lemma weight_simps [simp]:
  "weight [] = 0" "weight ((p, d) # xs) = \<bar>sint d\<bar> + weight xs" "weight (xs @ ys) = weight xs + weight ys"
  by (simp_all add: weight_def)

lemma weight_nonneg [simp]: "0 \<le> weight xs"
  by (induction xs) auto

lemma sint_add_small: "\<bar>sint (a :: isize)\<bar> + \<bar>sint b\<bar> < 2 ^ 63 \<Longrightarrow> sint (a + b) = sint a + sint b"
  by (simp add: sint_word_ariths signed_take_bit_int_eq_self_iff) linarith

lemma sint_sum_small: "weight xs < 2 ^ 63 \<Longrightarrow> sint (sum_list (map snd xs)) = (\<Sum>(p, d)\<leftarrow>xs. sint d) \<and>
    \<bar>sint (sum_list (map snd xs))\<bar> \<le> weight xs"
proof (induction xs)
  case (Cons a xs)
  obtain p d where a: "a = (p, d)" by (cases a)
  then have w: "\<bar>sint d\<bar> + weight xs < 2 ^ 63" using Cons.prems by simp
  then have "weight xs < 2 ^ 63" by linarith
  from Cons.IH [OF this] have IH: "sint (sum_list (map snd xs)) = (\<Sum>(p, d)\<leftarrow>xs. sint d)" "\<bar>sint (sum_list (map snd xs))\<bar> \<le> weight xs"
    by blast+
  have "\<bar>sint d\<bar> + \<bar>sint (sum_list (map snd xs))\<bar> < 2 ^ 63" using w IH(2) by linarith
  from sint_add_small [OF this] show ?case using a IH by simp
qed simp


section \<open>Sorting and grouping keep the depth\<close>

lemma sum_list_perm: "mset xs = mset ys \<Longrightarrow> sum_list (map f xs) = sum_list (map f ys)"
  for f :: "'a \<Rightarrow> 'b::comm_monoid_add"
  by (simp flip: sum_mset_sum_list)

lemma depth_perm: "mset xs = mset ys \<Longrightarrow> depth xs x = depth ys x"
  unfolding depth_def by (rule sum_list_perm)

lemma weight_perm: "mset xs = mset ys \<Longrightarrow> weight xs = weight ys"
  unfolding weight_def by (rule sum_list_perm)

lemma concat_runs_of [simp]: "concat (runs_of xs) = xs"
  by (induction xs) (auto split: list.splits)

lemma runs_of_groups: "g \<in> set (runs_of xs) \<Longrightarrow> g \<noteq> [] \<and> (\<forall>y\<in>set g. fst y = fst (g ! 0))"
proof (induction xs arbitrary: g)
  case (Cons x xs)
  show ?case
  proof (cases "runs_of xs")
    case Nil
    then show ?thesis using Cons.prems by simp
  next
    case (Cons h hs)
    have "h \<in> set (runs_of xs)" using Cons by simp
    from Cons.IH [OF this] have h: "h \<noteq> []" "\<forall>y\<in>set h. fst y = fst (h ! 0)" by blast+
    consider "g = x # h" "fst x = fst (h ! 0)" | "g = [x]" | "g \<in> set (runs_of xs)"
        using Cons.prems Cons h(1) by (auto simp: hd_conv_nth split: if_splits)
    then show ?thesis
    proof cases
      case 1
      have "fst y = fst (g ! 0)" if "y \<in> set g" for y
      proof (cases "y = x")
        case False
        then have "y \<in> set h" using that 1(1) by simp
        then show ?thesis using h(2) 1 by fastforce
      qed (simp add: 1(1))
      then show ?thesis using 1(1) by blast
    next
      case 2
      then show ?thesis by simp
    next
      case 3
      then show ?thesis by (rule Cons.IH)
    qed
  qed
qed simp

lemma runs_of_heads: "(\<lambda>g. fst (g ! 0)) ` set (runs_of xs) \<subseteq> fst ` set xs"
proof
  fix p assume "p \<in> (\<lambda>g. fst (g ! 0)) ` set (runs_of xs)"
  then obtain g where g: "g \<in> set (runs_of xs)" "p = fst (g ! 0)" by blast
  have "g \<noteq> []" using runs_of_groups [OF g(1)] by blast
  then have "g ! 0 \<in> set g" by simp
  then have "g ! 0 \<in> set (concat (runs_of xs))" using g(1) unfolding set_concat by blast
  then show "p \<in> fst ` set xs" using g(2) by simp
qed

lemma runs_of_sorted: "sorted (map fst xs) \<Longrightarrow> sorted_wrt (<) (map (\<lambda>g. fst (g ! 0)) (runs_of xs))"
proof (induction xs)
  case (Cons x xs)
  then have IH: "sorted_wrt (<) (map (\<lambda>g. fst (g ! 0)) (runs_of xs))" and x: "\<forall>y\<in>set xs. fst x \<le> fst y" by simp_all
  show ?case
  proof (cases "runs_of xs")
    case (Cons g gs)
    have ne: "g \<noteq> []" using runs_of_groups [of g xs] Cons by simp
    have "fst x \<le> fst (g ! 0)" using runs_of_heads [of xs] x Cons by force
    moreover have "\<forall>h\<in>set gs. fst (g ! 0) < fst (h ! 0)" using IH Cons by simp
    ultimately show ?thesis using IH Cons ne by (auto simp: hd_conv_nth)
  qed simp
qed simp

definition merge :: "(usize \<times> isize) list list \<Rightarrow> (usize \<times> isize) list" where
  "merge gs = map (\<lambda>s. (fst (s ! 0), sum_list (map snd s))) gs"

lemma depth_group:
  assumes "\<forall>y\<in>set g. fst y = p"
  shows "depth g x = (if unat p \<le> x then \<Sum>(p, d)\<leftarrow>g. sint d else 0)"
  using assms by (induction g) auto

lemma merge_keeps:
  assumes "\<And>g. g \<in> set gs \<Longrightarrow> g \<noteq> [] \<and> (\<forall>y\<in>set g. fst y = fst (g ! 0))" "weight (concat gs) < 2 ^ 63"
  shows "depth (merge gs) x = depth (concat gs) x \<and> weight (merge gs) \<le> weight (concat gs)"
  using assms
proof (induction gs)
  case (Cons g gs)
  have w: "weight g < 2 ^ 63" "weight (concat gs) < 2 ^ 63"
    using Cons.prems(2) weight_nonneg [of g] weight_nonneg [of "concat gs"] unfolding concat.simps weight_simps by linarith+
  have g: "depth g x = (if unat (fst (g ! 0)) \<le> x then \<Sum>(p, d)\<leftarrow>g. sint d else 0)"
    using Cons.prems(1) [of g] by (intro depth_group) (meson list.set_intros(1))
  have "g' \<noteq> [] \<and> (\<forall>y\<in>set g'. fst y = fst (g' ! 0))" if "g' \<in> set gs" for g'
    by (rule Cons.prems(1)) (simp add: that)
  from Cons.IH [OF this w(2)] show ?case using sint_sum_small [OF w(1)] g by (auto simp: merge_def intro: add_mono)
qed (simp add: merge_def)

lemma sorted_positions: "sorted (map fst (sort_key (\<lambda>(p, d). (unat p, sint d)) (xs :: (usize \<times> isize) list)))"
proof -
  let ?k = "\<lambda>(p :: usize, d :: isize). (unat p, sint d)"
  have "sorted (map ?k (sort_key ?k xs))" by (rule sorted_sort_key)
  then show ?thesis unfolding sorted_map
    by (rule sorted_wrt_mono_rel [rotated]) (auto simp: less_eq_prod_def word_le_nat_alt)
qed

lemma into_iter_ok:
  assumes "weight xs < 2 ^ 63"
  shows "it_sum (ei_into_iter xs) = 0" "sorted_wrt (<) (map fst (it_into_iter (ei_into_iter xs)))"
    "depth (it_into_iter (ei_into_iter xs)) x = depth xs x" "weight (it_into_iter (ei_into_iter xs)) < 2 ^ 63"
proof -
  let ?s = "sort_key (\<lambda>(p, d). (unat p, sint d)) xs"
  have w: "weight (concat (runs_of ?s)) < 2 ^ 63" using assms weight_perm [of ?s xs] by simp
  have e: "it_into_iter (ei_into_iter xs) = merge (runs_of ?s)" by (simp add: ei_into_iter_def merge_def)
  show "it_sum (ei_into_iter xs) = 0" by (simp add: ei_into_iter_def)
  show "sorted_wrt (<) (map fst (it_into_iter (ei_into_iter xs)))"
    using runs_of_sorted [OF sorted_positions, of xs] by (simp add: e merge_def o_def)
  have m: "depth (merge (runs_of ?s)) x = depth (concat (runs_of ?s)) x \<and> weight (merge (runs_of ?s)) \<le> weight (concat (runs_of ?s))" for x
    by (rule merge_keeps [OF _ w]) (rule runs_of_groups)
  show "depth (it_into_iter (ei_into_iter xs)) x = depth xs x"
    using m [of x] depth_perm [of ?s xs x] unfolding e by simp
  show "weight (it_into_iter (ei_into_iter xs)) < 2 ^ 63" using m [of x] w unfolding e by linarith
qed

section \<open>The iterator\<close>

text \<open>All bounds that the iterator still returns, in one pass.\<close>

fun scan :: "usize option \<Rightarrow> isize \<Rightarrow> (usize \<times> isize) list \<Rightarrow> Bound list" where
  "scan left sm [] = []"
| "scan left sm ((pos, delta) # rest) =
     (if sint sm \<le> 0 \<and> 0 < sint (sm + delta) then scan (Some pos) (sm + delta) rest
      else if 0 < sint sm \<and> sint (sm + delta) \<le> 0
      then \<lparr>bd_start = the left, bd_len = pos - the left\<rparr> # scan None (sm + delta) rest
      else scan left (sm + delta) rest)"

lemma next_loop_scan:
  assumes "left = None \<longleftrightarrow> sint sm \<le> 0"
  shows "(case next_loop left sm xs of (Inl e, _) \<Rightarrow> Inl e | (Inr None, _) \<Rightarrow> Ok []
    | (Inr (Some b), it) \<Rightarrow> bind_res (ei_collect it) (\<lambda>bs. Ok (b # bs))) = Ok (scan left sm xs)"
  using assms
proof (induction xs arbitrary: left sm)
  case (Cons a xs)
  obtain p d where a: "a = (p, d)" by (cases a)
  show ?case
  proof (cases "0 < sint sm \<and> sint (sm + d) \<le> 0")
    case True
    then obtain l where "left = Some l" using Cons.prems by (cases left) auto
    moreover have "ei_collect \<lparr>it_sum = sm + d, it_into_iter = xs\<rparr> = Ok (scan None (sm + d) xs)"
      using Cons.IH [of None "sm + d"] True by (subst ei_collect.simps) (simp add: ei_next_def)
    ultimately show ?thesis using True a by simp
  next
    case False
    then show ?thesis using Cons.IH [of "Some p" "sm + d"] Cons.IH [of left "sm + d"] Cons.prems a
      by (auto simp: Let_def not_le)
  qed
qed simp

lemma collect_scan: "sint (it_sum it) \<le> 0 \<Longrightarrow> ei_collect it = Ok (scan None (it_sum it) (it_into_iter it))"
  using next_loop_scan [of None "it_sum it" "it_into_iter it"] by (subst ei_collect.simps) (simp add: ei_next_def)

text \<open>The addresses of a bound, and of several.\<close>

definition bytes :: "Bound \<Rightarrow> nat set" where
  "bytes b = {unat (bd_start b)..<unat (bd_start b) + unat (bd_len b)}"

lemma depth_below: "\<forall>(p, d)\<in>set xs. x < unat p \<Longrightarrow> depth xs x = 0"
  by (induction xs) auto

lemma scan_covers:
  assumes "sorted_wrt (<) (map fst xs)" "\<bar>sint sm\<bar> + weight xs < 2 ^ 63" "left = None \<longleftrightarrow> sint sm \<le> 0"
    and "\<forall>l. left = Some l \<longrightarrow> (\<forall>(p, d)\<in>set xs. l < p)" "sint sm + (\<Sum>(p, d)\<leftarrow>xs. sint d) \<le> 0"
  shows "(\<exists>b\<in>set (scan left sm xs). x \<in> bytes b) \<longleftrightarrow> (\<forall>l. left = Some l \<longrightarrow> unat l \<le> x) \<and> 0 < sint sm + depth xs x"
  using assms
proof (induction xs arbitrary: left sm)
  case Nil
  then show ?case by simp
next
  case (Cons a xs)
  obtain p d where a: "a = (p, d)" by (cases a)
  have srt: "sorted_wrt (<) (map fst xs)" and above: "\<forall>(q, e)\<in>set xs. p < q" using Cons.prems(1) a by auto
  have small: "\<bar>sint sm\<bar> + \<bar>sint d\<bar> < 2 ^ 63" using Cons.prems(2) weight_nonneg [of xs] unfolding a weight_simps by linarith
  have sm: "sint (sm + d) = sint sm + sint d" by (rule sint_add_small [OF small])
  have w: "\<bar>sint (sm + d)\<bar> + weight xs < 2 ^ 63" using Cons.prems(2) unfolding sm a weight_simps by linarith
  have tot: "sint (sm + d) + (\<Sum>(p, d)\<leftarrow>xs. sint d) \<le> 0" using Cons.prems(5) a sm by simp
  have below: "depth xs x = 0" if "x < unat p"
    using above that by (intro depth_below) (auto simp: word_less_nat_alt)
  note IH = Cons.IH [OF srt w _ _ tot]
  have lp: "l < p" if "left = Some l" for l using Cons.prems(4) that a by simp
  consider (rise) "sint sm \<le> 0" "0 < sint (sm + d)" | (drop) "0 < sint sm" "sint (sm + d) \<le> 0"
    | (stay) "sint sm \<le> 0 \<longleftrightarrow> sint (sm + d) \<le> 0" by linarith
  then show ?case
  proof cases
    case rise
    then have "left = None" using Cons.prems(3) by simp
    then show ?thesis using rise IH [of "Some p"] above below a sm by (cases "x < unat p") auto
  next
    case drop
    then obtain l where l: "left = Some l" using Cons.prems(3) by (cases left) auto
    have b: "x \<in> bytes \<lparr>bd_start = l, bd_len = p - l\<rparr> \<longleftrightarrow> unat l \<le> x \<and> x < unat p"
      using lp [OF l] unat_sub_usize [OF order.strict_implies_order [OF lp [OF l]]] by (auto simp: bytes_def word_less_nat_alt)
    show ?thesis using drop l IH [of None] b below lp [OF l] a sm by (cases "x < unat p") (auto simp: word_less_nat_alt)
  next
    case stay
    have s: "scan left sm (a # xs) = scan left (sm + d) xs" using stay a by (auto simp: not_le)
    have "\<forall>l. left = Some l \<longrightarrow> (\<forall>(q, e)\<in>set xs. l < q)" using Cons.prems(4) a by auto
    then show ?thesis using IH [of left] Cons.prems(3) stay below a sm unfolding s by (cases "x < unat p") auto
  qed
qed

lemma scan_starts:
  assumes "left = None \<longleftrightarrow> sint sm \<le> 0" "b \<in> set (scan left sm xs)"
  shows "bd_start b \<in> set_option left \<union> fst ` set xs"
  using assms
proof (induction left sm xs rule: scan.induct)
  case (2 left sm pos delta rest)
  consider "sint sm \<le> 0 \<and> 0 < sint (sm + delta)" | "0 < sint sm \<and> sint (sm + delta) \<le> 0"
    | "\<not> (sint sm \<le> 0 \<and> 0 < sint (sm + delta))" "\<not> (0 < sint sm \<and> sint (sm + delta) \<le> 0)" by blast
  then show ?case
  proof cases
    case 1
    then show ?thesis using 2 by auto
  next
    case b: 2
    then obtain l where "left = Some l" using "2.prems"(1) by (cases left) auto
    then show ?thesis using b "2.IH"(2) "2.prems" by fastforce
  next
    case 3
    then show ?thesis using 2 by (auto simp: not_le)
  qed
qed simp

definition precedes :: "Bound \<Rightarrow> Bound \<Rightarrow> bool" where
  "precedes b c \<longleftrightarrow> unat (bd_start b) + unat (bd_len b) < unat (bd_start c)"

lemma scan_separate:
  assumes "left = None \<longleftrightarrow> sint sm \<le> 0" "sorted_wrt (<) (map fst xs)" "\<forall>l. left = Some l \<longrightarrow> (\<forall>p\<in>fst ` set xs. l < p)"
  shows "sorted_wrt precedes (scan left sm xs) \<and> (\<forall>b\<in>set (scan left sm xs). bd_len b \<noteq> 0)"
  using assms
proof (induction left sm xs rule: scan.induct)
  case (2 left sm pos delta rest)
  have above: "\<forall>p\<in>fst ` set rest. pos < p" and srt: "sorted_wrt (<) (map fst rest)" using "2.prems"(2) by auto
  consider (rise) "sint sm \<le> 0 \<and> 0 < sint (sm + delta)" | (drop) "0 < sint sm \<and> sint (sm + delta) \<le> 0"
    | (stay) "\<not> (sint sm \<le> 0 \<and> 0 < sint (sm + delta))" "\<not> (0 < sint sm \<and> sint (sm + delta) \<le> 0)" by blast
  then show ?case
  proof cases
    case rise
    then show ?thesis using "2.IH"(1) above srt by simp
  next
    case drop
    then obtain l where l: "left = Some l" using "2.prems"(1) by (cases left) auto
    have lp: "l < pos" using "2.prems"(3) l by simp
    have e: "unat l + unat (pos - l) = unat pos" using lp unat_sub_usize [OF order.strict_implies_order [OF lp]] by (simp add: word_less_nat_alt)
    have "pos < bd_start c" if "c \<in> set (scan None (sm + delta) rest)" for c
      using scan_starts [OF _ that] drop above by auto
    then have "\<forall>c\<in>set (scan None (sm + delta) rest). precedes \<lparr>bd_start = l, bd_len = pos - l\<rparr> c"
      using e by (auto simp: precedes_def word_less_nat_alt)
    then show ?thesis using drop l lp "2.IH"(2) srt by auto
  next
    case stay
    then show ?thesis using "2.IH"(3) "2.prems" srt by (auto simp: not_le)
  qed
qed simp

section \<open>Intervals as sets\<close>

definition bounded :: "Bound \<Rightarrow> bool" where
  "bounded b \<longleftrightarrow> unat (bd_start b) + unat (bd_len b) < 2 ^ 64"

text \<open>The operations as the code composes them: any number of bounds, then subtractions.\<close>

definition intervals :: "Bound list \<Rightarrow> Bound list \<Rightarrow> ExclusiveIntervals" where
  "intervals bs cs = fold ei_sub_assign cs (ei_new bs)"

lemma intervals_simps: "intervals bs [] = ei_new bs" "intervals bs (cs @ [c]) = ei_sub_assign c (intervals bs cs)"
  by (simp_all add: intervals_def)

lemma sint_small: "sint (1 :: isize) = 1" "sint (- 1 :: isize) = - 1" "sint INFINITY = 32767" "sint (- INFINITY) = - 32767"
  by (simp_all add: INFINITY_def)

lemma new_depth:
  assumes "\<forall>b\<in>set bs. bounded b"
  shows "depth (ei_new bs) x = int (length (filter (\<lambda>b. x \<in> bytes b) bs))" "weight (ei_new bs) = 2 * int (length bs)"
    "(\<Sum>(p, d)\<leftarrow>ei_new bs. sint d) = 0"
  using assms
  by (induction bs) (auto simp: ei_new_def bytes_def bounded_def sint_small unat_add_usize)

lemma sub_depth:
  assumes "\<forall>c\<in>set cs. bounded c"
  shows "depth (intervals bs cs) x = depth (ei_new bs) x - 32767 * int (length (filter (\<lambda>c. x \<in> bytes c) cs))"
    "weight (intervals bs cs) = weight (ei_new bs) + 65534 * int (length cs)"
    "(\<Sum>(p, d)\<leftarrow>intervals bs cs. sint d) = (\<Sum>(p, d)\<leftarrow>ei_new bs. sint d)"
  using assms
  by (induction cs rule: rev_induct)
    (auto simp: intervals_simps ei_sub_assign_def bytes_def bounded_def sint_small unat_add_usize)

lemma depth_positive: "b < 32767 \<Longrightarrow> 0 < int b - 32767 * int c \<longleftrightarrow> b \<noteq> 0 \<and> c = 0"
  by (cases c) auto

lemma collect_intervals:
  assumes "\<forall>b\<in>set bs. bounded b" "\<forall>c\<in>set cs. bounded c" "length bs < 32767" "length cs < 2 ^ 46"
  shows "\<exists>rs. ei_collect (ei_into_iter (intervals bs cs)) = Ok rs \<and> (\<Union>b\<in>set rs. bytes b) = (\<Union>b\<in>set bs. bytes b) - (\<Union>c\<in>set cs. bytes c) \<and>
    sorted_wrt precedes rs \<and> (\<forall>b\<in>set rs. bd_len b \<noteq> 0)"
proof -
  let ?it = "ei_into_iter (intervals bs cs)"
  let ?rs = "scan None 0 (it_into_iter ?it)"
  have "weight (intervals bs cs) = 2 * int (length bs) + 65534 * int (length cs)" using sub_depth(2) [OF assms(2)] new_depth(2) [OF assms(1)] by simp
  then have w: "weight (intervals bs cs) < 2 ^ 63" using assms(3,4) by simp
  note it = into_iter_ok [OF w]
  have total: "(\<Sum>(p, d)\<leftarrow>it_into_iter ?it. sint d) = 0"
  proof -
    have "depth xs (2 ^ 64) = (\<Sum>(p, d)\<leftarrow>xs. sint d)" for xs
      by (induction xs) (auto simp: less_imp_le [OF unat_usize_less])
    then show ?thesis using it(3) [of "2 ^ 64"] sub_depth(3) [OF assms(2), of bs] new_depth(3) [OF assms(1)] by simp
  qed
  have c: "(\<exists>b\<in>set ?rs. x \<in> bytes b) \<longleftrightarrow> 0 < depth (intervals bs cs) x" for x
    using scan_covers [of "it_into_iter ?it" 0 None x] it total by simp
  have d: "0 < depth (intervals bs cs) x \<longleftrightarrow> (\<exists>b\<in>set bs. x \<in> bytes b) \<and> \<not> (\<exists>c\<in>set cs. x \<in> bytes c)" for x
  proof -
    let ?b = "length (filter (\<lambda>b. x \<in> bytes b) bs)" and ?c = "length (filter (\<lambda>c. x \<in> bytes c) cs)"
    have "depth (intervals bs cs) x = int ?b - 32767 * int ?c" using sub_depth(1) [OF assms(2)] new_depth(1) [OF assms(1)] by simp
    moreover have "?b < 32767" using assms(3) length_filter_le [of _ bs] by (rule le_less_trans [rotated])
    moreover have "?c = 0 \<longleftrightarrow> \<not> (\<exists>c\<in>set cs. x \<in> bytes c)" "?b = 0 \<longleftrightarrow> \<not> (\<exists>b\<in>set bs. x \<in> bytes b)" by (simp_all add: filter_empty_conv)
    ultimately show ?thesis using depth_positive [of ?b ?c] by simp
  qed
  have "ei_collect ?it = Ok ?rs" using collect_scan [of ?it] it(1) by simp
  moreover have "(\<Union>b\<in>set ?rs. bytes b) = (\<Union>b\<in>set bs. bytes b) - (\<Union>c\<in>set cs. bytes c)"
    unfolding set_eq_iff UN_iff Diff_iff using c d by simp
  ultimately show ?thesis using scan_separate [of None 0 "it_into_iter ?it"] it(2) by simp
qed

section \<open>Properties\<close>

text \<open>C27. The interval arithmetic is set arithmetic: for any bounds that do not wrap around the address
  space (fewer than \<^verbatim>\<open>INFINITY\<close> of them) and any bounds taken away, in whatever order and however they
  overlap, iterating never panics and yields non-empty bounds, in ascending order and with a gap between
  any two, whose addresses are exactly those of an added bound that lie in no subtracted one.\<close>

theorem intervals_are_difference:
  assumes "\<forall>b\<in>set bs. bounded b" "\<forall>c\<in>set cs. bounded c" "length bs < 32767" "length cs < 2 ^ 46"
  shows "\<exists>rs. ei_collect (ei_into_iter (fold ei_sub_assign cs (ei_new bs))) = Ok rs \<and>
    (\<Union>b\<in>set rs. bytes b) = (\<Union>b\<in>set bs. bytes b) - (\<Union>c\<in>set cs. bytes c) \<and>
    sorted_wrt precedes rs \<and> (\<forall>b\<in>set rs. bd_len b \<noteq> 0)"
  using collect_intervals [OF assms] by (simp add: intervals_def)

theorem intervals_are_difference_witness:
  "\<exists>rs. ei_collect (ei_into_iter (ei_sub_assign (bd_new 20 10) (ei_new [bd_new 25 25, bd_new 10 20]))) = Ok rs \<and>
     (\<Union>b\<in>set rs. bytes b) = {10..<20} \<union> {30..<50} \<and> sorted_wrt precedes rs"
proof -
  have "\<exists>rs. ei_collect (ei_into_iter (fold ei_sub_assign [bd_new 20 10] (ei_new [bd_new 25 25, bd_new 10 20]))) = Ok rs \<and>
    (\<Union>b\<in>set rs. bytes b) = (\<Union>b\<in>set [bd_new 25 25, bd_new 10 20]. bytes b) - (\<Union>c\<in>set [bd_new 20 10]. bytes c) \<and>
    sorted_wrt precedes rs \<and> (\<forall>b\<in>set rs. bd_len b \<noteq> 0)"
    by (rule intervals_are_difference) (simp_all add: bounded_def bd_new_def)
  moreover have "(\<Union>b\<in>set [bd_new 25 25, bd_new 10 20]. bytes b) - (\<Union>c\<in>set [bd_new 20 10]. bytes c) = {10..<20} \<union> {30..<50}"
    by (auto simp: bytes_def bd_new_def)
  ultimately show ?thesis by auto
qed

text \<open>The physical memory that a \<^verbatim>\<open>reg\<close> property describes, at its remapped addresses.\<close>

definition described :: "(usize \<times> usize option) list \<Rightarrow> nat set" where
  "described regs = (\<Union>(start, sz)\<in>set regs. case sz of None \<Rightarrow> {} | Some n \<Rightarrow>
     {unat start + unat REMAP_MEM_OFFSET..<unat start + unat REMAP_MEM_OFFSET + unat n})"

definition kernel_image :: "usize \<Rightarrow> nat set" where
  "kernel_image kernel_end = {unat PHYS_MEM_BASE + unat REMAP_MEM_OFFSET..<unat (align_page_up kernel_end)}"

lemma to_virt_unat: "unat a < 0x4000000000 \<Longrightarrow> unat (va_as_usize (to_virt (pa_new a))) = unat a + unat REMAP_MEM_OFFSET"
  by (simp add: to_virt_def pa_new_def REMAP_MEM_OFFSET_def unat_add_usize)

lemma kernel_bound:
  assumes "unat PHYS_MEM_BASE + unat REMAP_MEM_OFFSET \<le> unat kernel_end" "unat kernel_end \<le> unat PHYS_MEM_LIMIT + unat REMAP_MEM_OFFSET"
  shows "bytes (bd_new (va_as_usize (to_virt (pa_new PHYS_MEM_BASE))) (va_diff (va_align_page_up (va_new kernel_end)) (to_virt (pa_new PHYS_MEM_BASE))))
      = kernel_image kernel_end"
    "bounded (bd_new (va_as_usize (to_virt (pa_new PHYS_MEM_BASE))) (va_diff (va_align_page_up (va_new kernel_end)) (to_virt (pa_new PHYS_MEM_BASE))))"
proof -
  let ?base = "va_as_usize (to_virt (pa_new PHYS_MEM_BASE))"
  have b: "unat ?base = unat PHYS_MEM_BASE + unat REMAP_MEM_OFFSET" by (rule to_virt_unat) (simp add: PHYS_MEM_BASE_def)
  have u: "unat (align_page_up kernel_end) = (unat kernel_end + 4095) div 4096 * 4096"
    by (rule unat_align_page_up) (use assms(2) in \<open>simp add: PHYS_MEM_LIMIT_def REMAP_MEM_OFFSET_def\<close>)
  then have "unat kernel_end \<le> unat (align_page_up kernel_end)" by linarith
  then have le: "?base \<le> align_page_up kernel_end" using assms(1) b by (simp add: word_le_nat_alt)
  have e: "unat ?base + unat (align_page_up kernel_end - ?base) = unat (align_page_up kernel_end)"
    using le unat_sub_usize [OF le] by (simp add: word_le_nat_alt)
  show "bytes (bd_new ?base (va_diff (va_align_page_up (va_new kernel_end)) (to_virt (pa_new PHYS_MEM_BASE)))) = kernel_image kernel_end"
    using e by (simp add: bytes_def bd_new_def va_diff_def va_align_page_up_def va_new_def kernel_image_def b)
  show "bounded (bd_new ?base (va_diff (va_align_page_up (va_new kernel_end)) (to_virt (pa_new PHYS_MEM_BASE))))"
    using e unat_usize_less [of "align_page_up kernel_end"] by (simp add: bounded_def bd_new_def va_diff_def va_align_page_up_def va_new_def)
qed

lemma mem_region_ok:
  assumes "unat PHYS_MEM_BASE + unat REMAP_MEM_OFFSET \<le> unat kernel_end" "unat kernel_end \<le> unat PHYS_MEM_LIMIT + unat REMAP_MEM_OFFSET"
    and "unat start + unat sz \<le> unat PHYS_MEM_LIMIT"
  shows "\<exists>rs. mem_region kernel_end start sz = Ok (map (\<lambda>b. (va_new (bd_start b), bd_len b)) rs) \<and>
    (\<Union>b\<in>set rs. bytes b) = described [(start, Some sz)] - kernel_image kernel_end"
proof -
  let ?a = "bd_new (va_as_usize (to_virt (pa_new start))) sz"
  let ?k = "bd_new (va_as_usize (to_virt (pa_new PHYS_MEM_BASE))) (va_diff (va_align_page_up (va_new kernel_end)) (to_virt (pa_new PHYS_MEM_BASE)))"
  have s: "unat (va_as_usize (to_virt (pa_new start))) = unat start + unat REMAP_MEM_OFFSET"
    by (rule to_virt_unat) (use assms(3) in \<open>simp add: PHYS_MEM_LIMIT_def\<close>)
  have a: "bounded ?a" "bytes ?a = described [(start, Some sz)]"
    using assms(3) by (simp_all add: bounded_def bytes_def bd_new_def described_def s PHYS_MEM_LIMIT_def REMAP_MEM_OFFSET_def)
  from collect_intervals [of "[?a]" "[?k]"] obtain rs where
    "ei_collect (ei_into_iter (ei_sub_assign ?k (ei_new [?a]))) = Ok rs" "(\<Union>b\<in>set rs. bytes b) = bytes ?a - bytes ?k"
    using a(1) kernel_bound(2) [OF assms(1,2)] by (auto simp: intervals_def)
  then show ?thesis using a(2) kernel_bound(1) [OF assms(1,2)]
    by (intro exI [of _ rs]) (simp add: mem_region_def Let_def bd_into_def)
qed

lemma mem_probe_regions_ok:
  assumes "unat PHYS_MEM_BASE + unat REMAP_MEM_OFFSET \<le> unat kernel_end" "unat kernel_end \<le> unat PHYS_MEM_LIMIT + unat REMAP_MEM_OFFSET"
    and "\<forall>(start, sz)\<in>set regs. \<forall>n. sz = Some n \<longrightarrow> unat start + unat n \<le> unat PHYS_MEM_LIMIT"
  shows "\<exists>rs. mem_probe_regions add kernel_end regs heap = (Ok (), fold (heap_enlarge add) (map (\<lambda>b. (va_new (bd_start b), bd_len b)) rs) heap) \<and>
    (\<Union>b\<in>set rs. bytes b) = described regs - kernel_image kernel_end"
  using assms(3)
proof (induction regs arbitrary: heap)
  case Nil
  then show ?case by (intro exI [of _ "[]"]) (simp add: described_def)
next
  case (Cons r regs)
  obtain start sz where r: "r = (start, sz)" by (cases r)
  have prems: "\<forall>(start, sz)\<in>set regs. \<forall>n. sz = Some n \<longrightarrow> unat start + unat n \<le> unat PHYS_MEM_LIMIT" using Cons.prems by simp
  have d: "described (r # regs) = described [r] \<union> described regs" by (simp add: described_def)
  show ?case
  proof (cases sz)
    case None
    then show ?thesis using Cons.IH [OF prems, of heap] r by (simp add: described_def)
  next
    case (Some n)
    then have "unat start + unat n \<le> unat PHYS_MEM_LIMIT" using Cons.prems r by simp
    from mem_region_ok [OF assms(1,2) this] obtain rs where rs:
      "mem_region kernel_end start n = Ok (map (\<lambda>b. (va_new (bd_start b), bd_len b)) rs)"
      "(\<Union>b\<in>set rs. bytes b) = described [r] - kernel_image kernel_end" using r Some by auto
    from Cons.IH [OF prems, of "fold (heap_enlarge add) (map (\<lambda>b. (va_new (bd_start b), bd_len b)) rs) heap"] obtain qs where qs:
      "mem_probe_regions add kernel_end regs (fold (heap_enlarge add) (map (\<lambda>b. (va_new (bd_start b), bd_len b)) rs) heap) =
        (Ok (), fold (heap_enlarge add) (map (\<lambda>b. (va_new (bd_start b), bd_len b)) (rs @ qs)) heap)"
      "(\<Union>b\<in>set qs. bytes b) = described regs - kernel_image kernel_end" by auto
    show ?thesis using r Some rs qs d by (intro exI [of _ "rs @ qs"]) auto
  qed
qed

text \<open>C28. Probing a memory node succeeds and gives the heap exactly the memory that the node describes, at its
  remapped addresses, without the kernel image up to the end of its last page: no byte of the kernel is
  handed out and none of the other memory is left out. A node without a \<^verbatim>\<open>reg\<close> property is refused and
  the heap stays as it was.\<close>

theorem mem_probe_gives_free_memory:
  assumes "unat PHYS_MEM_BASE + unat REMAP_MEM_OFFSET \<le> unat kernel_end" "unat kernel_end \<le> unat PHYS_MEM_LIMIT + unat REMAP_MEM_OFFSET"
    and "\<forall>(start, sz)\<in>set regs. \<forall>n. sz = Some n \<longrightarrow> unat start + unat n \<le> unat PHYS_MEM_LIMIT"
  shows "mem_probe add kernel_end None heap = (Fail DevProbeError, heap) \<and>
    (\<exists>rs. mem_probe add kernel_end (Some regs) heap = (Ok (), fold (\<lambda>b. add (bd_start b) (bd_start b + bd_len b)) rs heap) \<and>
      (\<Union>b\<in>set rs. bytes b) = described regs - kernel_image kernel_end)"
proof -
  have "heap_enlarge add \<circ> (\<lambda>b :: Bound. (va_new (bd_start b), bd_len b)) = (\<lambda>b. add (bd_start b) (bd_start b + bd_len b))"
    by (rule ext) (simp add: heap_enlarge_def va_new_def fun_eq_iff)
  then show ?thesis using mem_probe_regions_ok [OF assms, of add heap] by (simp add: mem_probe_def fold_map)
qed

theorem mem_probe_gives_free_memory_witness:
  "\<exists>rs. mem_probe (\<lambda>a e heap. heap @ [(a, e)]) 0xFFFFFFC080234567 (Some [(0x80000000, Some 0x8000000)]) [] =
      (Ok (), fold (\<lambda>b heap. heap @ [(bd_start b, bd_start b + bd_len b)]) rs []) \<and>
     (\<Union>b\<in>set rs. bytes b) = {0xFFFFFFC080235000..<0xFFFFFFC088000000}"
proof -
  let ?k = "0xFFFFFFC080234567 :: usize" and ?r = "[(0x80000000, Some 0x8000000)] :: (usize \<times> usize option) list"
  have c: "unat PHYS_MEM_BASE + unat REMAP_MEM_OFFSET \<le> unat ?k" "unat ?k \<le> unat PHYS_MEM_LIMIT + unat REMAP_MEM_OFFSET"
    "\<forall>(start, sz)\<in>set ?r. \<forall>n. sz = Some n \<longrightarrow> unat start + unat n \<le> unat PHYS_MEM_LIMIT"
    by (simp_all add: PHYS_MEM_BASE_def PHYS_MEM_LIMIT_def REMAP_MEM_OFFSET_def)
  have "described ?r - kernel_image ?k = {0xFFFFFFC080235000..<0xFFFFFFC088000000}"
    by (auto simp: described_def kernel_image_def PHYS_MEM_BASE_def REMAP_MEM_OFFSET_def align_page_up_def PAGE_SIZE_def)
  then show ?thesis
    using mem_probe_gives_free_memory [OF c, of "\<lambda>a e heap. heap @ [(a, e)]" "[]"] by auto
qed

end
