(* ===== verification/Percpu.thy ===== *)
theory Percpu
  imports Addr
begin

text \<open>
  Per-processor data, \<^verbatim>\<open>kern/modules/percpu\<close> with the accessors that the macro of
  \<^verbatim>\<open>kern/modules/percpu-macro\<close> generates for every variable. The linker collects the initial values of all
  variables in one image, from \<open>s\<close> up to \<open>e\<close>; each processor gets a copy of it, and a variable is reached by
  its offset in the image. Memory is a function from addresses to bytes. The allocator is a parameter.
\<close>

section \<open>The code\<close>

record 'a percpu_state =
  pc_mem :: "usize \<Rightarrow> u8"
  pc_alloc :: 'a
  pc_global_area_base :: "usize option"

definition global_area_base :: "'a percpu_state \<Rightarrow> usize res" where
  "global_area_base st = unwrap_opt (pc_global_area_base st)"

definition local_area_size :: "usize \<Rightarrow> usize \<Rightarrow> usize" where
  "local_area_size s e = e - s"

definition local_area_base :: "usize \<Rightarrow> usize \<Rightarrow> 'a percpu_state \<Rightarrow> usize \<Rightarrow> usize res" where
  "local_area_base s e st cpu_id = bind_res (global_area_base st) (\<lambda>b. Ok (b + local_area_size s e * cpu_id))"

text \<open>\<^verbatim>\<open>Layout::from_size_align\<close> with the alignment of a page accepts a size that does not exceed
  \<^verbatim>\<open>isize::MAX\<close> when it is rounded up; \<^verbatim>\<open>allocate_zeroed\<close> clears what the allocator returns.\<close>

definition page_layout_ok :: "usize \<Rightarrow> bool" where
  "page_layout_ok sz \<longleftrightarrow> unat sz \<le> 2 ^ 63 - 4096"

definition write_zero :: "usize \<Rightarrow> usize \<Rightarrow> (usize \<Rightarrow> u8) \<Rightarrow> usize \<Rightarrow> u8" where
  "write_zero p n m = (\<lambda>a. if a - p < n then 0 else m a)"

definition copy_nonoverlapping :: "usize \<Rightarrow> usize \<Rightarrow> usize \<Rightarrow> (usize \<Rightarrow> u8) \<Rightarrow> usize \<Rightarrow> u8" where
  "copy_nonoverlapping origin target n m = (\<lambda>a. if a - target < n then m (origin + (a - target)) else m a)"

fun copy_areas :: "usize \<Rightarrow> usize \<Rightarrow> nat list \<Rightarrow> 'a percpu_state \<Rightarrow> unit res \<times> 'a percpu_state" where
  "copy_areas s e [] st = (Ok (), st)"
| "copy_areas s e (i # is) st = (case local_area_base s e st (of_nat i) of
     Inl x \<Rightarrow> (Inl x, st)
   | Inr target \<Rightarrow> copy_areas s e is (st\<lparr>pc_mem := copy_nonoverlapping s target (local_area_size s e) (pc_mem st)\<rparr>))"

definition percpu_init :: "(usize \<Rightarrow> 'a \<Rightarrow> (usize \<times> 'a) option) \<Rightarrow> usize \<Rightarrow> usize \<Rightarrow> usize \<Rightarrow> 'a percpu_state \<Rightarrow>
  unit res \<times> 'a percpu_state" where
  "percpu_init alloc s e nproc st =
     (let total_size = local_area_size s e * nproc
      in if \<not> page_layout_ok total_size then (Panicked, st)
         else case pc_global_area_base st of
           Some _ \<Rightarrow> copy_areas s e [0..<unat nproc] st
         | None \<Rightarrow> (case alloc total_size (pc_alloc st) of
             None \<Rightarrow> (Panicked, st)
           | Some (p, a) \<Rightarrow> copy_areas s e [0..<unat nproc]
               (st\<lparr>pc_mem := write_zero p total_size (pc_mem st), pc_alloc := a, pc_global_area_base := Some p\<rparr>)))"

text \<open>The register \<^verbatim>\<open>gp\<close> of a processor holds its area; a variable is given by its address in the image.\<close>

definition set_local_pointer :: "usize \<Rightarrow> usize \<Rightarrow> 'a percpu_state \<Rightarrow> usize \<Rightarrow> usize res" where
  "set_local_pointer s e st cpu_id = local_area_base s e st cpu_id"

definition pv_offset :: "usize \<Rightarrow> usize \<Rightarrow> usize" where
  "pv_offset s var = var - s"

definition pv_as_ptr :: "usize \<Rightarrow> usize \<Rightarrow> usize \<Rightarrow> usize" where
  "pv_as_ptr s gp var = gp + pv_offset s var"

definition pv_with_spec_ref :: "usize \<Rightarrow> usize \<Rightarrow> 'a percpu_state \<Rightarrow> usize \<Rightarrow> usize \<Rightarrow> usize res" where
  "pv_with_spec_ref s e st cpu_id var = bind_res (local_area_base s e st cpu_id) (\<lambda>b. Ok (b + pv_offset s var))"

definition pv_iter_next :: "usize \<Rightarrow> usize \<Rightarrow> usize \<Rightarrow> 'a percpu_state \<Rightarrow> usize \<Rightarrow> usize \<Rightarrow> usize option res \<times> usize" where
  "pv_iter_next s e nproc st var cpu_id =
     (if nproc \<le> cpu_id then (Ok None, cpu_id)
      else (bind_res (pv_with_spec_ref s e st cpu_id var) (\<lambda>a. Ok (Some a)), cpu_id + 1))"

section \<open>Areas\<close>

text \<open>What the code relies on of the allocator: memory that does not wrap and does not overlap the image.\<close>

definition alloc_apart :: "(usize \<Rightarrow> 'a \<Rightarrow> (usize \<times> 'a) option) \<Rightarrow> usize \<Rightarrow> usize \<Rightarrow> bool" where
  "alloc_apart alloc s e \<longleftrightarrow> (\<forall>n a p a'. alloc n a = Some (p, a') \<longrightarrow>
     unat p + unat n < 2 ^ 64 \<and> (unat p + unat n \<le> unat s \<or> unat e \<le> unat p))"

lemma unat_area:
  assumes "unat (b :: usize) + unat sz * n < 2 ^ 64"
  shows "unat (b + sz * of_nat n) = unat b + unat sz * n"
proof (cases "sz = 0")
  case False
  have n: "n < 2 ^ 64"
  proof (rule ccontr)
    assume "\<not> n < 2 ^ 64"
    then have "2 ^ 64 \<le> unat sz * n" using False by (metis less_one mult.commute mult_le_mono2 nat_mult_1_right not_less order_trans unat_eq_zero)
    then show False using assms by linarith
  qed
  then have "unat (of_nat n :: usize) = n" by (simp add: unat_of_nat take_bit_nat_eq_self)
  moreover have "unat sz * n < 2 ^ 64" using assms by linarith
  ultimately have "unat (sz * of_nat n) = unat sz * n" by (simp add: unat_word_ariths)
  then show ?thesis using assms by (simp add: unat_add_usize)
qed simp

lemma in_area: "unat p + unat n < 2 ^ 64 \<Longrightarrow> a - p < n \<longleftrightarrow> unat p \<le> unat a \<and> unat a < unat p + unat (n :: usize)"
proof -
  assume p: "unat p + unat n < 2 ^ 64"
  show ?thesis
  proof (cases "p \<le> a")
    case True
    then show ?thesis using unat_sub_usize [OF True] by (auto simp: word_less_nat_alt word_le_nat_alt)
  next
    case False
    then have "unat (a - p) = 2 ^ 64 + unat a - unat p"
      using unat_sub_if' [of a p] by (simp add: word_le_nat_alt)
    then show ?thesis using False p by (auto simp: word_less_nat_alt word_le_nat_alt)
  qed
qed

text \<open>The copies, one after the other: processor \<open>i\<close> reads the image at its own area.\<close>

lemma copy_areas_ok:
  assumes "pc_global_area_base st = Some b" "s \<le> e" "unat b + unat (e - s) * N < 2 ^ 64" "n \<le> N"
    and "unat b + unat (e - s) * N \<le> unat s \<or> unat e \<le> unat b"
  shows "\<exists>m. copy_areas s e [0..<n] st = (Ok (), st\<lparr>pc_mem := m\<rparr>) \<and>
    (\<forall>i<n. \<forall>off. off < e - s \<longrightarrow> m (b + (e - s) * of_nat i + off) = pc_mem st (s + off)) \<and>
    (\<forall>a. \<not> (unat b \<le> unat a \<and> unat a < unat b + unat (e - s) * N) \<longrightarrow> m a = pc_mem st a)"
proof -
  let ?z = "e - s"
  have step: "copy_areas s e (xs @ [i]) st' = (case copy_areas s e xs st' of (Inl x, t) \<Rightarrow> (Inl x, t)
      | (Inr _, t) \<Rightarrow> copy_areas s e [i] t)" for xs i and st' :: "'a percpu_state"
    by (induction xs arbitrary: st') (auto split: sum.splits)
  show ?thesis using assms(4)
  proof (induction n)
    case 0
    then show ?case by (intro exI [of _ "pc_mem st"]) simp
  next
    case (Suc n)
    then obtain m where m: "copy_areas s e [0..<n] st = (Ok (), st\<lparr>pc_mem := m\<rparr>)"
      "\<forall>i<n. \<forall>off. off < ?z \<longrightarrow> m (b + ?z * of_nat i + off) = pc_mem st (s + off)"
      "\<forall>a. \<not> (unat b \<le> unat a \<and> unat a < unat b + unat ?z * N) \<longrightarrow> m a = pc_mem st a" by auto
    let ?t = "b + ?z * of_nat n"
    have fit: "unat ?z * Suc i \<le> unat ?z * N" if "i \<le> n" for i using that Suc.prems by (intro mult_le_mono2) simp
    have base: "unat (b + ?z * of_nat i) = unat b + unat ?z * i" if "i \<le> n" for i
      by (rule unat_area) (use assms(3) fit [OF that] in \<open>simp\<close>)
    have t: "a - ?t < ?z \<longleftrightarrow> unat b + unat ?z * n \<le> unat a \<and> unat a < unat b + unat ?z * Suc n" for a
      using in_area [of ?t ?z a] base [of n] assms(3) fit [of n] by (simp add: ac_simps)
    have img: "m (s + off) = pc_mem st (s + off)" if "off < ?z" for off
    proof -
      have "unat (s + off) = unat s + unat off"
        using that assms(2) unat_sub_usize [OF assms(2)] unat_usize_less [of e] by (intro unat_add_usize) (simp add: word_less_nat_alt)
      then have "unat s \<le> unat (s + off)" "unat (s + off) < unat e"
        using that unat_sub_usize [OF assms(2)] by (simp_all add: word_less_nat_alt)
      then show ?thesis using m(3) assms(5) by (meson leD le_trans less_le_trans)
    qed
    let ?m = "copy_nonoverlapping s ?t ?z m"
    have r: "copy_areas s e [0..<Suc n] st = (Ok (), st\<lparr>pc_mem := ?m\<rparr>)"
      using step [of "[0..<n]" n st] m(1) assms(1) by (simp add: local_area_base_def global_area_base_def local_area_size_def)
    have "?m (b + ?z * of_nat i + off) = pc_mem st (s + off)" if "i < Suc n" "off < ?z" for i off
    proof (cases "i = n")
      case True
      then show ?thesis using that img by (simp add: copy_nonoverlapping_def)
    next
      case False
      then have i: "i < n" using that(1) by simp
      have "unat (b + ?z * of_nat i + off) = unat b + unat ?z * i + unat off"
        using base [of i] i fit [of i] assms(3) that(2) by (subst unat_add_usize) (auto simp: word_less_nat_alt)
      moreover have "unat ?z * Suc i \<le> unat ?z * n" using i by (intro mult_le_mono2) simp
      ultimately have "\<not> (b + ?z * of_nat i + off) - ?t < ?z" unfolding t using that(2) unfolding word_less_nat_alt by simp
      then show ?thesis using m(2) i that(2) by (simp add: copy_nonoverlapping_def)
    qed
    moreover have "?m a = pc_mem st a" if "\<not> (unat b \<le> unat a \<and> unat a < unat b + unat ?z * N)" for a
    proof -
      have "\<not> a - ?t < ?z" using that t fit [of n] by auto
      then show ?thesis using m(3) that by (simp add: copy_nonoverlapping_def)
    qed
    ultimately show ?case using r by blast
  qed
qed

text \<open>Where the variables of a processor lie, and that two of them lie apart.\<close>

lemma pointer_place:
  assumes "unat (p :: usize) + unat (e - s) * unat n < 2 ^ 64" "i < n" "s \<le> v" "v \<le> e"
  shows "unat (p + (e - s) * i + (v - s)) = unat p + unat (e - s) * unat i + (unat v - unat s)"
proof -
  have "unat (e - s) * Suc (unat i) \<le> unat (e - s) * unat n" using assms(2) by (intro mult_le_mono2) (simp add: word_less_nat_alt)
  then have f: "unat p + unat (e - s) * unat i + unat (e - s) < 2 ^ 64" using assms(1) by simp
  have b: "unat (p + (e - s) * i) = unat p + unat (e - s) * unat i" using unat_area [of p "e - s" "unat i"] f by simp
  have "s \<le> e" using assms(3,4) by (rule order_trans)
  then have v: "unat (v - s) = unat v - unat s" "unat v - unat s \<le> unat (e - s)"
    using unat_sub_usize assms(3,4) by (simp_all add: word_le_nat_alt diff_le_mono)
  then show ?thesis using b f by (subst unat_add_usize) simp_all
qed

lemma slots_apart:
  assumes "(i :: nat) \<noteq> j \<or> a + len \<le> a' \<or> a' + len' \<le> a" "a + len \<le> z" "a' + len' \<le> z"
  shows "{p + z * i + a..<p + z * i + a + len} \<inter> {p + z * j + a'..<p + z * j + a' + len'} = {}"
proof (cases i j rule: linorder_cases)
  case less
  then have "z * Suc i \<le> z * j" by (intro mult_le_mono2) simp
  then show ?thesis using assms(2) by auto
next
  case greater
  then have "z * Suc j \<le> z * i" by (intro mult_le_mono2) simp
  then show ?thesis using assms(3) by auto
qed (use assms(1) in auto)

lemma variables_apart:
  assumes "unat p + unat (e - s) * unat n < 2 ^ 64" "i < n" "j < n"
    and "s \<le> v" "unat v + len \<le> unat e" "s \<le> v'" "unat v' + len' \<le> unat e"
    and "i \<noteq> j \<or> unat v + len \<le> unat v' \<or> unat v' + len' \<le> unat v"
  shows "{unat (pv_as_ptr s (p + (e - s) * i) v)..<unat (pv_as_ptr s (p + (e - s) * i) v) + len} \<inter>
    {unat (pv_as_ptr s (p + (e - s) * j) v')..<unat (pv_as_ptr s (p + (e - s) * j) v') + len'} = {}"
proof -
  have ve: "v \<le> e" "v' \<le> e" using assms(5,7) by (simp_all add: word_le_nat_alt)
  have se: "unat (e - s) = unat e - unat s" using assms(4) ve(1) by (intro unat_sub_usize) (rule order_trans)
  have le: "unat s \<le> unat v" "unat s \<le> unat v'" using assms(4,6) by (simp_all add: word_le_nat_alt)
  note pl = pointer_place [OF assms(1,2,4) ve(1)] pointer_place [OF assms(1,3,6) ve(2)]
  have u: "unat i \<noteq> unat j \<or> unat v - unat s + len \<le> unat v' - unat s \<or> unat v' - unat s + len' \<le> unat v - unat s"
    using assms(8) le by (auto simp: word_unat_eq_iff)
  show ?thesis unfolding pv_as_ptr_def pv_offset_def pl
    by (rule slots_apart) (use u se le assms(5,7) in auto)
qed

lemma percpu_init_ok:
  assumes "alloc_apart alloc s e" "s \<le> e" "unat (e - s) * unat n \<le> 2 ^ 63 - 4096" "pc_global_area_base st = None"
    and "alloc ((e - s) * n) (pc_alloc st) = Some (p, a)"
  shows "unat p + unat (e - s) * unat n < 2 ^ 64"
    "\<exists>m. percpu_init alloc s e n st = (Ok (), st\<lparr>pc_mem := m, pc_alloc := a, pc_global_area_base := Some p\<rparr>) \<and>
      (\<forall>x. \<not> (unat p \<le> unat x \<and> unat x < unat p + unat (e - s) * unat n) \<longrightarrow> m x = pc_mem st x) \<and>
      (\<forall>i < n. \<forall>var. s \<le> var \<and> var < e \<longrightarrow> m (p + (e - s) * i + (var - s)) = pc_mem st var)"
proof -
  let ?z = "e - s"
  have tot: "unat (?z * n) = unat ?z * unat n" using unat_area [of 0 ?z "unat n"] assms(3) by simp
  then have lay: "page_layout_ok (?z * n)" using assms(3) by (simp add: page_layout_ok_def)
  have apart: "unat p + unat ?z * unat n < 2 ^ 64" "unat p + unat ?z * unat n \<le> unat s \<or> unat e \<le> unat p"
    using assms(1,5) tot unfolding alloc_apart_def by metis+
  show "unat p + unat ?z * unat n < 2 ^ 64" by (rule apart(1))
  let ?st = "st\<lparr>pc_mem := write_zero p (?z * n) (pc_mem st), pc_alloc := a, pc_global_area_base := Some p\<rparr>"
  have zero: "pc_mem ?st x = pc_mem st x" if "\<not> (unat p \<le> unat x \<and> unat x < unat p + unat ?z * unat n)" for x
    using in_area [of p "?z * n" x] that tot apart(1) by (simp add: write_zero_def)
  from copy_areas_ok [of ?st p s e "unat n" "unat n"] apart assms(2) obtain m where
    m: "copy_areas s e [0..<unat n] ?st = (Ok (), ?st\<lparr>pc_mem := m\<rparr>)"
      "\<forall>i<unat n. \<forall>off. off < ?z \<longrightarrow> m (p + ?z * of_nat i + off) = pc_mem ?st (s + off)"
      "\<forall>x. \<not> (unat p \<le> unat x \<and> unat x < unat p + unat ?z * unat n) \<longrightarrow> m x = pc_mem ?st x" by auto
  have "m (p + ?z * i + (var - s)) = pc_mem st var" if i: "i < n" and v: "s \<le> var" "var < e" for i var
  proof -
    have "unat (var - s) < unat ?z"
      using v assms(2) unat_sub_usize [OF v(1)] unat_sub_usize [OF assms(2)] by (simp add: word_less_nat_alt word_le_nat_alt)
    then have "var - s < ?z" by (simp add: word_less_nat_alt)
    then have "m (p + ?z * i + (var - s)) = pc_mem ?st var"
      using m(2) [rule_format, of "unat i" "var - s"] i by (simp add: word_less_nat_alt)
    moreover have "\<not> (unat p \<le> unat var \<and> unat var < unat p + unat ?z * unat n)"
      using apart(2) v unfolding word_le_nat_alt word_less_nat_alt by linarith
    ultimately show ?thesis using zero by simp
  qed
  moreover have "m x = pc_mem st x" if "\<not> (unat p \<le> unat x \<and> unat x < unat p + unat ?z * unat n)" for x
    using m(3) [rule_format, OF that] zero [OF that] by (rule trans)
  moreover have "percpu_init alloc s e n st = (Ok (), st\<lparr>pc_mem := m, pc_alloc := a, pc_global_area_base := Some p\<rparr>)"
    using lay assms(4,5) m(1) by (simp add: percpu_init_def local_area_size_def Let_def)
  ultimately show "\<exists>m. percpu_init alloc s e n st = (Ok (), st\<lparr>pc_mem := m, pc_alloc := a, pc_global_area_base := Some p\<rparr>) \<and>
      (\<forall>x. \<not> (unat p \<le> unat x \<and> unat x < unat p + unat ?z * unat n) \<longrightarrow> m x = pc_mem st x) \<and>
      (\<forall>i < n. \<forall>var. s \<le> var \<and> var < e \<longrightarrow> m (p + ?z * i + (var - s)) = pc_mem st var)"
    by blast
qed

section \<open>Properties\<close>

text \<open>C29. Setting up per-processor data for \<open>n\<close> processors, when the allocator has room: every processor's
  copy of every byte of the image holds its initial value and memory outside the allocated area is
  untouched. The pointer that a processor computes from its own area register is the one that another
  processor computes for it, and two variables of different processors, or disjoint variables of the
  same processor, never share a byte.\<close>

theorem percpu_separate:
  assumes "alloc_apart alloc s e" "s \<le> e" "unat (e - s) * unat n \<le> 2 ^ 63 - 4096" "pc_global_area_base st = None"
    and "alloc ((e - s) * n) (pc_alloc st) = Some (p, a)"
  shows "\<exists>st'. percpu_init alloc s e n st = (Ok (), st') \<and>
    (\<forall>x. \<not> (unat p \<le> unat x \<and> unat x < unat p + unat (e - s) * unat n) \<longrightarrow> pc_mem st' x = pc_mem st x) \<and>
    (\<forall>i < n. \<exists>gp. set_local_pointer s e st' i = Ok gp \<and> (\<forall>var. s \<le> var \<and> var < e \<longrightarrow>
      pv_with_spec_ref s e st' i var = Ok (pv_as_ptr s gp var) \<and> pc_mem st' (pv_as_ptr s gp var) = pc_mem st var)) \<and>
    (\<forall>i j gp gp' v v' len len'. i < n \<and> j < n \<and> set_local_pointer s e st' i = Ok gp \<and> set_local_pointer s e st' j = Ok gp' \<and>
        s \<le> v \<and> unat v + len \<le> unat e \<and> s \<le> v' \<and> unat v' + len' \<le> unat e \<and>
        (i \<noteq> j \<or> unat v + len \<le> unat v' \<or> unat v' + len' \<le> unat v) \<longrightarrow>
      {unat (pv_as_ptr s gp v)..<unat (pv_as_ptr s gp v) + len} \<inter> {unat (pv_as_ptr s gp' v')..<unat (pv_as_ptr s gp' v') + len'} = {})"
proof -
  obtain m where m: "percpu_init alloc s e n st = (Ok (), st\<lparr>pc_mem := m, pc_alloc := a, pc_global_area_base := Some p\<rparr>)"
      "\<forall>x. \<not> (unat p \<le> unat x \<and> unat x < unat p + unat (e - s) * unat n) \<longrightarrow> m x = pc_mem st x"
      "\<forall>i < n. \<forall>var. s \<le> var \<and> var < e \<longrightarrow> m (p + (e - s) * i + (var - s)) = pc_mem st var"
    using percpu_init_ok(2) [OF assms] by blast
  have gp: "set_local_pointer s e (st\<lparr>pc_mem := m, pc_alloc := a, pc_global_area_base := Some p\<rparr>) i = Ok (p + (e - s) * i)" for i
    by (simp add: set_local_pointer_def local_area_base_def global_area_base_def local_area_size_def)
  show ?thesis
  proof (intro exI [of _ "st\<lparr>pc_mem := m, pc_alloc := a, pc_global_area_base := Some p\<rparr>"] conjI)
    show "\<forall>i j gp gp' v v' len len'. i < n \<and> j < n \<and>
        set_local_pointer s e (st\<lparr>pc_mem := m, pc_alloc := a, pc_global_area_base := Some p\<rparr>) i = Ok gp \<and>
        set_local_pointer s e (st\<lparr>pc_mem := m, pc_alloc := a, pc_global_area_base := Some p\<rparr>) j = Ok gp' \<and>
        s \<le> v \<and> unat v + len \<le> unat e \<and> s \<le> v' \<and> unat v' + len' \<le> unat e \<and>
        (i \<noteq> j \<or> unat v + len \<le> unat v' \<or> unat v' + len' \<le> unat v) \<longrightarrow>
      {unat (pv_as_ptr s gp v)..<unat (pv_as_ptr s gp v) + len} \<inter> {unat (pv_as_ptr s gp' v')..<unat (pv_as_ptr s gp' v') + len'} = {}"
      using variables_apart [OF percpu_init_ok(1) [OF assms]] unfolding gp by blast
  qed (use m gp in \<open>simp_all add: pv_with_spec_ref_def pv_as_ptr_def pv_offset_def local_area_base_def global_area_base_def local_area_size_def\<close>)
qed

definition demo_percpu :: "nat percpu_state" where
  "demo_percpu = \<lparr>pc_mem = (\<lambda>a. of_nat (unat a mod 7)), pc_alloc = 0, pc_global_area_base = None\<rparr>"

theorem percpu_separate_witness:
  "\<exists>st' gp. percpu_init (\<lambda>n a. if n \<le> 0x10000 then Some (0x90000000, Suc a) else None) 0x80200000 0x80201000 4 demo_percpu = (Ok (), st') \<and>
     set_local_pointer 0x80200000 0x80201000 st' 3 = Ok gp \<and> pc_mem st' (pv_as_ptr 0x80200000 gp 0x80200010) = pc_mem demo_percpu 0x80200010"
proof -
  let ?al = "\<lambda>n a. if n \<le> (0x10000 :: usize) then Some (0x90000000 :: usize, Suc a) else None"
  have "alloc_apart ?al 0x80200000 0x80201000"
    by (auto simp: alloc_apart_def word_le_nat_alt split: if_splits)
  moreover have "(0x80200000 :: usize) \<le> 0x80201000" "unat (0x80201000 - 0x80200000 :: usize) * unat (4 :: usize) \<le> 2 ^ 63 - 4096"
    "pc_global_area_base demo_percpu = None" "?al ((0x80201000 - 0x80200000) * 4) (pc_alloc demo_percpu) = Some (0x90000000, 1)"
    by (simp_all add: demo_percpu_def)
  ultimately have "\<exists>st'. percpu_init ?al 0x80200000 0x80201000 4 demo_percpu = (Ok (), st') \<and>
    (\<forall>i < 4. \<exists>gp. set_local_pointer 0x80200000 0x80201000 st' i = Ok gp \<and> (\<forall>var. 0x80200000 \<le> var \<and> var < 0x80201000 \<longrightarrow>
      pv_with_spec_ref 0x80200000 0x80201000 st' i var = Ok (pv_as_ptr 0x80200000 gp var) \<and> pc_mem st' (pv_as_ptr 0x80200000 gp var) = pc_mem demo_percpu var))"
    using percpu_separate [of ?al "0x80200000" "0x80201000" 4 demo_percpu "0x90000000" 1] by blast
  then obtain st' where st: "percpu_init ?al 0x80200000 0x80201000 4 demo_percpu = (Ok (), st')"
    "\<forall>i < 4. \<exists>gp. set_local_pointer 0x80200000 0x80201000 st' i = Ok gp \<and> (\<forall>var. 0x80200000 \<le> var \<and> var < 0x80201000 \<longrightarrow>
      pv_with_spec_ref 0x80200000 0x80201000 st' i var = Ok (pv_as_ptr 0x80200000 gp var) \<and> pc_mem st' (pv_as_ptr 0x80200000 gp var) = pc_mem demo_percpu var)"
    by blast
  have "(3 :: usize) < 4" "(0x80200000 :: usize) \<le> 0x80200010 \<and> (0x80200010 :: usize) < 0x80201000" by simp_all
  with st show ?thesis by blast
qed

end
