(* ===== verification/Boot.thy ===== *)
theory Boot
  imports Hal Addr
begin

text \<open>
  Bringing up the processors, \<^verbatim>\<open>kern/src/main.rs\<close> and \<^verbatim>\<open>kern/src/arch/riscv/cpus.rs\<close>: the processors of the
  device tree are counted and all valid ones but the calling one are started through the firmware; each
  started processor waits until the first has initialised the kernel, and the first task waits until every
  processor has reported. A node of the device tree is given by the values its accessors return; the
  firmware and the allocator are parameters.
\<close>

section \<open>The processors of the device tree\<close>

record cpu_node =
  cn_name :: string
  cn_status :: "string option option"

definition starts_with :: "string \<Rightarrow> string \<Rightarrow> bool" where
  "starts_with p s \<longleftrightarrow> take (length p) s = p"

definition is_cpu :: "cpu_node \<Rightarrow> bool" where
  "is_cpu node \<longleftrightarrow> cn_name node = ''cpu'' \<or> starts_with ''cpu@'' (cn_name node)"

text \<open>The property \<^verbatim>\<open>status\<close> may be absent, or present without being a string.\<close>

definition is_valid_cpu :: "cpu_node \<Rightarrow> bool" where
  "is_valid_cpu node \<longleftrightarrow> is_cpu node \<and>
     \<not> (case cn_status node of Some (Some status) \<Rightarrow> status \<noteq> ''okay'' | _ \<Rightarrow> False)"

text \<open>The node \<^verbatim>\<open>/cpus\<close>: its timebase, absent or not readable as an integer, and its children.\<close>

record cpus_node =
  cs_timebase :: "usize option option"
  cs_children :: "cpu_node list"

definition cpus_init :: "cpus_node option \<Rightarrow> hal_state \<Rightarrow> unit res \<times> hal_state" where
  "cpus_init fdt h = (case fdt of
     Some node \<Rightarrow> (case cs_timebase node of
       Some (Some freq) \<Rightarrow> (Ok (), set_nproc_valid (of_nat (length (filter is_valid_cpu (cs_children node))))
         (set_nproc (of_nat (length (filter is_cpu (cs_children node)))) (set_timebase_freq freq h)))
     | _ \<Rightarrow> (Panicked, h))
   | None \<Rightarrow> (Panicked, h))"

text \<open>\<^verbatim>\<open>str::parse::<usize>\<close>: decimal digits after an optional plus sign, below \<^verbatim>\<open>2^64\<close>.\<close>

fun parse_digits :: "nat \<Rightarrow> string \<Rightarrow> nat option" where
  "parse_digits acc [] = Some acc"
| "parse_digits acc (c # cs) = (if 48 \<le> (of_char c :: nat) \<and> (of_char c :: nat) \<le> 57
     then parse_digits (acc * 10 + (of_char c - 48)) cs else None)"

definition parse_usize :: "string \<Rightarrow> usize option" where
  "parse_usize s = (let t = (if take 1 s = ''+'' then drop 1 s else s)
     in if t = [] then None else case parse_digits 0 t of None \<Rightarrow> None | Some n \<Rightarrow> if n < 2 ^ 64 then Some (of_nat n) else None)"

definition hart_id :: "cpu_node \<Rightarrow> usize option res" where
  "hart_id cpu = (if cn_name cpu = ''cpu'' then Ok (Some 0)
     else if starts_with ''cpu@'' (cn_name cpu) then bind_res (unwrap_opt (parse_usize (drop 4 (cn_name cpu)))) (\<lambda>i. Ok (Some i))
     else Ok None)"

text \<open>Starting the processors: \<open>alloc\<close> returns the base of a new kernel stack, \<open>hart_start\<close> is the call of the
  firmware with the processor, the entry point and the stack top as physical addresses; both may fail.\<close>

fun start_harts :: "('a \<Rightarrow> (usize \<times> 'a) option) \<Rightarrow> (usize \<Rightarrow> usize \<Rightarrow> usize \<Rightarrow> 's \<Rightarrow> 's option) \<Rightarrow> usize \<Rightarrow> VirtAddr \<Rightarrow>
  cpu_node list \<Rightarrow> 'a \<times> 's \<Rightarrow> unit res \<times> 'a \<times> 's" where
  "start_harts alloc hart_start me entry [] w = (Ok (), w)"
| "start_harts alloc hart_start me entry (cpu # cpus) (a, s) = (case hart_id cpu of
     Inl e \<Rightarrow> (Inl e, (a, s))
   | Inr None \<Rightarrow> start_harts alloc hart_start me entry cpus (a, s)
   | Inr (Some i) \<Rightarrow>
       if i = me then start_harts alloc hart_start me entry cpus (a, s)
       else case alloc a of
         None \<Rightarrow> (Panicked, (a, s))
       | Some (p, a') \<Rightarrow>
           (let stack_top = va_add (va_new p) KSTACK_SIZE
            in case hart_start i (pa_as_usize (to_phys entry)) (pa_as_usize (to_phys stack_top)) s of
                 None \<Rightarrow> (Panicked, (a', s))
               | Some s' \<Rightarrow> start_harts alloc hart_start me entry cpus (a', s')))"

definition cpus_start :: "bool \<Rightarrow> ('a \<Rightarrow> (usize \<times> 'a) option) \<Rightarrow> (usize \<Rightarrow> usize \<Rightarrow> usize \<Rightarrow> 's \<Rightarrow> 's option) \<Rightarrow> usize \<Rightarrow> VirtAddr \<Rightarrow>
  cpus_node option \<Rightarrow> 'a \<times> 's \<Rightarrow> unit res \<times> 'a \<times> 's" where
  "cpus_start hsm_available alloc hart_start me entry fdt w = (case fdt of
     None \<Rightarrow> (Panicked, w)
   | Some node \<Rightarrow>
       if hsm_available then start_harts alloc hart_start me entry (filter is_valid_cpu (cs_children node)) w
       else (Ok (), w))"

section \<open>The boot barrier\<close>

datatype BootState = Bootstrap | Ready usize

definition boot_set_ready :: "BootState \<Rightarrow> BootState" where
  "boot_set_ready b = (case b of Ready cnt \<Rightarrow> Ready (cnt + 1) | Bootstrap \<Rightarrow> Ready 1)"

text \<open>What a processor is about to do. The first processor starts the others, one call after the other
  (\<open>Booting\<close>), finishes its initialisation (\<open>Initializing\<close>), reports and waits in \<^verbatim>\<open>primary_task\<close>; a started one spins
  until the first has reported, initialises itself and reports.\<close>

datatype phase = Off | Booting "usize list" | Spinning | Initializing | Waiting | Released

text \<open>A panic on any processor shuts the machine down (\<^verbatim>\<open>hal!().halt\<close> in the panic handler), which ends the start-up.\<close>

datatype boot_world = Up BootState "usize \<Rightarrow> phase" | Shut_Down

text \<open>What the machine does with the requests of the start-up: whether the firmware has the HSM extension, for which processors a stack is
  allocated and \<^verbatim>\<open>hart_start\<close> succeeds, and on which ones \<^verbatim>\<open>jrinx_vmm::init\<close> and \<^verbatim>\<open>runtime::init\<close> succeed.\<close>

record boot_machine =
  bm_hsm :: bool
  bm_starts :: "usize \<Rightarrow> bool"
  bm_inits :: "usize \<Rightarrow> bool"

text \<open>The loop conditions: \<^verbatim>\<open>while let Bootstrap\<close> of \<^verbatim>\<open>secondary_init\<close>, and \<^verbatim>\<open>while let Ready(count)\<close> of
  \<^verbatim>\<open>primary_task\<close> with its break.\<close>

definition secondary_leaves :: "BootState \<Rightarrow> bool" where
  "secondary_leaves b \<longleftrightarrow> b \<noteq> Bootstrap"

definition primary_leaves :: "hal_state \<Rightarrow> BootState \<Rightarrow> bool" where
  "primary_leaves h b \<longleftrightarrow> (case b of Ready cnt \<Rightarrow> cnt = nproc_valid h | Bootstrap \<Rightarrow> True)"

inductive boot_step :: "boot_machine \<Rightarrow> hal_state \<Rightarrow> usize \<Rightarrow> boot_world \<Rightarrow> boot_world \<Rightarrow> bool" for M h me where
  start: "pc me = Booting (i # ids) \<Longrightarrow> bm_starts M i \<Longrightarrow> pc i = Off \<Longrightarrow> boot_step M h me (Up b pc) (Up b (pc(me := Booting ids, i := Spinning)))"
| start_fails: "pc me = Booting (i # ids) \<Longrightarrow> \<not> bm_starts M i \<or> pc i \<noteq> Off \<Longrightarrow> boot_step M h me (Up b pc) Shut_Down"
| init: "pc me = Booting [] \<Longrightarrow> boot_step M h me (Up b pc) (Up b (pc(me := Initializing)))"
| primary_ready: "pc me = Initializing \<Longrightarrow> bm_inits M me \<Longrightarrow> boot_step M h me (Up b pc) (Up (boot_set_ready b) (pc(me := Waiting)))"
| primary_go: "pc me = Waiting \<Longrightarrow> primary_leaves h b \<Longrightarrow> boot_step M h me (Up b pc) (Up b (pc(me := Released)))"
| secondary_go: "i \<noteq> me \<Longrightarrow> pc i = Spinning \<Longrightarrow> secondary_leaves b \<Longrightarrow> boot_step M h me (Up b pc) (Up b (pc(i := Initializing)))"
| secondary_ready: "i \<noteq> me \<Longrightarrow> pc i = Initializing \<Longrightarrow> bm_inits M i \<Longrightarrow> boot_step M h me (Up b pc) (Up (boot_set_ready b) (pc(i := Released)))"
| init_fails: "pc i = Initializing \<Longrightarrow> \<not> bm_inits M i \<Longrightarrow> boot_step M h me (Up b pc) Shut_Down"

inductive_cases boot_stepE: "boot_step M h me x y"

text \<open>The processors that \<^verbatim>\<open>cpus::start\<close> goes through: none without the extension.\<close>

definition hsm_harts :: "boot_machine \<Rightarrow> usize list \<Rightarrow> usize list" where
  "hsm_harts M ids = (if bm_hsm M then ids else [])"

definition boot_begin :: "boot_machine \<Rightarrow> usize \<Rightarrow> usize list \<Rightarrow> boot_world" where
  "boot_begin M me ids = Up Bootstrap ((\<lambda>_. Off)(me := Booting (hsm_harts M ids)))"

section \<open>The barrier holds\<close>

definition released :: "(usize \<Rightarrow> phase) \<Rightarrow> usize list \<Rightarrow> nat" where
  "released pc ids = length (filter (\<lambda>i. pc i = Released) ids)"

lemma released_upd:
  assumes "distinct ids" "i \<in> set ids" "pc i \<noteq> Released"
  shows "released (pc(i := Released)) ids = Suc (released pc ids)"
  using assms
proof (induction ids)
  case (Cons j ids)
  show ?case
  proof (cases "i = j")
    case True
    then have "filter (\<lambda>k. (pc(i := Released)) k = Released) ids = filter (\<lambda>k. pc k = Released) ids"
      using Cons.prems(1) by (intro filter_cong) auto
    then show ?thesis using True Cons.prems(3) by (simp add: released_def)
  next
    case False
    then show ?thesis using Cons by (auto simp: released_def)
  qed
qed simp

lemma released_same: "x \<noteq> Released \<Longrightarrow> pc i \<noteq> Released \<Longrightarrow> released (pc(i := x)) ids = released pc ids"
  unfolding released_def by (rule arg_cong [where f = length], rule filter_cong) auto

lemma released_other: "i \<notin> set ids \<Longrightarrow> released (pc(i := x)) ids = released pc ids"
  unfolding released_def by (rule arg_cong [where f = length], rule filter_cong) auto

lemma released_le: "released pc ids \<le> length ids"
  by (simp add: released_def)

lemma released_all: "released pc ids = length ids \<longleftrightarrow> (\<forall>i\<in>set ids. pc i = Released)"
proof
  assume l: "released pc ids = length ids"
  show "\<forall>i\<in>set ids. pc i = Released"
  proof (rule ccontr)
    assume "\<not> (\<forall>i\<in>set ids. pc i = Released)"
    then obtain i where "i \<in> set ids" "pc i \<noteq> Released" by blast
    then show False using l length_filter_less [of i ids "\<lambda>i. pc i = Released"] by (simp add: released_def)
  qed
qed (simp add: released_def)

text \<open>While the first processor boots, a prefix of the others has been started; afterwards the state word
  counts the processors that have reported.\<close>

fun boot_inv :: "boot_machine \<Rightarrow> usize \<Rightarrow> usize list \<Rightarrow> boot_world \<Rightarrow> bool" where
  "boot_inv M me ids (Up b pc) \<longleftrightarrow> (\<forall>i. i \<noteq> me \<longrightarrow> i \<notin> set ids \<longrightarrow> pc i = Off) \<and>
     (case pc me of
        Booting rest \<Rightarrow> b = Bootstrap \<and> (\<exists>pre. ids = pre @ rest \<and> (\<forall>i\<in>set pre. pc i = Spinning) \<and> (\<forall>i\<in>set rest. pc i = Off))
      | Initializing \<Rightarrow> b = Bootstrap \<and> (\<forall>i\<in>set ids. pc i = Spinning)
      | Waiting \<Rightarrow> b = Ready (of_nat (Suc (released pc ids))) \<and> (\<forall>i\<in>set ids. pc i \<in> {Spinning, Initializing, Released})
      | Released \<Rightarrow> b = Ready (of_nat (Suc (released pc ids))) \<and> (\<forall>i\<in>set ids. pc i = Released)
      | _ \<Rightarrow> False)"
| "boot_inv M me ids Shut_Down \<longleftrightarrow> (\<exists>i\<in>set ids. \<not> bm_starts M i) \<or> (\<exists>i\<in>insert me (set ids). \<not> bm_inits M i)"

lemma boot_inv_start: "me \<notin> set ids \<Longrightarrow> boot_inv M me ids (Up Bootstrap ((\<lambda>_. Off)(me := Booting ids)))"
  by auto

text \<open>The first task leaves only when as many processors have reported as the device tree has, which are at least those
  that are started.\<close>

lemma primary_go_all:
  assumes "nproc_valid h = of_nat n" "Suc (length ids) \<le> n" "n < 2 ^ 64" "boot_inv M me ids (Up b pc)" "pc me = Waiting" "primary_leaves h b"
  shows "released pc ids = length ids" "n = Suc (length ids)"
proof -
  have "of_nat (Suc (released pc ids)) = (of_nat n :: usize)" using assms(1,4-6) by (simp add: primary_leaves_def)
  then have "unat (of_nat (Suc (released pc ids)) :: usize) = unat (of_nat n :: usize)" by (rule arg_cong)
  then have "Suc (released pc ids) = n"
    using assms(2,3) released_le [of pc ids] by (simp add: unat_of_nat take_bit_nat_eq_self del: of_nat_Suc)
  then show "released pc ids = length ids" "n = Suc (length ids)" using assms(2) released_le [of pc ids] by simp_all
qed

lemma boot_inv_step:
  assumes "distinct ids" "me \<notin> set ids" and n: "nproc_valid h = of_nat n" "Suc (length ids) \<le> n" "n < 2 ^ 64"
    and inv: "boot_inv M me ids x" and step: "boot_step M h me x y"
  shows "boot_inv M me ids y"
  using step inv
proof cases
  case (start pc i rest b)
  then obtain pre where pre: "ids = pre @ i # rest" "\<forall>j\<in>set pre. pc j = Spinning" "\<forall>j\<in>set (i # rest). pc j = Off" "b = Bootstrap"
    using inv by auto
  have "i \<noteq> me" "i \<notin> set pre" "i \<notin> set rest" "me \<notin> set pre" "me \<notin> set rest" using pre(1) assms(1,2) by auto
  then show ?thesis using start inv pre by (auto intro!: exI [of _ "pre @ [i]"])
next
  case (start_fails pc i rest b)
  then have "i \<in> set ids" "pc i = Off" using inv by auto
  then show ?thesis using start_fails by auto
next
  case (init pc b)
  then show ?thesis using assms(2) inv by auto
next
  case (primary_ready pc b)
  then have "released (pc(me := Waiting)) ids = 0" using assms(2) inv by (auto simp: released_def filter_empty_conv)
  then show ?thesis using primary_ready assms(2) inv by (auto simp: boot_set_ready_def)
next
  case (primary_go pc b)
  have "released pc ids = length ids" using primary_go_all(1) [OF n] inv primary_go by blast
  then have "\<forall>i\<in>set ids. pc i = Released" by (simp add: released_all)
  then show ?thesis using primary_go assms(2) inv by (auto simp: released_other)
next
  case (secondary_go i pc b)
  then have "i \<in> set ids" using inv by (cases "i \<in> set ids") auto
  moreover have "pc me = Waiting" using secondary_go calculation inv by (auto simp: secondary_leaves_def split: phase.splits)
  ultimately show ?thesis using secondary_go inv by (auto simp: released_same)
next
  case (secondary_ready i pc b)
  then have i: "i \<in> set ids" using inv by (cases "i \<in> set ids") auto
  have "pc me = Waiting" using secondary_ready i inv by (auto split: phase.splits)
  then show ?thesis using secondary_ready i assms(1) inv by (auto simp: released_upd boot_set_ready_def)
next
  case (init_fails pc i b)
  then have "i = me \<or> i \<in> set ids" using inv by (cases "i \<in> set ids") auto
  then show ?thesis using init_fails by auto
qed

lemma boot_inv_reachable:
  assumes "distinct ids" "me \<notin> set ids" "nproc_valid h = of_nat n" "Suc (length ids) \<le> n" "n < 2 ^ 64"
    and "(boot_step M h me)\<^sup>*\<^sup>* (Up Bootstrap ((\<lambda>_. Off)(me := Booting ids))) x"
  shows "boot_inv M me ids x"
  using assms(6)
proof induction
  case base
  then show ?case using assms(2) by (rule boot_inv_start)
next
  case (step y z)
  then show ?case using boot_inv_step [OF assms(1-5)] by blast
qed

text \<open>When fewer processors are started than the device tree has, the first task never leaves.\<close>

lemma boot_never_released:
  assumes "distinct ids" "me \<notin> set ids" "nproc_valid h = of_nat n" "Suc (length ids) < n" "n < 2 ^ 64"
    and "(boot_step M h me)\<^sup>*\<^sup>* (Up Bootstrap ((\<lambda>_. Off)(me := Booting ids))) x"
  shows "x = Up b pc \<Longrightarrow> pc me \<noteq> Released"
  using assms(6)
proof (induction arbitrary: b pc)
  case (step y z)
  have le: "Suc (length ids) \<le> n" using assms(4) by simp
  have inv: "boot_inv M me ids y" by (rule boot_inv_reachable [OF assms(1-3) le assms(5) step.hyps(1)])
  have go: False if "y = Up c q" "q me = Waiting" "primary_leaves h c" for c q
    using primary_go_all(2) [OF assms(3) le assms(5)] inv that assms(4) by blast
  from step.hyps(2) show ?case
  proof cases
    case (start q i rest c)
    then show ?thesis using step by (auto split: if_splits)
  qed (use step go in auto)
qed auto

text \<open>Every step brings the end nearer: what is left for the first processor and for the others to do.\<close>

fun primary_left :: "phase \<Rightarrow> nat" where
  "primary_left (Booting ids) = 3 + length ids"
| "primary_left Initializing = 2"
| "primary_left Waiting = 1"
| "primary_left _ = 0"

fun secondary_left :: "phase \<Rightarrow> nat" where
  "secondary_left Off = 2"
| "secondary_left Spinning = 2"
| "secondary_left Initializing = 1"
| "secondary_left _ = 0"

fun boot_work :: "usize \<Rightarrow> usize list \<Rightarrow> boot_world \<Rightarrow> nat" where
  "boot_work me ids (Up b pc) = primary_left (pc me) + (\<Sum>i\<leftarrow>ids. secondary_left (pc i))"
| "boot_work me ids Shut_Down = 0"

lemma sum_list_upd:
  fixes f :: "phase \<Rightarrow> nat"
  assumes "distinct ids" "i \<in> set ids"
  shows "(\<Sum>j\<leftarrow>ids. f (if j = i then x else pc j)) + f (pc i) = (\<Sum>j\<leftarrow>ids. f (pc j)) + f x"
  using assms
proof (induction ids)
  case (Cons k ids)
  show ?case
  proof (cases "i = k")
    case True
    then have "(\<Sum>j\<leftarrow>ids. f (if j = i then x else pc j)) = (\<Sum>j\<leftarrow>ids. f (pc j))"
      using Cons.prems(1) by (intro arg_cong [where f = sum_list] map_cong) auto
    then show ?thesis using True by simp
  next
    case False
    then show ?thesis using Cons by auto
  qed
qed simp

lemma sum_list_same:
  fixes f :: "phase \<Rightarrow> nat"
  shows "i \<notin> set ids \<Longrightarrow> (\<Sum>j\<leftarrow>ids. f (if j = i then x else pc j)) = (\<Sum>j\<leftarrow>ids. f (pc j))"
  by (intro arg_cong [where f = sum_list] map_cong) auto

lemma sum_list_pos:
  fixes f :: "usize \<Rightarrow> nat"
  shows "i \<in> set ids \<Longrightarrow> 0 < f i \<Longrightarrow> 0 < (\<Sum>j\<leftarrow>ids. f j)"
  by (induction ids) auto

lemma boot_work_step:
  assumes "distinct ids" "me \<notin> set ids" and inv: "boot_inv M me ids x" and step: "boot_step M h me x y"
  shows "boot_work me ids y < boot_work me ids x"
  using step inv
proof cases
  case (start pc i rest b)
  then have i: "i \<in> set ids" "i \<noteq> me" using assms(2) inv by auto
  have "(\<Sum>j\<leftarrow>ids. secondary_left ((pc(me := Booting rest, i := Spinning)) j)) = (\<Sum>j\<leftarrow>ids. secondary_left ((pc(me := Booting rest)) j))"
    using sum_list_upd [OF assms(1) i(1), of secondary_left Spinning "pc(me := Booting rest)"] start i by simp
  then show ?thesis using start i sum_list_same [OF assms(2)] by simp
next
  case (secondary_go i pc b)
  then have i: "i \<in> set ids" using inv by (cases "i \<in> set ids") auto
  show ?thesis using secondary_go sum_list_upd [OF assms(1) i, of secondary_left Initializing pc] by simp
next
  case (secondary_ready i pc b)
  then have i: "i \<in> set ids" using inv by (cases "i \<in> set ids") auto
  show ?thesis using secondary_ready sum_list_upd [OF assms(1) i, of secondary_left Released pc] by simp
next
  case (init_fails pc i b)
  show ?thesis
  proof (cases "i \<in> set ids")
    case True
    then have "0 < (\<Sum>j\<leftarrow>ids. secondary_left (pc j))" using init_fails by (intro sum_list_pos [of i]) simp_all
    then show ?thesis using init_fails by simp
  next
    case False
    then have "i = me" using init_fails inv by auto
    then show ?thesis using init_fails by simp
  qed
qed (use sum_list_same [OF assms(2)] in simp_all)

lemma boot_progress:
  assumes "distinct ids" "me \<notin> set ids" "nproc_valid h = of_nat (Suc (length ids))" and inv: "boot_inv M me ids (Up b pc)" and "pc me \<noteq> Released"
  shows "\<exists>y. boot_step M h me (Up b pc) y"
proof (cases "pc me")
  case (Booting rest)
  then show ?thesis using boot_step.start [of pc me _ _ M h b] boot_step.start_fails [of pc me _ _ M h b] boot_step.init [of pc me M h b]
    by (cases rest) blast+
next
  case Initializing
  then show ?thesis using boot_step.primary_ready [of pc me M h b] boot_step.init_fails [of pc me M h me b] by blast
next
  case Waiting
  then have b: "b = Ready (of_nat (Suc (released pc ids)))" "\<forall>i\<in>set ids. pc i \<in> {Spinning, Initializing, Released}" using inv by simp_all
  show ?thesis
  proof (cases "\<forall>i\<in>set ids. pc i = Released")
    case True
    then have "primary_leaves h b" using b(1) assms(3) by (simp add: primary_leaves_def flip: released_all)
    then show ?thesis using Waiting by (auto intro: boot_step.primary_go)
  next
    case False
    then obtain i where i: "i \<in> set ids" "pc i \<noteq> Released" by blast
    then have "i \<noteq> me" "pc i = Spinning \<or> pc i = Initializing" using assms(2) b(2) by auto
    moreover have "secondary_leaves b" using b(1) by (simp add: secondary_leaves_def)
    ultimately show ?thesis
      using boot_step.secondary_go [of i me pc b M h] boot_step.secondary_ready [of i me pc M h b] boot_step.init_fails [of pc i M h me b] by blast
  qed
qed (use inv assms(5) in auto)

lemma boot_steps_bounded:
  assumes "distinct ids" "me \<notin> set ids" "nproc_valid h = of_nat n" "Suc (length ids) \<le> n" "n < 2 ^ 64"
    and "(boot_step M h me ^^ k) (Up Bootstrap ((\<lambda>_. Off)(me := Booting ids))) x"
  shows "k + boot_work me ids x \<le> 3 * Suc (length ids)"
  using assms(6)
proof (induction k arbitrary: x)
  case 0
  have "(\<Sum>i\<leftarrow>ids. secondary_left (if i = me then Booting ids else Off)) = (\<Sum>i\<leftarrow>ids. secondary_left Off)"
    by (rule sum_list_same [OF assms(2)])
  moreover have "x = Up Bootstrap ((\<lambda>_. Off)(me := Booting ids))" using 0 by (auto simp: fun_upd_def)
  ultimately show ?case by (simp add: sum_list_triv)
next
  case (Suc k)
  from Suc.prems obtain z where z: "(boot_step M h me ^^ k) (Up Bootstrap ((\<lambda>_. Off)(me := Booting ids))) z" "boot_step M h me z x"
    by (rule relpowp_Suc_E)
  then have "boot_inv M me ids z" using boot_inv_reachable [OF assms(1-5)] relpowp_imp_rtranclp by metis
  then show ?case using Suc.IH [OF z(1)] boot_work_step [OF assms(1,2) _ z(2)] by linarith
qed

section \<open>Properties\<close>

text \<open>The processors that a device tree names, as the boot code reads them.\<close>

definition names_harts :: "cpus_node \<Rightarrow> usize list \<Rightarrow> bool" where
  "names_harts node hs \<longleftrightarrow> map hart_id (filter is_valid_cpu (cs_children node)) = map (\<lambda>i. Ok (Some i)) hs"

text \<open>With memory for the stacks and a firmware that accepts every call, here one that writes the calls down,
  exactly the valid processors other than the calling one are started, in the order of the device tree,
  each with its own stack.\<close>

lemma start_harts_calls:
  assumes "\<And>a. alloc a \<noteq> None" "map hart_id cpus = map (\<lambda>i. Ok (Some i)) ids"
  shows "\<exists>tops a'. start_harts alloc (\<lambda>i e t calls. Some (calls @ [(i, e, t)])) me entry cpus (a, calls) =
      (Ok (), a', calls @ map (\<lambda>(i, t). (i, pa_as_usize (to_phys entry), t)) (zip (filter (\<lambda>i. i \<noteq> me) ids) tops)) \<and>
    length tops = length (filter (\<lambda>i. i \<noteq> me) ids)"
  using assms(2)
proof (induction cpus arbitrary: ids a calls)
  case Nil
  then show ?case by auto
next
  case (Cons cpu cpus)
  then obtain i js where ids: "ids = i # js" "hart_id cpu = Ok (Some i)" "map hart_id cpus = map (\<lambda>i. Ok (Some i)) js" by (cases ids) auto
  show ?case
  proof (cases "i = me")
    case True
    then show ?thesis using Cons.IH [OF ids(3), of a calls] ids by simp
  next
    case False
    obtain p a1 where "alloc a = Some (p, a1)" using assms(1) by (metis not_None_eq surj_pair)
    moreover obtain tops a' where "start_harts alloc (\<lambda>i e t calls. Some (calls @ [(i, e, t)])) me entry cpus
        (a1, calls @ [(i, pa_as_usize (to_phys entry), pa_as_usize (to_phys (va_add (va_new p) KSTACK_SIZE)))]) =
      (Ok (), a', calls @ [(i, pa_as_usize (to_phys entry), pa_as_usize (to_phys (va_add (va_new p) KSTACK_SIZE)))] @
        map (\<lambda>(i, t). (i, pa_as_usize (to_phys entry), t)) (zip (filter (\<lambda>i. i \<noteq> me) js) tops))"
      "length tops = length (filter (\<lambda>i. i \<noteq> me) js)"
      using Cons.IH [OF ids(3), of a1 "calls @ [(i, pa_as_usize (to_phys entry), pa_as_usize (to_phys (va_add (va_new p) KSTACK_SIZE)))]"]
      unfolding append_assoc by blast
    ultimately show ?thesis using ids False
      by (intro exI [of _ "pa_as_usize (to_phys (va_add (va_new p) KSTACK_SIZE)) # tops"] exI [of _ a']) (simp add: Let_def)
  qed
qed

lemma boot_inv_waits:
  "boot_inv M me ids (Up b pc) \<Longrightarrow> i \<in> set ids \<Longrightarrow> pc i \<in> {Initializing, Released} \<Longrightarrow> pc me \<in> {Waiting, Released}"
  by (cases "pc me") auto

lemma boot_counts:
  assumes "names_harts node hs" "distinct hs" "me \<in> set hs" "CPU_VALID_COUNT h0 = None" "cpus_init (Some node) h0 = (Ok (), h)"
  shows "Suc (length (filter (\<lambda>i. i \<noteq> me) hs)) = length hs" "nproc_valid h = of_nat (length hs)"
proof -
  have "length (filter (\<lambda>i. i = me) hs) = 1" using assms(2,3)
    by (induction hs) (auto simp: filter_empty_conv)
  then show "Suc (length (filter (\<lambda>i. i \<noteq> me) hs)) = length hs" using sum_length_filter_compl [of "\<lambda>i. i = me" hs] by simp
  have "length (filter is_valid_cpu (cs_children node)) = length hs"
    using assms(1) unfolding names_harts_def by (metis length_map)
  then show "nproc_valid h = of_nat (length hs)" using assms(4,5)
    by (auto simp: cpus_init_def set_nproc_valid_def set_nproc_def set_timebase_freq_def call_once_def nproc_valid_def split: option.splits)
qed

text \<open>C30. The boot barrier. On a machine whose valid processors have distinct decimal numbers, the calling one
  among them, and whose counts were taken by \<^verbatim>\<open>cpus::init\<close>: however the processors interleave, no processor
  initialises itself before the first has finished initialising the kernel, and the first task proceeds
  only when every valid processor has reported. The start-up takes at most three steps per processor, the
  waiting aside. It ends in a shutdown only when the firmware refuses to start a processor (or there is no
  memory for its stack) or the initialisation of one fails; and when the firmware can start processors (the
  HSM extension), or there is only one, no state is stuck before the first task proceeds. Without the
  extension the other processors are never started, and with more than one valid processor the first task
  then waits for ever.\<close>

theorem boot_barrier:
  assumes "names_harts node hs" "distinct hs" "me \<in> set hs" "length hs < 2 ^ 64"
    and "CPU_VALID_COUNT h0 = None" "cpus_init (Some node) h0 = (Ok (), h)"
    and "(boot_step M h me ^^ k) (boot_begin M me (filter (\<lambda>i. i \<noteq> me) hs)) x"
  shows "k \<le> 3 * length hs \<and>
    (case x of
       Shut_Down \<Rightarrow> bm_hsm M \<and> (\<exists>i\<in>set hs. i \<noteq> me \<and> \<not> bm_starts M i) \<or> (\<exists>i\<in>set hs. (bm_hsm M \<or> i = me) \<and> \<not> bm_inits M i)
     | Up b pc \<Rightarrow>
        (pc me = Released \<longrightarrow> (\<forall>i\<in>set hs. pc i = Released)) \<and>
        (\<forall>i\<in>set hs. i \<noteq> me \<and> pc i \<in> {Initializing, Released} \<longrightarrow> pc me \<in> {Waiting, Released}) \<and>
        (if bm_hsm M \<or> hs = [me] then pc me \<noteq> Released \<longrightarrow> (\<exists>y. boot_step M h me (Up b pc) y)
         else pc me \<noteq> Released \<and> (\<forall>i. i \<noteq> me \<longrightarrow> pc i = Off)))"
proof -
  let ?all = "filter (\<lambda>i. i \<noteq> me) hs" and ?ids = "hsm_harts M (filter (\<lambda>i. i \<noteq> me) hs)"
  have ids: "distinct ?ids" "me \<notin> set ?ids" using assms(2) by (auto simp: hsm_harts_def)
  note count = boot_counts [OF assms(1-3,5,6)]
  have le: "Suc (length ?ids) \<le> length hs" using count(1) by (simp add: hsm_harts_def)
  have x: "(boot_step M h me ^^ k) (Up Bootstrap ((\<lambda>_. Off)(me := Booting ?ids))) x" using assms(7) by (simp add: boot_begin_def)
  note x' = relpowp_imp_rtranclp [OF x]
  have inv: "boot_inv M me ?ids x" by (rule boot_inv_reachable [OF ids count(2) le assms(4) x'])
  have k: "k \<le> 3 * length hs" using boot_steps_bounded [OF ids count(2) le assms(4) x] le by simp
  have me: "hs = [me]" if "length hs = 1" using that assms(3) by (cases hs) auto
  show ?thesis
  proof (cases x)
    case Shut_Down
    then show ?thesis using inv k assms(3) by (auto simp: hsm_harts_def split: if_splits)
  next
    case (Up b pc)
    have waits: "\<forall>i\<in>set hs. i \<noteq> me \<and> pc i \<in> {Initializing, Released} \<longrightarrow> pc me \<in> {Waiting, Released}"
      using inv boot_inv_waits [of M me ?ids b pc] by (auto simp: Up hsm_harts_def split: if_splits)
    show ?thesis
    proof (cases "bm_hsm M \<or> hs = [me]")
      case True
      then have all: "?ids = ?all" by (auto simp: hsm_harts_def)
      have "nproc_valid h = of_nat (Suc (length ?ids))" using count all by simp
      then have "pc me \<noteq> Released \<longrightarrow> (\<exists>y. boot_step M h me (Up b pc) y)" using boot_progress [OF ids] inv Up by blast
      moreover have "pc me = Released \<longrightarrow> (\<forall>i\<in>set hs. pc i = Released)" using inv unfolding all Up by auto
      ultimately show ?thesis using True waits k Up by simp
    next
      case False
      then have none: "?ids = []" by (simp add: hsm_harts_def)
      have "length hs \<noteq> 1" using me False by blast
      then have "Suc (length ?ids) < length hs" using le none by simp
      then have "pc me \<noteq> Released" using boot_never_released [OF ids count(2) _ assms(4) x' Up] by blast
      moreover have "\<forall>i. i \<noteq> me \<longrightarrow> pc i = Off" using inv unfolding none Up by simp
      ultimately show ?thesis using False waits k Up by simp
    qed
  qed
qed

definition demo_cpus :: cpus_node where
  "demo_cpus = \<lparr>cs_timebase = Some (Some 10000000), cs_children =
     [\<lparr>cn_name = ''cpu@0'', cn_status = Some (Some ''okay'')\<rparr>, \<lparr>cn_name = ''cpu@1'', cn_status = None\<rparr>,
      \<lparr>cn_name = ''cpu@2'', cn_status = Some (Some ''disabled'')\<rparr>, \<lparr>cn_name = ''cpu-map'', cn_status = None\<rparr>]\<rparr>"

definition demo_boot_machine :: boot_machine where
  "demo_boot_machine = \<lparr>bm_hsm = True, bm_starts = (\<lambda>_. True), bm_inits = (\<lambda>_. True)\<rparr>"

theorem boot_barrier_witness:
  "\<exists>h. cpus_init (Some demo_cpus) \<lparr>CPU_COUNT = None, CPU_VALID_COUNT = None, CPU_TIMEBASE_FREQ = None\<rparr> = (Ok (), h) \<and>
     (\<exists>y. boot_step demo_boot_machine h 0 (boot_begin demo_boot_machine 0 [1]) y) \<and>
     (\<forall>k b pc. (boot_step (demo_boot_machine\<lparr>bm_hsm := False\<rparr>) h 0 ^^ k) (boot_begin (demo_boot_machine\<lparr>bm_hsm := False\<rparr>) 0 [1]) (Up b pc) \<longrightarrow> pc 0 \<noteq> Released)"
proof -
  let ?h0 = "\<lparr>CPU_COUNT = None, CPU_VALID_COUNT = None, CPU_TIMEBASE_FREQ = None\<rparr>" and ?M = "demo_boot_machine\<lparr>bm_hsm := False\<rparr>"
  obtain h where h: "cpus_init (Some demo_cpus) ?h0 = (Ok (), h)" by (simp add: cpus_init_def demo_cpus_def)
  have n: "names_harts demo_cpus [0, 1]"
    by (simp add: names_harts_def demo_cpus_def is_valid_cpu_def is_cpu_def starts_with_def hart_id_def parse_usize_def)
  have s: "(boot_step demo_boot_machine h 0 ^^ 0) (boot_begin demo_boot_machine 0 (filter (\<lambda>i. i \<noteq> 0) [0, 1])) (Up Bootstrap ((\<lambda>_. Off)(0 := Booting [1])))"
    by (simp add: boot_begin_def hsm_harts_def demo_boot_machine_def)
  have "\<exists>y. boot_step demo_boot_machine h 0 (Up Bootstrap ((\<lambda>_. Off)(0 := Booting [1]))) y"
    using boot_barrier [OF n _ _ _ _ h s] by (simp add: demo_boot_machine_def)
  then have "\<exists>y. boot_step demo_boot_machine h 0 (boot_begin demo_boot_machine 0 [1]) y" by (simp add: boot_begin_def hsm_harts_def demo_boot_machine_def)
  moreover have "pc 0 \<noteq> Released" if "(boot_step ?M h 0 ^^ k) (boot_begin ?M 0 [1]) (Up b pc)" for k b pc
  proof -
    have "(boot_step ?M h 0 ^^ k) (boot_begin ?M 0 (filter (\<lambda>i. i \<noteq> 0) [0, 1])) (Up b pc)" using that by simp
    from boot_barrier [OF n _ _ _ _ h this] show ?thesis by simp
  qed
  ultimately show ?thesis using h by blast
qed

end
