(* ===== verification/Uart.thy ===== *)
theory Uart
  imports Jrinx_Prelude
begin

text \<open>
  The serial port driver, \<^verbatim>\<open>kern/modules/driver/src/uart/ns16550a.rs\<close>. The device is a parameter: what a read of
  a register returns and does, and what a write does. Registers are numbered by their offset, which is the
  position of the field in the driver's \<^verbatim>\<open>repr(C)\<close> structure. Sending waits for the device; as it may never be
  ready, the operations that send return an option.
\<close>

unbundle bit_operations_syntax

section \<open>The code\<close>

record 'd uart_api =
  rd_reg :: "nat \<Rightarrow> 'd \<Rightarrow> u8 \<times> 'd"
  wr_reg :: "nat \<Rightarrow> u8 \<Rightarrow> 'd \<Rightarrow> 'd"

definition IntEn_RECEIVED :: u8 where "IntEn_RECEIVED = 1"
definition INPUT_FULL :: u8 where "INPUT_FULL = 1"
definition OUTPUT_EMPTY :: u8 where "OUTPUT_EMPTY = push_bit 5 1"

text \<open>The fields of \<^verbatim>\<open>NS16550Inner\<close> in their order.\<close>

definition reg_data :: nat where "reg_data = 0"
definition reg_interrupt_enable :: nat where "reg_interrupt_enable = 1"
definition reg_line_control :: nat where "reg_line_control = 2"
definition reg_fifo_control :: nat where "reg_fifo_control = 3"
definition reg_modem_control :: nat where "reg_modem_control = 4"
definition reg_line_status :: nat where "reg_line_status = 5"

lemmas reg_defs = reg_data_def reg_interrupt_enable_def reg_line_control_def reg_fifo_control_def
  reg_modem_control_def reg_line_status_def

text \<open>\<^verbatim>\<open>from_bits_truncate\<close> keeps the two named flags.\<close>

definition ns_line_status :: "'d uart_api \<Rightarrow> 'd \<Rightarrow> u8 \<times> 'd" where
  "ns_line_status api d = (case rd_reg api reg_line_status d of (v, d') \<Rightarrow> (v AND (INPUT_FULL OR OUTPUT_EMPTY), d'))"

definition sts_contains :: "u8 \<Rightarrow> u8 \<Rightarrow> bool" where
  "sts_contains flags f \<longleftrightarrow> flags AND f = f"

definition ns_init :: "'d uart_api \<Rightarrow> 'd \<Rightarrow> unit res \<times> 'd" where
  "ns_init api d = (Ok (), wr_reg api reg_interrupt_enable IntEn_RECEIVED (wr_reg api reg_modem_control 0
     (wr_reg api reg_line_control 3 (wr_reg api reg_fifo_control 0 d))))"

definition ns_inner_read :: "'d uart_api \<Rightarrow> 'd \<Rightarrow> u8 option \<times> 'd" where
  "ns_inner_read api d = (case ns_line_status api d of (sts, d1) \<Rightarrow>
     if sts_contains sts INPUT_FULL then (case rd_reg api reg_data d1 of (v, d2) \<Rightarrow> (Some v, d2))
     else (None, d1))"

partial_function (option) ns_wait :: "'d uart_api \<Rightarrow> 'd \<Rightarrow> 'd option" where
  "ns_wait api d = (case ns_line_status api d of (sts, d') \<Rightarrow>
     if sts_contains sts OUTPUT_EMPTY then Some d' else ns_wait api d')"

definition ns_inner_write :: "'d uart_api \<Rightarrow> u8 \<Rightarrow> 'd \<Rightarrow> (unit res \<times> 'd) option" where
  "ns_inner_write api v d = (case ns_wait api d of None \<Rightarrow> None | Some d' \<Rightarrow> Some (Ok (), wr_reg api reg_data v d'))"

record 'd NS16550a =
  ns_inner :: 'd
  ns_buffer :: "u8 list"

text \<open>\<^verbatim>\<open>Mmio::<u8>::from_base_as\<close> asserts that the base is a multiple of one.\<close>

definition ns_new :: "'d uart_api \<Rightarrow> usize \<Rightarrow> 'd \<Rightarrow> 'd NS16550a res" where
  "ns_new api base d = (if base mod 1 \<noteq> 0 then Panicked
     else case ns_init api d of (r, d') \<Rightarrow> bind_res (unwrap_res r) (\<lambda>_. Ok \<lparr>ns_inner = d', ns_buffer = []\<rparr>))"

definition ns_write :: "'d uart_api \<Rightarrow> u8 \<Rightarrow> 'd NS16550a \<Rightarrow> (unit res \<times> 'd NS16550a) option" where
  "ns_write api v u = (case ns_inner_write api v (ns_inner u) of None \<Rightarrow> None | Some (r, d) \<Rightarrow> Some (r, u\<lparr>ns_inner := d\<rparr>))"

fun ns_write_str :: "'d uart_api \<Rightarrow> u8 list \<Rightarrow> 'd NS16550a \<Rightarrow> (unit res \<times> 'd NS16550a) option" where
  "ns_write_str api [] u = Some (Ok (), u)"
| "ns_write_str api (b # bs) u =
     (if b = 10 then
        case ns_write api 13 u of
          None \<Rightarrow> None
        | Some (Inl e, u1) \<Rightarrow> Some (Inl e, u1)
        | Some (Inr _, u1) \<Rightarrow> (case ns_write api 10 u1 of
            None \<Rightarrow> None
          | Some (Inl e, u2) \<Rightarrow> Some (Inl e, u2)
          | Some (Inr _, u2) \<Rightarrow> ns_write_str api bs u2)
      else
        case ns_write api b u of
          None \<Rightarrow> None
        | Some (Inl e, u1) \<Rightarrow> Some (Inl e, u1)
        | Some (Inr _, u1) \<Rightarrow> ns_write_str api bs u1)"

definition ns_read :: "'d uart_api \<Rightarrow> 'd NS16550a \<Rightarrow> u8 option \<times> 'd NS16550a" where
  "ns_read api u = (case ns_inner_read api (ns_inner u) of (r, d) \<Rightarrow> (r, u\<lparr>ns_inner := d\<rparr>))"

definition ns_handle_irq :: "'d uart_api \<Rightarrow> nat \<Rightarrow> 'd NS16550a \<Rightarrow> nat \<times> 'd NS16550a" where
  "ns_handle_irq api start_time u = (case ns_inner_read api (ns_inner u) of
     (Some ch, d) \<Rightarrow> (start_time, u\<lparr>ns_inner := d, ns_buffer := ns_buffer u @ [ch]\<rparr>)
   | (None, d) \<Rightarrow> (start_time, u\<lparr>ns_inner := d\<rparr>))"

section \<open>A device that becomes ready\<close>

text \<open>A device that reports, after a number of polls that depends on its state, that its output is empty; that
  sends the bytes written to the data register in order, \<open>out\<close>; and whose status has no other effect.\<close>

primrec ready_within :: "'d uart_api \<Rightarrow> nat \<Rightarrow> 'd \<Rightarrow> bool" where
  "ready_within api 0 d \<longleftrightarrow> bit (fst (rd_reg api reg_line_status d)) 5"
| "ready_within api (Suc n) d \<longleftrightarrow> bit (fst (rd_reg api reg_line_status d)) 5 \<or> ready_within api n (snd (rd_reg api reg_line_status d))"

definition sends :: "'d uart_api \<Rightarrow> ('d \<Rightarrow> u8 list) \<Rightarrow> bool" where
  "sends api out \<longleftrightarrow> (\<forall>d. \<exists>n. ready_within api n d) \<and> (\<forall>d. out (snd (rd_reg api reg_line_status d)) = out d) \<and>
     (\<forall>d v. out (wr_reg api reg_data v d) = out d @ [v])"

lemma and_flag8: "(w :: u8) AND push_bit n 1 = (if bit w n then push_bit n 1 else 0)"
  by (rule bit_word_eqI) (auto simp: bit_simps)

lemma flag_truncated: "((v :: u8) AND (a OR b)) AND b = v AND b" "((v :: u8) AND (a OR b)) AND a = v AND a"
  by (rule bit_word_eqI, auto simp: bit_simps)+

lemma output_empty: "sts_contains (v AND (INPUT_FULL OR OUTPUT_EMPTY)) OUTPUT_EMPTY \<longleftrightarrow> bit v 5"
proof -
  have "v AND OUTPUT_EMPTY = (if bit v 5 then OUTPUT_EMPTY else 0)" unfolding OUTPUT_EMPTY_def by (rule and_flag8)
  moreover have "OUTPUT_EMPTY \<noteq> 0" by (simp add: OUTPUT_EMPTY_def)
  ultimately show ?thesis unfolding sts_contains_def flag_truncated by simp
qed

lemma input_full: "sts_contains (v AND (INPUT_FULL OR OUTPUT_EMPTY)) INPUT_FULL \<longleftrightarrow> bit v 0"
  using and_flag8 [of v 0] unfolding sts_contains_def flag_truncated INPUT_FULL_def by simp

lemma wait_returns:
  assumes "\<forall>d. out (snd (rd_reg api reg_line_status d)) = out d"
  shows "ready_within api n d \<Longrightarrow> \<exists>d'. ns_wait api d = Some d' \<and> out d' = out d"
proof (induction n arbitrary: d)
  case 0
  obtain v d1 where r: "rd_reg api reg_line_status d = (v, d1)" by (cases "rd_reg api reg_line_status d")
  then have "out d1 = out d" using assms by (metis snd_conv)
  then show ?case using 0 r by (subst ns_wait.simps) (simp add: ns_line_status_def output_empty)
next
  case (Suc n)
  obtain v d1 where r: "rd_reg api reg_line_status d = (v, d1)" by (cases "rd_reg api reg_line_status d")
  then have o1: "out d1 = out d" using assms by (metis snd_conv)
  show ?case
  proof (cases "bit v 5")
    case True
    then show ?thesis using r o1 by (subst ns_wait.simps) (simp add: ns_line_status_def output_empty)
  next
    case False
    then have "ready_within api n d1" using Suc.prems r by simp
    then obtain d' where "ns_wait api d1 = Some d'" "out d' = out d1" using Suc.IH by blast
    then show ?thesis using r o1 False by (subst ns_wait.simps) (simp add: ns_line_status_def output_empty)
  qed
qed

lemma write_sends:
  assumes "sends api out"
  shows "\<exists>d. ns_write api v u = Some (Ok (), u\<lparr>ns_inner := d\<rparr>) \<and> out d = out (ns_inner u) @ [v]"
proof -
  obtain n where "ready_within api n (ns_inner u)" using assms unfolding sends_def by blast
  then obtain d where "ns_wait api (ns_inner u) = Some d" "out d = out (ns_inner u)"
    using wait_returns [of out api n "ns_inner u"] assms by (auto simp: sends_def)
  then show ?thesis using assms by (auto simp: ns_write_def ns_inner_write_def sends_def)
qed

text \<open>An interrupt takes one character out of the device when it has one.\<close>

lemma handle_irq_receives:
  assumes "rd_reg api reg_line_status (ns_inner u) = (v, d1)" "rd_reg api reg_data d1 = (c, d2)"
  shows "ns_handle_irq api t u =
    (t, if bit v 0 then u\<lparr>ns_inner := d2, ns_buffer := ns_buffer u @ [c]\<rparr> else u\<lparr>ns_inner := d1\<rparr>)"
  using assms by (simp add: ns_handle_irq_def ns_inner_read_def ns_line_status_def input_full)

section \<open>Properties\<close>

text \<open>Writing a string to a device that becomes ready after every byte returns without an error, and the
  device has sent exactly the bytes of the string in order, with a carriage return before every line feed;
  the buffer of received characters is not touched.\<close>

theorem uart_write_str_sends:
  assumes "sends api out"
  shows "\<exists>u'. ns_write_str api bs u = Some (Ok (), u') \<and> ns_buffer u' = ns_buffer u \<and>
    out (ns_inner u') = out (ns_inner u) @ concat (map (\<lambda>b. if b = 10 then [13, 10] else [b]) bs)"
proof (induction bs arbitrary: u)
  case (Cons b bs)
  obtain v where v: "v = (if b = 10 then 13 else b)" by simp
  from write_sends [OF assms, of v u] obtain d where d: "ns_write api v u = Some (Ok (), u\<lparr>ns_inner := d\<rparr>)" "out d = out (ns_inner u) @ [v]" by blast
  from write_sends [OF assms, of 10 "u\<lparr>ns_inner := d\<rparr>"] obtain d2 where
    d2: "ns_write api 10 (u\<lparr>ns_inner := d\<rparr>) = Some (Ok (), u\<lparr>ns_inner := d2\<rparr>)" "out d2 = out d @ [10]" by auto
  show ?case
    using Cons.IH [of "u\<lparr>ns_inner := d\<rparr>"] Cons.IH [of "u\<lparr>ns_inner := d2\<rparr>"] d d2 v by (cases "b = 10") auto
qed simp

text \<open>A device whose output is busy for three polls after every byte.\<close>

definition demo_uart :: "(nat \<times> u8 list) uart_api" where
  "demo_uart = \<lparr>rd_reg = (\<lambda>r d. if r = 5 then (if fst d = 0 then 0x20 else 0, (fst d - 1, snd d)) else (0, d)),
     wr_reg = (\<lambda>r v d. if r = 0 then (3, snd d @ [v]) else d)\<rparr>"

lemma demo_sends: "sends demo_uart snd"
proof -
  have "ready_within demo_uart n (n, xs)" for n xs
  proof (induction n)
    case 0
    then show ?case by (simp add: demo_uart_def reg_defs)
  next
    case (Suc n)
    then show ?case by (simp add: demo_uart_def reg_defs)
  qed
  then show ?thesis by (auto simp: sends_def demo_uart_def reg_defs)
qed

theorem uart_write_str_sends_witness:
  "\<exists>u'. ns_write_str demo_uart [72, 105, 10] \<lparr>ns_inner = (0, []), ns_buffer = []\<rparr> = Some (Ok (), u') \<and> snd (ns_inner u') = [72, 105, 13, 10]"
  using uart_write_str_sends [OF demo_sends, of "[72, 105, 10]" "\<lparr>ns_inner = (0, []), ns_buffer = []\<rparr>"] by auto

text \<open>The driver's register structure has the line control register at offset 2 and the FIFO control
  register at offset 3, where a 16550 has them the other way round. On a device whose control registers are
  plain storage, initialisation therefore leaves 0 in the line control register of the device (offset 3: five data bits)
  and 3 in its FIFO control register (offset 2: FIFO enabled and cleared), the opposite of the values the driver
  means to write.\<close>

theorem uart_init_swaps_registers:
  "ns_new \<lparr>rd_reg = (\<lambda>r m. (m r, m)), wr_reg = (\<lambda>r v m. m(r := v))\<rparr> base regs =
     Ok \<lparr>ns_inner = regs(3 := 0, 2 := 3, 4 := 0, 1 := 1), ns_buffer = []\<rparr>"
  by (simp add: ns_new_def ns_init_def reg_defs IntEn_RECEIVED_def word_mod_def)

end
