(* ===== verification/Loader.thy ===== *)
theory Loader
  imports Addr
begin

text \<open>
  The program loader, \<^verbatim>\<open>kern/modules/loader/src/lib.rs\<close>. It walks the loadable segments of a parsed ELF file and calls
  a closure for every page: with the address, the offset in the page and the number of bytes to load there.
  The parser is third-party code, its segments are the argument; the closure is a parameter that may fail.
\<close>

section \<open>The code\<close>

record ProgramHeader =
  p_type :: u32
  p_vaddr :: u64
  p_filesz :: u64
  p_memsz :: u64

definition PT_LOAD :: u32 where "PT_LOAD = 1"

type_synonym 's loader = "ProgramHeader \<Rightarrow> VirtAddr \<Rightarrow> usize \<Rightarrow> usize \<Rightarrow> 's \<Rightarrow> unit res \<times> 's"

text \<open>\<^verbatim>\<open>(start..end).step_by(PAGE_SIZE)\<close>.\<close>

definition step_by :: "usize \<Rightarrow> usize \<Rightarrow> usize list" where
  "step_by start stop = map (\<lambda>k. start + of_nat k * PAGE_SIZE) [0..<(unat stop - unat start + 4095) div 4096]"

fun each_offset :: "(usize \<Rightarrow> 's \<Rightarrow> unit res \<times> 's) \<Rightarrow> usize list \<Rightarrow> 's \<Rightarrow> unit res \<times> 's" where
  "each_offset f [] s = (Ok (), s)"
| "each_offset f (a # as) s = (case f a s of (Inl e, s') \<Rightarrow> (Inl e, s') | (Inr _, s') \<Rightarrow> each_offset f as s')"

definition page_offset_len :: "ProgramHeader \<Rightarrow> usize \<Rightarrow> usize option" where
  "page_offset_len seg off = (if off \<noteq> 0 then Some (min (p_filesz seg) (PAGE_SIZE - off)) else None)"

definition load_segment :: "'s loader \<Rightarrow> ProgramHeader \<Rightarrow> 's \<Rightarrow> unit res \<times> 's" where
  "load_segment loader seg s =
     (let seg_vaddr = va_new (p_vaddr seg);
          off = va_diff seg_vaddr (va_align_page_down seg_vaddr);
          offset_len = page_offset_len seg off;
          region_to_load = step_by (case offset_len of None \<Rightarrow> 0 | Some l \<Rightarrow> l) (p_filesz seg);
          region_to_zero = step_by (p_filesz seg) (p_memsz seg)
      in case (case offset_len of None \<Rightarrow> (Ok (), s) | Some l \<Rightarrow> loader seg seg_vaddr off l s) of
           (Inl e, s1) \<Rightarrow> (Inl e, s1)
         | (Inr _, s1) \<Rightarrow> (case each_offset (\<lambda>a. let vaddr = va_add seg_vaddr a
                  in loader seg vaddr 0 (min PAGE_SIZE (p_filesz seg - va_diff vaddr seg_vaddr))) region_to_load s1 of
             (Inl e, s2) \<Rightarrow> (Inl e, s2)
           | (Inr _, s2) \<Rightarrow> each_offset (\<lambda>a. loader seg (va_add seg_vaddr a) 0 0) region_to_zero s2))"

fun load_segments :: "'s loader \<Rightarrow> ProgramHeader list \<Rightarrow> 's \<Rightarrow> unit res \<times> 's" where
  "load_segments loader [] s = (Ok (), s)"
| "load_segments loader (seg # segs) s = (case load_segment loader seg s of
     (Inl e, s') \<Rightarrow> (Inl e, s') | (Inr _, s') \<Rightarrow> load_segments loader segs s')"

definition elf_load :: "'s loader \<Rightarrow> ProgramHeader list option \<Rightarrow> 's \<Rightarrow> unit res \<times> 's" where
  "elf_load loader segments s = (case segments of None \<Rightarrow> (Fail ElfParseError, s)
   | Some segs \<Rightarrow> load_segments loader (filter (\<lambda>seg. p_type seg = PT_LOAD) segs) s)"

section \<open>The calls of a segment\<close>

type_synonym call = "usize \<times> usize \<times> usize"

fun run_calls :: "'s loader \<Rightarrow> ProgramHeader \<Rightarrow> call list \<Rightarrow> 's \<Rightarrow> unit res \<times> 's" where
  "run_calls loader seg [] s = (Ok (), s)"
| "run_calls loader seg ((v, off, l) # cs) s = (case loader seg (VirtAddr v) off l s of
     (Inl e, s') \<Rightarrow> (Inl e, s') | (Inr _, s') \<Rightarrow> run_calls loader seg cs s')"

definition head_len :: "ProgramHeader \<Rightarrow> usize" where
  "head_len seg = (let off = p_vaddr seg - align_page_down (p_vaddr seg) in if off = 0 then 0 else min (p_filesz seg) (PAGE_SIZE - off))"

definition head_calls :: "ProgramHeader \<Rightarrow> call list" where
  "head_calls seg = (let off = p_vaddr seg - align_page_down (p_vaddr seg) in if off = 0 then [] else [(p_vaddr seg, off, head_len seg)])"

definition body_calls :: "ProgramHeader \<Rightarrow> call list" where
  "body_calls seg = map (\<lambda>a. (p_vaddr seg + a, 0, min PAGE_SIZE (p_filesz seg - a))) (step_by (head_len seg) (p_filesz seg))"

definition zero_calls :: "ProgramHeader \<Rightarrow> call list" where
  "zero_calls seg = map (\<lambda>a. (p_vaddr seg + a, 0, 0)) (step_by (p_filesz seg) (p_memsz seg))"

lemma run_calls_append: "run_calls loader seg (xs @ ys) s = (case run_calls loader seg xs s of
    (Inl e, s') \<Rightarrow> (Inl e, s') | (Inr _, s') \<Rightarrow> run_calls loader seg ys s')"
  by (induction xs arbitrary: s) (auto split: prod.splits sum.splits)

lemma each_offset_calls: "each_offset (\<lambda>a. loader seg (VirtAddr (f a)) (g a) (h a)) as s = run_calls loader seg (map (\<lambda>a. (f a, g a, h a)) as) s"
  by (induction as arbitrary: s) (auto split: prod.splits sum.splits)

lemma load_segment_calls: "load_segment loader seg s = run_calls loader seg (head_calls seg @ body_calls seg @ zero_calls seg) s"
proof -
  let ?off = "p_vaddr seg - align_page_down (p_vaddr seg)"
  have d: "va_diff (va_new (p_vaddr seg)) (va_align_page_down (va_new (p_vaddr seg))) = ?off"
    by (simp add: va_diff_def va_new_def va_align_page_down_def)
  have l: "(case page_offset_len seg ?off of None \<Rightarrow> 0 | Some l \<Rightarrow> l) = head_len seg"
    by (simp add: page_offset_len_def head_len_def Let_def)
  have h: "(case page_offset_len seg ?off of None \<Rightarrow> (Ok (), s) | Some l \<Rightarrow> loader seg (va_new (p_vaddr seg)) ?off l s) = run_calls loader seg (head_calls seg) s"
    by (simp add: page_offset_len_def head_calls_def head_len_def Let_def va_new_def split: prod.splits sum.splits)
  have b: "(\<lambda>a. let vaddr = va_add (va_new (p_vaddr seg)) a in loader seg vaddr 0 (min PAGE_SIZE (p_filesz seg - va_diff vaddr (va_new (p_vaddr seg))))) =
      (\<lambda>a. loader seg (VirtAddr (p_vaddr seg + a)) 0 (min PAGE_SIZE (p_filesz seg - a)))"
    by (rule ext) (simp add: va_add_def va_new_def va_diff_def Let_def)
  have z: "(\<lambda>a. loader seg (va_add (va_new (p_vaddr seg)) a) 0 0) = (\<lambda>a. loader seg (VirtAddr (p_vaddr seg + a)) 0 0)"
    by (rule ext) (simp add: va_add_def va_new_def)
  show ?thesis
    unfolding load_segment_def Let_def d l h b [unfolded Let_def] z run_calls_append body_calls_def zero_calls_def
      each_offset_calls [of loader seg "\<lambda>a. p_vaddr seg + a" "\<lambda>_. 0"] by (rule refl)
qed

section \<open>Which bytes and which pages\<close>

lemma unat_step:
  assumes "unat (start :: usize) + 4096 * k < 2 ^ 64"
  shows "unat (start + of_nat k * PAGE_SIZE) = unat start + 4096 * k"
proof -
  have "start + of_nat k * PAGE_SIZE = (of_nat (unat start + 4096 * k) :: usize)" by (simp add: PAGE_SIZE_def)
  then show ?thesis using assms by (simp add: unat_of_nat take_bit_nat_eq_self del: of_nat_add of_nat_mult)
qed

lemma step_by_unat: "map unat (step_by start stop) = map (\<lambda>k. unat start + 4096 * k) [0..<(unat stop - unat start + 4095) div 4096]"
proof -
  have "unat (start + of_nat k * PAGE_SIZE) = unat start + 4096 * k" if "k < (unat stop - unat start + 4095) div 4096" for k
  proof (rule unat_step)
    have "unat start + 4096 * k < unat stop" using that by linarith
    then show "unat start + 4096 * k < 2 ^ 64" using unat_usize_less [of stop] by simp
  qed
  then show ?thesis by (auto simp: step_by_def)
qed

lemma step_by_less: "a \<in> set (step_by start stop) \<Longrightarrow> unat a < unat stop"
proof -
  assume "a \<in> set (step_by start stop)"
  then have "unat a \<in> set (map unat (step_by start stop))" by simp
  then show ?thesis unfolding step_by_unat by auto
qed

lemma unat_page_offset: "unat (a - align_page_down a) = unat a mod 4096"
proof -
  have "align_page_down a \<le> a" by (simp add: word_le_nat_alt unat_align_page_down)
  from unat_sub_usize [OF this] show ?thesis by (simp add: unat_align_page_down minus_div_mult_eq_mod)
qed

lemma unat_min: "unat (min a (b :: usize)) = min (unat a) (unat b)"
  by (simp add: min_def word_le_nat_alt)

lemma unat_head_len: "unat (head_len seg) = (if unat (p_vaddr seg) mod 4096 = 0 then 0 else min (unat (p_filesz seg)) (4096 - unat (p_vaddr seg) mod 4096))"
proof -
  let ?off = "p_vaddr seg - align_page_down (p_vaddr seg)"
  have z: "?off = 0 \<longleftrightarrow> unat (p_vaddr seg) mod 4096 = 0" using unat_page_offset [of "p_vaddr seg"] by (simp add: word_unat_eq_iff)
  have "?off \<le> PAGE_SIZE" using unat_page_offset [of "p_vaddr seg"] by (simp add: word_le_nat_alt PAGE_SIZE_def less_imp_le)
  from unat_sub_usize [OF this] have "unat (PAGE_SIZE - ?off) = 4096 - unat (p_vaddr seg) mod 4096"
    using unat_page_offset [of "p_vaddr seg"] by (simp add: PAGE_SIZE_def)
  then show ?thesis using z by (simp add: head_len_def Let_def unat_min)
qed

lemma upt_join: "a \<le> b \<Longrightarrow> b \<le> c \<Longrightarrow> [a..<b] @ [b..<c] = [a..<c]"
  by (metis le_add_diff_inverse upt_add_eq_append)

lemma chunks: "a \<le> F \<Longrightarrow> concat (map (\<lambda>k. [a + 4096 * k..<a + 4096 * k + min 4096 (F - (a + 4096 * k))]) [0..<n]) = [a..<min F (a + 4096 * n)]"
proof (induction n)
  case (Suc n)
  have "[a..<min F (a + 4096 * n)] @ [a + 4096 * n..<a + 4096 * n + min 4096 (F - (a + 4096 * n))] = [a..<min F (a + 4096 * Suc n)]"
  proof (cases "F \<le> a + 4096 * n")
    case False
    then have "min F (a + 4096 * n) = a + 4096 * n" "a + 4096 * n + min 4096 (F - (a + 4096 * n)) = min F (a + 4096 * Suc n)" by simp_all
    moreover have "[a..<a + 4096 * n] @ [a + 4096 * n..<min F (a + 4096 * Suc n)] = [a..<min F (a + 4096 * Suc n)]"
      using False by (intro upt_join) auto
    ultimately show ?thesis by simp
  qed auto
  then show ?case using Suc by simp
qed simp

text \<open>The part of the file that a call loads, counted from the start of the segment.\<close>

definition file_part :: "ProgramHeader \<Rightarrow> call \<Rightarrow> nat list" where
  "file_part seg c = (case c of (v, off, l) \<Rightarrow> [unat v - unat (p_vaddr seg)..<unat v - unat (p_vaddr seg) + unat l])"

definition seg_fits :: "ProgramHeader \<Rightarrow> bool" where
  "seg_fits seg \<longleftrightarrow> unat (p_vaddr seg) + unat (p_filesz seg) < 2 ^ 64 \<and> unat (p_vaddr seg) + unat (p_memsz seg) < 2 ^ 64"

lemma head_le: "unat (head_len seg) \<le> unat (p_filesz seg)"
  by (simp add: unat_head_len)

lemma body_call:
  assumes "seg_fits seg" "a \<in> set (step_by (head_len seg) (p_filesz seg))"
  shows "unat (p_vaddr seg + a) = unat (p_vaddr seg) + unat a" "unat (min PAGE_SIZE (p_filesz seg - a)) = min 4096 (unat (p_filesz seg) - unat a)"
proof -
  have a: "unat a < unat (p_filesz seg)" using step_by_less [OF assms(2)] .
  then show "unat (p_vaddr seg + a) = unat (p_vaddr seg) + unat a" using assms(1) by (intro unat_add_usize) (simp add: seg_fits_def)
  have "a \<le> p_filesz seg" using a by (simp add: word_le_nat_alt)
  from unat_sub_usize [OF this] show "unat (min PAGE_SIZE (p_filesz seg - a)) = min 4096 (unat (p_filesz seg) - unat a)" by (simp add: unat_min PAGE_SIZE_def)
qed

lemma zero_call:
  assumes "seg_fits seg" "a \<in> set (step_by (p_filesz seg) (p_memsz seg))"
  shows "unat (p_vaddr seg + a) = unat (p_vaddr seg) + unat a"
  using assms step_by_less [OF assms(2)] by (intro unat_add_usize) (simp add: seg_fits_def)

lemma file_parts:
  assumes "seg_fits seg"
  shows "concat (map (file_part seg) (head_calls seg @ body_calls seg @ zero_calls seg)) = [0..<unat (p_filesz seg)]"
proof -
  let ?H = "unat (head_len seg)" and ?F = "unat (p_filesz seg)"
  have h: "concat (map (file_part seg) (head_calls seg)) = [0..<?H]"
    by (simp add: head_calls_def file_part_def head_len_def Let_def)
  have "map (file_part seg) (body_calls seg) = map ((\<lambda>x. [x..<x + min 4096 (?F - x)]) \<circ> unat) (step_by (head_len seg) (p_filesz seg))"
    using body_call [OF assms] by (auto simp: body_calls_def file_part_def)
  also have "\<dots> = map (\<lambda>x. [x..<x + min 4096 (?F - x)]) (map unat (step_by (head_len seg) (p_filesz seg)))" by simp
  also have "\<dots> = map (\<lambda>k. [?H + 4096 * k..<?H + 4096 * k + min 4096 (?F - (?H + 4096 * k))]) [0..<(?F - ?H + 4095) div 4096]"
    unfolding step_by_unat by simp
  finally have "concat (map (file_part seg) (body_calls seg)) = [?H..<min ?F (?H + 4096 * ((?F - ?H + 4095) div 4096))]"
    using chunks [OF head_le] by simp
  moreover have "min ?F (?H + 4096 * ((?F - ?H + 4095) div 4096)) = ?F" using head_le [of seg] by linarith
  ultimately have b: "concat (map (file_part seg) (body_calls seg)) = [?H..<?F]" by simp
  have z: "concat (map (file_part seg) (zero_calls seg)) = []" by (simp add: zero_calls_def file_part_def)
  have "[0..<?H] @ [?H..<?F] = [0..<?F]" using head_le [of seg] by (intro upt_join) auto
  then show ?thesis unfolding map_append concat_append h b z by simp
qed

definition pages :: "call list \<Rightarrow> nat set" where
  "pages cs = (\<lambda>c. unat (fst c) div 4096) ` set cs"

lemma pages_append: "pages (xs @ ys) = pages xs \<union> pages ys"
  by (simp add: pages_def image_Un)

lemma page_row: "(\<lambda>k :: nat. (a + 4096 * k) div 4096) ` {0..<n} = {a div 4096..<a div 4096 + n}"
proof -
  have "(\<lambda>k. (a + 4096 * k) div 4096) ` {0..<n} = (\<lambda>k. k + a div 4096) ` {0..<n}" by (rule image_cong) simp_all
  then show ?thesis by (simp add: image_add_atLeastLessThan add.commute)
qed

lemma zero_pages:
  assumes "seg_fits seg"
  shows "pages (zero_calls seg) = {(unat (p_vaddr seg) + unat (p_filesz seg)) div 4096..<
    (unat (p_vaddr seg) + unat (p_filesz seg)) div 4096 + (unat (p_memsz seg) - unat (p_filesz seg) + 4095) div 4096}"
proof -
  have "pages (zero_calls seg) = (\<lambda>a. (unat (p_vaddr seg) + unat a) div 4096) ` set (step_by (p_filesz seg) (p_memsz seg))"
    unfolding pages_def zero_calls_def using zero_call [OF assms] by (auto simp: image_image)
  also have "\<dots> = (\<lambda>x. (unat (p_vaddr seg) + x) div 4096) ` set (map unat (step_by (p_filesz seg) (p_memsz seg)))" by (simp add: image_image)
  also have "\<dots> = (\<lambda>k. (unat (p_vaddr seg) + unat (p_filesz seg) + 4096 * k) div 4096) ` {0..<(unat (p_memsz seg) - unat (p_filesz seg) + 4095) div 4096}"
    unfolding step_by_unat by (simp add: image_image add.assoc)
  finally show ?thesis unfolding page_row .
qed

lemma body_pages:
  assumes "seg_fits seg"
  shows "pages (body_calls seg) = {(unat (p_vaddr seg) + unat (head_len seg)) div 4096..<
    (unat (p_vaddr seg) + unat (head_len seg)) div 4096 + (unat (p_filesz seg) - unat (head_len seg) + 4095) div 4096}"
proof -
  have "pages (body_calls seg) = (\<lambda>a. (unat (p_vaddr seg) + unat a) div 4096) ` set (step_by (head_len seg) (p_filesz seg))"
    unfolding pages_def body_calls_def using body_call(1) [OF assms] by (auto simp: image_image)
  also have "\<dots> = (\<lambda>x. (unat (p_vaddr seg) + x) div 4096) ` set (map unat (step_by (head_len seg) (p_filesz seg)))" by (simp add: image_image)
  also have "\<dots> = (\<lambda>k. (unat (p_vaddr seg) + unat (head_len seg) + 4096 * k) div 4096) ` {0..<(unat (p_filesz seg) - unat (head_len seg) + 4095) div 4096}"
    unfolding step_by_unat by (simp add: image_image add.assoc)
  finally show ?thesis unfolding page_row .
qed

lemma head_pages: "pages (head_calls seg) = (if unat (p_vaddr seg) mod 4096 = 0 then {} else {unat (p_vaddr seg) div 4096})"
proof -
  have "p_vaddr seg - align_page_down (p_vaddr seg) = 0 \<longleftrightarrow> unat (p_vaddr seg) mod 4096 = 0"
    using unat_page_offset [of "p_vaddr seg"] by (simp add: word_unat_eq_iff)
  then show ?thesis by (simp add: head_calls_def pages_def Let_def)
qed

lemma next_page: "v + (4096 - v mod 4096) = 4096 * Suc (v div (4096 :: nat))"
proof -
  have gen: "v + (4096 - r) = 4096 * Suc q" if "r < 4096" "4096 * q + r = v" for q r using that by auto
  show ?thesis by (rule gen) simp_all
qed

text \<open>Arithmetic of the first page: either the file ends in it or the rest starts at the next page.\<close>

lemma first_page:
  assumes "0 < F" "H = (if v mod 4096 = 0 then 0 else min F (4096 - v mod 4096))"
  shows "(if v mod 4096 = 0 then {} else {v div 4096}) \<union> {(v + H) div 4096..<(v + H) div 4096 + (F - H + 4095) div 4096} = {v div 4096..(v + F - 1) div (4096 :: nat)}"
proof -
  consider (aligned) "v mod 4096 = 0" "H = 0" | (short) "v mod 4096 \<noteq> 0" "H = F" "F \<le> 4096 - v mod 4096"
    | (long) "v mod 4096 \<noteq> 0" "H = 4096 - v mod 4096" "H < F" using assms(2) by (fastforce simp: min_def split: if_splits)
  then show ?thesis
  proof cases
    case aligned
    obtain G where G: "F = Suc G" using assms(1) gr0_implies_Suc by blast
    have "v + F - 1 = 4096 * (v div 4096) + G" using aligned(1) G mult_div_mod_eq [of 4096 v] by simp
    then have "(v + F - 1) div 4096 = v div 4096 + G div 4096" by (simp only: div_mult_self4 [OF zero_neq_numeral [symmetric]])
    moreover have "(F + 4095) div 4096 = Suc (G div 4096)" using G by simp
    ultimately have "v div 4096 + (F + 4095) div 4096 = Suc ((v + F - 1) div 4096)" by simp
    then show ?thesis using aligned by auto
  next
    case short
    then have "v + F - 1 = 4096 * (v div 4096) + (v mod 4096 + F - 1)" "v mod 4096 + F - 1 < 4096"
      using assms(1) mult_div_mod_eq [of 4096 v] mod_less_divisor [of 4096 v] by linarith+
    then have "(v + F - 1) div 4096 = v div 4096" by (simp only: div_mult_self4 [OF zero_neq_numeral [symmetric]]) simp
    then show ?thesis using short by auto
  next
    case long
    have vH: "v + H = 4096 * Suc (v div 4096)"  unfolding long(2) by (rule next_page)
    then have n: "(v + H) div 4096 = Suc (v div 4096)" by simp
    obtain G where G: "F = H + Suc G" using long(3) less_iff_Suc_add by auto
    have "v + F - 1 = 4096 * Suc (v div 4096) + G" using vH G by simp
    then have "(v + F - 1) div 4096 = Suc (v div 4096) + G div 4096" by (simp only: div_mult_self4 [OF zero_neq_numeral [symmetric]])
    moreover have m: "(F - H + 4095) div 4096 = Suc (G div 4096)" using G by simp
    ultimately have "(v + H) div 4096 + (F - H + 4095) div 4096 = Suc ((v + F - 1) div 4096)" unfolding n m by simp
    moreover have "v div 4096 \<le> (v + F - 1) div 4096" using assms(1) by (intro div_le_mono) simp
    moreover have "{q} \<union> {Suc q..<Suc r} = {q..r}" if "q \<le> r" for q r :: nat using that by auto
    ultimately show ?thesis using long(1) n by simp
  qed
qed

lemma file_pages:
  assumes "seg_fits seg"
  shows "pages (head_calls seg @ body_calls seg) = (if p_filesz seg = 0 then (if unat (p_vaddr seg) mod 4096 = 0 then {} else {unat (p_vaddr seg) div 4096})
    else {unat (p_vaddr seg) div 4096..(unat (p_vaddr seg) + unat (p_filesz seg) - 1) div 4096})"
proof (cases "p_filesz seg = 0")
  case True
  then have "head_len seg = 0" using head_le [of seg] by (simp add: word_unat_eq_iff)
  then show ?thesis using True by (simp add: pages_append head_pages body_pages [OF assms])
next
  case False
  then have "0 < unat (p_filesz seg)" by (simp add: unat_gt_0)
  from first_page [OF this unat_head_len] show ?thesis using False by (simp add: pages_append head_pages body_pages [OF assms])
qed

lemma calls_in_page:
  assumes "seg_fits seg" "(v, off, l) \<in> set (head_calls seg @ body_calls seg @ zero_calls seg)"
  shows "unat off + unat l \<le> 4096 \<and> (l \<noteq> 0 \<longrightarrow> unat v mod 4096 = unat off)"
proof -
  consider (head) "(v, off, l) \<in> set (head_calls seg)" | (body) "(v, off, l) \<in> set (body_calls seg)" | (zero) "(v, off, l) \<in> set (zero_calls seg)"
    using assms(2) by auto
  then show ?thesis
  proof cases
    case head
    then have "v = p_vaddr seg" "off = p_vaddr seg - align_page_down (p_vaddr seg)" "l = head_len seg" "off \<noteq> 0"
      by (auto simp: head_calls_def Let_def split: if_splits)
    moreover have "unat off \<noteq> 0" using \<open>off \<noteq> 0\<close> by (simp add: unat_eq_zero)
    ultimately show ?thesis using unat_page_offset [of "p_vaddr seg"] unat_head_len [of seg] mod_less_divisor [of 4096 "unat (p_vaddr seg)"] by simp
  next
    case body
    then obtain a where a: "a \<in> set (step_by (head_len seg) (p_filesz seg))" "v = p_vaddr seg + a" "off = 0" "l = min PAGE_SIZE (p_filesz seg - a)"
      by (auto simp: body_calls_def)
    have "unat a \<in> set (map unat (step_by (head_len seg) (p_filesz seg)))" using a(1) by simp
    then obtain k where k: "unat a = unat (head_len seg) + 4096 * k" unfolding step_by_unat by auto
    have H: "unat (head_len seg) < unat (p_filesz seg)" using step_by_less [OF a(1)] k by simp
    have "(unat (p_vaddr seg) + unat (head_len seg)) mod 4096 = 0"
    proof (cases "unat (p_vaddr seg) mod 4096 = 0")
      case False
      then have "unat (head_len seg) = 4096 - unat (p_vaddr seg) mod 4096" using unat_head_len [of seg] H by auto
      then have "unat (p_vaddr seg) + unat (head_len seg) = 4096 * Suc (unat (p_vaddr seg) div 4096)"
        using next_page [of "unat (p_vaddr seg)"] by simp
      then show ?thesis by simp
    qed (simp add: unat_head_len)
    then have "unat v mod 4096 = 0" using body_call(1) [OF assms(1) a(1)] a(2) k by (simp add: add.assoc [symmetric])
    then show ?thesis using a body_call(2) [OF assms(1) a(1)] by simp
  next
    case zero
    then show ?thesis by (auto simp: zero_calls_def)
  qed
qed

lemma all_pages:
  assumes "seg_fits seg" "p_filesz seg \<noteq> 0" "p_filesz seg < p_memsz seg"
  shows "pages (head_calls seg @ body_calls seg @ zero_calls seg) = {unat (p_vaddr seg) div 4096..
    (unat (p_vaddr seg) + unat (p_filesz seg)) div 4096 + (unat (p_memsz seg) - 1 - unat (p_filesz seg)) div 4096}"
proof -
  let ?v = "unat (p_vaddr seg)" and ?F = "unat (p_filesz seg)" and ?M = "unat (p_memsz seg)"
  have FM: "?F < ?M" and F: "0 < ?F" using assms(2,3) by (simp_all add: word_less_nat_alt unat_gt_0)
  obtain G where G: "?M = ?F + Suc G" using FM less_iff_Suc_add by auto
  have n: "(?M - ?F + 4095) div 4096 = Suc (G div 4096)" "(?M - 1 - ?F) div 4096 = G div 4096" using G by simp_all
  have "(?v + ?F) div 4096 \<le> Suc ((?v + ?F - 1) div 4096)" "(?v + ?F - 1) div 4096 \<le> (?v + ?F) div 4096" "?v div 4096 \<le> (?v + ?F) div 4096"
    using F by (simp_all add: div_le_mono)
  then have "{?v div 4096..(?v + ?F - 1) div 4096} \<union> {(?v + ?F) div 4096..<(?v + ?F) div 4096 + Suc (G div 4096)} = {?v div 4096..(?v + ?F) div 4096 + G div 4096}"
    by auto
  then show ?thesis using file_pages [OF assms(1)] assms(2)
    unfolding append_assoc [symmetric] pages_append [of "head_calls seg @ body_calls seg"] zero_pages [OF assms(1)] n by simp
qed

section \<open>Properties\<close>

text \<open>C31. Loading a segment that does not wrap around the address space calls the closure, for as long as it
  succeeds, with a list of requests that together load every byte of the file exactly once, in order, each
  request within one page and at its place in it; a segment without extra memory has exactly the pages of its
  file part requested.\<close>

theorem load_segment_complete:
  assumes "seg_fits seg"
  shows "\<exists>cs. (\<forall>loader (s :: 's). load_segment loader seg s = run_calls loader seg cs s) \<and>
    concat (map (file_part seg) cs) = [0..<unat (p_filesz seg)] \<and>
    (\<forall>(v, off, l)\<in>set cs. unat off + unat l \<le> 4096 \<and> (l \<noteq> 0 \<longrightarrow> unat v mod 4096 = unat off)) \<and>
    (p_filesz seg \<noteq> 0 \<and> p_memsz seg \<le> p_filesz seg \<longrightarrow>
      pages cs = {unat (p_vaddr seg) div 4096..(unat (p_vaddr seg) + unat (p_filesz seg) - 1) div 4096})"
proof -
  let ?cs = "head_calls seg @ body_calls seg @ zero_calls seg"
  have "pages ?cs = {unat (p_vaddr seg) div 4096..(unat (p_vaddr seg) + unat (p_filesz seg) - 1) div 4096}"
    if "p_filesz seg \<noteq> 0" "p_memsz seg \<le> p_filesz seg"
  proof -
    have "unat (p_memsz seg) - unat (p_filesz seg) = 0" using that(2) by (simp add: word_le_nat_alt)
    then have "pages (zero_calls seg) = {}" using zero_pages [OF assms] by simp
    then show ?thesis using file_pages [OF assms] that(1) unfolding append_assoc [symmetric] pages_append [of "head_calls seg @ body_calls seg"] by simp
  qed
  moreover have "\<forall>(v, off, l)\<in>set ?cs. unat off + unat l \<le> 4096 \<and> (l \<noteq> 0 \<longrightarrow> unat v mod 4096 = unat off)"
    using calls_in_page [OF assms] by blast
  ultimately show ?thesis using file_parts [OF assms] by (intro exI [of _ ?cs] conjI) (simp_all add: load_segment_calls)
qed

definition demo_segment :: ProgramHeader where
  "demo_segment = \<lparr>p_type = PT_LOAD, p_vaddr = 0x10800, p_filesz = 0x1400, p_memsz = 0x1400\<rparr>"

theorem load_segment_complete_witness:
  "\<exists>cs. (\<forall>loader (s :: nat). load_segment loader demo_segment s = run_calls loader demo_segment cs s) \<and>
     concat (map (file_part demo_segment) cs) = [0..<5120] \<and> pages cs = {16..17}"
proof -
  have "seg_fits demo_segment" by (simp add: seg_fits_def demo_segment_def)
  from load_segment_complete [OF this] obtain cs where
    cs: "\<forall>loader (s :: nat). load_segment loader demo_segment s = run_calls loader demo_segment cs s"
      "concat (map (file_part demo_segment) cs) = [0..<unat (p_filesz demo_segment)]"
      "p_filesz demo_segment \<noteq> 0 \<and> p_memsz demo_segment \<le> p_filesz demo_segment \<longrightarrow>
        pages cs = {unat (p_vaddr demo_segment) div 4096..(unat (p_vaddr demo_segment) + unat (p_filesz demo_segment) - 1) div 4096}" by blast
  have n: "unat (p_filesz demo_segment) = 5120" "unat (p_vaddr demo_segment) = 67584" "p_filesz demo_segment \<noteq> 0" "p_memsz demo_segment \<le> p_filesz demo_segment"
    by (simp_all add: demo_segment_def)
  then have "pages cs = {16..17}" using cs(3) by simp
  then show ?thesis using cs(1,2) n(1) by metis
qed

text \<open>C32. The pages of the zero-filled part are stepped through from the unaligned end of the file, so the last
  page of a segment is left out in some cases: with bytes in the file and more memory than file, all pages of
  the segment are requested if and only if the offset of the file's end in its page and the rest of the
  remaining length do not add up to a page. A segment of 0x800 bytes at 0x11000 with 0x1100 bytes of memory
  never has its page at 0x12000 requested.\<close>

theorem bss_page_coverage:
  assumes "seg_fits seg" "p_filesz seg \<noteq> 0" "p_filesz seg < p_memsz seg"
  shows "\<exists>cs. (\<forall>loader (s :: 's). load_segment loader seg s = run_calls loader seg cs s) \<and>
    (pages cs = {unat (p_vaddr seg) div 4096..(unat (p_vaddr seg) + unat (p_memsz seg) - 1) div 4096} \<longleftrightarrow>
      (unat (p_vaddr seg) + unat (p_filesz seg)) mod 4096 + (unat (p_memsz seg) - 1 - unat (p_filesz seg)) mod 4096 < 4096)"
proof -
  let ?cs = "head_calls seg @ body_calls seg @ zero_calls seg"
  let ?v = "unat (p_vaddr seg)" and ?F = "unat (p_filesz seg)" and ?M = "unat (p_memsz seg)"
  have FM: "?F < ?M" using assms(3) by (simp add: word_less_nat_alt)
  let ?a = "?v + ?F" and ?G = "?M - 1 - ?F"
  have sum: "?v + ?M - 1 = ?a + ?G" using FM by simp
  have le: "?v div 4096 \<le> ?a div 4096" by (simp add: div_le_mono)
  have "(?a + ?G) div 4096 = ?a div 4096 + ?G div 4096 + (?a mod 4096 + ?G mod 4096) div 4096" by (rule div_add1_eq)
  moreover have "(?a mod 4096 + ?G mod 4096) div 4096 = 0 \<longleftrightarrow> ?a mod 4096 + ?G mod 4096 < 4096" by (simp add: div_eq_0_iff)
  ultimately have "?a div 4096 + ?G div 4096 = (?v + ?M - 1) div 4096 \<longleftrightarrow> ?a mod 4096 + ?G mod 4096 < 4096" using sum by auto
  then have "pages ?cs = {?v div 4096..(?v + ?M - 1) div 4096} \<longleftrightarrow> ?a mod 4096 + ?G mod 4096 < 4096"
    using all_pages [OF assms] le by (auto simp: Icc_eq_Icc)
  then show ?thesis by (intro exI [of _ ?cs]) (simp add: load_segment_calls)
qed

definition demo_bss :: ProgramHeader where
  "demo_bss = \<lparr>p_type = PT_LOAD, p_vaddr = 0x11000, p_filesz = 0x800, p_memsz = 0x1100\<rparr>"

theorem bss_page_coverage_witness:
  "\<exists>cs. (\<forall>loader (s :: nat). load_segment loader demo_bss s = run_calls loader demo_bss cs s) \<and> pages cs \<noteq> {17..18}"
proof -
  have "seg_fits demo_bss" "p_filesz demo_bss \<noteq> 0" "p_filesz demo_bss < p_memsz demo_bss" by (simp_all add: seg_fits_def demo_bss_def)
  from bss_page_coverage [OF this] obtain cs where
    cs: "\<forall>loader (s :: nat). load_segment loader demo_bss s = run_calls loader demo_bss cs s"
      "pages cs = {unat (p_vaddr demo_bss) div 4096..(unat (p_vaddr demo_bss) + unat (p_memsz demo_bss) - 1) div 4096} \<longleftrightarrow>
        (unat (p_vaddr demo_bss) + unat (p_filesz demo_bss)) mod 4096 + (unat (p_memsz demo_bss) - 1 - unat (p_filesz demo_bss)) mod 4096 < 4096" by blast
  have "unat (p_vaddr demo_bss) = 69632" "unat (p_filesz demo_bss) = 2048" "unat (p_memsz demo_bss) = 4352" by (simp_all add: demo_bss_def)
  then have "pages cs \<noteq> {17..18}" using cs(2) by simp
  then show ?thesis using cs(1) by blast
qed

end
