(* ===== verification/Probe.thy ===== *)
theory Probe
  imports Irq Net_Buf Intervals Uart Boot_Map
begin

text \<open>
  Device discovery, \<^verbatim>\<open>kern/modules/devprober/src/lib.rs\<close>, with the probe functions of the drivers: the
  per-processor controller (\<^verbatim>\<open>irq/riscv_intc.rs\<close>), the platform controller (\<^verbatim>\<open>irq/riscv_plic.rs\<close>), the memory
  (\<^verbatim>\<open>mem.rs\<close>), the serial port (\<^verbatim>\<open>uart/ns16550a.rs\<close>) and virtio devices (\<^verbatim>\<open>net/virtio.rs\<close>), all under
  \<^verbatim>\<open>kern/modules/driver/src\<close>. The device tree is parsed by the \<^verbatim>\<open>fdt\<close> crate: a node is given by what its accessors return.
\<close>

section \<open>Nodes and probers\<close>

text \<open>A property may be absent, or present without having the type that is asked for.\<close>

record fdt_node =
  fn_device_type :: "string option option"
  fn_compatible :: "string list option"
  fn_reg :: "(usize \<times> usize option) list option"
  fn_phandle :: "usize option option"
  fn_interrupts :: "usize list option"
  fn_interrupt_parent :: "usize option option option"

datatype DevIdent = DeviceType string | Compatible string

type_synonym 'w probe_fn = "fdt_node \<Rightarrow> 'w \<Rightarrow> unit res \<times> 'w"

type_synonym 'w DevProber = "DevIdent \<times> 'w probe_fn"

definition find_prober :: "(DevIdent \<Rightarrow> bool) \<Rightarrow> 'w DevProber list \<Rightarrow> nat res" where
  "find_prober P ps = unwrap_opt (case filter (\<lambda>i. P (fst (ps ! i))) [0..<length ps] of [] \<Rightarrow> None | i # _ \<Rightarrow> Some i)"

text \<open>\<^verbatim>\<open>slice::swap\<close> panics when an index is out of range.\<close>

definition vec_swap :: "nat \<Rightarrow> nat \<Rightarrow> 'a list \<Rightarrow> 'a list res" where
  "vec_swap i j xs = (if i < length xs \<and> j < length xs then Ok (xs[i := xs ! j, j := xs ! i]) else Panicked)"

definition is_intc :: "DevIdent \<Rightarrow> bool" where
  "is_intc d \<longleftrightarrow> d = Compatible ''riscv,cpu-intc''"

definition is_plic :: "DevIdent \<Rightarrow> bool" where
  "is_plic d \<longleftrightarrow> d = Compatible ''sifive,plic-1.0.0'' \<or> d = Compatible ''riscv,plic0''"

definition is_memory :: "DevIdent \<Rightarrow> bool" where
  "is_memory d \<longleftrightarrow> d = DeviceType ''memory''"

definition order_probers :: "'w DevProber list \<Rightarrow> 'w DevProber list res" where
  "order_probers ps =
     bind_res (find_prober is_intc ps) (\<lambda>i. bind_res (vec_swap i 0 ps) (\<lambda>ps1.
     bind_res (find_prober is_plic ps1) (\<lambda>i. bind_res (vec_swap i 1 ps1) (\<lambda>ps2.
     bind_res (find_prober is_memory ps2) (\<lambda>i. vec_swap i 2 ps2)))))"

definition node_matches :: "DevIdent \<Rightarrow> fdt_node \<Rightarrow> bool" where
  "node_matches d node = (case d of
     DeviceType t \<Rightarrow> (case fn_device_type node of Some (Some ty) \<Rightarrow> ty = t | _ \<Rightarrow> False)
   | Compatible c \<Rightarrow> (case fn_compatible node of Some cs \<Rightarrow> c \<in> set cs | None \<Rightarrow> False))"

fun probe_nodes :: "'w probe_fn \<Rightarrow> fdt_node list \<Rightarrow> 'w \<Rightarrow> unit res \<times> 'w" where
  "probe_nodes probe [] w = (Ok (), w)"
| "probe_nodes probe (node # nodes) w = (case probe node w of
     (Inl e, w') \<Rightarrow> (Inl e, w') | (Inr _, w') \<Rightarrow> probe_nodes probe nodes w')"

fun probe_each :: "'w DevProber list \<Rightarrow> fdt_node list \<Rightarrow> 'w \<Rightarrow> unit res \<times> 'w" where
  "probe_each [] nodes w = (Ok (), w)"
| "probe_each ((ident, probe) # ps) nodes w = (case probe_nodes probe (filter (node_matches ident) nodes) w of
     (Inl e, w') \<Rightarrow> (Inl e, w') | (Inr _, w') \<Rightarrow> probe_each ps nodes w')"

text \<open>The name of the machine, the first string that the root node is compatible with, is kept in a
  write-once variable.\<close>

definition probe_all_device :: "string \<Rightarrow> 'w DevProber list \<Rightarrow> fdt_node list \<Rightarrow> string option \<times> 'w \<Rightarrow> unit res \<times> string option \<times> 'w" where
  "probe_all_device root probers nodes s = (case s of (ROOT_COMPATIBLE, w) \<Rightarrow>
     (case order_probers probers of
        Inl e \<Rightarrow> (Inl e, call_once root ROOT_COMPATIBLE, w)
      | Inr ps \<Rightarrow> (case probe_each ps nodes w of (r, w') \<Rightarrow> (r, call_once root ROOT_COMPATIBLE, w'))))"

definition probe_all :: "string \<Rightarrow> 'w DevProber list \<Rightarrow> fdt_node list \<Rightarrow> string option \<times> 'w \<Rightarrow> unit res \<times> string option \<times> 'w" where
  "probe_all root probers nodes s = (case probe_all_device root probers nodes s of (r, s') \<Rightarrow> (unwrap_res r, s'))"

section \<open>The probe functions\<close>

text \<open>A registered device is known by its kind and the address of its registers.\<close>

datatype device = Dev_Uart usize | Dev_Net usize

record ('h, 'p, 'u, 'd) devices =
  dv_mem :: "'h kmem"
  dv_heap :: 'p
  dv_regs :: regs
  dv_global_intc :: bool
  dv_irq_table :: "usize \<rightharpoonup> device PLICInner"
  dv_plic_phandle :: "usize option"
  dv_uarts :: "usize \<rightharpoonup> 'u NS16550a"
  dv_nets :: "usize \<rightharpoonup> 'd VirtIoNetInner"
  dv_eth0 :: "usize option"

text \<open>What the probe functions use of other code: the two allocators, the devices behind the registers, and
  of \<^verbatim>\<open>virtio-drivers\<close> the transport (with the device type, or an error), the network device over it and the address of its buffers.\<close>

datatype virtio_type = VT_Network | VT_Other nat

record ('h, 'p, 'u, 'd) platform =
  pf_frames :: "'h frame_allocator"
  pf_add_to_heap :: "usize \<Rightarrow> usize \<Rightarrow> 'p \<Rightarrow> 'p"
  pf_kernel_end :: usize
  pf_uart_api :: "'u uart_api"
  pf_uart_at :: "usize \<Rightarrow> 'u"
  pf_transport :: "usize \<Rightarrow> virtio_type option"
  pf_raw_api :: "'d raw_api"
  pf_raw_new :: "usize \<Rightarrow> 'd option"
  pf_pool_addr :: usize

definition intc_probe :: "('h, 'p, 'u, 'd) platform \<Rightarrow> ('h, 'p, 'u, 'd) devices probe_fn" where
  "intc_probe pf node w = (Ok (), w\<lparr>dv_global_intc := True\<rparr>)"

fun map_pages :: "'h frame_allocator \<Rightarrow> usize \<Rightarrow> usize \<Rightarrow> nat list \<Rightarrow> 'h kmem \<Rightarrow> unit res \<times> 'h kmem" where
  "map_pages A vaddr paddr [] m = (Ok (), m)"
| "map_pages A vaddr paddr (i # is) m = (case boot_map A (va_new (vaddr + of_nat i * PAGE_SIZE)) (pa_new (paddr + of_nat i * PAGE_SIZE)) m of
     (Inl e, m') \<Rightarrow> (Inl e, m') | (Inr _, m') \<Rightarrow> map_pages A vaddr paddr is m')"

text \<open>The first entry of \<^verbatim>\<open>reg\<close> with its size.\<close>

definition first_reg :: "fdt_node \<Rightarrow> (usize \<times> usize option) res" where
  "first_reg node = bind_res (ok_or (fn_reg node) DevProbeError) (\<lambda>rs.
     case rs of [] \<Rightarrow> Fail DevProbeError | r # _ \<Rightarrow> Ok r)"

text \<open>The platform controller. As in a release build, the size computations wrap around. The registers are a total function here:
  an access outside the mapped pages, which faults on the machine, is not an error of the model; \<open>plic_writes_mapped\<close> below shows
  that there is none when the size is at least \<^verbatim>\<open>0x201000\<close>.\<close>

definition plic_probe :: "('h, 'p, 'u, 'd) platform \<Rightarrow> ('h, 'p, 'u, 'd) devices probe_fn" where
  "plic_probe pf node w = (case bind_res (first_reg node) (\<lambda>(start, sz).
       bind_res (ok_or sz DevProbeError) (\<lambda>sz.
       bind_res (ok_or (fn_phandle node) DevProbeError) (\<lambda>ph.
       bind_res (unwrap_opt ph) (\<lambda>phandle. Ok (start, sz, phandle))))) of
     Inl e \<Rightarrow> (Inl e, w)
   | Inr (start, sz, phandle) \<Rightarrow>
       (let addr = start + vmr_addr EXTERNAL_DEVICE_REGION;
            context_max_id = (sz - 0x200000) div 0x1000 - 1;
            cnt = sz div PAGE_SIZE
        in case map_pages (pf_frames pf) addr start [0..<unat cnt] (dv_mem w) of
             (Inl e, m) \<Rightarrow> (Inl e, w\<lparr>dv_mem := m\<rparr>)
           | (Inr _, m) \<Rightarrow> (case plic_new addr (unat context_max_id) (dv_regs w) of
               Inl e \<Rightarrow> (Inl e, w\<lparr>dv_mem := m\<rparr>)
             | Inr (p, r) \<Rightarrow> (Ok (), w\<lparr>dv_mem := m, dv_regs := r, dv_irq_table := (dv_irq_table w)(phandle \<mapsto> p),
                 dv_plic_phandle := call_once phandle (dv_plic_phandle w)\<rparr>))))"

definition memory_probe :: "('h, 'p, 'u, 'd) platform \<Rightarrow> ('h, 'p, 'u, 'd) devices probe_fn" where
  "memory_probe pf node w = (case mem_probe (pf_add_to_heap pf) (pf_kernel_end pf) (fn_reg node) (dv_heap w) of
     (r, heap) \<Rightarrow> (r, w\<lparr>dv_heap := heap\<rparr>))"

definition first_interrupt :: "fdt_node \<Rightarrow> usize res" where
  "first_interrupt node = bind_res (ok_or (fn_interrupts node) DevProbeError) (\<lambda>is.
     case is of [] \<Rightarrow> Fail DevProbeError | i # _ \<Rightarrow> Ok i)"

definition parent_phandle :: "fdt_node \<Rightarrow> usize res" where
  "parent_phandle node = bind_res (ok_or (fn_interrupt_parent node) DevProbeError) (\<lambda>p.
     bind_res (ok_or p DevProbeError) unwrap_opt)"

text \<open>Registering a device: the controller of the interrupt parent must be in the table.\<close>

definition register_at :: "usize \<Rightarrow> usize \<Rightarrow> device \<Rightarrow> ('h, 'p, 'u, 'd) devices \<Rightarrow> unit res \<times> ('h, 'p, 'u, 'd) devices" where
  "register_at interrupt_parent irq_num dev w = (case dv_irq_table w interrupt_parent of
     None \<Rightarrow> (Panicked, w)
   | Some p \<Rightarrow> (case ic_register_device irq_num dev p (dv_regs w) of
       (p', r) \<Rightarrow> (Ok (), w\<lparr>dv_irq_table := (dv_irq_table w)(interrupt_parent \<mapsto> p'), dv_regs := r\<rparr>)))"

definition uart_probe :: "('h, 'p, 'u, 'd) platform \<Rightarrow> ('h, 'p, 'u, 'd) devices probe_fn" where
  "uart_probe pf node w = (case bind_res (first_reg node) (\<lambda>(start, sz).
       bind_res (ok_or sz DevProbeError) (\<lambda>sz.
       bind_res (first_interrupt node) (\<lambda>irq_num.
       bind_res (parent_phandle node) (\<lambda>interrupt_parent. Ok (start, irq_num, interrupt_parent))))) of
     Inl e \<Rightarrow> (Inl e, w)
   | Inr (start, irq_num, interrupt_parent) \<Rightarrow>
       (let vaddr = start + vmr_addr EXTERNAL_DEVICE_REGION
        in case boot_map (pf_frames pf) (va_new vaddr) (pa_new start) (dv_mem w) of
             (Inl e, m) \<Rightarrow> (Inl e, w\<lparr>dv_mem := m\<rparr>)
           | (Inr _, m) \<Rightarrow>
               (let w = w\<lparr>dv_mem := m\<rparr>
                in if dv_irq_table w interrupt_parent = None then (Panicked, w)
                   else case ns_new (pf_uart_api pf) vaddr (pf_uart_at pf vaddr) of
                     Inl e \<Rightarrow> (Inl e, w)
                   | Inr u \<Rightarrow> register_at interrupt_parent irq_num (Dev_Uart vaddr) (w\<lparr>dv_uarts := (dv_uarts w)(vaddr \<mapsto> u)\<rparr>))))"

text \<open>\<^verbatim>\<open>smoltcp_impl::init\<close> sets the interface once.\<close>

definition virtio_device :: "('h, 'p, 'u, 'd) platform \<Rightarrow> usize \<Rightarrow> virtio_type \<Rightarrow> usize \<Rightarrow> usize \<Rightarrow>
  ('h, 'p, 'u, 'd) devices \<Rightarrow> unit res \<times> ('h, 'p, 'u, 'd) devices" where
  "virtio_device pf vaddr ty interrupt_parent irq_num w = (case ty of
     VT_Other _ \<Rightarrow> (Ok (), w)
   | VT_Network \<Rightarrow> (case bind_res (unwrap_opt (pf_raw_new pf vaddr)) (\<lambda>raw. unwrap_res (vn_new (pf_raw_api pf) (pf_pool_addr pf) raw)) of
       Inl e \<Rightarrow> (Inl e, w)
     | Inr dev \<Rightarrow> (case register_at interrupt_parent irq_num (Dev_Net vaddr) (w\<lparr>dv_nets := (dv_nets w)(vaddr \<mapsto> dev)\<rparr>) of
         (Inl e, w') \<Rightarrow> (Inl e, w')
       | (Inr _, w') \<Rightarrow> (Ok (), w'\<lparr>dv_eth0 := call_once vaddr (dv_eth0 w')\<rparr>))))"

definition virtio_probe :: "('h, 'p, 'u, 'd) platform \<Rightarrow> ('h, 'p, 'u, 'd) devices probe_fn" where
  "virtio_probe pf node w = (case bind_res (first_reg node) (\<lambda>(paddr, sz).
       bind_res (ok_or sz DevProbeError) (\<lambda>sz.
       bind_res (parent_phandle node) (\<lambda>interrupt_parent.
       bind_res (first_interrupt node) (\<lambda>irq_num. Ok (paddr, interrupt_parent, irq_num))))) of
     Inl e \<Rightarrow> (Inl e, w)
   | Inr (paddr, interrupt_parent, irq_num) \<Rightarrow>
       (let vaddr = paddr + vmr_addr EXTERNAL_DEVICE_REGION
        in case boot_map (pf_frames pf) (va_new vaddr) (pa_new paddr) (dv_mem w) of
             (Inl e, m) \<Rightarrow> (Inl e, w\<lparr>dv_mem := m\<rparr>)
           | (Inr _, m) \<Rightarrow>
               if vaddr = 0 then (Panicked, w\<lparr>dv_mem := m\<rparr>)
               else case pf_transport pf vaddr of
                 None \<Rightarrow> (Ok (), w\<lparr>dv_mem := m\<rparr>)
               | Some ty \<Rightarrow> virtio_device pf vaddr ty interrupt_parent irq_num (w\<lparr>dv_mem := m\<rparr>)))"

text \<open>The probers that the linker collects, in the order of their sections (the order within a section is not
  fixed by the sources).\<close>

definition kernel_probers :: "('h, 'p, 'u, 'd) platform \<Rightarrow> ('h, 'p, 'u, 'd) devices DevProber list" where
  "kernel_probers pf = [(Compatible ''riscv,cpu-intc'', intc_probe pf), (Compatible ''sifive,plic-1.0.0'', plic_probe pf),
     (Compatible ''virtio,mmio'', virtio_probe pf), (Compatible ''ns16550a'', uart_probe pf), (DeviceType ''memory'', memory_probe pf)]"

section \<open>The order of the probers\<close>

lemma find_prober_ok:
  assumes "\<exists>p\<in>set ps. P (fst p)"
  shows "\<exists>i. find_prober P ps = Ok i \<and> i < length ps \<and> P (fst (ps ! i))"
proof -
  obtain k where "k < length ps" "P (fst (ps ! k))" using assms by (metis in_set_conv_nth)
  then have "k \<in> set (filter (\<lambda>i. P (fst (ps ! i))) [0..<length ps])" by simp
  then obtain i js where i: "filter (\<lambda>i. P (fst (ps ! i))) [0..<length ps] = i # js" by (cases "filter (\<lambda>i. P (fst (ps ! i))) [0..<length ps]") auto
  then have "i \<in> set (filter (\<lambda>i. P (fst (ps ! i))) [0..<length ps])" by simp
  then have "i < length ps \<and> P (fst (ps ! i))" unfolding set_filter by simp
  then show ?thesis using i by (simp add: find_prober_def)
qed

lemma mset_swap2: "i < length xs \<Longrightarrow> j < length xs \<Longrightarrow> mset (xs[i := xs ! j, j := xs ! i]) = mset xs"
  by (rule mset_swap)

lemma swap_nth: "i < length xs \<Longrightarrow> j < length xs \<Longrightarrow> xs[i := xs ! j, j := xs ! i] ! j = xs ! i"
  "k \<noteq> i \<Longrightarrow> k \<noteq> j \<Longrightarrow> xs[i := xs ! j, j := xs ! i] ! k = xs ! k"
  by simp_all

text \<open>One swap: the first prober of a kind goes to position \<open>k\<close>, everything before \<open>k\<close> stays.\<close>

lemma swap_step:
  assumes "\<exists>p\<in>set ps. P (fst p)" "\<forall>i<k. i < length ps \<and> \<not> P (fst (ps ! i))"
  shows "\<exists>i qs. find_prober P ps = Ok i \<and> vec_swap i k ps = Ok qs \<and> mset qs = mset ps \<and> P (fst (qs ! k)) \<and> (\<forall>j<k. qs ! j = ps ! j) \<and> k < length qs"
proof -
  obtain i where i: "find_prober P ps = Ok i" "i < length ps" "P (fst (ps ! i))" using find_prober_ok [of ps P] assms(1) by blast
  have ki: "k \<le> i"
  proof (rule ccontr)
    assume "\<not> k \<le> i"
    then show False using assms(2) i(3) by simp
  qed
  then have k: "k < length ps" using i(2) by simp
  let ?qs = "ps[i := ps ! k, k := ps ! i]"
  have "\<forall>j<k. ?qs ! j = ps ! j" using ki by simp
  then show ?thesis using i k mset_swap2 [OF i(2) k] by (intro exI [of _ i] exI [of _ ?qs]) (simp add: vec_swap_def)
qed

lemma kinds_apart: "is_intc d \<Longrightarrow> \<not> is_plic d" "is_intc d \<Longrightarrow> \<not> is_memory d" "is_plic d \<Longrightarrow> \<not> is_memory d"
  by (auto simp: is_intc_def is_plic_def is_memory_def)

lemma order_probers_ok:
  assumes "\<exists>p\<in>set ps. is_intc (fst p)" "\<exists>p\<in>set ps. is_plic (fst p)" "\<exists>p\<in>set ps. is_memory (fst p)"
  shows "\<exists>qs. order_probers ps = Ok qs \<and> mset qs = mset ps \<and> is_intc (fst (qs ! 0)) \<and> is_plic (fst (qs ! 1)) \<and> is_memory (fst (qs ! 2)) \<and> 2 < length qs"
proof -
  obtain i1 p1 where p1: "find_prober is_intc ps = Ok i1" "vec_swap i1 0 ps = Ok p1" "mset p1 = mset ps" "is_intc (fst (p1 ! 0))" "0 < length p1"
    using swap_step [OF assms(1), of 0] by auto
  have s1: "set p1 = set ps" using p1(3) by (rule mset_eq_setD)
  obtain i2 p2 where p2: "find_prober is_plic p1 = Ok i2" "vec_swap i2 1 p1 = Ok p2" "mset p2 = mset p1" "is_plic (fst (p2 ! 1))" "p2 ! 0 = p1 ! 0" "1 < length p2"
    using swap_step [of p1 is_plic 1] assms(2) s1 p1(4,5) kinds_apart by fastforce
  have s2: "set p2 = set ps" using mset_eq_setD [OF p2(3)] s1 by simp
  have "\<forall>i<2. i < length p2 \<and> \<not> is_memory (fst (p2 ! i))"
    using p1(4) p2(4,5,6) kinds_apart by (auto simp: less_2_cases_iff)
  then obtain i3 p3 where p3: "find_prober is_memory p2 = Ok i3" "vec_swap i3 2 p2 = Ok p3" "mset p3 = mset p2" "is_memory (fst (p3 ! 2))"
    "\<forall>j<2. p3 ! j = p2 ! j" "2 < length p3"
    using swap_step [of p2 is_memory 2] assms(3) s2 by auto
  have "p3 ! 0 = p1 ! 0" "p3 ! 1 = p2 ! 1" using p3(5) p2(5) by simp_all
  then show ?thesis using p1 p2 p3 by (intro exI [of _ p3]) (simp add: order_probers_def)
qed

section \<open>Probing succeeds\<close>

text \<open>
  What probing relies on when it maps registers: from memories satisfying \<open>I\<close>, mapping one of the addresses \<open>pages\<close>
  succeeds, keeps \<open>I\<close>, and adds to the addresses that are mapped (\<open>M\<close>). \<open>boot_mapper\<close> shows it for the boot page table.
\<close>

definition mapper_ok :: "'h frame_allocator \<Rightarrow> ('h kmem \<Rightarrow> bool) \<Rightarrow> ('h kmem \<Rightarrow> usize \<Rightarrow> bool) \<Rightarrow> usize set \<Rightarrow> bool" where
  "mapper_ok A I M pages \<longleftrightarrow> (\<forall>p\<in>pages. \<forall>m. I m \<longrightarrow> (\<exists>m'. boot_map A (device_va p) (pa_new p) m = (Ok (), m') \<and> I m' \<and>
     M m' p \<and> (\<forall>q. M m q \<longrightarrow> M m' q)))"

lemma mapper_map:
  assumes "mapper_ok A I M pages" "p \<in> pages" "I m"
  shows "\<exists>m'. boot_map A (device_va p) (pa_new p) m = (Ok (), m') \<and> I m' \<and> M m' p \<and> (\<forall>q. M m q \<longrightarrow> M m' q)"
  using assms by (simp add: mapper_ok_def)

lemma boot_mapper:
  assumes "frame_allocator_ok A in_use" "frames_for A in_use n" "finite pages" "\<forall>p\<in>pages. p < 0x100000000"
  shows "mapper_ok A (boot_ready r in_use n pages) (device_mapped r) pages"
  unfolding mapper_ok_def using boot_map_device [OF assms(1,2)] assms(3,4) by blast

lemma map_pages_total:
  assumes "mapper_ok A I M pages"
  shows "I m \<Longrightarrow> \<forall>i\<in>set xs. start + of_nat i * PAGE_SIZE \<in> pages \<Longrightarrow>
    \<exists>m'. map_pages A (start + vmr_addr EXTERNAL_DEVICE_REGION) start xs m = (Ok (), m') \<and> I m' \<and>
      (\<forall>i\<in>set xs. M m' (start + of_nat i * PAGE_SIZE)) \<and> (\<forall>q. M m q \<longrightarrow> M m' q)"
proof (induction xs arbitrary: m)
  case (Cons i xs)
  let ?p = "start + of_nat i * PAGE_SIZE"
  obtain m1 where m1: "boot_map A (device_va ?p) (pa_new ?p) m = (Ok (), m1)" "I m1" "M m1 ?p" "\<forall>q. M m q \<longrightarrow> M m1 q"
    using mapper_map [OF assms _ Cons.prems(1), of ?p] Cons.prems(2) by auto
  have a: "start + vmr_addr EXTERNAL_DEVICE_REGION + of_nat i * PAGE_SIZE = ?p + vmr_addr EXTERNAL_DEVICE_REGION" by simp
  have e: "map_pages A (start + vmr_addr EXTERNAL_DEVICE_REGION) start (i # xs) m = map_pages A (start + vmr_addr EXTERNAL_DEVICE_REGION) start xs m1"
    unfolding map_pages.simps a m1(1) by simp
  show ?case unfolding e using Cons.IH [OF m1(2)] Cons.prems(2) m1(3,4) by auto
qed simp

text \<open>Probing a list of nodes: an invariant \<open>I\<close> that every probe keeps, and a result \<open>Q\<close> that the probe of a node
  establishes and the probes of other nodes keep.\<close>

lemma probe_nodes_all:
  assumes "\<And>node w. node \<in> set ns \<Longrightarrow> I w \<Longrightarrow> \<exists>w'. probe node w = (Ok (), w') \<and> I w' \<and> Q node w' \<and> (\<forall>n\<in>N. n \<noteq> node \<longrightarrow> Q n w \<longrightarrow> Q n w')"
    and "set ns \<subseteq> N" "I w"
  shows "\<exists>w'. probe_nodes probe ns w = (Ok (), w') \<and> I w' \<and> (\<forall>n\<in>set ns. Q n w') \<and> (\<forall>n\<in>N. Q n w \<longrightarrow> Q n w')"
  using assms
proof (induction ns arbitrary: w)
  case (Cons node ns)
  obtain w1 where w1: "probe node w = (Ok (), w1)" "I w1" "Q node w1" "\<forall>n\<in>N. n \<noteq> node \<longrightarrow> Q n w \<longrightarrow> Q n w1"
    using Cons.prems(1) [of node w] Cons.prems(3) by auto
  have "\<exists>w'. probe_nodes probe ns w1 = (Ok (), w') \<and> I w' \<and> (\<forall>n\<in>set ns. Q n w') \<and> (\<forall>n\<in>N. Q n w1 \<longrightarrow> Q n w')"
    by (rule Cons.IH) (use Cons.prems w1(2) in auto)
  then show ?case using w1 Cons.prems(2) by (metis (no_types, lifting) case_prod_conv insert_iff insert_subset list.set(2) old.sum.simps(6) probe_nodes.simps(2))
qed simp

text \<open>The devices of a tree, and what makes a tree fit for probing.\<close>

abbreviation plic_id :: DevIdent where "plic_id \<equiv> Compatible ''sifive,plic-1.0.0''"
abbreviation uart_id :: DevIdent where "uart_id \<equiv> Compatible ''ns16550a''"
abbreviation virtio_id :: DevIdent where "virtio_id \<equiv> Compatible ''virtio,mmio''"
abbreviation memory_id :: DevIdent where "memory_id \<equiv> DeviceType ''memory''"

definition reg_vaddr :: "fdt_node \<Rightarrow> usize" where
  "reg_vaddr node = (case first_reg node of Inr (start, _) \<Rightarrow> start + vmr_addr EXTERNAL_DEVICE_REGION | Inl _ \<Rightarrow> 0)"

definition device_of :: "('h, 'p, 'u, 'd) platform \<Rightarrow> fdt_node \<Rightarrow> device option" where
  "device_of pf node = (if node_matches uart_id node then Some (Dev_Uart (reg_vaddr node))
     else if node_matches virtio_id node \<and> pf_transport pf (reg_vaddr node) = Some VT_Network then Some (Dev_Net (reg_vaddr node)) else None)"

definition driver_at :: "('h, 'p, 'u, 'd) devices \<Rightarrow> usize \<Rightarrow> usize \<Rightarrow> device option" where
  "driver_at w p i = (case dv_irq_table w p of None \<Rightarrow> None | Some pl \<Rightarrow> (case im_table (pl_irq_manager pl) i of None \<Rightarrow> None | Some d \<Rightarrow> d))"

definition registered :: "('h, 'p, 'u, 'd) devices \<Rightarrow> fdt_node \<Rightarrow> device \<Rightarrow> bool" where
  "registered w node dev \<longleftrightarrow> (\<exists>p i. parent_phandle node = Ok p \<and> first_interrupt node = Ok i \<and> driver_at w p i = Some dev)"

definition dev_key :: "fdt_node \<Rightarrow> usize res \<times> usize res" where
  "dev_key node = (parent_phandle node, first_interrupt node)"

definition plic_phandles :: "fdt_node list \<Rightarrow> usize set" where
  "plic_phandles nodes = {p. \<exists>c\<in>set nodes. node_matches plic_id c \<and> fn_phandle c = Some (Some p)}"

definition dev_node_ok :: "fdt_node list \<Rightarrow> fdt_node \<Rightarrow> bool" where
  "dev_node_ok nodes node \<longleftrightarrow> (\<exists>start sz irq p. first_reg node = Ok (start, Some sz) \<and> first_interrupt node = Ok irq \<and> 1 \<le> irq \<and> irq < 1024 \<and>
     parent_phandle node = Ok p \<and> p \<in> plic_phandles nodes)"

definition plic_node_ok :: "fdt_node \<Rightarrow> bool" where
  "plic_node_ok node \<longleftrightarrow> (\<exists>start sz p. first_reg node = Ok (start, Some sz) \<and> unat start mod 4 = 0 \<and> 0x201000 \<le> sz \<and> fn_phandle node = Some (Some p))"

definition memory_node_ok :: "fdt_node \<Rightarrow> bool" where
  "memory_node_ok node \<longleftrightarrow> (\<exists>regs. fn_reg node = Some regs \<and>
     (\<forall>(start, sz)\<in>set regs. \<forall>n. sz = Some n \<longrightarrow> unat start + unat n \<le> unat PHYS_MEM_LIMIT))"

text \<open>What is asked of the \<^verbatim>\<open>virtio-drivers\<close> crate where a network device answers: its \<^verbatim>\<open>VirtIONetRaw::new\<close> succeeds, the receive
  queue of the new device is empty and hands out its descriptors in order, and the buffer header always fits.\<close>

definition net_ok :: "('h, 'p, 'u, 'd) platform \<Rightarrow> usize \<Rightarrow> bool" where
  "net_ok pf vaddr \<longleftrightarrow> vaddr \<noteq> 0 \<and> (pf_transport pf vaddr = Some VT_Network \<longrightarrow>
     (\<exists>raw used h. pf_raw_new pf vaddr = Some raw \<and> rx_in_order (pf_raw_api pf) used \<and> used raw = 0 \<and>
        (\<forall>r d. raw_fill_buffer_header (pf_raw_api pf) r d = Some h)))"

text \<open>From that the constructor of the driver succeeds.\<close>

lemma net_ok_new:
  assumes "net_ok pf vaddr" "pf_transport pf vaddr = Some VT_Network"
  shows "\<exists>raw dev. pf_raw_new pf vaddr = Some raw \<and> vn_new (pf_raw_api pf) (pf_pool_addr pf) raw = Ok dev"
  using assms vn_new_total [of "pf_raw_api pf"] unfolding net_ok_def by metis

definition tree_ok :: "('h, 'p, 'u, 'd) platform \<Rightarrow> fdt_node list \<Rightarrow> bool" where
  "tree_ok pf nodes \<longleftrightarrow> (\<forall>n\<in>set nodes.
     (node_matches plic_id n \<longrightarrow> plic_node_ok n) \<and> (node_matches memory_id n \<longrightarrow> memory_node_ok n) \<and>
     (node_matches uart_id n \<longrightarrow> dev_node_ok nodes n \<and> \<not> node_matches virtio_id n) \<and>
     (node_matches virtio_id n \<longrightarrow> dev_node_ok nodes n \<and> net_ok pf (reg_vaddr n))) \<and>
     inj_on dev_key {n \<in> set nodes. node_matches uart_id n \<or> node_matches virtio_id n}"

text \<open>The register addresses that probing maps: all pages of a platform controller, the first of any other device.\<close>

definition plic_pages :: "fdt_node \<Rightarrow> usize set" where
  "plic_pages node = (case first_reg node of
     Inr (start, Some sz) \<Rightarrow> (\<lambda>i. start + of_nat i * PAGE_SIZE) ` {..<unat (sz div PAGE_SIZE)} | _ \<Rightarrow> {})"

definition dev_pages :: "fdt_node \<Rightarrow> usize set" where
  "dev_pages node = (case first_reg node of Inr (start, _) \<Rightarrow> {start} | _ \<Rightarrow> {})"

definition probe_pages :: "fdt_node list \<Rightarrow> usize set" where
  "probe_pages nodes = (\<Union>n\<in>set (filter (node_matches plic_id) nodes). plic_pages n) \<union>
     (\<Union>n\<in>{n \<in> set nodes. node_matches uart_id n \<or> node_matches virtio_id n}. dev_pages n)"

text \<open>The invariant: the memory satisfies \<open>I\<close>, the controllers in \<open>PH\<close> are in the table, and every
  controller accepts the interrupts 1 to 1023.\<close>

definition dv_inv :: "('h kmem \<Rightarrow> bool) \<Rightarrow> usize set \<Rightarrow> ('h, 'p, 'u, 'd) devices \<Rightarrow> bool" where
  "dv_inv I PH w \<longleftrightarrow> I (dv_mem w) \<and> PH \<subseteq> dom (dv_irq_table w) \<and>
     (\<forall>p pl. dv_irq_table w p = Some pl \<longrightarrow> im_range (pl_irq_manager pl) = IRQ_RANGE)"

lemma register_at_ok:
  assumes "dv_inv I PH w" "p \<in> PH" "1 \<le> irq" "irq < 1024"
  shows "\<exists>w'. register_at p irq dev w = (Ok (), w') \<and> dv_inv I PH w' \<and> driver_at w' p irq = Some dev \<and> dv_mem w' = dv_mem w \<and>
    (\<forall>n d. dev_key n \<noteq> (Ok p, Ok irq) \<longrightarrow> registered w n d \<longrightarrow> registered w' n d)"
proof -
  obtain pl where pl: "dv_irq_table w p = Some pl" "im_range (pl_irq_manager pl) = IRQ_RANGE" using assms(1,2) by (auto simp: dv_inv_def)
  have irq0: "irq \<noteq> 0" using assms(3) by auto
  then have c: "im_contains (pl_irq_manager pl) irq" using assms(3,4) pl(2) by (simp add: im_contains_def IRQ_RANGE_def)
  let ?pl = "pl\<lparr>pl_irq_manager := (pl_irq_manager pl)\<lparr>im_table := (im_table (pl_irq_manager pl))(irq \<mapsto> Some dev)\<rparr>\<rparr>"
  let ?w = "w\<lparr>dv_irq_table := (dv_irq_table w)(p \<mapsto> ?pl), dv_regs := plic_set_priority pl irq 7 (dv_regs w)\<rparr>"
  have r: "register_at p irq dev w = (Ok (), ?w)"
    using pl(1) c irq0 by (simp add: register_at_def ic_register_device_def im_register_device_def)
  have "dv_inv I PH ?w" using assms(1) pl by (auto simp: dv_inv_def)
  moreover have "registered ?w n d" if k1: "dev_key n \<noteq> (Ok p, Ok irq)" and k2: "registered w n d" for n d
  proof -
    obtain p' i' where k: "parent_phandle n = Ok p'" "first_interrupt n = Ok i'" "driver_at w p' i' = Some d" using k2 by (auto simp: registered_def)
    then have "driver_at ?w p' i' = driver_at w p' i'" using k1 pl(1) by (auto simp: driver_at_def dev_key_def)
    then show ?thesis using k by (simp add: registered_def)
  qed
  moreover have "driver_at ?w p irq = Some dev" by (simp add: driver_at_def)
  ultimately show ?thesis using r by (intro exI [of _ ?w]) simp
qed

lemma dv_inv_memD: "dv_inv I PH w \<Longrightarrow> I (dv_mem w)"
  by (simp add: dv_inv_def)

lemma dv_inv_mem: "dv_inv I PH w \<Longrightarrow> I m \<Longrightarrow> dv_inv I PH (w\<lparr>dv_mem := m\<rparr>)"
  by (simp add: dv_inv_def)

lemma dv_fields [simp]:
  "registered (w\<lparr>dv_mem := m\<rparr>) = registered w" "registered (w\<lparr>dv_uarts := u\<rparr>) = registered w" "registered (w\<lparr>dv_nets := x\<rparr>) = registered w"
  "registered (w\<lparr>dv_eth0 := y\<rparr>) = registered w" "dv_inv I PH (w\<lparr>dv_uarts := u\<rparr>) = dv_inv I PH w" "dv_inv I PH (w\<lparr>dv_nets := x\<rparr>) = dv_inv I PH w"
  "dv_inv I PH (w\<lparr>dv_eth0 := y\<rparr>) = dv_inv I PH w"
  by (simp_all add: registered_def driver_at_def dv_inv_def fun_eq_iff)

text \<open>Memory in which the addresses \<open>P\<close> are mapped, and all that were mapped before.\<close>

definition more_mapped :: "('h kmem \<Rightarrow> usize \<Rightarrow> bool) \<Rightarrow> usize set \<Rightarrow> ('h, 'p, 'u, 'd) devices \<Rightarrow> ('h, 'p, 'u, 'd) devices \<Rightarrow> bool" where
  "more_mapped M P w w' \<longleftrightarrow> (\<forall>p\<in>P. M (dv_mem w') p) \<and> (\<forall>q. M (dv_mem w) q \<longrightarrow> M (dv_mem w') q)"

lemma more_mapped_trans: "more_mapped M P w w1 \<Longrightarrow> more_mapped M Q w1 w2 \<Longrightarrow> more_mapped M (P \<union> Q) w w2"
  by (auto simp: more_mapped_def)

lemma uart_probe_ok:
  assumes "mapper_ok (pf_frames pf) I M pages" "dv_inv I (plic_phandles nodes) w" "dev_node_ok nodes node" "dev_pages node \<subseteq> pages"
  shows "\<exists>w'. uart_probe pf node w = (Ok (), w') \<and> dv_inv I (plic_phandles nodes) w' \<and> registered w' node (Dev_Uart (reg_vaddr node)) \<and>
    more_mapped M (dev_pages node) w w' \<and>
    (\<forall>n d. dev_key n \<noteq> dev_key node \<longrightarrow> registered w n d \<longrightarrow> registered w' n d)"
proof -
  obtain start sz irq p where n: "first_reg node = Ok (start, Some sz)" "first_interrupt node = Ok irq" "1 \<le> irq" "irq < 1024"
    "parent_phandle node = Ok p" "p \<in> plic_phandles nodes" using assms(3) by (auto simp: dev_node_ok_def)
  let ?v = "start + vmr_addr EXTERNAL_DEVICE_REGION"
  have dp: "dev_pages node = {start}" using n(1) by (simp add: dev_pages_def)
  obtain m where m: "boot_map (pf_frames pf) (va_new ?v) (pa_new start) (dv_mem w) = (Ok (), m)" "I m" "M m start" "\<forall>q. M (dv_mem w) q \<longrightarrow> M m q"
    using mapper_map [OF assms(1) _ dv_inv_memD [OF assms(2)], of start] assms(4) dp by auto
  obtain u where u: "ns_new (pf_uart_api pf) ?v (pf_uart_at pf ?v) = Ok u" by (simp add: ns_new_def ns_init_def word_mod_def)
  let ?w = "w\<lparr>dv_mem := m, dv_uarts := (dv_uarts w)(?v \<mapsto> u)\<rparr>"
  have inv: "dv_inv I (plic_phandles nodes) ?w" using dv_inv_mem [OF assms(2) m(2)] by simp
  have "dv_irq_table w p \<noteq> None" using assms(2) n(6) by (auto simp: dv_inv_def)
  then have r: "uart_probe pf node w = register_at p irq (Dev_Uart ?v) ?w"
    using n m(1) u by (auto simp: uart_probe_def Let_def)
  have v: "reg_vaddr node = ?v" using n(1) by (simp add: reg_vaddr_def)
  have k: "dev_key node = (Ok p, Ok irq)" using n(2,5) by (simp add: dev_key_def)
  from register_at_ok [OF inv n(6,3,4), of "Dev_Uart ?v"] obtain w' where
    "register_at p irq (Dev_Uart ?v) ?w = (Ok (), w')" "dv_inv I (plic_phandles nodes) w'" "driver_at w' p irq = Some (Dev_Uart ?v)" "dv_mem w' = m"
    "\<forall>n d. dev_key n \<noteq> (Ok p, Ok irq) \<longrightarrow> registered w n d \<longrightarrow> registered w' n d" by auto
  then show ?thesis unfolding r v k dp using n(2,5) m(3,4) by (intro exI [of _ w']) (simp add: registered_def more_mapped_def)
qed

lemma virtio_probe_ok:
  assumes "mapper_ok (pf_frames pf) I M pages" "dv_inv I (plic_phandles nodes) w" "dev_node_ok nodes node" "dev_pages node \<subseteq> pages"
    and "net_ok pf (reg_vaddr node)"
  shows "\<exists>w'. virtio_probe pf node w = (Ok (), w') \<and> dv_inv I (plic_phandles nodes) w' \<and>
    (pf_transport pf (reg_vaddr node) = Some VT_Network \<longrightarrow> registered w' node (Dev_Net (reg_vaddr node))) \<and>
    more_mapped M (dev_pages node) w w' \<and> (\<forall>n d. dev_key n \<noteq> dev_key node \<longrightarrow> registered w n d \<longrightarrow> registered w' n d)"
proof -
  obtain start sz irq p where n: "first_reg node = Ok (start, Some sz)" "first_interrupt node = Ok irq" "1 \<le> irq" "irq < 1024"
    "parent_phandle node = Ok p" "p \<in> plic_phandles nodes" using assms(3) by (auto simp: dev_node_ok_def)
  let ?v = "start + vmr_addr EXTERNAL_DEVICE_REGION"
  have v: "reg_vaddr node = ?v" using n(1) by (simp add: reg_vaddr_def)
  have k: "dev_key node = (Ok p, Ok irq)" using n(2,5) by (simp add: dev_key_def)
  have dp: "dev_pages node = {start}" using n(1) by (simp add: dev_pages_def)
  obtain m where m: "boot_map (pf_frames pf) (va_new ?v) (pa_new start) (dv_mem w) = (Ok (), m)" "I m" "M m start" "\<forall>q. M (dv_mem w) q \<longrightarrow> M m q"
    using mapper_map [OF assms(1) _ dv_inv_memD [OF assms(2)], of start] assms(4) dp by auto
  let ?w = "w\<lparr>dv_mem := m\<rparr>"
  have inv: "dv_inv I (plic_phandles nodes) ?w" using dv_inv_mem [OF assms(2) m(2)] by simp
  have r: "virtio_probe pf node w = (case pf_transport pf ?v of None \<Rightarrow> (Ok (), ?w) | Some ty \<Rightarrow> virtio_device pf ?v ty p irq ?w)"
    using n m(1) assms(5) v by (auto simp: virtio_probe_def Let_def net_ok_def)
  show ?thesis
  proof (cases "pf_transport pf ?v = Some VT_Network")
    case True
    then obtain raw dev where raw: "pf_raw_new pf ?v = Some raw" "vn_new (pf_raw_api pf) (pf_pool_addr pf) raw = Ok dev"
      using net_ok_new [OF assms(5)] v by auto
    let ?w1 = "?w\<lparr>dv_nets := (dv_nets ?w)(?v \<mapsto> dev)\<rparr>"
    have "dv_inv I (plic_phandles nodes) ?w1" using inv by simp
    from register_at_ok [OF this n(6,3,4), of "Dev_Net ?v"] obtain w' where
      w': "register_at p irq (Dev_Net ?v) ?w1 = (Ok (), w')" "dv_inv I (plic_phandles nodes) w'" "driver_at w' p irq = Some (Dev_Net ?v)" "dv_mem w' = m"
      "\<forall>n d. dev_key n \<noteq> (Ok p, Ok irq) \<longrightarrow> registered w n d \<longrightarrow> registered w' n d" by auto
    have e: "virtio_probe pf node w = (Ok (), w'\<lparr>dv_eth0 := call_once ?v (dv_eth0 w')\<rparr>)"
      using True raw w'(1) unfolding r by (simp add: virtio_device_def)
    have "registered w' node (Dev_Net ?v)" using n(2,5) w'(3) by (simp add: registered_def)
    then show ?thesis unfolding v k e dp using w'(2,4,5) m(3,4) by (intro exI [of _ "w'\<lparr>dv_eth0 := call_once ?v (dv_eth0 w')\<rparr>"]) (simp add: more_mapped_def)
  next
    case False
    then have "virtio_probe pf node w = (Ok (), ?w)" unfolding r by (auto simp: virtio_device_def split: option.splits virtio_type.splits)
    then show ?thesis unfolding v dp using False inv m(3,4) by (intro exI [of _ ?w]) (simp add: more_mapped_def)
  qed
qed

lemma word_mod4: "unat (a :: usize) mod 4 = 0 \<Longrightarrow> unat b mod 4 = 0 \<Longrightarrow> (a + b) mod 4 = 0"
proof -
  assume "unat a mod 4 = 0" "unat b mod 4 = 0"
  then have "(unat a + unat b) mod 2 ^ 64 mod 4 = 0" by (simp add: mod_mod_cancel) presburger
  then have "unat (a + b) mod 4 = 0" by (simp add: unat_word_ariths)
  then show ?thesis by (simp add: word_unat_eq_iff unat_mod)
qed

lemma plic_new_total:
  assumes "unat start mod 4 = 0"
  shows "\<exists>p r. plic_new (start + vmr_addr EXTERNAL_DEVICE_REGION) n m = Ok (p, r) \<and> im_range (pl_irq_manager p) = IRQ_RANGE"
proof -
  let ?a = "start + vmr_addr EXTERNAL_DEVICE_REGION"
  have e: "?a + k = start + (0xFFFFFFFF00000000 + k)" for k by (simp add: EXTERNAL_DEVICE_REGION_def)
  have "(?a + PLIC_PRIORITY_BASE) mod 4 = 0" "(?a + PLIC_ENABLE_BASE) mod 4 = 0" "(?a + PLIC_CONTEXT_BASE) mod 4 = 0"
    unfolding e by (rule word_mod4 [OF assms], simp add: PLIC_PRIORITY_BASE_def PLIC_ENABLE_BASE_def PLIC_CONTEXT_BASE_def)+
  then show ?thesis by (simp add: plic_new_def Mmio_from_base_def im_new_def Let_def)
qed

text \<open>The registers that the controller's constructor writes: enable words and thresholds of the contexts up to the greatest.\<close>

lemma fold_upd_other: "(\<And>i m. i \<in> set xs \<Longrightarrow> f i m a = m a) \<Longrightarrow> fold f xs m a = m a"
  for f :: "'i \<Rightarrow> ('a \<Rightarrow> 'v) \<Rightarrow> 'a \<Rightarrow> 'v"
  by (induction xs arbitrary: m) simp_all

lemma plic_new_writes:
  fixes p :: "'dev PLICInner"
  assumes new: "plic_new base n m = Ok (p, m')" and a: "m' a \<noteq> m a"
  shows "\<exists>c j. c \<le> n \<and> j < 128 \<and> a \<in> {base + of_nat (0x2000 + 0x80 * c + 16 * j), base + of_nat (0x200000 + 0x1000 * c)}"
proof (rule ccontr)
  assume none: "\<not> ?thesis"
  have no: "a \<noteq> base + of_nat (0x2000 + 0x80 * c + 16 * j) \<and> a \<noteq> base + of_nat (0x200000 + 0x1000 * c)" if "c \<le> n" "j < 128" for c j
    using none that by blast
  have p: "plic_at base p" "m' = plic_init p n m"
    using new plic_new_at [OF new] by (auto simp: plic_new_def Mmio_from_base_def Let_def bind_res_def split: if_splits)
  have d: "plic_disable_all p (of_nat c) x a = x a" if "c \<le> n" for c x
    unfolding plic_disable_all_def
  proof (rule fold_upd_other)
    fix j and x :: regs assume "j \<in> set [0..<128]"
    then have j: "j < 128" by simp
    have "Mmio_add (pl_enable_base p) (of_nat c * PLIC_ENABLE_CONTEXT_OFFSET + of_nat j * 4) = base + of_nat (0x2000 + 0x80 * c + 16 * j)"
      using p(1) by (simp add: plic_at_def plic_offsets algebra_simps)
    then show "(x(Mmio_add (pl_enable_base p) (of_nat c * PLIC_ENABLE_CONTEXT_OFFSET + of_nat j * 4) := 0)) a = x a"
      using no [OF that j] by (simp del: of_nat_add of_nat_mult)
  qed
  have t: "plic_set_threshold p (of_nat c) 0 x a = x a" if "c \<le> n" for c x
  proof -
    have "threshold_reg p (of_nat c) = base + of_nat (0x200000 + 0x1000 * c)"
      using p(1) by (simp add: threshold_reg_def plic_at_def plic_offsets algebra_simps)
    moreover have "a \<noteq> base + of_nat (0x200000 + 0x1000 * c)" using no [OF that, of 0] by simp
    ultimately show ?thesis by (simp add: plic_set_threshold_def)
  qed
  have "plic_init p n m a = m a" unfolding plic_init_def by (rule fold_upd_other) (auto simp: t d)
  then show False using a p(2) by simp
qed

lemma plic_probe_ok:
  assumes "mapper_ok (pf_frames pf) I M pages" "dv_inv I PH w" "plic_node_ok node" "plic_pages node \<subseteq> pages"
  shows "\<exists>w' p. plic_probe pf node w = (Ok (), w') \<and> fn_phandle node = Some (Some p) \<and> dv_inv I (insert p PH) w' \<and> more_mapped M (plic_pages node) w w'"
proof -
  obtain start sz p where n: "first_reg node = Ok (start, Some sz)" "unat start mod 4 = 0" "fn_phandle node = Some (Some p)"
    using assms(3) by (auto simp: plic_node_ok_def)
  have pp: "plic_pages node = (\<lambda>i. start + of_nat i * PAGE_SIZE) ` {..<unat (sz div PAGE_SIZE)}" using n(1) by (simp add: plic_pages_def)
  have idx: "\<forall>i\<in>set [0..<unat (sz div PAGE_SIZE)]. start + of_nat i * PAGE_SIZE \<in> pages" using assms(4) pp by auto
  obtain m where m: "map_pages (pf_frames pf) (start + vmr_addr EXTERNAL_DEVICE_REGION) start [0..<unat (sz div PAGE_SIZE)] (dv_mem w) = (Ok (), m)" "I m"
    "\<forall>i<unat (sz div PAGE_SIZE). M m (start + of_nat i * PAGE_SIZE)" "\<forall>q. M (dv_mem w) q \<longrightarrow> M m q"
    using map_pages_total [OF assms(1) dv_inv_memD [OF assms(2)] idx] by (auto simp: atLeast0LessThan)
  obtain pl :: "device PLICInner" and r where pl: "plic_new (start + vmr_addr EXTERNAL_DEVICE_REGION) (unat ((sz - 0x200000) div 0x1000 - 1)) (dv_regs w) = Ok (pl, r)"
      "im_range (pl_irq_manager pl) = IRQ_RANGE" using plic_new_total [OF n(2)] by blast
  let ?w = "w\<lparr>dv_mem := m, dv_regs := r, dv_irq_table := (dv_irq_table w)(p \<mapsto> pl), dv_plic_phandle := call_once p (dv_plic_phandle w)\<rparr>"
  have "plic_probe pf node w = (Ok (), ?w)" using n m(1) pl(1) by (simp add: plic_probe_def Let_def)
  moreover have "dv_inv I (insert p PH) ?w" using assms(2) m(2) pl(2) by (auto simp: dv_inv_def)
  moreover have "more_mapped M (plic_pages node) w ?w" using m(3,4) by (simp add: more_mapped_def pp)
  ultimately show ?thesis using n(3) by (intro exI [of _ ?w] exI [of _ p]) simp
qed

text \<open>With the size that \<open>plic_node_ok\<close> asks for, the constructor of a controller writes only to pages that its probe has mapped.\<close>

lemma plic_sizes:
  assumes "0x201000 \<le> (sz :: usize)"
  shows "0x200000 + 0x1000 * Suc (unat ((sz - 0x200000) div 0x1000 - 1)) = unat (sz div PAGE_SIZE) * 4096"
proof -
  have sz: "0x201000 \<le> unat sz" using assms by (simp add: word_le_nat_alt)
  have "0x200000 \<le> sz" using assms by (rule order_trans [rotated]) simp
  then have d: "unat (sz - 0x200000) = unat sz - 0x200000" by (simp add: unat_sub)
  have "1 \<le> (sz - 0x200000) div 0x1000" using sz d by (simp add: word_le_nat_alt unat_div)
  then have "unat ((sz - 0x200000) div 0x1000 - 1) = (unat sz - 0x200000) div 4096 - 1" by (simp add: unat_sub unat_div d)
  moreover have "unat (sz div PAGE_SIZE) = unat sz div 4096" by (simp add: PAGE_SIZE_def unat_div)
  moreover have "unat sz div 4096 = (unat sz - 0x200000) div 4096 + 512"
  proof -
    have "unat sz = (unat sz - 0x200000) + 512 * 4096" using sz by simp
    then have "unat sz div 4096 = ((unat sz - 0x200000) + 512 * 4096) div 4096" by (rule arg_cong)
    then show ?thesis by simp
  qed
  moreover have "1 \<le> (unat sz - 0x200000) div 4096" using sz by simp
  ultimately show ?thesis by simp
qed

theorem plic_writes_mapped:
  assumes "plic_node_ok node" "plic_probe pf node w = (Ok (), w')" "dv_regs w' a \<noteq> dv_regs w a"
  shows "\<exists>q\<in>plic_pages node. \<exists>k<4096. a = q + vmr_addr EXTERNAL_DEVICE_REGION + of_nat k"
proof -
  obtain start sz ph where n: "first_reg node = Ok (start, Some sz)" "0x201000 \<le> sz" "fn_phandle node = Some (Some ph)"
    using assms(1) by (auto simp: plic_node_ok_def)
  let ?addr = "start + vmr_addr EXTERNAL_DEVICE_REGION" and ?n = "unat ((sz - 0x200000) div 0x1000 - 1)" and ?cnt = "unat (sz div PAGE_SIZE)"
  obtain p :: "device PLICInner" where p: "plic_new ?addr ?n (dv_regs w) = Ok (p, dv_regs w')"
    using assms(2) n by (auto simp: plic_probe_def Let_def split: sum.splits prod.splits)
  obtain c j where c: "c \<le> ?n" "j < 128" "a \<in> {?addr + of_nat (0x2000 + 0x80 * c + 16 * j), ?addr + of_nat (0x200000 + 0x1000 * c)}"
    using plic_new_writes [OF p assms(3)] by blast
  have "0x200000 + 0x1000 * c < ?cnt * 4096" unfolding plic_sizes [OF n(2), symmetric] using c(1) by simp
  moreover have "0x2000 + 0x80 * c + 16 * j < 0x200000 + 0x1000 * c" using c(2) by simp
  ultimately have "\<exists>k. a = ?addr + of_nat k \<and> k < ?cnt * 4096" using c(3) less_trans by blast
  then obtain k where k: "a = ?addr + of_nat k" "k < ?cnt * 4096" by blast
  have "of_nat k = (of_nat (k div 4096 * 4096 + k mod 4096) :: usize)" by simp
  then have "a = (start + of_nat (k div 4096) * PAGE_SIZE) + vmr_addr EXTERNAL_DEVICE_REGION + of_nat (k mod 4096)"
    unfolding k(1) by (simp only: of_nat_add of_nat_mult PAGE_SIZE_def) simp
  moreover have "start + of_nat (k div 4096) * PAGE_SIZE \<in> plic_pages node"
    using k(2) n(1) by (simp add: plic_pages_def less_mult_imp_div_less)
  moreover have "k mod 4096 < 4096" by simp
  ultimately show ?thesis by blast
qed

text \<open>The stages, one for each prober.\<close>

lemma intc_stage: "dv_inv I PH w \<Longrightarrow> \<exists>w'. probe_nodes (intc_probe pf) ns w = (Ok (), w') \<and> dv_inv I PH w'"
  by (induction ns arbitrary: w) (simp_all add: intc_probe_def dv_inv_def)

lemma plic_stage:
  assumes "mapper_ok (pf_frames pf) I M pages"
  shows "dv_inv I PH w \<Longrightarrow> \<forall>n\<in>set ns. plic_node_ok n \<and> plic_pages n \<subseteq> pages \<Longrightarrow> \<exists>w'. probe_nodes (plic_probe pf) ns w = (Ok (), w') \<and>
    dv_inv I (PH \<union> {p. \<exists>c\<in>set ns. fn_phandle c = Some (Some p)}) w' \<and> more_mapped M (\<Union>n\<in>set ns. plic_pages n) w w'"
proof (induction ns arbitrary: PH w)
  case (Cons node ns)
  have ok: "plic_node_ok node" "plic_pages node \<subseteq> pages" "\<forall>n\<in>set ns. plic_node_ok n \<and> plic_pages n \<subseteq> pages" using Cons.prems(2) by simp_all
  obtain w1 p where w1: "plic_probe pf node w = (Ok (), w1)" "fn_phandle node = Some (Some p)" "dv_inv I (insert p PH) w1" "more_mapped M (plic_pages node) w w1"
    using plic_probe_ok [OF assms Cons.prems(1) ok(1,2)] by blast
  obtain w' where w': "probe_nodes (plic_probe pf) ns w1 = (Ok (), w')" "dv_inv I (insert p PH \<union> {p. \<exists>c\<in>set ns. fn_phandle c = Some (Some p)}) w'"
    "more_mapped M (\<Union>n\<in>set ns. plic_pages n) w1 w'"
    using Cons.IH [OF w1(3) ok(3)] by blast
  have "PH \<union> {p. \<exists>c\<in>set (node # ns). fn_phandle c = Some (Some p)} = insert p PH \<union> {p. \<exists>c\<in>set ns. fn_phandle c = Some (Some p)}"
    using w1(2) by auto
  then show ?case using w1(1) w' more_mapped_trans [OF w1(4) w'(3)] by simp
qed (simp add: more_mapped_def)

lemma memory_stage:
  assumes "unat PHYS_MEM_BASE + unat REMAP_MEM_OFFSET \<le> unat (pf_kernel_end pf)" "unat (pf_kernel_end pf) \<le> unat PHYS_MEM_LIMIT + unat REMAP_MEM_OFFSET"
  shows "dv_inv I PH w \<Longrightarrow> \<forall>n\<in>set ns. memory_node_ok n \<Longrightarrow> \<exists>w'. probe_nodes (memory_probe pf) ns w = (Ok (), w') \<and> dv_inv I PH w'"
proof (induction ns arbitrary: w)
  case (Cons node ns)
  obtain regs where regs: "fn_reg node = Some regs" "\<forall>(start, sz)\<in>set regs. \<forall>n. sz = Some n \<longrightarrow> unat start + unat n \<le> unat PHYS_MEM_LIMIT"
    using Cons.prems(2) by (auto simp: memory_node_ok_def)
  obtain h where "mem_probe_regions (pf_add_to_heap pf) (pf_kernel_end pf) regs (dv_heap w) = (Ok (), h)"
    using mem_probe_regions_ok [OF assms regs(2), of "pf_add_to_heap pf" "dv_heap w"] by (elim exE conjE)
  then have "memory_probe pf node w = (Ok (), w\<lparr>dv_heap := h\<rparr>)" using regs(1) by (simp add: memory_probe_def mem_probe_def)
  moreover have "dv_inv I PH (w\<lparr>dv_heap := h\<rparr>)" using Cons.prems(1) by (simp add: dv_inv_def)
  ultimately show ?case using Cons.IH Cons.prems(2) by simp
qed simp

definition dev_done :: "('h, 'p, 'u, 'd) platform \<Rightarrow> ('h kmem \<Rightarrow> usize \<Rightarrow> bool) \<Rightarrow> fdt_node \<Rightarrow> ('h, 'p, 'u, 'd) devices \<Rightarrow> bool" where
  "dev_done pf M n w \<longleftrightarrow> (\<forall>d. device_of pf n = Some d \<longrightarrow> registered w n d) \<and> (\<forall>p\<in>dev_pages n. M (dv_mem w) p)"

definition dev_nodes :: "fdt_node list \<Rightarrow> fdt_node set" where
  "dev_nodes nodes = {n \<in> set nodes. node_matches uart_id n \<or> node_matches virtio_id n}"

lemma dev_stage:
  assumes "mapper_ok (pf_frames pf) I M (probe_pages nodes)" "tree_ok pf nodes" "(ident, probe) \<in> {(uart_id, uart_probe pf), (virtio_id, virtio_probe pf)}"
    and "dv_inv I (plic_phandles nodes) w"
  shows "\<exists>w'. probe_nodes probe (filter (node_matches ident) nodes) w = (Ok (), w') \<and> dv_inv I (plic_phandles nodes) w' \<and>
    (\<forall>n\<in>set nodes. node_matches ident n \<longrightarrow> dev_done pf M n w') \<and> (\<forall>n\<in>dev_nodes nodes. dev_done pf M n w \<longrightarrow> dev_done pf M n w')"
proof -
  have pages: "dev_pages n \<subseteq> probe_pages nodes" if "n \<in> dev_nodes nodes" for n using that by (auto simp: probe_pages_def dev_nodes_def)
  have inj: "dev_key n \<noteq> dev_key node" if "n \<in> dev_nodes nodes" "node \<in> dev_nodes nodes" "n \<noteq> node" for n node
    using assms(2) that by (auto simp: tree_ok_def dev_nodes_def inj_on_def)
  have "\<exists>w'. probe node v = (Ok (), w') \<and> dv_inv I (plic_phandles nodes) w' \<and> dev_done pf M node w' \<and>
      (\<forall>n\<in>dev_nodes nodes. n \<noteq> node \<longrightarrow> dev_done pf M n v \<longrightarrow> dev_done pf M n w')"
    if "node \<in> set (filter (node_matches ident) nodes)" and v: "dv_inv I (plic_phandles nodes) v" for node v
  proof -
    have node: "node \<in> set nodes" "node_matches ident node" "node \<in> dev_nodes nodes" using that(1) assms(3) by (auto simp: dev_nodes_def)
    have t: "dev_node_ok nodes node" "node_matches virtio_id node \<Longrightarrow> net_ok pf (reg_vaddr node)" "node_matches uart_id node \<Longrightarrow> \<not> node_matches virtio_id node"
      using assms(2) node(1,3) by (auto simp: tree_ok_def dev_nodes_def)
    have "\<exists>w'. probe node v = (Ok (), w') \<and> dv_inv I (plic_phandles nodes) w' \<and> dev_done pf M node w' \<and>
        more_mapped M (dev_pages node) v w' \<and> (\<forall>n d. dev_key n \<noteq> dev_key node \<longrightarrow> registered v n d \<longrightarrow> registered w' n d)"
    proof (cases "ident = uart_id")
      case True
      then have i: "probe = uart_probe pf" "node_matches uart_id node" using assms(3) node(2) by auto
      obtain w' where w': "uart_probe pf node v = (Ok (), w')" "dv_inv I (plic_phandles nodes) w'" "registered w' node (Dev_Uart (reg_vaddr node))"
        "more_mapped M (dev_pages node) v w'" "\<forall>n d. dev_key n \<noteq> dev_key node \<longrightarrow> registered v n d \<longrightarrow> registered w' n d"
        using uart_probe_ok [OF assms(1) v t(1) pages [OF node(3)]] by blast
      have "dev_done pf M node w'" using w'(3,4) i(2) by (simp add: dev_done_def device_of_def more_mapped_def)
      then show ?thesis using w' i(1) by blast
    next
      case False
      then have i: "ident = virtio_id" "probe = virtio_probe pf" using assms(3) by auto
      obtain w' where w': "virtio_probe pf node v = (Ok (), w')" "dv_inv I (plic_phandles nodes) w'"
        "pf_transport pf (reg_vaddr node) = Some VT_Network \<longrightarrow> registered w' node (Dev_Net (reg_vaddr node))"
        "more_mapped M (dev_pages node) v w'" "\<forall>n d. dev_key n \<noteq> dev_key node \<longrightarrow> registered v n d \<longrightarrow> registered w' n d"
        using virtio_probe_ok [OF assms(1) v t(1) pages [OF node(3)] t(2)] node(2) i(1) by blast
      have "\<not> node_matches uart_id node" using t(3) node(2) i(1) by blast
      then have "dev_done pf M node w'" using w'(3,4) by (simp add: dev_done_def device_of_def more_mapped_def)
      then show ?thesis using w' i(2) by blast
    qed
    then show ?thesis using inj [OF _ node(3)] by (auto simp: dev_done_def more_mapped_def)
  qed
  note step = this
  have sub: "set (filter (node_matches ident) nodes) \<subseteq> dev_nodes nodes" using assms(3) by (auto simp: dev_nodes_def)
  have "\<exists>w'. probe_nodes probe (filter (node_matches ident) nodes) w = (Ok (), w') \<and> dv_inv I (plic_phandles nodes) w' \<and>
    (\<forall>n\<in>set (filter (node_matches ident) nodes). dev_done pf M n w') \<and> (\<forall>n\<in>dev_nodes nodes. dev_done pf M n w \<longrightarrow> dev_done pf M n w')"
    by (rule probe_nodes_all [where I = "dv_inv I (plic_phandles nodes)" and Q = "dev_done pf M", OF step sub assms(4)])
  then show ?thesis by (simp add: Ball_def imp_conjL)
qed

text \<open>Any order in which the linker lays the five probers out becomes one of two.\<close>

lemma kernel_prober_of:
  assumes "p \<in> set (kernel_probers pf)"
  shows "is_intc (fst p) \<Longrightarrow> p = (Compatible ''riscv,cpu-intc'', intc_probe pf)" "is_plic (fst p) \<Longrightarrow> p = (plic_id, plic_probe pf)"
    "is_memory (fst p) \<Longrightarrow> p = (memory_id, memory_probe pf)"
  using assms by (auto simp: kernel_probers_def is_intc_def is_plic_def is_memory_def)

lemma kernel_order:
  assumes "mset ps = mset (kernel_probers pf)"
  shows "\<exists>a b. order_probers ps = Ok [(Compatible ''riscv,cpu-intc'', intc_probe pf), (plic_id, plic_probe pf), (memory_id, memory_probe pf), a, b] \<and>
    {a, b} = {(uart_id, uart_probe pf), (virtio_id, virtio_probe pf)}"
proof -
  have s: "set ps = set (kernel_probers pf)" by (rule mset_eq_setD [OF assms])
  have k: "(Compatible ''riscv,cpu-intc'', intc_probe pf) \<in> set ps" "(plic_id, plic_probe pf) \<in> set ps" "(memory_id, memory_probe pf) \<in> set ps"
    unfolding s by (simp_all add: kernel_probers_def)
  have "is_intc (Compatible ''riscv,cpu-intc'')" "is_plic plic_id" "is_memory memory_id" by (simp_all add: is_intc_def is_plic_def is_memory_def)
  then have "\<exists>p\<in>set ps. is_intc (fst p)" "\<exists>p\<in>set ps. is_plic (fst p)" "\<exists>p\<in>set ps. is_memory (fst p)" using k by (metis fst_conv)+
  from order_probers_ok [OF this] obtain qs where qs: "order_probers ps = Ok qs" "mset qs = mset ps" "is_intc (fst (qs ! 0))" "is_plic (fst (qs ! 1))" "is_memory (fst (qs ! 2))" "2 < length qs"
    by blast
  have m: "mset qs = mset (kernel_probers pf)" using qs(2) assms by simp
  have "length qs = 5" using mset_eq_length [OF m] by (simp add: kernel_probers_def)
  then obtain x y z a b where q: "qs = [x, y, z, a, b]" by (auto simp: length_Suc_conv numeral_eq_Suc)
  have e: "set qs = set (kernel_probers pf)" by (rule mset_eq_setD [OF m])
  have "x \<in> set (kernel_probers pf)" "y \<in> set (kernel_probers pf)" "z \<in> set (kernel_probers pf)" using e q by auto
  then have x: "x = (Compatible ''riscv,cpu-intc'', intc_probe pf)" and y: "y = (plic_id, plic_probe pf)" and z: "z = (memory_id, memory_probe pf)"
    using kernel_prober_of qs(3-5) q by simp_all
  have "mset [a, b] = mset [(uart_id, uart_probe pf), (virtio_id, virtio_probe pf)]"
    using m unfolding q x y z by (simp add: kernel_probers_def add_mset_commute)
  from mset_eq_setD [OF this] have "{a, b} = {(uart_id, uart_probe pf), (virtio_id, virtio_probe pf)}" by (simp only: list.set)
  then show ?thesis using qs(1) unfolding q x y z by blast
qed

lemma probe_stages:
  assumes "probe_nodes probe (filter (node_matches ident) nodes) w = (Ok (), w')"
  shows "probe_each ((ident, probe) # ps) nodes w = probe_each ps nodes w'"
  using assms by simp

text \<open>From the platform controllers on, the mapped pages of those controllers are part of the invariant.\<close>

lemma mapper_ok_mapped: "mapper_ok A I M pages \<Longrightarrow> mapper_ok A (\<lambda>m. I m \<and> (\<forall>p\<in>S. M m p)) M pages"
  unfolding mapper_ok_def by blast

abbreviation controllers_mapped :: "('h kmem \<Rightarrow> bool) \<Rightarrow> ('h kmem \<Rightarrow> usize \<Rightarrow> bool) \<Rightarrow> fdt_node list \<Rightarrow> 'h kmem \<Rightarrow> bool" where
  "controllers_mapped I M nodes \<equiv> (\<lambda>m. I m \<and> (\<forall>p\<in>\<Union>n\<in>set (filter (node_matches plic_id) nodes). plic_pages n. M m p))"

lemma controller_stages:
  assumes mp: "mapper_ok (pf_frames pf) I M (probe_pages nodes)" and t: "tree_ok pf nodes" and inv: "dv_inv I {} w"
    and k: "unat PHYS_MEM_BASE + unat REMAP_MEM_OFFSET \<le> unat (pf_kernel_end pf)" "unat (pf_kernel_end pf) \<le> unat PHYS_MEM_LIMIT + unat REMAP_MEM_OFFSET"
  shows "\<exists>w'. dv_inv (controllers_mapped I M nodes) (plic_phandles nodes) w' \<and>
    (\<forall>ps. probe_each ((Compatible ''riscv,cpu-intc'', intc_probe pf) # (plic_id, plic_probe pf) # (memory_id, memory_probe pf) # ps) nodes w = probe_each ps nodes w')"
proof -
  have ok: "\<forall>n\<in>set (filter (node_matches plic_id) nodes). plic_node_ok n \<and> plic_pages n \<subseteq> probe_pages nodes"
    "\<forall>n\<in>set (filter (node_matches memory_id) nodes). memory_node_ok n"
    using t by (auto simp: tree_ok_def probe_pages_def)
  obtain w1 where w1: "probe_nodes (intc_probe pf) (filter (node_matches (Compatible ''riscv,cpu-intc'')) nodes) w = (Ok (), w1)" "dv_inv I {} w1"
    using intc_stage [OF inv] by blast
  have ph: "{} \<union> {p. \<exists>c\<in>set (filter (node_matches plic_id) nodes). fn_phandle c = Some (Some p)} = plic_phandles nodes"
    by (auto simp: plic_phandles_def)
  obtain w2 where w2: "probe_nodes (plic_probe pf) (filter (node_matches plic_id) nodes) w1 = (Ok (), w2)" "dv_inv I (plic_phandles nodes) w2"
    "more_mapped M (\<Union>n\<in>set (filter (node_matches plic_id) nodes). plic_pages n) w1 w2"
    using plic_stage [OF mp w1(2) ok(1)] unfolding ph by blast
  have "dv_inv (controllers_mapped I M nodes) (plic_phandles nodes) w2" using w2(2,3) unfolding dv_inv_def more_mapped_def by blast
  from memory_stage [OF k this ok(2)] obtain w3 where
    w3: "probe_nodes (memory_probe pf) (filter (node_matches memory_id) nodes) w2 = (Ok (), w3)" "dv_inv (controllers_mapped I M nodes) (plic_phandles nodes) w3"
    by blast
  show ?thesis using probe_stages [OF w1(1)] probe_stages [OF w2(1)] probe_stages [OF w3(1)] w3(2) by auto
qed

lemma kernel_probe_each:
  assumes mp: "mapper_ok (pf_frames pf) I M (probe_pages nodes)" and t: "tree_ok pf nodes" and inv: "dv_inv I {} w"
    and k: "unat PHYS_MEM_BASE + unat REMAP_MEM_OFFSET \<le> unat (pf_kernel_end pf)" "unat (pf_kernel_end pf) \<le> unat PHYS_MEM_LIMIT + unat REMAP_MEM_OFFSET"
    and ab: "{a, b} = {(uart_id, uart_probe pf), (virtio_id, virtio_probe pf)}"
  shows "\<exists>w'. probe_each [(Compatible ''riscv,cpu-intc'', intc_probe pf), (plic_id, plic_probe pf), (memory_id, memory_probe pf), a, b] nodes w = (Ok (), w') \<and>
    dv_inv (controllers_mapped I M nodes) (plic_phandles nodes) w' \<and> (\<forall>n\<in>dev_nodes nodes. dev_done pf M n w')"
proof -
  let ?J = "controllers_mapped I M nodes"
  obtain w3 where w3: "dv_inv ?J (plic_phandles nodes) w3"
    "\<And>ps. probe_each ((Compatible ''riscv,cpu-intc'', intc_probe pf) # (plic_id, plic_probe pf) # (memory_id, memory_probe pf) # ps) nodes w = probe_each ps nodes w3"
    using controller_stages [OF mp t inv k] by blast
  note mp' = mapper_ok_mapped [OF mp]
  obtain ia pa ib pb where e: "a = (ia, pa)" "b = (ib, pb)" by (cases a, cases b)
  have mem: "(ia, pa) \<in> {(uart_id, uart_probe pf), (virtio_id, virtio_probe pf)}" "(ib, pb) \<in> {(uart_id, uart_probe pf), (virtio_id, virtio_probe pf)}"
    unfolding e(1) [symmetric] e(2) [symmetric] ab [symmetric] by simp_all
  obtain w4 where w4: "probe_nodes pa (filter (node_matches ia) nodes) w3 = (Ok (), w4)" "dv_inv ?J (plic_phandles nodes) w4"
    "\<forall>n\<in>set nodes. node_matches ia n \<longrightarrow> dev_done pf M n w4" using dev_stage [OF mp' t mem(1) w3(1)] by blast
  obtain w5 where w5: "probe_nodes pb (filter (node_matches ib) nodes) w4 = (Ok (), w5)" and inv5: "dv_inv ?J (plic_phandles nodes) w5" and w5':
    "\<forall>n\<in>set nodes. node_matches ib n \<longrightarrow> dev_done pf M n w5" "\<forall>n\<in>dev_nodes nodes. dev_done pf M n w4 \<longrightarrow> dev_done pf M n w5"
    using dev_stage [OF mp' t mem(2) w4(2)] by blast
  have "\<forall>n\<in>dev_nodes nodes. node_matches ia n \<or> node_matches ib n" using ab e by (auto simp: dev_nodes_def doubleton_eq_iff)
  then have "\<forall>n\<in>dev_nodes nodes. dev_done pf M n w5" using w4(3) w5' by (auto simp: dev_nodes_def)
  then show ?thesis unfolding e using w3(2) probe_stages [OF w4(1)] probe_stages [OF w5] inv5
    by (intro exI [of _ w5]) simp
qed

text \<open>The boot table before probing: well formed, with frames for all the tables that the registers of the tree
  need. Registers lie in the first four gigabytes.\<close>

definition boot_fits :: "usize \<Rightarrow> ('h \<Rightarrow> usize set) \<Rightarrow> nat \<Rightarrow> 'h frame_allocator \<Rightarrow> fdt_node list \<Rightarrow> 'h kmem \<Rightarrow> bool" where
  "boot_fits r in_use n A nodes m \<longleftrightarrow> frame_allocator_ok A in_use \<and> frames_for A in_use n \<and>
     (\<forall>p\<in>probe_pages nodes. p < 0x100000000) \<and> boot_ready r in_use n (probe_pages nodes) m"

lemma finite_probe_pages: "finite (probe_pages nodes)"
  by (auto simp: probe_pages_def plic_pages_def dev_pages_def split: sum.split option.split)

lemma probe_all_ok:
  assumes "mset ps = mset (kernel_probers pf)" "boot_fits r in_use n (pf_frames pf) nodes (dv_mem w)" "tree_ok pf nodes"
    and "unat PHYS_MEM_BASE + unat REMAP_MEM_OFFSET \<le> unat (pf_kernel_end pf)" "unat (pf_kernel_end pf) \<le> unat PHYS_MEM_LIMIT + unat REMAP_MEM_OFFSET"
    and "dv_irq_table w = (\<lambda>p. None)"
  shows "\<exists>w'. probe_all root ps nodes (None, w) = (Ok (), Some root, w') \<and> dv_inv (boot_ready r in_use n (probe_pages nodes)) (plic_phandles nodes) w' \<and>
    (\<forall>n\<in>set nodes. \<forall>d. device_of pf n = Some d \<longrightarrow> registered w' n d) \<and> (\<forall>p\<in>probe_pages nodes. device_mapped r (dv_mem w') p)"
proof -
  let ?I = "boot_ready r in_use n (probe_pages nodes)" and ?M = "device_mapped r"
  obtain a b where ab: "order_probers ps = Ok [(Compatible ''riscv,cpu-intc'', intc_probe pf), (plic_id, plic_probe pf), (memory_id, memory_probe pf), a, b]"
    "{a, b} = {(uart_id, uart_probe pf), (virtio_id, virtio_probe pf)}" using kernel_order [OF assms(1)] by blast
  have mp: "mapper_ok (pf_frames pf) ?I ?M (probe_pages nodes)"
    using boot_mapper finite_probe_pages assms(2) unfolding boot_fits_def by blast
  have "dv_inv ?I {} w" using assms(2,6) by (simp add: dv_inv_def boot_fits_def)
  from kernel_probe_each [OF mp assms(3) this assms(4,5) ab(2)] obtain w' where w':
    "probe_each [(Compatible ''riscv,cpu-intc'', intc_probe pf), (plic_id, plic_probe pf), (memory_id, memory_probe pf), a, b] nodes w = (Ok (), w')"
    and inv: "dv_inv (controllers_mapped ?I ?M nodes) (plic_phandles nodes) w'" and all: "\<forall>n\<in>dev_nodes nodes. dev_done pf ?M n w'" by blast
  have "\<forall>n\<in>set nodes. \<forall>d. device_of pf n = Some d \<longrightarrow> registered w' n d"
    using all by (auto simp: dev_done_def dev_nodes_def device_of_def split: if_splits)
  moreover have "\<forall>p\<in>probe_pages nodes. device_mapped r (dv_mem w') p"
    using inv all unfolding probe_pages_def dv_inv_def dev_done_def dev_nodes_def by blast
  moreover have "probe_all root ps nodes (None, w) = (Ok (), Some root, w')"
    by (simp only: probe_all_def probe_all_device_def ab(1) w' prod.case sum.case) (simp add: call_once_def)
  moreover have "dv_inv ?I (plic_phandles nodes) w'" using inv by (simp add: dv_inv_def)
  ultimately show ?thesis by blast
qed

section \<open>Properties\<close>

text \<open>The order of probing: whatever order the linker puts the probers in, if the two controllers and the
  memory have one, the list is permuted so that the processor's controller comes first, the platform's controller
  second and the memory third; the nodes are then probed in that order, and the machine's name is set only if it was not.\<close>

theorem probe_order:
  assumes "\<exists>p\<in>set ps. is_intc (fst p)" "\<exists>p\<in>set ps. is_plic (fst p)" "\<exists>p\<in>set ps. is_memory (fst p)"
  shows "\<exists>x y z qs. mset (x # y # z # qs) = mset ps \<and> is_intc (fst x) \<and> is_plic (fst y) \<and> is_memory (fst z) \<and>
    probe_all_device root ps nodes (name, w) =
      (case probe_each (x # y # z # qs) nodes w of (r, w') \<Rightarrow> (r, Some (case name of None \<Rightarrow> root | Some n \<Rightarrow> n), w'))"
proof -
  obtain qs where q: "order_probers ps = Ok qs" "mset qs = mset ps" "is_intc (fst (qs ! 0))" "is_plic (fst (qs ! 1))" "is_memory (fst (qs ! 2))" "2 < length qs"
    using order_probers_ok [OF assms] by blast
  have "\<exists>x y z rs. qs = x # y # z # rs" using q(6) by (auto simp: numeral_2_eq_2 less_eq_Suc_le Suc_le_length_iff)
  then obtain x y z rs where "qs = x # y # z # rs" by blast
  then show ?thesis using q by (intro exI [of _ x] exI [of _ y] exI [of _ z] exI [of _ rs])
    (simp add: probe_all_device_def call_once_def split: option.splits)
qed

text \<open>
  C33. Discovery is complete. The tree is taken to be well formed (\<open>tree_ok\<close>): a device is not both a serial port and a virtio
  device, the devices name a platform controller of the tree, with interrupt numbers between 1 and 1023, no two the same at one
  controller; the registers of a controller start at a multiple of 4 and have at least \<^verbatim>\<open>0x201000\<close> bytes; memory lies below the limit of
  physical memory; and where a network device answers, the \<^verbatim>\<open>virtio-drivers\<close> crate sets it up. There are as many frames as tables are
  missing for the registers, which lie in the first four gigabytes. Then probing never fails or panics, in any order the linker
  chooses. Afterwards every serial port and every network device of the tree is the device registered for its interrupt number at
  its controller, and these pages translate to their physical addresses: all whole pages within the size of a platform controller,
  and the page at the register address of a serial port or virtio device (the one page that the code maps for it, whatever its size).
\<close>

theorem probe_registers_devices:
  assumes "mset ps = mset (kernel_probers pf)" "boot_fits r in_use n (pf_frames pf) nodes (dv_mem w)" "tree_ok pf nodes"
    and "unat PHYS_MEM_BASE + unat REMAP_MEM_OFFSET \<le> unat (pf_kernel_end pf)" "unat (pf_kernel_end pf) \<le> unat PHYS_MEM_LIMIT + unat REMAP_MEM_OFFSET"
    and "dv_irq_table w = (\<lambda>p. None)"
  shows "\<exists>name w'. probe_all root ps nodes (None, w) = (Ok (), name, w') \<and>
    (\<forall>n\<in>set nodes. \<forall>d. device_of pf n = Some d \<longrightarrow> registered w' n d) \<and>
    (\<forall>p\<in>probe_pages nodes. boot_translate r (dv_mem w') (va_new (p + vmr_addr EXTERNAL_DEVICE_REGION)) = Some (pa_new p))"
  using probe_all_ok [OF assms, of root] unfolding device_mapped_def by blast

text \<open>A machine with one processor controller, one platform controller, a serial port at interrupt 10 and a network device at interrupt 8.\<close>

definition demo_node :: fdt_node where
  "demo_node = \<lparr>fn_device_type = None, fn_compatible = None, fn_reg = None, fn_phandle = None, fn_interrupts = None, fn_interrupt_parent = None\<rparr>"

definition demo_serial :: fdt_node where
  "demo_serial = demo_node\<lparr>fn_compatible := Some [''ns16550a''], fn_reg := Some [(0x10000000, Some 0x100)],
     fn_interrupts := Some [10], fn_interrupt_parent := Some (Some (Some 3))\<rparr>"

definition demo_card :: fdt_node where
  "demo_card = demo_node\<lparr>fn_compatible := Some [''virtio,mmio''], fn_reg := Some [(0x10008000, Some 0x1000)],
     fn_interrupts := Some [8], fn_interrupt_parent := Some (Some (Some 3))\<rparr>"

definition demo_nodes :: "fdt_node list" where
  "demo_nodes = [demo_node\<lparr>fn_device_type := Some (Some ''memory''), fn_reg := Some [(0x80000000, Some 0x8000000)]\<rparr>,
     demo_serial, demo_card, demo_node\<lparr>fn_compatible := Some [''sifive,plic-1.0.0'', ''riscv,plic0''],
       fn_reg := Some [(0xC000000, Some 0x600000)], fn_phandle := Some (Some 3)\<rparr>, demo_node\<lparr>fn_compatible := Some [''riscv,cpu-intc'']\<rparr>]"

definition demo_platform :: "(usize list, (usize \<times> usize) list, nat \<times> u8 list, nat) platform" where
  "demo_platform = \<lparr>pf_frames = pool_allocator,
     pf_add_to_heap = (\<lambda>a e h. (a, e) # h), pf_kernel_end = 0xFFFFFFC080234567, pf_uart_api = demo_uart, pf_uart_at = (\<lambda>v. (0, [])),
     pf_transport = (\<lambda>v. Some VT_Network), pf_raw_api = demo_raw, pf_raw_new = (\<lambda>v. Some 0), pf_pool_addr = 0x90000000\<rparr>"

definition demo_table :: "usize list" where
  "demo_table = (case boot_init BOOT_PAGE_TABLE of Inr t \<Rightarrow> t | Inl _ \<Rightarrow> [])"

lemma demo_table: "boot_init BOOT_PAGE_TABLE = Ok demo_table"
  using boot_init_table by (auto simp: demo_table_def)

definition demo_devices :: "(usize list, (usize \<times> usize) list, nat \<times> u8 list, nat) devices" where
  "demo_devices = \<lparr>dv_mem = boot_mem demo_table, dv_heap = [],
     dv_regs = (\<lambda>_. 0), dv_global_intc = False, dv_irq_table = (\<lambda>p. None), dv_plic_phandle = None, dv_uarts = (\<lambda>_. None), dv_nets = (\<lambda>_. None), dv_eth0 = None\<rparr>"

lemmas demo_tree_defs = demo_nodes_def demo_serial_def demo_card_def demo_node_def

lemma demo_net_ok: "v \<noteq> 0 \<Longrightarrow> net_ok demo_platform v"
proof -
  have "\<forall>r d. raw_fill_buffer_header demo_raw r d = Some 12" by (simp add: demo_raw_def)
  then have "\<exists>raw used h. pf_raw_new demo_platform v = Some raw \<and> rx_in_order (pf_raw_api demo_platform) used \<and> used raw = 0 \<and>
      (\<forall>r d. raw_fill_buffer_header (pf_raw_api demo_platform) r d = Some h)"
    using demo_in_order by (simp add: demo_platform_def) (metis id_apply)
  moreover assume "v \<noteq> 0"
  ultimately show ?thesis by (simp add: net_ok_def)
qed

lemma demo_plic_phandles: "3 \<in> plic_phandles demo_nodes"
  by (simp add: plic_phandles_def demo_tree_defs node_matches_def)

lemma demo_devs_ok: "dev_node_ok demo_nodes demo_serial" "dev_node_ok demo_nodes demo_card"
  using demo_plic_phandles by (simp_all add: dev_node_ok_def first_reg_def first_interrupt_def parent_phandle_def demo_serial_def demo_card_def demo_node_def)

lemma demo_matches:
  "node_matches uart_id demo_serial" "\<not> node_matches virtio_id demo_serial" "node_matches virtio_id demo_card" "\<not> node_matches uart_id demo_card"
  by (simp_all add: node_matches_def demo_serial_def demo_card_def demo_node_def)

lemma demo_tree_ok: "tree_ok demo_platform demo_nodes"
proof -
  have "inj_on dev_key {demo_serial, demo_card}"
    by (simp add: dev_key_def first_interrupt_def demo_serial_def demo_card_def demo_node_def)
  then have "inj_on dev_key {n \<in> set demo_nodes. node_matches uart_id n \<or> node_matches virtio_id n}"
    by (rule inj_on_subset) (auto simp: demo_nodes_def node_matches_def demo_node_def)
  moreover have "net_ok demo_platform (reg_vaddr demo_card)"
    by (rule demo_net_ok) (simp add: reg_vaddr_def first_reg_def EXTERNAL_DEVICE_REGION_def demo_card_def demo_node_def)
  ultimately show ?thesis using demo_devs_ok demo_matches unfolding tree_ok_def
    by (simp add: demo_nodes_def) (simp add: node_matches_def plic_node_ok_def memory_node_ok_def first_reg_def PHYS_MEM_LIMIT_def demo_serial_def demo_card_def demo_node_def)
qed

lemma demo_serial_device: "device_of demo_platform demo_serial = Some (Dev_Uart 0xFFFFFFFF10000000)"
  and demo_card_device: "device_of demo_platform demo_card = Some (Dev_Net 0xFFFFFFFF10008000)"
  using demo_matches by (simp_all add: device_of_def reg_vaddr_def first_reg_def demo_platform_def) (simp_all add: EXTERNAL_DEVICE_REGION_def demo_serial_def demo_card_def demo_node_def)

text \<open>Seven frames are enough for the five tables of this machine: one below the root, three for the controller, one
  for the two devices.\<close>

definition demo_paths :: "usize list list" where
  "demo_paths = [[], [508], [508, 96], [508, 97], [508, 98], [508, 128]]"

lemma demo_plic_path:
  assumes "i < 1536"
  shows "butlast (indexes (device_va (0xC000000 + of_nat i * PAGE_SIZE))) \<in> {[508, 96], [508, 97], [508, 98]}"
proof -
  let ?p = "0xC000000 + of_nat i * PAGE_SIZE :: usize"
  have "unat (of_nat i * 4096 :: usize) = i * 4096" using assms by (simp add: unat_word_ariths unat_of_nat)
  then have p: "unat ?p = 201326592 + i * 4096" using assms by (simp add: PAGE_SIZE_def unat_word_ariths(1))
  then have "?p < 0x100000000" using assms by (simp add: word_less_nat_alt)
  note u = unat_device_va [OF this, unfolded p]
  define k where "k = i div 512"
  have k: "k < 3" using assms by (simp add: k_def less_mult_imp_div_less)
  have e: "201326592 + i * 4096 + 18446744069414584320 = i * 4096 + 18446744069615910912" by simp
  have d1: "(i * 4096 + 18446744069615910912) div 1073741824 mod 512 = 508"
  proof -
    have "(i * 4096 + 18446744069615910912) div 1073741824 = 17179869180" using assms by simp
    then show ?thesis by simp
  qed
  have d2: "(i * 4096 + 18446744069615910912) div 2097152 mod 512 = 96 + k"
  proof -
    have "(i * 4096 + 18446744069615910912) div 2097152 = i * 4096 div 2097152 + 8796093020256" by simp
    also have "i * 4096 div 2097152 = k" unfolding k_def using div_mult_mult2 [of 4096 i 512] by simp
    also have "k + 8796093020256 = (96 + k) + 17179869180 * 512" by simp
    finally have "(i * 4096 + 18446744069615910912) div 2097152 mod 512 = (96 + k) mod 512" by (simp only: mod_mult_self1)
    then show ?thesis using k by simp
  qed
  obtain a b c where i: "indexes (device_va ?p) = [a, b, c]" by (simp add: indexes_def)
  have "unat a = (i * 4096 + 18446744069615910912) div 2 ^ 30 mod 512 \<and> unat b = (i * 4096 + 18446744069615910912) div 2 ^ 21 mod 512"
    using indexes_eq [of "device_va ?p"] unfolding i u e by simp
  moreover have "(2 :: nat) ^ 30 = 1073741824" "(2 :: nat) ^ 21 = 2097152" by simp_all
  ultimately have "unat a = 508" "unat b = 96 + k" using d1 d2 by simp_all
  moreover have "k = 0 \<or> k = 1 \<or> k = 2" using k by arith
  ultimately show ?thesis by (auto simp: i word_unat_eq_iff)
qed

lemma demo_pages:
  assumes "p \<in> probe_pages demo_nodes"
  obtains i where "i < 1536" "p = 0xC000000 + of_nat i * PAGE_SIZE" | "p = 0x10000000" | "p = 0x10008000"
proof -
  have sz: "unat (0x600000 div PAGE_SIZE) = 1536" by (simp add: PAGE_SIZE_def)
  have "set (filter (node_matches plic_id) demo_nodes) =
      {demo_node\<lparr>fn_compatible := Some [''sifive,plic-1.0.0'', ''riscv,plic0''], fn_reg := Some [(0xC000000, Some 0x600000)], fn_phandle := Some (Some 3)\<rparr>}"
    by (auto simp: demo_tree_defs node_matches_def)
  then have c: "(\<Union>n\<in>set (filter (node_matches plic_id) demo_nodes). plic_pages n) = (\<lambda>i. 0xC000000 + of_nat i * PAGE_SIZE) ` {..<1536}"
    using sz by (simp add: plic_pages_def first_reg_def)
  have "{n \<in> set demo_nodes. node_matches uart_id n \<or> node_matches virtio_id n} = {demo_serial, demo_card}"
    using demo_matches by (auto simp: demo_nodes_def) (simp_all add: demo_node_def node_matches_def)
  then have "(\<Union>n\<in>{n \<in> set demo_nodes. node_matches uart_id n \<or> node_matches virtio_id n}. dev_pages n) = {0x10000000, 0x10008000}"
    by (auto simp: dev_pages_def first_reg_def demo_serial_def demo_card_def demo_node_def)
  with c assms that show thesis unfolding probe_pages_def by auto
qed

lemma demo_low_pages: "p \<in> probe_pages demo_nodes \<Longrightarrow> p < 0x100000000"
proof (erule demo_pages)
  fix i assume i: "i < 1536" "p = 0xC000000 + of_nat i * PAGE_SIZE"
  have "unat (of_nat i * 4096 :: usize) = i * 4096" using i(1) by (simp add: unat_word_ariths unat_of_nat)
  then show ?thesis using i by (simp add: word_less_nat_alt PAGE_SIZE_def unat_word_ariths(1))
qed simp_all

lemma demo_path: "p \<in> probe_pages demo_nodes \<Longrightarrow> butlast (indexes (device_va p)) \<in> {[508, 96], [508, 97], [508, 98], [508, 128]}"
  by (erule demo_pages) (use demo_plic_path in blast, simp_all add: indexes_def va_new_def EXTERNAL_DEVICE_REGION_def)

lemma demo_frames: "boot_fits 0x80210000 set 7 (pf_frames demo_platform) demo_nodes (dv_mem demo_devices)"
proof -
  let ?m = "dv_mem demo_devices" and ?Q = "(\<lambda>p. butlast (indexes (device_va p))) ` probe_pages demo_nodes"
  have "boot_wf device_roots 0x80210000 set ?m" using boot_mem_wf [OF demo_table] by (simp add: demo_devices_def)
  moreover have "missing 0x80210000 ?m ?Q \<subseteq> set demo_paths"
  proof
    fix q assume "q \<in> missing 0x80210000 ?m ?Q"
    then obtain p where "p \<in> probe_pages demo_nodes" "prefix q (butlast (indexes (device_va p)))" by (auto simp: missing_def)
    then show "q \<in> set demo_paths" using demo_path [of p] by (auto simp: demo_paths_def prefix_Cons)
  qed
  then have "card (missing 0x80210000 ?m ?Q) \<le> card (set demo_paths)" by (rule card_mono [OF finite_set])
  then have "card (missing 0x80210000 ?m ?Q) \<le> 6" using card_length [of demo_paths] by (simp only: demo_paths_def list.size)
  moreover have "km_heap ?m = []" by (simp add: demo_devices_def boot_mem_def)
  moreover have "remap_entries (km_boot ?m)" using boot_init_remap_entries [OF demo_table] by (simp add: demo_devices_def boot_mem_def)
  ultimately have "boot_ready 0x80210000 set 7 (probe_pages demo_nodes) ?m" by (simp add: boot_ready_def)
  then show ?thesis using demo_low_pages pool_allocator_ok frames_for_mono [OF pool_frames, of 7] by (simp add: boot_fits_def demo_platform_def)
qed

lemma demo_kernel_end:
  "unat PHYS_MEM_BASE + unat REMAP_MEM_OFFSET \<le> unat (pf_kernel_end demo_platform)" "unat (pf_kernel_end demo_platform) \<le> unat PHYS_MEM_LIMIT + unat REMAP_MEM_OFFSET"
  by (simp_all add: PHYS_MEM_BASE_def PHYS_MEM_LIMIT_def REMAP_MEM_OFFSET_def demo_platform_def)

lemma demo_devices_fresh: "dv_irq_table demo_devices = (\<lambda>p. None)"
  by (simp_all add: demo_devices_def)

theorem probe_registers_devices_witness:
  "\<exists>name w'. probe_all ''riscv-virtio'' (rev (kernel_probers demo_platform)) demo_nodes (None, demo_devices) = (Ok (), name, w') \<and>
     registered w' demo_serial (Dev_Uart 0xFFFFFFFF10000000) \<and> registered w' demo_card (Dev_Net 0xFFFFFFFF10008000) \<and>
     boot_translate 0x80210000 (dv_mem w') (va_new (0x10000000 + vmr_addr EXTERNAL_DEVICE_REGION)) = Some (pa_new 0x10000000)"
proof -
  have m: "mset (rev (kernel_probers demo_platform)) = mset (kernel_probers demo_platform)" by simp
  have "demo_serial \<in> set demo_nodes" "demo_card \<in> set demo_nodes" by (simp_all add: demo_nodes_def)
  moreover from this(1) have "0x10000000 \<in> probe_pages demo_nodes"
    using demo_matches(1) by (auto simp: probe_pages_def dev_pages_def first_reg_def demo_serial_def demo_node_def)
  ultimately show ?thesis
    using probe_registers_devices [OF m demo_frames demo_tree_ok demo_kernel_end demo_devices_fresh, of "''riscv-virtio''"] demo_serial_device demo_card_device by blast
qed

end
