(* ===== verification/Uprog.thy ===== *)
theory Uprog
  imports Jrinx_Prelude
begin

text \<open>
  User programs: the archive that \<^verbatim>\<open>xtask/src/ar.rs\<close> makes of the directory of built programs, and the lookup of a
  program in that archive, \<^verbatim>\<open>kern/modules/uprog/src/lib.rs\<close>. The archive format (the \<^verbatim>\<open>cpio\<close> and \<^verbatim>\<open>cpio_reader\<close>
  crates) and the ELF parser are parameters. A directory is the list of its entries in the order \<^verbatim>\<open>read_dir\<close> gives them;
  failing file operations panic in the code and are not modelled.
\<close>

section \<open>Directories and archives\<close>

datatype fs_entry = File_Entry "u8 list" | Dir_Entry "(string \<times> fs_entry) list"

type_synonym directory = "(string \<times> fs_entry) list"

text \<open>Paths are lists of components; as text the components are separated by slashes.\<close>

fun path_str :: "string list \<Rightarrow> string" where
  "path_str [] = []"
| "path_str [x] = x"
| "path_str (x # y # xs) = x @ ''/'' @ path_str (y # xs)"

fun strip_prefix :: "string list \<Rightarrow> string list \<Rightarrow> string list option" where
  "strip_prefix [] ys = Some ys"
| "strip_prefix (x # xs) [] = None"
| "strip_prefix (x # xs) (y # ys) = (if x = y then strip_prefix xs ys else None)"

type_synonym cpio_entries = "(string \<times> u8 list) list"

fun archive_dir_all :: "string list \<Rightarrow> string list \<Rightarrow> directory \<Rightarrow> cpio_entries \<Rightarrow> cpio_entries res" where
  "archive_dir_all prefix dir [] out = Ok out"
| "archive_dir_all prefix dir ((name, Dir_Entry es) # entries) out =
     bind_res (archive_dir_all prefix (dir @ [name]) es out) (archive_dir_all prefix dir entries)"
| "archive_dir_all prefix dir ((name, File_Entry content) # entries) out =
     bind_res (unwrap_opt (strip_prefix prefix (dir @ [name]))) (\<lambda>slug. archive_dir_all prefix dir entries (out @ [(path_str slug, content)]))"

definition ar_run :: "(cpio_entries \<Rightarrow> 'arc option) \<Rightarrow> string list \<Rightarrow> directory \<Rightarrow> 'arc res" where
  "ar_run write_cpio artifacts_dir entries =
     bind_res (archive_dir_all artifacts_dir artifacts_dir entries []) (\<lambda>input. unwrap_opt (write_cpio input))"

definition uprog_all :: "('arc \<Rightarrow> cpio_entries) \<Rightarrow> 'arc \<Rightarrow> string list" where
  "uprog_all iter_files USER_PROGRAMS = map fst (iter_files USER_PROGRAMS)"

fun find_entry :: "(u8 list \<Rightarrow> 'elf option) \<Rightarrow> string \<Rightarrow> cpio_entries \<Rightarrow> 'elf res option" where
  "find_entry minimal_parse slug [] = None"
| "find_entry minimal_parse slug ((name, content) # es) =
     (if name = slug then Some (ok_or (minimal_parse content) ElfParseError) else find_entry minimal_parse slug es)"

definition uprog_find :: "('arc \<Rightarrow> cpio_entries) \<Rightarrow> (u8 list \<Rightarrow> 'elf option) \<Rightarrow> 'arc \<Rightarrow> string \<Rightarrow> 'elf res" where
  "uprog_find iter_files minimal_parse USER_PROGRAMS slug = (case find_entry minimal_parse slug (iter_files USER_PROGRAMS) of
     Some r \<Rightarrow> r | None \<Rightarrow> Fail ElfParseError)"

section \<open>The files of a directory\<close>

fun files_of :: "directory \<Rightarrow> (string list \<times> u8 list) list" where
  "files_of [] = []"
| "files_of ((name, Dir_Entry es) # entries) = map (\<lambda>(p, c). (name # p, c)) (files_of es) @ files_of entries"
| "files_of ((name, File_Entry c) # entries) = ([name], c) # files_of entries"

fun file_at :: "directory \<Rightarrow> string list \<Rightarrow> u8 list option" where
  "file_at d [] = None"
| "file_at d (x # p) = (case map_of d x of
     None \<Rightarrow> None
   | Some (File_Entry c) \<Rightarrow> if p = [] then Some c else None
   | Some (Dir_Entry es) \<Rightarrow> file_at es p)"

text \<open>What a file system guarantees: names in a directory are distinct, not empty and without a slash.\<close>

fun dir_wf :: "directory \<Rightarrow> bool" where
  "dir_wf [] = True"
| "dir_wf ((name, e) # entries) \<longleftrightarrow> name \<noteq> [] \<and> CHR ''/'' \<notin> set name \<and> name \<notin> fst ` set entries \<and>
     (case e of File_Entry c \<Rightarrow> True | Dir_Entry es \<Rightarrow> dir_wf es) \<and> dir_wf entries"

lemma strip_prefix_append [simp]: "strip_prefix xs (xs @ ys) = Some ys"
  by (induction xs) simp_all

lemma archive_dir_all_files:
  "archive_dir_all prefix (prefix @ rel) d out = Ok (out @ map (\<lambda>(p, c). (path_str (rel @ p), c)) (files_of d))"
proof (induction d arbitrary: rel out rule: files_of.induct)
  case (2 name es entries)
  then show ?case by (simp add: case_prod_unfold comp_def)
qed simp_all

lemma files_of_nonempty: "(p, c) \<in> set (files_of d) \<Longrightarrow> p \<noteq> []"
  by (induction d arbitrary: p rule: files_of.induct) auto

lemma files_of_head: "(x # p, c) \<in> set (files_of d) \<Longrightarrow> x \<in> fst ` set d"
  by (induction d arbitrary: x p rule: files_of.induct) auto

lemma file_at_iff: "dir_wf d \<Longrightarrow> (p, c) \<in> set (files_of d) \<longleftrightarrow> file_at d p = Some c"
proof (induction d arbitrary: p rule: files_of.induct)
  case 1
  then show ?case by (cases p) simp_all
next
  case (2 name es entries)
  show ?case
  proof (cases p)
    case Nil
    then show ?thesis using files_of_nonempty [of p c "(name, Dir_Entry es) # entries"] by auto
  next
    case (Cons x q)
    have "(x # q, c) \<notin> set (files_of entries)" if "x = name" using that files_of_head [of x q c entries] 2(3) by auto
    then show ?thesis using 2 Cons by auto
  qed
next
  case (3 name c' entries)
  show ?case
  proof (cases p)
    case Nil
    then show ?thesis using files_of_nonempty [of p c "(name, File_Entry c') # entries"] by auto
  next
    case (Cons x q)
    have "(x # q, c) \<notin> set (files_of entries)" if "x = name" using that files_of_head [of x q c entries] 3(2) by auto
    then show ?thesis using 3 Cons by auto
  qed
qed

lemma files_of_names: "dir_wf d \<Longrightarrow> (p, c) \<in> set (files_of d) \<Longrightarrow> \<forall>x\<in>set p. CHR ''/'' \<notin> set x"
  by (induction d arbitrary: p rule: files_of.induct) auto

text \<open>Paths without slashes in their components can be read back from their text.\<close>

lemma slash_split:
  assumes "CHR ''/'' \<notin> set x" "CHR ''/'' \<notin> set y" "x @ CHR ''/'' # a = y @ CHR ''/'' # b"
  shows "x = y \<and> a = b"
proof -
  have t: "takeWhile (\<lambda>c. c \<noteq> CHR ''/'') (z @ CHR ''/'' # r) = z" if "CHR ''/'' \<notin> set z" for z r
    using that by (induction z) auto
  have "x = y" using t [OF assms(1), of a] t [OF assms(2), of b] assms(3) by metis
  then show ?thesis using assms(3) by simp
qed

lemma path_str_slash: "CHR ''/'' \<in> set (path_str (x # y # p))"
  by simp

lemma path_str_inj:
  "\<forall>x\<in>set p. CHR ''/'' \<notin> set x \<Longrightarrow> \<forall>x\<in>set q. CHR ''/'' \<notin> set x \<Longrightarrow> p \<noteq> [] \<Longrightarrow> q \<noteq> [] \<Longrightarrow> path_str p = path_str q \<Longrightarrow> p = q"
proof (induction p arbitrary: q rule: path_str.induct)
  case (2 x)
  then show ?case using path_str_slash by (cases q rule: path_str.cases) auto
next
  case (3 x y xs)
  show ?case
  proof (cases q rule: path_str.cases)
    case (2 z)
    then show ?thesis using "3.prems" path_str_slash [of x y xs] by auto
  next
    case (3 z w zs)
    have "x = z \<and> path_str (y # xs) = path_str (w # zs)"
      using slash_split [of x z "path_str (y # xs)" "path_str (w # zs)"] "3.prems" 3 by simp
    then show ?thesis using "3.IH" [of "w # zs"] "3.prems" 3 by simp
  qed (use "3.prems" in simp)
qed simp

section \<open>Looking a program up\<close>

text \<open>What is relied on of the archive format: entries whose names are not empty and not the end marker, and whose sizes fit the
  32-bit fields of the format (the length of the name with its terminator, and of the file), can be written, and reading the archive gives them
  back in order.\<close>

definition newc_fits :: "string \<Rightarrow> u8 list \<Rightarrow> bool" where
  "newc_fits name c \<longleftrightarrow> length name + 1 < 2 ^ 32 \<and> length c < 2 ^ 32"

definition cpio_ok :: "(cpio_entries \<Rightarrow> 'arc option) \<Rightarrow> ('arc \<Rightarrow> cpio_entries) \<Rightarrow> bool" where
  "cpio_ok write_cpio iter_files \<longleftrightarrow> (\<forall>es. (\<forall>(name, c)\<in>set es. name \<noteq> [] \<and> name \<noteq> ''TRAILER!!!'' \<and> newc_fits name c) \<longrightarrow>
     (\<exists>arc. write_cpio es = Some arc \<and> iter_files arc = es))"

lemma find_entry_map_of:
  "find_entry minimal_parse slug es = map_option (\<lambda>c. ok_or (minimal_parse c) ElfParseError) (map_of es slug)"
  by (induction es) auto

lemma archived_lookup:
  assumes "dir_wf d"
  shows "map_of (map (\<lambda>(p, c). (path_str p, c)) (files_of d)) s = Some c \<longleftrightarrow> (\<exists>p. s = path_str p \<and> file_at d p = Some c)"
proof
  assume "map_of (map (\<lambda>(p, c). (path_str p, c)) (files_of d)) s = Some c"
  from map_of_SomeD [OF this] show "\<exists>p. s = path_str p \<and> file_at d p = Some c" using file_at_iff [OF assms] by auto
next
  assume "\<exists>p. s = path_str p \<and> file_at d p = Some c"
  then obtain p where p: "s = path_str p" "(p, c) \<in> set (files_of d)" using file_at_iff [OF assms] by blast
  have "s \<in> fst ` set (map (\<lambda>(p, c). (path_str p, c)) (files_of d))" using p by force
  then obtain c' where c': "map_of (map (\<lambda>(p, c). (path_str p, c)) (files_of d)) s = Some c'" by (metis map_of_eq_None_iff option.exhaust)
  from map_of_SomeD [OF c'] obtain q where q: "s = path_str q" "(q, c') \<in> set (files_of d)" by auto
  have "q = p" by (rule path_str_inj) (use p q files_of_names [OF assms] files_of_nonempty in auto)
  then show "map_of (map (\<lambda>(p, c). (path_str p, c)) (files_of d)) s = Some c" using c' p q file_at_iff [OF assms] by auto
qed

lemma files_of_components: "dir_wf d \<Longrightarrow> (p, c) \<in> set (files_of d) \<Longrightarrow> x \<in> set p \<Longrightarrow> x \<noteq> []"
  by (induction d arbitrary: p rule: files_of.induct) auto

lemma path_str_nonempty: "dir_wf d \<Longrightarrow> (p, c) \<in> set (files_of d) \<Longrightarrow> path_str p \<noteq> []"
proof -
  assume a: "dir_wf d" "(p, c) \<in> set (files_of d)"
  then show ?thesis using files_of_components [OF a] files_of_nonempty [OF a(2)] by (cases p rule: path_str.cases) auto
qed

text \<open>C37. What is archived is what is found, for a directory without a file named as the archive's end marker at its top and with
  files of less than four gigabytes (the limits of the format): archiving it succeeds, and in the kernel the name of every file in
  it, with slashes between the components, finds the program parsed from exactly that file's bytes (or the parser's
  error); every other name is refused, and the listed names are those of the files.\<close>

theorem uprog_archive_roundtrip:
  assumes "cpio_ok write_cpio iter_files" "dir_wf d" "file_at d [''TRAILER!!!''] = None"
    and fits: "\<forall>p c. file_at d p = Some c \<longrightarrow> newc_fits (path_str p) c"
  shows "\<exists>arc. ar_run write_cpio root d = Ok arc \<and>
    (\<forall>p c. file_at d p = Some c \<longrightarrow> uprog_find iter_files minimal_parse arc (path_str p) = ok_or (minimal_parse c) ElfParseError) \<and>
    (\<forall>s. (\<forall>p. file_at d p \<noteq> None \<longrightarrow> path_str p \<noteq> s) \<longrightarrow> uprog_find iter_files minimal_parse arc s = Fail ElfParseError) \<and>
    set (uprog_all iter_files arc) = {path_str p |p. file_at d p \<noteq> None}"
proof -
  let ?es = "map (\<lambda>(p, c). (path_str p, c)) (files_of d)"
  have a: "archive_dir_all root root d [] = Ok ?es" using archive_dir_all_files [of root "[]" d "[]"] by simp
  have "path_str p \<noteq> ''TRAILER!!!''" if "(p, c) \<in> set (files_of d)" for p c
    using path_str_inj [of p "[''TRAILER!!!'']"] files_of_names [OF assms(2) that] files_of_nonempty [OF that] file_at_iff [OF assms(2), of p c] that assms(3)
    by auto
  then have "\<forall>(name, c)\<in>set ?es. name \<noteq> [] \<and> name \<noteq> ''TRAILER!!!'' \<and> newc_fits name c"
    using path_str_nonempty [OF assms(2)] fits file_at_iff [OF assms(2)] by auto
  then obtain arc where arc: "write_cpio ?es = Some arc" "iter_files arc = ?es" using assms(1) unfolding cpio_ok_def by blast
  have "uprog_find iter_files minimal_parse arc (path_str p) = ok_or (minimal_parse c) ElfParseError" if "file_at d p = Some c" for p c
  proof -
    have "map_of ?es (path_str p) = Some c" using archived_lookup [OF assms(2)] that by blast
    then show ?thesis by (simp add: uprog_find_def find_entry_map_of arc(2))
  qed
  moreover have "uprog_find iter_files minimal_parse arc s = Fail ElfParseError" if s: "\<forall>p. file_at d p \<noteq> None \<longrightarrow> path_str p \<noteq> s" for s
  proof -
    have "map_of ?es s = None"
    proof (rule ccontr)
      assume "map_of ?es s \<noteq> None"
      then obtain c where "map_of ?es s = Some c" by blast
      then show False using archived_lookup [OF assms(2)] s by fastforce
    qed
    then show ?thesis by (simp add: uprog_find_def find_entry_map_of arc(2))
  qed
  moreover have "set (uprog_all iter_files arc) = {path_str p |p. file_at d p \<noteq> None}"
  proof -
    have "set (uprog_all iter_files arc) = path_str ` fst ` set (files_of d)" by (force simp: uprog_all_def arc(2))
    also have "fst ` set (files_of d) = {p. file_at d p \<noteq> None}" using file_at_iff [OF assms(2)] by force
    finally show ?thesis by auto
  qed
  moreover have "ar_run write_cpio root d = Ok arc" by (simp add: ar_run_def a arc(1))
  ultimately show ?thesis by blast
qed

definition demo_progs :: directory where
  "demo_progs = [(''init'', File_Entry [1, 2]), (''tools'', Dir_Entry [(''ls'', File_Entry []), (''init'', File_Entry [3])])]"

theorem uprog_archive_roundtrip_witness:
  "\<exists>arc. ar_run Some [''uprog'', ''release''] demo_progs = Ok arc \<and>
     uprog_find id (\<lambda>c. if c = [] then None else Some (length c)) arc ''tools/init'' = Ok 1 \<and>
     uprog_find id (\<lambda>c. if c = [] then None else Some (length c)) arc ''init'' = Ok 2 \<and>
     uprog_find id (\<lambda>c. if c = [] then None else Some (length c)) arc ''tools/ls'' = Fail ElfParseError"
proof -
  let ?parse = "\<lambda>c :: u8 list. if c = [] then None else Some (length c)"
  have "cpio_ok Some id" by (simp add: cpio_ok_def)
  moreover have "dir_wf demo_progs" "file_at demo_progs [''TRAILER!!!''] = None" by (simp_all add: demo_progs_def)
  moreover have "\<forall>p c. file_at demo_progs p = Some c \<longrightarrow> newc_fits (path_str p) c"
    using file_at_iff [OF \<open>dir_wf demo_progs\<close>] by (auto simp: demo_progs_def newc_fits_def simp flip: file_at_iff)
  ultimately obtain arc where arc: "ar_run Some [''uprog'', ''release''] demo_progs = Ok arc"
    "\<forall>p c. file_at demo_progs p = Some c \<longrightarrow> uprog_find id ?parse arc (path_str p) = ok_or (?parse c) ElfParseError"
    using uprog_archive_roundtrip [of Some id demo_progs "[''uprog'', ''release'']" ?parse] by blast
  have "uprog_find id ?parse arc (path_str [''tools'', ''init'']) = Ok 1" "uprog_find id ?parse arc (path_str [''init'']) = Ok 2"
    "uprog_find id ?parse arc (path_str [''tools'', ''ls'']) = Fail ElfParseError"
    by (subst arc(2) [rule_format], simp add: demo_progs_def, simp)+
  then show ?thesis using arc(1) by simp
qed

end
