(* ===== verification/Bootargs.thy ===== *)
theory Bootargs
  imports Hal "HOL-Library.List_Lexorder" "HOL-Library.Char_ord"
begin

text \<open>
  Boot arguments, \<^verbatim>\<open>kern/src/bootargs.rs\<close>, and the table of tests they refer to, \<^verbatim>\<open>kern/modules/testdef/src/lib.rs\<close>.
  The option parser (the \<^verbatim>\<open>getargs\<close> crate) is a parameter. Strings are ASCII. What is printed, spawned and yielded is recorded in order.
\<close>

section \<open>The table of tests\<close>

record 't TestDef =
  td_name :: string
  td_test :: 't

fun str_contains :: "string \<Rightarrow> string \<Rightarrow> bool" where
  "str_contains needle [] \<longleftrightarrow> needle = []"
| "str_contains needle (c # cs) \<longleftrightarrow> take (length needle) (c # cs) = needle \<or> str_contains needle cs"

definition test_all :: "'t TestDef list \<Rightarrow> string list" where
  "test_all defs = map td_name defs"

fun test_find :: "string \<Rightarrow> 't TestDef list \<Rightarrow> (string \<times> 't) option" where
  "test_find name [] = None"
| "test_find name (d # defs) = (if str_contains name (td_name d) then Some (td_name d, td_test d) else test_find name defs)"

section \<open>Executing the arguments\<close>

datatype Opt = Short char | Long string

text \<open>\<^verbatim>\<open>next_opt\<close> and \<^verbatim>\<open>value\<close> return an error as \<open>None\<close>.\<close>

record 'o getargs =
  opts_new :: "string list \<Rightarrow> 'o"
  next_opt :: "'o \<Rightarrow> Opt option option \<times> 'o"
  opt_value :: "'o \<Rightarrow> string option \<times> 'o"

datatype 't boot_event = Info string | Spawned 't | Yielded

definition whitespace :: "char \<Rightarrow> bool" where
  "whitespace c \<longleftrightarrow> c \<in> {CHR '' '', CHR 0x09, CHR 0x0A, CHR 0x0B, CHR 0x0C, CHR 0x0D}"

fun split_words :: "string \<Rightarrow> string \<Rightarrow> string list" where
  "split_words w [] = (if w = [] then [] else [w])"
| "split_words w (c # cs) = (if whitespace c then (if w = [] then split_words [] cs else w # split_words [] cs) else split_words (w @ [c]) cs)"

definition split_whitespace :: "string \<Rightarrow> string list" where
  "split_whitespace s = split_words [] s"

definition bootargs_set :: "string \<Rightarrow> string option \<Rightarrow> string option" where
  "bootargs_set bootargs BOOTARGS = call_once bootargs BOOTARGS"

definition help_events :: "'t boot_event list" where
  "help_events = [Info ''boot arguments:'', Info ''   -t, --test <test>    Run the specified test'',
     Info ''   -h, --help           Display this information'']"

definition is_help :: "Opt \<Rightarrow> bool" where
  "is_help opt \<longleftrightarrow> opt = Short (CHR ''h'') \<or> opt = Long ''help''"

definition is_test :: "Opt \<Rightarrow> bool" where
  "is_test opt \<longleftrightarrow> opt = Short (CHR ''t'') \<or> opt = Long ''test''"

definition run_test :: "'t TestDef list \<Rightarrow> string \<Rightarrow> 't boot_event list res" where
  "run_test defs arg =
     (if arg = ''help'' then Ok (Info ''all available tests:'' # map (\<lambda>t. Info (''- '' @ t)) (sort (test_all defs)))
      else case test_find arg defs of
        None \<Rightarrow> Panicked
      | Some (name, func) \<Rightarrow> Ok [Info (''test case '' @ name @ '' begin''), Spawned func, Yielded, Info (''test case '' @ name @ '' end'')])"

partial_function (option) exec_opts :: "'o getargs \<Rightarrow> 't TestDef list \<Rightarrow> 'o \<Rightarrow> 't boot_event list \<Rightarrow> (unit res \<times> 't boot_event list) option" where
  "exec_opts api defs opts ev = (case next_opt api opts of
     (None, opts) \<Rightarrow> Some (Panicked, ev)
   | (Some None, opts) \<Rightarrow> Some (Ok (), ev)
   | (Some (Some opt), opts) \<Rightarrow>
       if is_help opt then exec_opts api defs opts (ev @ help_events)
       else if is_test opt then (case opt_value api opts of
           (None, opts) \<Rightarrow> Some (Panicked, ev)
         | (Some arg, opts) \<Rightarrow> (case run_test defs arg of
             Inl e \<Rightarrow> Some (Inl e, ev)
           | Inr evs \<Rightarrow> exec_opts api defs opts (ev @ evs)))
       else Some (Panicked, ev))"

definition bootargs_execute :: "'o getargs \<Rightarrow> 't TestDef list \<Rightarrow> string option \<Rightarrow> (unit res \<times> 't boot_event list) option" where
  "bootargs_execute api defs BOOTARGS = (case BOOTARGS of
     None \<Rightarrow> Some (Ok (), [])
   | Some bootargs \<Rightarrow> exec_opts api defs (opts_new api (split_whitespace bootargs)) [Info (''bootargs: '' @ bootargs)])"

section \<open>Finding a test\<close>

lemma str_contains_iff: "str_contains needle hay \<longleftrightarrow> (\<exists>xs ys. hay = xs @ needle @ ys)"
proof (induction hay)
  case (Cons c cs)
  have "take (length needle) (c # cs) = needle \<longleftrightarrow> (\<exists>ys. c # cs = needle @ ys)"
    by (metis append_eq_conv_conj append_take_drop_id)
  then have "str_contains needle (c # cs) \<longleftrightarrow> (\<exists>ys. c # cs = needle @ ys) \<or> (\<exists>xs ys. cs = xs @ needle @ ys)"
    using Cons.IH by simp
  also have "\<dots> \<longleftrightarrow> (\<exists>xs ys. c # cs = xs @ needle @ ys)"
    by (metis Cons_eq_append_conv append_Cons)
  finally show ?case .
qed simp

lemma test_find_first:
  "test_find name defs = Some (n, f) \<longleftrightarrow> (\<exists>i<length defs. n = td_name (defs ! i) \<and> f = td_test (defs ! i) \<and> str_contains name n \<and>
     (\<forall>j<i. \<not> str_contains name (td_name (defs ! j))))"
proof (induction defs)
  case (Cons d defs)
  show ?case
  proof (cases "str_contains name (td_name d)")
    case True
    then have "(\<exists>i<length (d # defs). n = td_name ((d # defs) ! i) \<and> f = td_test ((d # defs) ! i) \<and> str_contains name n \<and>
       (\<forall>j<i. \<not> str_contains name (td_name ((d # defs) ! j)))) \<longleftrightarrow> n = td_name d \<and> f = td_test d"
      by (auto simp: Ex_less_Suc2 All_less_Suc2)
    then show ?thesis using True by auto
  next
    case False
    have "(\<exists>i<length (d # defs). n = td_name ((d # defs) ! i) \<and> f = td_test ((d # defs) ! i) \<and> str_contains name n \<and>
       (\<forall>j<i. \<not> str_contains name (td_name ((d # defs) ! j)))) \<longleftrightarrow>
       (\<exists>i<length defs. n = td_name (defs ! i) \<and> f = td_test (defs ! i) \<and> str_contains name n \<and> (\<forall>j<i. \<not> str_contains name (td_name (defs ! j))))"
      using False by (auto simp: Ex_less_Suc2 All_less_Suc2)
    then show ?thesis using False Cons.IH by simp
  qed
qed simp

section \<open>The loop over the options\<close>

text \<open>What is relied on of the parser: \<open>rest\<close> gives the options that are left, each with the value that follows it;
  \<^verbatim>\<open>next_opt\<close> takes the first, \<^verbatim>\<open>value\<close> the value of the option just taken.\<close>

definition getargs_ok :: "'o getargs \<Rightarrow> ('o \<Rightarrow> (Opt \<times> string option) list) \<Rightarrow> bool" where
  "getargs_ok api rest \<longleftrightarrow> (\<forall>opts. case rest opts of
     [] \<Rightarrow> fst (next_opt api opts) = Some None
   | (opt, v) # r \<Rightarrow> (\<exists>opts'. next_opt api opts = (Some (Some opt), opts') \<and> fst (opt_value api opts') = v \<and>
       (v = None \<longrightarrow> rest opts' = r) \<and> (v \<noteq> None \<longrightarrow> rest (snd (opt_value api opts')) = r)))"

fun opt_events :: "'t TestDef list \<Rightarrow> Opt \<times> string option \<Rightarrow> 't boot_event list res" where
  "opt_events defs (opt, None) = (if is_help opt then Ok help_events else Panicked)"
| "opt_events defs (opt, Some arg) = (if is_test opt then run_test defs arg else Panicked)"

fun opts_events :: "'t TestDef list \<Rightarrow> (Opt \<times> string option) list \<Rightarrow> unit res \<times> 't boot_event list" where
  "opts_events defs [] = (Ok (), [])"
| "opts_events defs (o1 # os) = (case opt_events defs o1 of Inl e \<Rightarrow> (Inl e, []) | Inr ev \<Rightarrow> (case opts_events defs os of (r, evs) \<Rightarrow> (r, ev @ evs)))"

lemma help_not_test: "is_help opt \<Longrightarrow> \<not> is_test opt"
  by (auto simp: is_help_def is_test_def)

lemma exec_opts_events:
  assumes "getargs_ok api rest" "\<forall>(opt, v)\<in>set (rest opts). is_help opt \<longrightarrow> v = None"
  shows "exec_opts api defs opts ev = Some (case opts_events defs (rest opts) of (r, evs) \<Rightarrow> (r, ev @ evs))"
  using assms(2)
proof (induction "rest opts" arbitrary: opts ev)
  case Nil
  note nil = Nil.hyps [symmetric]
  then have "fst (next_opt api opts) = Some None" using spec [OF assms(1) [unfolded getargs_ok_def], of opts] by simp
  then show ?case using nil by (subst exec_opts.simps) (auto split: prod.splits)
next
  case (Cons ov r)
  obtain opt v where ov: "ov = (opt, v)" by (cases ov)
  have "case rest opts of [] \<Rightarrow> fst (next_opt api opts) = Some None
     | (opt, v) # r \<Rightarrow> (\<exists>opts'. next_opt api opts = (Some (Some opt), opts') \<and> fst (opt_value api opts') = v \<and>
       (v = None \<longrightarrow> rest opts' = r) \<and> (v \<noteq> None \<longrightarrow> rest (snd (opt_value api opts')) = r))"
    using assms(1) unfolding getargs_ok_def by blast
  then obtain opts' where o: "next_opt api opts = (Some (Some opt), opts')" "fst (opt_value api opts') = v"
    "v = None \<longrightarrow> rest opts' = r" "v \<noteq> None \<longrightarrow> rest (snd (opt_value api opts')) = r"
    using Cons.hyps(2) [symmetric] ov by auto
  have h: "is_help opt \<longrightarrow> v = None" "\<forall>(opt, v)\<in>set r. is_help opt \<longrightarrow> v = None" using Cons.prems Cons.hyps(2) [symmetric] ov by auto
  obtain u opts'' where u: "opt_value api opts' = (u, opts'')" by (cases "opt_value api opts'")
  have uv: "u = v" using o(2) u by simp
  show ?case
  proof (cases v)
    case None
    then have e: "exec_opts api defs opts' ev' = Some (case opts_events defs r of (q, evs) \<Rightarrow> (q, ev' @ evs))" for ev'
      using Cons.hyps(1) [of opts' ev'] o(3) h(2) by simp
    show ?thesis using o(1) None u uv e help_not_test [of opt] Cons.hyps(2) [symmetric] ov
      by (subst exec_opts.simps) (auto split: prod.splits)
  next
    case (Some arg)
    then have e: "exec_opts api defs opts'' ev' = Some (case opts_events defs r of (q, evs) \<Rightarrow> (q, ev' @ evs))" for ev'
      using Cons.hyps(1) [of opts'' ev'] o(4) h(2) u by simp
    show ?thesis using o(1) Some u uv e h(1) Cons.hyps(2) [symmetric] ov
      by (subst exec_opts.simps) (auto split: prod.splits sum.splits)
  qed
qed

lemma test_find_total: "\<exists>d\<in>set defs. str_contains name (td_name d) \<Longrightarrow> \<exists>n f. test_find name defs = Some (n, f)"
  by (induction defs) auto

definition test_events :: "string \<times> 't \<Rightarrow> 't boot_event list" where
  "test_events t = [Info (''test case '' @ fst t @ '' begin''), Spawned (snd t), Yielded, Info (''test case '' @ fst t @ '' end'')]"

lemma opts_events_tests:
  "\<forall>n\<in>set names. n \<noteq> ''help'' \<and> (\<exists>d\<in>set defs. str_contains n (td_name d)) \<Longrightarrow>
   opts_events defs (map (\<lambda>n. (Short (CHR ''t''), Some n)) names) = (Ok (), concat (map (\<lambda>n. test_events (the (test_find n defs))) names))"
proof (induction names)
  case (Cons n names)
  obtain m f where "test_find n defs = Some (m, f)" using test_find_total [of defs n] Cons.prems by auto
  then show ?case using Cons by (simp add: is_test_def run_test_def test_events_def)
qed simp

text \<open>Boot arguments that ask for tests are carried out: each \<^verbatim>\<open>-t\<close> starts the first test of the table whose name
  contains the argument, in the order of the arguments, giving way once to it before the next; nothing else is started
  and the loop ends.\<close>

theorem bootargs_run_tests:
  assumes "getargs_ok api rest" "rest (opts_new api (split_whitespace args)) = map (\<lambda>n. (Short (CHR ''t''), Some n)) names"
    and "\<forall>n\<in>set names. n \<noteq> ''help'' \<and> (\<exists>d\<in>set defs. str_contains n (td_name d))"
  shows "\<exists>ts. bootargs_execute api defs (Some args) = Some (Ok (), Info (''bootargs: '' @ args) # concat (map test_events ts)) \<and>
    length ts = length names \<and>
    (\<forall>k<length names. \<exists>i<length defs. ts ! k = (td_name (defs ! i), td_test (defs ! i)) \<and> str_contains (names ! k) (td_name (defs ! i)) \<and>
       (\<forall>j<i. \<not> str_contains (names ! k) (td_name (defs ! j))))"
proof -
  let ?ts = "map (\<lambda>n. the (test_find n defs)) names"
  have h: "\<forall>(opt, v)\<in>set (rest (opts_new api (split_whitespace args))). is_help opt \<longrightarrow> v = None"
    unfolding assms(2) by (auto simp: is_help_def)
  have "bootargs_execute api defs (Some args) = Some (Ok (), Info (''bootargs: '' @ args) # concat (map test_events ?ts))"
    using exec_opts_events [OF assms(1) h, of defs "[Info (''bootargs: '' @ args)]"]
    unfolding assms(2) opts_events_tests [OF assms(3)] by (simp add: bootargs_execute_def comp_def)
  moreover have "\<exists>i<length defs. ?ts ! k = (td_name (defs ! i), td_test (defs ! i)) \<and> str_contains (names ! k) (td_name (defs ! i)) \<and>
       (\<forall>j<i. \<not> str_contains (names ! k) (td_name (defs ! j)))" if k: "k < length names" for k
  proof -
    obtain n f where nf: "test_find (names ! k) defs = Some (n, f)" using test_find_total [of defs "names ! k"] assms(3) nth_mem [OF k] by blast
    then have t: "?ts ! k = (n, f)" using k by simp
    show ?thesis unfolding t using nf [unfolded test_find_first] by auto
  qed
  ultimately show ?thesis by (intro exI [of _ ?ts]) simp
qed

text \<open>A parser for arguments of the form \<^verbatim>\<open>-t name\<close>.\<close>

fun pair_words :: "string list \<Rightarrow> (Opt \<times> string option) list" where
  "pair_words (t # n # ws) = (Short (CHR ''t''), Some n) # pair_words ws"
| "pair_words ws = []"

definition pair_args :: "((Opt \<times> string option) list \<times> string option) getargs" where
  "pair_args = \<lparr>opts_new = (\<lambda>ws. (pair_words ws, None)),
     next_opt = (\<lambda>(r, p). case r of [] \<Rightarrow> (Some None, ([], None)) | (opt, v) # r' \<Rightarrow> (Some (Some opt), (r', v))),
     opt_value = (\<lambda>(r, p). (p, (r, None)))\<rparr>"

lemma pair_args_ok: "getargs_ok pair_args fst"
  by (auto simp: getargs_ok_def pair_args_def split: list.splits)

theorem bootargs_run_tests_witness:
  "\<exists>ts. bootargs_execute pair_args [\<lparr>td_name = ''test::mm'', td_test = 1\<rparr>, \<lparr>td_name = ''test::trap'', td_test = 2 :: nat\<rparr>] (Some ''-t trap -t test'') =
     Some (Ok (), Info ''bootargs: -t trap -t test'' # concat (map test_events ts)) \<and> length ts = 2"
proof -
  let ?defs = "[\<lparr>td_name = ''test::mm'', td_test = 1\<rparr>, \<lparr>td_name = ''test::trap'', td_test = 2\<rparr>] :: nat TestDef list"
  have "fst (opts_new pair_args (split_whitespace ''-t trap -t test'')) = map (\<lambda>n. (Short (CHR ''t''), Some n)) [''trap'', ''test'']"
    by (simp add: pair_args_def split_whitespace_def whitespace_def)
  moreover have "\<forall>n\<in>set [''trap'', ''test'']. n \<noteq> ''help'' \<and> (\<exists>d\<in>set ?defs. str_contains n (td_name d))" by simp
  ultimately show ?thesis using bootargs_run_tests [OF pair_args_ok, of "''-t trap -t test''" "[''trap'', ''test'']" ?defs] by auto
qed

end
