(* ===== verification/Logging.thy ===== *)
theory Logging
  imports Runtime
begin

text \<open>
  The kernel log, \<^verbatim>\<open>kern/modules/logging/src/lib.rs\<close>, with the colours of \<^verbatim>\<open>kern/modules/util/src/color.rs\<close>: a record is
  split into lines, each line is decorated and written character by character to the console of the firmware while the
  processor holds the lock of the logger with its interrupts off. The messages are ASCII.
\<close>

section \<open>Formatting\<close>

datatype ColorCode = Red | Green | Yellow | Blue | Magenta | Cyan | White

fun color_code :: "ColorCode \<Rightarrow> nat" where
  "color_code Red = 31"
| "color_code Green = 32"
| "color_code Yellow = 33"
| "color_code Blue = 34"
| "color_code Magenta = 35"
| "color_code Cyan = 36"
| "color_code White = 37"

definition digit :: "nat \<Rightarrow> char" where
  "digit n = char_of (48 + n)"

fun dec :: "nat \<Rightarrow> string" where
  "dec n = (if n < 10 then [digit n] else dec (n div 10) @ [digit (n mod 10)])"

declare dec.simps [simp del]

text \<open>The paddings of \<^verbatim>\<open>format_args!\<close>: \<^verbatim>\<open>{:>w}\<close>, \<^verbatim>\<open>{:0w}\<close> and \<^verbatim>\<open>{:^w}\<close>.\<close>

definition pad_left :: "char \<Rightarrow> nat \<Rightarrow> string \<Rightarrow> string" where
  "pad_left c w s = replicate (w - length s) c @ s"

definition pad_center :: "nat \<Rightarrow> string \<Rightarrow> string" where
  "pad_center w s = (let n = w - length s in replicate (n div 2) (CHR '' '') @ s @ replicate (n - n div 2) (CHR '' ''))"

definition with_color :: "bool \<Rightarrow> ColorCode \<Rightarrow> ColorCode \<Rightarrow> string \<Rightarrow> string" where
  "with_color colorful color restore_color arg =
     (if colorful then [CHR 0x1B, CHR ''[''] @ dec (color_code color) @ ''m'' @ arg @ [CHR 0x1B, CHR ''[''] @ dec (color_code restore_color) @ ''m'' else arg)"

text \<open>Levels in the order of the \<^verbatim>\<open>log\<close> crate; a filter of 0 is off.\<close>

datatype Level = Level_Error | Level_Warn | Level_Info | Level_Debug | Level_Trace

fun level_num :: "Level \<Rightarrow> nat" where
  "level_num Level_Error = 1"
| "level_num Level_Warn = 2"
| "level_num Level_Info = 3"
| "level_num Level_Debug = 4"
| "level_num Level_Trace = 5"

fun level_str :: "Level \<Rightarrow> string" where
  "level_str Level_Error = ''ERROR''"
| "level_str Level_Warn = ''WARN''"
| "level_str Level_Info = ''INFO''"
| "level_str Level_Debug = ''DEBUG''"
| "level_str Level_Trace = ''TRACE''"

fun level_color :: "Level \<Rightarrow> ColorCode" where
  "level_color Level_Error = Red"
| "level_color Level_Warn = Yellow"
| "level_color Level_Info = Green"
| "level_color Level_Debug = Cyan"
| "level_color Level_Trace = Magenta"

definition log_enabled :: "nat \<Rightarrow> Level \<Rightarrow> bool" where
  "log_enabled max_level level \<longleftrightarrow> level_num level \<le> max_level"

text \<open>The lookups of the current executor and inspector give a value or an error, which falls through to the next case; they do
  not panic (\<open>current_lookups_total\<close> below).\<close>

definition analyse_kernel_state :: "'fut Runtime \<Rightarrow> string" where
  "analyse_kernel_state rt = (case fst (executor_with_current (\<lambda>ex. (ex_id ex, ex)) rt) of
     Inr i \<Rightarrow> ''executor#'' @ dec (unat i)
   | Inl _ \<Rightarrow> (case fst (inspector_with_current (\<lambda>is. (is_id is, is)) rt) of
       Inr i \<Rightarrow> ''inspector#'' @ dec (unat i)
     | Inl _ \<Rightarrow> if rt_status rt = Rt_Unused then ''bootstrap'' else ''runtime''))"

text \<open>One line; the time is a duration in nanoseconds.\<close>

definition log_time :: "nat \<Rightarrow> string" where
  "log_time cpu_time = (let micros = cpu_time div 1000
     in pad_left (CHR '' '') 6 (dec (micros div 1000000)) @ ''.'' @ pad_left (CHR ''0'') 6 (dec (micros mod 1000000)))"

definition log_line :: "bool \<Rightarrow> nat \<Rightarrow> nat \<Rightarrow> Level \<Rightarrow> string \<Rightarrow> string \<Rightarrow> string" where
  "log_line colorful cpu_time cpu_id level kernel_state args = with_color colorful White White
     (''[ '' @ log_time cpu_time @ '' cpu#'' @ dec cpu_id @ '' '' @ with_color colorful (level_color level) White (pad_left (CHR '' '') 5 (level_str level)) @
      '' ] ( '' @ with_color colorful Blue White (pad_center 14 kernel_state) @ '' ) '' @ with_color colorful White White args @ [CHR 0x0A])"

fun split_lines :: "string \<Rightarrow> string list" where
  "split_lines [] = [[]]"
| "split_lines (c # cs) = (if c = CHR 0x0A then [] # split_lines cs else case split_lines cs of l # ls \<Rightarrow> (c # l) # ls | [] \<Rightarrow> [[c]])"

text \<open>The lines of one record.\<close>

definition log_lines :: "bool \<Rightarrow> nat \<Rightarrow> nat \<Rightarrow> nat \<Rightarrow> Level \<Rightarrow> 'fut Runtime \<Rightarrow> string \<Rightarrow> string list" where
  "log_lines colorful max_level cpu_time cpu_id level rt args =
     (if log_enabled max_level level then map (log_line colorful cpu_time cpu_id level (analyse_kernel_state rt)) (split_lines args) else [])"

section \<open>Writing\<close>

text \<open>Where a processor is in \<^verbatim>\<open>with_saved_off\<close>: outside, waiting for the lock, writing the rest of its line, or
  about to restore its interrupt enable bit, whose saved value it carries.\<close>

datatype log_pc = Outside | Locking bool | Writing bool string | Restoring bool

record log_cpu =
  lc_pc :: log_pc
  lc_sie :: bool
  lc_lines :: "string list"

text \<open>The history of the lines begun and the lines asked for, by processor, are kept for the statements only.\<close>

record log_world =
  lw_console :: string
  lw_mutex :: "nat option"
  lw_cpu :: "nat \<Rightarrow> log_cpu"
  lw_begun :: "(nat \<times> string) list"
  lw_asked :: "nat \<Rightarrow> string list"

inductive log_work :: "log_world \<Rightarrow> log_world \<Rightarrow> bool" where
  log_off: "lw_cpu x i = \<lparr>lc_pc = Outside, lc_sie = s, lc_lines = l # ls\<rparr> \<Longrightarrow>
     log_work x (x\<lparr>lw_cpu := (lw_cpu x)(i := \<lparr>lc_pc = Locking s, lc_sie = False, lc_lines = l # ls\<rparr>)\<rparr>)"
| log_lock: "lw_cpu x i = \<lparr>lc_pc = Locking s, lc_sie = b, lc_lines = l # ls\<rparr> \<Longrightarrow> lw_mutex x = None \<Longrightarrow>
     log_work x (x\<lparr>lw_mutex := Some i, lw_begun := lw_begun x @ [(i, l)], lw_cpu := (lw_cpu x)(i := \<lparr>lc_pc = Writing s l, lc_sie = b, lc_lines = ls\<rparr>)\<rparr>)"
| log_putc: "lw_cpu x i = \<lparr>lc_pc = Writing s (c # cs), lc_sie = b, lc_lines = ls\<rparr> \<Longrightarrow>
     log_work x (x\<lparr>lw_console := lw_console x @ [c], lw_cpu := (lw_cpu x)(i := \<lparr>lc_pc = Writing s cs, lc_sie = b, lc_lines = ls\<rparr>)\<rparr>)"
| log_unlock: "lw_cpu x i = \<lparr>lc_pc = Writing s [], lc_sie = b, lc_lines = ls\<rparr> \<Longrightarrow>
     log_work x (x\<lparr>lw_mutex := None, lw_cpu := (lw_cpu x)(i := \<lparr>lc_pc = Restoring s, lc_sie = b, lc_lines = ls\<rparr>)\<rparr>)"
| log_restore: "lw_cpu x i = \<lparr>lc_pc = Restoring s, lc_sie = b, lc_lines = ls\<rparr> \<Longrightarrow>
     log_work x (x\<lparr>lw_cpu := (lw_cpu x)(i := \<lparr>lc_pc = Outside, lc_sie = (if s then True else b), lc_lines = ls\<rparr>)\<rparr>)"

text \<open>A new record is logged by the running code once the last one is finished, or by an interrupt handler while
  interrupts are on; its lines then come first.\<close>

inductive log_step :: "log_world \<Rightarrow> log_world \<Rightarrow> bool" where
  log_call: "lw_cpu x i = \<lparr>lc_pc = Outside, lc_sie = b, lc_lines = ls\<rparr> \<Longrightarrow> b \<or> ls = [] \<Longrightarrow>
     new = log_lines colorful max_level cpu_time i level (rt :: nat Runtime) args \<Longrightarrow>
     log_step x (x\<lparr>lw_asked := (lw_asked x)(i := lw_asked x i @ new), lw_cpu := (lw_cpu x)(i := \<lparr>lc_pc = Outside, lc_sie = b, lc_lines = new @ ls\<rparr>)\<rparr>)"
| log_go: "log_work x y \<Longrightarrow> log_step x y"

inductive_cases log_workE: "log_work x y"

definition log_begin :: "(nat \<Rightarrow> bool) \<Rightarrow> log_world" where
  "log_begin sie = \<lparr>lw_console = [], lw_mutex = None, lw_cpu = (\<lambda>i. \<lparr>lc_pc = Outside, lc_sie = sie i, lc_lines = []\<rparr>), lw_begun = [], lw_asked = (\<lambda>_. [])\<rparr>"

section \<open>Lines\<close>

lemma dec_no_newline: "CHR 0x0A \<notin> set (dec n)"
proof (induction n rule: dec.induct)
  case (1 n)
  have d: "CHR 0x0A \<noteq> digit k" if "k < 10" for k
  proof -
    have "of_char (digit k) = (48 + k) mod 256" by (simp add: digit_def of_char_of)
    then have "(of_char (digit k) :: nat) \<noteq> of_char (CHR 0x0A)" using that by simp
    then show ?thesis by metis
  qed
  have "CHR 0x0A \<noteq> digit (n mod 10)" using d [of "n mod 10"] by simp
  then show ?case using 1 d [of n] by (subst dec.simps) simp
qed

lemma pads_no_newline:
  "c \<noteq> CHR 0x0A \<Longrightarrow> CHR 0x0A \<notin> set s \<Longrightarrow> CHR 0x0A \<notin> set (pad_left c w s)" "CHR 0x0A \<notin> set s \<Longrightarrow> CHR 0x0A \<notin> set (pad_center w s)"
  by (auto simp: pad_left_def pad_center_def Let_def)

lemma count_newlines_0: "CHR 0x0A \<notin> set s \<Longrightarrow> count_list s (CHR 0x0A) = 0"
  by (simp add: count_list_0_iff)

lemma split_lines_nonempty: "split_lines s \<noteq> []"
  by (induction s) (auto split: list.splits)

lemma split_lines_spec: "length (split_lines s) = Suc (count_list s (CHR 0x0A)) \<and> (\<forall>l\<in>set (split_lines s). CHR 0x0A \<notin> set l)"
proof (induction s)
  case (Cons c cs)
  obtain l ls where "split_lines cs = l # ls" using split_lines_nonempty [of cs] by (cases "split_lines cs") auto
  then show ?case using Cons by auto
qed simp

lemma current_lookups_total:
  "fst (executor_with_current f rt) \<noteq> Panicked" "fst (inspector_with_current g rt) \<noteq> Panicked"
  by (auto simp: executor_with_current_def inspector_with_current_def with_inspector_def is_with_executor_def
      split: RuntimeStatus.splits InspectorStatus.splits option.splits prod.splits)

lemma state_no_newline: "CHR 0x0A \<notin> set (analyse_kernel_state rt)"
  using dec_no_newline by (auto simp: analyse_kernel_state_def split: sum.splits)

lemma color_newlines: "count_list (with_color b c d s) (CHR 0x0A) = count_list s (CHR 0x0A)"
  using count_newlines_0 [OF dec_no_newline] by (simp add: with_color_def)

lemma log_time_newlines: "count_list (log_time t) (CHR 0x0A) = 0"
  using count_newlines_0 [OF pads_no_newline(1) [OF _ dec_no_newline]] by (simp add: log_time_def Let_def)

lemma level_newlines: "CHR 0x0A \<notin> set (level_str level)"
  by (cases level) simp_all

lemma log_line_newlines:
  assumes "CHR 0x0A \<notin> set args"
  shows "count_list (log_line b t i level (analyse_kernel_state rt) args) (CHR 0x0A) = 1"
  using count_newlines_0 [OF dec_no_newline] count_newlines_0 [OF pads_no_newline(1) [OF _ level_newlines]]
    count_newlines_0 [OF pads_no_newline(2) [OF state_no_newline]] count_newlines_0 [OF assms]
  by (simp add: log_line_def color_newlines log_time_newlines)

text \<open>A record of \<open>n\<close> lines is written as \<open>n\<close> lines.\<close>

lemma log_lines_newlines:
  "log_enabled m level \<Longrightarrow> count_list (concat (log_lines b m t i level rt args)) (CHR 0x0A) = Suc (count_list args (CHR 0x0A))"
proof -
  have "count_list (concat (map (log_line b t i level (analyse_kernel_state rt)) ls)) (CHR 0x0A) = length ls" if "\<forall>l\<in>set ls. CHR 0x0A \<notin> set l" for ls
    using that by (induction ls) (simp_all add: log_line_newlines)
  then show "log_enabled m level \<Longrightarrow> count_list (concat (log_lines b m t i level rt args)) (CHR 0x0A) = Suc (count_list args (CHR 0x0A))"
    using split_lines_spec [of args] by (simp add: log_lines_def)
qed

section \<open>Whole lines\<close>

definition writing :: "log_world \<Rightarrow> nat \<Rightarrow> bool" where
  "writing x i \<longleftrightarrow> (\<exists>s r. lc_pc (lw_cpu x i) = Writing s r)"

definition begun_by :: "nat \<Rightarrow> (nat \<times> string) list \<Rightarrow> string list" where
  "begun_by i h = map snd (filter (\<lambda>e. fst e = i) h)"

text \<open>The console holds whole lines, but for the line of the processor that has the lock.\<close>

definition console_ok :: "log_world \<Rightarrow> bool" where
  "console_ok x \<longleftrightarrow> (case lw_mutex x of
     None \<Rightarrow> (\<forall>i. \<not> writing x i) \<and> lw_console x = concat (map snd (lw_begun x))
   | Some i \<Rightarrow> (\<forall>j. writing x j \<longrightarrow> j = i) \<and>
       (\<exists>s r w h. lc_pc (lw_cpu x i) = Writing s r \<and> lw_begun x = h @ [(i, w @ r)] \<and> lw_console x = concat (map snd h) @ w))"

definition cpu_ok :: "log_world \<Rightarrow> nat \<Rightarrow> bool" where
  "cpu_ok x i \<longleftrightarrow> (lc_pc (lw_cpu x i) \<noteq> Outside \<longrightarrow> \<not> lc_sie (lw_cpu x i)) \<and> (\<forall>s. lc_pc (lw_cpu x i) = Locking s \<longrightarrow> lc_lines (lw_cpu x i) \<noteq> []) \<and>
     mset (lw_asked x i) = mset (begun_by i (lw_begun x)) + mset (lc_lines (lw_cpu x i))"

definition log_inv :: "log_world \<Rightarrow> bool" where
  "log_inv x \<longleftrightarrow> console_ok x \<and> (\<forall>i. cpu_ok x i)"

lemma begun_by_snoc: "begun_by i (h @ [(j, l)]) = begun_by i h @ (if j = i then [l] else [])"
  by (simp add: begun_by_def)

lemma cpu_ok_work: "log_work x y \<Longrightarrow> cpu_ok x j \<Longrightarrow> cpu_ok y j"
  by (induction rule: log_work.induct) (auto simp: cpu_ok_def begun_by_snoc)

lemma writing_holds: "console_ok x \<Longrightarrow> writing x i \<Longrightarrow> lw_mutex x = Some i"
  by (cases "lw_mutex x") (auto simp: console_ok_def)

lemma console_ok_work:
  assumes "log_work x y" "console_ok x"
  shows "console_ok y"
  using assms
proof (induction rule: log_work.induct)
  case (log_off x i s l ls)
  then show ?case by (auto simp: console_ok_def writing_def split: option.splits)
next
  case (log_lock x i s b l ls)
  then show ?case by (auto simp: console_ok_def writing_def)
next
  case (log_putc x i s c cs b ls)
  then have "writing x i" by (simp add: writing_def)
  then have m: "lw_mutex x = Some i" by (rule writing_holds [OF log_putc.prems])
  then obtain w h where h: "lw_begun x = h @ [(i, w @ c # cs)]" "lw_console x = concat (map snd h) @ w" "\<forall>j. writing x j \<longrightarrow> j = i"
    using log_putc by (auto simp: console_ok_def)
  have "lw_begun x = h @ [(i, (w @ [c]) @ cs)]" "lw_console x @ [c] = concat (map snd h) @ (w @ [c])" using h by simp_all
  then show ?case using m h(3) by (auto simp: console_ok_def writing_def)
next
  case (log_unlock x i s b ls)
  then have "writing x i" by (simp add: writing_def)
  then have "lw_mutex x = Some i" by (rule writing_holds [OF log_unlock.prems])
  then show ?case using log_unlock by (auto simp: console_ok_def writing_def)
next
  case (log_restore x i s b ls)
  then show ?case by (auto simp: console_ok_def writing_def split: option.splits)
qed

lemma log_inv_step: "log_step x y \<Longrightarrow> log_inv x \<Longrightarrow> log_inv y"
proof (induction rule: log_step.induct)
  case (log_call x i b ls new colorful max_level cpu_time level rt args)
  have "console_ok (x\<lparr>lw_asked := (lw_asked x)(i := lw_asked x i @ new), lw_cpu := (lw_cpu x)(i := \<lparr>lc_pc = Outside, lc_sie = b, lc_lines = new @ ls\<rparr>)\<rparr>)"
    using log_call.hyps(1) log_call.prems by (auto simp: log_inv_def console_ok_def writing_def split: option.splits)
  moreover have "cpu_ok (x\<lparr>lw_asked := (lw_asked x)(i := lw_asked x i @ new), lw_cpu := (lw_cpu x)(i := \<lparr>lc_pc = Outside, lc_sie = b, lc_lines = new @ ls\<rparr>)\<rparr>) j" for j
    using log_call.hyps(1) log_call.prems by (cases "j = i") (auto simp: log_inv_def cpu_ok_def dest: spec [of _ j])
  ultimately show ?case by (simp add: log_inv_def)
next
  case (log_go x y)
  then show ?case by (auto simp: log_inv_def intro: cpu_ok_work console_ok_work)
qed

lemma log_inv_begin: "log_inv (log_begin sie)"
  by (simp add: log_inv_def console_ok_def cpu_ok_def writing_def log_begin_def begun_by_def)

lemma log_inv_reachable: "log_step\<^sup>*\<^sup>* (log_begin sie) x \<Longrightarrow> log_inv x"
  by (induction rule: rtranclp_induct) (rule log_inv_begin, rule log_inv_step)

lemma log_progress:
  assumes "log_inv x" "lc_pc (lw_cpu x i) \<noteq> Outside \<or> lc_lines (lw_cpu x i) \<noteq> []"
  shows "\<exists>y. log_work x y"
proof (cases "lw_mutex x")
  case (Some k)
  then obtain s r where "lc_pc (lw_cpu x k) = Writing s r" using assms(1) by (auto simp: log_inv_def console_ok_def)
  then have "lw_cpu x k = \<lparr>lc_pc = Writing s r, lc_sie = lc_sie (lw_cpu x k), lc_lines = lc_lines (lw_cpu x k)\<rparr>" by simp
  then show ?thesis by (cases r) (metis log_unlock, metis log_putc)
next
  case None
  obtain p b ls where c: "lw_cpu x i = \<lparr>lc_pc = p, lc_sie = b, lc_lines = ls\<rparr>" by (cases "lw_cpu x i")
  have w: "\<not> writing x i" using assms(1) None by (simp add: log_inv_def console_ok_def)
  show ?thesis
  proof (cases p)
    case Outside
    then obtain l ls' where "ls = l # ls'" using assms(2) c by (cases ls) auto
    then show ?thesis using c Outside log_off by metis
  next
    case (Locking s)
    have "cpu_ok x i" using assms(1) by (simp add: log_inv_def)
    then obtain l ls' where "ls = l # ls'" using c Locking by (cases ls) (auto simp: cpu_ok_def)
    then show ?thesis using c Locking None log_lock by metis
  next
    case (Writing s r)
    then show ?thesis using w c by (auto simp: writing_def)
  next
    case (Restoring s)
    then show ?thesis using c log_restore by metis
  qed
qed

section \<open>Properties\<close>

text \<open>C36. The log of all processors is a sequence of whole lines: however they interleave, and with interrupt handlers
  logging as well, at every moment the console shows complete lines followed by the beginning of the line of the one
  processor that holds the lock; that processor cannot be interrupted; every line asked for is written or still to
  be written, once; and while any processor has something left to do, one of them can go on.\<close>

theorem log_lines_whole:
  assumes "log_step\<^sup>*\<^sup>* (log_begin sie) x"
  shows "\<exists>h w. lw_console x = concat (map snd h) @ w \<and>
    (lw_mutex x = None \<longrightarrow> w = [] \<and> lw_begun x = h) \<and>
    (\<forall>i. lw_mutex x = Some i \<longrightarrow> \<not> lc_sie (lw_cpu x i) \<and> (\<exists>r. lw_begun x = h @ [(i, w @ r)])) \<and>
    (\<forall>i. mset (lw_asked x i) = mset (begun_by i (lw_begun x)) + mset (lc_lines (lw_cpu x i))) \<and>
    ((\<exists>i. lc_pc (lw_cpu x i) \<noteq> Outside \<or> lc_lines (lw_cpu x i) \<noteq> []) \<longrightarrow> (\<exists>y. log_work x y))"
proof -
  have inv: "log_inv x" by (rule log_inv_reachable [OF assms])
  have a: "mset (lw_asked x i) = mset (begun_by i (lw_begun x)) + mset (lc_lines (lw_cpu x i))" for i
    using inv by (simp add: log_inv_def cpu_ok_def)
  have p: "(\<exists>i. lc_pc (lw_cpu x i) \<noteq> Outside \<or> lc_lines (lw_cpu x i) \<noteq> []) \<longrightarrow> (\<exists>y. log_work x y)" using log_progress [OF inv] by blast
  show ?thesis
  proof (cases "lw_mutex x")
    case None
    then have "lw_console x = concat (map snd (lw_begun x))" using inv by (simp add: log_inv_def console_ok_def)
    then show ?thesis using None a p by (intro exI [of _ "lw_begun x"] exI [of _ "[]"]) simp
  next
    case (Some i)
    then obtain s r w h where h: "lc_pc (lw_cpu x i) = Writing s r" "lw_begun x = h @ [(i, w @ r)]" "lw_console x = concat (map snd h) @ w"
      using inv by (auto simp: log_inv_def console_ok_def)
    have "cpu_ok x i" using inv by (simp add: log_inv_def)
    then have "\<not> lc_sie (lw_cpu x i)" using h(1) by (simp add: cpu_ok_def)
    then show ?thesis using Some a p h(2,3) by (intro exI [of _ h] exI [of _ w]) auto
  qed
qed

theorem log_lines_whole_witness:
  "\<exists>x h w. log_step\<^sup>*\<^sup>* (log_begin (\<lambda>i. True)) x \<and> lw_mutex x = Some 2 \<and> lw_console x = concat (map snd h) @ w \<and>
     (\<exists>r. lw_begun x = h @ [(2, w @ r)])"
proof -
  let ?new = "log_lines False 3 0 2 Level_Info (rt_new :: nat Runtime) ''hi''"
  let ?c = "\<lambda>p b ls. (\<lambda>i. \<lparr>lc_pc = Outside, lc_sie = True, lc_lines = []\<rparr>)(2 := \<lparr>lc_pc = p, lc_sie = b, lc_lines = ls\<rparr>)"
  obtain l where new: "?new = [l]" by (simp add: log_lines_def log_enabled_def)
  let ?x1 = "(log_begin (\<lambda>i. True))\<lparr>lw_asked := (\<lambda>_. [])(2 := [l]), lw_cpu := ?c Outside True [l]\<rparr>"
  let ?x2 = "?x1\<lparr>lw_cpu := ?c (Locking True) False [l]\<rparr>"
  let ?x3 = "?x2\<lparr>lw_mutex := Some 2, lw_begun := [(2, l)], lw_cpu := ?c (Writing True l) False []\<rparr>"
  have s1: "log_step (log_begin (\<lambda>i. True)) ?x1"
    using log_call [of "log_begin (\<lambda>i. True)" 2 True "[]" ?new False 3 0 Level_Info rt_new "''hi''"] by (simp add: log_begin_def new)
  have s2: "log_step ?x1 ?x2" using log_go [OF log_off [of ?x1 2 True l "[]"]] by (simp add: log_begin_def)
  have s3: "log_step ?x2 ?x3" using log_go [OF log_lock [of ?x2 2 True False l "[]"]] by (simp add: log_begin_def)
  have path: "log_step\<^sup>*\<^sup>* a d" if "log_step a b" "log_step b c" "log_step c d" for a b c d
    using that by (meson r_into_rtranclp rtranclp.rtrancl_into_rtrancl)
  note r = path [OF s1 s2 s3]
  obtain x where x: "log_step\<^sup>*\<^sup>* (log_begin (\<lambda>i. True)) x" "lw_mutex x = Some 2" using r by (intro that [of ?x3]) simp_all
  from log_lines_whole [OF x(1)] x(2) obtain h w where "lw_console x = concat (map snd h) @ w" "\<exists>r. lw_begun x = h @ [(2, w @ r)]" by blast
  then show ?thesis using x by blast
qed

end
