(* ===== verification/Net_Locks.thy ===== *)
theory Net_Locks
  imports Jrinx_Prelude
begin

text \<open>
  The locks of the network code, \<^verbatim>\<open>kern/modules/driver/src/smoltcp_impl\<close> and \<^verbatim>\<open>net/virtio_net.rs\<close>: spin locks
  that cannot be taken twice. Each operation is given by the locks it takes and releases, in order, with the numbers of
  rounds that depend on data as arguments; processors run lists of operations, and an interrupt handler may run its
  own on top of what its processor is doing. The state behind the locks is the subject of \<^verbatim>\<open>Tcp_World\<close> and \<^verbatim>\<open>Net_Buf\<close>.
\<close>

section \<open>Locks of the operations\<close>

text \<open>The counter of ephemeral ports, the entry of a port in the listen table, the device, the interface and the
  socket set of the stack, and the network card.\<close>

datatype net_lock = L_Curr | L_Entry u16 | L_Dev | L_Iface | L_Sockets | L_Nic

datatype lock_act = Acq net_lock | Rel net_lock

definition locked :: "net_lock \<Rightarrow> lock_act list \<Rightarrow> lock_act list" where
  "locked l body = Acq l # body @ [Rel l]"

text \<open>What a poll of the interface meets: accesses to the card, and first packets of connections to a port.\<close>

datatype poll_event = Card_Access | First_Packet u16

fun poll_event_locks :: "poll_event \<Rightarrow> lock_act list" where
  "poll_event_locks Card_Access = locked L_Nic []"
| "poll_event_locks (First_Packet port) = locked (L_Entry port) []"

definition iface_poll_locks :: "poll_event list \<Rightarrow> lock_act list" where
  "iface_poll_locks evs = locked L_Dev (locked L_Iface (locked L_Sockets (concat (map poll_event_locks evs))))"

definition with_socket_locks :: "lock_act list \<Rightarrow> lock_act list" where
  "with_socket_locks body = locked L_Sockets body"

definition can_listen_locks :: "u16 \<Rightarrow> lock_act list" where
  "can_listen_locks port = locked (L_Entry port) []"

definition listen_locks :: "u16 \<Rightarrow> lock_act list" where
  "listen_locks port = locked (L_Entry port) []"

text \<open>Dropping an entry removes the sockets of its queue; accepting looks at the sockets of the queue one by one.\<close>

definition unlisten_locks :: "u16 \<Rightarrow> nat \<Rightarrow> lock_act list" where
  "unlisten_locks port queued = locked (L_Entry port) (concat (replicate queued (locked L_Sockets [])))"

definition can_accept_locks :: "u16 \<Rightarrow> nat \<Rightarrow> lock_act list" where
  "can_accept_locks port looked_at = locked (L_Entry port) (concat (replicate looked_at (with_socket_locks [])))"

definition accept_locks :: "u16 \<Rightarrow> nat \<Rightarrow> lock_act list" where
  "accept_locks port looked_at = locked (L_Entry port) (concat (replicate looked_at (with_socket_locks [])))"

definition ephemeral_locks :: "u16 list \<Rightarrow> lock_act list" where
  "ephemeral_locks tried = locked L_Curr (concat (map can_listen_locks tried))"

definition connect_locks :: "bool \<Rightarrow> u16 list option \<Rightarrow> lock_act list" where
  "connect_locks fresh tried = (if fresh then locked L_Sockets [] else []) @
     (case tried of None \<Rightarrow> [] | Some ports \<Rightarrow> ephemeral_locks ports) @ with_socket_locks (locked L_Iface [])"

definition handle_irq_locks :: "poll_event list \<Rightarrow> lock_act list" where
  "handle_irq_locks evs = iface_poll_locks evs @ locked L_Nic []"

datatype net_op = Op_Poll "poll_event list" | Op_Socket | Op_Can_Listen u16 | Op_Listen u16 | Op_Unlisten u16 nat
  | Op_Can_Accept u16 nat | Op_Accept u16 nat | Op_Ephemeral "u16 list" | Op_Connect bool "u16 list option"

fun op_locks :: "net_op \<Rightarrow> lock_act list" where
  "op_locks (Op_Poll evs) = iface_poll_locks evs"
| "op_locks Op_Socket = with_socket_locks []"
| "op_locks (Op_Can_Listen port) = can_listen_locks port"
| "op_locks (Op_Listen port) = listen_locks port"
| "op_locks (Op_Unlisten port n) = unlisten_locks port n"
| "op_locks (Op_Can_Accept port n) = can_accept_locks port n"
| "op_locks (Op_Accept port n) = accept_locks port n"
| "op_locks (Op_Ephemeral tried) = ephemeral_locks tried"
| "op_locks (Op_Connect fresh tried) = connect_locks fresh tried"

definition ops_locks :: "net_op list \<Rightarrow> lock_act list" where
  "ops_locks ops = concat (map op_locks ops)"

section \<open>Processors and locks\<close>

type_synonym lock_state = "(net_lock \<Rightarrow> nat option) \<times> (nat \<Rightarrow> lock_act list)"

inductive lock_step :: "lock_state \<Rightarrow> lock_state \<Rightarrow> bool" where
  acquire: "todo i = Acq l # p \<Longrightarrow> owner l = None \<Longrightarrow> lock_step (owner, todo) (owner(l := Some i), todo(i := p))"
| release: "todo i = Rel l # p \<Longrightarrow> owner l = Some i \<Longrightarrow> lock_step (owner, todo) (owner(l := None), todo(i := p))"

text \<open>With interrupts of the card.\<close>

inductive irq_step :: "lock_state \<Rightarrow> lock_state \<Rightarrow> bool" where
  run: "lock_step x y \<Longrightarrow> irq_step x y"
| interrupt: "irq_step (owner, todo) (owner, todo(i := handle_irq_locks evs @ todo i))"

definition lock_begin :: "(nat \<Rightarrow> net_op list) \<Rightarrow> lock_state" where
  "lock_begin ops = (\<lambda>l. None, \<lambda>i. ops_locks (ops i))"

text \<open>Every processor is finished.\<close>

definition lock_finished :: "lock_state \<Rightarrow> bool" where
  "lock_finished x \<longleftrightarrow> (\<forall>i. snd x i = [])"

section \<open>Locks taken in order\<close>

fun in_order :: "(net_lock \<Rightarrow> nat) \<Rightarrow> net_lock set \<Rightarrow> lock_act list \<Rightarrow> bool" where
  "in_order rank H [] \<longleftrightarrow> H = {}"
| "in_order rank H (Acq l # p) \<longleftrightarrow> (\<forall>h\<in>H. rank h < rank l) \<and> in_order rank (insert l H) p"
| "in_order rank H (Rel l # p) \<longleftrightarrow> l \<in> H \<and> in_order rank (H - {l}) p"

definition lock_inv :: "(net_lock \<Rightarrow> nat) \<Rightarrow> lock_state \<Rightarrow> bool" where
  "lock_inv rank x \<longleftrightarrow> (\<forall>i. in_order rank {l. fst x l = Some i} (snd x i))"

lemma lock_inv_step:
  assumes "lock_step x y" "lock_inv rank x"
  shows "lock_inv rank y"
  using assms
proof (induction rule: lock_step.induct)
  case (acquire todo i l p owner)
  have "{k. (owner(l := Some i)) k = Some j} = (if j = i then insert l {k. owner k = Some i} else {k. owner k = Some j})" for j
    using acquire.hyps(2) by auto
  moreover have "in_order rank (insert l {k. owner k = Some i}) p"
    using acquire.prems acquire.hyps(1) by (auto simp: lock_inv_def dest: spec [of _ i])
  ultimately show ?case using acquire.prems by (auto simp: lock_inv_def)
next
  case (release todo i l p owner)
  have "{k. (owner(l := None)) k = Some j} = (if j = i then {k. owner k = Some i} - {l} else {k. owner k = Some j})" for j
    using release.hyps(2) by auto
  moreover have "in_order rank ({k. owner k = Some i} - {l}) p"
    using release.prems release.hyps(1) by (auto simp: lock_inv_def dest: spec [of _ i])
  ultimately show ?case using release.prems by (auto simp: lock_inv_def)
qed

text \<open>A processor that cannot go on waits for a lock that another holds.\<close>

lemma blocked_waits:
  assumes "lock_inv rank (owner, todo)" "\<not> (\<exists>y. lock_step (owner, todo) y)" "todo i \<noteq> []"
  shows "\<exists>l p j. todo i = Acq l # p \<and> owner l = Some j"
proof (cases "todo i")
  case (Cons a p)
  show ?thesis
  proof (cases a)
    case (Acq l)
    then show ?thesis using assms(2) Cons lock_step.acquire [of todo i l p owner] by (cases "owner l") auto
  next
    case (Rel l)
    have "in_order rank {k. owner k = Some i} (todo i)" using assms(1) by (simp add: lock_inv_def)
    then have "owner l = Some i" using Cons Rel by simp
    then show ?thesis using assms(2) Cons Rel lock_step.release [of todo i l p owner] by auto
  qed
qed (use assms(3) in simp)

lemma in_order_progress:
  assumes inv: "lock_inv rank (owner, todo)" and stuck: "\<not> (\<exists>y. lock_step (owner, todo) y)" and b: "\<And>l. rank l < n"
  shows "todo i = []"
proof (rule ccontr)
  assume "todo i \<noteq> []"
  then obtain l p j where start: "todo i = Acq l # p" "owner l = Some j" using blocked_waits [OF inv stuck] by blast
  have next_: "\<exists>i' l' p' j'. todo i' = Acq l' # p' \<and> owner l' = Some j' \<and> rank k < rank l'" if "owner k = Some j" for k j
  proof -
    have o: "in_order rank {k. owner k = Some j} (todo j)" using inv by (simp add: lock_inv_def)
    then have "todo j \<noteq> []" using that by auto
    then obtain l' p' j' where l': "todo j = Acq l' # p'" "owner l' = Some j'" using blocked_waits [OF inv stuck] by blast
    then have "rank k < rank l'" using o that by simp
    then show ?thesis using l' by blast
  qed
  have "\<exists>l' j'. owner l' = Some j' \<and> m \<le> rank l'" for m
  proof (induction m)
    case 0
    then show ?case using start by blast
  next
    case (Suc m)
    then obtain k j' where "owner k = Some j'" "m \<le> rank k" by blast
    then show ?case using next_ [of k j'] by (meson Suc_leI le_less_trans)
  qed
  then show False using b by (meson leD)
qed

lemma in_order_append:
  "in_order rank H p \<Longrightarrow> in_order rank {} q \<Longrightarrow> in_order rank H (p @ q)"
  by (induction rank H p rule: in_order.induct) auto

text \<open>A bracket is in order when everything inside ranks above it; \<open>above n\<close> says that of a list of actions.\<close>

definition balanced :: "(net_lock \<Rightarrow> nat) \<Rightarrow> nat \<Rightarrow> lock_act list \<Rightarrow> bool" where
  "balanced rank n p \<longleftrightarrow> (\<forall>H q. (\<forall>h\<in>H. rank h < n) \<longrightarrow> in_order rank H q \<longrightarrow> in_order rank H (p @ q))"

lemma balanced_Nil: "balanced rank n []"
  by (simp add: balanced_def)

lemma balanced_append: "balanced rank n p \<Longrightarrow> balanced rank n q \<Longrightarrow> balanced rank n (p @ q)"
  by (simp add: balanced_def)

lemma balanced_concat: "\<forall>p\<in>set ps. balanced rank n p \<Longrightarrow> balanced rank n (concat ps)"
  by (induction ps) (simp_all add: balanced_Nil balanced_append)

lemma balanced_locked:
  assumes "balanced rank m p" "rank l < m" "n \<le> rank l"
  shows "balanced rank n (locked l p)"
  unfolding balanced_def
proof (intro allI impI)
  fix H q
  assume h: "\<forall>h\<in>H. rank h < n" and q: "in_order rank H q"
  have "l \<notin> H" using h assms(3) by auto
  then have "in_order rank (insert l H) (Rel l # q)" using q by simp
  moreover have "\<forall>h\<in>insert l H. rank h < m" using h assms(2,3) by auto
  ultimately have "in_order rank (insert l H) (p @ Rel l # q)" using assms(1) unfolding balanced_def by blast
  then show "in_order rank H (locked l p @ q)" using h assms(3) by (auto simp: locked_def)
qed

lemma balanced_in_order: "balanced rank 0 p \<Longrightarrow> in_order rank {} p"
  unfolding balanced_def by (metis append.right_neutral empty_iff in_order.simps(1))

lemma balanced_mono: "balanced rank n p \<Longrightarrow> m \<le> n \<Longrightarrow> balanced rank m p"
  unfolding balanced_def by (meson order_less_le_trans)

section \<open>The order of the network locks\<close>

fun net_rank :: "net_lock \<Rightarrow> nat" where
  "net_rank L_Curr = 0"
| "net_rank (L_Entry port) = 1"
| "net_rank L_Dev = 2"
| "net_rank L_Iface = 3"
| "net_rank L_Sockets = 4"
| "net_rank L_Nic = 5"

lemma net_rank_bound: "net_rank l < 6"
  by (cases l) simp_all

text \<open>The operations that keep to it: all but connecting and polls that meet a first packet.\<close>

fun keeps_order :: "net_op \<Rightarrow> bool" where
  "keeps_order (Op_Poll evs) \<longleftrightarrow> (\<forall>e\<in>set evs. e = Card_Access)"
| "keeps_order (Op_Connect fresh tried) \<longleftrightarrow> False"
| "keeps_order _ \<longleftrightarrow> True"

lemma balanced_entry: "balanced net_rank 2 p \<Longrightarrow> balanced net_rank 1 (locked (L_Entry port) p)"
  by (rule balanced_locked [of _ 2]) simp_all

lemma balanced_sockets: "balanced net_rank 5 p \<Longrightarrow> balanced net_rank 2 (locked L_Sockets p)"
  by (rule balanced_locked [of _ 5]) simp_all

lemma balanced_queue: "balanced net_rank 0 (locked (L_Entry port) (concat (replicate n (locked L_Sockets []))))"
proof -
  have "balanced net_rank 2 (concat (replicate n (locked L_Sockets [])))"
    by (rule balanced_concat) (simp add: balanced_sockets balanced_Nil)
  then show ?thesis using balanced_mono [OF balanced_entry] by blast
qed

lemma balanced_op:
  assumes "keeps_order op"
  shows "balanced net_rank 0 (op_locks op)"
proof (cases op)
  case (Op_Poll evs)
  have "balanced net_rank 5 (concat (map poll_event_locks evs))"
  proof (rule balanced_concat, rule ballI)
    fix p
    assume "p \<in> set (map poll_event_locks evs)"
    then have "p = locked L_Nic []" using assms Op_Poll by auto
    then show "balanced net_rank 5 p" using balanced_locked [OF balanced_Nil, of net_rank L_Nic 6 5] by simp
  qed
  then have "balanced net_rank 4 (locked L_Sockets (concat (map poll_event_locks evs)))" by (rule balanced_locked) simp_all
  then have "balanced net_rank 3 (locked L_Iface (locked L_Sockets (concat (map poll_event_locks evs))))" by (rule balanced_locked) simp_all
  then have "balanced net_rank 2 (iface_poll_locks evs)" unfolding iface_poll_locks_def by (rule balanced_locked) simp_all
  then show ?thesis using Op_Poll balanced_mono by simp
next
  case (Op_Ephemeral tried)
  have "balanced net_rank 1 (concat (map can_listen_locks tried))"
    by (rule balanced_concat) (use balanced_entry [OF balanced_Nil] in \<open>auto simp: can_listen_locks_def\<close>)
  then have "balanced net_rank 0 (ephemeral_locks tried)" unfolding ephemeral_locks_def by (rule balanced_locked) simp_all
  then show ?thesis using Op_Ephemeral by simp
next
  case Op_Socket
  have "balanced net_rank 0 (locked L_Sockets [])" by (rule balanced_mono [OF balanced_sockets [OF balanced_Nil]]) simp
  then show ?thesis using Op_Socket by (simp add: with_socket_locks_def)
qed (use assms balanced_queue [of _ 0] balanced_queue in \<open>simp_all add: can_listen_locks_def listen_locks_def unlisten_locks_def can_accept_locks_def accept_locks_def with_socket_locks_def\<close>)

lemma lock_inv_begin:
  assumes "\<forall>i. \<forall>op\<in>set (ops i). keeps_order op"
  shows "lock_inv net_rank (lock_begin ops)"
proof -
  have "balanced net_rank 0 (ops_locks (ops i))" for i
    unfolding ops_locks_def by (rule balanced_concat) (use assms balanced_op in auto)
  then show ?thesis using balanced_in_order by (simp add: lock_inv_def lock_begin_def)
qed

lemma lock_inv_reachable: "lock_step\<^sup>*\<^sup>* x y \<Longrightarrow> lock_inv rank x \<Longrightarrow> lock_inv rank y"
  by (induction rule: rtranclp_induct) (auto intro: lock_inv_step)

text \<open>Running the next action of the given processors, one after the other.\<close>

fun run_sched :: "nat list \<Rightarrow> lock_state \<Rightarrow> lock_state option" where
  "run_sched [] x = Some x"
| "run_sched (i # is) (owner, todo) = (case todo i of
     [] \<Rightarrow> None
   | Acq l # p \<Rightarrow> if owner l = None then run_sched is (owner(l := Some i), todo(i := p)) else None
   | Rel l # p \<Rightarrow> if owner l = Some i then run_sched is (owner(l := None), todo(i := p)) else None)"

lemma run_sched_steps: "run_sched is x = Some y \<Longrightarrow> lock_step\<^sup>*\<^sup>* x y"
proof (induction "is" x rule: run_sched.induct)
  case (2 i "is" owner todo)
  show ?case
  proof (cases "todo i")
    case (Cons a p)
    then show ?thesis
    proof (cases a)
      case (Acq l)
      then have "owner l = None" "lock_step\<^sup>*\<^sup>* (owner(l := Some i), todo(i := p)) y" using 2 Cons by (auto split: if_splits)
      then show ?thesis using lock_step.acquire [of todo i l p owner] Cons Acq by (meson converse_rtranclp_into_rtranclp)
    next
      case (Rel l)
      then have "owner l = Some i" "lock_step\<^sup>*\<^sup>* (owner(l := None), todo(i := p)) y" using 2 Cons by (auto split: if_splits)
      then show ?thesis using lock_step.release [of todo i l p owner] Cons Rel by (meson converse_rtranclp_into_rtranclp)
    qed
  qed (use 2 in simp)
qed simp

lemma run_sched_irq: "run_sched is x = Some y \<Longrightarrow> irq_step\<^sup>*\<^sup>* x y"
  using mono_rtranclp [of lock_step irq_step x y] run_sched_steps [of "is" x y] irq_step.run by blast

lemma stuckI:
  assumes "\<And>i. (case todo i of [] \<Rightarrow> True | Acq l # p \<Rightarrow> owner l \<noteq> None | Rel l # p \<Rightarrow> owner l \<noteq> Some i)"
  shows "\<not> (\<exists>y. lock_step (owner, todo) y)"
proof
  assume "\<exists>y. lock_step (owner, todo) y"
  then obtain y where "lock_step (owner, todo) y" by blast
  then show False
  proof cases
    case (acquire i l p)
    then show ?thesis using assms [of i] by simp
  next
    case (release i l p)
    then show ?thesis using assms [of i] by simp
  qed
qed

lemma two_blocked:
  assumes "\<exists>p. todo 0 = Acq k # p" "\<exists>q. todo 1 = Acq l # q" "\<forall>i. i \<noteq> 0 \<and> i \<noteq> 1 \<longrightarrow> todo i = []" "owner k \<noteq> None" "owner l \<noteq> None"
  shows "case todo i of [] \<Rightarrow> True | Acq l # p \<Rightarrow> owner l \<noteq> None | Rel l # p \<Rightarrow> owner l \<noteq> Some i"
proof -
  consider "i = 0" | "i = 1" | "i \<noteq> 0 \<and> i \<noteq> 1" by blast
  then show ?thesis using assms by cases auto
qed

lemmas lock_programs = lock_begin_def ops_locks_def locked_def accept_locks_def iface_poll_locks_def connect_locks_def with_socket_locks_def
  handle_irq_locks_def

section \<open>Properties\<close>

text \<open>C34. The network operations that keep to the order of the locks (port counter, listen table entry, device, interface,
  socket set, card) never block each other for good: whatever such operations the processors run and however they
  interleave, some processor can go on until all are finished.\<close>

theorem net_locks_no_deadlock:
  assumes "\<forall>i. \<forall>op\<in>set (ops i). keeps_order op" "lock_step\<^sup>*\<^sup>* (lock_begin ops) x" "\<not> (\<exists>y. lock_step x y)"
  shows "lock_finished x"
proof -
  obtain owner todo where x: "x = (owner, todo)" by (cases x)
  have "lock_inv net_rank x" by (rule lock_inv_reachable [OF assms(2) lock_inv_begin [OF assms(1)]])
  then have "todo i = []" for i using in_order_progress [of net_rank owner todo 6 i] assms(3) net_rank_bound x by simp
  then show ?thesis using x by (simp add: lock_finished_def)
qed

definition demo_ops :: "nat \<Rightarrow> net_op list" where
  "demo_ops i = (if i = 0 then [Op_Accept 80 1] else if i = 1 then [Op_Poll [Card_Access]] else [])"

text \<open>C35. The two operations outside that order do block: a poll that meets the first packet of a connection to a port
  against an accept on that port, a connect against a poll, and even a single processor whose socket operation is
  interrupted by the card, can reach a state where no processor can go on and work is left.\<close>

theorem net_locks_deadlock:
  "(\<exists>x. lock_step\<^sup>*\<^sup>* (lock_begin ((\<lambda>i. [])(0 := [Op_Accept port (Suc n)], 1 := [Op_Poll [First_Packet port]]))) x \<and>
      \<not> (\<exists>y. lock_step x y) \<and> \<not> lock_finished x) \<and>
   (\<exists>x. lock_step\<^sup>*\<^sup>* (lock_begin ((\<lambda>i. [])(0 := [Op_Connect False None], 1 := [Op_Poll evs]))) x \<and>
      \<not> (\<exists>y. lock_step x y) \<and> \<not> lock_finished x) \<and>
   (\<exists>x. irq_step\<^sup>*\<^sup>* (lock_begin ((\<lambda>i. [])(0 := [Op_Socket]))) x \<and> \<not> (\<exists>y. lock_step x y) \<and> \<not> lock_finished x)"
proof (intro conjI)
  let ?b = "lock_begin ((\<lambda>i. [])(0 := [Op_Accept port (Suc n)], 1 := [Op_Poll [First_Packet port]]))"
  obtain owner todo where r: "run_sched [0, 1, 1, 1] ?b = Some (owner, todo)" by (simp add: lock_programs)
  then have "owner = (\<lambda>l. None)(L_Entry port := Some 0, L_Dev := Some 1, L_Iface := Some 1, L_Sockets := Some 1)"
    "\<exists>p. todo 0 = Acq L_Sockets # p" "\<exists>q. todo 1 = Acq (L_Entry port) # q" "\<forall>i. i \<noteq> 0 \<and> i \<noteq> 1 \<longrightarrow> todo i = []"
    by (auto simp: lock_programs)
  then show "\<exists>x. lock_step\<^sup>*\<^sup>* ?b x \<and> \<not> (\<exists>y. lock_step x y) \<and> \<not> lock_finished x"
    using run_sched_steps [OF r] by (intro exI [of _ "(owner, todo)"] conjI stuckI two_blocked) (auto simp: lock_finished_def)
next
  let ?b = "lock_begin ((\<lambda>i. [])(0 := [Op_Connect False None], 1 := [Op_Poll evs]))"
  obtain owner todo where r: "run_sched [0, 1, 1] ?b = Some (owner, todo)" by (simp add: lock_programs)
  then have "owner = (\<lambda>l. None)(L_Sockets := Some 0, L_Dev := Some 1, L_Iface := Some 1)"
    "\<exists>p. todo 0 = Acq L_Iface # p" "\<exists>q. todo 1 = Acq L_Sockets # q" "\<forall>i. i \<noteq> 0 \<and> i \<noteq> 1 \<longrightarrow> todo i = []"
    by (auto simp: lock_programs)
  then show "\<exists>x. lock_step\<^sup>*\<^sup>* ?b x \<and> \<not> (\<exists>y. lock_step x y) \<and> \<not> lock_finished x"
    using run_sched_steps [OF r] by (intro exI [of _ "(owner, todo)"] conjI stuckI two_blocked) (auto simp: lock_finished_def)
next
  let ?b = "lock_begin ((\<lambda>i. [])(0 := [Op_Socket]))"
  let ?o = "(\<lambda>l. None)(L_Sockets := Some (0 :: nat))" and ?t = "(\<lambda>i :: nat. [])(0 := [Rel L_Sockets])"
  have "run_sched [0] ?b = Some (?o, ?t)" by (simp add: lock_programs fun_eq_iff)
  then have r1: "irq_step\<^sup>*\<^sup>* ?b (?o, ?t)" by (rule run_sched_irq)
  obtain owner todo where r: "run_sched [0, 0] (?o, ?t(0 := handle_irq_locks [] @ ?t 0)) = Some (owner, todo)" by (simp add: lock_programs)
  then have "irq_step\<^sup>*\<^sup>* (?o, ?t(0 := handle_irq_locks [] @ ?t 0)) (owner, todo)" by (rule run_sched_irq)
  then have r2: "irq_step\<^sup>*\<^sup>* ?b (owner, todo)"
    using r1 irq_step.interrupt [of ?o ?t 0 "[]"] by (meson rtranclp.rtrancl_into_rtrancl rtranclp_trans)
  have o: "owner = (\<lambda>l. None)(L_Sockets := Some 0, L_Dev := Some 0, L_Iface := Some 0)" and t: "\<exists>p. todo 0 = Acq L_Sockets # p" "\<And>i. i \<noteq> 0 \<Longrightarrow> todo i = []"
    using r by (auto simp: lock_programs)
  have "case todo i of [] \<Rightarrow> True | Acq l # p \<Rightarrow> owner l \<noteq> None | Rel l # p \<Rightarrow> owner l \<noteq> Some i" for i
    using o t by (cases "i = 0") auto
  from stuckI [OF this] have "\<not> (\<exists>y. lock_step (owner, todo) y)" .
  moreover have "\<not> lock_finished (owner, todo)" using t(1) by (auto simp: lock_finished_def intro!: exI [of _ 0])
  ultimately show "\<exists>x. irq_step\<^sup>*\<^sup>* ?b x \<and> \<not> (\<exists>y. lock_step x y) \<and> \<not> lock_finished x" using r2 by blast
qed

theorem net_locks_no_deadlock_witness:
  "\<exists>x. lock_step\<^sup>*\<^sup>* (lock_begin demo_ops) x \<and> snd x 0 = [] \<and> lock_finished x"
proof -
  obtain x where r: "run_sched [1, 1, 1, 1, 1, 1, 1, 1, 0, 0, 0, 0] (lock_begin demo_ops) = Some x"
    by (simp add: lock_programs demo_ops_def)
  then have x: "snd x = (\<lambda>i. [])" by (auto simp: lock_programs demo_ops_def fun_eq_iff)
  have "\<not> (\<exists>y. lock_step (fst x, snd x) y)" by (rule stuckI) (simp add: x)
  then have s: "\<not> (\<exists>y. lock_step x y)" by simp
  have k: "\<forall>i. \<forall>op\<in>set (demo_ops i). keeps_order op" by (simp add: demo_ops_def)
  show ?thesis using net_locks_no_deadlock [OF k run_sched_steps [OF r] s] run_sched_steps [OF r] x by (intro exI [of _ x]) simp
qed

end
