(* ===== verification/Entry.thy ===== *)
theory Entry
  imports Boot Boot_Paging Riscv_Asm
begin

text \<open>
  The entry of the kernel, \<^verbatim>\<open>kern/src/arch/riscv/mod.rs\<close>: the code each processor starts with, before translation is on,
  until it calls \<^verbatim>\<open>primary_init\<close> or \<^verbatim>\<open>secondary_init\<close> of \<^verbatim>\<open>kern/src/main.rs\<close>; and the memory interface for
  virtio devices, \<^verbatim>\<open>kern/modules/driver/src/bus/virtio.rs\<close>, which relies on the same mapping.
\<close>

unbundle bit_operations_syntax

section \<open>Entry of a processor\<close>

record hart =
  hr_cpu :: cpu
  hr_satp :: "satp_mode \<times> usize \<times> usize"

text \<open>\<^verbatim>\<open>_start\<close>: the firmware passes the processor in \<^verbatim>\<open>a0\<close> and the device tree in \<^verbatim>\<open>a1\<close>; \<^verbatim>\<open>call\<close> leaves its return
  address in \<^verbatim>\<open>ra\<close>.\<close>

definition start_code :: "usize \<Rightarrow> usize \<Rightarrow> cpu \<Rightarrow> cpu" where
  "start_code INIT_STACK_TOP ret c = set_gpr Ra ret (run [Mv Tp A0, Mv A0 A1] (set_gpr Sp INIT_STACK_TOP c))"

definition sencondary_start_code :: "usize \<Rightarrow> cpu \<Rightarrow> cpu" where
  "sencondary_start_code ret c = set_gpr Ra ret (run [Mv Tp A0, Mv Sp A1] c)"

definition set_csr_bits :: "csr \<Rightarrow> usize \<Rightarrow> hart \<Rightarrow> hart" where
  "set_csr_bits k bits h = h\<lparr>hr_cpu := (hr_cpu h)\<lparr>csrs := (csrs (hr_cpu h))(k := csrs (hr_cpu h) k OR bits)\<rparr>\<rparr>"

text \<open>\<^verbatim>\<open>sstatus::set_sum\<close> and the three enable bits of \<^verbatim>\<open>sie\<close>.\<close>

definition SSTATUS_SUM :: usize where "SSTATUS_SUM = 2 ^ 18"
definition SIE_SEXT :: usize where "SIE_SEXT = 2 ^ 9"
definition SIE_STIMER :: usize where "SIE_STIMER = 2 ^ 5"
definition SIE_SSOFT :: usize where "SIE_SSOFT = 2 ^ 1"

definition enable_sources :: "hart \<Rightarrow> hart" where
  "enable_sources h = set_csr_bits Sie SIE_SSOFT (set_csr_bits Sie SIE_STIMER (set_csr_bits Sie SIE_SEXT (set_csr_bits Sstatus SSTATUS_SUM h)))"

definition start_paging :: "usize \<Rightarrow> hart \<Rightarrow> hart" where
  "start_paging table_addr h =
     (let b = boot_start table_addr \<lparr>bc_satp = hr_satp h, bc_sp = gpr (hr_cpu h) Sp, bc_ra = gpr (hr_cpu h) Ra\<rparr>
      in h\<lparr>hr_cpu := set_gpr Ra (bc_ra b) (set_gpr Sp (bc_sp b) (hr_cpu h)), hr_satp := bc_satp b\<rparr>)"

text \<open>\<^verbatim>\<open>write_bytes\<close>.\<close>

definition write_bytes :: "usize \<Rightarrow> u8 \<Rightarrow> usize \<Rightarrow> (usize \<Rightarrow> u8) \<Rightarrow> usize \<Rightarrow> u8" where
  "write_bytes dst v n m a = (if unat (a - dst) < unat n then v else m a)"

text \<open>The uninitialised data of the image, between \<^verbatim>\<open>_sbss\<close> and \<^verbatim>\<open>_ebss\<close>; the static boot table lies there and is kept apart.\<close>

record image =
  im_bytes :: "usize \<Rightarrow> u8"
  im_boot_table :: "usize list"

definition clear_bss :: "usize \<Rightarrow> usize \<Rightarrow> image \<Rightarrow> image" where
  "clear_bss sbss ebss m = m\<lparr>im_bytes := write_bytes sbss 0 (ebss - sbss) (im_bytes m), im_boot_table := BOOT_PAGE_TABLE\<rparr>"

definition arch_primary_init :: "usize \<Rightarrow> usize \<Rightarrow> usize \<Rightarrow> usize \<Rightarrow> image \<Rightarrow> hart \<Rightarrow> (VirtAddr \<times> image \<times> hart) res" where
  "arch_primary_init sbss ebss table_addr fdtaddr m h =
     (let m = clear_bss sbss ebss m
      in bind_res (boot_init (im_boot_table m)) (\<lambda>t.
           Ok (to_virt (pa_new fdtaddr), m\<lparr>im_boot_table := t\<rparr>, enable_sources (start_paging table_addr h))))"

definition arch_secondary_init :: "usize \<Rightarrow> hart \<Rightarrow> hart" where
  "arch_secondary_init table_addr h = enable_sources (start_paging table_addr h)"

section \<open>Memory for virtio devices\<close>

text \<open>The allocator returns the address of zeroed pages, or none; a request of more than \<^verbatim>\<open>isize::MAX\<close> bytes has no layout.\<close>

definition dma_layout :: "usize \<Rightarrow> usize res" where
  "dma_layout pages = (let sz = pages * PAGE_SIZE in if unat sz \<le> 2 ^ 63 - 2 ^ 12 then Ok sz else Panicked)"

definition dma_alloc :: "(usize \<Rightarrow> 'a \<Rightarrow> (usize \<times> 'a) option) \<Rightarrow> usize \<Rightarrow> 'a \<Rightarrow> (usize \<times> usize) res \<times> 'a" where
  "dma_alloc alloc_zeroed pages a = (case dma_layout pages of
     Inl e \<Rightarrow> (Inl e, a)
   | Inr sz \<Rightarrow> (case alloc_zeroed sz a of
       None \<Rightarrow> (Panicked, a)
     | Some (addr, a') \<Rightarrow> (Ok (addr - REMAP_MEM_OFFSET, addr), a')))"

definition dma_dealloc :: "(usize \<Rightarrow> usize \<Rightarrow> 'a \<Rightarrow> 'a) \<Rightarrow> usize \<Rightarrow> usize \<Rightarrow> 'a \<Rightarrow> nat res \<times> 'a" where
  "dma_dealloc dealloc vaddr pages a = (case dma_layout pages of
     Inl e \<Rightarrow> (Inl e, a)
   | Inr sz \<Rightarrow> (Ok 0, dealloc vaddr sz a))"

definition mmio_phys_to_virt :: "usize \<Rightarrow> usize res" where
  "mmio_phys_to_virt paddr = (let v = paddr + REMAP_MEM_OFFSET in if v = 0 then Panicked else Ok v)"

definition dma_share :: "usize \<Rightarrow> usize" where
  "dma_share vaddr = vaddr - REMAP_MEM_OFFSET"

section \<open>What the entry establishes\<close>

lemma enable_sources_csrs:
  "csrs (hr_cpu (enable_sources h)) Sie = csrs (hr_cpu h) Sie OR SIE_SEXT OR SIE_STIMER OR SIE_SSOFT"
  "csrs (hr_cpu (enable_sources h)) Sstatus = csrs (hr_cpu h) Sstatus OR SSTATUS_SUM"
  "gpr (hr_cpu (enable_sources h)) = gpr (hr_cpu h)" "hr_satp (enable_sources h) = hr_satp h"
  by (simp_all add: enable_sources_def set_csr_bits_def or.assoc)

lemma start_paging_regs:
  "gpr (hr_cpu (start_paging t h)) Sp = gpr (hr_cpu h) Sp + REMAP_MEM_OFFSET"
  "gpr (hr_cpu (start_paging t h)) Tp = gpr (hr_cpu h) Tp"
  "csrs (hr_cpu (start_paging t h)) = csrs (hr_cpu h)" "hr_satp (start_paging t h) = (Sv39, 0, t div PAGE_SIZE)"
  by (simp_all add: start_paging_def boot_start_def jump_high_addr_def set_gpr_def Let_def)

lemma start_code_regs:
  "gpr (start_code stk ret c) Sp = stk" "gpr (start_code stk ret c) Tp = gpr c A0" "gpr (start_code stk ret c) A0 = gpr c A1"
  "csrs (start_code stk ret c) = csrs c"
  by (simp_all add: start_code_def set_gpr_def)

lemma sencondary_start_regs:
  "gpr (sencondary_start_code ret c) Sp = gpr c A1" "gpr (sencondary_start_code ret c) Tp = gpr c A0" "csrs (sencondary_start_code ret c) = csrs c"
  by (simp_all add: sencondary_start_code_def set_gpr_def)

lemma write_bytes_range:
  assumes "unat dst \<le> unat fin"
  shows "write_bytes dst v (fin - dst) m a = (if unat dst \<le> unat a \<and> unat a < unat fin then v else m a)"
proof -
  have n: "unat (fin - dst) = unat fin - unat dst" using assms by (simp add: unat_sub word_le_nat_alt)
  show ?thesis
  proof (cases "unat dst \<le> unat a")
    case True
    then have "unat (a - dst) = unat a - unat dst" by (simp add: unat_sub word_le_nat_alt)
    then show ?thesis using True assms by (auto simp: write_bytes_def n)
  next
    case False
    have "unat (a - dst) = (unat a + 2 ^ 64 - unat dst) mod 2 ^ 64" using False by (simp add: unat_sub_if' word_less_nat_alt not_le)
    also have "\<dots> = unat a + 2 ^ 64 - unat dst" using False by (intro mod_less) simp
    finally have "unat (a - dst) = unat a + 2 ^ 64 - unat dst" .
    moreover have "unat fin < 2 ^ 64" using unsigned_less [of fin] by simp
    ultimately have "\<not> unat (a - dst) < unat fin - unat dst" using assms False by linarith
    then show ?thesis using False by (simp add: write_bytes_def n)
  qed
qed

lemma primary_init_ok:
  assumes "unat sbss \<le> unat ebss"
  shows "\<exists>t. boot_init BOOT_PAGE_TABLE = Ok t \<and> arch_primary_init sbss ebss table_addr fdtaddr m h =
    Ok (to_virt (PhysAddr fdtaddr), \<lparr>im_bytes = (\<lambda>a. if unat sbss \<le> unat a \<and> unat a < unat ebss then 0 else im_bytes m a), im_boot_table = t\<rparr>,
        enable_sources (start_paging table_addr h))"
proof -
  obtain t where "boot_init BOOT_PAGE_TABLE = Ok t" using boot_init_table by blast
  then show ?thesis using write_bytes_range [OF assms, of 0 "im_bytes m"]
    by (intro exI [of _ t]) (simp add: arch_primary_init_def clear_bss_def Let_def pa_new_def fun_eq_iff)
qed

section \<open>Properties\<close>

text \<open>What the kernel proper finds when it is entered. The first processor gets the device tree at its mapped address, its
  own number in \<^verbatim>\<open>tp\<close>, the mapped top of the initial stack in \<^verbatim>\<open>sp\<close>, all uninitialised data and nothing else cleared, and
  translation on through a table that maps physical memory; a processor started with the physical address of its
  stack top runs on the stack itself. On both, the timer, software and external interrupts are enabled in
  addition to those that were.\<close>

theorem entry_establishes:
  assumes "unat sbss \<le> unat ebss"
  shows "\<exists>fdt m' h'. arch_primary_init sbss ebss table_addr (gpr (start_code stk ret c) A0) m \<lparr>hr_cpu = start_code stk ret c, hr_satp = s\<rparr> = Ok (fdt, m', h') \<and>
      fdt = to_virt (PhysAddr (gpr c A1)) \<and> gpr (hr_cpu h') Tp = gpr c A0 \<and> gpr (hr_cpu h') Sp = va_as_usize (to_virt (PhysAddr stk)) \<and>
      hr_satp h' = (Sv39, 0, table_addr div PAGE_SIZE) \<and>
      (\<forall>a. im_bytes m' a = (if unat sbss \<le> unat a \<and> unat a < unat ebss then 0 else im_bytes m a)) \<and>
      (\<forall>p. PHYS_MEM_BASE \<le> p \<and> p < PHYS_MEM_LIMIT \<longrightarrow> root_translate (im_boot_table m') (to_virt (PhysAddr p)) = Some (PhysAddr p)) \<and>
      csrs (hr_cpu h') Sie = csrs c Sie OR SIE_SEXT OR SIE_STIMER OR SIE_SSOFT \<and>
      (\<forall>stack_top g. gpr g A1 = pa_as_usize (to_phys stack_top) \<longrightarrow>
         gpr (hr_cpu (arch_secondary_init table_addr \<lparr>hr_cpu = sencondary_start_code ret g, hr_satp = s\<rparr>)) Sp = va_as_usize stack_top \<and>
         gpr (hr_cpu (arch_secondary_init table_addr \<lparr>hr_cpu = sencondary_start_code ret g, hr_satp = s\<rparr>)) Tp = gpr g A0 \<and>
         hr_satp (arch_secondary_init table_addr \<lparr>hr_cpu = sencondary_start_code ret g, hr_satp = s\<rparr>) = hr_satp h')"
proof -
  let ?h = "\<lparr>hr_cpu = start_code stk ret c, hr_satp = s\<rparr>"
  obtain t where t: "boot_init BOOT_PAGE_TABLE = Ok t" "arch_primary_init sbss ebss table_addr (gpr (start_code stk ret c) A0) m ?h =
    Ok (to_virt (PhysAddr (gpr c A1)), \<lparr>im_bytes = (\<lambda>a. if unat sbss \<le> unat a \<and> unat a < unat ebss then 0 else im_bytes m a), im_boot_table = t\<rparr>,
        enable_sources (start_paging table_addr ?h))"
    using primary_init_ok [OF assms, of table_addr "gpr (start_code stk ret c) A0" m ?h] by (auto simp: start_code_regs)
  have map: "PHYS_MEM_BASE \<le> p \<and> p < PHYS_MEM_LIMIT \<Longrightarrow> root_translate t (to_virt (PhysAddr p)) = Some (PhysAddr p)" for p
    using boot_table_high [OF t(1)] by blast
  show ?thesis unfolding t(2) using map
    by (simp add: arch_secondary_init_def enable_sources_csrs start_paging_regs start_code_regs sencondary_start_regs to_virt_def to_phys_def)
qed

theorem entry_establishes_witness:
  "\<exists>fdt m' h'. arch_primary_init 0x80300000 0x80310000 0x80301000 (gpr (start_code 0x80320000 0x80200040 (\<lparr>gpr = (\<lambda>r. 0)(A0 := 3, A1 := 0x82200000), fpr = (\<lambda>r. 0), csrs = (\<lambda>k. 0), mem = (\<lambda>a. 0)\<rparr>)) A0)
     \<lparr>im_bytes = (\<lambda>a. 0xAA), im_boot_table = []\<rparr>
     \<lparr>hr_cpu = start_code 0x80320000 0x80200040 (\<lparr>gpr = (\<lambda>r. 0)(A0 := 3, A1 := 0x82200000), fpr = (\<lambda>r. 0), csrs = (\<lambda>k. 0), mem = (\<lambda>a. 0)\<rparr>), hr_satp = (Bare, 0, 0)\<rparr> = Ok (fdt, m', h') \<and>
     fdt = VirtAddr 0xFFFFFFC082200000 \<and> gpr (hr_cpu h') Tp = 3 \<and> im_bytes m' 0x80300010 = 0 \<and> im_bytes m' 0x80310000 = 0xAA \<and>
     root_translate (im_boot_table m') (to_virt (PhysAddr 0x80200000)) = Some (PhysAddr 0x80200000)"
proof -
  let ?c = "\<lparr>gpr = (\<lambda>r. 0)(A0 := 3, A1 := 0x82200000), fpr = (\<lambda>r. 0), csrs = (\<lambda>k. 0), mem = (\<lambda>a. 0)\<rparr>"
  have u: "unat (0x80300000 :: usize) \<le> unat (0x80310000 :: usize)" by simp
  have p: "PHYS_MEM_BASE \<le> 0x80200000 \<and> 0x80200000 < PHYS_MEM_LIMIT" by (simp add: addr_config_defs)
  from entry_establishes [OF u, where table_addr = "0x80301000" and stk = "0x80320000" and ret = "0x80200040" and c = ?c and
    m = "\<lparr>im_bytes = (\<lambda>a. 0xAA), im_boot_table = []\<rparr>" and s = "(Bare, 0, 0)"]
  obtain fdt m' h' where r: "arch_primary_init 0x80300000 0x80310000 0x80301000 (gpr (start_code 0x80320000 0x80200040 ?c) A0)
     \<lparr>im_bytes = (\<lambda>a. 0xAA), im_boot_table = []\<rparr> \<lparr>hr_cpu = start_code 0x80320000 0x80200040 ?c, hr_satp = (Bare, 0, 0)\<rparr> = Ok (fdt, m', h')"
    "fdt = to_virt (PhysAddr (gpr ?c A1))" "gpr (hr_cpu h') Tp = gpr ?c A0"
    "\<forall>a. im_bytes m' a = (if unat (0x80300000 :: usize) \<le> unat a \<and> unat a < unat (0x80310000 :: usize) then 0 else 0xAA)"
    "\<forall>p. PHYS_MEM_BASE \<le> p \<and> p < PHYS_MEM_LIMIT \<longrightarrow> root_translate (im_boot_table m') (to_virt (PhysAddr p)) = Some (PhysAddr p)"
    unfolding image.simps by blast
  have "fdt = VirtAddr 0xFFFFFFC082200000" "gpr (hr_cpu h') Tp = 3" using r(2,3) by (simp_all add: to_virt_def REMAP_MEM_OFFSET_def)
  moreover have "im_bytes m' 0x80300010 = 0" "im_bytes m' 0x80310000 = 0xAA" using r(4) by simp_all
  ultimately show ?thesis using r(1,5) p by blast
qed

text \<open>Pages for a device: the two addresses returned, and the address a buffer is shared at, are the two sides of the boot
  mapping, byte by byte, when the allocator returns memory of the remapped window.\<close>

theorem dma_addresses_agree:
  assumes t: "boot_init BOOT_PAGE_TABLE = Ok t" and a: "alloc_zeroed (pages * PAGE_SIZE) s = Some (va_as_usize (to_virt (PhysAddr p)), s')"
    and sz: "unat (pages * PAGE_SIZE) \<le> 2 ^ 63 - 2 ^ 12" and w: "unat PHYS_MEM_BASE \<le> unat p" "unat p + unat (pages * PAGE_SIZE) \<le> unat PHYS_MEM_LIMIT"
  shows "\<exists>v. dma_alloc alloc_zeroed pages s = (Ok (p, v), s') \<and>
    (\<forall>k. unat k < unat (pages * PAGE_SIZE) \<longrightarrow> root_translate t (VirtAddr (v + k)) = Some (PhysAddr (p + k)) \<and> dma_share (v + k) = p + k)"
proof -
  let ?v = "va_as_usize (to_virt (PhysAddr p))"
  have "dma_alloc alloc_zeroed pages s = (Ok (p, ?v), s')" using a sz by (simp add: dma_alloc_def dma_layout_def Let_def to_virt_def)
  moreover have "root_translate t (VirtAddr (?v + k)) = Some (PhysAddr (p + k)) \<and> dma_share (?v + k) = p + k" if "unat k < unat (pages * PAGE_SIZE)" for k
  proof -
    have "unat PHYS_MEM_LIMIT < 2 ^ 64" using unsigned_less [of PHYS_MEM_LIMIT] by simp
    then have "unat p + unat k < 18446744073709551616" using that w by simp
    then have u: "unat (p + k) = unat p + unat k" by (rule unat_add_usize)
    have "PHYS_MEM_BASE \<le> p + k" "p + k < PHYS_MEM_LIMIT" using w that by (simp_all add: word_le_nat_alt word_less_nat_alt u)
    from boot_table_high [OF t this] have "root_translate t (to_virt (PhysAddr (p + k))) = Some (PhysAddr (p + k))" .
    moreover have "to_virt (PhysAddr (p + k)) = VirtAddr (?v + k)" by (simp add: to_virt_def add.commute add.left_commute)
    moreover have "dma_share (?v + k) = p + k" by (simp add: dma_share_def to_virt_def)
    ultimately show ?thesis by (simp only:)
  qed
  ultimately show ?thesis by blast
qed

end
