(* ===== verification/Kernel_Init.thy ===== *)
theory Kernel_Init
  imports Probe Percpu Boot Bootargs Stack_Alloc
begin

text \<open>
  The start of the kernel, \<^verbatim>\<open>kern/src/main.rs\<close>: \<^verbatim>\<open>primary_init\<close> and \<^verbatim>\<open>secondary_init\<close> as the sequence of the
  initialisations of the other components, up to the call of \<^verbatim>\<open>Runtime::start\<close>. Between them the kernel switches from the boot page table
  to a page table of its own; the first part shows that no kernel address changes its meaning then.
\<close>

unbundle bit_operations_syntax

section \<open>Translation by the processor\<close>

text \<open>The Sv39 walk: an entry with one of the permissions R, W, X is a leaf, of 1 GiB, 2 MiB or 4 KiB by its level. The
  tables are read through the linear remapping.\<close>

abbreviation leafw :: "usize \<Rightarrow> bool" where
  "leafw w \<equiv> w AND (PP_R OR PP_W OR PP_X) \<noteq> 0"

definition sv39_leaf :: "usize \<Rightarrow> nat \<Rightarrow> VirtAddr \<Rightarrow> PhysAddr" where
  "sv39_leaf w n a = pa_add (fst (pte_into (pte_from_raw w))) (va_as_usize a AND mask n)"

definition sv39 :: "(usize \<Rightarrow> usize) \<Rightarrow> usize \<Rightarrow> VirtAddr \<Rightarrow> PhysAddr option" where
  "sv39 c root a =
     (let w0 = c (cell root (indexes a ! 0))
      in if \<not> validw w0 then None else if leafw w0 then Some (sv39_leaf w0 30 a)
         else let w1 = c (cell (target w0) (indexes a ! 1))
              in if \<not> validw w1 then None else if leafw w1 then Some (sv39_leaf w1 21 a)
                 else let w2 = c (cell (target w1) (indexes a ! 2))
                      in if validw w2 \<and> leafw w2 then Some (sv39_leaf w2 12 a) else None)"

lemma indexes_less: "k < 3 \<Longrightarrow> indexes a ! k < 512"
  using indexes_bound [of k a] by (simp add: word_less_nat_alt)

lemma hd_indexes0: "hd (indexes a) = indexes a ! 0"
  by (simp add: indexes_def)

lemma boot_table_at_live:
  assumes wf: "boot_wf R r in_use m" and p: "p \<in> paths R" "p \<noteq> []" "boot_table_at r m p = Some t"
  shows "t \<in> in_use (km_heap m)" "4096 dvd unat t" "t \<noteq> r"
proof -
  have tree: "tree_wf R (insert r (in_use (km_heap m))) (boot_view r m) r" using wf by (simp add: boot_wf_def)
  show "4096 dvd unat t" using tree_wfD(1) [OF tree p(1,3)] .
  have "[] \<in> paths R" by (simp add: paths_def)
  then show "t \<noteq> r" using tree_wfD(3) [OF tree p(1,3), of "[]"] p(2) by auto
  then show "t \<in> in_use (km_heap m)" using tree_wfD(2) [OF tree p(1,3)] by simp
qed

lemma pt_new_cells:
  assumes ok: "frame_allocator_ok A in_use" and new: "pt_new A m = (Ok pt, m')"
  shows "\<And>j. 256 \<le> j \<Longrightarrow> j < 512 \<Longrightarrow> km_cells m' (cell (root_va pt) j) = km_boot m ! unat j"
    and "\<And>t j. t \<in> in_use (km_heap m) \<Longrightarrow> 4096 dvd unat t \<Longrightarrow> j < 512 \<Longrightarrow> km_cells m' (cell t j) = km_cells m (cell t j)"
    and "km_boot m' = km_boot m"
proof -
  from frame_alloc_cases [OF ok, of m] new obtain a m1 where
    al: "PhysFrame_alloc A m = (Ok (PhysFrame (to_phys (VirtAddr a))), m1)" "4096 dvd unat a" "a \<notin> in_use (km_heap m)"
      "\<forall>b\<in>in_use (km_heap m). \<forall>i<512. km_cells m1 (cell b i) = km_cells m (cell b i)" "km_boot m1 = km_boot m"
    by (auto simp: pt_new_def)
  have pt: "root_va pt = a" and m': "m' = clone_into a m1"
    using new al(1,2) by (auto simp: pt_new_def Let_def clone_kernel_def as_array_base_def align_page_down_id)
  show "km_cells m' (cell (root_va pt) j) = km_boot m ! unat j" if "256 \<le> j" "j < 512" for j
    using that clone_into_page [OF al(2) that(2), of m1] by (simp add: pt m' al(5) not_less [symmetric])
  show "km_cells m' (cell t j) = km_cells m (cell t j)" if "t \<in> in_use (km_heap m)" "4096 dvd unat t" "j < 512" for t j
    using that clone_into_other [OF al(2) that(2) _ that(3), of m1] al(3,4) by (cases "t = a") (auto simp: m')
  show "km_boot m' = km_boot m" by (simp add: m' clone_into_def al(5))
qed

lemma huge_entry_leaf: "leafw (huge_entry i)"
proof -
  have "bit (huge_entry i) 1"
    by (simp add: huge_entry_def pte_into_usize_def pte_new_def pte_set_bits bit_or_iff bit_perm_stored boot_perm_eq)
  moreover have "bit (PP_R OR PP_W OR PP_X) 1" by (simp add: perm_flag_defs)
  ultimately have "bit (huge_entry i AND (PP_R OR PP_W OR PP_X)) 1" by (simp only: bit_and_iff)
  then show ?thesis by auto
qed

lemma upper_entry:
  assumes "remap_entries t" "256 \<le> k" "k < 508"
  shows "\<not> validw (t ! k) \<or> leafw (t ! k)"
  using assms huge_entry_leaf by (auto simp: remap_entries_def pte_valid_bit pte_from_raw_def)

text \<open>The new table holds the linear remapping.\<close>

lemma kernel_linear:
  assumes ok: "frame_allocator_ok A in_use" and up: "remap_entries (km_boot m)" and new: "pt_new A m = (Ok pt, m')"
    and p: "PHYS_MEM_BASE \<le> p" "p < PHYS_MEM_LIMIT"
  shows "sv39 (km_cells m') (root_va pt) (to_virt (PhysAddr p)) = Some (PhysAddr p)"
proof -
  note s = phys_split [OF p]
  let ?j = "indexes (to_virt (PhysAddr p)) ! 0" and ?i = "(unat p - 2147483648) div 1073741824"
  have j: "unat ?j = 258 + ?i" using s(4) by (simp add: hd_indexes0)
  then have "256 \<le> ?j" "?j < 512" using s(1) by (simp_all add: word_le_nat_alt word_less_nat_alt)
  from pt_new_cells(1) [OF ok new this] have w: "km_cells m' (cell (root_va pt) ?j) = huge_entry ?i"
    using up s(1) by (simp add: remap_entries_def j)
  have "REMAP_HUGE_PAGE_SIZE - 1 = mask 30" by (simp add: addr_config_defs mask_eq_exp_minus_1)
  then show ?thesis
    using huge_entry_into [OF s(1)] huge_entry_leaf [of ?i] s(2,3) unfolding sv39_def Let_def w
    by (simp add: sv39_leaf_def pte_valid_bit pte_is_valid_bit pa_add_def to_virt_def)
qed

lemma switch_keeps:
  assumes ok: "frame_allocator_ok A in_use" and wf: "boot_wf device_roots r in_use m" and up: "remap_entries (km_boot m)"
    and new: "pt_new A m = (Ok pt, m')" and a: "256 \<le> hd (indexes a)"
  shows "sv39 (km_cells m') (root_va pt) a = sv39 (boot_view r m) r a"
proof -
  let ?i = "indexes a" and ?c = "boot_view r m" and ?c' = "km_cells m'"
  have i: "?i ! 0 < 512" "?i ! 1 < 512" "?i ! 2 < 512" by (simp_all add: indexes_less)
  have r: "4096 dvd unat r" using wf by (simp add: boot_wf_def)
  note cells = pt_new_cells [OF ok new]
  have w0: "?c' (cell (root_va pt) (?i ! 0)) = ?c (cell r (?i ! 0))"
    using cells(1) [of "?i ! 0"] a i(1) by (simp add: hd_indexes0 boot_view_root [OF r i(1)])
  have same: "?c' (cell t j) = ?c (cell t j)" if "p \<in> paths device_roots" "p \<noteq> []" "boot_table_at r m p = Some t" "j < 512" for p t j
    using boot_table_at_live [OF wf that(1-3)] cells(2) [of t j] that(4) by (simp add: boot_view_heap [OF r])
  let ?w0 = "?c (cell r (?i ! 0))"
  show ?thesis
  proof (cases "validw ?w0 \<and> \<not> leafw ?w0")
    case False
    then show ?thesis by (auto simp: sv39_def Let_def w0)
  next
    case True
    have "?w0 = km_boot m ! unat (?i ! 0)" by (simp add: boot_view_root [OF r i(1)])
    then have "\<not> unat (?i ! 0) < 508"
      using True upper_entry [OF up, of "unat (?i ! 0)"] a by (auto simp: word_le_nat_alt hd_indexes0)
    then have dev: "?i ! 0 \<in> device_roots"
      using i(1) by (simp add: device_roots_def word_le_nat_alt)
    have p1: "[?i ! 0] \<in> paths device_roots" "[?i ! 0, ?i ! 1] \<in> paths device_roots" using dev i by (simp_all add: paths_def)
    have t1: "boot_table_at r m [?i ! 0] = Some (target ?w0)" using True by simp
    have w1: "?c' (cell (target ?w0) (?i ! 1)) = ?c (cell (target ?w0) (?i ! 1))"
      using same [OF p1(1) _ t1] i(2) by simp
    let ?w1 = "?c (cell (target ?w0) (?i ! 1))"
    have w2: "?c' (cell (target ?w1) (?i ! 2)) = ?c (cell (target ?w1) (?i ! 2))" if "validw ?w1"
      using same [OF p1(2) _ _ ] i(3) True that by simp
    show ?thesis using True w1 w2 unfolding sv39_def Let_def w0 by simp
  qed
qed

section \<open>The sequence of initialisations\<close>

text \<open>
  What the start of the kernel is given: the device tree, as the values its accessors return; the linker's symbols and
  lists; the platform of the drivers; allocation of the per-processor area and of boot stacks; the firmware; and the addresses of the launch code
  and of boxed executors. Page frames come from \<open>pf_frames\<close>, everything else from the heap \<open>dv_heap\<close>.
\<close>

record ('h, 'p, 'u, 'd, 's) boot_env =
  be_cpus :: "cpus_node option"
  be_root :: string
  be_nodes :: "fdt_node list"
  be_bootargs :: "string option"
  be_platform :: "('h, 'p, 'u, 'd) platform"
  be_probers :: "('h, 'p, 'u, 'd) devices DevProber list"
  be_spercpu :: usize
  be_epercpu :: usize
  be_alloc_area :: "usize \<Rightarrow> 'p \<Rightarrow> (usize \<times> 'p) option"
  be_alloc_stack :: "'p \<Rightarrow> (usize \<times> 'p) option"
  be_hsm_available :: bool
  be_hart_start :: "usize \<Rightarrow> usize \<Rightarrow> usize \<Rightarrow> 's \<Rightarrow> 's option"
  be_secondary_entry :: VirtAddr
  be_launch :: VirtAddr
  be_boxed :: "u64 \<Rightarrow> usize"

text \<open>The statics of the kernel; \<open>kn_gp\<close>, \<open>kn_satp\<close> and \<open>kn_runtimes\<close> are one per processor.\<close>

record ('h, 'p, 'u, 'd, 's, 'fut) kernel =
  kn_hal :: hal_state
  kn_percpu :: "'p percpu_state"
  kn_gp :: "usize \<Rightarrow> usize"
  kn_root :: "string option"
  kn_devices :: "('h, 'p, 'u, 'd) devices"
  kn_irq_count :: "usize \<rightharpoonup> 32 word"
  kn_interrupt_count :: "u8 list option"
  kn_rotate_index :: usize
  kn_bootargs :: "string option"
  kn_firmware :: 's
  kn_page_table :: "PageTable option"
  kn_satp :: "usize \<Rightarrow> satp_mode \<times> usize \<times> usize"
  kn_stacks :: StackAllocator
  kn_task_id :: u64
  kn_executor_id :: u64
  kn_inspector_id :: u64
  kn_runtimes :: "usize \<Rightarrow> 'fut Runtime"
  kn_boot_state :: BootState

fun run_inits :: "('k \<Rightarrow> unit res \<times> 'k) list \<Rightarrow> 'k \<Rightarrow> unit res \<times> 'k" where
  "run_inits [] k = (Ok (), k)"
| "run_inits (f # fs) k = (case f k of (Inl e, k') \<Rightarrow> (Inl e, k') | (Inr _, k') \<Rightarrow> run_inits fs k')"

definition init_cpus :: "('h, 'p, 'u, 'd, 's) boot_env \<Rightarrow> ('h, 'p, 'u, 'd, 's, 'fut) kernel \<Rightarrow> unit res \<times> ('h, 'p, 'u, 'd, 's, 'fut) kernel" where
  "init_cpus env k = (case cpus_init (be_cpus env) (kn_hal k) of (r, h) \<Rightarrow> (r, k\<lparr>kn_hal := h\<rparr>))"

definition init_percpu :: "('h, 'p, 'u, 'd, 's) boot_env \<Rightarrow> ('h, 'p, 'u, 'd, 's, 'fut) kernel \<Rightarrow> unit res \<times> ('h, 'p, 'u, 'd, 's, 'fut) kernel" where
  "init_percpu env k =
     (case percpu_init (be_alloc_area env) (be_spercpu env) (be_epercpu env) (nproc (kn_hal k)) ((kn_percpu k)\<lparr>pc_alloc := dv_heap (kn_devices k)\<rparr>) of
        (r, st) \<Rightarrow> (r, k\<lparr>kn_percpu := st, kn_devices := (kn_devices k)\<lparr>dv_heap := pc_alloc st\<rparr>\<rparr>))"

definition init_local_pointer :: "('h, 'p, 'u, 'd, 's) boot_env \<Rightarrow> usize \<Rightarrow> ('h, 'p, 'u, 'd, 's, 'fut) kernel \<Rightarrow> unit res \<times> ('h, 'p, 'u, 'd, 's, 'fut) kernel" where
  "init_local_pointer env me k =
     (case set_local_pointer (be_spercpu env) (be_epercpu env) (kn_percpu k) me of
        Inl e \<Rightarrow> (Inl e, k) | Inr gp \<Rightarrow> (Ok (), k\<lparr>kn_gp := (kn_gp k)(me := gp)\<rparr>))"

definition init_devices :: "('h, 'p, 'u, 'd, 's) boot_env \<Rightarrow> ('h, 'p, 'u, 'd, 's, 'fut) kernel \<Rightarrow> unit res \<times> ('h, 'p, 'u, 'd, 's, 'fut) kernel" where
  "init_devices env k =
     (case probe_all (be_root env) (be_probers env) (be_nodes env) (kn_root k, kn_devices k) of
        (r, root, w) \<Rightarrow> (r, k\<lparr>kn_root := root, kn_devices := w\<rparr>))"

text \<open>\<^verbatim>\<open>init_strategy\<close> works on the controller that the first probed platform controller left its handle for.\<close>

definition init_irqs :: "usize \<Rightarrow> ('h, 'p, 'u, 'd, 's, 'fut) kernel \<Rightarrow> unit res \<times> ('h, 'p, 'u, 'd, 's, 'fut) kernel" where
  "init_irqs me k =
     (case Option.bind (dv_plic_phandle (kn_devices k)) (dv_irq_table (kn_devices k)) of
        None \<Rightarrow> (Panicked, k)
      | Some plic \<Rightarrow>
          (case init_strategy True (kn_root k) me
             \<lparr>iq_plic = plic, iq_regs = dv_regs (kn_devices k), iq_completed = [], IRQ_COUNT = kn_irq_count k,
              INTERRUPT_COUNT = kn_interrupt_count k, ROTATE_INDEX = kn_rotate_index k, iq_devices = ()\<rparr> of
             Inl e \<Rightarrow> (Inl e, k)
           | Inr s \<Rightarrow> (Ok (), k\<lparr>kn_devices := (kn_devices k)\<lparr>dv_regs := iq_regs s\<rparr>, kn_irq_count := IRQ_COUNT s,
               kn_interrupt_count := INTERRUPT_COUNT s, kn_rotate_index := ROTATE_INDEX s\<rparr>)))"

definition init_bootargs :: "('h, 'p, 'u, 'd, 's) boot_env \<Rightarrow> ('h, 'p, 'u, 'd, 's, 'fut) kernel \<Rightarrow> unit res \<times> ('h, 'p, 'u, 'd, 's, 'fut) kernel" where
  "init_bootargs env k =
     (Ok (), case be_bootargs env of None \<Rightarrow> k | Some bootargs \<Rightarrow> k\<lparr>kn_bootargs := bootargs_set bootargs (kn_bootargs k)\<rparr>)"

definition secondary_boot :: "('h, 'p, 'u, 'd, 's) boot_env \<Rightarrow> usize \<Rightarrow> ('h, 'p, 'u, 'd, 's, 'fut) kernel \<Rightarrow> unit res \<times> ('h, 'p, 'u, 'd, 's, 'fut) kernel" where
  "secondary_boot env me k =
     (case cpus_start (be_hsm_available env) (be_alloc_stack env) (be_hart_start env) me (be_secondary_entry env) (be_cpus env)
        (dv_heap (kn_devices k), kn_firmware k) of
        (r, heap, fw) \<Rightarrow> (r, k\<lparr>kn_devices := (kn_devices k)\<lparr>dv_heap := heap\<rparr>, kn_firmware := fw\<rparr>))"

text \<open>\<^verbatim>\<open>KERN_PAGE_TABLE\<close> is made at its first use.\<close>

definition lazy_page_table :: "('h, 'p, 'u, 'd, 's) boot_env \<Rightarrow> ('h, 'p, 'u, 'd, 's, 'fut) kernel \<Rightarrow> PageTable res \<times> ('h, 'p, 'u, 'd, 's, 'fut) kernel" where
  "lazy_page_table env k =
     (case kn_page_table k of
        Some pt \<Rightarrow> (Ok pt, k)
      | None \<Rightarrow> (case KERN_PAGE_TABLE (pf_frames (be_platform env)) (dv_mem (kn_devices k)) of
          (Inl e, m) \<Rightarrow> (Inl e, k\<lparr>kn_devices := (kn_devices k)\<lparr>dv_mem := m\<rparr>\<rparr>)
        | (Inr pt, m) \<Rightarrow> (Ok pt, k\<lparr>kn_devices := (kn_devices k)\<lparr>dv_mem := m\<rparr>, kn_page_table := Some pt\<rparr>)))"

definition init_vmm :: "('h, 'p, 'u, 'd, 's) boot_env \<Rightarrow> usize \<Rightarrow> ('h, 'p, 'u, 'd, 's, 'fut) kernel \<Rightarrow> unit res \<times> ('h, 'p, 'u, 'd, 's, 'fut) kernel" where
  "init_vmm env me k = (case lazy_page_table env k of
     (Inl e, k') \<Rightarrow> (Inl e, k') | (Inr pt, k') \<Rightarrow> (Ok (), k'\<lparr>kn_satp := (kn_satp k')(me := vmm_init pt)\<rparr>))"

definition satp_bits :: "satp_mode \<times> usize \<times> usize \<Rightarrow> usize" where
  "satp_bits s = (case s of (mode, asid, ppn) \<Rightarrow> (case mode of Bare \<Rightarrow> 0 | Sv39 \<Rightarrow> push_bit 60 8) OR push_bit 44 asid OR ppn)"

text \<open>\<^verbatim>\<open>runtime::init\<close>: a task, an executor of its own with a stack from the kernel page table, an inspector, registered at the runtime of
  this processor.\<close>

definition register_root :: "usize \<Rightarrow> 'fut Executor \<Rightarrow> ('h, 'p, 'u, 'd, 's, 'fut) kernel \<Rightarrow> unit res \<times> ('h, 'p, 'u, 'd, 's, 'fut) kernel" where
  "register_root me executor k = (case is_new executor (kn_inspector_id k) of
     Inl e \<Rightarrow> (Inl e, k)
   | Inr (inspector, g) \<Rightarrow> (case rt_register inspector (kn_runtimes k me) of
       (r, rt) \<Rightarrow> (unwrap_res r, k\<lparr>kn_inspector_id := g, kn_runtimes := (kn_runtimes k)(me := rt)\<rparr>)))"

definition init_runtime :: "('h, 'p, 'u, 'd, 's) boot_env \<Rightarrow> usize \<Rightarrow> 'fut \<Rightarrow> ('h, 'p, 'u, 'd, 's, 'fut) kernel \<Rightarrow> unit res \<times> ('h, 'p, 'u, 'd, 's, 'fut) kernel" where
  "init_runtime env me future k = (case Task_new future TaskPriority_default (kn_task_id k) of
     Inl e \<Rightarrow> (Inl e, k)
   | Inr (task, g) \<Rightarrow> (case lazy_page_table env (k\<lparr>kn_task_id := g\<rparr>) of
       (Inl e, k1) \<Rightarrow> (Inl e, k1)
     | (Inr pt, k1) \<Rightarrow>
         (case executor_new (pf_frames (be_platform env)) (be_launch env) (satp_bits (kn_satp k1 me)) (be_boxed env (kn_executor_id k1))
            (kn_executor_id k1) ExecutorPriority_default task (kn_stacks k1, dv_mem (kn_devices k1), pt) of
            (r, sa, m, pt') \<Rightarrow>
              (let k2 = k1\<lparr>kn_stacks := sa, kn_devices := (kn_devices k1)\<lparr>dv_mem := m\<rparr>, kn_page_table := Some pt'\<rparr>
               in case r of Inl e \<Rightarrow> (Inl e, k2) | Inr (executor, g) \<Rightarrow> register_root me executor (k2\<lparr>kn_executor_id := g\<rparr>)))))"

definition report_ready :: "('h, 'p, 'u, 'd, 's, 'fut) kernel \<Rightarrow> unit res \<times> ('h, 'p, 'u, 'd, 's, 'fut) kernel" where
  "report_ready k = (Ok (), k\<lparr>kn_boot_state := boot_set_ready (kn_boot_state k)\<rparr>)"

text \<open>
  The two sequences, up to \<^verbatim>\<open>Runtime::start\<close>. The trap vector, the initial heap and the logger are set up before and have no part in what
  follows. A secondary processor that has not left its loop yet is \<^verbatim>\<open>None\<close>.
\<close>

definition primary_init :: "('h, 'p, 'u, 'd, 's) boot_env \<Rightarrow> usize \<Rightarrow> 'fut \<Rightarrow> ('h, 'p, 'u, 'd, 's, 'fut) kernel \<Rightarrow> unit res \<times> ('h, 'p, 'u, 'd, 's, 'fut) kernel" where
  "primary_init env me primary_task =
     run_inits [init_cpus env, init_percpu env, init_local_pointer env me, init_devices env, init_irqs me, init_bootargs env,
       secondary_boot env me, init_vmm env me, init_runtime env me primary_task, report_ready]"

definition secondary_init :: "('h, 'p, 'u, 'd, 's) boot_env \<Rightarrow> usize \<Rightarrow> 'fut \<Rightarrow> ('h, 'p, 'u, 'd, 's, 'fut) kernel \<Rightarrow> (unit res \<times> ('h, 'p, 'u, 'd, 's, 'fut) kernel) option" where
  "secondary_init env me secondary_task k =
     (if secondary_leaves (kn_boot_state k)
      then Some (run_inits [init_local_pointer env me, init_vmm env me, init_runtime env me secondary_task, report_ready] k)
      else None)"

text \<open>
  An external interrupt on the processor \<open>me\<close>, \<^verbatim>\<open>Intc::handle_irq\<close> as the trap handler calls it: it works on the controller whose handle is in
  \<^verbatim>\<open>PLIC_PHANDLE\<close>, with the counters and the machine's name that the initialisation left. \<open>claim\<close> is what the claim register of a context
  reads, \<open>drv\<close> runs the driver of a device on the state \<open>dw\<close> of the devices, and the interrupts that were completed are returned with their contexts.
\<close>

definition external_interrupt :: "(usize \<Rightarrow> u32) \<Rightarrow> (device, 'w) driver \<Rightarrow> usize \<Rightarrow> ('h, 'p, 'u, 'd, 's, 'fut) kernel \<times> 'w \<Rightarrow>
    nat res \<times> ('h, 'p, 'u, 'd, 's, 'fut) kernel \<times> (usize \<times> usize) list \<times> 'w" where
  "external_interrupt claim drv me kw = (case kw of (k, dw) \<Rightarrow>
     if \<not> dv_global_intc (kn_devices k) then (Panicked, k, [], dw)
     else case Option.bind (dv_plic_phandle (kn_devices k)) (dv_irq_table (kn_devices k)) of
       None \<Rightarrow> (Panicked, k, [], dw)
     | Some plic \<Rightarrow>
         (case intc_handle True (kn_root k) claim drv me
            \<lparr>iq_plic = plic, iq_regs = dv_regs (kn_devices k), iq_completed = [], IRQ_COUNT = kn_irq_count k,
             INTERRUPT_COUNT = kn_interrupt_count k, ROTATE_INDEX = kn_rotate_index k, iq_devices = dw\<rparr> of
            (r, s) \<Rightarrow> (r, k\<lparr>kn_devices := (kn_devices k)\<lparr>dv_regs := iq_regs s\<rparr>, kn_irq_count := IRQ_COUNT s,
              kn_interrupt_count := INTERRUPT_COUNT s\<rparr>, iq_completed s, iq_devices s)))"

fun external_interrupts :: "(device, 'w) driver \<Rightarrow> (usize \<times> (usize \<Rightarrow> u32)) list \<Rightarrow> ('h, 'p, 'u, 'd, 's, 'fut) kernel \<times> 'w \<Rightarrow>
    unit res \<times> ('h, 'p, 'u, 'd, 's, 'fut) kernel \<times> (usize \<times> usize) list \<times> 'w" where
  "external_interrupts drv [] (k, dw) = (Ok (), k, [], dw)"
| "external_interrupts drv ((me, claim) # evs) (k, dw) = (case external_interrupt claim drv me (k, dw) of
     (Inl e, k', done', dw') \<Rightarrow> (Inl e, k', done', dw')
   | (Inr t, k', done', dw') \<Rightarrow> (case external_interrupts drv evs (k', dw') of (r, k'', done'', dw'') \<Rightarrow> (r, k'', done' @ done'', dw'')))"

section \<open>The platform controller\<close>

text \<open>The handle of the first platform controller is set as soon as there is a controller, and names one in the table. Every
  probe function keeps that, whatever its result.\<close>

definition plic_named :: "('h, 'p, 'u, 'd) devices \<Rightarrow> bool" where
  "plic_named w \<longleftrightarrow> (case dv_plic_phandle w of None \<Rightarrow> \<forall>p. dv_irq_table w p = None | Some ph \<Rightarrow> dv_irq_table w ph \<noteq> None)"

lemma plic_named_fields [simp]:
  "plic_named (w\<lparr>dv_mem := m\<rparr>) = plic_named w" "plic_named (w\<lparr>dv_heap := h\<rparr>) = plic_named w" "plic_named (w\<lparr>dv_regs := r\<rparr>) = plic_named w"
  "plic_named (w\<lparr>dv_global_intc := b\<rparr>) = plic_named w" "plic_named (w\<lparr>dv_uarts := u\<rparr>) = plic_named w" "plic_named (w\<lparr>dv_nets := n\<rparr>) = plic_named w"
  "plic_named (w\<lparr>dv_eth0 := e\<rparr>) = plic_named w"
  by (simp_all add: plic_named_def split: option.split)

lemma register_at_named: "plic_named w \<Longrightarrow> plic_named (snd (register_at p i d w))"
  by (auto simp: register_at_def plic_named_def split: option.splits prod.splits)

lemma plic_probe_named: "plic_named w \<Longrightarrow> plic_named (snd (plic_probe pf node w))"
  by (auto simp: plic_probe_def Let_def plic_named_def call_once_def split: sum.splits prod.splits option.splits)

lemma uart_probe_named: "plic_named w \<Longrightarrow> plic_named (snd (uart_probe pf node w))"
  by (auto simp: uart_probe_def Let_def split: sum.splits prod.splits intro!: register_at_named)

lemma virtio_device_named:
  assumes "plic_named w"
  shows "plic_named (snd (virtio_device pf v ty p i w))"
proof (cases ty)
  case VT_Network
  have "plic_named (snd (register_at p i (Dev_Net v) (w\<lparr>dv_nets := (dv_nets w)(v \<mapsto> dev)\<rparr>)))" for dev
    using assms by (intro register_at_named) simp
  then show ?thesis using assms VT_Network
    by (auto simp: virtio_device_def split: sum.split prod.split) (metis snd_conv)+
qed (use assms in \<open>simp add: virtio_device_def\<close>)

lemma virtio_probe_named: "plic_named w \<Longrightarrow> plic_named (snd (virtio_probe pf node w))"
  by (auto simp: virtio_probe_def Let_def split: sum.splits prod.splits option.splits intro!: virtio_device_named)

lemmas probes_named = plic_probe_named uart_probe_named virtio_probe_named

lemma kernel_probers_named: "(i, f) \<in> set (kernel_probers pf) \<Longrightarrow> plic_named w \<Longrightarrow> plic_named (snd (f node w))"
  using probes_named [of w pf node]
  by (auto simp: kernel_probers_def intc_probe_def memory_probe_def split: prod.splits)

lemma probe_nodes_keeps:
  assumes "\<And>node w. node \<in> set ns \<Longrightarrow> P w \<Longrightarrow> P (snd (f node w))"
  shows "P w \<Longrightarrow> P (snd (probe_nodes f ns w))"
  using assms
proof (induction ns arbitrary: w)
  case (Cons node ns)
  obtain r w1 where r: "f node w = (r, w1)" by (cases "f node w")
  have "P w1" using Cons.prems(2) [of node w] Cons.prems(1) r by simp
  moreover have "P (snd (probe_nodes f ns w1))" using \<open>P w1\<close> by (rule Cons.IH) (use Cons.prems(2) in auto)
  ultimately show ?case using r by (cases r) simp_all
qed simp

lemma probe_each_keeps:
  assumes "\<And>i f node w. (i, f) \<in> set ps \<Longrightarrow> node \<in> set nodes \<Longrightarrow> node_matches i node \<Longrightarrow> P w \<Longrightarrow> P (snd (f node w))"
  shows "P w \<Longrightarrow> P (snd (probe_each ps nodes w))"
  using assms
proof (induction ps arbitrary: w)
  case (Cons x ps)
  obtain i f where x: "x = (i, f)" by fastforce
  obtain r w1 where w1: "probe_nodes f (filter (node_matches i) nodes) w = (r, w1)" by fastforce
  have "P (snd (probe_nodes f (filter (node_matches i) nodes) w))"
    by (rule probe_nodes_keeps [where P = P, OF _ Cons.prems(1)]) (use Cons.prems(2) x in auto)
  then have "P w1" using w1 by simp
  moreover from this have "P (snd (probe_each ps nodes w1))" by (rule Cons.IH) (use Cons.prems(2) in \<open>auto\<close>)
  ultimately show ?case using x w1 by (cases r) simp_all
qed simp

abbreviation intc_id :: DevIdent where
  "intc_id \<equiv> Compatible ''riscv,cpu-intc''"

lemma probe_all_each:
  assumes "mset ps = mset (kernel_probers pf)" "probe_all root ps nodes (name, w) = (r, name', w')"
  shows "\<exists>qs. set qs \<subseteq> set (kernel_probers pf) \<and> w' = snd (probe_each ((intc_id, intc_probe pf) # qs) nodes w)"
proof -
  obtain a b where ab: "order_probers ps = Ok [(intc_id, intc_probe pf), (plic_id, plic_probe pf), (memory_id, memory_probe pf), a, b]"
    "{a, b} = {(uart_id, uart_probe pf), (virtio_id, virtio_probe pf)}" using kernel_order [OF assms(1)] by blast
  have "set [(plic_id, plic_probe pf), (memory_id, memory_probe pf), a, b] \<subseteq> set (kernel_probers pf)" using ab(2) by (auto simp: kernel_probers_def)
  moreover have "w' = snd (probe_each ((intc_id, intc_probe pf) # [(plic_id, plic_probe pf), (memory_id, memory_probe pf), a, b]) nodes w)"
    using assms(2) by (auto simp: probe_all_def probe_all_device_def ab(1) split: prod.splits simp del: probe_each.simps)
  ultimately show ?thesis by blast
qed

lemma probe_all_keeps:
  assumes "mset ps = mset (kernel_probers pf)" "probe_all root ps nodes (name, w) = (r, name', w')" "P w"
    and "\<And>i f node w. (i, f) \<in> set (kernel_probers pf) \<Longrightarrow> node \<in> set nodes \<Longrightarrow> node_matches i node \<Longrightarrow> P w \<Longrightarrow> P (snd (f node w))"
  shows "P w'"
proof -
  obtain qs where qs: "set qs \<subseteq> set (kernel_probers pf)" "w' = snd (probe_each ((intc_id, intc_probe pf) # qs) nodes w)"
    using probe_all_each [OF assms(1,2)] by blast
  have "set ((intc_id, intc_probe pf) # qs) \<subseteq> set (kernel_probers pf)" using qs(1) by (auto simp: kernel_probers_def)
  then show ?thesis unfolding qs(2) by (intro probe_each_keeps [where P = P, OF _ assms(3)]) (use assms(4) in blast)
qed

lemma probe_all_named:
  assumes "mset ps = mset (kernel_probers pf)" "plic_named w" "probe_all root ps nodes (name, w) = (r, name', w')"
  shows "plic_named w'"
  by (rule probe_all_keeps [where P = plic_named, OF assms(1,3,2)]) (rule kernel_probers_named)

text \<open>Only platform controllers of the tree get into the table.\<close>

definition plic_only :: "fdt_node list \<Rightarrow> ('h, 'p, 'u, 'd) devices \<Rightarrow> bool" where
  "plic_only nodes w \<longleftrightarrow> dom (dv_irq_table w) \<subseteq> plic_phandles nodes"

lemma plic_only_fields [simp]:
  "plic_only ns (w\<lparr>dv_mem := m\<rparr>) = plic_only ns w" "plic_only ns (w\<lparr>dv_heap := h\<rparr>) = plic_only ns w" "plic_only ns (w\<lparr>dv_regs := r\<rparr>) = plic_only ns w"
  "plic_only ns (w\<lparr>dv_global_intc := b\<rparr>) = plic_only ns w" "plic_only ns (w\<lparr>dv_uarts := u\<rparr>) = plic_only ns w" "plic_only ns (w\<lparr>dv_nets := n\<rparr>) = plic_only ns w"
  "plic_only ns (w\<lparr>dv_eth0 := e\<rparr>) = plic_only ns w"
  by (simp_all add: plic_only_def)

lemma register_at_only: "plic_only ns w \<Longrightarrow> plic_only ns (snd (register_at p i d w))"
  by (auto simp: register_at_def plic_only_def split: option.splits prod.splits)

lemma uart_probe_only: "plic_only ns w \<Longrightarrow> plic_only ns (snd (uart_probe pf node w))"
  by (auto simp: uart_probe_def Let_def split: sum.splits prod.splits intro!: register_at_only)

lemma virtio_device_only:
  assumes "plic_only ns w"
  shows "plic_only ns (snd (virtio_device pf v ty p i w))"
proof (cases ty)
  case VT_Network
  have "plic_only ns (snd (register_at p i (Dev_Net v) (w\<lparr>dv_nets := (dv_nets w)(v \<mapsto> dev)\<rparr>)))" for dev
    using assms by (intro register_at_only) simp
  then show ?thesis using assms VT_Network
    by (auto simp: virtio_device_def split: sum.split prod.split) (metis snd_conv)+
qed (use assms in \<open>simp add: virtio_device_def\<close>)

lemma virtio_probe_only: "plic_only ns w \<Longrightarrow> plic_only ns (snd (virtio_probe pf node w))"
  by (auto simp: virtio_probe_def Let_def split: sum.splits prod.splits option.splits intro!: virtio_device_only)

lemma plic_probe_only:
  assumes "plic_only ns w" "node \<in> set ns" "node_matches plic_id node"
  shows "plic_only ns (snd (plic_probe pf node w))"
proof -
  have "p \<in> plic_phandles ns" if "fn_phandle node = Some (Some p)" for p using assms(2,3) that by (auto simp: plic_phandles_def)
  then show ?thesis using assms(1)
    by (auto simp: plic_probe_def Let_def plic_only_def ok_or_def unwrap_opt_def bind_res_def split: sum.splits prod.splits option.splits)
qed

lemma probe_all_only:
  assumes "mset ps = mset (kernel_probers pf)" "plic_only nodes w" "probe_all root ps nodes (name, w) = (r, name', w')"
  shows "plic_only nodes w'"
proof (rule probe_all_keeps [where P = "plic_only nodes", OF assms(1,3,2)])
  fix i f node and v :: "('a, 'b, 'c, 'd) devices"
  assume "(i, f) \<in> set (kernel_probers pf)" "node \<in> set nodes" "node_matches i node" "plic_only nodes v"
  then show "plic_only nodes (snd (f node v))" using uart_probe_only [of nodes v pf node] virtio_probe_only [of nodes v pf node] plic_probe_only [of nodes v node pf]
    by (auto simp: kernel_probers_def intc_probe_def memory_probe_def split: prod.splits)
qed

text \<open>The processor's controller is there once a node of its kind has been probed.\<close>

lemma kernel_probers_intc: "(i, f) \<in> set (kernel_probers pf) \<Longrightarrow> dv_global_intc w \<Longrightarrow> dv_global_intc (snd (f node w))"
  by (auto simp: kernel_probers_def intc_probe_def memory_probe_def plic_probe_def uart_probe_def virtio_probe_def virtio_device_def register_at_def Let_def
      split: prod.splits sum.splits option.splits virtio_type.splits)

lemma probe_all_intc:
  assumes "mset ps = mset (kernel_probers pf)" "c \<in> set nodes" "node_matches intc_id c" "probe_all root ps nodes (name, w) = (r, name', w')"
  shows "dv_global_intc w'"
proof -
  obtain qs where qs: "set qs \<subseteq> set (kernel_probers pf)" "w' = snd (probe_each ((intc_id, intc_probe pf) # qs) nodes w)"
    using probe_all_each [OF assms(1,4)] by blast
  have first: "probe_nodes (intc_probe pf) ns v = (Ok (), if ns = [] then v else v\<lparr>dv_global_intc := True\<rparr>)" for ns and v :: "('a, 'b, 'c, 'd) devices"
    by (induction ns arbitrary: v) (simp_all add: intc_probe_def)
  have "filter (node_matches intc_id) nodes \<noteq> []" using assms(2,3) by (auto simp: filter_empty_conv)
  then have "w' = snd (probe_each qs nodes (w\<lparr>dv_global_intc := True\<rparr>))" using qs(2) by (simp add: first)
  moreover have "dv_global_intc (snd (probe_each qs nodes (w\<lparr>dv_global_intc := True\<rparr>)))"
  proof (rule probe_each_keeps [where P = dv_global_intc])
    show "dv_global_intc (snd (f node v))" if "(i, f) \<in> set qs" "dv_global_intc v" for i f node v
      using that qs(1) kernel_probers_intc [of i f pf v node] by blast
  qed simp
  ultimately show ?thesis by simp
qed

section \<open>The kernel starts\<close>

text \<open>The statics before the first initialisation.\<close>

definition fresh_kernel :: "usize \<Rightarrow> ('h, 'p, 'u, 'd, 's, 'fut) kernel \<Rightarrow> bool" where
  "fresh_kernel me k \<longleftrightarrow> CPU_COUNT (kn_hal k) = None \<and> CPU_VALID_COUNT (kn_hal k) = None \<and> pc_global_area_base (kn_percpu k) = None \<and>
     kn_root k = None \<and> dv_irq_table (kn_devices k) = (\<lambda>p. None) \<and> dv_plic_phandle (kn_devices k) = None \<and> kn_page_table k = None \<and>
     kn_task_id k \<noteq> - 1 \<and> kn_executor_id k \<noteq> - 1 \<and> kn_inspector_id k \<noteq> - 1 \<and> kn_runtimes k me = rt_new \<and> kn_boot_state k = Bootstrap"

text \<open>A machine the kernel starts on: its device tree names the processors and a platform controller, the memory is enough for the per-processor
  areas, the stacks and the tables, with one frame to spare, and the firmware accepts every request, here written down.\<close>

type_synonym hart_calls = "(usize \<times> usize \<times> usize) list"

definition cpus_ok :: "('h, 'p, 'u, 'd, hart_calls) boot_env \<Rightarrow> cpus_node \<Rightarrow> usize list \<Rightarrow> bool" where
  "cpus_ok env node hs \<longleftrightarrow> be_cpus env = Some node \<and> (\<exists>freq. cs_timebase node = Some (Some freq)) \<and> names_harts node hs \<and>
     be_hsm_available env \<and> (\<forall>heap. be_alloc_stack env heap \<noteq> None) \<and> be_hart_start env = (\<lambda>i e t calls. Some (calls @ [(i, e, t)]))"

definition areas_ok :: "('h, 'p, 'u, 'd, 's) boot_env \<Rightarrow> cpus_node \<Rightarrow> 'p \<Rightarrow> bool" where
  "areas_ok env node heap \<longleftrightarrow>
     (let sz = be_epercpu env - be_spercpu env; n = of_nat (length (filter is_cpu (cs_children node)))
      in alloc_apart (be_alloc_area env) (be_spercpu env) (be_epercpu env) \<and> be_spercpu env \<le> be_epercpu env \<and>
         unat sz * unat n \<le> 2 ^ 63 - 4096 \<and> be_alloc_area env (sz * n) heap \<noteq> None)"

definition tree_fits :: "usize \<Rightarrow> ('h \<Rightarrow> usize set) \<Rightarrow> nat \<Rightarrow> ('h, 'p, 'u, 'd, 's) boot_env \<Rightarrow> 'h kmem \<Rightarrow> bool" where
  "tree_fits r in_use n env m \<longleftrightarrow>
     (let pf = be_platform env; nodes = be_nodes env
      in mset (be_probers env) = mset (kernel_probers pf) \<and> be_root env = ''riscv-virtio'' \<and> plic_phandles nodes \<noteq> {} \<and> tree_ok pf nodes \<and>
         boot_fits r in_use n (pf_frames pf) nodes m \<and> frames_for (pf_frames pf) in_use (Suc n) \<and>
         unat PHYS_MEM_BASE + unat REMAP_MEM_OFFSET \<le> unat (pf_kernel_end pf) \<and> unat (pf_kernel_end pf) \<le> unat PHYS_MEM_LIMIT + unat REMAP_MEM_OFFSET)"

lemma run_inits_Ok: "f k = (Ok (), k') \<Longrightarrow> run_inits (f # fs) k = run_inits fs k'"
  by simp

lemma init_cpus_ok:
  assumes "cpus_ok env node hs" "CPU_COUNT (kn_hal k) = None"
  shows "\<exists>h. init_cpus env k = (Ok (), k\<lparr>kn_hal := h\<rparr>) \<and> nproc h = of_nat (length (filter is_cpu (cs_children node)))"
  using assms by (auto simp: cpus_ok_def init_cpus_def cpus_init_def set_nproc_valid_def set_nproc_def set_timebase_freq_def call_once_def nproc_def)

lemma init_percpu_ok:
  assumes "areas_ok env node (dv_heap (kn_devices k))" "nproc (kn_hal k) = of_nat (length (filter is_cpu (cs_children node)))"
    and "pc_global_area_base (kn_percpu k) = None"
  shows "\<exists>st heap b. init_percpu env k = (Ok (), k\<lparr>kn_percpu := st, kn_devices := (kn_devices k)\<lparr>dv_heap := heap\<rparr>\<rparr>) \<and> pc_global_area_base st = Some b"
proof -
  let ?st = "(kn_percpu k)\<lparr>pc_alloc := dv_heap (kn_devices k)\<rparr>"
  obtain p a where "be_alloc_area env ((be_epercpu env - be_spercpu env) * nproc (kn_hal k)) (pc_alloc ?st) = Some (p, a)"
    using assms(1,2) by (auto simp: areas_ok_def Let_def)
  from percpu_init_ok(2) [where alloc = "be_alloc_area env" and s = "be_spercpu env" and e = "be_epercpu env" and st = ?st and n = "nproc (kn_hal k)",
    OF _ _ _ _ this] obtain m where
    "percpu_init (be_alloc_area env) (be_spercpu env) (be_epercpu env) (nproc (kn_hal k)) ?st = (Ok (), ?st\<lparr>pc_mem := m, pc_alloc := a, pc_global_area_base := Some p\<rparr>)"
    using assms by (auto simp: areas_ok_def Let_def)
  then show ?thesis
    by (intro exI [of _ "?st\<lparr>pc_mem := m, pc_alloc := a, pc_global_area_base := Some p\<rparr>"] exI [of _ a] exI [of _ p]) (simp add: init_percpu_def)
qed

lemma init_local_pointer_ok:
  "pc_global_area_base (kn_percpu k) = Some b \<Longrightarrow>
    init_local_pointer env me k = (Ok (), k\<lparr>kn_gp := (kn_gp k)(me := b + (be_epercpu env - be_spercpu env) * me)\<rparr>)"
  by (simp add: init_local_pointer_def set_local_pointer_def local_area_base_def global_area_base_def local_area_size_def)

lemma init_irqs_ok:
  assumes "plic_named (kn_devices k)" "dv_irq_table (kn_devices k) p \<noteq> None" "kn_root k = virtio_root"
  shows "\<exists>regs j. init_irqs me k = (Ok (), k\<lparr>kn_devices := (kn_devices k)\<lparr>dv_regs := regs\<rparr>, kn_irq_count := (kn_irq_count k)(8 \<mapsto> 0, 10 \<mapsto> 0),
    kn_interrupt_count := call_once (replicate 5 0) (kn_interrupt_count k), kn_rotate_index := j\<rparr>)"
proof -
  obtain ph where ph: "dv_plic_phandle (kn_devices k) = Some ph" using assms(1,2) by (auto simp: plic_named_def split: option.splits)
  then obtain pl where "dv_irq_table (kn_devices k) ph = Some pl" using assms(1) by (auto simp: plic_named_def)
  then show ?thesis using ph assms(3) by (auto simp: init_irqs_def init_strategy_def ic_enable_def virtio_context Let_def DISPATCH_CPU_COUNT_def)
qed

lemma secondary_boot_ok:
  assumes "cpus_ok env node hs"
  shows "\<exists>heap tops. secondary_boot env me k = (Ok (), k\<lparr>kn_devices := (kn_devices k)\<lparr>dv_heap := heap\<rparr>,
      kn_firmware := kn_firmware k @ map (\<lambda>(i, t). (i, pa_as_usize (to_phys (be_secondary_entry env)), t)) (zip (filter (\<lambda>i. i \<noteq> me) hs) tops)\<rparr>) \<and>
    length tops = length (filter (\<lambda>i. i \<noteq> me) hs)"
proof -
  have al: "\<And>a. be_alloc_stack env a \<noteq> None" and hs: "map hart_id (filter is_valid_cpu (cs_children node)) = map (\<lambda>i. Ok (Some i)) hs"
    using assms by (simp_all add: cpus_ok_def names_harts_def)
  from start_harts_calls [where alloc = "be_alloc_stack env" and me = me and entry = "be_secondary_entry env" and a = "dv_heap (kn_devices k)"
    and calls = "kn_firmware k", OF al hs]
  obtain tops heap where t: "start_harts (be_alloc_stack env) (\<lambda>i e t calls. Some (calls @ [(i, e, t)])) me (be_secondary_entry env)
      (filter is_valid_cpu (cs_children node)) (dv_heap (kn_devices k), kn_firmware k) = (Ok (), heap, kn_firmware k @
        map (\<lambda>(i, t). (i, pa_as_usize (to_phys (be_secondary_entry env)), t)) (zip (filter (\<lambda>i. i \<noteq> me) hs) tops))"
    "length tops = length (filter (\<lambda>i. i \<noteq> me) hs)" by blast
  show ?thesis by (intro exI [of _ heap] exI [of _ tops]) (use assms t in \<open>simp add: secondary_boot_def cpus_start_def cpus_ok_def\<close>)
qed

lemma pt_new_ok:
  assumes "frames_for A in_use n" "card (in_use (km_heap m)) < n"
  shows "\<exists>pt m'. pt_new A m = (Ok pt, m')"
proof -
  have "fst (fa_allocate_zeroed A m) \<noteq> None" using assms by (simp add: frames_for_def)
  then obtain a m1 where "fa_allocate_zeroed A m = (Some a, m1)" by (cases "fa_allocate_zeroed A m") auto
  then show ?thesis by (simp add: pt_new_def PhysFrame_alloc_def Let_def)
qed

lemma init_vmm_ok:
  assumes "tree_fits r in_use n env m0" "boot_ready r in_use n pages (dv_mem (kn_devices k))" "kn_page_table k = None"
  shows "\<exists>pt m. pt_new (pf_frames (be_platform env)) (dv_mem (kn_devices k)) = (Ok pt, m) \<and>
    init_vmm env me k = (Ok (), k\<lparr>kn_devices := (kn_devices k)\<lparr>dv_mem := m\<rparr>, kn_page_table := Some pt, kn_satp := (kn_satp k)(me := vmm_init pt)\<rparr>)"
proof -
  have "frames_for (pf_frames (be_platform env)) in_use (Suc n)" using assms(1) by (simp add: tree_fits_def Let_def)
  then obtain pt m where "pt_new (pf_frames (be_platform env)) (dv_mem (kn_devices k)) = (Ok pt, m)"
    using pt_new_ok [of "pf_frames (be_platform env)" in_use "Suc n" "dv_mem (kn_devices k)"] assms(2) by (auto simp: boot_ready_def)
  then show ?thesis using assms(3) by (simp add: init_vmm_def lazy_page_table_def KERN_PAGE_TABLE_def unwrap_res_def)
qed

text \<open>The processor's runtime with one inspector, whose only executor starts on the stack \<open>tp\<close> under the kernel page table and has
  the root task as its only task.\<close>

definition runs_root :: "('h, 'p, 'u, 'd, 's) boot_env \<Rightarrow> usize \<Rightarrow> 'fut \<Rightarrow> VirtAddr \<Rightarrow> ('h, 'p, 'u, 'd, 's, 'fut) kernel \<Rightarrow> 'fut Runtime \<Rightarrow> bool" where
  "runs_root env me future tp k rt \<longleftrightarrow> (\<exists>ex inspector. rt_queue rt = [kn_inspector_id k + 1] \<and> rt_registry rt = [kn_inspector_id k + 1 \<mapsto> inspector] \<and>
     is_status inspector = Is_Idle \<and> eq_list inspector = [(ExecutorPriority_default, kn_executor_id k + 1)] \<and>
     is_registry inspector = [kn_executor_id k + 1 \<mapsto> ex] \<and> ex_stack_top ex = tp \<and>
     ex_switch_context ex = sc_default\<lparr>sc_ra := va_as_usize (be_launch env), sc_sp := va_as_usize tp, sc_satp := satp_bits (kn_satp k me),
       sc_s0 := be_boxed env (kn_executor_id k)\<rparr> \<and>
     ex_task_registry ex = [kn_task_id k + 1 \<mapsto> \<lparr>t_id = kn_task_id k + 1, t_priority = TaskPriority_default, t_future = future\<rparr>])"

lemma root_executor:
  assumes "sa_allocate (kpt_map A) EXECUTOR_STACK_SIZE sa mp = (Ok tp, sa', mp')" "g \<noteq> - 1" "task_rank (t_priority t) < 64"
  shows "\<exists>ex. executor_new A entry satp addr g priority t (sa, mp) = (Ok (ex, g + 1), sa', mp') \<and> ex_id ex = g + 1 \<and> ex_priority ex = priority \<and>
    ex_stack_top ex = tp \<and> ex_task_registry ex = [t_id t \<mapsto> t] \<and>
    ex_switch_context ex = sc_default\<lparr>sc_ra := va_as_usize entry, sc_sp := va_as_usize tp, sc_satp := satp, sc_s0 := addr\<rparr>"
proof -
  let ?b = "blank_executor (g + 1) priority tp (sc_init_executor_addr (va_new addr) (sc_new_executor entry tp satp))"
  have "\<exists>ex. ex_spawn t ?b = (Ok (), ex)"
    by (rule spawn_blank [of "\<lambda>w f. (Poll_Ready, f, [])" 0 t "g + 1" priority tp "sc_init_executor_addr (va_new addr) (sc_new_executor entry tp satp)"])
      (use assms(3) in auto)
  then obtain ex where ex: "ex_spawn t ?b = (Ok (), ex)" by blast
  then have "ex_id ex = g + 1" "ex_priority ex = priority" "ex_stack_top ex = tp" "ex_task_registry ex = [t_id t \<mapsto> t]"
    "ex_switch_context ex = sc_init_executor_addr (va_new addr) (sc_new_executor entry tp satp)"
    by (auto simp: ex_spawn_def task_enqueue_def blank_executor_def split: sum.splits)
  then show ?thesis using assms(1,2) ex
    by (intro exI [of _ ex]) (simp add: executor_new_def serial_new_def blank_executor_def sc_init_executor_addr_def sc_new_executor_def va_new_def)
qed

lemma root_inspector:
  assumes "ex_rank (ex_priority ex) < 64" "g \<noteq> - 1"
  shows "\<exists>inspector. is_new ex g = Ok (inspector, g + 1) \<and> is_id inspector = g + 1 \<and> is_status inspector = Is_Idle \<and>
    is_registry inspector = [ex_id ex \<mapsto> ex] \<and> eq_list inspector = [(ex_priority ex, ex_id ex)]"
proof -
  obtain q where "fpql_enqueue FastPriority_of_ExecutorPriority (ex_priority ex) (ex_id ex) fpql_new = Ok q"
    "fpq_list (fpql_inner q) = [(ex_priority ex, ex_id ex)]"
    using fpql.enq_ok [OF fpql.invar_empty assms(1), of "ex_id ex"] by (auto simp: fpql_new_def fpq_list_new)
  then show ?thesis using assms(2) by (simp add: is_new_def serial_new_def is_register_def eq_list_def)
qed

lemma init_runtime_cases:
  assumes pt: "kn_page_table k = Some pt" and g: "kn_task_id k \<noteq> - 1" "kn_executor_id k \<noteq> - 1" "kn_inspector_id k \<noteq> - 1"
    and rt: "kn_runtimes k me = rt_new"
    and al: "sa_allocate (kpt_map (pf_frames (be_platform env))) EXECUTOR_STACK_SIZE (kn_stacks k) (dv_mem (kn_devices k), pt) = (r, sa, m, pt')"
  shows "case r of Inl _ \<Rightarrow> fst (init_runtime env me future k) = Panicked
    | Inr tp \<Rightarrow> \<exists>k'. init_runtime env me future k = (Ok (), k') \<and> runs_root env me future tp k (kn_runtimes k' me) \<and> kn_boot_state k' = kn_boot_state k"
proof (cases r)
  case (Inl e)
  then show ?thesis using pt g(1) al
    by (simp add: init_runtime_def Task_new_def serial_new_def lazy_page_table_def executor_new_def)
next
  case (Inr tp)
  let ?t = "\<lparr>t_id = kn_task_id k + 1, t_priority = TaskPriority_default, t_future = future\<rparr>"
  have "task_rank (t_priority ?t) < 64" by (simp add: fpq_rank_def TaskPriority_default_def)
  from root_executor [OF al [unfolded Inr] g(2) this, of "be_launch env" "satp_bits (kn_satp k me)" "be_boxed env (kn_executor_id k)" ExecutorPriority_default]
  obtain ex where ex: "executor_new (pf_frames (be_platform env)) (be_launch env) (satp_bits (kn_satp k me)) (be_boxed env (kn_executor_id k)) (kn_executor_id k)
      ExecutorPriority_default ?t (kn_stacks k, dv_mem (kn_devices k), pt) = (Ok (ex, kn_executor_id k + 1), sa, m, pt')"
    "ex_id ex = kn_executor_id k + 1" "ex_priority ex = ExecutorPriority_default" "ex_stack_top ex = tp" "ex_task_registry ex = [kn_task_id k + 1 \<mapsto> ?t]"
    "ex_switch_context ex = sc_default\<lparr>sc_ra := va_as_usize (be_launch env), sc_sp := va_as_usize tp, sc_satp := satp_bits (kn_satp k me),
      sc_s0 := be_boxed env (kn_executor_id k)\<rparr>" by auto
  have "ex_rank (ex_priority ex) < 64" by (simp add: ex(3) ExecutorPriority_default_def fpq_rank_def)
  from root_inspector [OF this g(3)] obtain inspector where i: "is_new ex (kn_inspector_id k) = Ok (inspector, kn_inspector_id k + 1)"
    "is_id inspector = kn_inspector_id k + 1" "is_status inspector = Is_Idle" "is_registry inspector = [kn_executor_id k + 1 \<mapsto> ex]"
    "eq_list inspector = [(ExecutorPriority_default, kn_executor_id k + 1)]" using ex(2,3) by auto
  then show ?thesis unfolding Inr using pt g(1) rt ex
    by (auto simp: init_runtime_def Task_new_def serial_new_def lazy_page_table_def register_root_def rt_register_def rt_new_def unwrap_res_def runs_root_def)
qed

abbreviation early_inits :: "('h, 'p, 'u, 'd, hart_calls) boot_env \<Rightarrow> usize \<Rightarrow>
    (('h, 'p, 'u, 'd, hart_calls, 'fut) kernel \<Rightarrow> unit res \<times> ('h, 'p, 'u, 'd, hart_calls, 'fut) kernel) list" where
  "early_inits env me \<equiv> [init_cpus env, init_percpu env, init_local_pointer env me, init_devices env, init_irqs me, init_bootargs env, secondary_boot env me]"

abbreviation hart_requests :: "('h, 'p, 'u, 'd, hart_calls) boot_env \<Rightarrow> usize \<Rightarrow> usize list \<Rightarrow> usize list \<Rightarrow> hart_calls" where
  "hart_requests env me hs tops \<equiv> map (\<lambda>(i, t). (i, pa_as_usize (to_phys (be_secondary_entry env)), t)) (zip (filter (\<lambda>i. i \<noteq> me) hs) tops)"

lemma run_inits_append: "run_inits fs k = (Ok (), k') \<Longrightarrow> run_inits (fs @ gs) k = run_inits gs k'"
  by (induction fs arbitrary: k) (auto split: prod.splits sum.splits)

text \<open>The controllers after probing.\<close>

definition controllers_ok :: "fdt_node list \<Rightarrow> ('h, 'p, 'u, 'd) devices \<Rightarrow> bool" where
  "controllers_ok nodes w \<longleftrightarrow> plic_named w \<and> (\<exists>p. dv_irq_table w p \<noteq> None) \<and> plic_only nodes w \<and>
     (\<forall>p pl. dv_irq_table w p = Some pl \<longrightarrow> im_range (pl_irq_manager pl) = IRQ_RANGE) \<and> ((\<exists>c\<in>set nodes. node_matches intc_id c) \<longrightarrow> dv_global_intc w)"

lemma init_devices_ok:
  assumes "tree_fits r in_use n env (dv_mem (kn_devices k))" "kn_root k = None" "dv_irq_table (kn_devices k) = (\<lambda>p. None)" "plic_named (kn_devices k)"
  shows "\<exists>w. init_devices env k = (Ok (), k\<lparr>kn_root := virtio_root, kn_devices := w\<rparr>) \<and> controllers_ok (be_nodes env) w \<and>
    boot_ready r in_use n (probe_pages (be_nodes env)) (dv_mem w) \<and>
    (\<forall>n\<in>set (be_nodes env). \<forall>d. device_of (be_platform env) n = Some d \<longrightarrow> registered w n d) \<and>
    (\<forall>p\<in>probe_pages (be_nodes env). device_mapped r (dv_mem w) p)"
proof -
  let ?nodes = "be_nodes env"
  have t: "mset (be_probers env) = mset (kernel_probers (be_platform env))" "be_root env = ''riscv-virtio''" "plic_phandles ?nodes \<noteq> {}"
    "tree_ok (be_platform env) ?nodes" "boot_fits r in_use n (pf_frames (be_platform env)) ?nodes (dv_mem (kn_devices k))"
    "unat PHYS_MEM_BASE + unat REMAP_MEM_OFFSET \<le> unat (pf_kernel_end (be_platform env))"
    "unat (pf_kernel_end (be_platform env)) \<le> unat PHYS_MEM_LIMIT + unat REMAP_MEM_OFFSET"
    using assms(1) by (simp_all add: tree_fits_def Let_def)
  from probe_all_ok [OF t(1,5,4,6,7) assms(3), of "be_root env"] obtain w where
    w: "probe_all (be_root env) (be_probers env) ?nodes (None, kn_devices k) = (Ok (), Some (be_root env), w)"
      "dv_inv (boot_ready r in_use n (probe_pages ?nodes)) (plic_phandles ?nodes) w"
    and rest: "\<forall>n\<in>set ?nodes. \<forall>d. device_of (be_platform env) n = Some d \<longrightarrow> registered w n d" "\<forall>p\<in>probe_pages ?nodes. device_mapped r (dv_mem w) p" by blast
  have "plic_named w" by (rule probe_all_named [OF t(1) assms(4) w(1)])
  moreover have "plic_only ?nodes w" by (rule probe_all_only [OF t(1) _ w(1)]) (simp add: plic_only_def assms(3))
  moreover have "\<exists>p. dv_irq_table w p \<noteq> None" using w(2) t(3) by (auto simp: dv_inv_def)
  moreover have "\<forall>p pl. dv_irq_table w p = Some pl \<longrightarrow> im_range (pl_irq_manager pl) = IRQ_RANGE" using w(2) by (simp add: dv_inv_def)
  moreover have "(\<exists>c\<in>set ?nodes. node_matches intc_id c) \<longrightarrow> dv_global_intc w" using probe_all_intc [OF t(1) _ _ w(1)] by blast
  ultimately have c: "controllers_ok ?nodes w" by (simp add: controllers_ok_def)
  moreover have "init_devices env k = (Ok (), k\<lparr>kn_root := virtio_root, kn_devices := w\<rparr>)"
    using w(1) assms(2) t(2) by (simp add: init_devices_def)
  ultimately show ?thesis using rest dv_inv_memD [OF w(2)] by blast
qed

lemma early_inits_ok:
  fixes k :: "('h, 'p, 'u, 'd, hart_calls, 'fut) kernel"
  assumes fr: "fresh_kernel me k" and cp: "cpus_ok env node hs" and ar: "areas_ok env node (dv_heap (kn_devices k))"
    and tr: "tree_fits r in_use n env (dv_mem (kn_devices k))"
  shows "\<exists>k0 tops. run_inits (early_inits env me) k = (Ok (), k0) \<and> kn_firmware k0 = kn_firmware k @ hart_requests env me hs tops \<and>
    length tops = length (filter (\<lambda>i. i \<noteq> me) hs) \<and> boot_ready r in_use n (probe_pages (be_nodes env)) (dv_mem (kn_devices k0)) \<and>
    (\<forall>n\<in>set (be_nodes env). \<forall>d. device_of (be_platform env) n = Some d \<longrightarrow> registered (kn_devices k0) n d) \<and>
    (\<forall>p\<in>probe_pages (be_nodes env). device_mapped r (dv_mem (kn_devices k0)) p) \<and> kn_page_table k0 = None \<and> kn_task_id k0 = kn_task_id k \<and>
    kn_executor_id k0 = kn_executor_id k \<and> kn_inspector_id k0 = kn_inspector_id k \<and> kn_runtimes k0 = kn_runtimes k \<and> kn_boot_state k0 = kn_boot_state k \<and>
    controllers_ok (be_nodes env) (kn_devices k0) \<and> kn_root k0 = virtio_root \<and> kn_irq_count k0 = (kn_irq_count k)(8 \<mapsto> 0, 10 \<mapsto> 0) \<and>
    kn_interrupt_count k0 = call_once (replicate 5 0) (kn_interrupt_count k)"
proof -
  have f: "CPU_COUNT (kn_hal k) = None" "pc_global_area_base (kn_percpu k) = None" "kn_root k = None" "dv_irq_table (kn_devices k) = (\<lambda>p. None)"
    "dv_plic_phandle (kn_devices k) = None" "kn_page_table k = None" using fr by (simp_all add: fresh_kernel_def)
  obtain h where s1: "init_cpus env k = (Ok (), k\<lparr>kn_hal := h\<rparr>)" "nproc h = of_nat (length (filter is_cpu (cs_children node)))"
    using init_cpus_ok [where k = k, OF cp f(1)] by blast
  define k1 where "k1 = k\<lparr>kn_hal := h\<rparr>"
  obtain st heap b where s2: "init_percpu env k1 = (Ok (), k1\<lparr>kn_percpu := st, kn_devices := (kn_devices k1)\<lparr>dv_heap := heap\<rparr>\<rparr>)" "pc_global_area_base st = Some b"
    using init_percpu_ok [of env node k1] ar s1(2) f(2) by (auto simp: k1_def)
  define k2 where "k2 = k1\<lparr>kn_percpu := st, kn_devices := (kn_devices k1)\<lparr>dv_heap := heap\<rparr>\<rparr>"
  obtain gp where s3: "init_local_pointer env me k2 = (Ok (), k2\<lparr>kn_gp := gp\<rparr>)"
    using init_local_pointer_ok [of k2 b env me] s2(2) by (simp add: k2_def)
  define k3 where "k3 = k2\<lparr>kn_gp := gp\<rparr>"
  note defs = k1_def k2_def k3_def
  obtain w where s4: "init_devices env k3 = (Ok (), k3\<lparr>kn_root := virtio_root, kn_devices := w\<rparr>)" "controllers_ok (be_nodes env) w"
    and w: "boot_ready r in_use n (probe_pages (be_nodes env)) (dv_mem w)"
      "\<forall>n\<in>set (be_nodes env). \<forall>d. device_of (be_platform env) n = Some d \<longrightarrow> registered w n d" "\<forall>p\<in>probe_pages (be_nodes env). device_mapped r (dv_mem w) p"
    using init_devices_ok [of r in_use n env k3] tr f by (auto simp: defs plic_named_def)
  define k4 where "k4 = k3\<lparr>kn_root := virtio_root, kn_devices := w\<rparr>"
  obtain p where "dv_irq_table w p \<noteq> None" using s4(2) by (auto simp: controllers_ok_def)
  then have "plic_named (kn_devices k4)" "dv_irq_table (kn_devices k4) p \<noteq> None" "kn_root k4 = virtio_root" using s4(2) by (simp_all add: k4_def controllers_ok_def)
  from init_irqs_ok [OF this, of me] obtain k5 regs j where s5: "init_irqs me k4 = (Ok (), k5)"
    "k5 = k4\<lparr>kn_devices := (kn_devices k4)\<lparr>dv_regs := regs\<rparr>, kn_irq_count := (kn_irq_count k4)(8 \<mapsto> 0, 10 \<mapsto> 0),
      kn_interrupt_count := call_once (replicate 5 0) (kn_interrupt_count k4), kn_rotate_index := j\<rparr>" by blast
  obtain args where s6: "init_bootargs env k5 = (Ok (), k5\<lparr>kn_bootargs := args\<rparr>)"
    by (cases "be_bootargs env") (auto simp: init_bootargs_def intro: that [of "kn_bootargs k5"])
  define k6 where "k6 = k5\<lparr>kn_bootargs := args\<rparr>"
  obtain heap' tops where s7: "secondary_boot env me k6 = (Ok (), k6\<lparr>kn_devices := (kn_devices k6)\<lparr>dv_heap := heap'\<rparr>,
      kn_firmware := kn_firmware k6 @ hart_requests env me hs tops\<rparr>)" "length tops = length (filter (\<lambda>i. i \<noteq> me) hs)"
    using secondary_boot_ok [OF cp, of me k6] by blast
  let ?k0 = "k6\<lparr>kn_devices := (kn_devices k6)\<lparr>dv_heap := heap'\<rparr>, kn_firmware := kn_firmware k6 @ hart_requests env me hs tops\<rparr>"
  have "run_inits (early_inits env me) k = (Ok (), ?k0)"
    using s1(1) s2(1) s3 s4(1) s5(1) s6 s7(1) by (simp add: k1_def [symmetric] k2_def [symmetric] k3_def [symmetric] k4_def [symmetric] k6_def [symmetric])
  moreover have "registered (kn_devices ?k0) = registered w" by (simp add: k6_def s5(2) k4_def registered_def driver_at_def fun_eq_iff)
  moreover have "controllers_ok (be_nodes env) (kn_devices ?k0)"
    using s4(2) by (simp add: k6_def s5(2) k4_def controllers_ok_def)
  ultimately show ?thesis using s7(2) w f(6) by (intro exI [of _ ?k0] exI [of _ tops]) (simp add: k6_def s5(2) k4_def defs)
qed

section \<open>Serving interrupts\<close>

text \<open>A kernel that can serve the devices of a tree: both controllers are there, the drivers are registered at the platform controller whose
  handle was kept, and the counters that \<^verbatim>\<open>init_strategy\<close> makes exist.\<close>

definition irq_ready :: "('h, 'p, 'u, 'd) platform \<Rightarrow> fdt_node list \<Rightarrow> ('h, 'p, 'u, 'd, 's, 'fut) kernel \<Rightarrow> bool" where
  "irq_ready pf nodes k \<longleftrightarrow> dv_global_intc (kn_devices k) \<and>
     (\<exists>pl. Option.bind (dv_plic_phandle (kn_devices k)) (dv_irq_table (kn_devices k)) = Some pl \<and> im_range (pl_irq_manager pl) = IRQ_RANGE \<and>
        (\<forall>n\<in>set nodes. \<forall>d i. device_of pf n = Some d \<longrightarrow> first_interrupt n = Ok i \<longrightarrow> im_table (pl_irq_manager pl) i = Some (Some d))) \<and>
     kn_root k = virtio_root \<and> dom (kn_irq_count k) = {8, 10} \<and> (\<exists>v. kn_interrupt_count k = Some v \<and> length v = 5)"

lemma registered_driver:
  assumes "registered w n d" "parent_phandle n = Ok p" "first_interrupt n = Ok irq"
  shows "\<exists>pl. dv_irq_table w p = Some pl \<and> im_table (pl_irq_manager pl) irq = Some (Some d)"
  using assms by (auto simp: registered_def driver_at_def split: option.splits)

lemma device_node_parent:
  assumes "tree_ok pf nodes" "n \<in> set nodes" "device_of pf n = Some d" "plic_phandles nodes = {p}"
  shows "parent_phandle n = Ok p"
  using assms by (auto simp: tree_ok_def device_of_def dev_node_ok_def split: if_splits)

lemma irq_ready_start:
  assumes "tree_ok pf nodes" "plic_phandles nodes = {p}" "c \<in> set nodes" "node_matches intc_id c" "controllers_ok nodes (kn_devices k)"
    and reg: "\<forall>n\<in>set nodes. \<forall>d. device_of pf n = Some d \<longrightarrow> registered (kn_devices k) n d"
    and "kn_root k = virtio_root" "dom (kn_irq_count k) = {8, 10}" "kn_interrupt_count k = Some v" "length v = 5"
  shows "irq_ready pf nodes k"
proof -
  let ?w = "kn_devices k"
  note c = assms(5) [unfolded controllers_ok_def]
  obtain ph pl where ph: "dv_plic_phandle ?w = Some ph" "dv_irq_table ?w ph = Some pl"
    using c by (auto simp: plic_named_def split: option.splits)
  then have "ph = p" using c assms(2) by (auto simp: plic_only_def)
  then have pl: "Option.bind (dv_plic_phandle ?w) (dv_irq_table ?w) = Some pl" "dv_irq_table ?w p = Some pl" "im_range (pl_irq_manager pl) = IRQ_RANGE"
    using ph c by auto
  have "im_table (pl_irq_manager pl) i = Some (Some d)" if "n \<in> set nodes" "device_of pf n = Some d" "first_interrupt n = Ok i" for n d i
    using registered_driver [of ?w n d p i] reg that device_node_parent [OF assms(1) that(1,2) assms(2)] pl(2) by auto
  then show ?thesis using pl c assms(3,4,7-10) unfolding irq_ready_def by blast
qed

text \<open>The claim of the interrupt of a device on one of the five processors that have a counter.\<close>

definition device_event :: "('h, 'p, 'u, 'd) platform \<Rightarrow> fdt_node list \<Rightarrow> usize \<times> (usize \<Rightarrow> u32) \<times> device \<times> usize \<Rightarrow> bool" where
  "device_event pf nodes ev = (case ev of (me, claim, d, irq) \<Rightarrow> unat me < 5 \<and> irq \<in> {8, 10} \<and> ucast (claim (plic_ctx me)) = irq \<and>
     (\<exists>n\<in>set nodes. device_of pf n = Some d \<and> first_interrupt n = Ok irq))"

lemma external_interrupt_serves:
  assumes "irq_ready pf nodes k" "device_event pf nodes (me, claim, d, irq)" "drv d irq dw = (t, dw')" "kn_irq_count k irq = Some c"
  shows "\<exists>k'. external_interrupt claim drv me (k, dw) = (Ok t, k', [(plic_ctx me, irq)], dw') \<and> irq_ready pf nodes k' \<and>
    kn_irq_count k' = (kn_irq_count k)(irq \<mapsto> c + 1)"
proof -
  obtain pl where pl: "Option.bind (dv_plic_phandle (kn_devices k)) (dv_irq_table (kn_devices k)) = Some pl" "im_range (pl_irq_manager pl) = IRQ_RANGE"
    "im_table (pl_irq_manager pl) irq = Some (Some d)" using assms(1,2) by (auto simp: irq_ready_def device_event_def)
  obtain v where v: "kn_interrupt_count k = Some v" "length v = 5" using assms(1) by (auto simp: irq_ready_def)
  have irq: "irq \<in> {8, 10}" "unat me < 5" "ucast (claim (plic_ctx me)) = irq" using assms(2) by (simp_all add: device_event_def)
  have r: "dv_global_intc (kn_devices k)" "kn_root k = virtio_root" "dom (kn_irq_count k) = {8, 10}" using assms(1) by (simp_all add: irq_ready_def)
  let ?s = "\<lparr>iq_plic = pl, iq_regs = dv_regs (kn_devices k), iq_completed = [], IRQ_COUNT = kn_irq_count k,
     INTERRUPT_COUNT = kn_interrupt_count k, ROTATE_INDEX = kn_rotate_index k, iq_devices = dw\<rparr>"
  have "im_contains (pl_irq_manager pl) irq" "irq \<noteq> 0" using irq(1) pl(2) by (auto simp: im_contains_def IRQ_RANGE_def)
  then have h: "intc_handle True virtio_root claim drv me ?s =
    (Ok t, ?s\<lparr>IRQ_COUNT := (kn_irq_count k)(irq \<mapsto> c + 1), iq_devices := dw', iq_regs := (dv_regs (kn_devices k))(claim_reg pl (plic_ctx me) := ucast irq),
      iq_completed := [(plic_ctx me, irq)], INTERRUPT_COUNT := Some (v[unat me := v ! unat me + 1])\<rparr>)"
    using intc_handle_registered [of ?s irq d claim me c v drv t dw'] pl(3) irq assms(3,4) v by simp
  let ?k = "k\<lparr>kn_devices := (kn_devices k)\<lparr>dv_regs := (dv_regs (kn_devices k))(claim_reg pl (plic_ctx me) := ucast irq)\<rparr>,
    kn_irq_count := (kn_irq_count k)(irq \<mapsto> c + 1), kn_interrupt_count := Some (v[unat me := v ! unat me + 1])\<rparr>"
  have "external_interrupt claim drv me (k, dw) = (Ok t, ?k, [(plic_ctx me, irq)], dw')"
    by (simp add: external_interrupt_def r pl(1) h)
  moreover have "irq_ready pf nodes ?k" using assms(1) v irq(1) unfolding irq_ready_def by auto
  ultimately show ?thesis by (intro exI [of _ ?k]) simp
qed

lemma uncounted_claim_panics:
  assumes "irq_ready pf nodes k" "ucast (claim (plic_ctx me)) \<notin> {0, 8, 10 :: usize}"
  shows "external_interrupt claim drv me (k, dw) = (Panicked, k, [], dw)"
proof -
  have "kn_irq_count k (ucast (claim (plic_ctx me))) = None" using assms by (auto simp: irq_ready_def)
  then show ?thesis using assms by (auto simp: irq_ready_def external_interrupt_def intc_handle_def plic_handle_irq_def virtio_context Let_def)
qed

lemma external_interrupts_serve:
  assumes "irq_ready pf nodes k" "\<forall>ev\<in>set evs. device_event pf nodes ev"
  shows "\<exists>k'. external_interrupts drv (map (\<lambda>(me, claim, d, irq). (me, claim)) evs) (k, dw) =
      (Ok (), k', map (\<lambda>(me, claim, d, irq). (plic_ctx me, irq)) evs, fold (\<lambda>(me, claim, d, irq) dw. snd (drv d irq dw)) evs dw) \<and>
    irq_ready pf nodes k' \<and>
    (\<forall>i. kn_irq_count k' i = map_option (\<lambda>c. c + of_nat (length (filter (\<lambda>(me, claim, d, irq). irq = i) evs))) (kn_irq_count k i))"
  using assms
proof (induction evs arbitrary: k dw)
  case (Cons ev evs)
  obtain me claim d irq where ev: "ev = (me, claim, d, irq)" by (cases ev)
  obtain t dw1 where t: "drv d irq dw = (t, dw1)" by (cases "drv d irq dw")
  have e: "device_event pf nodes (me, claim, d, irq)" using Cons.prems(2) ev by simp
  then have "irq \<in> dom (kn_irq_count k)" using Cons.prems(1) by (simp add: device_event_def irq_ready_def)
  then obtain c where c: "kn_irq_count k irq = Some c" by blast
  obtain k1 where k1: "external_interrupt claim drv me (k, dw) = (Ok t, k1, [(plic_ctx me, irq)], dw1)" "irq_ready pf nodes k1"
    "kn_irq_count k1 = (kn_irq_count k)(irq \<mapsto> c + 1)" using external_interrupt_serves [where drv = drv, OF Cons.prems(1) e t c] by blast
  have tail: "\<forall>ev\<in>set evs. device_event pf nodes ev" using Cons.prems(2) by simp
  obtain k2 where k2: "external_interrupts drv (map (\<lambda>(me, claim, d, irq). (me, claim)) evs) (k1, dw1) =
      (Ok (), k2, map (\<lambda>(me, claim, d, irq). (plic_ctx me, irq)) evs, fold (\<lambda>(me, claim, d, irq) dw. snd (drv d irq dw)) evs dw1)"
    "irq_ready pf nodes k2"
    "\<forall>i. kn_irq_count k2 i = map_option (\<lambda>c. c + of_nat (length (filter (\<lambda>(me, claim, d, irq). irq = i) evs))) (kn_irq_count k1 i)"
    using Cons.IH [OF k1(2) tail, of dw1] by blast
  have "kn_irq_count k2 i = map_option (\<lambda>c. c + of_nat (length (filter (\<lambda>(me, claim, d, irq). irq = i) (ev # evs)))) (kn_irq_count k i)" for i
    using k2(3) k1(3) c by (cases "i = irq") (auto simp: ev add.assoc)
  moreover have "external_interrupts drv (map (\<lambda>(me, claim, d, irq). (me, claim)) (ev # evs)) (k, dw) =
      (Ok (), k2, map (\<lambda>(me, claim, d, irq). (plic_ctx me, irq)) (ev # evs), fold (\<lambda>(me, claim, d, irq) dw. snd (drv d irq dw)) (ev # evs) dw)"
    by (simp only: ev list.map prod.case external_interrupts.simps k1(1) k2(1) sum.case fold_simps t snd_conv append_Cons append_Nil)
  ultimately show ?case using k2(2) by blast
qed (simp add: option.map_ident)

section \<open>Properties\<close>

text \<open>A secondary processor waits until the first one has reported. It then joins it: the same page table, its own per-processor area, and its own
  runtime with its root task; it fails only for lack of memory for the stack, and is counted.\<close>

theorem secondary_init_joins:
  assumes "kn_page_table k = Some pt" "pc_global_area_base (kn_percpu k) = Some b"
    and "kn_task_id k \<noteq> - 1" "kn_executor_id k \<noteq> - 1" "kn_inspector_id k \<noteq> - 1" "kn_runtimes k me = rt_new"
    and "sa_allocate (kpt_map (pf_frames (be_platform env))) EXECUTOR_STACK_SIZE (kn_stacks k) (dv_mem (kn_devices k), pt) = (x, sa, m, pt')"
  defines "k1 \<equiv> k\<lparr>kn_gp := (kn_gp k)(me := b + (be_epercpu env - be_spercpu env) * me), kn_satp := (kn_satp k)(me := vmm_init pt)\<rparr>"
  shows "case kn_boot_state k of
      Bootstrap \<Rightarrow> secondary_init env me task k = None
    | Ready c \<Rightarrow> (case x of
        Inl _ \<Rightarrow> \<exists>k'. secondary_init env me task k = Some (Panicked, k')
      | Inr tp \<Rightarrow> \<exists>k'. secondary_init env me task k = Some (Ok (), k') \<and> runs_root env me task tp k1 (kn_runtimes k' me) \<and> kn_boot_state k' = Ready (c + 1))"
proof (cases "kn_boot_state k")
  case Bootstrap
  then show ?thesis by (simp add: secondary_init_def secondary_leaves_def)
next
  case (Ready c)
  have "run_inits [init_local_pointer env me, init_vmm env me, init_runtime env me task, report_ready] k = run_inits [init_runtime env me task, report_ready] k1"
    using init_local_pointer_ok [of k b env me] assms(1,2) by (simp add: init_vmm_def lazy_page_table_def k1_def)
  then have "secondary_init env me task k = Some (run_inits [init_runtime env me task, report_ready] k1)"
    using Ready by (simp add: secondary_init_def secondary_leaves_def del: run_inits.simps)
  moreover have "case x of Inl _ \<Rightarrow> fst (init_runtime env me task k1) = Panicked
    | Inr tp \<Rightarrow> \<exists>k'. init_runtime env me task k1 = (Ok (), k') \<and> runs_root env me task tp k1 (kn_runtimes k' me) \<and> kn_boot_state k' = kn_boot_state k1"
    by (rule init_runtime_cases [where pt = pt]) (use assms(1-7) in \<open>simp_all add: k1_def\<close>)
  moreover have "kn_boot_state k1 = Ready c" using Ready by (simp add: k1_def)
  ultimately show ?thesis using Ready by (auto simp: report_ready_def boot_set_ready_def split: sum.splits prod.splits)
qed

text \<open>
  C39. The kernel starts. On a machine whose tree is well formed and whose memory is enough, every initialisation of \<^verbatim>\<open>primary_init\<close> up to
  \<^verbatim>\<open>vmm::init\<close> succeeds, in any order of the probers: exactly the other valid processors have been requested from the firmware, in the
  order of the tree, and the devices of the tree are registered. The processor then translates through the new kernel page table; no
  address of the kernel's half changes its meaning by that switch, all of physical memory is at its remapped address, and the register
  pages stay where probing has mapped them. After that only a lack of memory for the stack can stop the kernel; otherwise it leaves one inspector with
  one executor on that stack, with the first task, and reports as the first processor.
\<close>

theorem primary_init_boots:
  fixes k :: "('h, 'p, 'u, 'd, hart_calls, 'fut) kernel"
  assumes "fresh_kernel me k" "cpus_ok env node hs" "areas_ok env node (dv_heap (kn_devices k))" "tree_fits r in_use n env (dv_mem (kn_devices k))"
  shows "\<exists>k0 k1 pt tops. run_inits [init_cpus env, init_percpu env, init_local_pointer env me, init_devices env, init_irqs me, init_bootargs env,
        secondary_boot env me] k = (Ok (), k0) \<and> init_vmm env me k0 = (Ok (), k1) \<and>
    kn_firmware k1 = kn_firmware k @ map (\<lambda>(i, t). (i, pa_as_usize (to_phys (be_secondary_entry env)), t)) (zip (filter (\<lambda>i. i \<noteq> me) hs) tops) \<and>
    length tops = length (filter (\<lambda>i. i \<noteq> me) hs) \<and>
    (\<forall>n\<in>set (be_nodes env). \<forall>d. device_of (be_platform env) n = Some d \<longrightarrow> registered (kn_devices k1) n d) \<and>
    kn_page_table k1 = Some pt \<and> kn_satp k1 me = (Sv39, 0, drop_bit 12 (pa_as_usize (pt_addr pt))) \<and>
    (\<forall>a. 256 \<le> hd (indexes a) \<longrightarrow> sv39 (km_cells (dv_mem (kn_devices k1))) (root_va pt) a = sv39 (boot_view r (dv_mem (kn_devices k0))) r a) \<and>
    (\<forall>p. PHYS_MEM_BASE \<le> p \<and> p < PHYS_MEM_LIMIT \<longrightarrow> sv39 (km_cells (dv_mem (kn_devices k1))) (root_va pt) (to_virt (PhysAddr p)) = Some (PhysAddr p)) \<and>
    (\<forall>p\<in>probe_pages (be_nodes env). boot_translate r (dv_mem (kn_devices k0)) (va_new (p + vmr_addr EXTERNAL_DEVICE_REGION)) = Some (pa_new p)) \<and>
    (case fst (sa_allocate (kpt_map (pf_frames (be_platform env))) EXECUTOR_STACK_SIZE (kn_stacks k1) (dv_mem (kn_devices k1), pt)) of
       Inl _ \<Rightarrow> fst (primary_init env me task k) = Panicked
     | Inr tp \<Rightarrow> \<exists>k2. primary_init env me task k = (Ok (), k2) \<and> runs_root env me task tp k1 (kn_runtimes k2 me) \<and> kn_boot_state k2 = Ready 1)"
proof -
  obtain k0 tops where e: "run_inits (early_inits env me) k = (Ok (), k0)" and k0: "kn_firmware k0 = kn_firmware k @ hart_requests env me hs tops"
    "length tops = length (filter (\<lambda>i. i \<noteq> me) hs)" "boot_ready r in_use n (probe_pages (be_nodes env)) (dv_mem (kn_devices k0))"
    "\<forall>n\<in>set (be_nodes env). \<forall>d. device_of (be_platform env) n = Some d \<longrightarrow> registered (kn_devices k0) n d"
    "\<forall>p\<in>probe_pages (be_nodes env). device_mapped r (dv_mem (kn_devices k0)) p" "kn_page_table k0 = None" "kn_task_id k0 = kn_task_id k"
    "kn_executor_id k0 = kn_executor_id k" "kn_inspector_id k0 = kn_inspector_id k" "kn_runtimes k0 = kn_runtimes k" "kn_boot_state k0 = kn_boot_state k"
    using early_inits_ok [OF assms] by (elim exE conjE)
  obtain pt m where v: "pt_new (pf_frames (be_platform env)) (dv_mem (kn_devices k0)) = (Ok pt, m)"
    "init_vmm env me k0 = (Ok (), k0\<lparr>kn_devices := (kn_devices k0)\<lparr>dv_mem := m\<rparr>, kn_page_table := Some pt, kn_satp := (kn_satp k0)(me := vmm_init pt)\<rparr>)"
    using init_vmm_ok [OF assms(4) k0(3,6), of me] by blast
  define k1 where "k1 = k0\<lparr>kn_devices := (kn_devices k0)\<lparr>dv_mem := m\<rparr>, kn_page_table := Some pt, kn_satp := (kn_satp k0)(me := vmm_init pt)\<rparr>"
  have ok: "frame_allocator_ok (pf_frames (be_platform env)) in_use" using assms(4) by (simp add: tree_fits_def boot_fits_def Let_def)
  have wf: "boot_wf device_roots r in_use (dv_mem (kn_devices k0))" "remap_entries (km_boot (dv_mem (kn_devices k0)))" using k0(3) by (simp_all add: boot_ready_def)
  have pi: "primary_init env me task k = run_inits [init_runtime env me task, report_ready] k1"
    using run_inits_append [OF e, of "[init_vmm env me, init_runtime env me task, report_ready]"] v(2) by (simp add: primary_init_def k1_def del: run_inits.simps)
      (simp add: run_inits_Ok)
  obtain x sa m2 pt2 where al: "sa_allocate (kpt_map (pf_frames (be_platform env))) EXECUTOR_STACK_SIZE (kn_stacks k1) (dv_mem (kn_devices k1), pt) = (x, sa, m2, pt2)"
    by (metis surj_pair)
  have g: "kn_page_table k1 = Some pt" "kn_task_id k1 \<noteq> - 1" "kn_executor_id k1 \<noteq> - 1" "kn_inspector_id k1 \<noteq> - 1" "kn_runtimes k1 me = rt_new" "kn_boot_state k1 = Bootstrap"
    using assms(1) k0(7-11) by (simp_all add: k1_def fresh_kernel_def)
  have last: "case x of Inl _ \<Rightarrow> fst (primary_init env me task k) = Panicked
     | Inr tp \<Rightarrow> \<exists>k2. primary_init env me task k = (Ok (), k2) \<and> runs_root env me task tp k1 (kn_runtimes k2 me) \<and> kn_boot_state k2 = Ready 1"
    using init_runtime_cases [OF g(1-5) al, of task] g(6) unfolding pi
    by (auto simp: report_ready_def boot_set_ready_def split: sum.splits prod.splits)
  have reg: "registered (kn_devices k1) = registered (kn_devices k0)" by (simp add: k1_def registered_def driver_at_def fun_eq_iff)
  have mem: "dv_mem (kn_devices k1) = m" "kn_firmware k1 = kn_firmware k0" "kn_satp k1 me = (Sv39, 0, drop_bit 12 (pa_as_usize (pt_addr pt)))"
    by (simp_all add: k1_def vmm_init_def vm_enable_def)
  have same: "\<forall>a. 256 \<le> hd (indexes a) \<longrightarrow> sv39 (km_cells m) (root_va pt) a = sv39 (boot_view r (dv_mem (kn_devices k0))) r a"
    using switch_keeps [OF ok wf v(1)] by blast
  have linear: "\<forall>p. PHYS_MEM_BASE \<le> p \<and> p < PHYS_MEM_LIMIT \<longrightarrow> sv39 (km_cells m) (root_va pt) (to_virt (PhysAddr p)) = Some (PhysAddr p)"
    using kernel_linear [OF ok wf(2) v(1)] by blast
  have dev: "\<forall>p\<in>probe_pages (be_nodes env). boot_translate r (dv_mem (kn_devices k0)) (device_va p) = Some (pa_new p)"
    using k0(5) by (simp add: device_mapped_def)
  show ?thesis
    by (rule exI [of _ k0], rule exI [of _ k1], rule exI [of _ pt], rule exI [of _ tops], intro conjI)
      (use e v(2) k0(1,2,4) last al g(1) same linear dev in \<open>simp_all only: mem reg fst_conv k1_def [symmetric]\<close>)
qed

text \<open>The machine of \<open>demo_nodes\<close> with two valid processors.\<close>

definition demo_env :: "(usize list, (usize \<times> usize) list, nat \<times> u8 list, nat, hart_calls) boot_env" where
  "demo_env = \<lparr>be_cpus = Some demo_cpus, be_root = ''riscv-virtio'', be_nodes = demo_nodes, be_bootargs = Some ''-t help'', be_platform = demo_platform,
     be_probers = rev (kernel_probers demo_platform), be_spercpu = 0x80200000, be_epercpu = 0x80201000,
     be_alloc_area = (\<lambda>n h. if n \<le> 0x10000 then Some (0x90000000, h) else None), be_alloc_stack = (\<lambda>h. Some (0x90100000, h)),
     be_hsm_available = True, be_hart_start = (\<lambda>i e t calls. Some (calls @ [(i, e, t)])), be_secondary_entry = VirtAddr 0xFFFFFFC080200040,
     be_launch = VirtAddr 0xFFFFFFC080200080, be_boxed = (\<lambda>i. 0xFFFFFFC090200000)\<rparr>"

definition demo_kernel :: "(usize list, (usize \<times> usize) list, nat \<times> u8 list, nat, hart_calls, nat) kernel" where
  "demo_kernel = \<lparr>kn_hal = \<lparr>CPU_COUNT = None, CPU_VALID_COUNT = None, CPU_TIMEBASE_FREQ = None\<rparr>,
     kn_percpu = \<lparr>pc_mem = (\<lambda>a. 0), pc_alloc = [], pc_global_area_base = None\<rparr>, kn_gp = (\<lambda>i. 0), kn_root = None, kn_devices = demo_devices,
     kn_irq_count = (\<lambda>i. None), kn_interrupt_count = None, kn_rotate_index = 0, kn_bootargs = None, kn_firmware = [], kn_page_table = None,
     kn_satp = (\<lambda>i. (Sv39, 0, 0x80210)), kn_stacks = EXECUTOR_STACK_ALLOCATOR, kn_task_id = 0, kn_executor_id = 0, kn_inspector_id = 0,
     kn_runtimes = (\<lambda>i. rt_new), kn_boot_state = Bootstrap\<rparr>"

lemma demo_machine:
  "fresh_kernel 0 demo_kernel" "cpus_ok demo_env demo_cpus [0, 1]" "areas_ok demo_env demo_cpus (dv_heap (kn_devices demo_kernel))"
  "tree_fits 0x80210000 set 7 demo_env (dv_mem (kn_devices demo_kernel))"
proof -
  show "fresh_kernel 0 demo_kernel" by (simp add: fresh_kernel_def demo_kernel_def demo_devices_def)
  have "names_harts demo_cpus [0, 1]"
    by (simp add: names_harts_def demo_cpus_def is_valid_cpu_def is_cpu_def starts_with_def hart_id_def parse_usize_def)
  then show "cpus_ok demo_env demo_cpus [0, 1]" by (simp add: cpus_ok_def demo_env_def demo_cpus_def)
  have "length (filter is_cpu (cs_children demo_cpus)) = 3" by (simp add: demo_cpus_def is_cpu_def starts_with_def)
  moreover have "alloc_apart (be_alloc_area demo_env) 0x80200000 0x80201000"
    by (auto simp: alloc_apart_def demo_env_def word_le_nat_alt split: if_splits)
  ultimately show "areas_ok demo_env demo_cpus (dv_heap (kn_devices demo_kernel))" by (simp add: areas_ok_def Let_def) (simp add: demo_env_def)
  have "plic_phandles demo_nodes \<noteq> {}" using demo_plic_phandles by blast
  then show "tree_fits 0x80210000 set 7 demo_env (dv_mem (kn_devices demo_kernel))"
    using demo_tree_ok demo_frames demo_kernel_end pool_frames
    by (simp add: tree_fits_def Let_def demo_env_def demo_kernel_def) (simp add: demo_platform_def)
qed

theorem primary_init_boots_witness:
  "\<exists>k1 pt t. init_vmm demo_env 0 (snd (run_inits [init_cpus demo_env, init_percpu demo_env, init_local_pointer demo_env 0, init_devices demo_env, init_irqs 0,
       init_bootargs demo_env, secondary_boot demo_env 0] demo_kernel)) = (Ok (), k1) \<and> kn_firmware k1 = [(1, 0x80200040, t)] \<and>
     registered (kn_devices k1) demo_serial (Dev_Uart 0xFFFFFFFF10000000) \<and> kn_page_table k1 = Some pt \<and>
     sv39 (km_cells (dv_mem (kn_devices k1))) (root_va pt) (to_virt (PhysAddr 0x80200040)) = Some (PhysAddr 0x80200040)"
proof -
  have s: "demo_serial \<in> set (be_nodes demo_env)" "device_of (be_platform demo_env) demo_serial = Some (Dev_Uart 0xFFFFFFFF10000000)"
    using demo_serial_device by (simp_all add: demo_env_def demo_nodes_def)
  have p: "PHYS_MEM_BASE \<le> 0x80200040 \<and> 0x80200040 < PHYS_MEM_LIMIT" by (simp add: addr_config_defs)
  from primary_init_boots [OF demo_machine, of "3 :: nat"] obtain k0 k1 pt tops where
    e: "run_inits [init_cpus demo_env, init_percpu demo_env, init_local_pointer demo_env 0, init_devices demo_env, init_irqs 0, init_bootargs demo_env,
        secondary_boot demo_env 0] demo_kernel = (Ok (), k0)" "init_vmm demo_env 0 k0 = (Ok (), k1)"
    and f: "kn_firmware k1 = kn_firmware demo_kernel @ map (\<lambda>(i, t). (i, pa_as_usize (to_phys (be_secondary_entry demo_env)), t)) (zip (filter (\<lambda>i. i \<noteq> 0) [0, 1]) tops)"
      "length tops = length (filter (\<lambda>i. i \<noteq> 0) [0, 1 :: usize])"
    and r: "\<forall>n\<in>set (be_nodes demo_env). \<forall>d. device_of (be_platform demo_env) n = Some d \<longrightarrow> registered (kn_devices k1) n d" "kn_page_table k1 = Some pt"
      "\<forall>p. PHYS_MEM_BASE \<le> p \<and> p < PHYS_MEM_LIMIT \<longrightarrow> sv39 (km_cells (dv_mem (kn_devices k1))) (root_va pt) (to_virt (PhysAddr p)) = Some (PhysAddr p)"
    by meson
  obtain t where "tops = [t]" using f(2) by (cases tops) auto
  then have "kn_firmware k1 = [(1, 0x80200040, t)]" using f(1) by (simp add: demo_kernel_def demo_env_def to_phys_def REMAP_MEM_OFFSET_def)
  moreover have "registered (kn_devices k1) demo_serial (Dev_Uart 0xFFFFFFFF10000000)" using r(1) s by blast
  ultimately show ?thesis using e r(2) r(3) [rule_format, OF p] by (intro exI [of _ k1] exI [of _ pt] exI [of _ t]) (simp del: run_inits.simps)
qed

end
