(* ===== verification/Xtask.thy ===== *)
theory Xtask
  imports Uprog Logging
begin

text \<open>
  The task runner of the repository, \<^verbatim>\<open>xtask/src\<close>: the commands that build the kernel and the user programs and that start
  the emulator. What is outside it is a parameter, \<open>host\<close>: running a command, the file system, the metadata of a
  workspace, the clock and the random seed. The process itself has an environment, which it changes and which the commands it
  runs inherit. Parsing the command line is done by the \<^verbatim>\<open>clap\<close> crate; the parsed arguments are the records below. File names are
  taken to be text.
\<close>

section \<open>Commands and the host\<close>

type_synonym env_vars = "string \<rightharpoonup> string"

text \<open>\<^verbatim>\<open>std::process::Command\<close>: program, arguments, working directory and variables set for it.\<close>

record command =
  cmd_program :: string
  cmd_args :: "string list"
  cmd_dir :: "string option"
  cmd_env :: env_vars

text \<open>\<open>ho_status\<close> is \<^verbatim>\<open>Command::status().ok()\<close> in the given environment: \<open>None\<close> when the command cannot be started. The file
  operations say whether they succeeded; \<open>ho_canonicalize\<close> gives the components of the absolute path, and \<open>ho_packages\<close> the
  names and the manifest directories of the packages of a workspace.\<close>

record 'w host =
  ho_cargo :: string
  ho_status :: "command \<Rightarrow> env_vars \<Rightarrow> 'w \<Rightarrow> nat option \<times> 'w"
  ho_current_dir :: "string option"
  ho_now :: string
  ho_seed :: nat
  ho_exists :: "string \<Rightarrow> 'w \<Rightarrow> bool"
  ho_write :: "string \<Rightarrow> string \<Rightarrow> 'w \<Rightarrow> bool \<times> 'w"
  ho_canonicalize :: "string \<Rightarrow> 'w \<Rightarrow> string list option"
  ho_remove_dir_all :: "string \<Rightarrow> 'w \<Rightarrow> bool \<times> 'w"
  ho_create_dir_all :: "string \<Rightarrow> 'w \<Rightarrow> bool \<times> 'w"
  ho_copy :: "string \<Rightarrow> string \<Rightarrow> 'w \<Rightarrow> bool \<times> 'w"
  ho_packages :: "string \<Rightarrow> 'w \<Rightarrow> (string \<times> string) list option"

record 'w process =
  pr_env :: env_vars
  pr_world :: 'w

definition cmd_new :: "string \<Rightarrow> command" where
  "cmd_new program = \<lparr>cmd_program = program, cmd_args = [], cmd_dir = None, cmd_env = Map.empty\<rparr>"

definition cmd_add :: "string list \<Rightarrow> command \<Rightarrow> command" where
  "cmd_add xs c = c\<lparr>cmd_args := cmd_args c @ xs\<rparr>"

definition cmd_status :: "'w host \<Rightarrow> command \<Rightarrow> 'w process \<Rightarrow> nat option \<times> 'w process" where
  "cmd_status H c p = (case ho_status H c (pr_env p) (pr_world p) of (r, w) \<Rightarrow> (r, p\<lparr>pr_world := w\<rparr>))"

text \<open>\<^verbatim>\<open>Path::join\<close>: an absolute second path replaces the first.\<close>

definition path_join :: "string \<Rightarrow> string \<Rightarrow> string" where
  "path_join d x = (if x \<noteq> [] \<and> hd x = CHR ''/'' then x else if d = [] \<or> last d = CHR ''/'' then d @ x else d @ ''/'' @ x)"

definition absolute :: "string list \<Rightarrow> string" where
  "absolute components = ''/'' @ path_str components"

fun comma_join :: "string list \<Rightarrow> string" where
  "comma_join [] = []"
| "comma_join [x] = x"
| "comma_join (x # y # xs) = x @ '','' @ comma_join (y # xs)"

text \<open>\<^verbatim>\<open>CmdOptional::optional\<close>.\<close>

definition cmd_optional :: "bool \<Rightarrow> (command \<Rightarrow> command) \<Rightarrow> command \<Rightarrow> command" where
  "cmd_optional pred f c = (if pred then f c else c)"

section \<open>Architectures\<close>

datatype Arch = RISCV32 | RISCV64

definition arch_from_str :: "string \<Rightarrow> Arch option" where
  "arch_from_str s = (if s = ''riscv32'' then Some RISCV32 else if s = ''riscv64'' then Some RISCV64 else None)"

definition arch_to_string :: "Arch \<Rightarrow> string" where
  "arch_to_string a = (case a of RISCV32 \<Rightarrow> ''riscv32'' | RISCV64 \<Rightarrow> ''riscv64'')"

definition arch_triple :: "Arch \<Rightarrow> string" where
  "arch_triple a = (case a of RISCV32 \<Rightarrow> ''riscv32imac-unknown-none-elf'' | RISCV64 \<Rightarrow> ''riscv64gc-unknown-none-elf'')"

section \<open>Cargo and the emulator\<close>

definition cargo_new :: "'w host \<Rightarrow> string \<Rightarrow> command" where
  "cargo_new H action = cmd_add [action] (cmd_new (ho_cargo H))"

definition cargo_package :: "string \<Rightarrow> command \<Rightarrow> command" where
  "cargo_package package = cmd_add [''--package'', package]"

definition cargo_work_dir :: "string \<Rightarrow> command \<Rightarrow> command" where
  "cargo_work_dir dir c = c\<lparr>cmd_dir := Some dir\<rparr>"

definition cargo_release :: "command \<Rightarrow> command" where
  "cargo_release = cmd_add [''--release'']"

definition cargo_target :: "string \<Rightarrow> command \<Rightarrow> command" where
  "cargo_target triple = cmd_add [''--target'', triple]"

definition cargo_features :: "string list \<Rightarrow> command \<Rightarrow> command" where
  "cargo_features features = cmd_add [''--features'', comma_join features]"

definition cargo_no_default_features :: "command \<Rightarrow> command" where
  "cargo_no_default_features = cmd_add [''--no-default-features'']"

definition cargo_unstable :: "string \<Rightarrow> string list \<Rightarrow> command \<Rightarrow> command" where
  "cargo_unstable key values = cmd_add [''-Z'' @ key @ ''='' @ comma_join values]"

definition cargo_env :: "string \<Rightarrow> string \<Rightarrow> command \<Rightarrow> command" where
  "cargo_env key value c = c\<lparr>cmd_env := (cmd_env c)(key \<mapsto> value)\<rparr>"

definition qemu_new :: "string \<Rightarrow> command" where
  "qemu_new arch = cmd_new (''qemu-system-'' @ arch)"

definition qemu_kernel :: "string \<Rightarrow> command \<Rightarrow> command" where
  "qemu_kernel path = cmd_add [''-kernel'', path]"

definition qemu_machine :: "string \<Rightarrow> command \<Rightarrow> command" where
  "qemu_machine machine = cmd_add [''-M'', machine]"

definition qemu_smp :: "nat \<Rightarrow> command \<Rightarrow> command" where
  "qemu_smp num = cmd_add [''-smp'', dec num]"

definition qemu_memory :: "string \<Rightarrow> command \<Rightarrow> command" where
  "qemu_memory sz = cmd_add [''-m'', sz]"

definition qemu_bootargs :: "string \<Rightarrow> command \<Rightarrow> command" where
  "qemu_bootargs bootargs = cmd_add [''-append'', bootargs]"

definition qemu_gdb_server :: "command \<Rightarrow> command" where
  "qemu_gdb_server = cmd_add [''-s'', ''-S'']"

definition qemu_no_graphic :: "command \<Rightarrow> command" where
  "qemu_no_graphic = cmd_add [''-nographic'']"

definition qemu_no_reboot :: "command \<Rightarrow> command" where
  "qemu_no_reboot = cmd_add [''-no-reboot'']"

section \<open>The environment\<close>

record MakeArg =
  ma_debug :: bool
  ma_arch :: Arch
  ma_log_level :: "string option"
  ma_uprog :: string
  ma_feat :: "string list"
  ma_no_default_feat :: bool
  ma_always_make :: bool

text \<open>\<^verbatim>\<open>export_env!\<close> sets a variable unless it has a value.\<close>

definition export_env :: "string \<Rightarrow> string \<Rightarrow> env_vars \<Rightarrow> env_vars" where
  "export_env k v env = (if env k = None then env(k \<mapsto> v) else env)"

text \<open>\<^verbatim>\<open>envs::setup\<close>: the value of \<^verbatim>\<open>UPROG_PATH\<close> is only computed when it is needed.\<close>

definition envs_setup :: "'w host \<Rightarrow> MakeArg \<Rightarrow> env_vars \<Rightarrow> env_vars res" where
  "envs_setup H arg env0 =
     (let env = export_env ''ARCH'' (arch_to_string (ma_arch arg)) env0
      in bind_res (if env ''UPROG_PATH'' = None
                   then bind_res (unwrap_opt (ho_current_dir H)) (\<lambda>d. Ok (env(''UPROG_PATH'' \<mapsto> path_join d ''uprog.jrz'')))
                   else Ok env)
           (\<lambda>env. Ok (export_env ''RAND_SEED'' (dec (ho_seed H))
                      (export_env ''BUILD_TIME'' (ho_now H)
                       (export_env ''BUILD_MODE'' (if ma_debug arg then ''debug'' else ''release'') env)))))"

section \<open>make\<close>

definition build_mode :: "'w process \<Rightarrow> string res" where
  "build_mode p = unwrap_opt (pr_env p ''BUILD_MODE'')"

text \<open>The file \<open>name\<close> in the directory of build results.\<close>

definition built_file :: "'w host \<Rightarrow> Arch \<Rightarrow> string \<Rightarrow> 'w process \<Rightarrow> string res" where
  "built_file H arch name p = bind_res (unwrap_opt (ho_current_dir H)) (\<lambda>d. bind_res (build_mode p) (\<lambda>mode.
     Ok (path_join (path_join (path_join (path_join d ''target'') (arch_to_string arch)) mode) name)))"

definition make_kernel :: "'w host \<Rightarrow> command \<Rightarrow> MakeArg \<Rightarrow> 'w process \<Rightarrow> command res" where
  "make_kernel H cmd arg p =
     bind_res (unwrap_opt (ho_current_dir H)) (\<lambda>d.
     bind_res (unwrap_opt (ho_canonicalize H (path_join (path_join (path_join d ''kern'') ''tgt'') (arch_to_string (ma_arch arg) @ ''.json'')) (pr_world p))) (\<lambda>json.
     Ok (cmd_optional (ma_log_level arg \<noteq> None) (cargo_env ''LOGLEVEL'' (the (ma_log_level arg)))
        (cmd_optional (pr_env p ''BUILD_MODE'' \<noteq> Some ''debug'') cargo_release
        (cmd_optional (ma_no_default_feat arg) cargo_no_default_features
        (cargo_unstable ''build-std-features'' [''compiler-builtins-mem'']
        (cargo_unstable ''build-std'' [''alloc'', ''core'', ''compiler_builtins'']
        (cargo_features (ma_feat arg)
        (cargo_target (absolute json) (cargo_package ''jrinx'' cmd))))))))))"

definition objcopy :: "'w host \<Rightarrow> Arch \<Rightarrow> 'w process \<Rightarrow> command res" where
  "objcopy H arch p = bind_res (built_file H arch ''jrinx'' p) (\<lambda>elf. bind_res (built_file H arch ''jrinx.bin'' p) (\<lambda>bin.
     Ok (cmd_add [''-O'', ''binary'', ''--binary-architecture='' @ arch_to_string arch, elf, bin] (cmd_new ''rust-objcopy''))))"

text \<open>Running a command that the rest depends on: not being able to start it, and a status other than 0, end the task without a
  status.\<close>

definition need_success :: "'w host \<Rightarrow> command \<Rightarrow> 'w process \<Rightarrow> ('w process \<Rightarrow> nat option res \<times> 'w process) \<Rightarrow> nat option res \<times> 'w process" where
  "need_success H c p rest = (case cmd_status H c p of (r, p') \<Rightarrow> if r = Some 0 then rest p' else (Ok None, p'))"

definition make_build :: "'w host \<Rightarrow> MakeArg \<Rightarrow> 'w process \<Rightarrow> nat option res \<times> 'w process" where
  "make_build H arg p = (case make_kernel H (cargo_new H ''build'') arg p of
     Inl e \<Rightarrow> (Inl e, p)
   | Inr cmd \<Rightarrow> need_success H cmd p (\<lambda>p. case objcopy H (ma_arch arg) p of
         Inl e \<Rightarrow> (Inl e, p)
       | Inr c \<Rightarrow> (case cmd_status H c p of (r, p') \<Rightarrow> (Ok r, p'))))"

definition make_run :: "'w host \<Rightarrow> MakeArg \<Rightarrow> 'w process \<Rightarrow> nat option res \<times> 'w process" where
  "make_run H arg p = (case envs_setup H arg (pr_env p) of
     Inl e \<Rightarrow> (Inl e, p)
   | Inr env \<Rightarrow>
      (let p = p\<lparr>pr_env := env\<rparr>
       in if ma_always_make arg then need_success H (cargo_new H ''clean'') p (make_build H arg) else make_build H arg p))"

section \<open>lint\<close>

definition lint_run :: "'w host \<Rightarrow> MakeArg \<Rightarrow> 'w process \<Rightarrow> nat option res \<times> 'w process" where
  "lint_run H arg p = (case envs_setup H arg (pr_env p) of
     Inl e \<Rightarrow> (Inl e, p)
   | Inr env \<Rightarrow>
      (let p = p\<lparr>pr_env := env\<rparr>
       in case unwrap_opt (pr_env p ''UPROG_PATH'') of
            Inl e \<Rightarrow> (Inl e, p)
          | Inr uprog_path \<Rightarrow>
             (case (if ho_exists H uprog_path (pr_world p) then (True, pr_world p)
                    else ho_write H uprog_path ''MOCK UPROG BINARY'' (pr_world p)) of (written, w) \<Rightarrow>
               (let p = p\<lparr>pr_world := w\<rparr>
                in if \<not> written then (Panicked, p)
                   else case make_kernel H (cargo_new H ''clippy'') arg p of
                     Inl e \<Rightarrow> (Inl e, p)
                   | Inr cmd \<Rightarrow> (case cmd_status H (cmd_add [''--'', ''-Dwarnings''] cmd) p of (r, p') \<Rightarrow> (Ok r, p'))))))"

section \<open>qemu\<close>

record QemuArg =
  qa_machine :: string
  qa_gdb :: bool
  qa_smp :: u32
  qa_memory :: string
  qa_bootargs :: "string option"
  qa_no_build :: bool
  qa_make_arg :: MakeArg

definition emulator :: "'w host \<Rightarrow> QemuArg \<Rightarrow> 'w process \<Rightarrow> command res" where
  "emulator H arg p = (let arch = ma_arch (qa_make_arg arg)
     in bind_res (built_file H arch ''jrinx.bin'' p) (\<lambda>bin.
        Ok (cmd_add [''-device'', ''virtio-net-device,netdev=net0'', ''-netdev'',
              ''user,id=net0,hostfwd=tcp::5555-:5555,hostfwd=udp::5555-:5555'', ''-object'', ''filter-dump,id=f1,netdev=net0,file=dump.dat'']
           (cmd_optional (qa_gdb arg) qemu_gdb_server
           (cmd_optional (qa_bootargs arg \<noteq> None) (qemu_bootargs (the (qa_bootargs arg)))
           (qemu_no_reboot (qemu_no_graphic (qemu_smp (unat (qa_smp arg)) (qemu_memory (qa_memory arg)
           (qemu_machine (qa_machine arg) (qemu_kernel bin (qemu_new (arch_to_string arch)))))))))))))"

definition qemu_run :: "'w host \<Rightarrow> QemuArg \<Rightarrow> 'w process \<Rightarrow> nat option res \<times> 'w process" where
  "qemu_run H arg p =
     (let start = (\<lambda>p. case emulator H arg p of
              Inl e \<Rightarrow> (Inl e, p)
            | Inr c \<Rightarrow> (case cmd_status H c p of (r, p') \<Rightarrow> (Ok r, p')))
      in if qa_no_build arg then start p
         else case make_run H (qa_make_arg arg) p of
            (Inl e, p') \<Rightarrow> (Inl e, p')
          | (Inr r, p') \<Rightarrow> if r = Some 0 then start p' else (Ok None, p'))"

section \<open>uprog\<close>

record UprogArg =
  ua_path :: string
  ua_dest :: string
  ua_debug :: bool
  ua_keep_symbols :: bool
  ua_arch :: Arch
  ua_always_make :: bool

definition uprog_mode :: "UprogArg \<Rightarrow> string" where
  "uprog_mode arg = (if ua_debug arg then ''debug'' else ''release'')"

definition dest_arch_dir :: "UprogArg \<Rightarrow> string" where
  "dest_arch_dir arg = path_join (ua_dest arg) (arch_to_string (ua_arch arg))"

definition dest_dir :: "UprogArg \<Rightarrow> string" where
  "dest_dir arg = path_join (dest_arch_dir arg) (uprog_mode arg)"

definition bin_file :: "UprogArg \<Rightarrow> string \<Rightarrow> string" where
  "bin_file arg name = path_join (path_join (path_join (path_join (ua_path arg) ''target'') (arch_triple (ua_arch arg))) (uprog_mode arg)) name"

text \<open>The place of a program below the destination, as the components of its directory below \<^verbatim>\<open>programs\<close>.\<close>

definition prog_slug :: "'w host \<Rightarrow> UprogArg \<Rightarrow> string \<Rightarrow> 'w \<Rightarrow> string list res" where
  "prog_slug H arg manifest_dir w =
     bind_res (unwrap_opt (ho_canonicalize H manifest_dir w)) (\<lambda>dir.
     bind_res (unwrap_opt (ho_canonicalize H (path_join (ua_path arg) ''programs'') w)) (\<lambda>programs.
     unwrap_opt (strip_prefix programs dir)))"

text \<open>\<^verbatim>\<open>slug\<close>, and its parent directory: a program at the top of \<^verbatim>\<open>programs\<close> itself has the destination for its name.\<close>

definition slug_file :: "UprogArg \<Rightarrow> string list \<Rightarrow> string" where
  "slug_file arg slug = path_join (dest_dir arg) (path_str slug)"

definition slug_parent :: "UprogArg \<Rightarrow> string list \<Rightarrow> string" where
  "slug_parent arg slug = (if slug = [] then dest_arch_dir arg
     else if butlast slug = [] then dest_dir arg else path_join (dest_dir arg) (path_str (butlast slug)))"

text \<open>One program: find its place, strip the binary unless the symbols are kept, and copy it.\<close>

definition copy_prog :: "'w host \<Rightarrow> UprogArg \<Rightarrow> string list \<Rightarrow> string \<Rightarrow> 'w process \<Rightarrow> unit res \<times> 'w process" where
  "copy_prog H arg slug bin p = (case ho_create_dir_all H (slug_parent arg slug) (pr_world p) of (created, w) \<Rightarrow>
     if \<not> created then (Panicked, p\<lparr>pr_world := w\<rparr>)
     else case ho_copy H bin (slug_file arg slug) w of (copied, w') \<Rightarrow>
       ((if copied then Ok () else Panicked), p\<lparr>pr_world := w'\<rparr>))"

fun uprog_loop :: "'w host \<Rightarrow> UprogArg \<Rightarrow> (string \<times> string) list \<Rightarrow> 'w process \<Rightarrow> nat option res \<times> 'w process" where
  "uprog_loop H arg [] p = (Ok (Some 0), p)"
| "uprog_loop H arg ((name, manifest_dir) # progs) p =
     (case prog_slug H arg manifest_dir (pr_world p) of
        Inl e \<Rightarrow> (Inl e, p)
      | Inr slug \<Rightarrow>
          (let bin = bin_file arg name;
               copy = (\<lambda>p. case copy_prog H arg slug bin p of
                  (Inl e, p') \<Rightarrow> (Inl e, p') | (Inr _, p') \<Rightarrow> uprog_loop H arg progs p')
           in if ua_keep_symbols arg then copy p
              else case cmd_status H (cmd_add [bin] (cmd_new ''rust-strip'')) p of
                 (None, p') \<Rightarrow> (Panicked, p')
               | (Some c, p') \<Rightarrow> if c = 0 then copy p' else (Ok None, p')))"

definition uprog_install :: "'w host \<Rightarrow> UprogArg \<Rightarrow> 'w process \<Rightarrow> nat option res \<times> 'w process" where
  "uprog_install H arg p = (case ho_create_dir_all H (dest_dir arg) (pr_world p) of (created, w) \<Rightarrow>
     (let p = p\<lparr>pr_world := w\<rparr>
      in if \<not> created then (Panicked, p)
         else case unwrap_opt (ho_packages H (path_join (ua_path arg) ''Cargo.toml'') w) of
           Inl e \<Rightarrow> (Inl e, p) | Inr progs \<Rightarrow> uprog_loop H arg progs p))"

definition uprog_build :: "'w host \<Rightarrow> UprogArg \<Rightarrow> 'w process \<Rightarrow> nat option res \<times> 'w process" where
  "uprog_build H arg p = need_success H
     (cmd_optional (\<not> ua_debug arg) cargo_release (cargo_target (arch_triple (ua_arch arg)) (cargo_work_dir (ua_path arg) (cargo_new H ''build'')))) p
     (uprog_install H arg)"

definition uprog_run :: "'w host \<Rightarrow> UprogArg \<Rightarrow> 'w process \<Rightarrow> nat option res \<times> 'w process" where
  "uprog_run H arg p =
     (if ua_always_make arg
      then need_success H (cargo_work_dir (ua_path arg) (cargo_new H ''clean'')) p (\<lambda>p.
        if ho_exists H (ua_dest arg) (pr_world p)
        then (case ho_remove_dir_all H (ua_dest arg) (pr_world p) of (removed, w) \<Rightarrow>
          if removed then uprog_build H arg (p\<lparr>pr_world := w\<rparr>) else (Ok None, p\<lparr>pr_world := w\<rparr>))
        else uprog_build H arg p)
      else uprog_build H arg p)"

section \<open>The task runner\<close>

text \<open>\<^verbatim>\<open>ar\<close> is modelled in \<open>Uprog\<close> on directories; here it is a task given as an argument.\<close>

datatype xtask_cmd = Cmd_Make MakeArg | Cmd_Lint MakeArg | Cmd_Qemu QemuArg | Cmd_Uprog UprogArg | Cmd_Ar "string \<times> string"

definition xtask_main :: "'w host \<Rightarrow> (string \<times> string \<Rightarrow> 'w process \<Rightarrow> nat option res \<times> 'w process) \<Rightarrow> xtask_cmd \<Rightarrow> 'w process \<Rightarrow> bool res \<times> 'w process" where
  "xtask_main H ar c p = (case (case c of
       Cmd_Make arg \<Rightarrow> make_run H arg p
     | Cmd_Lint arg \<Rightarrow> lint_run H arg p
     | Cmd_Qemu arg \<Rightarrow> qemu_run H arg p
     | Cmd_Uprog arg \<Rightarrow> uprog_run H arg p
     | Cmd_Ar arg \<Rightarrow> ar arg p) of
     (Inl e, p') \<Rightarrow> (Inl e, p') | (Inr r, p') \<Rightarrow> (Ok (r = Some 0), p'))"

section \<open>What a task does\<close>

text \<open>The same host with a record of the commands that were run, each with its status, and of the files that were copied.\<close>

datatype event = Ev_Run command "nat option" | Ev_Copy string string bool

definition recording :: "'w host \<Rightarrow> ('w \<times> event list) host" where
  "recording H = \<lparr>ho_cargo = ho_cargo H,
     ho_status = (\<lambda>c env (w, l). case ho_status H c env w of (r, w') \<Rightarrow> (r, w', l @ [Ev_Run c r])),
     ho_current_dir = ho_current_dir H, ho_now = ho_now H, ho_seed = ho_seed H,
     ho_exists = (\<lambda>f (w, l). ho_exists H f w),
     ho_write = (\<lambda>f x (w, l). case ho_write H f x w of (b, w') \<Rightarrow> (b, w', l)),
     ho_canonicalize = (\<lambda>f (w, l). ho_canonicalize H f w),
     ho_remove_dir_all = (\<lambda>f (w, l). case ho_remove_dir_all H f w of (b, w') \<Rightarrow> (b, w', l)),
     ho_create_dir_all = (\<lambda>f (w, l). case ho_create_dir_all H f w of (b, w') \<Rightarrow> (b, w', l)),
     ho_copy = (\<lambda>f t (w, l). case ho_copy H f t w of (b, w') \<Rightarrow> (b, w', l @ [Ev_Copy f t b])),
     ho_packages = (\<lambda>f (w, l). ho_packages H f w)\<rparr>"

lemma recording_fields [simp]:
  "ho_cargo (recording H) = ho_cargo H" "ho_current_dir (recording H) = ho_current_dir H"
  "ho_now (recording H) = ho_now H" "ho_seed (recording H) = ho_seed H"
  "ho_canonicalize (recording H) f x = ho_canonicalize H f (fst x)" "ho_packages (recording H) f x = ho_packages H f (fst x)"
  "ho_exists (recording H) f x = ho_exists H f (fst x)"
  by (simp_all add: recording_def case_prod_beta)

abbreviation recorded :: "('w \<times> event list) process \<Rightarrow> event list" where
  "recorded p \<equiv> snd (pr_world p)"

lemma status_recorded:
  "\<exists>r p'. cmd_status (recording H) c p = (r, p') \<and> pr_env p' = pr_env p \<and> recorded p' = recorded p @ [Ev_Run c r]"
proof -
  obtain w l where w: "pr_world p = (w, l)" by (cases "pr_world p")
  show ?thesis by (cases "ho_status H c (pr_env p) w") (simp add: cmd_status_def recording_def w)
qed

text \<open>The environment that a task sets up.\<close>

lemma export_env_get: "export_env k v env j = (if j = k then Some (case env k of None \<Rightarrow> v | Some x \<Rightarrow> x) else env j)"
  by (simp add: export_env_def split: option.split)

lemma export_env_keeps: "env k = Some v \<Longrightarrow> export_env j x env k = Some v"
  by (auto simp: export_env_def)

lemma envs_setup_ok:
  assumes "ho_current_dir H = Some d"
  shows "\<exists>env. envs_setup H arg env0 = Ok env \<and>
    env ''BUILD_MODE'' = Some (case env0 ''BUILD_MODE'' of None \<Rightarrow> if ma_debug arg then ''debug'' else ''release'' | Some m \<Rightarrow> m) \<and>
    (\<forall>k v. env0 k = Some v \<longrightarrow> env k = Some v) \<and> (\<forall>k\<in>{''ARCH'', ''UPROG_PATH'', ''BUILD_MODE'', ''BUILD_TIME'', ''RAND_SEED''}. env k \<noteq> None)"
proof -
  let ?m = "if ma_debug arg then ''debug'' else ''release''"
  let ?env = "export_env ''RAND_SEED'' (dec (ho_seed H)) (export_env ''BUILD_TIME'' (ho_now H) (export_env ''BUILD_MODE'' ?m
    (export_env ''UPROG_PATH'' (path_join d ''uprog.jrz'') (export_env ''ARCH'' (arch_to_string (ma_arch arg)) env0))))"
  have "envs_setup H arg env0 = Ok ?env"
    using assms by (simp add: envs_setup_def Let_def export_env_def [of "''UPROG_PATH''"])
  moreover have "?env ''BUILD_MODE'' = Some (case env0 ''BUILD_MODE'' of None \<Rightarrow> ?m | Some m \<Rightarrow> m)"
    unfolding export_env_get by simp
  moreover have "?env k = Some v" if "env0 k = Some v" for k v
    using that by (simp add: export_env_keeps)
  moreover have "?env k \<noteq> None" if "k \<in> {''ARCH'', ''UPROG_PATH'', ''BUILD_MODE'', ''BUILD_TIME'', ''RAND_SEED''}" for k
    using that unfolding export_env_get by auto
  ultimately show ?thesis by blast
qed

text \<open>The commands of \<^verbatim>\<open>make\<close> in the environment \<open>env\<close>, with the results in \<open>dir\<close>.\<close>

definition build_cmd :: "'w host \<Rightarrow> string \<Rightarrow> MakeArg \<Rightarrow> env_vars \<Rightarrow> string list \<Rightarrow> command" where
  "build_cmd H action arg env json =
     cmd_optional (ma_log_level arg \<noteq> None) (cargo_env ''LOGLEVEL'' (the (ma_log_level arg)))
       (cmd_optional (env ''BUILD_MODE'' \<noteq> Some ''debug'') cargo_release
       (cmd_optional (ma_no_default_feat arg) cargo_no_default_features
       (cargo_unstable ''build-std-features'' [''compiler-builtins-mem'']
       (cargo_unstable ''build-std'' [''alloc'', ''core'', ''compiler_builtins'']
       (cargo_features (ma_feat arg) (cargo_target (absolute json) (cargo_package ''jrinx'' (cargo_new H action))))))))"

definition result_file :: "string \<Rightarrow> Arch \<Rightarrow> string \<Rightarrow> string \<Rightarrow> string" where
  "result_file d arch mode name = path_join (path_join (path_join (path_join d ''target'') (arch_to_string arch)) mode) name"

definition copy_cmd :: "string \<Rightarrow> Arch \<Rightarrow> string \<Rightarrow> command" where
  "copy_cmd d arch mode = cmd_add [''-O'', ''binary'', ''--binary-architecture='' @ arch_to_string arch,
     result_file d arch mode ''jrinx'', result_file d arch mode ''jrinx.bin''] (cmd_new ''rust-objcopy'')"

definition json_file :: "string \<Rightarrow> Arch \<Rightarrow> string" where
  "json_file d arch = path_join (path_join (path_join d ''kern'') ''tgt'') (arch_to_string arch @ ''.json'')"

lemma make_kernel_eq:
  assumes "ho_current_dir H = Some d" "ho_canonicalize H (json_file d (ma_arch arg)) (pr_world p) = Some json"
  shows "make_kernel H (cargo_new H action) arg p = Ok (build_cmd H action arg (pr_env p) json)"
  using assms by (simp add: make_kernel_def build_cmd_def json_file_def)

lemma objcopy_eq:
  assumes "ho_current_dir H = Some d" "pr_env p ''BUILD_MODE'' = Some mode"
  shows "objcopy H arch p = Ok (copy_cmd d arch mode)"
  using assms by (simp add: objcopy_def built_file_def build_mode_def copy_cmd_def result_file_def)

text \<open>Running a list of commands: each but the last has to succeed for the next to be started, the status is that of the last one.\<close>

fun run_commands :: "'w host \<Rightarrow> command list \<Rightarrow> 'w process \<Rightarrow> nat option \<times> 'w process" where
  "run_commands H [] p = (None, p)"
| "run_commands H [c] p = cmd_status H c p"
| "run_commands H (c # c' # cs) p = (case cmd_status H c p of (r, p') \<Rightarrow> if r = Some 0 then run_commands H (c' # cs) p' else (None, p'))"

lemma cmd_status_env: "cmd_status H c p = (r, p') \<Longrightarrow> pr_env p' = pr_env p"
  by (auto simp: cmd_status_def split: prod.splits)

text \<open>The commands of \<^verbatim>\<open>make\<close>, and that \<^verbatim>\<open>make\<close> runs them.\<close>

definition clean_cmds :: "'w host \<Rightarrow> MakeArg \<Rightarrow> command list" where
  "clean_cmds H arg = (if ma_always_make arg then [cargo_new H ''clean''] else [])"

lemma make_build_runs:
  assumes d: "ho_current_dir H = Some d" and json: "\<forall>w. ho_canonicalize H (json_file d (ma_arch arg)) w = Some json"
    and mode: "pr_env p ''BUILD_MODE'' = Some mode"
  shows "make_build H arg p = (case run_commands H [build_cmd H ''build'' arg (pr_env p) json, copy_cmd d (ma_arch arg) mode] p of (r, p') \<Rightarrow> (Ok r, p'))"
proof -
  have j: "ho_canonicalize H (json_file d (ma_arch arg)) (pr_world p) = Some json" using json by blast
  obtain x p1 where p1: "cmd_status H (build_cmd H ''build'' arg (pr_env p) json) p = (x, p1)"
    by (cases "cmd_status H (build_cmd H ''build'' arg (pr_env p) json) p")
  have "objcopy H (ma_arch arg) p1 = Ok (copy_cmd d (ma_arch arg) mode)" using objcopy_eq [OF d] cmd_status_env [OF p1] mode by simp
  then show ?thesis by (simp add: make_build_def make_kernel_eq [OF d j] need_success_def p1)
qed

lemma make_runs:
  assumes d: "ho_current_dir H = Some d" and json: "\<forall>w. ho_canonicalize H (json_file d (ma_arch arg)) w = Some json"
    and env: "envs_setup H arg (pr_env p) = Ok env" "env ''BUILD_MODE'' = Some mode"
  shows "make_run H arg p = (case run_commands H (clean_cmds H arg @ [build_cmd H ''build'' arg env json, copy_cmd d (ma_arch arg) mode]) (p\<lparr>pr_env := env\<rparr>)
    of (r, p') \<Rightarrow> (Ok r, p'))"
proof (cases "ma_always_make arg")
  case False
  then show ?thesis using make_build_runs [OF d json, of "p\<lparr>pr_env := env\<rparr>" mode] env by (simp add: make_run_def clean_cmds_def Let_def)
next
  case True
  obtain x p1 where p1: "cmd_status H (cargo_new H ''clean'') (p\<lparr>pr_env := env\<rparr>) = (x, p1)"
    by (cases "cmd_status H (cargo_new H ''clean'') (p\<lparr>pr_env := env\<rparr>)")
  have e: "pr_env p1 = env" using cmd_status_env [OF p1] by simp
  then show ?thesis using make_build_runs [OF d json, of p1 mode] env True
    by (simp add: make_run_def clean_cmds_def Let_def need_success_def p1)
qed

text \<open>A command after the others: it is started exactly when they all succeeded.\<close>

lemma run_commands_snoc:
  assumes "cs \<noteq> []"
  shows "run_commands H (cs @ [c]) p = (case run_commands H cs p of (r, p') \<Rightarrow> if r = Some 0 then cmd_status H c p' else (None, p'))"
  using assms by (induction H cs p rule: run_commands.induct) (auto split: prod.split)

lemma run_commands_env: "run_commands H cs p = (r, p') \<Longrightarrow> pr_env p' = pr_env p"
  by (induction H cs p arbitrary: r p' rule: run_commands.induct) (auto dest: cmd_status_env split: prod.splits if_splits)

text \<open>The emulator's command for the kernel in the file \<open>bin\<close>.\<close>

definition emulator_cmd :: "QemuArg \<Rightarrow> string \<Rightarrow> command" where
  "emulator_cmd arg bin = \<lparr>cmd_program = ''qemu-system-'' @ arch_to_string (ma_arch (qa_make_arg arg)),
     cmd_args = [''-kernel'', bin, ''-M'', qa_machine arg, ''-m'', qa_memory arg, ''-smp'', dec (unat (qa_smp arg)), ''-nographic'', ''-no-reboot''] @
       (case qa_bootargs arg of None \<Rightarrow> [] | Some b \<Rightarrow> [''-append'', b]) @ (if qa_gdb arg then [''-s'', ''-S''] else []) @
       [''-device'', ''virtio-net-device,netdev=net0'', ''-netdev'', ''user,id=net0,hostfwd=tcp::5555-:5555,hostfwd=udp::5555-:5555'',
        ''-object'', ''filter-dump,id=f1,netdev=net0,file=dump.dat''],
     cmd_dir = None, cmd_env = Map.empty\<rparr>"

lemma emulator_eq:
  assumes "ho_current_dir H = Some d" "pr_env p ''BUILD_MODE'' = Some mode"
  shows "emulator H arg p = Ok (emulator_cmd arg (result_file d (ma_arch (qa_make_arg arg)) mode ''jrinx.bin''))"
  using assms by (cases "qa_gdb arg"; cases "qa_bootargs arg"; simp add: emulator_def Let_def built_file_def build_mode_def result_file_def cmd_add_def cmd_new_def cmd_optional_def
    qemu_gdb_server_def qemu_bootargs_def qemu_no_reboot_def qemu_no_graphic_def qemu_smp_def qemu_memory_def qemu_machine_def qemu_kernel_def qemu_new_def emulator_cmd_def)

lemma build_cmd_args:
  assumes "env ''BUILD_MODE'' = Some mode"
  shows "\<exists>mid. cmd_args (build_cmd H action arg env json) =
    [action, ''--package'', ''jrinx'', ''--target'', absolute json] @ mid @ (if mode = ''debug'' then [] else [''--release''])"
  using assms by (auto simp: build_cmd_def cmd_optional_def cargo_env_def cargo_release_def cargo_no_default_features_def cmd_add_def
    cargo_new_def cargo_package_def cargo_target_def cargo_features_def cargo_unstable_def cmd_new_def)

lemma build_cmd_program: "cmd_program (build_cmd H action arg env json) = ho_cargo H"
  by (simp add: build_cmd_def cmd_optional_def cargo_env_def cargo_release_def cargo_no_default_features_def cmd_add_def
    cargo_new_def cargo_package_def cargo_target_def cargo_features_def cargo_unstable_def cmd_new_def)

section \<open>Properties\<close>

text \<open>
  C38. The emulator runs what was just built. In a directory with the target description, on any host, \<^verbatim>\<open>qemu\<close> (with a build) does not
  panic: after setting up the environment it is exactly the run of a list of commands, each started when and only when the one
  before it succeeded, and its status is that of the last. The commands are cargo's clean (when everything is to be made
  again), cargo's build of the package \<^verbatim>\<open>jrinx\<close> for the target description, the conversion of the built kernel to a binary, and the
  emulator. The kernel that the emulator is given is the file that the conversion writes, whose input is in the directory of the
  build mode; and unless \<^verbatim>\<open>BUILD_MODE\<close> was set to something else than \<^verbatim>\<open>debug\<close> or \<^verbatim>\<open>release\<close> beforehand, that mode is the profile that
  cargo was told to build.
\<close>

theorem qemu_boots_built_kernel:
  assumes d: "ho_current_dir H = Some d" and json: "\<forall>w. ho_canonicalize H (json_file d arch) w = Some json"
    and arg: "\<not> qa_no_build arg" "ma_arch (qa_make_arg arg) = arch"
    and mode: "pr_env p ''BUILD_MODE'' \<in> {None, Some ''debug'', Some ''release''}"
  shows "\<exists>env mode build copy mid. envs_setup H (qa_make_arg arg) (pr_env p) = Ok env \<and> env ''BUILD_MODE'' = Some mode \<and>
    qemu_run H arg p = (case run_commands H (clean_cmds H (qa_make_arg arg) @ [build, copy, emulator_cmd arg (result_file d arch mode ''jrinx.bin'')])
      (p\<lparr>pr_env := env\<rparr>) of (r, p') \<Rightarrow> (Ok r, p')) \<and>
    cmd_program copy = ''rust-objcopy'' \<and>
    cmd_args copy = [''-O'', ''binary'', ''--binary-architecture='' @ arch_to_string arch, result_file d arch mode ''jrinx'', result_file d arch mode ''jrinx.bin''] \<and>
    mode \<in> {''debug'', ''release''} \<and> cmd_program build = ho_cargo H \<and>
    cmd_args build = [''build'', ''--package'', ''jrinx'', ''--target'', absolute json] @ mid @ (if mode = ''release'' then [''--release''] else [])"
proof -
  let ?m = "qa_make_arg arg"
  obtain env md where env: "envs_setup H ?m (pr_env p) = Ok env" "env ''BUILD_MODE'' = Some md" and md: "md \<in> {''debug'', ''release''}"
    using envs_setup_ok [OF d, of ?m "pr_env p"] mode by auto
  let ?build = "build_cmd H ''build'' ?m env json" and ?q = "p\<lparr>pr_env := env\<rparr>"
  let ?cs = "clean_cmds H ?m @ [?build, copy_cmd d arch md]" and ?emu = "emulator_cmd arg (result_file d arch md ''jrinx.bin'')"
  obtain r p1 where r: "run_commands H ?cs ?q = (r, p1)" by (cases "run_commands H ?cs ?q")
  have mk: "make_run H ?m p = (Ok r, p1)" using make_runs [OF d, of ?m json, OF _ env] json r by (simp add: arg(2))
  have "emulator H arg p1 = Ok ?emu" using emulator_eq [OF d, of p1 md arg] run_commands_env [OF r] env(2) arg(2) by simp
  then have "qemu_run H arg p = (case run_commands H (?cs @ [?emu]) ?q of (r, p') \<Rightarrow> (Ok r, p'))"
    using run_commands_snoc [of ?cs H ?emu ?q] r mk arg(1) by (simp add: qemu_run_def)
  then have run: "qemu_run H arg p = (case run_commands H (clean_cmds H ?m @ [?build, copy_cmd d arch md, ?emu]) ?q of (r, p') \<Rightarrow> (Ok r, p'))" by simp
  obtain mid where mid: "cmd_args ?build = [''build'', ''--package'', ''jrinx'', ''--target'', absolute json] @ mid @ (if md = ''release'' then [''--release''] else [])"
    using build_cmd_args [where env = env and mode = md, OF env(2), of H "''build''" ?m json] md by auto
  show ?thesis
    by (rule exI [of _ env], rule exI [of _ md], rule exI [of _ ?build], rule exI [of _ "copy_cmd d arch md"], rule exI [of _ mid])
      (use env md run mid build_cmd_program in \<open>simp add: copy_cmd_def cmd_add_def cmd_new_def\<close>)
qed

definition demo_host :: "nat host" where
  "demo_host = \<lparr>ho_cargo = ''cargo'', ho_status = (\<lambda>c env w. (Some 0, w + 1)), ho_current_dir = Some ''/jrinx'', ho_now = ''now'', ho_seed = 7,
     ho_exists = (\<lambda>f w. True), ho_write = (\<lambda>f x w. (True, w)), ho_canonicalize = (\<lambda>f w. Some [''jrinx'', ''kern'', ''tgt'', ''riscv64.json'']),
     ho_remove_dir_all = (\<lambda>f w. (True, w)), ho_create_dir_all = (\<lambda>f w. (True, w)), ho_copy = (\<lambda>f t w. (True, w)), ho_packages = (\<lambda>f w. Some [])\<rparr>"

definition demo_qemu :: QemuArg where
  "demo_qemu = \<lparr>qa_machine = ''virt'', qa_gdb = False, qa_smp = 5, qa_memory = ''1G'', qa_bootargs = None, qa_no_build = False,
     qa_make_arg = \<lparr>ma_debug = False, ma_arch = RISCV64, ma_log_level = None, ma_uprog = ''uprog.jrz'', ma_feat = [], ma_no_default_feat = False, ma_always_make = False\<rparr>\<rparr>"

theorem qemu_boots_built_kernel_witness:
  "\<exists>p'. qemu_run demo_host demo_qemu \<lparr>pr_env = Map.empty, pr_world = 0\<rparr> = (Ok (Some 0), p') \<and> pr_world p' = 3"
proof -
  let ?p = "\<lparr>pr_env = Map.empty, pr_world = 0 :: nat\<rparr>"
  have "ho_current_dir demo_host = Some ''/jrinx''" "\<forall>w. ho_canonicalize demo_host (json_file ''/jrinx'' RISCV64) w = Some [''jrinx'', ''kern'', ''tgt'', ''riscv64.json'']"
    "\<not> qa_no_build demo_qemu" "ma_arch (qa_make_arg demo_qemu) = RISCV64" "pr_env ?p ''BUILD_MODE'' \<in> {None, Some ''debug'', Some ''release''}"
    by (simp_all add: demo_host_def demo_qemu_def)
  from qemu_boots_built_kernel [OF this] obtain env mode build copy where
    "qemu_run demo_host demo_qemu ?p = (case run_commands demo_host (clean_cmds demo_host (qa_make_arg demo_qemu) @
      [build, copy, emulator_cmd demo_qemu (result_file ''/jrinx'' RISCV64 mode ''jrinx.bin'')]) (?p\<lparr>pr_env := env\<rparr>) of (r, p') \<Rightarrow> (Ok r, p'))"
    by blast
  then show ?thesis by (simp add: clean_cmds_def demo_qemu_def cmd_status_def demo_host_def)
qed

text \<open>Without a build nothing has set \<^verbatim>\<open>BUILD_MODE\<close>: unless the caller's environment has it, the task panics before the emulator is
  started.\<close>

theorem qemu_no_build_panics:
  assumes "ho_current_dir H = Some d" "qa_no_build arg" "pr_env p ''BUILD_MODE'' = None"
  shows "qemu_run H arg p = (Panicked, p)"
  using assms by (simp add: qemu_run_def emulator_def built_file_def build_mode_def Let_def)

text \<open>With another value of \<^verbatim>\<open>BUILD_MODE\<close> cargo builds the release profile, and the conversion looks for the kernel in a directory of
  that other name.\<close>

theorem build_mode_other:
  assumes "ho_current_dir H = Some d" "pr_env p ''BUILD_MODE'' = Some ''test''"
  shows "objcopy H arch p = Ok (copy_cmd d arch ''test'')" "\<exists>pre. cmd_args (build_cmd H ''build'' arg (pr_env p) json) = pre @ [''--release'']"
  using objcopy_eq [OF assms] build_cmd_args [where env = "pr_env p" and mode = "''test''", OF assms(2), of H "''build''" arg json] by auto

text \<open>The names of the architectures are read back.\<close>

theorem arch_roundtrip: "arch_from_str s = Some a \<longleftrightarrow> s = arch_to_string a"
  by (cases a) (auto simp: arch_from_str_def arch_to_string_def)

section \<open>Installing user programs\<close>

definition copies :: "event list \<Rightarrow> (string \<times> string \<times> bool) list" where
  "copies l = concat (map (\<lambda>e. case e of Ev_Run _ _ \<Rightarrow> [] | Ev_Copy f t b \<Rightarrow> [(f, t, b)]) l)"

lemma copies_simps [simp]: "copies [] = []" "copies (l @ l') = copies l @ copies l'" "copies [Ev_Run c r] = []" "copies [Ev_Copy f t b] = [(f, t, b)]"
  by (simp_all add: copies_def)

lemma copy_prog_recorded:
  assumes "copy_prog (recording H) arg slug bin p = (Ok (), p')"
  shows "recorded p' = recorded p @ [Ev_Copy bin (slug_file arg slug) True]"
proof -
  obtain w l where w: "pr_world p = (w, l)" by (cases "pr_world p")
  obtain b w1 where b: "ho_create_dir_all H (slug_parent arg slug) w = (b, w1)" by (cases "ho_create_dir_all H (slug_parent arg slug) w")
  obtain c w2 where c: "ho_copy H bin (slug_file arg slug) w1 = (c, w2)" by (cases "ho_copy H bin (slug_file arg slug) w1")
  show ?thesis using assms by (auto simp: copy_prog_def recording_def w b c split: if_splits)
qed

lemma uprog_loop_copies:
  assumes "uprog_loop (recording H) arg progs p = (Ok (Some 0), p')"
  shows "\<exists>slugs. list_all2 (\<lambda>(name, dir) slug. \<exists>w. prog_slug H arg dir w = Ok slug) progs slugs \<and>
    copies (recorded p') = copies (recorded p) @ map2 (\<lambda>(name, dir) slug. (bin_file arg name, slug_file arg slug, True)) progs slugs"
  using assms
proof (induction progs arbitrary: p)
  case (Cons prog progs)
  obtain name dir where n: "prog = (name, dir)" by (cases prog)
  obtain slug where s: "prog_slug (recording H) arg dir (pr_world p) = Ok slug"
    using Cons.prems by (cases "prog_slug (recording H) arg dir (pr_world p)") (auto simp: n)
  let ?bin = "bin_file arg name"
  have s': "prog_slug H arg dir (fst (pr_world p)) = Ok slug" using s by (simp add: prog_slug_def)
  have tail: "\<exists>slugs. list_all2 (\<lambda>(name, dir) slug. \<exists>w. prog_slug H arg dir w = Ok slug) (prog # progs) slugs \<and>
      copies (recorded p') = copies (recorded q) @ map2 (\<lambda>(name, dir) slug. (bin_file arg name, slug_file arg slug, True)) (prog # progs) slugs"
    if c: "(case copy_prog (recording H) arg slug ?bin q of (Inl e, p') \<Rightarrow> (Inl e, p') | (Inr _, p') \<Rightarrow> uprog_loop (recording H) arg progs p') = (Ok (Some 0), p')" for q
  proof -
    obtain q1 where q1: "copy_prog (recording H) arg slug ?bin q = (Ok (), q1)" "uprog_loop (recording H) arg progs q1 = (Ok (Some 0), p')"
      using c by (cases "copy_prog (recording H) arg slug ?bin q") (auto split: sum.splits)
    from Cons.IH [OF q1(2)] obtain slugs where "list_all2 (\<lambda>(name, dir) slug. \<exists>w. prog_slug H arg dir w = Ok slug) progs slugs"
      "copies (recorded p') = copies (recorded q1) @ map2 (\<lambda>(name, dir) slug. (bin_file arg name, slug_file arg slug, True)) progs slugs" by blast
    then show ?thesis using copy_prog_recorded [OF q1(1)] s' by (intro exI [of _ "slug # slugs"]) (auto simp: n)
  qed
  show ?case
  proof (cases "ua_keep_symbols arg")
    case True
    then show ?thesis using tail [of p] Cons.prems s by (simp add: n Let_def)
  next
    case False
    obtain r q where q: "cmd_status (recording H) (cmd_add [?bin] (cmd_new ''rust-strip'')) p = (r, q)"
      "recorded q = recorded p @ [Ev_Run (cmd_add [?bin] (cmd_new ''rust-strip'')) r]" using status_recorded by blast
    have "r = Some 0" using Cons.prems s False q(1) by (auto simp: n Let_def split: option.splits if_splits)
    then show ?thesis using tail [of q] Cons.prems s False q by (simp add: n Let_def)
  qed
qed simp

lemma need_success_recorded:
  assumes "need_success (recording H) c p rest = (Ok (Some x), p')"
  shows "\<exists>q. recorded q = recorded p @ [Ev_Run c (Some 0)] \<and> rest q = (Ok (Some x), p')"
proof -
  obtain r q where q: "cmd_status (recording H) c p = (r, q)" "recorded q = recorded p @ [Ev_Run c r]" using status_recorded by blast
  then show ?thesis using assms by (auto simp: need_success_def split: if_splits)
qed

lemma uprog_build_copies:
  assumes "uprog_build (recording H) arg p = (Ok (Some 0), p')"
  shows "\<exists>w progs slugs. ho_packages H (path_join (ua_path arg) ''Cargo.toml'') w = Some progs \<and>
    list_all2 (\<lambda>(name, dir) slug. \<exists>w. prog_slug H arg dir w = Ok slug) progs slugs \<and>
    copies (recorded p') = copies (recorded p) @ map2 (\<lambda>(name, dir) slug. (bin_file arg name, slug_file arg slug, True)) progs slugs"
proof -
  obtain q where q: "copies (recorded q) = copies (recorded p)" "uprog_install (recording H) arg q = (Ok (Some 0), p')"
  proof -
    obtain q where "recorded q = recorded p @ [Ev_Run (cmd_optional (\<not> ua_debug arg) cargo_release (cargo_target (arch_triple (ua_arch arg))
        (cargo_work_dir (ua_path arg) (cargo_new (recording H) ''build'')))) (Some 0)]" "uprog_install (recording H) arg q = (Ok (Some 0), p')"
      using need_success_recorded [OF assms [unfolded uprog_build_def]] by blast
    then show thesis by (intro that [of q]) simp_all
  qed
  obtain w l where w: "pr_world q = (w, l)" by (cases "pr_world q")
  obtain b w1 where b: "ho_create_dir_all H (dest_dir arg) w = (b, w1)" by (cases "ho_create_dir_all H (dest_dir arg) w")
  have cr: "ho_create_dir_all (recording H) (dest_dir arg) (pr_world q) = (b, w1, l)" by (simp add: recording_def w b)
  let ?q = "q\<lparr>pr_world := (w1, l)\<rparr>"
  obtain progs where pg: "ho_packages H (path_join (ua_path arg) ''Cargo.toml'') w1 = Some progs" "uprog_loop (recording H) arg progs ?q = (Ok (Some 0), p')"
    using q(2) by (cases "ho_packages H (path_join (ua_path arg) ''Cargo.toml'') w1") (auto simp: uprog_install_def cr Let_def split: if_splits)
  then show ?thesis using uprog_loop_copies [OF pg(2)] q(1) w by auto
qed

text \<open>
  Installing the user programs: when \<^verbatim>\<open>uprog\<close> reports success, every package of the workspace has been copied, in order, from the
  directory of its target and profile to its place below the destination, which is given by where its manifest lies below
  \<^verbatim>\<open>programs\<close>, and nothing else has been copied.
\<close>

theorem uprog_installs_programs:
  assumes "uprog_run (recording H) arg p = (Ok (Some 0), p')" "recorded p = []"
  shows "\<exists>w progs slugs. ho_packages H (path_join (ua_path arg) ''Cargo.toml'') w = Some progs \<and>
    list_all2 (\<lambda>(name, dir) slug. \<exists>w. prog_slug H arg dir w = Ok slug) progs slugs \<and>
    copies (recorded p') = map2 (\<lambda>(name, dir) slug. (bin_file arg name, slug_file arg slug, True)) progs slugs"
proof (cases "ua_always_make arg")
  case False
  then show ?thesis using uprog_build_copies [of H arg p p'] assms by (simp add: uprog_run_def)
next
  case True
  obtain q where q: "recorded q = [Ev_Run (cargo_work_dir (ua_path arg) (cargo_new (recording H) ''clean'')) (Some 0)]"
    "(if ho_exists (recording H) (ua_dest arg) (pr_world q)
      then (case ho_remove_dir_all (recording H) (ua_dest arg) (pr_world q) of (removed, w) \<Rightarrow>
        if removed then uprog_build (recording H) arg (q\<lparr>pr_world := w\<rparr>) else (Ok None, q\<lparr>pr_world := w\<rparr>))
      else uprog_build (recording H) arg q) = (Ok (Some 0), p')"
    using need_success_recorded [OF assms(1) [unfolded uprog_run_def, simplified True if_True]] assms(2) by auto
  obtain w l where w: "pr_world q = (w, l)" by (cases "pr_world q")
  obtain b w1 where b: "ho_remove_dir_all H (ua_dest arg) w = (b, w1)" by (cases "ho_remove_dir_all H (ua_dest arg) w")
  have rm: "ho_remove_dir_all (recording H) (ua_dest arg) (pr_world q) = (b, w1, l)" by (simp add: recording_def w b)
  have "\<exists>q'. recorded q' = recorded q \<and> uprog_build (recording H) arg q' = (Ok (Some 0), p')"
  proof (cases "ho_exists (recording H) (ua_dest arg) (pr_world q)")
    case True
    then show ?thesis using q(2) rm w by (intro exI [of _ "q\<lparr>pr_world := (w1, l)\<rparr>"]) (auto split: if_splits)
  next
    case False
    then show ?thesis using q(2) by (intro exI [of _ q]) auto
  qed
  then obtain q' where "recorded q' = recorded q" "uprog_build (recording H) arg q' = (Ok (Some 0), p')" by blast
  then show ?thesis using uprog_build_copies [of H arg q' p'] q(1) by simp
qed

end
