(* ===== verification/Spec2Isabelle.thy ===== *)
theory Spec2Isabelle
  imports Fastpq Stack_Alloc Boot_Map Pt_Ops Irq Net_Buf Tcp_World Intervals Percpu Boot Uart Loader Probe Uprog Bootargs Logging Net_Locks Entry Kernel_Init Xtask
begin

text \<open>
  \<^bold>\<open>The Jrinx kernel\<close>

  Jrinx is a small multi-processor kernel for RISC-V written in Rust (\<^verbatim>\<open>kern/\<close>): a boot
  sequence that sets up paging, per-processor data and the devices of the device tree; a
  three-level cooperative scheduler (a runtime per processor, inspectors as partitions,
  executors that poll futures) with a time-triggered schedule; timed events driven by the
  timer interrupt; trap handling; external interrupts routed by a dispatch strategy; and a TCP
  stack on a virtio network card. This development models those parts as functions in HOL and
  proves what makes each of them correct. Paths below are relative to \<^verbatim>\<open>kern/modules\<close>.

  \<^bold>\<open>Conventions.\<close> The model is of the default build, riscv64 in the release profile:
  \<^verbatim>\<open>usize\<close> is a 64-bit word, arithmetic wraps, \<^verbatim>\<open>debug_assert!\<close> is absent. A call that can fail
  returns \<open>'a res\<close>: \<open>Ok\<close>, an error of \<^verbatim>\<open>InternalError\<close>, or \<open>Panicked\<close> for a panic, an index
  out of range, a failed \<^verbatim>\<open>unwrap\<close> or \<^verbatim>\<open>assert!\<close>. State is passed explicitly and is returned in
  the error case too, so that what an operation leaves behind when it fails is part of its
  meaning. Locks that an operation takes and releases within one call are not represented
  outside \<open>Net_Locks\<close> and \<open>Logging\<close>;
  where operations of several processors interleave, the step relations interleave them at
  their critical sections.
  Calls of the log macros inside operations are not represented.

  \<^bold>\<open>Parts and theories\<close>

  \<^item> \<open>Jrinx_Prelude\<close>: machine integers, the error enumeration (\<^verbatim>\<open>error\<close>), results, shared facts.
  \<^item> \<open>Fastpq\<close> (\<^verbatim>\<open>util/src/fastpq.rs\<close>): the bitmap priority queue; interface \<open>prio_fifo\<close>,
    interpreted for the plain and for the locked queue; it refines a list in serving order.
  \<^item> \<open>Addr\<close>, \<open>Pte\<close> (\<^verbatim>\<open>addr\<close>, \<^verbatim>\<open>addr-macro\<close>, \<^verbatim>\<open>config\<close>, \<^verbatim>\<open>paging/src/arch/riscv/mod.rs\<close>): addresses,
    rounding, remapping, indexes, entries and their round trips.
  \<^item> \<open>Phys_Frame\<close> (\<^verbatim>\<open>phys-frame\<close>): kernel memory as 8-byte cells and reference-counted frames.
  \<^item> \<open>Boot_Paging\<close>, \<open>Boot_Map\<close> (\<^verbatim>\<open>paging/src/arch/riscv/boot.rs\<close>): the boot page table; which addresses it maps, and
    the mapping of single device pages, with the number of tables it allocates.
  \<^item> \<open>Page_Table\<close> (\<^verbatim>\<open>paging/src/common.rs\<close>, \<^verbatim>\<open>vmm\<close>): the three-level table; mapping, unmapping and
    translation against the entry that the hardware walks.
  \<^item> \<open>Pt_Ops\<close>: any sequence of page table operations by callers that hold frames; no frame is given back while it is
    mapped or held.
  \<^item> \<open>Stack_Alloc\<close> (\<^verbatim>\<open>stack-alloc\<close>, closures of \<^verbatim>\<open>multitask/src/executor.rs\<close>): stacks never overlap;
    interface \<open>page_mapper\<close>, interpreted for the kernel page table.
  \<^item> \<open>Riscv_Asm\<close>, \<open>Switch_Context\<close>, \<open>Trap_Entry\<close> (\<^verbatim>\<open>multitask/src/arch/riscv\<close>,
    \<^verbatim>\<open>trap/src/arch/riscv/entry.rs\<close>): the assembly as lists of instructions run on a processor
    model; interface \<open>reg_frame\<close> for groups of save slots, interpreted for every group the code has.
  \<^item> \<open>Hal\<close> (\<^verbatim>\<open>hal\<close>, \<^verbatim>\<open>serial-id-macro\<close>): write-once values, clock and timer conversion.
  \<^item> \<open>Timed_Event\<close> (\<^verbatim>\<open>timed-event\<close>): events, queues, trackers; a step relation over all processors
    in which every event fires at most once; the timer follows the earliest event.
  \<^item> \<open>Trap\<close> (\<^verbatim>\<open>trap/src\<close>): trap reasons, handlers and their dispatch.
  \<^item> \<open>Executor\<close>, \<open>Sched_Table\<close>, \<open>Runtime\<close> (\<^verbatim>\<open>multitask/src\<close>): tasks, wakers, the polling loop; the
    schedule table; inspectors, the two run loops of a runtime and the end-of-work protocol.
  \<^item> \<open>Irq\<close> (\<^verbatim>\<open>driver/src/irq\<close>, \<^verbatim>\<open>driver/src/io/mmio.rs\<close>): the platform interrupt controller refines a set
    of enabled pairs (interface \<open>enable_bits\<close>), the device table, the per-processor controller and
    the three dispatch strategies, which read the runtimes of all processors.
  \<^item> \<open>Net_Buf\<close> (\<^verbatim>\<open>driver/src/net\<close>, tokens of \<^verbatim>\<open>driver/src/smoltcp_impl/mod.rs\<close>): the buffer pool and the
    network card; ownership of every buffer as an invariant of a step relation.
  \<^item> \<open>Tcp_Listen\<close>, \<open>Tcp\<close>, \<open>Tcp_World\<close> (\<^verbatim>\<open>driver/src/smoltcp_impl\<close>): address conversion, the listen
    table, the socket set, every operation of a TCP socket, and all sockets together as a step
    relation whose invariant is exclusive ownership of stack sockets and ports.
  \<^item> \<open>Net_Locks\<close> (the same files): the order in which the network operations take their spin locks;
    which of them never deadlock, and which can.
  \<^item> \<open>Intervals\<close> (\<^verbatim>\<open>util/src/interval.rs\<close>, \<^verbatim>\<open>heap\<close>, \<^verbatim>\<open>driver/src/mem.rs\<close>): sets of intervals as lists of
    end points refine set difference; the memory given to the heap.
  \<^item> \<open>Percpu\<close> (\<^verbatim>\<open>percpu\<close>, \<^verbatim>\<open>percpu-macro\<close>): the areas of the processors and the generated accessors.
  \<^item> \<open>Entry\<close>, \<open>Boot\<close> (\<^verbatim>\<open>kern/src/arch/riscv\<close>, \<^verbatim>\<open>kern/src/main.rs\<close>, \<^verbatim>\<open>driver/src/bus/virtio.rs\<close>): the first
    instructions of a processor, counting and starting processors, the boot barrier as a step
    relation, and the addresses given to devices. A refused start or a failed initialisation is a panic, which shuts the whole
    machine down; without the HSM extension of the firmware nobody is started, and the first task waits.
  \<^item> \<open>Uart\<close> (\<^verbatim>\<open>driver/src/uart/ns16550a.rs\<close>): the serial port.
  \<^item> \<open>Probe\<close> (\<^verbatim>\<open>devprober\<close>, \<^verbatim>\<open>driver/src/lib.rs\<close>, probe functions of the drivers): the walk over the
    device tree; every device ends up registered at its controller, with the register pages mapped that the code maps. Registers are
    a total function: an access outside the mapped pages does not fault in the model, and \<open>plic_writes_mapped\<close> shows separately that the
    controller's own writes stay within them.
  \<^item> \<open>Kernel_Init\<close> (\<^verbatim>\<open>kern/src/main.rs\<close>): the initialisation sequences of the first and of the other processors, composed of the components
    above, up to the start of the runtime; the switch from the boot table to the kernel page table keeps every kernel address. Page frames
    and the rest of the heap are two parameters there. External interrupts are handled there too, through the tables and counters that the
    initialisation left behind.
  \<^item> \<open>Loader\<close> (\<^verbatim>\<open>loader\<close>), \<open>Uprog\<close> (\<^verbatim>\<open>uprog\<close>, \<^verbatim>\<open>xtask/src/ar.rs\<close>): the segments of a program, and the
    archive of user programs with the lookup in it.
  \<^item> \<open>Bootargs\<close> (\<^verbatim>\<open>kern/src/bootargs.rs\<close>, \<^verbatim>\<open>testdef\<close>): the boot arguments and the tests they start.
  \<^item> \<open>Xtask\<close> (\<^verbatim>\<open>xtask/src\<close>): the tasks that build the kernel and the user programs and start the emulator, as the
    commands they run in a host given as a parameter; starting the emulator is exactly the run of a list of commands up to the first
    failure.
  \<^item> \<open>Logging\<close> (\<^verbatim>\<open>logging\<close>): the layout of log lines and their writing by several processors.

  The theory at hand composes the start of the kernel with interrupt handling: a device found in the tree is
  the one whose driver runs when its interrupt is claimed, for the two interrupt numbers that the kernel counts.

  \<^bold>\<open>Loops.\<close> Loops over data are structural recursion. A loop that may run for ever is a
  \<^verbatim>\<open>partial_function\<close> in the option type (\<open>timer_loop\<close>, \<open>run_loop\<close>, \<open>inspector_run\<close>, \<open>table_loop\<close>,
  \<open>run_without_sched_table\<close>, \<open>block_loop\<close>, \<open>recycle_tx_buffers\<close>, \<open>ns_wait\<close>, \<open>exec_opts\<close>), so not returning is a value, and
  the theorems about them say that they return under stated conditions. The search for an
  ephemeral port is a recursion over the 16384 ports of the range; merging interval ends
  (\<open>ei_collect\<close>) is shown to terminate.

  \<^bold>\<open>Code outside the repository.\<close> The global allocator, the \<^verbatim>\<open>riscv\<close> and \<^verbatim>\<open>sbi\<close> crates, futures and
  closures, the virtqueues and the TCP engine, the parsers of the device tree, of ELF files, of the archive and of
  command line options are parameters of the definitions. What the code
  relies on is stated by named predicates (\<open>frame_allocator_ok\<close>, \<open>slots_free\<close>, \<open>poll_ok\<close>,
  \<open>rx_in_order\<close>, \<open>tx_used\<close>, \<open>sends\<close>, \<open>frames_for\<close>, \<open>listens\<close>, \<open>comes_up\<close>, \<open>net_ok\<close>, \<open>cpio_ok\<close>, \<open>getargs_ok\<close> and the like), each satisfied by a concrete instance in a witness.

  \<^bold>\<open>Not modelled.\<close> The Python scripts, the test programs, the parsing
  done by procedural macros, the panic message, the linker symbols and the single-instruction
  wrappers of \<^verbatim>\<open>hal\<close> have no logic of their own to verify. The 32-bit configuration is not
  modelled.
\<close>

section \<open>From the device tree to the driver\<close>

text \<open>C40. From the device tree to the driver. On a machine the kernel starts on (as in the start of the kernel), whose device tree has a
  processor controller and exactly one platform controller, after the initialisations up to the start of the other processors: every sequence of
  external interrupts, each claimed on one of the first five processors for a serial port or network device of the tree at interrupt 8 or 10
  (the two numbers that the kernel has a counter for), is served in order. Each runs the driver of exactly the device that the tree
  has at that interrupt, once, and is completed at the context that claimed it, and the counter of each number grows by the number of
  its interrupts; this goes through the controller in \<^verbatim>\<open>PLIC_PHANDLE\<close>, the probed name of the machine and the counters of \<^verbatim>\<open>init_strategy\<close>.
  An interrupt with any other number stops the kernel.\<close>

theorem probed_device_serves_interrupt:
  fixes k :: "('h, 'p, 'u, 'd, hart_calls, 'fut) kernel"
  assumes boot: "fresh_kernel me k" "cpus_ok env node hs" "areas_ok env node (dv_heap (kn_devices k))" "tree_fits r in_use fn env (dv_mem (kn_devices k))"
    and counts: "kn_irq_count k = Map.empty" "kn_interrupt_count k = None"
    and tree: "c \<in> set (be_nodes env)" "node_matches (Compatible ''riscv,cpu-intc'') c" "plic_phandles (be_nodes env) = {p}"
    and evs: "\<forall>(m, claim, d, irq)\<in>set evs. unat m < 5 \<and> irq \<in> {8, 10} \<and> ucast (claim (plic_ctx m)) = irq \<and>
        (\<exists>n\<in>set (be_nodes env). device_of (be_platform env) n = Some d \<and> first_interrupt n = Ok irq)"
  shows "\<exists>k0 k1. run_inits [init_cpus env, init_percpu env, init_local_pointer env me, init_devices env, init_irqs me, init_bootargs env,
      secondary_boot env me] k = (Ok (), k0) \<and>
    external_interrupts drv (map (\<lambda>(m, claim, d, irq). (m, claim)) evs) (k0, dw) =
      (Ok (), k1, map (\<lambda>(m, claim, d, irq). (plic_ctx m, irq)) evs, fold (\<lambda>(m, claim, d, irq) dw. snd (drv d irq dw)) evs dw) \<and>
    (\<forall>i\<in>{8, 10}. kn_irq_count k1 i = Some (of_nat (length (filter (\<lambda>(m, claim, d, irq). irq = i) evs)))) \<and>
    (\<forall>m claim dw. ucast (claim (plic_ctx m)) \<notin> {0, 8, 10 :: usize} \<longrightarrow> external_interrupt claim drv m (k1, dw) = (Panicked, k1, [], dw))"
proof -
  obtain k0 where k0: "run_inits (early_inits env me) k = (Ok (), k0)" "controllers_ok (be_nodes env) (kn_devices k0)" "kn_root k0 = virtio_root"
    "\<forall>n\<in>set (be_nodes env). \<forall>d. device_of (be_platform env) n = Some d \<longrightarrow> registered (kn_devices k0) n d"
    "kn_irq_count k0 = (kn_irq_count k)(8 \<mapsto> 0, 10 \<mapsto> 0)" "kn_interrupt_count k0 = call_once (replicate 5 0) (kn_interrupt_count k)"
    using early_inits_ok [OF boot] by (elim exE conjE)
  have "tree_ok (be_platform env) (be_nodes env)" using boot(4) by (simp add: tree_fits_def Let_def)
  moreover have "dom (kn_irq_count k0) = {8, 10}" "kn_interrupt_count k0 = Some (replicate 5 0)" "length (replicate 5 (0 :: u8)) = 5"
    using k0(5,6) counts by (auto simp: call_once_def)
  ultimately have ready: "irq_ready (be_platform env) (be_nodes env) k0" using irq_ready_start tree k0(2,3,4) by blast
  have "\<forall>ev\<in>set evs. device_event (be_platform env) (be_nodes env) ev" using evs by (auto simp: device_event_def)
  from external_interrupts_serve [where drv = drv and dw = dw, OF ready this] obtain k1 where
    k1: "external_interrupts drv (map (\<lambda>(m, claim, d, irq). (m, claim)) evs) (k0, dw) =
      (Ok (), k1, map (\<lambda>(m, claim, d, irq). (plic_ctx m, irq)) evs, fold (\<lambda>(m, claim, d, irq) dw. snd (drv d irq dw)) evs dw)"
    "irq_ready (be_platform env) (be_nodes env) k1"
    "\<forall>i. kn_irq_count k1 i = map_option (\<lambda>c. c + of_nat (length (filter (\<lambda>(m, claim, d, irq). irq = i) evs))) (kn_irq_count k0 i)" by blast
  have "\<forall>i\<in>{8, 10}. kn_irq_count k1 i = Some (of_nat (length (filter (\<lambda>(m, claim, d, irq). irq = i) evs)))" using k1(3) k0(5) by auto
  moreover have "\<forall>m claim dw. ucast (claim (plic_ctx m)) \<notin> {0, 8, 10 :: usize} \<longrightarrow> external_interrupt claim drv m (k1, dw) = (Panicked, k1, [], dw)"
    by (intro allI impI) (rule uncounted_claim_panics [OF k1(2)])
  ultimately show ?thesis using k0(1) k1(1) by blast
qed

text \<open>The serial port and the network device of \<open>demo_nodes\<close>, interrupting on processors 2 and 0.\<close>

theorem probed_device_serves_interrupt_witness:
  "\<exists>k0 k1. run_inits [init_cpus demo_env, init_percpu demo_env, init_local_pointer demo_env 0, init_devices demo_env, init_irqs 0, init_bootargs demo_env,
      secondary_boot demo_env 0] demo_kernel = (Ok (), k0) \<and>
    external_interrupts (\<lambda>d i l. (7, l @ [d])) [(2, \<lambda>c. 10), (0, \<lambda>c. 8)] (k0, []) =
      (Ok (), k1, [(5, 10), (1, 8)], [Dev_Uart 0xFFFFFFFF10000000, Dev_Net 0xFFFFFFFF10008000]) \<and> kn_irq_count k1 10 = Some 1"
proof -
  let ?evs = "[(2, \<lambda>c. 10, Dev_Uart 0xFFFFFFFF10000000, 10), (0, \<lambda>c. 8, Dev_Net 0xFFFFFFFF10008000, 8)] :: (usize \<times> (usize \<Rightarrow> u32) \<times> device \<times> usize) list"
  have n: "demo_serial \<in> set demo_nodes" "demo_card \<in> set demo_nodes" "first_interrupt demo_serial = Ok 10" "first_interrupt demo_card = Ok 8"
    by (simp_all add: demo_nodes_def first_interrupt_def demo_serial_def demo_card_def demo_node_def)
  have evs: "\<forall>(m, claim, d, irq)\<in>set ?evs. unat m < 5 \<and> irq \<in> {8, 10} \<and> ucast (claim (plic_ctx m)) = irq \<and>
      (\<exists>n\<in>set (be_nodes demo_env). device_of (be_platform demo_env) n = Some d \<and> first_interrupt n = Ok irq)"
    using n demo_serial_device demo_card_device by (auto simp: demo_env_def)
  have c: "demo_node\<lparr>fn_compatible := Some [''riscv,cpu-intc'']\<rparr> \<in> set (be_nodes demo_env)"
    "node_matches (Compatible ''riscv,cpu-intc'') (demo_node\<lparr>fn_compatible := Some [''riscv,cpu-intc'']\<rparr>)"
    by (simp_all add: demo_env_def demo_nodes_def node_matches_def)
  have p: "plic_phandles (be_nodes demo_env) = {3}"
    by (auto simp: plic_phandles_def demo_env_def demo_tree_defs node_matches_def)
  have k: "kn_irq_count demo_kernel = Map.empty" "kn_interrupt_count demo_kernel = None" by (simp_all add: demo_kernel_def)
  from probed_device_serves_interrupt [OF demo_machine k c p evs, where drv = "\<lambda>d i l. (7, l @ [d])" and dw = "[]"]
  show ?thesis by (simp add: plic_ctx_def del: run_inits.simps external_interrupts.simps) blast
qed

end
